(* ===== verification/Prelude.thy ===== *)
theory Prelude
  imports Main "HOL-Library.Word"
begin

text \<open>
  What every component of the development shares: the C integer types as words, the result
  type of code that can stop, little-endian byte access to C objects, in-place writes to a
  C array held as a list, and the lemma collections the component proofs are run with.
\<close>

unbundle bit_operations_syntax

section \<open>Machine integers\<close>

type_synonym u8 = "8 word"
type_synonym u16 = "16 word"
type_synonym u32 = "32 word"
type_synonym u64 = "64 word"
type_synonym u128 = "128 word"

text \<open>A C array of bytes is a list; index \<open>i\<close> of the array is \<open>xs ! i\<close>.\<close>

type_synonym bytes = "u8 list"

named_theorems byte_simps \<open>reading and writing little-endian objects\<close>
named_theorems array_simps \<open>in-place writes to an array\<close>
named_theorems result_simps \<open>sequencing of computations that can stop\<close>

section \<open>Computations that can stop\<close>

text \<open>
  \<open>Inl e\<close>: the program stopped with \<open>e\<close> (an exit, an abort, a fault); \<open>Inr x\<close>: it goes on
  with \<open>x\<close>. \<open>rbind\<close> is sequencing: what follows a stop is not run.
\<close>

definition rbind :: "'e + 'a \<Rightarrow> ('a \<Rightarrow> 'e + 'b) \<Rightarrow> 'e + 'b" where
  "rbind m f = (case m of Inl e \<Rightarrow> Inl e | Inr x \<Rightarrow> f x)"

lemma rbind_simps [simp, result_simps]:
  "rbind (Inl e) f = Inl e"
  "rbind (Inr x) f = f x"
  by (simp_all add: rbind_def)

lemma rbind_eq_Inr_iff:
  "rbind m f = Inr y \<longleftrightarrow> (\<exists>x. m = Inr x \<and> f x = Inr y)"
  by (cases m) auto

lemma rbind_eq_Inl_iff:
  "rbind m f = Inl e \<longleftrightarrow> m = Inl e \<or> (\<exists>x. m = Inr x \<and> f x = Inl e)"
  by (cases m) auto

lemma rbind_assoc [result_simps]:
  "rbind (rbind m f) g = rbind m (\<lambda>x. rbind (f x) g)"
  by (cases m) auto

lemma rbind_cong [fundef_cong]:
  "m = m' \<Longrightarrow> (\<And>x. m' = Inr x \<Longrightarrow> f x = f' x) \<Longrightarrow> rbind m f = rbind m' f'"
  by (cases m') auto

section \<open>Strings\<close>

text \<open>A string literal of the program, as bytes.\<close>

definition lit :: "string \<Rightarrow> bytes" where
  "lit s = map of_char s"

section \<open>Little-endian objects\<close>

text \<open>\<open>word_of_le bs\<close>: the value of an unsigned object whose bytes are \<open>bs\<close>, lowest first.\<close>

fun word_of_le :: "bytes \<Rightarrow> 'a::len word" where
  "word_of_le [] = 0"
| "word_of_le (b # bs) = ucast b OR push_bit 8 (word_of_le bs)"

text \<open>\<open>le_bytes n w\<close>: the \<open>n\<close> bytes of \<open>w\<close>, lowest first.\<close>

definition le_bytes :: "nat \<Rightarrow> 'a::len word \<Rightarrow> bytes" where
  "le_bytes n w = map (\<lambda>i. ucast (drop_bit (8 * i) w)) [0..<n]"

lemma length_le_bytes [simp, byte_simps]: "length (le_bytes n w) = n"
  by (simp add: le_bytes_def)

lemma nth_le_bytes [byte_simps]:
  "i < n \<Longrightarrow> le_bytes n w ! i = ucast (drop_bit (8 * i) w)"
  by (simp add: le_bytes_def)

lemma le_bytes_0 [simp]: "le_bytes 0 w = []"
  by (simp add: le_bytes_def)

lemma le_bytes_Suc: "le_bytes (Suc n) w = ucast w # le_bytes n (drop_bit 8 w)"
proof (rule nth_equalityI)
  show "length (le_bytes (Suc n) w) = length (ucast w # le_bytes n (drop_bit 8 w))"
    by simp
next
  fix i assume "i < length (le_bytes (Suc n) w)"
  then show "le_bytes (Suc n) w ! i = (ucast w # le_bytes n (drop_bit 8 w)) ! i"
    by (cases i) (simp_all add: nth_le_bytes add.commute)
qed

lemma bit_word_of_le:
  "bit (word_of_le bs :: 'a::len word) k \<longleftrightarrow>
     k < LENGTH('a) \<and> k < 8 * length bs \<and> bit (bs ! (k div 8)) (k mod 8)"
proof (induction bs arbitrary: k)
  case Nil
  then show ?case by simp
next
  case (Cons b bs)
  show ?case
  proof (cases "k < 8")
    case True
    then show ?thesis
      by (simp add: bit_simps)
  next
    case False
    then obtain j where k: "k = 8 + j" using le_Suc_ex by (metis not_less)
    have nb: "\<not> bit b (8 + j)"
      using bit_imp_le_length [of b "8 + j"] by auto
    have "bit (word_of_le (b # bs) :: 'a word) k \<longleftrightarrow>
        k < LENGTH('a) \<and> bit (word_of_le bs :: 'a word) j"
      using k nb by (auto simp: bit_simps)
    moreover have "(8 + j) div 8 = Suc (j div 8)" by simp
    ultimately show ?thesis
      using k by (auto simp: Cons.IH)
  qed
qed

lemma le_bytes_word_of_le:
  assumes "8 * length bs \<le> LENGTH('a::len)"
  shows "le_bytes (length bs) (word_of_le bs :: 'a word) = bs"
proof (rule nth_equalityI)
  show "length (le_bytes (length bs) (word_of_le bs :: 'a word)) = length bs" by simp
next
  fix i assume "i < length (le_bytes (length bs) (word_of_le bs :: 'a word))"
  then have i: "i < length bs" by simp
  have "bit (ucast (drop_bit (8 * i) (word_of_le bs :: 'a word)) :: u8) k \<longleftrightarrow> bit (bs ! i) k"
    if "k < 8" for k
  proof -
    have "8 * i + k < 8 * length bs" "(8 * i + k) div 8 = i" "(8 * i + k) mod 8 = k"
      using i that by auto
    moreover have "8 * i + k < LENGTH('a)"
      using calculation(1) assms by linarith
    ultimately show ?thesis
      using that by (simp add: bit_simps bit_word_of_le)
  qed
  then have "ucast (drop_bit (8 * i) (word_of_le bs :: 'a word)) = bs ! i"
    by (intro bit_word_eqI) simp
  then show "le_bytes (length bs) (word_of_le bs :: 'a word) ! i = bs ! i"
    using i by (simp add: nth_le_bytes)
qed

lemma word_of_le_le_bytes [byte_simps]:
  assumes "LENGTH('a::len) \<le> 8 * n"
  shows "word_of_le (le_bytes n w) = (w :: 'a word)"
proof (rule bit_word_eqI)
  fix k assume k: "k < LENGTH('a)"
  then have "k div 8 < n" using assms by (simp add: div_less_iff_less_mult mult.commute)
  moreover have "8 * (k div 8) + k mod 8 = k" by simp
  ultimately show "bit (word_of_le (le_bytes n w) :: 'a word) k \<longleftrightarrow> bit w k"
    using k assms by (simp add: bit_word_of_le nth_le_bytes bit_simps)
qed

lemma word_of_le_append_zeros:
  "word_of_le (bs @ replicate n 0) = (word_of_le bs :: 'a::len word)"
proof (rule bit_word_eqI)
  fix k assume "k < LENGTH('a)"
  then show "bit (word_of_le (bs @ replicate n 0) :: 'a word) k \<longleftrightarrow>
      bit (word_of_le bs :: 'a word) k"
    by (auto simp: bit_word_of_le nth_append div_less_iff_less_mult mult.commute)
qed

lemma word_of_le_append:
  "word_of_le (xs @ ys) =
     (word_of_le xs :: 'a::len word) OR push_bit (8 * length xs) (word_of_le ys)"
  by (induction xs) (simp_all add: push_bit_or or.assoc add.commute)

section \<open>Counting loops on words\<close>

lemma unat_less_exp: "unat (w :: 'a::len word) < 2 ^ LENGTH('a)"
  by (rule unsigned_less)

lemma unat_inc:
  assumes "i < (n :: 'a::len word)"
  shows "unat (i + 1) = Suc (unat i)"
proof -
  have "Suc (unat i) < 2 ^ LENGTH('a)"
    using assms unat_less_exp [of n] unfolding word_less_nat_alt by linarith
  then show ?thesis
    by (simp add: unat_word_ariths)
qed

lemma unat_diff_le: "i \<le> (n :: 'a::len word) \<Longrightarrow> unat (n - i) = unat n - unat i"
  by (simp add: unat_sub)

lemma inc_le: "i < (n :: 'a::len word) \<Longrightarrow> i + 1 \<le> n"
  using unat_inc [of i n] by (simp add: word_le_nat_alt word_less_nat_alt)

lemma count_up_measure [termination_simp]:
  assumes "i < (n :: 'a::len word)"
  shows "unat (n - (i + 1)) < unat (n - i)"
proof -
  have "i + 1 \<le> n" "i \<le> n" using assms by (auto intro: inc_le)
  then show ?thesis
    using assms by (simp add: unat_diff_le unat_inc word_less_nat_alt)
qed

lemma unat_plus_of_nat:
  assumes "unat (w :: 'a::len word) + n < 2 ^ LENGTH('a)"
  shows "unat (w + of_nat n) = unat w + n"
  using assms by (simp add: unat_word_ariths unat_of_nat take_bit_nat_eq_self_iff mod_simps)

lemma and_le_mask_right: "unat (i AND m) \<le> unat (m :: 'a::len word)"
  by (simp add: word_and_le1 flip: word_le_nat_alt)

lemma unat_exp:
  assumes "k < LENGTH('a)"
  shows "unat (2 ^ k :: 'a::len word) = 2 ^ k"
proof -
  have "unat (2 ^ k :: 'a word) = unat (of_nat (2 ^ k) :: 'a word)" by simp
  also have "\<dots> = 2 ^ k"
    using assms by (simp only: unat_of_nat power_strict_increasing mod_less)
  finally show ?thesis .
qed

lemma unat_mask:
  assumes "k \<le> LENGTH('a)"
  shows "unat (mask k :: 'a::len word) = 2 ^ k - 1"
proof -
  have "unat (mask k :: 'a word) = unat (take_bit k (- 1 :: 'a word))"
    by (simp add: take_bit_minus_one_eq_mask)
  also have "\<dots> = take_bit k (mask LENGTH('a))"
    by (simp add: unsigned_take_bit_eq unsigned_minus_1_eq_mask del: take_bit_minus_one_eq_mask)
  also have "\<dots> = 2 ^ k - 1"
    using assms by (simp only: take_bit_of_mask min_def if_True) (simp add: mask_eq_exp_minus_1)
  finally show ?thesis .
qed

section \<open>Evaluating closed word terms\<close>

text \<open>
  The simplifier computes on word numerals without reducing them modulo the word's size.
  \<open>wnorm\<close> is the identity; its equations on numerals reduce, which keeps long computations
  on closed terms small.
\<close>

definition wnorm :: "'a::len word \<Rightarrow> 'a word" where
  "wnorm w = w"

lemma wnorm_eval:
  "wnorm (numeral n :: 'a::len word) = word_of_int (take_bit LENGTH('a) (numeral n))"
  "wnorm (0 :: 'a word) = 0"
  "wnorm (1 :: 'a word) = 1"
  "wnorm (- numeral n :: 'a word) = word_of_int (take_bit LENGTH('a) (- numeral n))"
  by (simp_all add: wnorm_def)

section \<open>Writes into an array\<close>

text \<open>
  \<open>array_write xs i ys\<close>: the array \<open>xs\<close> after \<open>ys\<close> has been copied to its elements from
  index \<open>i\<close> on (\<open>memcpy(&xs[i], ys, n)\<close>). Every use is guarded by a bound on \<open>i\<close>.
\<close>

definition array_write :: "'a list \<Rightarrow> nat \<Rightarrow> 'a list \<Rightarrow> 'a list" where
  "array_write xs i ys = take i xs @ ys @ drop (i + length ys) xs"

lemma length_array_write [simp, array_simps]:
  "i + length ys \<le> length xs \<Longrightarrow> length (array_write xs i ys) = length xs"
  by (simp add: array_write_def)

lemma take_array_write [array_simps]:
  "i + length ys \<le> length xs \<Longrightarrow> take (i + length ys) (array_write xs i ys) = take i xs @ ys"
  by (simp add: array_write_def)

lemma take_array_write_before [array_simps]:
  "n \<le> i \<Longrightarrow> i \<le> length xs \<Longrightarrow> take n (array_write xs i ys) = take n xs"
  by (simp add: array_write_def min_def)

lemma nth_array_write [array_simps]:
  assumes "i + length ys \<le> length xs" "k < length xs"
  shows "array_write xs i ys ! k =
    (if i \<le> k \<and> k < i + length ys then ys ! (k - i) else xs ! k)"
  using assms by (auto simp: array_write_def nth_append min_def)

lemma array_write_Nil [simp, array_simps]: "array_write xs i [] = xs"
  by (simp add: array_write_def)

end
