(* ===== verification/Siphash.thy ===== *)
theory Siphash
  imports Prelude
begin

text \<open>
  The two copies of SipHash: \<open>2020-02-mmuniq/csiphash.c\<close> (\<open>siphash24\<close> with the \<open>res\<close>
  output the Bloom filter uses) and \<open>2019-07-kernel-fuzzing/src/siphash.c\<close> (\<open>siphash24\<close>,
  \<open>hsiphash\<close>, \<open>hsiphash_static\<close>). Both are proved equal to a reference SipHash-c-d over a
  padded message. The source pointer and its size are one list of bytes; the host is
  little-endian, so \<open>_le64toh\<close> is the identity and a 64-bit load is \<open>word_of_le\<close>.
\<close>

unbundle bit_operations_syntax

section \<open>The code\<close>

definition ROTATE :: "u64 \<Rightarrow> nat \<Rightarrow> u64" where
  "ROTATE x b = push_bit b x OR drop_bit (64 - b) x"

type_synonym quad = "u64 \<times> u64 \<times> u64 \<times> u64"

text \<open>The macro assigns to its first four arguments, in this order.\<close>

definition HALF_ROUND :: "u64 \<Rightarrow> u64 \<Rightarrow> u64 \<Rightarrow> u64 \<Rightarrow> nat \<Rightarrow> nat \<Rightarrow> quad" where
  "HALF_ROUND a b c d s t =
     (let a = a + b;
          c = c + d;
          b = ROTATE b s XOR a;
          d = ROTATE d t XOR c;
          a = ROTATE a 32
      in (a, b, c, d))"

definition DOUBLE_ROUND :: "quad \<Rightarrow> quad" where
  "DOUBLE_ROUND v =
     (let (v0, v1, v2, v3) = v;
          (v0, v1, v2, v3) = HALF_ROUND v0 v1 v2 v3 13 16;
          (v2, v1, v0, v3) = HALF_ROUND v2 v1 v0 v3 17 21;
          (v0, v1, v2, v3) = HALF_ROUND v0 v1 v2 v3 13 16;
          (v2, v1, v0, v3) = HALF_ROUND v2 v1 v0 v3 17 21
      in (v0, v1, v2, v3))"

text \<open>\<open>while (src_sz >= 8)\<close>: the state and what is left of the source.\<close>

fun sip_blocks :: "(quad \<Rightarrow> quad) \<Rightarrow> bytes \<Rightarrow> quad \<Rightarrow> quad \<times> bytes" where
  "sip_blocks rnd src (v0, v1, v2, v3) =
     (if 8 \<le> length src then
        (let mi = word_of_le (take 8 src);
             v3 = v3 XOR mi;
             (v0, v1, v2, v3) = rnd (v0, v1, v2, v3);
             v0 = v0 XOR mi
         in sip_blocks rnd (drop 8 src) (v0, v1, v2, v3))
      else ((v0, v1, v2, v3), src))"

declare sip_blocks.simps [simp del]

text \<open>
  \<open>switch (src_sz)\<close>: \<open>pt\<close> are the bytes of \<open>t\<close>, \<open>m\<close> the remaining bytes; each case falls
  through to the next, and case 4 copies four bytes and breaks.
\<close>

fun sip_tail :: "nat \<Rightarrow> bytes \<Rightarrow> bytes \<Rightarrow> bytes" where
  "sip_tail n m pt =
     (if n = 7 then sip_tail 6 m (pt[6 := m ! 6])
      else if n = 6 then sip_tail 5 m (pt[5 := m ! 5])
      else if n = 5 then sip_tail 4 m (pt[4 := m ! 4])
      else if n = 4 then array_write pt 0 (take 4 m)
      else if n = 3 then sip_tail 2 m (pt[2 := m ! 2])
      else if n = 2 then sip_tail 1 m (pt[1 := m ! 1])
      else if n = 1 then pt[0 := m ! 0]
      else pt)"

declare sip_tail.simps [simp del]

text \<open>Everything up to the \<open>if (res)\<close>: the final state \<open>v0\<close> to \<open>v3\<close>.\<close>

definition sip_state :: "(quad \<Rightarrow> quad) \<Rightarrow> u64 \<Rightarrow> u64 \<Rightarrow> bytes \<Rightarrow> quad" where
  "sip_state rnd k0 k1 src =
     (let b = push_bit 56 (of_nat (length src));
          v0 = k0 XOR 0x736f6d6570736575;
          v1 = k1 XOR 0x646f72616e646f6d;
          v2 = k0 XOR 0x6c7967656e657261;
          v3 = k1 XOR 0x7465646279746573;
          ((v0, v1, v2, v3), m) = sip_blocks rnd src (v0, v1, v2, v3);
          b = b OR word_of_le (sip_tail (length m) m (replicate 8 0));
          v3 = v3 XOR b;
          (v0, v1, v2, v3) = rnd (v0, v1, v2, v3);
          v0 = v0 XOR b;
          v2 = v2 XOR 0xff
      in rnd (rnd (v0, v1, v2, v3)))"

text \<open>
  \<open>csiphash.c\<close>: \<open>res = None\<close> is the null pointer; otherwise the four words of the state are
  stored in \<open>res[0..3]\<close> and the returned value is -1.
\<close>

definition siphash24 ::
    "bytes \<Rightarrow> u64 \<Rightarrow> u64 \<Rightarrow> u64 list option \<Rightarrow> u64 \<times> u64 list option" where
  "siphash24 src k0 k1 res =
     (let (v0, v1, v2, v3) = sip_state DOUBLE_ROUND k0 k1 src
      in case res of
           Some r \<Rightarrow> (-1, Some (r[0 := v0, 1 := v1, 2 := v2, 3 := v3]))
         | None \<Rightarrow> ((v0 XOR v1) XOR (v2 XOR v3), None))"

text \<open>
  \<open>siphash.c\<close> of the fuzzer: the key is 16 bytes, read as two 64-bit words. \<open>ROUND\<close> is half
  of \<open>DOUBLE_ROUND\<close>; \<open>hsiphash\<close> returns the low 32 bits.
\<close>

definition fuzz_siphash24 :: "bytes \<Rightarrow> bytes \<Rightarrow> u64" where
  "fuzz_siphash24 src key =
     (let k0 = word_of_le (take 8 key);
          k1 = word_of_le (take 8 (drop 8 key));
          (v0, v1, v2, v3) = sip_state DOUBLE_ROUND k0 k1 src
      in (v0 XOR v1) XOR (v2 XOR v3))"

definition SIP_ROUND :: "quad \<Rightarrow> quad" where
  "SIP_ROUND v =
     (let (v0, v1, v2, v3) = v;
          (v0, v1, v2, v3) = HALF_ROUND v0 v1 v2 v3 13 16;
          (v2, v1, v0, v3) = HALF_ROUND v2 v1 v0 v3 17 21
      in (v0, v1, v2, v3))"

definition hsiphash :: "bytes \<Rightarrow> bytes \<Rightarrow> u32" where
  "hsiphash src key =
     (let k0 = word_of_le (take 8 key);
          k1 = word_of_le (take 8 (drop 8 key));
          (v0, v1, v2, v3) = sip_state SIP_ROUND k0 k1 src
      in ucast ((v0 XOR v1) XOR (v2 XOR v3)))"

definition siphash_key :: bytes where
  "siphash_key = [0, 1, 2, 3, 4, 5, 6, 7, 8, 9, 0xa, 0xb, 0xc, 0xd, 0xe, 0xf]"

definition hsiphash_static :: "bytes \<Rightarrow> u32" where
  "hsiphash_static src = hsiphash src siphash_key"

section \<open>The reference\<close>

text \<open>
  SipHash-c-d: the message is padded with zeros and its length modulo 256 to a multiple of
  eight bytes and split into words; each word is added to \<open>v3\<close>, \<open>c\<close> rounds are run and the
  word is added to \<open>v0\<close>; then \<open>d\<close> rounds finish. The round is the paper's.
\<close>

definition sip_round :: "quad \<Rightarrow> quad" where
  "sip_round v =
     (let (v0, v1, v2, v3) = v;
          v0 = v0 + v1; v1 = word_rotl 13 v1; v1 = v1 XOR v0; v0 = word_rotl 32 v0;
          v2 = v2 + v3; v3 = word_rotl 16 v3; v3 = v3 XOR v2;
          v0 = v0 + v3; v3 = word_rotl 21 v3; v3 = v3 XOR v0;
          v2 = v2 + v1; v1 = word_rotl 17 v1; v1 = v1 XOR v2; v2 = word_rotl 32 v2
      in (v0, v1, v2, v3))"

fun chunks8 :: "bytes \<Rightarrow> bytes list" where
  "chunks8 m = (if m = [] then [] else take 8 m # chunks8 (drop 8 m))"

declare chunks8.simps [simp del]

definition sip_pad :: "bytes \<Rightarrow> bytes" where
  "sip_pad m = m @ replicate (7 - length m mod 8) 0 @ [of_nat (length m)]"

definition sip_words :: "bytes \<Rightarrow> u64 list" where
  "sip_words m = map word_of_le (chunks8 (sip_pad m))"

definition sip_absorb :: "nat \<Rightarrow> quad \<Rightarrow> u64 \<Rightarrow> quad" where
  "sip_absorb c v w =
     (let (v0, v1, v2, v3) = v;
          (v0, v1, v2, v3) = (sip_round ^^ c) (v0, v1, v2, v3 XOR w)
      in (v0 XOR w, v1, v2, v3))"

definition sip_init :: "u64 \<Rightarrow> u64 \<Rightarrow> quad" where
  "sip_init k0 k1 =
     (k0 XOR 0x736f6d6570736575, k1 XOR 0x646f72616e646f6d,
      k0 XOR 0x6c7967656e657261, k1 XOR 0x7465646279746573)"

definition sip_ref_state :: "nat \<Rightarrow> nat \<Rightarrow> u64 \<Rightarrow> u64 \<Rightarrow> bytes \<Rightarrow> quad" where
  "sip_ref_state c d k0 k1 m =
     (let (v0, v1, v2, v3) = foldl (sip_absorb c) (sip_init k0 k1) (sip_words m)
      in (sip_round ^^ d) (v0, v1, v2 XOR 0xff, v3))"

definition quad_xor :: "quad \<Rightarrow> u64" where
  "quad_xor v = (let (v0, v1, v2, v3) = v in v0 XOR v1 XOR v2 XOR v3)"

definition siphash_ref :: "nat \<Rightarrow> nat \<Rightarrow> u64 \<Rightarrow> u64 \<Rightarrow> bytes \<Rightarrow> u64" where
  "siphash_ref c d k0 k1 m = quad_xor (sip_ref_state c d k0 k1 m)"

section \<open>The rounds\<close>

lemma ROTATE_eq_rotl:
  assumes "b < 64"
  shows "ROTATE x b = word_rotl b x"
proof (rule bit_word_eqI)
  fix k assume "k < LENGTH(64)"
  then have k: "k < 64" by simp
  have high: "\<not> bit x (64 - b + k)" if "b \<le> k"
    using that assms bit_imp_le_length [of x "64 - b + k"] by auto
  have idx: "(k + (64 - b)) mod 64 = (if b \<le> k then k - b else 64 - b + k)"
    using k assms by (auto simp: mod_if)
  have "bit (word_rotl b x) k \<longleftrightarrow> bit x (if b \<le> k then k - b else 64 - b + k)"
    using k assms idx by (simp only: bit_word_rotl_iff mod_less) simp
  moreover have "bit (ROTATE x b) k \<longleftrightarrow> (if b \<le> k then bit x (k - b) else bit x (64 - b + k))"
    using k high by (auto simp: ROTATE_def bit_simps)
  ultimately show "bit (ROTATE x b) k = bit (word_rotl b x) k"
    by simp
qed

lemma SIP_ROUND_eq: "SIP_ROUND v = sip_round v"
  by (cases v)
    (simp add: SIP_ROUND_def sip_round_def HALF_ROUND_def ROTATE_eq_rotl Let_def)

lemma DOUBLE_ROUND_eq: "DOUBLE_ROUND v = (sip_round ^^ 2) v"
  by (cases v)
    (simp add: DOUBLE_ROUND_def sip_round_def HALF_ROUND_def ROTATE_eq_rotl Let_def
       numeral_2_eq_2)

section \<open>The message blocks\<close>

lemma chunks8_step:
  "8 \<le> length m \<Longrightarrow> chunks8 m = take 8 m # chunks8 (drop 8 m)"
  by (subst chunks8.simps) auto

lemma chunks8_single: "length m = 8 \<Longrightarrow> chunks8 m = [m]"
  by (subst chunks8_step) (simp_all add: chunks8.simps [of "[]"])

lemma sip_absorb_unfold:
  "sip_absorb c (v0, v1, v2, v3) w =
     (case (sip_round ^^ c) (v0, v1, v2, v3 XOR w) of (u0, u1, u2, u3) \<Rightarrow> (u0 XOR w, u1, u2, u3))"
  by (simp add: sip_absorb_def Let_def)

lemma sip_blocks_absorb:
  assumes "sip_blocks (sip_round ^^ c) src v = (v', m)"
  shows "length m = length src mod 8 \<and>
    foldl (sip_absorb c) v (map word_of_le (chunks8 (src @ ys))) =
    foldl (sip_absorb c) v' (map word_of_le (chunks8 (m @ ys)))"
  using assms
proof (induction "sip_round ^^ c" src v rule: sip_blocks.induct)
  case (1 src v0 v1 v2 v3)
  show ?case
  proof (cases "8 \<le> length src")
    case True
    define mi :: u64 where "mi = word_of_le (take 8 src)"
    obtain u0 u1 u2 u3 where u: "(sip_round ^^ c) (v0, v1, v2, v3 XOR mi) = (u0, u1, u2, u3)"
      by (metis prod_cases4)
    have step: "sip_blocks (sip_round ^^ c) (drop 8 src) (u0 XOR mi, u1, u2, u3) = (v', m)"
      using "1.prems" True u
      by (simp add: sip_blocks.simps [of _ src] mi_def Let_def)
    have IH: "length m = length (drop 8 src) mod 8 \<and>
        foldl (sip_absorb c) (u0 XOR mi, u1, u2, u3) (map word_of_le (chunks8 (drop 8 src @ ys))) =
        foldl (sip_absorb c) v' (map word_of_le (chunks8 (m @ ys)))"
      by (rule "1.hyps" [OF True mi_def refl refl u [symmetric] refl refl refl step])
    have "chunks8 (src @ ys) = take 8 src # chunks8 (drop 8 src @ ys)"
      using True by (simp add: chunks8_step)
    then have "foldl (sip_absorb c) (v0, v1, v2, v3) (map word_of_le (chunks8 (src @ ys))) =
        foldl (sip_absorb c) (u0 XOR mi, u1, u2, u3) (map word_of_le (chunks8 (drop 8 src @ ys)))"
      by (simp add: sip_absorb_unfold u flip: mi_def)
    moreover have "length (drop 8 src) mod 8 = length src mod 8"
      using True by (simp add: mod_if [of "length src"])
    ultimately show ?thesis using IH by simp
  next
    case False
    then have "v' = (v0, v1, v2, v3)" "m = src"
      using "1.prems" by (simp_all add: sip_blocks.simps [of _ src])
    then show ?thesis using False by simp
  qed
qed

lemma sip_tail_zeros:
  assumes "length m < 8"
  shows "sip_tail (length m) m (replicate 8 0) = m @ replicate (8 - length m) 0"
proof -
  have "length m \<in> {0, 1, 2, 3, 4, 5, 6, 7}"
    unfolding insert_iff empty_iff using assms by arith
  then show ?thesis
    by (auto simp: sip_tail.simps length_Suc_conv numeral_eq_Suc array_write_def)
qed

lemma sip_last_word:
  assumes "length m < 8"
  shows "push_bit 56 (of_nat n) OR word_of_le (sip_tail (length m) m (replicate 8 0)) =
    (word_of_le (m @ replicate (7 - length m) 0 @ [of_nat n]) :: u64)"
proof -
  have len: "length m + (7 - length m) = 7" using assms by simp
  have "word_of_le (m @ replicate (7 - length m) 0 @ [of_nat n]) =
      word_of_le (m @ replicate (7 - length m) 0) OR push_bit 56 (ucast (of_nat n :: u8) :: u64)"
    using len word_of_le_append [of "m @ replicate (7 - length m) 0" "[of_nat n]", where ?'a = 64]
    by simp
  also have "push_bit 56 (ucast (of_nat n :: u8)) = (push_bit 56 (of_nat n) :: u64)"
    by (rule bit_word_eqI) (auto simp: bit_simps)
  finally show ?thesis
    using assms by (simp add: sip_tail_zeros word_of_le_append_zeros or.commute)
qed

lemma sip_state_ref:
  "sip_state (sip_round ^^ c) k0 k1 src = sip_ref_state c (2 * c) k0 k1 src"
proof -
  obtain v' m where vm: "sip_blocks (sip_round ^^ c) src (sip_init k0 k1) = (v', m)"
    by (metis surj_pair)
  obtain v0 v1 v2 v3 where v': "v' = (v0, v1, v2, v3)"
    by (metis prod_cases4)
  define pad where "pad = replicate (7 - length src mod 8) 0 @ [of_nat (length src) :: u8]"
  have m: "length m = length src mod 8"
    and fold: "foldl (sip_absorb c) (sip_init k0 k1) (map word_of_le (chunks8 (src @ pad))) =
      foldl (sip_absorb c) v' (map word_of_le (chunks8 (m @ pad)))"
    using sip_blocks_absorb [OF vm] by auto
  have "length (m @ pad) = 8"
    using m by (simp add: pad_def)
  then have one: "chunks8 (m @ pad) = [m @ pad]" by (rule chunks8_single)
  define b :: u64 where "b = word_of_le (m @ pad)"
  have "length m < 8" using m by simp
  then have b: "push_bit 56 (of_nat (length src)) OR
      word_of_le (sip_tail (length m) m (replicate 8 0)) = b"
    unfolding b_def pad_def m [symmetric] by (rule sip_last_word)
  have words: "foldl (sip_absorb c) (sip_init k0 k1) (sip_words src) = sip_absorb c v' b"
    using fold one by (simp add: sip_words_def sip_pad_def pad_def b_def)
  have dbl: "(sip_round ^^ c) ((sip_round ^^ c) x) = (sip_round ^^ (2 * c)) x" for x
    by (simp add: mult_2 funpow_add)
  obtain u0 u1 u2 u3 where u: "(sip_round ^^ c) (v0, v1, v2, v3 XOR b) = (u0, u1, u2, u3)"
    by (metis prod_cases4)
  show ?thesis
    using vm words u b unfolding sip_init_def
    by (simp add: sip_state_def sip_ref_state_def sip_init_def Let_def v' sip_absorb_unfold dbl)
qed

section \<open>Properties of the hash functions\<close>

lemma sip_state_DOUBLE_ROUND: "sip_state DOUBLE_ROUND k0 k1 src = sip_ref_state 2 4 k0 k1 src"
proof -
  have "DOUBLE_ROUND = sip_round ^^ 2" by (rule ext) (rule DOUBLE_ROUND_eq)
  then show ?thesis using sip_state_ref [of 2] by simp
qed

lemma sip_state_SIP_ROUND: "sip_state SIP_ROUND k0 k1 src = sip_ref_state 1 2 k0 k1 src"
proof -
  have "SIP_ROUND = sip_round ^^ 1" by (rule ext) (simp add: SIP_ROUND_eq)
  then show ?thesis using sip_state_ref [of 1] by simp
qed

lemmas sip_states = sip_state_DOUBLE_ROUND sip_state_SIP_ROUND

lemma siphash24_None: "siphash24 src k0 k1 None = (siphash_ref 2 4 k0 k1 src, None)"
  by (simp add: siphash24_def sip_states siphash_ref_def quad_xor_def split_beta xor.assoc)

lemma siphash24_Some:
  assumes "sip_ref_state 2 4 k0 k1 src = (v0, v1, v2, v3)"
  shows "siphash24 src k0 k1 (Some r) = (-1, Some (r[0 := v0, 1 := v1, 2 := v2, 3 := v3]))"
  using assms by (simp add: siphash24_def sip_states)

section \<open>Evaluation\<close>

text \<open>
  Conditional equations that make the simplifier compute each intermediate word once.
\<close>

lemma HALF_ROUND_eval:
  "wnorm (a + b) = a1 \<Longrightarrow> wnorm (c + d) = c1 \<Longrightarrow> wnorm (ROTATE b s XOR a1) = b1 \<Longrightarrow>
   wnorm (ROTATE d t XOR c1) = d1 \<Longrightarrow> wnorm (ROTATE a1 32) = a2 \<Longrightarrow>
   HALF_ROUND a b c d s t = (a2, b1, c1, d1)"
  by (simp add: HALF_ROUND_def Let_def wnorm_def)

lemma DOUBLE_ROUND_eval:
  "HALF_ROUND v0 v1 v2 v3 13 16 = (a0, a1, a2, a3) \<Longrightarrow>
   HALF_ROUND a2 a1 a0 a3 17 21 = (b2, b1, b0, b3) \<Longrightarrow>
   HALF_ROUND b0 b1 b2 b3 13 16 = (c0, c1, c2, c3) \<Longrightarrow>
   HALF_ROUND c2 c1 c0 c3 17 21 = (d2, d1, d0, d3) \<Longrightarrow>
   DOUBLE_ROUND (v0, v1, v2, v3) = (d0, d1, d2, d3)"
  by (simp add: DOUBLE_ROUND_def)

lemma sip_blocks_stop: "length src < 8 \<Longrightarrow> sip_blocks rnd src v = (v, src)"
  by (cases v) (simp add: sip_blocks.simps [of _ src])

lemma sip_blocks_step:
  "8 \<le> length src \<Longrightarrow> word_of_le (take 8 src) = mi \<Longrightarrow> v3 XOR mi = w3 \<Longrightarrow>
   rnd (v0, v1, v2, w3) = (u0, u1, u2, u3) \<Longrightarrow> u0 XOR mi = w0 \<Longrightarrow>
   sip_blocks rnd src (v0, v1, v2, v3) = sip_blocks rnd (drop 8 src) (w0, u1, u2, u3)"
  by (subst sip_blocks.simps) (simp add: Let_def)

lemma sip_state_eval:
  "k0 XOR 0x736f6d6570736575 = v0 \<Longrightarrow> k1 XOR 0x646f72616e646f6d = v1 \<Longrightarrow>
   k0 XOR 0x6c7967656e657261 = v2 \<Longrightarrow> k1 XOR 0x7465646279746573 = v3 \<Longrightarrow>
   sip_blocks rnd src (v0, v1, v2, v3) = ((a0, a1, a2, a3), m) \<Longrightarrow> length m < 8 \<Longrightarrow>
   wnorm (push_bit 56 (of_nat (length src)) OR word_of_le m) = b \<Longrightarrow>
   wnorm (a3 XOR b) = w3 \<Longrightarrow> rnd (a0, a1, a2, w3) = (b0, b1, b2, b3) \<Longrightarrow>
   b0 XOR b = w0 \<Longrightarrow> b2 XOR 0xff = w2 \<Longrightarrow>
   sip_state rnd k0 k1 src = rnd (rnd (w0, b1, w2, b3))"
  by (simp add: sip_state_def Let_def sip_tail_zeros word_of_le_append_zeros wnorm_def)

lemmas sip_eval =
  HALF_ROUND_eval DOUBLE_ROUND_eval sip_blocks_stop sip_blocks_step sip_state_eval ROTATE_def
  wnorm_eval

text \<open>The published SipHash-2-4 vectors for the empty message and for the bytes 0 to 14.\<close>

lemma siphash_vectors:
  "fuzz_siphash24 [] siphash_key = 0x726fdb47dd0e0e31"
  "fuzz_siphash24 [0, 1, 2, 3, 4, 5, 6, 7, 8, 9, 10, 11, 12, 13, 14] siphash_key =
     0xa129ca6149be45e5"
   apply (simp add: fuzz_siphash24_def siphash_key_def)
   apply (simp add: sip_eval)
  apply (simp add: fuzz_siphash24_def siphash_key_def)
  apply (simp add: sip_eval)
  done

section \<open>Main properties\<close>

text \<open>
  C1: the three hash functions compute SipHash as published. \<open>siphash24\<close> of \<open>csiphash.c\<close>
  without a result buffer and \<open>siphash24\<close> of the fuzzer are SipHash-2-4 of the message for
  every length (the block loop, the fall-through switch over the last bytes and the length
  byte together form the padded message); \<open>hsiphash\<close> is the low half of SipHash-1-2.
\<close>

theorem siphash24_reference:
  "siphash24 src k0 k1 None = (siphash_ref 2 4 k0 k1 src, None) \<and>
   fuzz_siphash24 src key =
     siphash_ref 2 4 (word_of_le (take 8 key)) (word_of_le (take 8 (drop 8 key))) src \<and>
   hsiphash src key =
     ucast (siphash_ref 1 2 (word_of_le (take 8 key)) (word_of_le (take 8 (drop 8 key))) src)"
  by (simp add: siphash24_None fuzz_siphash24_def hsiphash_def sip_states siphash_ref_def
      quad_xor_def split_beta Let_def xor.assoc)

text \<open>
  With a result buffer, \<open>siphash24\<close> returns -1 and writes the first four words of the
  buffer only; their exclusive or is the hash the call without a buffer returns.
\<close>

theorem siphash24_result_buffer:
  assumes "4 \<le> length r"
  shows "\<exists>r'. siphash24 src k0 k1 (Some r) = (-1, Some r') \<and> length r' = length r \<and>
    drop 4 r' = drop 4 r \<and>
    fst (siphash24 src k0 k1 None) = r' ! 0 XOR r' ! 1 XOR r' ! 2 XOR r' ! 3"
proof -
  obtain v0 v1 v2 v3 where v: "sip_ref_state 2 4 k0 k1 src = (v0, v1, v2, v3)"
    by (metis prod_cases4)
  have "r \<noteq> []" using assms by auto
  then show ?thesis
    using assms by (simp add: siphash24_Some [OF v] siphash24_None siphash_ref_def quad_xor_def v
        nth_list_update xor.assoc)
qed

theorem siphash24_result_buffer_witness:
  "4 \<le> length (replicate 8 (0 :: u64)) \<and>
   (\<exists>r'. siphash24 [1, 2, 3] 5 6 (Some (replicate 8 0)) = (-1, Some r') \<and>
     length r' = length (replicate 8 (0 :: u64)) \<and> drop 4 r' = drop 4 (replicate 8 0) \<and>
     fst (siphash24 [1, 2, 3] 5 6 None) = r' ! 0 XOR r' ! 1 XOR r' ! 2 XOR r' ! 3)"
proof
  show len: "4 \<le> length (replicate 8 (0 :: u64))" by simp
  show "\<exists>r'. siphash24 [1, 2, 3] 5 6 (Some (replicate 8 0)) = (-1, Some r') \<and>
     length r' = length (replicate 8 (0 :: u64)) \<and> drop 4 r' = drop 4 (replicate 8 0) \<and>
     fst (siphash24 [1, 2, 3] 5 6 None) = r' ! 0 XOR r' ! 1 XOR r' ! 2 XOR r' ! 3"
    by (rule siphash24_result_buffer [OF len])
qed

end
