(* ===== verification/Dedup.thy ===== *)
theory Dedup
  imports Prelude
begin

text \<open>
  The interface between the duplicate filters and the data structures they are built on:
  a structure is offered one key after another and says of each whether it is new. The
  Bloom filter guarantees that no key is reported new twice; the hash table also that every
  key is reported once while it has space. The client's lemmas, over a whole sequence of
  keys, are proved from these laws.
\<close>

section \<open>Feeding a sequence of keys\<close>

text \<open>The answers, one for each key, and the final structure.\<close>

fun feed :: "('k \<Rightarrow> 's \<Rightarrow> bool \<times> 's) \<Rightarrow> 'k list \<Rightarrow> 's \<Rightarrow> bool list \<times> 's" where
  "feed ins [] s = ([], s)"
| "feed ins (x # xs) s =
     (let (b, s) = ins x s; (bs, s) = feed ins xs s in (b # bs, s))"

text \<open>The keys that were answered with \<open>True\<close>.\<close>

definition picked :: "'k list \<Rightarrow> bool list \<Rightarrow> 'k list" where
  "picked xs bs = map fst (filter snd (zip xs bs))"

lemma picked_simps [simp]:
  "picked [] bs = []"
  "picked (x # xs) (b # bs) = (if b then x # picked xs bs else picked xs bs)"
  by (simp_all add: picked_def)

lemma set_picked_subset: "set (picked xs bs) \<subseteq> set xs"
  by (auto simp: picked_def dest: set_zip_leftD)

lemma picked_append:
  "length xs = length bs \<Longrightarrow> picked (xs @ ys) (bs @ cs) = picked xs bs @ picked ys cs"
  by (simp add: picked_def)

lemma feed_Cons_eq:
  "feed ins (x # xs) s = (bs, t) \<longleftrightarrow>
     (\<exists>b s' bs'. ins x s = (b, s') \<and> feed ins xs s' = (bs', t) \<and> bs = b # bs')"
  by (auto simp: Let_def split: prod.splits)

text \<open>The first occurrences of the elements outside \<open>A\<close>, in order.\<close>

fun firsts :: "'k set \<Rightarrow> 'k list \<Rightarrow> 'k list" where
  "firsts A [] = []"
| "firsts A (x # xs) = (if x \<in> A then firsts A xs else x # firsts (insert x A) xs)"

lemma set_firsts: "set (firsts A xs) = set xs - A"
  by (induction xs arbitrary: A) auto

lemma distinct_firsts: "distinct (firsts A xs)"
  by (induction xs arbitrary: A) (auto simp: set_firsts)

text \<open>Which keys are printed (only the repeated ones when \<open>rep\<close>), given the answers.\<close>

definition shown :: "bool \<Rightarrow> 'k list \<Rightarrow> bool list \<Rightarrow> 'k list" where
  "shown rep ls bs = picked ls (map (\<lambda>b. b \<noteq> rep) bs)"

lemma picked_map: "picked (map f xs) bs = map f (picked xs bs)"
  by (induction xs bs rule: list_induct2') (auto simp: picked_def)

lemma shown_new: "shown False ls bs = picked ls bs"
  by (simp add: shown_def)

lemma firsts_map:
  assumes "inj_on f (A \<union> set xs)"
  shows "firsts (f ` A) (map f xs) = map f (firsts A xs)"
  using assms
proof (induction xs arbitrary: A)
  case (Cons x xs)
  have "f x \<in> f ` A \<longleftrightarrow> x \<in> A" using Cons.prems by (auto simp: inj_on_def)
  moreover have "firsts (f ` A) (map f xs) = map f (firsts A xs)"
    using Cons.prems by (intro Cons.IH) (auto simp: inj_on_def)
  moreover have "firsts (insert (f x) (f ` A)) (map f xs) = map f (firsts (insert x A) xs)"
    using Cons.IH [of "insert x A"] Cons.prems by simp
  ultimately show ?case by simp
qed simp

section \<open>The interface\<close>

locale seen_filter =
  fixes ins :: "'k \<Rightarrow> 's \<Rightarrow> bool \<times> 's"
    and mem :: "'s \<Rightarrow> 'k set"
    and inv :: "'s \<Rightarrow> bool"
    and valid :: "'k \<Rightarrow> bool"
  assumes ins_inv: "inv s \<Longrightarrow> valid x \<Longrightarrow> ins x s = (b, s') \<Longrightarrow> inv s'"
    and ins_keeps: "inv s \<Longrightarrow> valid x \<Longrightarrow> ins x s = (b, s') \<Longrightarrow> mem s \<subseteq> mem s'"
    and ins_new: "inv s \<Longrightarrow> valid x \<Longrightarrow> ins x s = (True, s') \<Longrightarrow> x \<notin> mem s \<and> x \<in> mem s'"
begin

lemma feed_inv:
  assumes "inv s" "\<forall>x \<in> set xs. valid x" "feed ins xs s = (bs, t)"
  shows "inv t \<and> mem s \<subseteq> mem t \<and> length bs = length xs"
  using assms
proof (induction xs arbitrary: s bs)
  case Nil
  then show ?case by simp
next
  case (Cons x xs)
  then obtain b s' bs' where "ins x s = (b, s')" "feed ins xs s' = (bs', t)" "bs = b # bs'"
    by (auto simp: feed_Cons_eq simp del: feed.simps)
  then show ?case
    using Cons.IH [of s' bs'] Cons.prems ins_inv [of s x b s'] ins_keeps [of s x b s'] by auto
qed

lemma picked_new:
  assumes "inv s" "\<forall>x \<in> set xs. valid x" "feed ins xs s = (bs, t)"
  shows "distinct (picked xs bs) \<and> set (picked xs bs) \<inter> mem s = {}"
  using assms
proof (induction xs arbitrary: s bs)
  case Nil
  then show ?case by simp
next
  case (Cons x xs)
  then obtain b s' bs' where step: "ins x s = (b, s')" "feed ins xs s' = (bs', t)" "bs = b # bs'"
    by (auto simp: feed_Cons_eq simp del: feed.simps)
  then have "distinct (picked xs bs') \<and> set (picked xs bs') \<inter> mem s' = {}"
    using Cons.IH [of s' bs'] Cons.prems ins_inv [of s x b s'] by auto
  moreover have "mem s \<subseteq> mem s'"
    using Cons.prems step ins_keeps [of s x b s'] by auto
  moreover have "b \<Longrightarrow> x \<notin> mem s \<and> x \<in> mem s'"
    using Cons.prems step ins_new [of s x s'] by auto
  ultimately show ?case using step(3) by auto
qed

end

text \<open>A filter that also answers \<open>True\<close> for every key it has not seen, while it has space.\<close>

locale exact_filter = seen_filter ins mem inv valid
  for ins :: "'k \<Rightarrow> 's \<Rightarrow> bool \<times> 's" and mem and inv and valid +
  fixes space :: "'s \<Rightarrow> nat"
  assumes ins_exact: "inv s \<Longrightarrow> valid x \<Longrightarrow> x \<notin> mem s \<Longrightarrow> 0 < space s \<Longrightarrow> ins x s = (b, s') \<Longrightarrow>
      b \<and> mem s' = insert x (mem s) \<and> space s \<le> Suc (space s')"
    and ins_known: "inv s \<Longrightarrow> valid x \<Longrightarrow> x \<in> mem s \<Longrightarrow> ins x s = (b, s') \<Longrightarrow> \<not> b \<and> s' = s"
begin

lemma picked_firsts:
  assumes "inv s" "\<forall>x \<in> set xs. valid x" "length xs \<le> space s" "feed ins xs s = (bs, t)"
  shows "picked xs bs = firsts (mem s) xs"
  using assms
proof (induction xs arbitrary: s bs)
  case Nil
  then show ?case by simp
next
  case (Cons x xs)
  then obtain b s' bs' where step: "ins x s = (b, s')" "feed ins xs s' = (bs', t)" "bs = b # bs'"
    by (auto simp: feed_Cons_eq simp del: feed.simps)
  have inv': "inv s'" using Cons.prems step ins_inv [of s x b s'] by auto
  show ?case
  proof (cases "x \<in> mem s")
    case True
    then have "\<not> b" "s' = s" using Cons.prems step ins_known [of s x b s'] by auto
    then show ?thesis using Cons.IH [of s' bs'] Cons.prems step True by simp
  next
    case False
    then have "b" "mem s' = insert x (mem s)" "space s \<le> Suc (space s')"
      using Cons.prems step ins_exact [of s x b s'] by auto
    then show ?thesis using Cons.IH [of s' bs'] Cons.prems step False inv' by simp
  qed
qed

end

end
