(* ===== verification/Hash_Table.thy ===== *)
theory Hash_Table
  imports Dedup
begin

text \<open>
  The open-addressing hash table of \<open>2020-02-mmuniq/mmuniq.c\<close>: \<open>hash_insert\<close> with its
  wrap-around loop bound, the invariant of linear probing, the set of stored hashes it
  represents, and the loop of \<open>main\<close> that moves the table into one of twice the size.
  A slot that holds 0 is free. An access outside the table is the value \<open>Inl OutOfBounds\<close>, an addition of
  \<open>int\<close> that overflows \<open>Inl Overflow\<close>: what C does then is undefined.
\<close>

unbundle bit_operations_syntax

section \<open>The code\<close>

datatype mm_stop = OutOfBounds | Overflow | Abort | Mmap_failed | Exit int

definition OVERFLOW_AFTER :: nat where
  "OVERFLOW_AFTER = 4096"

text \<open>
  The loop of \<open>hash_insert\<close>: \<open>i\<close> runs from \<open>h\<close> while \<open>i < h + OVERFLOW_AFTER\<close>, both 64-bit,
  so the body is not run at all when the bound wraps around. The result is \<open>miss\<close> and the
  table: 1 for a stored new hash, 0 for a hash found, -1 when the loop gave up.
\<close>

function probe_loop :: "u64 \<Rightarrow> u64 \<Rightarrow> u64 \<Rightarrow> u64 \<Rightarrow> u64 list \<Rightarrow> mm_stop + (int \<times> u64 list)" where
  "probe_loop i lim h size_mask bm =
     (if i < lim then
        (let k = unat (i AND size_mask) in
         if k < length bm then
           if bm ! k = 0 then Inr (1, bm[k := h])
           else if bm ! k = h then Inr (0, bm)
           else probe_loop (i + 1) lim h size_mask bm
         else Inl OutOfBounds)
      else Inr (-1, bm))"
  by pat_completeness auto
termination
  by (relation "measure (\<lambda>(i, lim, _). unat (lim - i))") (auto simp: count_up_measure)

declare probe_loop.simps [simp del]

text \<open>The returned value, the table and \<open>overflow_count\<close>.\<close>

definition hash_insert ::
    "u64 \<Rightarrow> u64 list \<Rightarrow> u64 \<Rightarrow> u64 \<Rightarrow> mm_stop + (int \<times> u64 list \<times> u64)" where
  "hash_insert h bm size_mask overflow_count =
     rbind (probe_loop h (h + of_nat OVERFLOW_AFTER) h size_mask bm) (\<lambda>(miss, bm).
       Inr (miss, bm, if miss = -1 then overflow_count + 1 else overflow_count))"

text \<open>
  The resize of \<open>main\<close>: the loop \<open>for (j = 0; j < global_size_mask; j++)\<close> re-inserts the
  non-zero slots of the old table into the new one.
\<close>

function rehash_loop ::
    "nat \<Rightarrow> nat \<Rightarrow> u64 list \<Rightarrow> u64 list \<Rightarrow> u64 \<Rightarrow> u64 \<Rightarrow> mm_stop + (u64 list \<times> u64)" where
  "rehash_loop j n global_bm bm_new size_mask_new overflow_count =
     (if j < n then
        (if j < length global_bm then
           (let h = global_bm ! j in
            if h = 0 then rehash_loop (j + 1) n global_bm bm_new size_mask_new overflow_count
            else rbind (hash_insert h bm_new size_mask_new overflow_count)
              (\<lambda>(miss, bm_new, overflow_count).
                rehash_loop (j + 1) n global_bm bm_new size_mask_new overflow_count))
         else Inl OutOfBounds)
      else Inr (bm_new, overflow_count))"
  by pat_completeness auto
termination
  by (relation "measure (\<lambda>(j, n, _). n - j)") auto

declare rehash_loop.simps [simp del]

text \<open>
  The new mask and the new, zeroed table of \<open>(size_mask_new + 1) * 8\<close> bytes, filled from the
  old one. \<open>mmap_ok\<close> says for which sizes \<open>mmap\<close> succeeds. The code does not look at its result
  here: after a failure \<open>bm_new\<close> points to no table, and every access to it is a fault.
\<close>

definition resize ::
    "(u64 \<Rightarrow> bool) \<Rightarrow> u64 list \<Rightarrow> u64 \<Rightarrow> u64 \<Rightarrow> mm_stop + (u64 list \<times> u64 \<times> u64)" where
  "resize mmap_ok global_bm global_size_mask overflow_count =
     (let size_mask_new = (global_size_mask + 1) * 2 - 1;
          bm_sz_new = (size_mask_new + 1) * 8;
          bm_new = (if mmap_ok bm_sz_new then replicate (unat bm_sz_new div 8) 0 else [])
      in rbind (rehash_loop 0 (unat global_size_mask) global_bm bm_new size_mask_new overflow_count)
           (\<lambda>(bm_new, overflow_count). Inr (bm_new, size_mask_new, overflow_count)))"

section \<open>Probing as a scan of slots\<close>

text \<open>The slots a hash may occupy, in probing order; none when the loop bound wraps.\<close>

definition slot :: "u64 \<Rightarrow> u64 \<Rightarrow> nat \<Rightarrow> nat" where
  "slot m h d = unat ((h + of_nat d) AND m)"

definition probe_len :: "u64 \<Rightarrow> nat" where
  "probe_len h = (if unat h + OVERFLOW_AFTER < 2 ^ 64 then OVERFLOW_AFTER else 0)"

definition window :: "u64 \<Rightarrow> u64 \<Rightarrow> nat list" where
  "window m h = map (slot m h) [0..<probe_len h]"

fun scan :: "u64 \<Rightarrow> nat list \<Rightarrow> u64 list \<Rightarrow> int \<times> u64 list" where
  "scan h [] bm = (-1, bm)"
| "scan h (k # ks) bm =
     (if bm ! k = 0 then (1, bm[k := h])
      else if bm ! k = h then (0, bm)
      else scan h ks bm)"

definition table_sized :: "u64 \<Rightarrow> u64 list \<Rightarrow> bool" where
  "table_sized m bm \<longleftrightarrow> length bm = Suc (unat m)"

lemma slot_in_table: "table_sized m bm \<Longrightarrow> slot m h d < length bm"
  unfolding table_sized_def slot_def using and_le_mask_right [of "h + of_nat d" m] by simp

lemma probe_loop_scan:
  assumes "table_sized m bm" "unat h + n < 2 ^ 64" "e \<le> n"
  shows "probe_loop (h + of_nat e) (h + of_nat n) x m bm = Inr (scan x (map (slot m h) [e..<n]) bm)"
  using assms(3)
proof (induction "n - e" arbitrary: e)
  case 0
  then show ?case by (simp add: probe_loop.simps)
next
  case (Suc d)
  then have "e < n" by simp
  have "h + of_nat e < h + of_nat n"
    using assms(2) \<open>e < n\<close> by (simp add: word_less_nat_alt unat_plus_of_nat)
  moreover have "map (slot m h) [e..<n] = slot m h e # map (slot m h) [Suc e..<n]"
    using \<open>e < n\<close> by (simp add: upt_conv_Cons)
  moreover have "probe_loop (h + of_nat e + 1) (h + of_nat n) x m bm =
      Inr (scan x (map (slot m h) [Suc e..<n]) bm)"
    using Suc.hyps(1) [of "Suc e"] Suc.hyps(2) \<open>e < n\<close> by (simp add: ac_simps)
  ultimately show ?case
    using slot_in_table [OF assms(1), of h e]
    by (subst probe_loop.simps) (auto simp: slot_def Let_def)
qed

lemma probe_loop_window:
  assumes "table_sized m bm"
  shows "probe_loop h (h + of_nat OVERFLOW_AFTER) x m bm = Inr (scan x (window m h) bm)"
proof (cases "unat h + OVERFLOW_AFTER < 2 ^ 64")
  case True
  then show ?thesis
    using probe_loop_scan [OF assms True, of 0] by (simp add: window_def probe_len_def)
next
  case False
  have "unat h < 2 ^ 64" using unat_less_exp [of h] by simp
  then have "unat (h + of_nat OVERFLOW_AFTER) = unat h + OVERFLOW_AFTER - 2 ^ 64"
    using False by (simp add: unat_word_ariths OVERFLOW_AFTER_def mod_if)
  then have "\<not> h < h + of_nat OVERFLOW_AFTER"
    using \<open>unat h < 2 ^ 64\<close> by (simp add: word_less_nat_alt OVERFLOW_AFTER_def)
  then show ?thesis
    using False by (simp add: probe_loop.simps window_def probe_len_def)
qed

lemma hash_insert_scan:
  assumes "table_sized m bm"
  shows "hash_insert h bm m ov =
    (let (miss, bm') = scan h (window m h) bm
     in Inr (miss, bm', if miss = -1 then ov + 1 else ov))"
  using probe_loop_window [OF assms, of h h]
  by (simp add: hash_insert_def split_beta)

lemma scan_cases:
  obtains (stored) ks1 k ks2 where "ks = ks1 @ k # ks2" "\<forall>j \<in> set ks1. bm ! j \<noteq> 0 \<and> bm ! j \<noteq> h"
      "bm ! k = 0" "scan h ks bm = (1, bm[k := h])"
  | (found) ks1 k ks2 where "ks = ks1 @ k # ks2" "\<forall>j \<in> set ks1. bm ! j \<noteq> 0 \<and> bm ! j \<noteq> h"
      "bm ! k = h" "bm ! k \<noteq> 0" "scan h ks bm = (0, bm)"
  | (gave_up) "\<forall>j \<in> set ks. bm ! j \<noteq> 0 \<and> bm ! j \<noteq> h" "scan h ks bm = (-1, bm)"
proof (induction ks arbitrary: thesis)
  case Nil
  then show ?case by simp
next
  case (Cons a ks)
  show ?case
  proof (cases "bm ! a = 0 \<or> bm ! a = h")
    case True
    then show ?thesis
      using Cons.prems(1) [of "[]" a ks] Cons.prems(2) [of "[]" a ks] by auto
  next
    case False
    then have step: "scan h (a # ks) bm = scan h ks bm" by simp
    show ?thesis
    proof (rule Cons.IH)
      fix ks1 k ks2
      assume "ks = ks1 @ k # ks2" "\<forall>j \<in> set ks1. bm ! j \<noteq> 0 \<and> bm ! j \<noteq> h" "bm ! k = 0"
        "scan h ks bm = (1, bm[k := h])"
      then show thesis
        using Cons.prems(1) [of "a # ks1" k ks2] False step by simp
    next
      fix ks1 k ks2
      assume "ks = ks1 @ k # ks2" "\<forall>j \<in> set ks1. bm ! j \<noteq> 0 \<and> bm ! j \<noteq> h" "bm ! k = h"
        "bm ! k \<noteq> 0" "scan h ks bm = (0, bm)"
      then show thesis
        using Cons.prems(2) [of "a # ks1" k ks2] False step by simp
    next
      assume "\<forall>j \<in> set ks. bm ! j \<noteq> 0 \<and> bm ! j \<noteq> h" "scan h ks bm = (-1, bm)"
      then show thesis
        using Cons.prems(3) False step by simp
    qed
  qed
qed

lemma scan_found:
  assumes "\<forall>j \<in> set ks1. bm ! j \<noteq> 0 \<and> bm ! j \<noteq> h" "bm ! p = h" "h \<noteq> 0"
  shows "scan h (ks1 @ p # ks2) bm = (0, bm)"
  using assms by (induction ks1) auto

section \<open>The set a table represents\<close>

definition stored :: "u64 list \<Rightarrow> u64 set" where
  "stored bm = set bm - {0}"

text \<open>
  The invariant of linear probing: every stored hash sits in its own window, and no slot
  before it in the window is free or holds the same hash.
\<close>

definition reaches :: "u64 \<Rightarrow> u64 list \<Rightarrow> nat \<Rightarrow> bool" where
  "reaches m bm p \<longleftrightarrow> (\<exists>ks1 ks2. window m (bm ! p) = ks1 @ p # ks2 \<and>
     (\<forall>j \<in> set ks1. bm ! j \<noteq> 0 \<and> bm ! j \<noteq> bm ! p))"

definition table_inv :: "u64 \<Rightarrow> u64 list \<Rightarrow> bool" where
  "table_inv m bm \<longleftrightarrow> table_sized m bm \<and> (\<forall>p < length bm. bm ! p \<noteq> 0 \<longrightarrow> reaches m bm p)"

definition room :: "u64 \<Rightarrow> u64 list \<Rightarrow> u64 \<Rightarrow> bool" where
  "room m bm h \<longleftrightarrow> (\<exists>k \<in> set (window m h). bm ! k = 0)"

lemma table_inv_sized: "table_inv m bm \<Longrightarrow> table_sized m bm"
  by (simp add: table_inv_def)

lemma window_in_table: "table_sized m bm \<Longrightarrow> k \<in> set (window m h) \<Longrightarrow> k < length bm"
  by (auto simp: window_def slot_in_table)

lemma table_inv_empty: "table_inv m (replicate (Suc (unat m)) 0)"
  by (auto simp: table_inv_def table_sized_def simp del: replicate.simps)

lemma stored_empty [simp]: "stored (replicate n 0) = {}"
  by (auto simp: stored_def)

lemma stored_nth: "p < length bm \<Longrightarrow> bm ! p \<noteq> 0 \<Longrightarrow> bm ! p \<in> stored bm"
  by (simp add: stored_def)

lemma stored_update:
  assumes "k < length bm" "bm ! k = 0" "h \<noteq> 0"
  shows "stored (bm[k := h]) = insert h (stored bm)"
proof -
  have "set (bm[k := h]) \<subseteq> insert h (set bm)" by (rule set_update_subset_insert)
  moreover have "h \<in> set (bm[k := h])" using assms(1) by (rule set_update_memI)
  moreover have "v \<in> set (bm[k := h])" if "v \<in> set bm" "v \<noteq> 0" for v
  proof -
    obtain p where "p < length bm" "bm ! p = v"
      using \<open>v \<in> set bm\<close> by (auto simp: in_set_conv_nth)
    moreover have "p \<noteq> k" using calculation assms(2) that(2) by auto
    ultimately show ?thesis by (auto simp: in_set_conv_nth nth_list_update intro!: exI [of _ p])
  qed
  ultimately show ?thesis using assms(3) by (auto simp: stored_def)
qed

lemma reaches_mono:
  assumes "reaches m bm p" "bm ! k = 0" "bm ! p \<noteq> 0"
  shows "reaches m (bm[k := h]) p"
proof -
  obtain ks1 ks2 where w: "window m (bm ! p) = ks1 @ p # ks2"
    "\<forall>j \<in> set ks1. bm ! j \<noteq> 0 \<and> bm ! j \<noteq> bm ! p"
    using assms(1) by (auto simp: reaches_def)
  have "bm[k := h] ! p = bm ! p" using assms(2,3) by (metis nth_list_update_neq)
  moreover have "\<forall>j \<in> set ks1. bm[k := h] ! j = bm ! j"
    using w(2) assms(2) by (metis nth_list_update_neq)
  ultimately show ?thesis using w by (auto simp: reaches_def)
qed

lemma table_inv_insert:
  assumes inv: "table_inv m bm" and "h \<noteq> 0"
    and w: "window m h = ks1 @ k # ks2" "\<forall>j \<in> set ks1. bm ! j \<noteq> 0 \<and> bm ! j \<noteq> h"
    and free: "bm ! k = 0"
  shows "table_inv m (bm[k := h])" and "stored (bm[k := h]) = insert h (stored bm)"
proof -
  have sized: "table_sized m bm" using inv by (rule table_inv_sized)
  have k: "k < length bm" using window_in_table [OF sized, of k h] w(1) by simp
  then show "stored (bm[k := h]) = insert h (stored bm)"
    using free assms(2) by (rule stored_update)
  have same: "\<forall>j \<in> set ks1. bm[k := h] ! j = bm ! j"
    using w(2) free by (metis nth_list_update_neq)
  have "reaches m (bm[k := h]) p" if "p < length bm" "bm[k := h] ! p \<noteq> 0" for p
  proof (cases "p = k")
    case True
    then show ?thesis using k w same by (auto simp: reaches_def)
  next
    case False
    then have "bm ! p \<noteq> 0" "reaches m bm p"
      using that inv by (auto simp: table_inv_def)
    then show ?thesis using free by (intro reaches_mono)
  qed
  then show "table_inv m (bm[k := h])"
    using sized by (auto simp: table_inv_def table_sized_def)
qed

lemma scan_stored:
  assumes inv: "table_inv m bm" and "h \<in> stored bm"
  shows "scan h (window m h) bm = (0, bm)"
proof -
  obtain p where p: "p < length bm" "bm ! p = h" and "h \<noteq> 0"
    using assms(2) by (auto simp: stored_def in_set_conv_nth)
  then obtain ks1 ks2 where "window m h = ks1 @ p # ks2"
    "\<forall>j \<in> set ks1. bm ! j \<noteq> 0 \<and> bm ! j \<noteq> h"
    using inv unfolding table_inv_def reaches_def by metis
  then show ?thesis using p(2) \<open>h \<noteq> 0\<close> by (simp add: scan_found)
qed

text \<open>The outcome of an insertion, in the three cases the code distinguishes.\<close>

lemma hash_insert_stored:
  "table_inv m bm \<Longrightarrow> h \<in> stored bm \<Longrightarrow> hash_insert h bm m ov = Inr (0, bm, ov)"
  by (simp add: hash_insert_scan table_inv_sized scan_stored)

lemma hash_insert_room:
  assumes inv: "table_inv m bm" and "h \<noteq> 0" "h \<notin> stored bm" "room m bm h"
  shows "\<exists>bm'. hash_insert h bm m ov = Inr (1, bm', ov) \<and> table_inv m bm' \<and>
    stored bm' = insert h (stored bm)"
proof -
  have sized: "table_sized m bm" using inv by (rule table_inv_sized)
  show ?thesis
  proof (rule scan_cases [of "window m h" bm h])
    fix ks1 k ks2
    assume w: "window m h = ks1 @ k # ks2" "\<forall>j \<in> set ks1. bm ! j \<noteq> 0 \<and> bm ! j \<noteq> h"
      and free: "bm ! k = 0" and scan: "scan h (window m h) bm = (1, bm[k := h])"
    show ?thesis
      using table_inv_insert [OF inv assms(2) w free] scan by (simp add: hash_insert_scan sized)
  next
    fix ks1 k ks2
    assume "window m h = ks1 @ k # ks2" "bm ! k = h" "bm ! k \<noteq> 0"
    then have "k < length bm" using window_in_table [OF sized, of k h] by simp
    then show ?thesis using \<open>bm ! k = h\<close> \<open>bm ! k \<noteq> 0\<close> assms(3) stored_nth by blast
  next
    assume "\<forall>j \<in> set (window m h). bm ! j \<noteq> 0 \<and> bm ! j \<noteq> h"
    then show ?thesis using assms(4) by (auto simp: room_def)
  qed
qed

lemma hash_insert_full:
  assumes inv: "table_inv m bm" and "h \<notin> stored bm" "\<not> room m bm h"
  shows "hash_insert h bm m ov = Inr (-1, bm, ov + 1)"
proof -
  have sized: "table_sized m bm" using inv by (rule table_inv_sized)
  have none: "bm ! k \<noteq> 0 \<and> bm ! k \<noteq> h" if "k \<in> set (window m h)" for k
  proof -
    have "k < length bm" using window_in_table [OF sized that] .
    moreover have "bm ! k \<noteq> 0" using that assms(3) by (auto simp: room_def)
    ultimately show ?thesis using assms(2) stored_nth [of k bm] by metis
  qed
  have "scan h (window m h) bm = (-1, bm)"
    by (rule scan_cases [of "window m h" bm h]) (use none in auto)
  then show ?thesis by (simp add: hash_insert_scan sized)
qed

section \<open>How much a table holds\<close>

text \<open>The mask of a table of \<open>2 ^ k\<close> slots, as \<open>main\<close> computes it.\<close>

definition mask_ok :: "u64 \<Rightarrow> bool" where
  "mask_ok m \<longleftrightarrow> (\<exists>k < 64. m = mask k)"

lemma unat_mask64: "k < 64 \<Longrightarrow> unat (mask k :: u64) = 2 ^ k - 1"
  by (simp add: unat_mask)

lemma add_mod_inj:
  assumes "(a + d) mod n = (a + e) mod n" "d < n" "e < (n :: nat)"
  shows "d = e"
proof -
  have "x = y" if "(a + x) mod n = (a + y) mod n" "y < n" "x \<le> y" for x y
  proof -
    have "n dvd (a + y) - (a + x)"
      using that(1,3) mod_eq_dvd_iff_nat [of "a + x" "a + y" n] by simp
    then show ?thesis using that(2,3) by (auto dest: dvd_imp_le)
  qed
  then show ?thesis using assms by (metis nat_le_linear)
qed

lemma slot_mod:
  assumes "k < 64" "unat h + d < 2 ^ 64"
  shows "slot (mask k) h d = (unat h + d) mod 2 ^ k"
proof -
  have "unat ((h + of_nat d) AND mask k) = unat (take_bit k (h + of_nat d))"
    by (simp add: take_bit_eq_mask)
  also have "\<dots> = take_bit k (unat (h + of_nat d))"
    by (simp add: unsigned_take_bit_eq)
  finally show ?thesis
    using assms by (simp add: slot_def unat_plus_of_nat take_bit_eq_mod)
qed

lemma card_window:
  assumes "mask_ok m" "unat h + OVERFLOW_AFTER < 2 ^ 64"
  shows "min OVERFLOW_AFTER (Suc (unat m)) \<le> card (set (window m h))"
proof -
  obtain k where k: "k < 64" "m = mask k" using assms(1) by (auto simp: mask_ok_def)
  define n where "n = min OVERFLOW_AFTER (2 ^ k)"
  have size: "Suc (unat m) = 2 ^ k" using k by (simp add: unat_mask64)
  have "inj_on (\<lambda>d. (unat h + d) mod 2 ^ k) {0..<n}"
    by (rule inj_onI, rule add_mod_inj) (auto simp: n_def)
  then have "card ((\<lambda>d. (unat h + d) mod 2 ^ k) ` {0..<n}) = n"
    by (simp add: card_image)
  moreover have "(\<lambda>d. (unat h + d) mod 2 ^ k) ` {0..<n} \<subseteq> set (window m h)"
  proof (rule image_subsetI)
    fix d assume "d \<in> {0..<n}"
    then have "d < OVERFLOW_AFTER" by (simp add: n_def)
    then have "slot m h d \<in> set (window m h)" "slot m h d = (unat h + d) mod 2 ^ k"
      using assms(2) k by (auto simp: window_def probe_len_def slot_mod)
    then show "(unat h + d) mod 2 ^ k \<in> set (window m h)" by simp
  qed
  ultimately have "n \<le> card (set (window m h))"
    by (metis card_mono List.finite_set)
  then show ?thesis using size by (simp add: n_def)
qed

text \<open>No hash is stored twice.\<close>

lemma stored_once:
  assumes "table_inv m bm" "p < length bm" "q < length bm" "bm ! p = bm ! q" "bm ! p \<noteq> 0"
  shows "p = q"
proof -
  define v where "v = bm ! p"
  obtain a1 a2 where a: "window m v = a1 @ p # a2" "\<forall>j \<in> set a1. bm ! j \<noteq> v"
    using assms unfolding table_inv_def reaches_def v_def by metis
  obtain b1 b2 where b: "window m v = b1 @ q # b2" "\<forall>j \<in> set b1. bm ! j \<noteq> v"
    using assms unfolding table_inv_def reaches_def v_def by metis
  consider "length a1 < length b1" | "length b1 < length a1" | "length a1 = length b1"
    by linarith
  then show ?thesis
  proof cases
    case 1
    then have "b1 ! length a1 = p" using a(1) b(1) by (metis nth_append nth_append_length)
    then show ?thesis using 1 b(2) v_def by (metis nth_mem)
  next
    case 2
    then have "a1 ! length b1 = q" using a(1) b(1) by (metis nth_append nth_append_length)
    then show ?thesis using 2 a(2) v_def assms(4) by (metis nth_mem)
  next
    case 3
    then show ?thesis using a(1) b(1) by simp
  qed
qed

lemma finite_stored [simp]: "finite (stored bm)"
  by (simp add: stored_def)

lemma room_if_few:
  assumes inv: "table_inv m bm" and "mask_ok m" "unat h + OVERFLOW_AFTER < 2 ^ 64"
    and few: "card (stored bm) < min OVERFLOW_AFTER (Suc (unat m))"
  shows "room m bm h"
proof (rule ccontr)
  assume none: "\<not> room m bm h"
  define W where "W = set (window m h)"
  have in_table: "p < length bm" "bm ! p \<noteq> 0" if "p \<in> W" for p
    using that none window_in_table [OF table_inv_sized [OF inv]] by (auto simp: W_def room_def)
  have "inj_on ((!) bm) W"
    by (intro inj_onI) (metis in_table stored_once inv)
  moreover have "(!) bm ` W \<subseteq> stored bm"
    using in_table stored_nth by auto
  ultimately have "card W \<le> card (stored bm)"
    by (metis card_image card_mono finite_stored)
  then show False
    using card_window [OF assms(2,3)] few by (simp add: W_def)
qed

section \<open>The table as a filter\<close>

definition hash_ok :: "u64 \<Rightarrow> bool" where
  "hash_ok h \<longleftrightarrow> h \<noteq> 0 \<and> unat h + OVERFLOW_AFTER < 2 ^ 64"

definition table_ins :: "u64 \<Rightarrow> u64 \<times> u64 list \<Rightarrow> bool \<times> u64 \<times> u64 list" where
  "table_ins h s =
     (case s of (m, bm) \<Rightarrow>
        case hash_insert h bm m 0 of
          Inl _ \<Rightarrow> (False, m, bm)
        | Inr (miss, bm', _) \<Rightarrow> (miss = 1, m, bm'))"

definition filter_inv :: "u64 \<times> u64 list \<Rightarrow> bool" where
  "filter_inv s \<longleftrightarrow> mask_ok (fst s) \<and> table_inv (fst s) (snd s)"

definition filter_space :: "u64 \<times> u64 list \<Rightarrow> nat" where
  "filter_space s = min OVERFLOW_AFTER (Suc (unat (fst s))) - card (stored (snd s))"

text \<open>The three outcomes of an insertion, as the client sees them.\<close>

lemma table_ins_cases:
  assumes "filter_inv (m, bm)" "h \<noteq> 0"
  obtains (known) "h \<in> stored bm" "table_ins h (m, bm) = (False, m, bm)"
  | (new) bm' where "h \<notin> stored bm" "room m bm h" "table_ins h (m, bm) = (True, m, bm')"
      "filter_inv (m, bm')" "stored bm' = insert h (stored bm)"
  | (full) "h \<notin> stored bm" "\<not> room m bm h" "table_ins h (m, bm) = (False, m, bm)"
proof -
  have inv: "table_inv m bm" and "mask_ok m" using assms(1) by (auto simp: filter_inv_def)
  show thesis
  proof (cases "h \<in> stored bm")
    case True
    then show ?thesis using known hash_insert_stored [OF inv] by (simp add: table_ins_def)
  next
    case False
    show ?thesis
    proof (cases "room m bm h")
      case True
      then obtain bm' where "hash_insert h bm m 0 = Inr (1, bm', 0)" "table_inv m bm'"
        "stored bm' = insert h (stored bm)"
        using hash_insert_room [OF inv assms(2) False] by blast
      then show ?thesis
        using new [of bm'] False True \<open>mask_ok m\<close> by (simp add: table_ins_def filter_inv_def)
    next
      case nr: False
      then show ?thesis using full False hash_insert_full [OF inv] by (simp add: table_ins_def)
    qed
  qed
qed

lemma scan_length: "scan h ks bm = (miss, bm') \<Longrightarrow> length bm' = length bm"
  by (cases rule: scan_cases [of ks bm h]) auto

lemma table_ins_sized:
  assumes "table_sized m bm" "table_ins h (m, bm) = (b, m', bm')"
  shows "table_sized m' bm'"
  using assms
  by (auto simp: table_ins_def hash_insert_scan table_sized_def dest: scan_length split: prod.splits)

lemma table_ins_filter:
  assumes "filter_inv (m, bm)" "hash_ok x" "table_ins x (m, bm) = (b, s')"
  shows "filter_inv s'"
    and "stored bm \<subseteq> stored (snd s')"
    and "b \<Longrightarrow> x \<notin> stored bm \<and> x \<in> stored (snd s')"
    and "x \<in> stored bm \<Longrightarrow> \<not> b \<and> s' = (m, bm)"
    and "x \<notin> stored bm \<Longrightarrow> 0 < filter_space (m, bm) \<Longrightarrow>
      b \<and> stored (snd s') = insert x (stored bm) \<and> filter_space (m, bm) \<le> Suc (filter_space s')"
proof -
  have x: "x \<noteq> 0" using assms(2) by (simp add: hash_ok_def)
  note cs = table_ins_cases [OF assms(1) x]
  show "filter_inv s'" by (cases rule: cs) (use assms in simp_all)
  show "stored bm \<subseteq> stored (snd s')" by (cases rule: cs) (use assms in auto)
  show "x \<notin> stored bm \<and> x \<in> stored (snd s')" if b by (cases rule: cs) (use assms that in auto)
  show "\<not> b \<and> s' = (m, bm)" if "x \<in> stored bm" by (cases rule: cs) (use assms that in auto)
  assume "x \<notin> stored bm" "0 < filter_space (m, bm)"
  then have "room m bm x"
    using assms by (intro room_if_few) (auto simp: filter_inv_def hash_ok_def filter_space_def)
  show "b \<and> stored (snd s') = insert x (stored bm) \<and> filter_space (m, bm) \<le> Suc (filter_space s')"
    by (cases rule: cs)
      (use assms(3) \<open>room m bm x\<close> \<open>x \<notin> stored bm\<close> in \<open>auto simp: filter_space_def\<close>)
qed

interpretation table: exact_filter table_ins "\<lambda>s. stored (snd s)" filter_inv hash_ok filter_space
  by unfold_locales
    (metis table_ins_filter prod.collapse)+

lemma empty_filter:
  assumes "k < 64"
  shows "filter_inv (mask k, replicate (2 ^ k) 0)"
    and "filter_space (mask k, replicate (2 ^ k) 0) = min OVERFLOW_AFTER (2 ^ k)"
proof -
  have "Suc (unat (mask k :: u64)) = 2 ^ k" using assms by (simp add: unat_mask64)
  then show "filter_inv (mask k, replicate (2 ^ k) 0)"
    "filter_space (mask k, replicate (2 ^ k) 0) = min OVERFLOW_AFTER (2 ^ k)"
    using table_inv_empty [of "mask k"] assms by (auto simp: filter_inv_def filter_space_def mask_ok_def)
qed

text \<open>The lines picked by a fresh table, for any hash function.\<close>

lemma table_first_lines:
  assumes "k < 64" and "\<forall>l \<in> set ls. hash_ok (hf l)"
    and feed: "feed table_ins (map hf ls) (mask k, replicate (2 ^ k) 0) = (bs, f)"
  shows "distinct (map hf (picked ls bs)) \<and> set (picked ls bs) \<subseteq> set ls \<and>
    (length ls \<le> min OVERFLOW_AFTER (2 ^ k) \<longrightarrow>
      map hf (picked ls bs) = firsts {} (map hf ls) \<and>
      (inj_on hf (set ls) \<longrightarrow> picked ls bs = firsts {} ls))"
proof -
  have ok: "\<forall>h \<in> set (map hf ls). hash_ok h" using assms(2) by simp
  have sub: "set (picked ls bs) \<subseteq> set ls" by (rule set_picked_subset)
  have hashes: "map hf (picked ls bs) = picked (map hf ls) bs" by (simp add: picked_map)
  have few: "map hf (picked ls bs) = firsts {} (map hf ls)"
    if "length ls \<le> min OVERFLOW_AFTER (2 ^ k)"
    unfolding hashes using table.picked_firsts [OF empty_filter(1) [OF assms(1)] ok _ feed] that
    by (simp add: empty_filter(2) [OF assms(1)])
  moreover have "picked ls bs = firsts {} ls"
    if "length ls \<le> min OVERFLOW_AFTER (2 ^ k)" "inj_on hf (set ls)"
  proof (rule inj_onD [OF inj_on_mapI [of hf "{picked ls bs, firsts {} ls}"]])
    show "inj_on hf (\<Union> (set ` {picked ls bs, firsts {} ls}))"
      using sub set_firsts [of "{}" ls] by (intro inj_on_subset [OF that(2)]) auto
    show "map hf (picked ls bs) = map hf (firsts {} ls)"
      using few [OF that(1)] firsts_map [of hf "{}" ls] that(2) by simp
  qed auto
  ultimately show ?thesis
    using table.picked_new [OF empty_filter(1) [OF assms(1)] ok feed] sub hashes by simp
qed

section \<open>Moving to a larger table\<close>

lemma stored_hash_ok:
  assumes "table_inv m bm" "h \<in> stored bm"
  shows "hash_ok h"
proof -
  obtain p where p: "p < length bm" "bm ! p = h" "h \<noteq> 0"
    using assms(2) by (auto simp: stored_def in_set_conv_nth)
  then have "window m h \<noteq> []"
    using assms(1) unfolding table_inv_def reaches_def by (metis append_is_Nil_conv list.distinct(1))
  then show ?thesis
    using p(3) by (auto simp: hash_ok_def window_def probe_len_def split: if_splits)
qed

text \<open>The hashes the loop still has to move.\<close>

definition pending :: "nat \<Rightarrow> nat \<Rightarrow> u64 list \<Rightarrow> u64 set" where
  "pending j n bm = stored (drop j (take n bm))"

lemma pending_step:
  assumes "j < n" "n \<le> length bm"
  shows "pending j n bm = (if bm ! j = 0 then {} else {bm ! j}) \<union> pending (Suc j) n bm"
proof -
  have "drop j (take n bm) = bm ! j # drop (Suc j) (take n bm)"
    using assms by (metis Cons_nth_drop_Suc length_take min.absorb2 nth_take)
  then show ?thesis by (auto simp: pending_def stored_def)
qed

lemma rehash_loop_moves:
  assumes "mask_ok m" "table_inv m new" "n \<le> length old" "\<forall>h \<in> pending j n old. hash_ok h"
  shows "\<exists>new' ov'. rehash_loop j n old new m ov = Inr (new', ov') \<and> table_inv m new' \<and>
    stored new \<subseteq> stored new' \<and> stored new' \<subseteq> stored new \<union> pending j n old \<and>
    (card (stored new \<union> pending j n old) \<le> min OVERFLOW_AFTER (Suc (unat m)) \<longrightarrow>
      stored new' = stored new \<union> pending j n old)"
  using assms(2,4)
proof (induction "n - j" arbitrary: j new ov)
  case 0
  then show ?case
    by (auto simp: rehash_loop.simps [of j] pending_def stored_def)
next
  case (Suc d)
  then have "j < n" "j < length old" using assms(3) by auto
  define h where "h = old ! j"
  have pend: "pending j n old = (if h = 0 then {} else {h}) \<union> pending (Suc j) n old"
    using \<open>j < n\<close> assms(3) by (simp add: h_def pending_step)
  have d: "d = n - Suc j" using Suc.hyps(2) by simp
  have oks: "\<forall>h \<in> pending (Suc j) n old. hash_ok h" using Suc.prems(2) pend by auto
  note step = rehash_loop.simps [of j n old new m ov]
  show ?case
  proof (cases "h = 0")
    case True
    then show ?thesis
      using Suc.hyps(1) [OF d Suc.prems(1) oks, of ov] \<open>j < n\<close> \<open>j < length old\<close> pend step
      by (simp add: h_def)
  next
    case False
    have ok: "hash_ok h" using Suc.prems(2) pend False by auto
    have inv: "table_inv m new" by (rule Suc.prems(1))
    consider (known) "h \<in> stored new" | (new) "h \<notin> stored new" "room m new h"
      | (full) "h \<notin> stored new" "\<not> room m new h" by blast
    then show ?thesis
    proof cases
      case known
      then show ?thesis
        using Suc.hyps(1) [OF d inv oks, of ov] \<open>j < n\<close> \<open>j < length old\<close> pend step False
        by (auto simp: h_def hash_insert_stored [OF inv] insert_absorb)
    next
      case new
      then obtain new1 where n1: "hash_insert h new m ov = Inr (1, new1, ov)" "table_inv m new1"
        "stored new1 = insert h (stored new)"
        using hash_insert_room [OF inv False] by blast
      then show ?thesis
        using Suc.hyps(1) [OF d n1(2) oks, of ov] \<open>j < n\<close> \<open>j < length old\<close> pend step False
        by (auto simp: h_def)
    next
      case full
      have ins: "hash_insert h new m ov = Inr (-1, new, ov + 1)"
        by (rule hash_insert_full [OF inv full])
      have "min OVERFLOW_AFTER (Suc (unat m)) \<le> card (stored new)"
        using room_if_few [OF inv assms(1), of h] ok full(2) by (force simp: hash_ok_def not_less)
      moreover have "card (stored new) < card (stored new \<union> pending j n old)"
        using full(1) pend False
        by (intro psubset_card_mono) (auto simp: pending_def)
      ultimately have "\<not> card (stored new \<union> pending j n old) \<le> min OVERFLOW_AFTER (Suc (unat m))"
        by linarith
      then show ?thesis
        using Suc.hyps(1) [OF d inv oks, of "ov + 1"] \<open>j < n\<close> \<open>j < length old\<close> pend step False ins
        by (auto simp: h_def)
    qed
  qed
qed

lemma pending_all_but_last:
  assumes inv: "table_inv m bm"
  shows "pending 0 (unat m) bm = stored bm - {bm ! unat m}"
proof -
  have len: "length bm = Suc (unat m)"
    using table_inv_sized [OF inv] by (simp add: table_sized_def)
  have bm: "bm = take (unat m) bm @ [bm ! unat m]"
    using len by (metis lessI take_Suc_conv_app_nth take_all_iff order_refl)
  have "bm ! unat m \<notin> stored (take (unat m) bm)"
  proof
    assume "bm ! unat m \<in> stored (take (unat m) bm)"
    then obtain p where p: "p < unat m" "bm ! p = bm ! unat m" "bm ! p \<noteq> 0"
      using len by (auto simp: stored_def in_set_conv_nth)
    then have "p = unat m" using stored_once [OF inv] len by simp
    then show False using p(1) by simp
  qed
  moreover have "stored bm = stored (take (unat m) bm) \<union> stored [bm ! unat m]"
    by (subst bm) (auto simp: stored_def)
  ultimately show ?thesis by (auto simp: pending_def stored_def)
qed

lemma resize_masks: "(mask k + 1) * 2 - 1 = (mask (Suc k) :: u64)"
  by (simp add: mask_eq_exp_minus_1)

lemma resize_bytes:
  assumes "k < 60"
  shows "(mask (Suc k) + 1) * 8 = (2 ^ (k + 4) :: u64)" and "unat (2 ^ (k + 4) :: u64) div 8 = 2 ^ Suc k"
proof -
  show "(mask (Suc k) + 1) * 8 = (2 ^ (k + 4) :: u64)"
    by (simp add: mask_eq_exp_minus_1 power_add)
  show "unat (2 ^ (k + 4) :: u64) div 8 = 2 ^ Suc k"
    using unat_exp [of "k + 4", where ?'a = 64] assms by (simp add: power_add)
qed

lemma resize_table:
  assumes "k < 60" "table_inv (mask k) bm" "mmap_ok (2 ^ (k + 4))"
  shows "\<exists>bm' ov'. resize mmap_ok bm (mask k) ov = Inr (bm', mask (Suc k), ov') \<and>
    table_inv (mask (Suc k)) bm' \<and> stored bm' \<subseteq> stored bm - {bm ! unat (mask k :: u64)} \<and>
    (card (stored bm) \<le> min OVERFLOW_AFTER (2 ^ Suc k) \<longrightarrow>
      stored bm' = stored bm - {bm ! unat (mask k :: u64)})"
proof -
  define new where "new = replicate (2 ^ Suc k) (0 :: u64)"
  have size: "Suc (unat (mask (Suc k) :: u64)) = 2 ^ Suc k"
    using assms(1) by (simp add: unat_mask del: power_Suc)
  have inv: "table_inv (mask (Suc k)) new"
    using table_inv_empty [of "mask (Suc k)"] by (simp add: size new_def del: power_Suc)
  have pend: "pending 0 (unat (mask k :: u64)) bm = stored bm - {bm ! unat (mask k :: u64)}"
    by (rule pending_all_but_last [OF assms(2)])
  have len: "unat (mask k :: u64) \<le> length bm"
    using table_inv_sized [OF assms(2)] by (simp add: table_sized_def)
  have oks: "\<forall>h \<in> pending 0 (unat (mask k :: u64)) bm. hash_ok h"
    using pend stored_hash_ok [OF assms(2)] by auto
  have "mask_ok (mask (Suc k))" unfolding mask_ok_def using assms(1) by (intro exI [of _ "Suc k"]) auto
  from rehash_loop_moves [OF this inv len oks, of ov]
  obtain new' ov' where new': "rehash_loop 0 (unat (mask k :: u64)) bm new (mask (Suc k)) ov = Inr (new', ov')"
    "table_inv (mask (Suc k)) new'" "stored new' \<subseteq> stored bm - {bm ! unat (mask k :: u64)}"
    "card (stored bm - {bm ! unat (mask k :: u64)}) \<le> min OVERFLOW_AFTER (2 ^ Suc k) \<longrightarrow>
      stored new' = stored bm - {bm ! unat (mask k :: u64)}"
    by (auto simp: pend size new_def simp del: power_Suc)
  have card: "card (stored bm - {bm ! unat (mask k :: u64)}) \<le> card (stored bm)"
    by (intro card_mono) auto
  have "resize mmap_ok bm (mask k) ov = Inr (new', mask (Suc k), ov')"
    unfolding resize_def Let_def resize_masks resize_bytes [OF assms(1)]
    using new'(1) assms(3) by (simp add: new_def del: power_Suc)
  then show ?thesis
    using new' le_trans [OF card] by blast
qed

text \<open>On any table of the right size the resize leaves neither table.\<close>

lemma rehash_loop_sized:
  assumes "table_sized m new" "n \<le> length tab"
  shows "\<exists>new' ov'. rehash_loop j n tab new m ov = Inr (new', ov') \<and> table_sized m new'"
  using assms(1)
proof (induction "n - j" arbitrary: j new ov)
  case 0
  then show ?case by (simp add: rehash_loop.simps)
next
  case (Suc d)
  then have j: "j < n" "j < length tab" "d = n - (j + 1)" using assms(2) by auto
  show ?case
  proof (cases "tab ! j = 0")
    case True
    then show ?thesis using Suc.hyps(1) [OF j(3) Suc.prems, of ov] j
      by (simp add: rehash_loop.simps [of j])
  next
    case False
    obtain miss new1 where sc: "scan (tab ! j) (window m (tab ! j)) new = (miss, new1)"
      by (metis surj_pair)
    then have "table_sized m new1" using Suc.prems by (auto simp: table_sized_def dest: scan_length)
    from Suc.hyps(1) [OF j(3) this] show ?thesis
      using False j sc Suc.prems by (simp add: rehash_loop.simps [of j] hash_insert_scan)
  qed
qed

lemma resize_sized:
  assumes "k < 60" "table_sized (mask k) tab" "mmap_ok (2 ^ (k + 4))"
  shows "\<exists>tab' ov'. resize mmap_ok tab (mask k) ov = Inr (tab', mask (Suc k), ov') \<and>
    table_sized (mask (Suc k)) tab'"
proof -
  have "table_sized (mask (Suc k)) (replicate (2 ^ Suc k) 0)"
    using assms(1) by (simp add: table_sized_def unat_mask del: power_Suc)
  from rehash_loop_sized [OF this, of "unat (mask k :: u64)" tab 0 ov] show ?thesis
    using assms unfolding resize_def Let_def resize_masks resize_bytes [OF assms(1)]
    by (auto simp: table_sized_def simp del: power_Suc)
qed

section \<open>Main properties\<close>

lemma hash_insert_zero:
  assumes "table_inv m bm" "room m bm 0"
  shows "hash_insert 0 bm m ov = Inr (1, bm, ov)"
proof -
  have "scan 0 (window m 0) bm = (1, bm)"
    by (rule scan_cases [of "window m 0" bm 0])
      (use assms(2) in \<open>auto simp: room_def\<close>, metis list_update_id)
  then show ?thesis by (simp add: hash_insert_scan [OF table_inv_sized [OF assms(1)]])
qed

lemma zero_not_stored: "0 \<notin> stored bm"
  by (simp add: stored_def)

text \<open>
  C4: \<open>hash_insert\<close> on a table that satisfies the probing invariant never leaves the table and
  keeps the invariant, for every hash. It answers 0 exactly for a hash that is stored, 1 exactly for a
  hash that is not and whose window has a free slot, -1 with one more overflow otherwise. Answering 1
  stores the hash and no other; but 0, the mark of a free slot, is answered so without being stored.
  With any other answer, and for 0, the table stays as it is.
\<close>

theorem hash_insert_refines_set:
  assumes "table_inv m bm"
  shows "\<exists>miss bm' ov'. hash_insert h bm m ov = Inr (miss, bm', ov') \<and> table_inv m bm' \<and>
    (miss = 0 \<longleftrightarrow> h \<in> stored bm) \<and>
    (miss = 1 \<longleftrightarrow> h \<notin> stored bm \<and> room m bm h) \<and>
    (miss = -1 \<longleftrightarrow> h \<notin> stored bm \<and> \<not> room m bm h) \<and>
    stored bm' = (if miss = 1 \<and> h \<noteq> 0 then insert h (stored bm) else stored bm) \<and>
    (miss = 1 \<and> h \<noteq> 0 \<or> bm' = bm) \<and>
    ov' = (if miss = -1 then ov + 1 else ov)"
  using assms hash_insert_stored [OF assms, of h ov] hash_insert_room [OF assms, of h ov]
    hash_insert_full [OF assms, of h ov] hash_insert_zero [OF assms, of ov] zero_not_stored [of bm]
  by (cases "h \<in> stored bm"; cases "room m bm h"; cases "h = 0") auto

theorem hash_insert_refines_set_witness:
  "table_inv 1 [0, 0] \<and> (\<exists>bm'. hash_insert 5 [0, 0] 1 0 = Inr (1, bm', 0) \<and> stored bm' = {5}) \<and>
   hash_insert 0 [0, 0] 1 0 = Inr (1, [0, 0], 0)"
proof -
  have inv: "table_inv 1 [0, 0]" using table_inv_empty [of 1] by simp
  have "room 1 [0, 0] 5" "room 1 [0, 0] 0"
    using room_if_few [OF inv, of 5] room_if_few [OF inv, of 0]
    by (simp_all add: mask_ok_def OVERFLOW_AFTER_def stored_def exI [of _ "Suc 0"] mask_eq_exp_minus_1)
  moreover have "stored [0, 0] = {}" by (simp add: stored_def)
  ultimately show ?thesis
    using inv hash_insert_refines_set [OF inv, of 5 0] hash_insert_refines_set [OF inv, of 0 0] by auto
qed

text \<open>
  The two hashes the table cannot represent. Hash 0 is the mark of a free slot: it is
  answered as new every time it is offered, and the table stays as it is. For a hash in the
  last 4096 values of the range the loop bound wraps around: the body is never run and the
  line counts as an overflow.
\<close>

theorem hash_insert_blind_spots:
  assumes "table_inv m bm"
  shows "(room m bm 0 \<longrightarrow> hash_insert 0 bm m ov = Inr (1, bm, ov)) \<and>
    (2 ^ 64 \<le> unat h + OVERFLOW_AFTER \<longrightarrow> hash_insert h bm m ov = Inr (-1, bm, ov + 1))"
proof -
  have sized: "table_sized m bm" using assms by (rule table_inv_sized)
  show ?thesis
    using hash_insert_zero [OF assms]
    by (auto simp: hash_insert_scan [OF sized] window_def probe_len_def)
qed

theorem hash_insert_blind_spots_witness:
  "table_inv 1 [0, 0] \<and>
   room 1 [0, 0] 0 \<and> hash_insert 0 [0, 0] 1 0 = Inr (1, [0, 0], 0) \<and>
   hash_insert (-1) [0, 0] 1 0 = Inr (-1, [0, 0], 1)"
proof -
  have inv: "table_inv 1 [0, 0]" using table_inv_empty [of 1] by simp
  have "room 1 [0, 0] 0"
    using room_if_few [OF inv, of 0] by (simp add: mask_ok_def OVERFLOW_AFTER_def stored_def
        exI [of _ "Suc 0"] mask_eq_exp_minus_1)
  moreover have "2 ^ 64 \<le> unat (- 1 :: u64) + OVERFLOW_AFTER"
    by (simp add: unsigned_minus_1_eq_mask mask_eq_exp_minus_1 OVERFLOW_AFTER_def)
  ultimately show ?thesis
    using inv hash_insert_blind_spots [OF inv, of 0 "-1"] by simp
qed

text \<open>
  The resize loop stops one slot early. When \<open>mmap\<close> succeeds, on a full-sized table whose
  hashes fit the new one, every stored hash is moved except the one in the last slot: it was
  known before the resize, and the next line with that hash is answered as new.
\<close>

theorem resize_loses_last_slot:
  assumes "k < 60" and "table_inv (mask k) bm" and "h = bm ! unat (mask k :: u64)" and "h \<noteq> 0"
    and "mmap_ok (2 ^ (k + 4))" and "card (stored bm) \<le> min OVERFLOW_AFTER (2 ^ Suc k)"
  shows "\<exists>bm' ov'. hash_insert h bm (mask k) ov = Inr (0, bm, ov) \<and>
    resize mmap_ok bm (mask k) ov = Inr (bm', mask (Suc k), ov') \<and> stored bm' = stored bm - {h} \<and>
    (\<exists>bm''. hash_insert h bm' (mask (Suc k)) ov' = Inr (1, bm'', ov'))"
proof -
  have "unat (mask k :: u64) < length bm"
    using table_inv_sized [OF assms(2)] by (simp add: table_sized_def)
  then have h: "h \<in> stored bm" using assms(3,4) stored_nth by blast
  obtain bm' ov' where r: "resize mmap_ok bm (mask k) ov = Inr (bm', mask (Suc k), ov')"
    "table_inv (mask (Suc k)) bm'" "stored bm' = stored bm - {h}"
    using resize_table [where mmap_ok = mmap_ok, OF assms(1,2,5), of ov] assms(3,6) by auto
  have "card (stored bm') < card (stored bm)"
    using h r(3) by (intro psubset_card_mono) auto
  moreover have "Suc (unat (mask (Suc k) :: u64)) = 2 ^ Suc k"
    using assms(1) by (simp add: unat_mask del: power_Suc)
  moreover have "mask_ok (mask (Suc k))" "hash_ok h"
    unfolding mask_ok_def using assms(1) stored_hash_ok [OF assms(2) h] by (auto intro: exI [of _ "Suc k"])
  ultimately have "room (mask (Suc k)) bm' h"
    using assms(6) by (intro room_if_few r(2)) (auto simp: hash_ok_def)
  then show ?thesis
    using hash_insert_room [OF r(2) assms(4)] hash_insert_stored [OF assms(2) h] r by blast
qed

theorem resize_loses_last_slot_witness:
  "\<exists>bm' ov'. hash_insert 3 [0, 3] (mask 1) 0 = Inr (0, [0, 3], 0) \<and>
    resize (\<lambda>_. True) [0, 3] (mask 1) 0 = Inr (bm', mask (Suc 1), ov') \<and> stored bm' = stored [0, 3] - {3} \<and>
    (\<exists>bm''. hash_insert 3 bm' (mask (Suc 1)) ov' = Inr (1, bm'', ov'))"
proof -
  have u: "unat (mask 1 :: u64) = 1" by (simp add: unat_mask)
  have "probe_len 3 = OVERFLOW_AFTER" "0 < OVERFLOW_AFTER"
    by (simp_all add: probe_len_def OVERFLOW_AFTER_def)
  moreover have "slot (mask 1) 3 0 = 1" by (simp add: slot_def mask_eq_exp_minus_1)
  ultimately have "window (mask 1) 3 = [] @ 1 # map (slot (mask 1) 3) [Suc 0..<OVERFLOW_AFTER]"
    by (simp add: window_def upt_conv_Cons del: upt_Suc)
  then have "reaches (mask 1) [0, 3] 1" unfolding reaches_def by force
  then have inv: "table_inv (mask 1) [0, 3]"
    by (auto simp: table_inv_def table_sized_def u less_Suc_eq)
  show ?thesis
    by (rule resize_loses_last_slot [OF _ inv])
      (simp_all add: u stored_def OVERFLOW_AFTER_def)
qed

end
