(* ===== verification/Line_Loop.thy ===== *)
theory Line_Loop
  imports Hash_Table
begin

text \<open>
  The input loop that \<open>mmuniq-hash.c\<close> and \<open>mmuniq-bloom.c\<close> share line by line: \<open>read(2)\<close>
  into the tail of a buffer, hand each complete line to \<open>process_line\<close>, move the rest to the
  front, and hand a full buffer without a newline over as one line. The loop is proved to be
  a function of the input stream alone, however \<open>read\<close> cuts it up.
\<close>

section \<open>read(2) and memchr(3)\<close>

text \<open>
  What \<open>read(0, ...)\<close> will deliver: chunks in order, an error, and end of file after the
  last. A chunk larger than the room in the buffer is delivered in pieces.
\<close>

datatype chunk = Data bytes | Read_error

fun os_read :: "chunk list \<Rightarrow> nat \<Rightarrow> int \<times> bytes \<times> chunk list" where
  "os_read [] n = (0, [], [])"
| "os_read (Read_error # cs) n = (-1, [], cs)"
| "os_read (Data d # cs) n =
     (if length d \<le> n then (int (length d), d, cs)
      else (int n, take n d, Data (drop n d) # cs))"

text \<open>The bytes delivered before the first read that returns 0 or -1.\<close>

fun stream_bytes :: "chunk list \<Rightarrow> bytes" where
  "stream_bytes [] = []"
| "stream_bytes (Read_error # cs) = []"
| "stream_bytes (Data d # cs) = (if d = [] then [] else d @ stream_bytes cs)"

fun chunk_size :: "chunk \<Rightarrow> nat" where
  "chunk_size (Data d) = length d"
| "chunk_size Read_error = 0"

definition NL :: u8 where
  "NL = 10"

fun memchr :: "bytes \<Rightarrow> u8 \<Rightarrow> nat \<Rightarrow> nat option" where
  "memchr xs c 0 = None"
| "memchr [] c (Suc n) = None"
| "memchr (x # xs) c (Suc n) = (if x = c then Some 0 else map_option Suc (memchr xs c n))"

lemma memchr_None: "memchr xs c n = None \<longleftrightarrow> c \<notin> set (take n xs)"
  by (induction xs c n rule: memchr.induct) auto

lemma memchr_Some:
  "memchr xs c n = Some k \<longleftrightarrow> k < n \<and> k < length xs \<and> xs ! k = c \<and> c \<notin> set (take k xs)"
proof (induction xs c n arbitrary: k rule: memchr.induct)
  case (3 x xs c n)
  then show ?case by (cases k) auto
qed auto

section \<open>The loops\<close>

text \<open>
  The inner loop: lines of \<open>buf\<close> from \<open>buf_pos\<close> up to \<open>buf_sz\<close>. The result is the new
  \<open>buf_pos\<close> and the state of the program.
\<close>

function split_loop ::
    "(bytes \<Rightarrow> 's \<Rightarrow> mm_stop + 's) \<Rightarrow> bytes \<Rightarrow> nat \<Rightarrow> nat \<Rightarrow> 's \<Rightarrow> mm_stop + (nat \<times> 's)" where
  "split_loop process_line buf buf_pos buf_sz st =
     (case memchr (drop buf_pos buf) NL (buf_sz - buf_pos) of
        None \<Rightarrow> Inr (buf_pos, st)
      | Some nl \<Rightarrow>
          (let nl_idx = buf_pos + nl;
               sz = nl_idx - buf_pos
           in rbind (process_line (take sz (drop buf_pos buf)) st) (\<lambda>st.
                split_loop process_line buf (nl_idx + 1) buf_sz st)))"
  by pat_completeness auto
termination
  by (relation "measure (\<lambda>(_, _, buf_pos, buf_sz, _). buf_sz - buf_pos)")
    (auto simp: memchr_Some)

declare split_loop.simps [simp del]

text \<open>The outer loop; \<open>n\<close> is \<open>BUF_SZ\<close>, the size of \<open>buf\<close>. \<open>read\<close> writes what it delivers, within the buffer.\<close>

lemma os_read_smaller:
  assumes "(r, d, cs') = os_read cs n" "\<not> r \<le> 0"
  shows "sum_list (map chunk_size cs') < sum_list (map chunk_size cs)"
  using assms by (induction cs n rule: os_read.induct) (auto split: if_splits)

function read_loop ::
    "(bytes \<Rightarrow> 's \<Rightarrow> mm_stop + 's) \<Rightarrow> nat \<Rightarrow> chunk list \<Rightarrow> bytes \<Rightarrow> nat \<Rightarrow> 's \<Rightarrow> mm_stop + 's" where
  "read_loop process_line n ins buf buf_pos st =
     (case os_read ins (n - buf_pos) of (r, d, ins) \<Rightarrow>
        if r \<le> 0 then Inr st
        else if length buf < buf_pos + length d then Inl OutOfBounds
        else
          (let buf = array_write buf buf_pos d;
               buf_sz = buf_pos + nat r
           in rbind (split_loop process_line buf 0 buf_sz st) (\<lambda>(buf_pos, st).
                let buf = array_write buf 0 (take (buf_sz - buf_pos) (drop buf_pos buf));
                    buf_pos = buf_sz - buf_pos
                in if buf_pos = n then
                     rbind (process_line (take n buf) st) (\<lambda>st.
                       read_loop process_line n ins buf 0 st)
                   else read_loop process_line n ins buf buf_pos st)))"
  by pat_completeness auto
termination
  by (relation "measure (\<lambda>(_, _, ins, _). sum_list (map chunk_size ins))")
    (auto intro: os_read_smaller)

declare read_loop.simps [simp del]

text \<open>A line as it is printed.\<close>

definition out_line :: "bytes \<Rightarrow> bytes" where
  "out_line s = s @ [NL]"

section \<open>What the loops compute\<close>

fun process_all :: "(bytes \<Rightarrow> 's \<Rightarrow> mm_stop + 's) \<Rightarrow> bytes list \<Rightarrow> 's \<Rightarrow> mm_stop + 's" where
  "process_all f [] st = Inr st"
| "process_all f (l # ls) st = rbind (f l st) (\<lambda>st. process_all f ls st)"

lemma process_all_Cons_fun:
  "process_all f (l # ls) = (\<lambda>st. rbind (f l st) (process_all f ls))"
  by (rule ext) simp

lemma process_all_append:
  "process_all f (xs @ ys) st = rbind (process_all f xs st) (process_all f ys)"
  by (induction xs arbitrary: st) (auto simp: rbind_assoc intro: rbind_cong)

text \<open>
  The lines of a stream: closed by a newline, or \<open>n\<close> bytes long. \<open>acc\<close> is the current,
  unfinished line; what is left of it at the end of the stream is not a line.
\<close>

fun lines_of :: "nat \<Rightarrow> bytes \<Rightarrow> bytes \<Rightarrow> bytes list" where
  "lines_of n acc [] = []"
| "lines_of n acc (c # cs) =
     (if c = NL then acc # lines_of n [] cs
      else if Suc (length acc) = n then (acc @ [c]) # lines_of n [] cs
      else lines_of n (acc @ [c]) cs)"

fun cut_lines :: "bytes \<Rightarrow> bytes \<Rightarrow> bytes list \<times> bytes" where
  "cut_lines acc [] = ([], acc)"
| "cut_lines acc (c # cs) =
     (if c = NL then (let (ls, r) = cut_lines [] cs in (acc # ls, r))
      else cut_lines (acc @ [c]) cs)"

lemma cut_lines_no_nl: "NL \<notin> set xs \<Longrightarrow> cut_lines acc (xs @ ys) = cut_lines (acc @ xs) ys"
  by (induction xs arbitrary: acc) auto

lemma cut_lines_rest:
  "cut_lines acc cs = (ls, r) \<Longrightarrow> NL \<notin> set acc \<Longrightarrow> NL \<notin> set r"
  by (induction acc cs arbitrary: ls r rule: cut_lines.induct)
    (auto split: if_splits prod.splits)

lemma cut_lines_suffix:
  "cut_lines acc cs = (ls, r) \<Longrightarrow> \<exists>pre. acc @ cs = pre @ r"
proof (induction acc cs arbitrary: ls r rule: cut_lines.induct)
  case (2 acc c cs)
  show ?case
  proof (cases "c = NL")
    case True
    then obtain ls' where "cut_lines [] cs = (ls', r)"
      using "2.prems" by (auto split: prod.splits)
    then obtain pre where "cs = pre @ r" using "2.IH"(1) [OF True] by auto
    then show ?thesis by (intro exI [of _ "acc @ c # pre"]) simp
  next
    case False
    then show ?thesis using "2.IH"(2) [OF False, of ls r] "2.prems" by simp
  qed
qed simp

lemma lines_of_cut:
  assumes "cut_lines acc d = (ls, r)" "length acc < n" "length acc + length d \<le> n"
  shows "lines_of n acc (d @ rest) =
    ls @ (if length r = n then r # lines_of n [] rest else lines_of n r rest)"
  using assms
proof (induction acc d arbitrary: ls r rule: cut_lines.induct)
  case (1 acc)
  then show ?case by simp
next
  case (2 acc c cs)
  show ?case
  proof (cases "c = NL")
    case True
    then obtain ls' where ls': "cut_lines [] cs = (ls', r)" "ls = acc # ls'"
      using "2.prems"(1) by (auto split: prod.splits)
    then show ?thesis using "2.IH"(1) [OF True ls'(1)] "2.prems"(2,3) True by simp
  next
    case False
    then show ?thesis
      using "2.IH"(2) [OF False, of ls r] "2.prems" by (cases cs) auto
  qed
qed

text \<open>The lines of the bytes between two positions of a buffer, by the first newline.\<close>

lemma cut_lines_None:
  assumes "memchr (drop p buf) NL (q - p) = None"
  shows "cut_lines [] (take (q - p) (drop p buf)) = ([], take (q - p) (drop p buf))"
  using assms cut_lines_no_nl [of "take (q - p) (drop p buf)" "[]" "[]"] by (simp add: memchr_None)

lemma cut_lines_Some:
  assumes "memchr (drop p buf) NL (q - p) = Some k" "q \<le> length buf"
    and "cut_lines [] (take (q - (p + k + 1)) (drop (p + k + 1) buf)) = (ls, r)"
  shows "cut_lines [] (take (q - p) (drop p buf)) = (take k (drop p buf) # ls, r)"
proof -
  define content where "content = take (q - p) (drop p buf)"
  define line where "line = take k (drop p buf)"
  have k: "k < q - p" "drop p buf ! k = NL" "NL \<notin> set line"
    using assms(1) by (auto simp: memchr_Some line_def)
  then have len: "k < length content" using assms(2) by (simp add: content_def)
  have "content = take k content @ content ! k # drop (Suc k) content"
    using len by (simp add: id_take_nth_drop)
  moreover have "take k content = line" "content ! k = NL"
    using k by (simp_all add: content_def line_def)
  moreover have "drop (Suc k) content = take (q - (p + k + 1)) (drop (p + k + 1) buf)"
    by (simp add: content_def drop_take add.commute add.left_commute)
  ultimately have "content = line @ NL # take (q - (p + k + 1)) (drop (p + k + 1) buf)" by simp
  then show ?thesis
    using cut_lines_no_nl [OF k(3), of "[]"] assms(3) by (simp flip: content_def line_def)
qed

lemma cut_lines_length:
  "cut_lines acc cs = (ls, r) \<Longrightarrow>
    sum_list (map (\<lambda>l. length l + 1) ls) + length r = length acc + length cs"
  by (induction acc cs arbitrary: ls r rule: cut_lines.induct)
    (auto split: if_splits prod.splits)

lemma split_loop_cut:
  assumes "cut_lines [] (take (buf_sz - buf_pos) (drop buf_pos buf)) = (ls, r)"
    and "buf_pos \<le> buf_sz" "buf_sz \<le> length buf"
  shows "split_loop f buf buf_pos buf_sz st =
    rbind (process_all f ls st) (\<lambda>st. Inr (buf_sz - length r, st))"
  using assms
proof (induction f buf buf_pos buf_sz st arbitrary: ls r rule: split_loop.induct)
  case (1 f buf buf_pos buf_sz st)
  show ?case
  proof (cases "memchr (drop buf_pos buf) NL (buf_sz - buf_pos)")
    case None
    then have "ls = []" "r = take (buf_sz - buf_pos) (drop buf_pos buf)"
      using cut_lines_None [OF None] "1.prems"(1) by simp_all
    then show ?thesis using None "1.prems" by (simp add: split_loop.simps [of f buf buf_pos])
  next
    case (Some k)
    define line where "line = take k (drop buf_pos buf)"
    have k: "k < buf_sz - buf_pos" using Some by (simp add: memchr_Some)
    obtain ls' r' where rest:
      "cut_lines [] (take (buf_sz - (buf_pos + k + 1)) (drop (buf_pos + k + 1) buf)) = (ls', r')"
      by (metis surj_pair)
    have eq: "ls = line # ls'" "r = r'"
      using cut_lines_Some [OF Some "1.prems"(3) rest] "1.prems"(1) by (simp_all add: line_def)
    have "split_loop f buf buf_pos buf_sz st =
        rbind (f line st) (\<lambda>st. split_loop f buf (buf_pos + k + 1) buf_sz st)"
      using Some by (simp add: split_loop.simps [of f buf buf_pos] line_def Let_def)
    also have "\<dots> = rbind (f line st) (\<lambda>st. rbind (process_all f ls' st)
        (\<lambda>st. Inr (buf_sz - length r', st)))"
    proof (rule rbind_cong [OF refl])
      fix st' assume st': "f line st = Inr st'"
      show "split_loop f buf (buf_pos + k + 1) buf_sz st' =
          rbind (process_all f ls' st') (\<lambda>st. Inr (buf_sz - length r', st))"
        using "1.IH" [OF Some refl refl, of st' ls' r'] st' rest k(1) "1.prems"(3)
        by (simp add: line_def)
    qed
    finally show ?thesis by (simp add: eq rbind_assoc)
  qed
qed

lemma os_read_stream:
  assumes "os_read cs n = (r, d, cs')" "0 < n"
  shows "(r \<le> 0 \<longrightarrow> stream_bytes cs = []) \<and>
    (0 < r \<longrightarrow> r = int (length d) \<and> length d \<le> n \<and> stream_bytes cs = d @ stream_bytes cs')"
  using assms by (induction cs n rule: os_read.induct) (auto split: if_splits)

lemma os_read_length:
  "os_read cs n = (r, d, cs') \<Longrightarrow> length d \<le> n \<and> (0 \<le> r \<longrightarrow> r = int (length d))"
  by (induction cs n rule: os_read.induct) (auto split: if_splits)

lemma os_read_total:
  "os_read cs n = (r, d, cs') \<Longrightarrow>
    sum_list (map chunk_size cs') + length d \<le> sum_list (map chunk_size cs)"
  by (induction cs n rule: os_read.induct) (auto split: if_splits)

text \<open>
  The outer loop processes the lines of the stream, wherever \<open>read\<close> cut it: the first
  \<open>buf_pos\<close> bytes of the buffer are the unfinished line.
\<close>

lemma read_loop_lines:
  assumes "length buf = n" "buf_pos < n" "NL \<notin> set (take buf_pos buf)"
  shows "read_loop f n ins buf buf_pos st =
    process_all f (lines_of n (take buf_pos buf) (stream_bytes ins)) st"
  using assms
proof (induction "sum_list (map chunk_size ins)" arbitrary: ins buf buf_pos st rule: less_induct)
  case (less ins buf buf_pos st)
  obtain r d ins' where rd: "os_read ins (n - buf_pos) = (r, d, ins')"
    by (metis prod_cases3)
  note stream = os_read_stream [OF rd]
  show ?case
  proof (cases "r \<le> 0")
    case True
    then show ?thesis
      using rd stream less.prems(2) by (simp add: read_loop.simps [of f n ins])
  next
    case False
    then have d: "r = int (length d)" "length d \<le> n - buf_pos"
      "stream_bytes ins = d @ stream_bytes ins'"
      using stream less.prems(2) by auto
    define acc where "acc = take buf_pos buf"
    define buf1 where "buf1 = array_write buf buf_pos d"
    define buf_sz where "buf_sz = buf_pos + length d"
    have len1: "length buf1 = n" "buf_sz \<le> n"
      using d less.prems(1,2) by (simp_all add: buf1_def buf_sz_def)
    have lacc: "length acc = buf_pos" using less.prems by (simp add: acc_def)
    have content: "take buf_sz buf1 = acc @ d"
      using d less.prems(1,2) by (simp add: buf1_def buf_sz_def acc_def take_array_write)
    obtain ls rest where cut: "cut_lines acc d = (ls, rest)" by (metis surj_pair)
    then have cut0: "cut_lines [] (take buf_sz buf1) = (ls, rest)"
      using cut_lines_no_nl [of acc "[]" d] less.prems(3) by (simp add: content acc_def)
    obtain pre where pre: "acc @ d = pre @ rest"
      using cut_lines_suffix [OF cut] by blast
    have lrest: "length rest \<le> buf_sz" using arg_cong [OF pre, of length] lacc
      by (simp add: buf_sz_def)
    define p where "p = buf_sz - length rest"
    have tail: "take (buf_sz - p) (drop p buf1) = rest"
    proof -
      have "length pre = p"
        using lacc arg_cong [OF pre, of length] by (simp add: p_def buf_sz_def)
      then have "drop p (take buf_sz buf1) = rest"
        using pre content by simp
      then show ?thesis using lrest by (simp add: drop_take p_def)
    qed
    have sp: "split_loop f buf1 0 buf_sz st =
        rbind (process_all f ls st) (\<lambda>st. Inr (p, st))" for st
      using split_loop_cut [of buf_sz 0 buf1 ls rest f st] cut0 len1 by (simp add: p_def)
    define buf2 where "buf2 = array_write buf1 0 rest"
    have len2: "length buf2 = n" using len1 lrest by (simp add: buf2_def)
    have buf2: "take (length rest) buf2 = rest"
      using len1 lrest take_array_write [of 0 rest buf1] by (simp add: buf2_def)
    have nl: "NL \<notin> set rest"
      using cut_lines_rest [OF cut] less.prems(3) by (simp add: acc_def)
    have psz: "buf_sz - p = length rest" using lrest by (simp add: p_def)
    have nr: "nat r = length d" using d(1) by simp
    have fits: "\<not> length buf < buf_sz" using len1(2) less.prems(1) by simp
    have lines: "lines_of n acc (stream_bytes ins) =
        ls @ (if length rest = n then rest # lines_of n [] (stream_bytes ins')
              else lines_of n rest (stream_bytes ins'))"
      using lines_of_cut [OF cut, of n "stream_bytes ins'"] d(2,3) lacc less.prems(2) by simp
    have step: "read_loop f n ins buf buf_pos st =
        rbind (process_all f ls st) (\<lambda>st.
          if length rest = n then rbind (f rest st) (\<lambda>st. read_loop f n ins' buf2 0 st)
          else read_loop f n ins' buf2 (length rest) st)"
    proof -
      have cont: "(let buf = array_write buf1 0 (take (buf_sz - q) (drop q buf1));
              buf_pos = buf_sz - q
          in if buf_pos = n then rbind (f (take n buf) st) (\<lambda>st. read_loop f n ins' buf 0 st)
             else read_loop f n ins' buf buf_pos st) =
          (if length rest = n then rbind (f rest st) (\<lambda>st. read_loop f n ins' buf2 0 st)
             else read_loop f n ins' buf2 (length rest) st)" if "q = p" for q st
        using tail psz buf2 by (auto simp: that buf2_def)
      have "read_loop f n ins buf buf_pos st =
          rbind (rbind (process_all f ls st) (\<lambda>st. Inr (p, st))) (\<lambda>(q, st).
            (let buf = array_write buf1 0 (take (buf_sz - q) (drop q buf1));
                 buf_pos = buf_sz - q
             in if buf_pos = n then rbind (f (take n buf) st) (\<lambda>st. read_loop f n ins' buf 0 st)
                else read_loop f n ins' buf buf_pos st))"
        by (subst read_loop.simps)
          (simp only: rd prod.case False if_False Let_def nr buf1_def [symmetric]
            buf_sz_def [symmetric] fits sp)
      then show ?thesis
        by (simp only: rbind_assoc rbind_simps prod.case cont [OF refl])
    qed
    have smaller: "sum_list (map chunk_size ins') < sum_list (map chunk_size ins)"
      using os_read_smaller [OF rd [symmetric] False] .
    have "0 < n" using less.prems(2) by simp
    have whole: "read_loop f n ins' buf2 0 st = process_all f (lines_of n [] (stream_bytes ins')) st" for st
      using less.hyps [OF smaller len2 \<open>0 < n\<close>] by simp
    have whole_fun: "read_loop f n ins' buf2 0 = process_all f (lines_of n [] (stream_bytes ins'))"
      by (rule ext) (rule whole)
    have part: "read_loop f n ins' buf2 (length rest) st =
        process_all f (lines_of n rest (stream_bytes ins')) st" if "length rest \<noteq> n" for st
      using less.hyps [OF smaller len2, of "length rest"] that lrest len1 nl buf2 by simp
    show ?thesis
      unfolding step acc_def [symmetric] lines
      by (simp add: whole_fun part process_all_append process_all_Cons_fun)
  qed
qed

text \<open>What is left of the stream after its last line, and whether it ends without an error.\<close>

fun tail_of :: "nat \<Rightarrow> bytes \<Rightarrow> bytes \<Rightarrow> bytes" where
  "tail_of n acc [] = acc"
| "tail_of n acc (c # cs) =
     (if c = NL \<or> Suc (length acc) = n then tail_of n [] cs else tail_of n (acc @ [c]) cs)"

lemma tail_of_cut:
  assumes "cut_lines acc d = (ls, r)" "length acc < n" "length acc + length d \<le> n"
  shows "tail_of n acc (d @ rest) = tail_of n (if length r = n then [] else r) rest"
  using assms
proof (induction acc d arbitrary: ls r rule: cut_lines.induct)
  case (2 acc c cs)
  show ?case
  proof (cases "c = NL")
    case True
    then obtain ls' where ls': "cut_lines [] cs = (ls', r)" using "2.prems"(1) by (auto split: prod.splits)
    then show ?thesis using "2.IH"(1) [OF True ls'] "2.prems"(2,3) True by simp
  next
    case False
    then show ?thesis using "2.IH"(2) [OF False, of ls r] "2.prems" by (cases cs) auto
  qed
qed simp

fun ends_with_eof :: "chunk list \<Rightarrow> bool" where
  "ends_with_eof [] \<longleftrightarrow> True"
| "ends_with_eof (Read_error # cs) \<longleftrightarrow> False"
| "ends_with_eof (Data d # cs) \<longleftrightarrow> d = [] \<or> ends_with_eof cs"

lemma os_read_eof:
  assumes "os_read cs n = (r, d, cs')" "0 < n"
  shows "r \<le> 0 \<longrightarrow> (ends_with_eof cs \<longleftrightarrow> r = 0)" "0 < r \<longrightarrow> ends_with_eof cs' = ends_with_eof cs"
  using assms by (induction cs n rule: os_read.induct) (auto split: if_splits)

section \<open>Main properties\<close>

lemma lines_of_line:
  assumes "NL \<notin> set l" "length acc + length l < n"
  shows "lines_of n acc (l @ NL # rest) = (acc @ l) # lines_of n [] rest"
  using assms by (induction l arbitrary: acc) auto

lemma lines_of_unfinished:
  "NL \<notin> set l \<Longrightarrow> length acc + length l < n \<Longrightarrow> lines_of n acc l = []"
  by (induction l arbitrary: acc) auto

lemma lines_of_unlines:
  assumes "\<forall>l \<in> set ls. NL \<notin> set l \<and> length l < n" "NL \<notin> set tail" "length tail < n"
  shows "lines_of n [] (concat (map out_line ls) @ tail) = ls"
  using assms(1) by (induction ls) (use assms(2,3) in \<open>auto simp: out_line_def lines_of_line lines_of_unfinished\<close>)

text \<open>
  On a stream of newline-terminated lines, each shorter than the buffer, the input loop
  hands over exactly these lines, in order, however \<open>read\<close> cuts the stream. Bytes after the
  last newline never reach \<open>process_line\<close>: an unterminated last line is dropped.
\<close>

theorem read_loop_terminated_lines:
  assumes "\<forall>l \<in> set ls. NL \<notin> set l \<and> length l < n" "NL \<notin> set tail" "length tail < n"
    and "stream_bytes ins = concat (map out_line ls) @ tail"
    and "length buf = n"
  shows "read_loop f n ins buf 0 st = process_all f ls st"
  using read_loop_lines [OF assms(5), of 0 f ins st] assms by (simp add: lines_of_unlines)

theorem read_loop_terminated_lines_witness:
  "read_loop (\<lambda>l ls. Inr (ls @ [l])) 4 [Data [1, 10, 2], Data [3], Data [10, 4, 5], Data []] [9, 9, 9, 9] 0 [] =
   process_all (\<lambda>l ls. Inr (ls @ [l])) [[1], [2, 3]] []"
  by (rule read_loop_terminated_lines [where tail = "[4, 5]"]) (simp_all add: NL_def out_line_def)

end
