(* ===== verification/Options.thy ===== *)
theory Options
  imports Hash_Table
begin

text \<open>
  Command-line handling shared by the tools: \<open>optstring_from_long_options\<close>, which the
  repository copies into \<open>mmuniq.c\<close>, \<open>mmuniq-hash.c\<close>, \<open>mmuniq-bloom.c\<close>, the fuzzer's
  \<open>utils.c\<close> and the branch-prediction \<open>main.c\<close>, and \<open>atoll\<close>/\<open>llabs\<close> of the C library, which
  turn option arguments into sizes. What \<open>getopt_long\<close> returns is an input of the programs: a
  list of option codes with their arguments.
\<close>

section \<open>The option string\<close>

text \<open>\<open>struct option\<close>: \<open>opt_name = None\<close> is the null pointer that ends an option table.\<close>

record long_option =
  opt_name :: "string option"
  has_arg :: int
  flag_null :: bool
  opt_val :: int

definition no_argument :: int where "no_argument = 0"
definition required_argument :: int where "required_argument = 1"
definition optional_argument :: int where "optional_argument = 2"

text \<open>\<open>*osp++ = c\<close> on the static buffer; a write past its end is the fault \<open>OutOfBounds\<close>.\<close>

definition put :: "u8 \<Rightarrow> bytes \<times> nat \<Rightarrow> mm_stop + (bytes \<times> nat)" where
  "put c s = (let (optstring, osp) = s in
     if osp < length optstring then Inr (optstring[osp := c], osp + 1) else Inl OutOfBounds)"

definition COLON :: u8 where "COLON = 58"

fun optstring_loop :: "long_option list \<Rightarrow> bytes \<times> nat \<Rightarrow> mm_stop + (bytes \<times> nat)" where
  "optstring_loop [] s = Inl OutOfBounds"
| "optstring_loop (opt # opts) s =
     (if opt_name opt \<noteq> None then
        rbind
          (if flag_null opt \<and> 0 < opt_val opt \<and> opt_val opt < 256 then
             rbind (put (word_of_int (opt_val opt)) s) (\<lambda>s.
               if has_arg opt = optional_argument then rbind (put COLON s) (put COLON)
               else if has_arg opt = required_argument then put COLON s
               else Inr s)
           else Inr s)
          (optstring_loop opts)
      else Inr s)"

definition optstring_from_long_options :: "long_option list \<Rightarrow> bytes \<Rightarrow> mm_stop + bytes" where
  "optstring_from_long_options opts optstring =
     rbind (optstring_loop opts (optstring, 0)) (\<lambda>s.
     rbind (put 0 s) (\<lambda>(optstring, osp).
       if osp \<ge> length optstring then Inl Abort else Inr optstring))"

text \<open>The characters one table entry stands for, and the string of a whole table.\<close>

definition opt_chars :: "long_option \<Rightarrow> bytes" where
  "opt_chars opt =
     (if flag_null opt \<and> 0 < opt_val opt \<and> opt_val opt < 256 then
        word_of_int (opt_val opt) #
          replicate (if has_arg opt = 2 then 2 else if has_arg opt = 1 then 1 else 0) COLON
      else [])"

definition opt_string :: "long_option list \<Rightarrow> bytes" where
  "opt_string opts = concat (map opt_chars (takeWhile (\<lambda>opt. opt_name opt \<noteq> None) opts))"

text \<open>Writing several characters, one after the other.\<close>

fun puts_all :: "bytes \<Rightarrow> bytes \<times> nat \<Rightarrow> mm_stop + (bytes \<times> nat)" where
  "puts_all [] s = Inr s"
| "puts_all (c # cs) s = rbind (put c s) (puts_all cs)"

lemma puts_all_append: "puts_all (xs @ ys) s = rbind (puts_all xs s) (puts_all ys)"
proof (induction xs arbitrary: s)
  case (Cons c cs)
  have "puts_all (cs @ ys) = (\<lambda>s. rbind (puts_all cs s) (puts_all ys))"
    by (rule ext) (rule Cons.IH)
  then show ?case by (simp add: rbind_assoc)
qed simp

lemma puts_all_eq:
  assumes "osp \<le> length buf"
  shows "puts_all cs (buf, osp) =
    (if osp + length cs \<le> length buf then Inr (array_write buf osp cs, osp + length cs)
     else Inl OutOfBounds)"
  using assms
proof (induction cs arbitrary: buf osp)
  case (Cons c cs)
  show ?case
  proof (cases "osp < length buf")
    case True
    then have "array_write (buf[osp := c]) (Suc osp) cs = array_write buf osp (c # cs)"
      by (simp add: array_write_def take_Suc_conv_app_nth)
    then show ?thesis using Cons.IH [of "Suc osp" "buf[osp := c]"] True
      by (simp add: put_def)
  qed (use Cons.prems in \<open>simp add: put_def\<close>)
qed simp

lemma optstring_loop_puts:
  assumes "\<exists>opt \<in> set opts. opt_name opt = None"
  shows "optstring_loop opts s = puts_all (opt_string opts) s"
  using assms
proof (induction opts arbitrary: s)
  case (Cons opt opts)
  show ?case
  proof (cases "opt_name opt = None")
    case False
    then have IH: "optstring_loop opts = puts_all (opt_string opts)"
      using Cons by (intro ext) auto
    have "puts_all (opt_string (opt # opts)) s =
        rbind (puts_all (opt_chars opt) s) (puts_all (opt_string opts))"
      using False by (simp add: opt_string_def puts_all_append)
    moreover have "puts_all (opt_chars opt) s =
        (if flag_null opt \<and> 0 < opt_val opt \<and> opt_val opt < 256 then
             rbind (put (word_of_int (opt_val opt)) s) (\<lambda>s.
               if has_arg opt = optional_argument then rbind (put COLON s) (put COLON)
               else if has_arg opt = required_argument then put COLON s
               else Inr s)
           else Inr s)"
      by (auto simp: opt_chars_def optional_argument_def required_argument_def numeral_2_eq_2
          rbind_def split: sum.split)
    ultimately show ?thesis using False IH by (auto simp del: put_def)
  qed (simp add: opt_string_def)
qed simp

section \<open>Numbers in option arguments\<close>

text \<open>\<open>isspace\<close> in the C locale.\<close>

definition isspace :: "u8 \<Rightarrow> bool" where
  "isspace c \<longleftrightarrow> c = 32 \<or> (9 \<le> c \<and> c \<le> 13)"

definition isdigit :: "u8 \<Rightarrow> bool" where
  "isdigit c \<longleftrightarrow> 48 \<le> c \<and> c \<le> 57"

definition digits_value :: "bytes \<Rightarrow> int" where
  "digits_value cs = foldl (\<lambda>n c. n * 10 + (uint c - 48)) 0 cs"

text \<open>
  \<open>atoll\<close>: white space, a sign, digits; what follows is ignored, and a value outside
  \<open>long long\<close> is clamped, as \<open>strtoll\<close> does.
\<close>

definition atoll :: "bytes \<Rightarrow> int" where
  "atoll s =
     (let s = dropWhile isspace s;
          (neg, s) = (case s of c # cs \<Rightarrow> if c = 45 then (True, cs) else if c = 43 then (False, cs)
                                           else (False, s)
                        | [] \<Rightarrow> (False, s));
          v = digits_value (takeWhile isdigit s);
          v = (if neg then - v else v)
      in max (- (2 ^ 63)) (min (2 ^ 63 - 1) v))"

text \<open>\<open>atoi\<close> keeps the low 32 bits.\<close>

definition atoi :: "bytes \<Rightarrow> int" where
  "atoi s = sint (word_of_int (atoll s) :: 32 word)"

text \<open>\<open>llabs\<close> converted to \<open>uint64_t\<close>: the smallest \<open>long long\<close> is its own absolute value.\<close>

definition llabs_u64 :: "int \<Rightarrow> u64" where
  "llabs_u64 v = word_of_int \<bar>v\<bar>"

lemma atoll_range: "- (2 ^ 63) \<le> atoll s" "atoll s \<le> 2 ^ 63 - 1"
  by (auto simp: atoll_def Let_def split: prod.split)

lemma unat_llabs:
  assumes "- (2 ^ 63) \<le> v" "v \<le> 2 ^ 63 - 1"
  shows "unat (llabs_u64 v) = nat \<bar>v\<bar>"
  using assms by (simp add: llabs_u64_def unsigned_of_int take_bit_int_eq_self abs_le_iff)

section \<open>Main properties\<close>

text \<open>
  On a table that ends with a null name, \<open>optstring_from_long_options\<close> yields the string
  of the table (each option letter with one colon when its argument is required and two when
  it is optional) if string and terminator need at most 255 bytes. Exactly 256 bytes, which
  fit the buffer, abort the program; with more, the characters have already been written
  past the end of the buffer when the size check is made.
\<close>

theorem optstring_exact:
  assumes "\<exists>opt \<in> set opts. opt_name opt = None" and "length buf = 256"
  shows "optstring_from_long_options opts buf =
    (let n = length (opt_string opts) + 1 in
     if n < 256 then Inr (array_write buf 0 (opt_string opts @ [0]))
     else if n = 256 then Inl Abort else Inl OutOfBounds)"
proof -
  have "rbind (puts_all (opt_string opts) (buf, 0)) (put 0) =
      puts_all (opt_string opts @ [0]) (buf, 0)"
    by (simp add: puts_all_append rbind_def split: sum.split)
  then have "optstring_from_long_options opts buf =
      rbind (puts_all (opt_string opts @ [0]) (buf, 0)) (\<lambda>(optstring, osp).
        if osp \<ge> length optstring then Inl Abort else Inr optstring)"
    by (simp add: optstring_from_long_options_def optstring_loop_puts [OF assms(1)]
        flip: rbind_assoc)
  then show ?thesis
    using assms(2) by (simp add: puts_all_eq Let_def del: puts_all.simps)
qed

definition null_option :: long_option where
  "null_option = \<lparr>opt_name = None, has_arg = 0, flag_null = True, opt_val = 0\<rparr>"

theorem optstring_exact_witness:
  "optstring_from_long_options
     [\<lparr>opt_name = Some ''n'', has_arg = 1, flag_null = True, opt_val = 110\<rparr>,
      \<lparr>opt_name = Some ''q'', has_arg = 0, flag_null = True, opt_val = 113\<rparr>, null_option]
     (replicate 256 0) = Inr (array_write (replicate 256 0) 0 [110, 58, 113, 0])"
  by (subst optstring_exact) (simp_all add: null_option_def opt_string_def opt_chars_def COLON_def)

end
