(* ===== verification/Mmuniq_Hash.thy ===== *)
theory Mmuniq_Hash
  imports Siphash Line_Loop Options "HOL-Library.Monad_Syntax"
begin

text \<open>
  \<open>2020-02-mmuniq/mmuniq-hash.c\<close>: the duplicate filter on a hash table of fixed size, from the
  options to the statistics printed at the end. The size loop, which can run forever, is an
  optional value. Output goes to one list of bytes (stdio buffers it, and flushes it at the
  end); the messages on the standard error are values.
\<close>

unbundle bit_operations_syntax

section \<open>A line\<close>

definition DEFAULT_HASH_SIZE :: u64 where
  "DEFAULT_HASH_SIZE = 500000000"

definition k0 :: u64 where "k0 = 0xdeadbeeffadebabe"
definition k1 :: u64 where "k1 = 0xdeadbeeffadebabe"

text \<open>
  The static variables of the program, the table and the standard output. The counters are
  \<open>int\<close>, kept at 32 bits.
\<close>

record hash_state =
  global_size_mask :: u64
  global_repeated :: bool
  overflow_count :: "32 word"
  hash_conflicts :: "32 word"
  line_count :: "32 word"
  bm :: "u64 list"
  out :: bytes

text \<open>The loop of \<open>process_line\<close>: it also counts the conflicts.\<close>

function conflict_loop ::
    "u64 \<Rightarrow> u64 \<Rightarrow> u64 \<Rightarrow> u64 \<Rightarrow> u64 list \<Rightarrow> 32 word \<Rightarrow> mm_stop + (int \<times> u64 list \<times> 32 word)" where
  "conflict_loop i lim h msk tab conflicts =
     (if i < lim then
        (let k = unat (i AND msk) in
         if k < length tab then
           if tab ! k = 0 then Inr (1, tab[k := h], conflicts)
           else if tab ! k = h then Inr (0, tab, conflicts)
           else conflict_loop (i + 1) lim h msk tab (conflicts + 1)
         else Inl OutOfBounds)
      else Inr (-1, tab, conflicts))"
  by pat_completeness auto
termination
  by (relation "measure (\<lambda>(i, lim, _). unat (lim - i))") (auto simp: count_up_measure)

declare conflict_loop.simps [simp del]

definition process_line :: "bytes \<Rightarrow> hash_state \<Rightarrow> mm_stop + hash_state" where
  "process_line s st =
     (let st = st\<lparr>line_count := line_count st + 1\<rparr>;
          h = fst (siphash24 s k0 k1 None)
      in rbind (conflict_loop h (h + 4096) h (global_size_mask st) (bm st) (hash_conflicts st))
           (\<lambda>(miss, bm', conflicts).
             let st = st\<lparr>bm := bm', hash_conflicts := conflicts\<rparr>;
                 (miss, st) =
                   (if miss = -1 then (0, st\<lparr>overflow_count := overflow_count st + 1\<rparr>)
                    else (miss, st))
             in if \<not> global_repeated st \<and> miss = 1 \<or> global_repeated st \<and> miss = 0 then
                  Inr (st\<lparr>out := out st @ s @ [NL]\<rparr>)
                else Inr st))"

section \<open>The program\<close>

record hash_options =
  size_opt :: u64
  quiet_opt :: bool
  repeated_opt :: bool

text \<open>
  The option switch of \<open>main\<close>, over what \<open>getopt_long\<close> returns until -1: the characters
  63 \<open>?\<close>, 104 \<open>h\<close>, 110 \<open>n\<close>, 113 \<open>q\<close> and 68 \<open>D\<close>.
\<close>

fun hash_getopt :: "(int \<times> bytes) list \<Rightarrow> hash_options \<Rightarrow> mm_stop + hash_options" where
  "hash_getopt [] opts = Inr opts"
| "hash_getopt ((arg, optarg) # evs) opts =
     (if arg = 63 then Inl (Exit (-1))
      else if arg = 104 then Inl (Exit 1)
      else if arg = 110 then hash_getopt evs (opts\<lparr>size_opt := llabs_u64 (atoll optarg)\<rparr>)
      else if arg = 113 then hash_getopt evs (opts\<lparr>quiet_opt := True\<rparr>)
      else if arg = 68 then hash_getopt evs (opts\<lparr>repeated_opt := True\<rparr>)
      else Inl (Exit (-1)))"

text \<open>\<open>while (global_size_mask <= global_size) global_size_mask <<= 1\<close>\<close>

partial_function (option) size_loop :: "u64 \<Rightarrow> u64 \<Rightarrow> u64 option" where
  "size_loop msk sz =
     (if msk \<le> sz then size_loop (push_bit 1 msk) sz else Some msk)"

datatype hash_message =
    Parameters u64 u64 \<comment> \<open>slots and MiB\<close>
  | Overflows int
  | Conflicts int int \<comment> \<open>the conflicts, divided by the lines\<close>

text \<open>
  \<open>main\<close>. \<open>n\<close> is \<open>BUF_SZ\<close>, \<open>buf\<close> what the stack holds where \<open>buf\<close> is; \<open>mmap_ok\<close> says for
  which sizes \<open>mmap\<close> succeeds (it returns zeroed memory). The result is \<open>None\<close> when the size
  loop does not end, a stop, or the output and the messages of a run that returns 0.
\<close>

definition hash_main ::
    "(u64 \<Rightarrow> bool) \<Rightarrow> nat \<Rightarrow> (int \<times> bytes) list \<Rightarrow> chunk list \<Rightarrow> bytes \<Rightarrow>
     (mm_stop + (bytes \<times> hash_message list)) option" where
  "hash_main mmap_ok n evs ins buf =
     (case hash_getopt evs \<lparr>size_opt = DEFAULT_HASH_SIZE, quiet_opt = False, repeated_opt = False\<rparr> of
        Inl e \<Rightarrow> Some (Inl e)
      | Inr opts \<Rightarrow>
          Option.bind (size_loop 1 (size_opt opts)) (\<lambda>msk. Some
            (let msk = msk - 1;
                 bm_sz = (msk + 1) * 8
             in if \<not> mmap_ok bm_sz then Inl Mmap_failed
                else rbind (read_loop process_line n ins buf 0
                    \<lparr>global_size_mask = msk, global_repeated = repeated_opt opts, overflow_count = 0,
                     hash_conflicts = 0, line_count = 0, bm = replicate (unat bm_sz div 8) 0,
                     out = []\<rparr>) (\<lambda>st.
                  Inr (out st,
                    (if quiet_opt opts then []
                     else [Parameters (msk + 1) ((msk + 1) div 1024 div 1024)]) @
                    (if overflow_count st \<noteq> 0 then [Overflows (sint (overflow_count st))] else []) @
                    (if \<not> quiet_opt opts \<and> hash_conflicts st \<noteq> 0 then
                       [Conflicts (sint (hash_conflicts st)) (sint (line_count st))] else []))))))"

section \<open>The size of the table\<close>

lemma size_loop_ends:
  assumes "unat sz < 2 ^ 63" "k < 64" "unat sz < 2 ^ (k + d)" "k + d < 64"
  shows "\<exists>j \<ge> k. j < 64 \<and> size_loop (push_bit k 1) sz = Some (push_bit j 1) \<and> unat sz < 2 ^ j"
  using assms(2-)
proof (induction d arbitrary: k)
  case 0
  have "unat (push_bit k 1 :: u64) = 2 ^ k"
    using 0 by (simp add: unat_exp)
  then have "\<not> push_bit k 1 \<le> sz"
    using 0 by (simp add: word_le_nat_alt)
  then show ?case using 0 by (auto simp: size_loop.simps [of "2 ^ k"] not_le)
next
  case (Suc d)
  show ?case
  proof (cases "push_bit k 1 \<le> sz")
    case True
    then obtain j where "Suc k \<le> j" "j < 64" "size_loop (push_bit (Suc k) 1) sz = Some (push_bit j 1)"
      "unat sz < 2 ^ j"
      using Suc.IH [of "Suc k"] Suc.prems by auto
    then show ?thesis
      using True by (intro exI [of _ j]) (simp add: size_loop.simps [of "2 ^ k"] mult.commute)
  next
    case False
    have "unat (push_bit k 1 :: u64) = 2 ^ k"
      using Suc.prems by (simp add: unat_exp)
    then have "unat sz < 2 ^ k" using False by (simp add: word_le_nat_alt)
    then show ?thesis using False Suc.prems by (auto simp: size_loop.simps [of "2 ^ k"] not_le)
  qed
qed

text \<open>Whatever the loop returns is above the size, and a shift of where it started.\<close>

lemma size_loop_above: "size_loop m sz = Some r \<Longrightarrow> sz < r \<and> (\<exists>j. r = push_bit j m)"
proof (rule size_loop.raw_induct [of "\<lambda>m sz r. sz < r \<and> (\<exists>j. r = push_bit j m)"])
  fix loop and m sz r :: u64
  assume IH: "\<And>m sz r. loop m sz = Some r \<Longrightarrow> sz < r \<and> (\<exists>j. r = push_bit j m)"
    and r: "(if m \<le> sz then loop (push_bit 1 m) sz else Some m) = Some r"
  show "sz < r \<and> (\<exists>j. r = push_bit j m)"
  proof (cases "m \<le> sz")
    case True
    then have "sz < r \<and> (\<exists>j. r = push_bit j (push_bit 1 m))" using IH [of "push_bit 1 m"] r by auto
    then obtain j where "sz < r" "r = push_bit (j + 1) m" by (auto simp: ac_simps)
    then show ?thesis by blast
  next
    case False
    then have "r = m" "sz < r" using r by (simp_all split: if_splits)
    then show ?thesis by (auto intro: exI [of _ 0])
  qed
qed

lemma size_loop_total:
  assumes "unat sz < 2 ^ 63"
  obtains k where "k < 64" "size_loop 1 sz = Some (2 ^ k)" "unat sz < 2 ^ k"
  using size_loop_ends [OF assms, of 0 63] assms by auto

lemma size_loop_diverges:
  assumes "2 ^ 63 \<le> unat sz"
  shows "size_loop 1 sz = None"
proof (rule ccontr)
  assume "size_loop 1 sz \<noteq> None"
  then obtain r where "size_loop 1 sz = Some r" by auto
  then obtain j where j: "sz < 2 ^ j" using size_loop_above [of 1 sz r] by auto
  have "j < 64"
  proof (rule ccontr)
    assume "\<not> j < 64"
    then have "(2 ^ j :: u64) = 0" by simp
    then have "sz < 0" using j by metis
    then show False by simp
  qed
  then have "unat (2 ^ j :: u64) \<le> 2 ^ 63"
    using \<open>j < 64\<close> power_increasing [of j 63 "2 :: nat"] by (simp add: unat_exp)
  then show False using j assms by (simp add: word_less_nat_alt)
qed

section \<open>Lines and the filter\<close>

definition line_hash :: "bytes \<Rightarrow> u64" where
  "line_hash s = fst (siphash24 s k0 k1 None)"

definition filter_of :: "hash_state \<Rightarrow> u64 \<times> u64 list" where
  "filter_of st = (global_size_mask st, bm st)"

lemma conflict_loop_probe:
  "rbind (conflict_loop i lim h m tab c) (\<lambda>(miss, tab, _). Inr (miss, tab)) = probe_loop i lim h m tab"
proof (induction i lim h m tab c rule: conflict_loop.induct)
  case (1 i lim h m tab c)
  then show ?case
    by (simp add: conflict_loop.simps [of i] probe_loop.simps [of i] Let_def)
qed

lemma conflict_loop_scan:
  assumes "table_sized m tab"
  obtains c' where "conflict_loop h (h + 4096) h m tab c =
    (case scan h (window m h) tab of (miss, tab') \<Rightarrow> Inr (miss, tab', c'))"
proof -
  have "rbind (conflict_loop h (h + 4096) h m tab c) (\<lambda>(miss, tab, _). Inr (miss, tab)) =
      Inr (scan h (window m h) tab)"
    using conflict_loop_probe [of h "h + 4096" h m tab c] probe_loop_window [OF assms, of h h]
    by (simp add: OVERFLOW_AFTER_def)
  then obtain c' where "conflict_loop h (h + 4096) h m tab c =
      Inr (fst (scan h (window m h) tab), snd (scan h (window m h) tab), c')"
    by (cases "scan h (window m h) tab") (auto simp: rbind_eq_Inr_iff)
  then show thesis by (intro that [of c']) (simp add: split_beta)
qed

lemma process_line_step:
  assumes "table_sized (global_size_mask st) (bm st)" "table_ins (line_hash s) (filter_of st) = (b, f)"
  shows "\<exists>st'. process_line s st = Inr st' \<and> filter_of st' = f \<and>
    global_repeated st' = global_repeated st \<and>
    out st' = out st @ (if b \<noteq> global_repeated st then out_line s else [])"
proof -
  define h where "h = line_hash s"
  obtain miss tab where sc: "scan h (window (global_size_mask st) h) (bm st) = (miss, tab)"
    by (metis surj_pair)
  obtain c' where "conflict_loop h (h + 4096) h (global_size_mask st) (bm st) (hash_conflicts st) =
      Inr (miss, tab, c')"
    using conflict_loop_scan [OF assms(1), of h "hash_conflicts st"] sc by auto
  moreover have "b = (miss = 1)" "f = (global_size_mask st, tab)"
    using assms sc by (simp_all add: table_ins_def filter_of_def hash_insert_scan h_def)
  moreover have "miss = 1 \<or> miss = 0 \<or> miss = -1"
    using sc by (cases rule: scan_cases [of "window (global_size_mask st) h" "bm st" h]) auto
  ultimately show ?thesis
    unfolding process_line_def Let_def line_hash_def [symmetric] h_def [symmetric]
    by (auto simp: filter_of_def out_line_def)
qed

lemma process_all_lines:
  assumes "table_sized (global_size_mask st) (bm st)"
    and "feed table_ins (map line_hash ls) (filter_of st) = (bs, f)"
  shows "\<exists>st'. process_all process_line ls st = Inr st' \<and> filter_of st' = f \<and>
    out st' = out st @ concat (map out_line (shown (global_repeated st) ls bs))"
  using assms
proof (induction ls arbitrary: st bs)
  case (Cons l ls)
  obtain b f' bs' where step: "table_ins (line_hash l) (filter_of st) = (b, f')"
    "feed table_ins (map line_hash ls) f' = (bs', f)" "bs = b # bs'"
    using Cons.prems(2) by (auto simp: feed_Cons_eq simp del: feed.simps)
  obtain st1 where st1: "process_line l st = Inr st1" "filter_of st1 = f'"
    "global_repeated st1 = global_repeated st"
    "out st1 = out st @ (if b \<noteq> global_repeated st then out_line l else [])"
    using process_line_step [OF Cons.prems(1) step(1)] by auto
  have "table_sized (global_size_mask st1) (bm st1)"
    using step(1) st1(2) Cons.prems(1) table_ins_sized [of "global_size_mask st" "bm st" "line_hash l"]
    by (simp add: filter_of_def)
  then obtain st2 where "process_all process_line ls st1 = Inr st2" "filter_of st2 = f"
    "out st2 = out st1 @ concat (map out_line (shown (global_repeated st1) ls bs'))"
    using Cons.IH [of st1 bs'] step(2) st1(2) by auto
  then show ?case using st1 step(3) by (auto simp: shown_def)
qed (simp add: shown_def picked_def)

text \<open>The lines printed for the lines \<open>ls\<close> with a table of \<open>2 ^ k\<close> slots.\<close>

definition hash_uniq :: "nat \<Rightarrow> bool \<Rightarrow> bytes list \<Rightarrow> bytes list" where
  "hash_uniq k rep ls =
     shown rep ls (fst (feed table_ins (map line_hash ls) (mask k, replicate (2 ^ k) 0)))"

section \<open>Main properties\<close>

text \<open>
  The loop that sizes the table ends exactly for sizes below \<open>2^63\<close>, with the least power
  of two above the size. For the one larger size an option can give (\<open>-n\<close> with the smallest
  \<open>long long\<close>), the shift drops the bit out of the word and the loop runs for ever.
\<close>

theorem size_loop_result:
  "(\<exists>k < 64. size_loop 1 sz = Some (2 ^ k) \<and> unat sz < 2 ^ k \<and> unat sz < 2 ^ 63) \<or>
   size_loop 1 sz = None \<and> 2 ^ 63 \<le> unat sz"
proof (cases "unat sz < 2 ^ 63")
  case True
  then obtain k where "k < 64" "size_loop 1 sz = Some (2 ^ k)" "unat sz < 2 ^ k"
    by (rule size_loop_total)
  then show ?thesis using True by blast
next
  case False
  then show ?thesis using size_loop_diverges [of sz] by simp
qed

text \<open>
  C35: a whole run of \<open>mmuniq-hash\<close>, when the options are accepted and \<open>mmap\<close> does not succeed for a size of 0.
  It never ends if the size asked for is \<open>2^63\<close> (the smallest \<open>long long\<close> is given). For a smaller size, and every
  way the input is cut into reads, the program leaves no buffer and no table, ends, and its output is the lines of
  the stream that the table answers as new (with \<open>-D\<close>, the other ones), each followed by a newline, in order.
  The table has a power of two of slots, more than the size asked for; when \<open>mmap\<close> refuses
  that many bytes the program stops.
\<close>

theorem hash_main_output:
  assumes opts: "hash_getopt evs \<lparr>size_opt = DEFAULT_HASH_SIZE, quiet_opt = False, repeated_opt = False\<rparr> =
      Inr opts"
    and mmap: "\<not> mmap_ok 0"
    and buf: "length buf = n" "0 < n"
  shows "if 2 ^ 63 \<le> unat (size_opt opts) then hash_main mmap_ok n evs ins buf = None
    else \<exists>k < 64. unat (size_opt opts) < 2 ^ k \<and>
    (\<exists>msgs. hash_main mmap_ok n evs ins buf =
      Some (if mmap_ok (2 ^ k * 8) then
              Inr (concat (map out_line (hash_uniq k (repeated_opt opts)
                     (lines_of n [] (stream_bytes ins)))), msgs)
            else Inl Mmap_failed))"
proof (cases "2 ^ 63 \<le> unat (size_opt opts)")
  case True
  then show ?thesis using opts size_loop_diverges [OF True] by (simp add: hash_main_def)
next
  case False
  then have size: "unat (size_opt opts) < 2 ^ 63" by simp
  obtain k where k: "k < 64" "size_loop 1 (size_opt opts) = Some (2 ^ k)"
    "unat (size_opt opts) < 2 ^ k"
    using size_loop_total [OF size] .
  have bytes: "unat (2 ^ k * 8 :: u64) div 8 = 2 ^ k" if "mmap_ok (2 ^ k * 8)"
  proof -
    have exp: "2 ^ k * 8 = (2 ^ (k + 3) :: u64)" by (simp add: power_add)
    have "(2 ^ (k + 3) :: u64) \<noteq> 0" using that mmap exp by metis
    then have "k + 3 < 64" by simp
    then show ?thesis using unat_exp [of "k + 3", where ?'a = 64] unfolding exp by (simp add: power_add)
  qed
  define st where "st = \<lparr>global_size_mask = mask k, global_repeated = repeated_opt opts,
    overflow_count = 0, hash_conflicts = 0, line_count = 0, bm = replicate (2 ^ k) 0, out = []\<rparr>"
  define ls where "ls = lines_of n [] (stream_bytes ins)"
  obtain bs f where feed: "feed table_ins (map line_hash ls) (mask k, replicate (2 ^ k) 0) = (bs, f)"
    by (metis surj_pair)
  have "table_sized (mask k) (replicate (2 ^ k) 0)"
    using k(1) by (simp add: table_sized_def unat_mask64)
  then obtain st' where st': "process_all process_line ls st = Inr st'"
    "out st' = concat (map out_line (shown (repeated_opt opts) ls bs))"
    using process_all_lines [of st ls bs f] feed by (auto simp: st_def filter_of_def)
  have run: "read_loop process_line n ins buf 0 st = Inr st'"
    using read_loop_lines [OF buf(1), of 0 process_line ins st] buf(2) st'(1) by (simp add: ls_def)
  have out': "out st' = concat (map out_line (hash_uniq k (repeated_opt opts) ls))"
    using st'(2) by (simp add: hash_uniq_def feed)
  have "\<exists>k < 64. unat (size_opt opts) < 2 ^ k \<and>
    (\<exists>msgs. hash_main mmap_ok n evs ins buf =
      Some (if mmap_ok (2 ^ k * 8) then
              Inr (concat (map out_line (hash_uniq k (repeated_opt opts)
                     (lines_of n [] (stream_bytes ins)))), msgs)
            else Inl Mmap_failed))"
    using k opts run out' bytes
    by (intro exI [of _ k] conjI)
      (auto simp: hash_main_def Let_def st_def ls_def mask_eq_exp_minus_1)
  then show ?thesis using False by simp
qed

theorem hash_main_output_witness:
  "\<exists>k < 64. unat DEFAULT_HASH_SIZE < 2 ^ k \<and>
    (\<exists>msgs. hash_main (\<lambda>sz. sz \<noteq> 0) 8 [(113, [])] [Data [97, 10, 97], Data [10, 98]] (replicate 8 7) =
      Some (if (2 ^ k * 8 :: u64) \<noteq> 0 then
              Inr (concat (map out_line (hash_uniq k False
                     (lines_of 8 [] (stream_bytes [Data [97, 10, 97], Data [10, 98]])))), msgs)
            else Inl Mmap_failed))"
proof -
  have run: "hash_getopt [(113, [])]
      \<lparr>size_opt = DEFAULT_HASH_SIZE, quiet_opt = False, repeated_opt = False\<rparr> =
    Inr \<lparr>size_opt = DEFAULT_HASH_SIZE, quiet_opt = True, repeated_opt = False\<rparr>"
    by simp
  have small: "\<not> 2 ^ 63 \<le> unat DEFAULT_HASH_SIZE" by (simp add: DEFAULT_HASH_SIZE_def)
  show ?thesis
    using hash_main_output [OF run, of "\<lambda>sz. sz \<noteq> 0" "replicate 8 7" 8 "[Data [97, 10, 97], Data [10, 98]]"] small
    by (simp only: hash_options.simps length_replicate if_False simp_thms zero_less_numeral)
qed

text \<open>
  What is printed. When the hash of every line is one the table can hold, no two printed
  lines have the same hash. While there are at most 4096 lines and no more lines than
  slots, the printed lines are those whose hash occurs for the first time, and if different
  lines have different hashes they are the first occurrences of the input lines.
\<close>

theorem hash_uniq_first_lines:
  assumes "k < 64" and "\<forall>l \<in> set ls. hash_ok (line_hash l)"
  shows "distinct (map line_hash (hash_uniq k False ls)) \<and> set (hash_uniq k False ls) \<subseteq> set ls \<and>
    (length ls \<le> min OVERFLOW_AFTER (2 ^ k) \<longrightarrow>
      map line_hash (hash_uniq k False ls) = firsts {} (map line_hash ls) \<and>
      (inj_on line_hash (set ls) \<longrightarrow> hash_uniq k False ls = firsts {} ls))"
proof -
  obtain bs f where feed: "feed table_ins (map line_hash ls) (mask k, replicate (2 ^ k) 0) = (bs, f)"
    by (metis surj_pair)
  then have "hash_uniq k False ls = picked ls bs" by (simp add: hash_uniq_def shown_new)
  then show ?thesis using table_first_lines [OF assms feed] by simp
qed

theorem hash_uniq_first_lines_witness:
  "distinct (map line_hash (hash_uniq 4 False [[97], [97]])) \<and>
   hash_uniq 4 False [[97], [97]] = firsts {} [[97], [97]] \<and> firsts {} [[97 :: u8], [97]] = [[97]]"
proof -
  have "line_hash [97] = 996266882011968828"
    by (simp add: line_hash_def k0_def k1_def siphash24_def) (simp add: sip_eval)
  then have ok: "\<forall>l \<in> set [[97], [97]]. hash_ok (line_hash l)"
    by (simp add: hash_ok_def OVERFLOW_AFTER_def)
  show ?thesis
    using hash_uniq_first_lines [OF _ ok, of 4] by (simp add: OVERFLOW_AFTER_def)
qed

end
