(* ===== verification/Mmuniq_Bloom.thy ===== *)
theory Mmuniq_Bloom
  imports Siphash Line_Loop Options
begin

text \<open>
  \<open>2020-02-mmuniq/mmuniq-bloom.c\<close>: the duplicate filter on a Bloom filter. \<open>process_line\<close> with
  its eight bit positions out of one SipHash state, the bitmap, the options, and \<open>main\<close>. What
  the program computes in \<open>double\<close> is a parameter: the comparison of the mask with the
  number of bits wanted. The bitmap is proved to be a set of bit positions, \<open>process_line\<close>
  the insertion of the positions of the line, and the whole an instance of the filter
  interface: no line is printed twice.
\<close>

unbundle bit_operations_syntax

section \<open>The bitmap\<close>

definition bitmap_getset :: "u64 list \<Rightarrow> u64 \<Rightarrow> mm_stop + (int \<times> u64 list)" where
  "bitmap_getset bm n =
     (let msk = push_bit (unat (n mod 64)) 1;
          p = unat (n div 64)
      in if p < length bm then
           (let v = bm ! p;
                r = v AND msk
            in if r = 0 then Inr (0, bm[p := v OR msk]) else Inr (1, bm))
         else Inl OutOfBounds)"

definition bswap_64 :: "u64 \<Rightarrow> u64" where
  "bswap_64 w = word_of_le (rev (le_bytes 8 w))"

section \<open>A line\<close>

record bloom_state =
  global_bloom_m_mask :: u64
  global_bloom_k :: int
  global_repeated :: bool
  dummy_run :: bool
  bm :: "u64 list"
  out :: bytes

definition bloom_key :: u64 where
  "bloom_key = 0xdeadbeeffadebabe"

text \<open>The product \<open>off\<close> is taken modulo \<open>2^64\<close>. The array \<open>res\<close> after the hash and the masking; \<open>junk\<close> is what the stack holds there.\<close>

definition bloom_hashes :: "u64 list \<Rightarrow> u64 \<Rightarrow> int \<Rightarrow> int \<Rightarrow> bytes \<Rightarrow> u64 list" where
  "bloom_hashes junk m k i s =
     (let off = word_of_int i * 0x1000100010001000;
          res = the (snd (siphash24 s (bloom_key + off) (bloom_key + off) (Some junk)));
          res = (if i + 4 < k then
                   res[4 := bswap_64 (res ! 0) AND m, 5 := bswap_64 (res ! 1) AND m,
                       6 := bswap_64 (res ! 2) AND m, 7 := bswap_64 (res ! 3) AND m]
                 else res)
      in res[0 := res ! 0 AND m, 1 := res ! 1 AND m, 2 := res ! 2 AND m, 3 := res ! 3 AND m])"

text \<open>
  The loop over \<open>j\<close>: the new \<open>miss\<close> and the bitmap. \<open>i + 8\<close> is an \<open>int\<close>; \<open>j\<close> stays below \<open>k\<close>, which is one.
\<close>

definition INT_MAX :: int where
  "INT_MAX = 2147483647"

function bits_loop ::
    "int \<Rightarrow> int \<Rightarrow> int \<Rightarrow> bool \<Rightarrow> u64 list \<Rightarrow> bool \<Rightarrow> u64 list \<Rightarrow> mm_stop + (bool \<times> u64 list)" where
  "bits_loop j i k dummy res miss tab =
     (if i + 8 > INT_MAX then Inl Overflow
      else if j < i + 8 \<and> j < k then
        (let hash = res ! nat (j mod 8) in
         if \<not> dummy then
           rbind (bitmap_getset tab hash) (\<lambda>(r, tab).
             bits_loop (j + 1) i k dummy res (miss \<or> r = 0) tab)
         else bits_loop (j + 1) i k dummy res miss tab)
      else Inr (miss, tab))"
  by pat_completeness auto
termination
  by (relation "measure (\<lambda>(j, i, _). nat (i + 8 - j))") auto

declare bits_loop.simps [simp del]

text \<open>
  The loop over \<open>i\<close>. \<open>junk i\<close> is the content of the uninitialised array in round \<open>i\<close>. The addition \<open>i += 8\<close>
  cannot overflow where the bound of the inner loop did not.
\<close>

function rounds_loop ::
    "(int \<Rightarrow> u64 list) \<Rightarrow> u64 \<Rightarrow> bool \<Rightarrow> bytes \<Rightarrow> int \<Rightarrow> int \<Rightarrow> bool \<Rightarrow> u64 list \<Rightarrow>
     mm_stop + (bool \<times> u64 list)" where
  "rounds_loop junk m dummy s i k miss tab =
     (if i < k then
        rbind (bits_loop i i k dummy (bloom_hashes (junk i) m k i s) miss tab) (\<lambda>(miss, tab).
          rounds_loop junk m dummy s (i + 8) k miss tab)
      else Inr (miss, tab))"
  by pat_completeness auto
termination
  by (relation "measure (\<lambda>(_, _, _, _, i, k, _). nat (k - i))") auto

declare rounds_loop.simps [simp del]

definition process_line ::
    "(bytes \<Rightarrow> int \<Rightarrow> u64 list) \<Rightarrow> bytes \<Rightarrow> bloom_state \<Rightarrow> mm_stop + bloom_state" where
  "process_line junk s st =
     rbind (rounds_loop (junk s) (global_bloom_m_mask st) (dummy_run st) s 0 (global_bloom_k st)
         False (bm st)) (\<lambda>(miss, bm').
       let st = st\<lparr>bm := bm'\<rparr> in
       if \<not> global_repeated st \<and> miss \<or> global_repeated st \<and> \<not> miss then
         Inr (st\<lparr>out := out st @ s @ [NL]\<rparr>)
       else Inr st)"

section \<open>The program\<close>

text \<open>\<open>abs\<close> keeps the low 32 bits.\<close>

definition abs_int :: "int \<Rightarrow> int" where
  "abs_int v = sint (word_of_int \<bar>v\<bar> :: 32 word)"

record bloom_options =
  n_opt :: u64
  p_opt :: "bytes option" \<comment> \<open>the argument of \<open>-p\<close>, which the program reads as a double\<close>
  k_opt :: int
  bloom_quiet :: bool
  bloom_repeated :: bool
  dummy_opt :: bool

definition DEFAULT_BLOOM_N :: u64 where "DEFAULT_BLOOM_N = 500000000"
definition DEFAULT_BLOOM_K :: int where "DEFAULT_BLOOM_K = 8"

definition bloom_defaults :: bloom_options where
  "bloom_defaults = \<lparr>n_opt = DEFAULT_BLOOM_N, p_opt = None, k_opt = DEFAULT_BLOOM_K,
     bloom_quiet = False, bloom_repeated = False, dummy_opt = False\<rparr>"

text \<open>The characters 63 \<open>?\<close>, 104 \<open>h\<close>, 110 \<open>n\<close>, 112 \<open>p\<close>, 107 \<open>k\<close>, 113 \<open>q\<close>, 68 \<open>D\<close>, 120 \<open>x\<close>.\<close>

fun bloom_getopt :: "(int \<times> bytes) list \<Rightarrow> bloom_options \<Rightarrow> mm_stop + bloom_options" where
  "bloom_getopt [] opts = Inr opts"
| "bloom_getopt ((arg, optarg) # evs) opts =
     (if arg = 63 then Inl (Exit (-1))
      else if arg = 104 then Inl (Exit 1)
      else if arg = 110 then bloom_getopt evs (opts\<lparr>n_opt := llabs_u64 (atoll optarg)\<rparr>)
      else if arg = 112 then bloom_getopt evs (opts\<lparr>p_opt := Some optarg\<rparr>)
      else if arg = 107 then bloom_getopt evs (opts\<lparr>k_opt := abs_int (atoi optarg)\<rparr>)
      else if arg = 113 then bloom_getopt evs (opts\<lparr>bloom_quiet := True\<rparr>)
      else if arg = 68 then bloom_getopt evs (opts\<lparr>bloom_repeated := True\<rparr>)
      else if arg = 120 then bloom_getopt evs (opts\<lparr>dummy_opt := True\<rparr>)
      else Inl (Exit (-1)))"

text \<open>
  \<open>while (global_bloom_m_mask <= bloom_m_min) global_bloom_m_mask <<= 1\<close>; \<open>below m\<close> is the
  comparison of \<open>m\<close>, converted to \<open>double\<close>, with \<open>bloom_m_min\<close>.
\<close>

partial_function (option) bloom_mask_loop :: "(u64 \<Rightarrow> bool) \<Rightarrow> u64 \<Rightarrow> u64 option" where
  "bloom_mask_loop below m = (if below m then bloom_mask_loop below (push_bit 1 m) else Some m)"

text \<open>\<open>mmap\<close> maps whole pages: the words that can be accessed for a size in bytes.\<close>

definition page_words :: "u64 \<Rightarrow> nat" where
  "page_words sz = 512 * ((unat sz + 4095) div 4096)"

text \<open>
  \<open>main\<close>; \<open>below n p k\<close> stands for the floating-point computation of \<open>bloom_m_min\<close> from the
  options. The messages on the standard error are not part of the result.
\<close>

definition bloom_main ::
    "(u64 \<Rightarrow> bytes option \<Rightarrow> int \<Rightarrow> u64 \<Rightarrow> bool) \<Rightarrow> (u64 \<Rightarrow> bool) \<Rightarrow> (bytes \<Rightarrow> int \<Rightarrow> u64 list) \<Rightarrow>
     nat \<Rightarrow> (int \<times> bytes) list \<Rightarrow> chunk list \<Rightarrow> bytes \<Rightarrow> (mm_stop + bytes) option" where
  "bloom_main below mmap_ok junk n evs ins buf =
     (case bloom_getopt evs bloom_defaults of
        Inl e \<Rightarrow> Some (Inl e)
      | Inr opts \<Rightarrow>
          Option.bind (bloom_mask_loop (below (n_opt opts) (p_opt opts) (k_opt opts)) 1) (\<lambda>m. Some
            (let m = m - 1;
                 bm_sz = (m + 1) div 8
             in if \<not> mmap_ok bm_sz then Inl Mmap_failed
                else rbind (read_loop (process_line junk) n ins buf 0
                    \<lparr>global_bloom_m_mask = m, global_bloom_k = k_opt opts,
                     global_repeated = bloom_repeated opts, dummy_run = dummy_opt opts,
                     bm = replicate (page_words bm_sz) 0, out = []\<rparr>) (\<lambda>st. Inr (out st)))))"

section \<open>The bitmap is a set of positions\<close>

definition bits_of :: "u64 list \<Rightarrow> u64 set" where
  "bits_of tab = {n. unat n div 64 < length tab \<and> bit (tab ! (unat n div 64)) (unat n mod 64)}"

definition in_bitmap :: "u64 list \<Rightarrow> u64 \<Rightarrow> bool" where
  "in_bitmap tab n \<longleftrightarrow> unat n div 64 < length tab"

lemma unat_div_mod_64: "unat (n div 64 :: u64) = unat n div 64" "unat (n mod 64 :: u64) = unat n mod 64"
  by (simp_all add: unat_div unat_mod)

lemma and_bit_zero: "i < 64 \<Longrightarrow> (v AND push_bit i (1 :: u64) = 0) \<longleftrightarrow> \<not> bit v i"
  by (auto simp: bit_eq_iff [where ?'a = "64 word"] bit_simps)

lemma bitmap_getset_set:
  assumes "in_bitmap tab n"
  shows "\<exists>tab'. bitmap_getset tab n = Inr (if n \<in> bits_of tab then 1 else 0, tab') \<and>
    length tab' = length tab \<and> bits_of tab' = insert n (bits_of tab)"
proof -
  define p where "p = unat n div 64"
  define i where "i = unat n mod 64"
  have p: "p < length tab" and i: "i < 64" using assms by (auto simp: in_bitmap_def p_def i_def)
  have "n \<in> bits_of tab \<longleftrightarrow> bit (tab ! p) i" using p by (simp add: bits_of_def p_def i_def)
  moreover have get: "bitmap_getset tab n =
      (if \<not> bit (tab ! p) i then Inr (0, tab[p := tab ! p OR push_bit i 1]) else Inr (1, tab))"
    using p i and_bit_zero [OF i, of "tab ! p"]
    by (simp add: bitmap_getset_def unat_div_mod_64 Let_def flip: p_def i_def)
  moreover have "bits_of (tab[p := tab ! p OR push_bit i 1]) = insert n (bits_of tab)"
  proof (rule set_eqI)
    fix m
    have "m = n \<longleftrightarrow> unat m div 64 = p \<and> unat m mod 64 = i"
      unfolding p_def i_def by (metis div_mult_mod_eq word_unat_eq_iff)
    then show "m \<in> bits_of (tab[p := tab ! p OR push_bit i 1]) \<longleftrightarrow> m \<in> insert n (bits_of tab)"
      using p i by (auto simp: bits_of_def nth_list_update bit_simps split: if_splits)
  qed
  ultimately show ?thesis by (auto simp: insert_absorb)
qed

section \<open>The positions of a line\<close>

text \<open>
  Position \<open>j\<close> of a line: the state of a SipHash keyed with the round of eight \<open>j\<close> lies in;
  its first four positions are the words of the state, the other four the same words with the
  bytes swapped, each reduced by the mask.
\<close>

definition bloom_words :: "bytes \<Rightarrow> int \<Rightarrow> u64 list" where
  "bloom_words s i =
     (let key = bloom_key + word_of_int i * 0x1000100010001000;
          (v0, v1, v2, v3) = sip_ref_state 2 4 key key s
      in [v0, v1, v2, v3])"

definition bloom_pos :: "u64 \<Rightarrow> bytes \<Rightarrow> int \<Rightarrow> u64" where
  "bloom_pos m s j =
     (let ws = bloom_words s (8 * (j div 8)); q = nat (j mod 8)
      in (if q < 4 then ws ! q else bswap_64 (ws ! (q - 4))) AND m)"

definition bloom_set :: "u64 \<Rightarrow> int \<Rightarrow> bytes \<Rightarrow> u64 set" where
  "bloom_set m k s = bloom_pos m s ` {0..<k}"

lemma length_bloom_words: "length (bloom_words s i) = 4"
  by (simp add: bloom_words_def Let_def split_beta)

lemma bloom_hashes_eq:
  assumes "length junk = 8"
  shows "length (bloom_hashes junk m k i s) = 8" and
    "q < 8 \<Longrightarrow> q < 4 \<or> i + 4 < k \<Longrightarrow> bloom_hashes junk m k i s ! q =
      (if q < 4 then bloom_words s i ! q else bswap_64 (bloom_words s i ! (q - 4))) AND m"
proof -
  obtain v0 v1 v2 v3 where v: "sip_ref_state 2 4 (bloom_key + word_of_int i * 0x1000100010001000)
      (bloom_key + word_of_int i * 0x1000100010001000) s = (v0, v1, v2, v3)"
    by (metis prod_cases4)
  show "length (bloom_hashes junk m k i s) = 8"
    using assms by (simp add: bloom_hashes_def siphash24_Some [OF v] Let_def)
  have ws: "bloom_words s i = [v0, v1, v2, v3]" using v by (simp add: bloom_words_def Let_def)
  assume "q < 8" "q < 4 \<or> i + 4 < k"
  moreover have "q \<in> {0, 1, 2, 3, 4, 5, 6, 7}"
    unfolding insert_iff empty_iff using \<open>q < 8\<close> by arith
  ultimately show "bloom_hashes junk m k i s ! q =
      (if q < 4 then bloom_words s i ! q else bswap_64 (bloom_words s i ! (q - 4))) AND m"
    using assms unfolding bloom_hashes_def siphash24_Some [OF v] Let_def ws
    by (auto simp: nth_list_update)
qed

lemma bloom_hashes_pos:
  assumes "length junk = 8" "8 dvd i" "i \<le> j" "j < i + 8" "j < k"
  shows "bloom_hashes junk m k i s ! nat (j mod 8) = bloom_pos m s j"
proof -
  have i: "i = 8 * (j div 8)" using assms(2-4) by (auto elim!: dvdE)
  have "j = i + j mod 8" using i by simp
  then have "nat (j mod 8) < 4 \<or> i + 4 < k" using assms(5) by (cases "j mod 8 < 4") auto
  moreover have "nat (j mod 8) < 8" by simp
  ultimately show ?thesis
    using bloom_hashes_eq(2) [OF assms(1)] i by (simp add: bloom_pos_def Let_def)
qed

section \<open>A line is an insertion\<close>

text \<open>The largest number of positions for which the counters do not overflow.\<close>

definition K_MAX :: int where
  "K_MAX = INT_MAX - 7"

lemma K_MAX_no_overflow: "8 dvd i \<Longrightarrow> i < k \<Longrightarrow> k \<le> K_MAX \<Longrightarrow> \<not> i + 8 > INT_MAX"
  by (auto simp: K_MAX_def INT_MAX_def elim!: dvdE)

lemma bits_loop_set:
  assumes "\<forall>j' \<in> {j..<min (i + 8) k}. res ! nat (j' mod 8) = pos j' \<and> in_bitmap tab (pos j')" "\<not> i + 8 > INT_MAX"
  shows "\<exists>tab'. bits_loop j i k False res miss tab =
      Inr (miss \<or> \<not> pos ` {j..<min (i + 8) k} \<subseteq> bits_of tab, tab') \<and>
    length tab' = length tab \<and> bits_of tab' = bits_of tab \<union> pos ` {j..<min (i + 8) k}"
  using assms
proof (induction j i k False res miss tab rule: bits_loop.induct)
  case (1 j i k res miss tab)
  show ?case
  proof (cases "j < i + 8 \<and> j < k")
    case True
    then have range: "{j..<min (i + 8) k} = insert j {j + 1..<min (i + 8) k}" by auto
    have pos: "res ! nat (j mod 8) = pos j" "in_bitmap tab (pos j)" using "1.prems"(1) range by auto
    obtain tab1 where tab1: "bitmap_getset tab (pos j) = Inr (if pos j \<in> bits_of tab then 1 else 0, tab1)"
      "length tab1 = length tab" "bits_of tab1 = insert (pos j) (bits_of tab)"
      using bitmap_getset_set [OF pos(2)] by blast
    define r :: int where "r = (if pos j \<in> bits_of tab then 1 else 0)"
    have "\<forall>j' \<in> {j + 1..<min (i + 8) k}. res ! nat (j' mod 8) = pos j' \<and> in_bitmap tab1 (pos j')"
      using "1.prems"(1) range tab1(2) by (auto simp: in_bitmap_def)
    from "1.hyps"(1) [OF "1.prems"(2) True refl _ _ refl this "1.prems"(2), of r] obtain tab' where
      tab': "bits_loop (j + 1) i k False res (miss \<or> r = 0) tab1 =
        Inr ((miss \<or> r = 0) \<or> \<not> pos ` {j + 1..<min (i + 8) k} \<subseteq> bits_of tab1, tab')"
      "length tab' = length tab1"
      "bits_of tab' = bits_of tab1 \<union> pos ` {j + 1..<min (i + 8) k}"
      using tab1(1) pos(1) by (auto simp: r_def)
    have "bits_loop j i k False res miss tab = bits_loop (j + 1) i k False res (miss \<or> r = 0) tab1"
      using True tab1(1) pos(1) "1.prems"(2) by (simp add: bits_loop.simps [of j] Let_def r_def)
    moreover have "((miss \<or> r = 0) \<or> \<not> pos ` {j + 1..<min (i + 8) k} \<subseteq> bits_of tab1) =
        (miss \<or> \<not> pos ` {j..<min (i + 8) k} \<subseteq> bits_of tab)"
      unfolding range tab1(3) r_def by auto
    ultimately show ?thesis
      using tab' tab1(2,3) range by auto
  next
    case False
    then have "{j..<min (i + 8) k} = {}" by auto
    then show ?thesis using False "1.prems"(2) by (auto simp: bits_loop.simps [of j])
  qed
qed

text \<open>The bitmap has a word for every position the mask lets through.\<close>

definition bitmap_sized :: "u64 \<Rightarrow> u64 list \<Rightarrow> bool" where
  "bitmap_sized m tab \<longleftrightarrow> unat m div 64 < length tab"

lemma bloom_pos_in: "bitmap_sized m tab \<Longrightarrow> in_bitmap tab (bloom_pos m s j)"
  unfolding bitmap_sized_def in_bitmap_def bloom_pos_def Let_def
  by (meson and_le_mask_right div_le_mono le_less_trans)

lemma rounds_loop_set:
  assumes "bitmap_sized m tab" "\<forall>i. length (junk i) = 8" "8 dvd i" "k \<le> K_MAX"
  shows "\<exists>tab'. rounds_loop junk m False s i k miss tab =
      Inr (miss \<or> \<not> bloom_pos m s ` {i..<k} \<subseteq> bits_of tab, tab') \<and>
    length tab' = length tab \<and> bits_of tab' = bits_of tab \<union> bloom_pos m s ` {i..<k}"
  using assms
proof (induction junk m False s i k miss tab rule: rounds_loop.induct)
  case (1 junk m s i k miss tab)
  show ?case
  proof (cases "i < k")
    case True
    then have range: "{i..<k} = {i..<min (i + 8) k} \<union> {i + 8..<k}" by auto
    have hashes: "\<forall>j \<in> {i..<min (i + 8) k}.
        bloom_hashes (junk i) m k i s ! nat (j mod 8) = bloom_pos m s j \<and> in_bitmap tab (bloom_pos m s j)"
      using "1.prems"(1-3) by (auto simp: bloom_hashes_pos bloom_pos_in)
    from bits_loop_set [OF hashes K_MAX_no_overflow [OF "1.prems"(3) True "1.prems"(4)], of miss] obtain tab1 where tab1:
      "bits_loop i i k False (bloom_hashes (junk i) m k i s) miss tab =
        Inr (miss \<or> \<not> bloom_pos m s ` {i..<min (i + 8) k} \<subseteq> bits_of tab, tab1)"
      "length tab1 = length tab"
      "bits_of tab1 = bits_of tab \<union> bloom_pos m s ` {i..<min (i + 8) k}"
      by blast
    define miss1 where "miss1 = (miss \<or> \<not> bloom_pos m s ` {i..<min (i + 8) k} \<subseteq> bits_of tab)"
    have "bitmap_sized m tab1" using "1.prems"(1) tab1(2) by (simp add: bitmap_sized_def)
    from "1.hyps" [OF True tab1(1) refl this "1.prems"(2)] obtain tab' where tab':
      "rounds_loop junk m False s (i + 8) k miss1 tab1 =
        Inr (miss1 \<or> \<not> bloom_pos m s ` {i + 8..<k} \<subseteq> bits_of tab1, tab')"
      "length tab' = length tab1" "bits_of tab' = bits_of tab1 \<union> bloom_pos m s ` {i + 8..<k}"
      using "1.prems"(3,4) by (auto simp: miss1_def)
    have "rounds_loop junk m False s i k miss tab =
        Inr (miss1 \<or> \<not> bloom_pos m s ` {i + 8..<k} \<subseteq> bits_of tab1, tab')"
      using True tab1(1) tab'(1) by (simp add: rounds_loop.simps [of _ _ _ _ i] miss1_def)
    moreover have "(miss1 \<or> \<not> bloom_pos m s ` {i + 8..<k} \<subseteq> bits_of tab1) =
        (miss \<or> \<not> bloom_pos m s ` {i..<k} \<subseteq> bits_of tab)"
      unfolding range image_Un tab1(3) miss1_def by blast
    ultimately show ?thesis using tab' tab1(2,3) range by auto
  next
    case False
    then show ?thesis by (auto simp: rounds_loop.simps [of _ _ _ _ i])
  qed
qed

text \<open>The uninitialised part of \<open>res\<close> is never read.\<close>

lemma bits_loop_cong:
  assumes "\<forall>j' \<in> {j..<min (i + 8) k}. res ! nat (j' mod 8) = res' ! nat (j' mod 8)"
  shows "bits_loop j i k dummy res miss tab = bits_loop j i k dummy res' miss tab"
  using assms
proof (induction j i k dummy res miss tab rule: bits_loop.induct)
  case (1 j i k dummy res miss tab)
  show ?case
  proof (cases "\<not> i + 8 > INT_MAX \<and> j < i + 8 \<and> j < k")
    case True
    then have "res ! nat (j mod 8) = res' ! nat (j mod 8)" using "1.prems" by auto
    then show ?thesis
      using "1.IH" [OF conjunct1 [OF True] conjunct2 [OF True] refl] "1.prems" True
      by (simp add: bits_loop.simps [of j] Let_def) (auto intro!: rbind_cong)
  next
    case False
    then show ?thesis by (auto simp: bits_loop.simps [of j])
  qed
qed

lemma rounds_loop_junk:
  assumes "\<forall>i. length (junk i) = 8" "\<forall>i. length (junk' i) = 8" "8 dvd i"
  shows "rounds_loop junk m dummy s i k miss tab = rounds_loop junk' m dummy s i k miss tab"
  using assms(1,3)
proof (induction junk m dummy s i k miss tab rule: rounds_loop.induct)
  case (1 junk m dummy s i k miss tab)
  show ?case
  proof (cases "i < k")
    case True
    have "bits_loop i i k dummy (bloom_hashes (junk i) m k i s) miss tab =
        bits_loop i i k dummy (bloom_hashes (junk' i) m k i s) miss tab"
      using assms "1.prems" by (intro bits_loop_cong) (auto simp: bloom_hashes_pos)
    then show ?thesis
      using "1.IH" [OF True] "1.prems" True
      by (simp add: rounds_loop.simps [of _ _ _ _ i]) (auto intro!: rbind_cong)
  next
    case False
    then show ?thesis by (simp only: rounds_loop.simps [of _ _ _ _ i] if_False)
  qed
qed

lemma process_line_set:
  assumes "bitmap_sized (global_bloom_m_mask st) (bm st)" "\<forall>i. length (junk s i) = 8" "\<not> dummy_run st"
    and "global_bloom_k st \<le> K_MAX"
  defines "B \<equiv> bloom_set (global_bloom_m_mask st) (global_bloom_k st) s"
  shows "\<exists>tab. process_line junk s st = Inr (st\<lparr>bm := tab, out := out st @
      (if (\<not> B \<subseteq> bits_of (bm st)) \<noteq> global_repeated st then s @ [NL] else [])\<rparr>) \<and>
    length tab = length (bm st) \<and> bits_of tab = bits_of (bm st) \<union> B"
proof -
  obtain tab where tab: "rounds_loop (junk s) (global_bloom_m_mask st) False s 0 (global_bloom_k st) False
      (bm st) = Inr (\<not> B \<subseteq> bits_of (bm st), tab)"
    "length tab = length (bm st)" "bits_of tab = bits_of (bm st) \<union> B"
    using rounds_loop_set [OF assms(1,2) _ assms(4), where i = 0 and s = s and miss = False] by (auto simp: B_def bloom_set_def)
  have "process_line junk s st = Inr (st\<lparr>bm := tab, out := out st @
      (if (\<not> B \<subseteq> bits_of (bm st)) \<noteq> global_repeated st then s @ [NL] else [])\<rparr>)"
    using tab(1) assms(3) by (simp add: process_line_def)
  then show ?thesis using tab by blast
qed

text \<open>With more positions the counter of the outer loop comes to its end, and overflows.\<close>

lemma rounds_loop_overflow:
  assumes "bitmap_sized m tab" "\<forall>i. length (junk i) = 8" "8 dvd i" "K_MAX < k" "i \<le> K_MAX"
  shows "rounds_loop junk m False s i k miss tab = Inl Overflow"
  using assms
proof (induction junk m False s i k miss tab rule: rounds_loop.induct)
  case (1 junk m s i k miss tab)
  show ?case
  proof (cases "i + 8 > INT_MAX")
    case True
    then show ?thesis using "1.prems" by (simp add: rounds_loop.simps [of _ _ _ _ i] bits_loop.simps)
  next
    case False
    have "\<forall>j \<in> {i..<min (i + 8) k}.
        bloom_hashes (junk i) m k i s ! nat (j mod 8) = bloom_pos m s j \<and> in_bitmap tab (bloom_pos m s j)"
      using "1.prems"(1-3) by (auto simp: bloom_hashes_pos bloom_pos_in)
    from bits_loop_set [OF this False, of miss] obtain miss1 tab1 where tab1:
      "bits_loop i i k False (bloom_hashes (junk i) m k i s) miss tab = Inr (miss1, tab1)" "length tab1 = length tab"
      by blast
    have "i < k" using "1.prems" by simp
    have "8 dvd i + 8" "i + 8 \<le> K_MAX" using "1.prems"(3) False by (auto simp: K_MAX_def INT_MAX_def elim!: dvdE)
    then have "rounds_loop junk m False s (i + 8) k miss1 tab1 = Inl Overflow"
      using "1.hyps" [OF \<open>i < k\<close> tab1(1) refl] "1.prems" tab1(2) by (simp add: bitmap_sized_def)
    then show ?thesis using \<open>i < k\<close> tab1(1) by (simp add: rounds_loop.simps [of _ _ _ _ i])
  qed
qed

lemma process_line_overflow:
  assumes "bitmap_sized (global_bloom_m_mask st) (bm st)" "\<forall>i. length (junk s i) = 8" "\<not> dummy_run st"
    and "K_MAX < global_bloom_k st"
  shows "process_line junk s st = Inl Overflow"
  using assms rounds_loop_overflow [OF assms(1,2) _ assms(4), of 0]
  by (simp add: process_line_def K_MAX_def INT_MAX_def)

section \<open>The Bloom filter as a filter of lines\<close>

text \<open>The state: the mask, the number of positions and the bitmap.\<close>

definition bloom_ins :: "bytes \<Rightarrow> u64 \<times> int \<times> u64 list \<Rightarrow> bool \<times> u64 \<times> int \<times> u64 list" where
  "bloom_ins s f =
     (case f of (m, k, tab) \<Rightarrow>
        case rounds_loop (\<lambda>_. replicate 8 0) m False s 0 k False tab of
          Inl _ \<Rightarrow> (False, f)
        | Inr (miss, tab') \<Rightarrow> (miss, m, k, tab'))"

definition bloom_mem :: "u64 \<times> int \<times> u64 list \<Rightarrow> bytes set" where
  "bloom_mem f = (case f of (m, k, tab) \<Rightarrow> {s. bloom_set m k s \<subseteq> bits_of tab})"

definition bloom_inv :: "u64 \<times> int \<times> u64 list \<Rightarrow> bool" where
  "bloom_inv f = (case f of (m, k, tab) \<Rightarrow> bitmap_sized m tab \<and> k \<le> K_MAX)"

lemma bloom_ins_set:
  assumes "bitmap_sized m tab" "k \<le> K_MAX"
  obtains tab' where "bloom_ins s (m, k, tab) = (\<not> bloom_set m k s \<subseteq> bits_of tab, m, k, tab')"
    "length tab' = length tab" "bits_of tab' = bits_of tab \<union> bloom_set m k s"
  using rounds_loop_set [OF assms(1) _ _ assms(2), where junk = "\<lambda>_. replicate 8 0" and i = 0 and s = s and miss = False]
  by (auto simp: bloom_ins_def bloom_set_def)

interpretation bloom: seen_filter bloom_ins bloom_mem bloom_inv "\<lambda>_. True"
proof
  fix f x b f'
  assume inv: "bloom_inv f" and ins: "bloom_ins x f = (b, f')"
  obtain m k tab where f: "f = (m, k, tab)" by (metis prod_cases3)
  obtain tab' where tab': "f' = (m, k, tab')" "b = (\<not> bloom_set m k x \<subseteq> bits_of tab)"
    "length tab' = length tab" "bits_of tab' = bits_of tab \<union> bloom_set m k x"
    using bloom_ins_set [of m tab k x] inv ins by (auto simp: f bloom_inv_def)
  show "bloom_inv f'" using inv tab' by (simp add: f bloom_inv_def bitmap_sized_def)
  show "bloom_mem f \<subseteq> bloom_mem f'" using tab' by (auto simp: f bloom_mem_def)
  show "x \<notin> bloom_mem f \<and> x \<in> bloom_mem f'" if "b" using that tab' by (auto simp: f bloom_mem_def)
qed

lemma feed_bloom:
  assumes "bitmap_sized m tab" "feed bloom_ins ls (m, k, tab) = (bs, f)" "k \<le> K_MAX"
  shows "\<exists>tab'. f = (m, k, tab') \<and> length tab' = length tab \<and>
    bits_of tab' = bits_of tab \<union> \<Union> (bloom_set m k ` set ls) \<and>
    bits_of tab' = bits_of tab \<union> \<Union> (bloom_set m k ` set (picked ls bs))"
  using assms(1,2)
proof (induction ls arbitrary: tab bs)
  case (Cons l ls)
  obtain tab1 where tab1: "bloom_ins l (m, k, tab) = (\<not> bloom_set m k l \<subseteq> bits_of tab, m, k, tab1)"
    "length tab1 = length tab" "bits_of tab1 = bits_of tab \<union> bloom_set m k l"
    using bloom_ins_set [OF Cons.prems(1) assms(3)] .
  then obtain bs' where bs': "feed bloom_ins ls (m, k, tab1) = (bs', f)"
    "bs = (\<not> bloom_set m k l \<subseteq> bits_of tab) # bs'"
    using Cons.prems(2) by (auto simp: feed_Cons_eq simp del: feed.simps)
  have "bitmap_sized m tab1" using Cons.prems(1) tab1(2) by (simp add: bitmap_sized_def)
  from Cons.IH [OF this bs'(1)] obtain tab' where tab': "f = (m, k, tab')" "length tab' = length tab1"
    "bits_of tab' = bits_of tab1 \<union> \<Union> (bloom_set m k ` set ls)"
    "bits_of tab' = bits_of tab1 \<union> \<Union> (bloom_set m k ` set (picked ls bs'))" by blast
  have "bits_of tab \<union> \<Union> (bloom_set m k ` set (picked (l # ls) bs)) =
      bits_of tab1 \<union> \<Union> (bloom_set m k ` set (picked ls bs'))"
    unfolding bs'(2) tab1(3) by (cases "bloom_set m k l \<subseteq> bits_of tab") auto
  then show ?case using tab' tab1(2,3) by (auto simp only: list.set image_insert Union_insert Un_assoc)
qed auto

section \<open>A run of the program\<close>

text \<open>The filter a state holds, and the lines printed for the lines \<open>ls\<close> by a fresh one.\<close>

definition bloom_filter_of :: "bloom_state \<Rightarrow> u64 \<times> int \<times> u64 list" where
  "bloom_filter_of st = (global_bloom_m_mask st, global_bloom_k st, bm st)"

definition bloom_uniq :: "u64 \<Rightarrow> int \<Rightarrow> nat \<Rightarrow> bool \<Rightarrow> bytes list \<Rightarrow> bytes list" where
  "bloom_uniq m k n rep ls = shown rep ls (fst (feed bloom_ins ls (m, k, replicate n 0)))"

lemma process_line_ins:
  assumes "bitmap_sized (global_bloom_m_mask st) (bm st)" "\<forall>i. length (junk s i) = 8" "\<not> dummy_run st"
    and "bloom_ins s (bloom_filter_of st) = (b, f)" "global_bloom_k st \<le> K_MAX"
  shows "\<exists>st'. process_line junk s st = Inr st' \<and> bloom_filter_of st' = f \<and>
    global_repeated st' = global_repeated st \<and> \<not> dummy_run st' \<and> global_bloom_k st' \<le> K_MAX \<and>
    bitmap_sized (global_bloom_m_mask st') (bm st') \<and>
    out st' = out st @ (if b \<noteq> global_repeated st then out_line s else [])"
proof -
  obtain tab where run: "rounds_loop (junk s) (global_bloom_m_mask st) False s 0 (global_bloom_k st) False
        (bm st) = Inr (b, tab)" "f = (global_bloom_m_mask st, global_bloom_k st, tab)"
    "length tab = length (bm st)"
    using rounds_loop_junk [OF assms(2), of "\<lambda>_. replicate 8 0" 0 "global_bloom_m_mask st" False s "global_bloom_k st" False "bm st"]
      rounds_loop_set [OF assms(1,2) _ assms(5), where i = 0 and s = s and miss = False]
      assms(4) by (auto simp: bloom_ins_def bloom_filter_of_def)
  then show ?thesis
    using assms(1,3,5) by (auto simp: process_line_def bloom_filter_of_def out_line_def bitmap_sized_def)
qed

lemma process_all_bloom:
  assumes "bitmap_sized (global_bloom_m_mask st) (bm st)" "\<forall>s i. length (junk s i) = 8" "\<not> dummy_run st"
    and "feed bloom_ins ls (bloom_filter_of st) = (bs, f)" "global_bloom_k st \<le> K_MAX"
  shows "\<exists>st'. process_all (process_line junk) ls st = Inr st' \<and>
    out st' = out st @ concat (map out_line (shown (global_repeated st) ls bs))"
  using assms(1,3-5)
proof (induction ls arbitrary: st bs)
  case (Cons l ls)
  obtain b f' bs' where step: "bloom_ins l (bloom_filter_of st) = (b, f')"
    "feed bloom_ins ls f' = (bs', f)" "bs = b # bs'"
    using Cons.prems(3) by (auto simp: feed_Cons_eq simp del: feed.simps)
  have "\<forall>i. length (junk l i) = 8" using assms(2) by simp
  from process_line_ins [where junk = junk, OF Cons.prems(1) this Cons.prems(2) step(1) Cons.prems(4)]
  obtain st1 where st1: "process_line junk l st = Inr st1" "bloom_filter_of st1 = f'"
    "global_repeated st1 = global_repeated st" "\<not> dummy_run st1" "global_bloom_k st1 \<le> K_MAX"
    "bitmap_sized (global_bloom_m_mask st1) (bm st1)"
    "out st1 = out st @ (if b \<noteq> global_repeated st then out_line l else [])" by blast
  then obtain st2 where "process_all (process_line junk) ls st1 = Inr st2"
    "out st2 = out st1 @ concat (map out_line (shown (global_repeated st1) ls bs'))"
    using Cons.IH [OF st1(6,4) _ st1(5), of bs'] step(2) by auto
  then show ?case using st1 step(3) by (auto simp: shown_def)
qed (simp add: shown_def picked_def)

text \<open>The loop of \<open>main\<close> only returns powers of two, or 0 after all bits have been shifted out.\<close>

lemma bloom_mask_loop_shift:
  assumes "bloom_mask_loop below m = Some r"
  shows "\<exists>j. r = push_bit j m"
proof (rule bloom_mask_loop.raw_induct [of "\<lambda>below m r. \<exists>j. r = push_bit j m", OF _ assms])
  fix loop and below :: "u64 \<Rightarrow> bool" and m r :: u64
  assume IH: "\<And>below m r. loop below m = Some r \<Longrightarrow> \<exists>j. r = push_bit j m"
    and r: "(if below m then loop below (push_bit 1 m) else Some m) = Some r"
  show "\<exists>j. r = push_bit j m"
  proof (cases "below m")
    case True
    then obtain j where "r = push_bit j (push_bit 1 m)" using IH [of below "push_bit 1 m"] r by auto
    then have "r = push_bit (j + 1) m" by (simp add: ac_simps)
    then show ?thesis by blast
  next
    case False
    then have "r = push_bit 0 m" using r by simp
    then show ?thesis by blast
  qed
qed

lemma bloom_bitmap_sized:
  assumes "bloom_mask_loop below 1 = Some r" "r div 8 \<noteq> 0"
  shows "bitmap_sized (r - 1) (replicate (page_words (r div 8)) 0)"
proof -
  obtain j where r: "r = 2 ^ j" using bloom_mask_loop_shift [OF assms(1)] by auto
  have "j < 64"
  proof (rule ccontr)
    assume "\<not> j < 64"
    then have "r = 0" by (simp add: r)
    then show False using assms(2) by simp
  qed
  then have unat: "unat r = 2 ^ j" by (simp add: r unat_exp)
  then have eighth: "unat (r div 8) = 2 ^ j div 8" by (simp add: unat_div)
  have "3 \<le> j"
  proof (rule ccontr)
    assume "\<not> 3 \<le> j"
    then have "j = 0 \<or> j = 1 \<or> j = 2" by linarith
    then have "unat (r div 8) = 0" using eighth by auto
    then show False using assms(2) by (simp only: unat_eq_zero)
  qed
  then obtain q :: nat where q: "2 ^ j = 8 * q" "0 < q"
    using le_Suc_ex [of 3 j] by (auto simp: power_add)
  have "r \<noteq> 0" using assms(2) by auto
  then have "unat (r - 1) = 8 * q - 1" using unat q(1) by (simp add: unat_minus_one)
  moreover have "page_words (r div 8) = 512 * ((q + 4095) div 4096)"
    using eighth q(1) by (simp add: page_words_def)
  moreover have "(8 * q - 1) div 64 < 512 * ((q + 4095) div 4096)"
  proof -
    have "(q + 4095) div 4096 * 4096 + (q + 4095) mod 4096 = q + 4095" by (rule div_mult_mod_eq)
    moreover have "(q + 4095) mod 4096 < 4096" by simp
    ultimately have "8 * q - 1 < 512 * ((q + 4095) div 4096) * 64" using q(2) by linarith
    then show ?thesis by (simp add: div_less_iff_less_mult)
  qed
  ultimately show ?thesis by (simp add: bitmap_sized_def)
qed

section \<open>Main properties\<close>

text \<open>
  One line on the Bloom filter. With a bitmap that has a bit for every masked position,
  \<open>process_line\<close> leaves no array, whatever the uninitialised array \<open>res\<close> holds; it sets exactly
  the bits of the line's positions and counts the line as new if and only if one of them was
  not set; it prints new lines, or with \<open>-D\<close> the other ones.
\<close>

theorem bloom_process_line:
  assumes "bitmap_sized (global_bloom_m_mask st) (bm st)" and "\<forall>i. length (junk s i) = 8"
    and "\<not> dummy_run st" "global_bloom_k st \<le> K_MAX"
  shows "\<exists>tab. process_line junk s st = Inr (st\<lparr>bm := tab, out := out st @
      (if (\<not> bloom_set (global_bloom_m_mask st) (global_bloom_k st) s \<subseteq> bits_of (bm st))
          \<noteq> global_repeated st then s @ [NL] else [])\<rparr>) \<and>
    length tab = length (bm st) \<and>
    bits_of tab = bits_of (bm st) \<union> bloom_set (global_bloom_m_mask st) (global_bloom_k st) s"
  by (rule process_line_set [where junk = junk and s = s, OF assms])

definition small_bloom :: bloom_state where
  "small_bloom = \<lparr>global_bloom_m_mask = 63, global_bloom_k = 12, global_repeated = False,
     dummy_run = False, bm = [0], out = []\<rparr>"

theorem bloom_process_line_witness:
  "bitmap_sized 63 [0] \<and>
   (\<exists>tab. process_line (\<lambda>_ _. replicate 8 7) [97] small_bloom = Inr (small_bloom\<lparr>bm := tab, out := [] @
      (if (\<not> bloom_set 63 12 [97] \<subseteq> bits_of [0]) \<noteq> False then [97] @ [NL] else [])\<rparr>) \<and>
    length tab = length [0 :: u64] \<and> bits_of tab = bits_of [0] \<union> bloom_set 63 12 [97])"
proof -
  have "bitmap_sized 63 [0]" by (simp add: bitmap_sized_def)
  then show ?thesis
    using bloom_process_line [of small_bloom "\<lambda>_ _. replicate 8 7" "[97]"]
    by (simp add: small_bloom_def K_MAX_def INT_MAX_def)
qed

text \<open>
  C24: a whole run of \<open>mmuniq-bloom\<close> with at most \<open>2^31 - 8\<close> positions for a line and without \<open>-x\<close>, when the
  loop that sizes the bitmap ends with \<open>r\<close> bits and \<open>mmap\<close> refuses a size of 0: no counter overflows, no access
  leaves the bitmap or the buffer, and the output is the lines of the stream the filter answers as new (with
  \<open>-D\<close>, the others), however \<open>read\<close> cuts the stream. Without the bound the counters of \<open>process_line\<close> overflow
  on the first line (lemma \<open>process_line_overflow\<close>).
\<close>

theorem bloom_main_output:
  assumes opts: "bloom_getopt evs bloom_defaults = Inr opts" "\<not> dummy_opt opts"
    and mask: "bloom_mask_loop (below (n_opt opts) (p_opt opts) (k_opt opts)) 1 = Some r"
    and mmap: "\<not> mmap_ok 0"
    and junk: "\<forall>s i. length (junk s i) = 8"
    and buf: "length buf = n" "0 < n"
    and positions: "k_opt opts \<le> K_MAX"
  shows "bloom_main below mmap_ok junk n evs ins buf =
    Some (if mmap_ok (r div 8) then
            Inr (concat (map out_line (bloom_uniq (r - 1) (k_opt opts) (page_words (r div 8))
                   (bloom_repeated opts) (lines_of n [] (stream_bytes ins)))))
          else Inl Mmap_failed)"
proof (cases "mmap_ok (r div 8)")
  case True
  then have "r div 8 \<noteq> 0" using mmap by metis
  note sized = bloom_bitmap_sized [OF mask this]
  define st where "st = \<lparr>global_bloom_m_mask = r - 1, global_bloom_k = k_opt opts,
    global_repeated = bloom_repeated opts, dummy_run = dummy_opt opts,
    bm = replicate (page_words (r div 8)) 0, out = []\<rparr>"
  define ls where "ls = lines_of n [] (stream_bytes ins)"
  obtain bs f where feed: "feed bloom_ins ls (bloom_filter_of st) = (bs, f)" by (metis surj_pair)
  from process_all_bloom [OF _ junk _ feed] obtain st' where st':
    "process_all (process_line junk) ls st = Inr st'"
    "out st' = concat (map out_line (shown (bloom_repeated opts) ls bs))"
    using sized opts(2) positions by (auto simp: st_def)
  have "read_loop (process_line junk) n ins buf 0 st = Inr st'"
    using read_loop_lines [OF buf(1), of 0 "process_line junk" ins st] buf(2) st'(1)
    by (simp add: ls_def)
  moreover have "out st' = concat (map out_line (bloom_uniq (r - 1) (k_opt opts)
      (page_words (r div 8)) (bloom_repeated opts) ls))"
    using st'(2) feed by (simp add: bloom_uniq_def bloom_filter_of_def st_def)
  ultimately show ?thesis
    using opts(1) mask True by (simp add: bloom_main_def Let_def flip: st_def ls_def)
next
  case False
  then show ?thesis using opts(1) mask by (simp add: bloom_main_def Let_def)
qed

theorem bloom_main_output_witness:
  "bloom_main (\<lambda>_ _ _ m. m \<le> 100) (\<lambda>sz. sz \<noteq> 0) (\<lambda>_ _. replicate 8 7) 8 [(68, [])]
     [Data [97, 10, 97], Data [10, 98]] (replicate 8 0) =
   Some (if (128 div 8 :: u64) \<noteq> 0 then
           Inr (concat (map out_line (bloom_uniq (128 - 1) DEFAULT_BLOOM_K (page_words (128 div 8))
                  True (lines_of 8 [] (stream_bytes [Data [97, 10, 97], Data [10, 98]])))))
         else Inl Mmap_failed)"
proof -
  have opts: "bloom_getopt [(68, [])] bloom_defaults = Inr (bloom_defaults\<lparr>bloom_repeated := True\<rparr>)"
    by simp
  have mask: "bloom_mask_loop (\<lambda>m. m \<le> 100) 1 = Some 128"
    by (simp add: bloom_mask_loop.simps)
  show ?thesis
    using bloom_main_output [OF opts, of "\<lambda>_ _ _ m. m \<le> 100" 128 "\<lambda>sz. sz \<noteq> 0"
        "\<lambda>_ _. replicate 8 7" "replicate 8 0" 8] mask
    by (simp only: bloom_defaults_def bloom_options.simps length_replicate DEFAULT_BLOOM_K_def K_MAX_def INT_MAX_def) simp
qed

text \<open>
  What the Bloom filter prints. No line is printed twice, every printed line is an input
  line, and a line is missing from the output only if the printed lines have already set all
  its bits (the false positives of the filter).
\<close>

theorem bloom_uniq_lines:
  assumes "bitmap_sized m (replicate n 0)" "k \<le> K_MAX"
  shows "distinct (bloom_uniq m k n False ls) \<and> set (bloom_uniq m k n False ls) \<subseteq> set ls \<and>
    (\<forall>l. l \<in> set ls \<longrightarrow> bloom_set m k l \<subseteq> \<Union> (bloom_set m k ` set (bloom_uniq m k n False ls)))"
proof -
  obtain bs f where feed: "feed bloom_ins ls (m, k, replicate n 0) = (bs, f)" by (metis surj_pair)
  have uniq: "bloom_uniq m k n False ls = picked ls bs" by (simp add: bloom_uniq_def feed shown_new)
  have "bits_of (replicate n 0) = {}" by (auto simp: bits_of_def)
  then have "\<Union> (bloom_set m k ` set ls) = \<Union> (bloom_set m k ` set (picked ls bs))"
    using feed_bloom [OF assms(1) feed assms(2)] by auto
  moreover have "bloom_inv (m, k, replicate n 0)" using assms by (simp add: bloom_inv_def)
  ultimately show ?thesis
    unfolding uniq using bloom.picked_new [OF _ _ feed] set_picked_subset [of ls bs] by auto
qed

theorem bloom_uniq_lines_witness:
  "bitmap_sized 63 (replicate 1 0) \<and>
   distinct (bloom_uniq 63 8 1 False [[97], [98], [97]]) \<and>
   set (bloom_uniq 63 8 1 False [[97], [98], [97]]) \<subseteq> set [[97], [98], [97]]"
proof -
  have "bitmap_sized 63 (replicate 1 0)" by (simp add: bitmap_sized_def)
  then show ?thesis using bloom_uniq_lines [of 63 1 8 "[[97], [98], [97]]"] by (simp add: K_MAX_def INT_MAX_def)
qed

end
