(* ===== verification/Simd.thy ===== *)
theory Simd
  imports Prelude
begin

text \<open>
  The vector intrinsics the code uses, on lanes: a vector is the list of its lanes, the one at
  the lowest address first. The lemmas relate the compare, movemask and find-first-set idiom
  to the first lane that satisfies a predicate.
\<close>

unbundle bit_operations_syntax

section \<open>The intrinsics\<close>

definition set1 :: "nat \<Rightarrow> 'a \<Rightarrow> 'a list" where
  "set1 n c = replicate n c"

definition cmpeq :: "'a::len word list \<Rightarrow> 'a word list \<Rightarrow> 'a word list" where
  "cmpeq xs ys = map2 (\<lambda>x y. if x = y then - 1 else 0) xs ys"

text \<open>A signed comparison.\<close>

definition cmpgt :: "'a::len word list \<Rightarrow> 'a word list \<Rightarrow> 'a word list" where
  "cmpgt xs ys = map2 (\<lambda>x y. if sint y < sint x then - 1 else 0) xs ys"

definition vec_and :: "'a::len word list \<Rightarrow> 'a word list \<Rightarrow> 'a word list" where
  "vec_and xs ys = map2 (AND) xs ys"

definition vec_xor :: "'a::len word list \<Rightarrow> 'a word list \<Rightarrow> 'a word list" where
  "vec_xor xs ys = map2 (XOR) xs ys"

text \<open>Bit \<open>k\<close> of the result is the top bit of byte lane \<open>k\<close>.\<close>

fun movemask :: "bytes \<Rightarrow> u32" where
  "movemask [] = 0"
| "movemask (b # bs) = (if bit b 7 then 1 else 0) OR push_bit 1 (movemask bs)"

text \<open>\<open>__builtin_ffs\<close>: one plus the index of the lowest set bit, 0 for 0.\<close>

definition ffs :: "u32 \<Rightarrow> nat" where
  "ffs z = (case filter (bit z) [0..<32] of [] \<Rightarrow> 0 | k # _ \<Rightarrow> k + 1)"

section \<open>Searching with them\<close>

lemma bit_movemask: "bit (movemask bs) k \<longleftrightarrow> k < 32 \<and> k < length bs \<and> bit (bs ! k) 7"
proof (induction bs arbitrary: k)
  case (Cons b bs)
  show ?case
    by (cases k; simp only: movemask.simps bit_or_iff bit_push_bit_iff Cons.IH)
      (auto simp: bit_1_iff)
qed simp

lemma movemask_zero_iff:
  assumes "length bs \<le> 32"
  shows "movemask bs = 0 \<longleftrightarrow> (\<forall>k < length bs. \<not> bit (bs ! k) 7)"
proof -
  have "movemask bs = 0 \<longleftrightarrow> (\<forall>k < 32. \<not> bit (movemask bs) k)"
    by (auto simp: bit_eq_iff [where ?'a = "32 word"])
  then show ?thesis using assms by (auto simp: bit_movemask)
qed

lemma ffs_first:
  assumes "length bs \<le> 32" "k < length bs" "bit (bs ! k) 7" "\<forall>j < k. \<not> bit (bs ! j) 7"
  shows "ffs (movemask bs) = k + 1"
proof -
  have split: "[0..<32] = [0..<k] @ k # [Suc k..<32]"
  proof -
    have "[0..<32] = [0..<k] @ [k..<32]"
      using assms(1,2) upt_add_eq_append [of 0 k "32 - k"] by simp
    then show ?thesis using assms(1,2) by (simp add: upt_conv_Cons)
  qed
  have "filter (bit (movemask bs)) [0..<k] = []" using assms(4) by (auto simp: bit_movemask filter_empty_conv)
  moreover have "bit (movemask bs) k" using assms by (simp add: bit_movemask)
  ultimately show ?thesis by (simp add: ffs_def split)
qed

lemma nth_cmpeq_set1:
  "k < n \<Longrightarrow> k < length xs \<Longrightarrow> bit (cmpeq xs (set1 n (c :: u8)) ! k) 7 \<longleftrightarrow> xs ! k = c"
  by (simp add: cmpeq_def set1_def)

lemma length_cmpeq [simp]: "length (cmpeq xs ys) = min (length xs) (length ys)"
  by (simp add: cmpeq_def)

lemma length_set1 [simp]: "length (set1 n c) = n"
  by (simp add: set1_def)

text \<open>A compare with one byte: the movemask of the result finds its first occurrence.\<close>

lemma cmpeq_none:
  assumes "length xs = n" "n \<le> 32"
  shows "movemask (cmpeq xs (set1 n c)) = 0 \<longleftrightarrow> c \<notin> set xs"
proof -
  have "movemask (cmpeq xs (set1 n c)) = 0 \<longleftrightarrow> (\<forall>k < n. xs ! k \<noteq> c)"
    using assms by (auto simp: movemask_zero_iff nth_cmpeq_set1)
  then show ?thesis using assms(1) by (metis in_set_conv_nth)
qed

lemma cmpeq_first:
  assumes "length xs = n" "n \<le> 32" "k < n" "xs ! k = c" "c \<notin> set (take k xs)"
  shows "ffs (movemask (cmpeq xs (set1 n c))) = k + 1"
proof (rule ffs_first)
  show "\<forall>j < k. \<not> bit (cmpeq xs (set1 n c) ! j) 7"
  proof (intro allI impI)
    fix j assume "j < k"
    then have "xs ! j \<in> set (take k xs)" using assms(1,3) by (auto simp: in_set_conv_nth)
    then have "xs ! j \<noteq> c" using assms(5) by auto
    then show "\<not> bit (cmpeq xs (set1 n c) ! j) 7" using assms \<open>j < k\<close> by (simp add: nth_cmpeq_set1)
  qed
qed (use assms in \<open>simp_all add: nth_cmpeq_set1\<close>)

lemma cmpeq_bit0:
  assumes "length xs = n" "0 < n"
  shows "movemask (cmpeq xs (set1 n c)) AND 1 = 0 \<longleftrightarrow> xs ! 0 \<noteq> c"
proof -
  have "movemask (cmpeq xs (set1 n c)) AND 1 = 0 \<longleftrightarrow> \<not> bit (movemask (cmpeq xs (set1 n c))) 0"
    by (simp add: and_one_eq bit_0 even_iff_mod_2_eq_zero)
  then show ?thesis using assms by (simp add: bit_movemask nth_cmpeq_set1)
qed

section \<open>Cutting off the tail of a vector\<close>

text \<open>The lane numbers 0 to 15, the constant \<open>m2_mask\<close>.\<close>

definition lane_numbers :: bytes where
  "lane_numbers = [0, 1, 2, 3, 4, 5, 6, 7, 8, 9, 10, 11, 12, 13, 14, 15]"

lemma nth_lane_numbers: "k < 16 \<Longrightarrow> lane_numbers ! k = of_nat k"
proof -
  assume "k < 16"
  then have "k \<in> {0, 1, 2, 3, 4, 5, 6, 7, 8, 9, 10, 11, 12, 13, 14, 15}"
    unfolding insert_iff empty_iff by arith
  then show ?thesis by (auto simp: lane_numbers_def)
qed

lemma length_lane_numbers [simp]: "length lane_numbers = 16"
  by (simp add: lane_numbers_def)

lemma sint_small: "k < 128 \<Longrightarrow> sint (of_nat k :: u8) = int k"
  by (simp add: signed_of_nat signed_take_bit_int_eq_self)

lemma vec_and_cmpgt:
  assumes "length xs = 16" "m \<le> 16"
  shows "vec_and xs (cmpgt (set1 16 (of_nat m)) lane_numbers) = take m xs @ replicate (16 - m) 0"
proof (rule nth_equalityI)
  show "length (vec_and xs (cmpgt (set1 16 (of_nat m)) lane_numbers)) =
      length (take m xs @ replicate (16 - m) 0)"
    using assms by (simp add: vec_and_def cmpgt_def set1_def)
  fix k assume "k < length (vec_and xs (cmpgt (set1 16 (of_nat m)) lane_numbers))"
  then have k: "k < 16" using assms by (simp add: vec_and_def cmpgt_def)
  have "(sint (of_nat k :: u8) < sint (of_nat m :: u8)) = (k < m)"
    using k assms(2) by (simp add: sint_small)
  then show "vec_and xs (cmpgt (set1 16 (of_nat m)) lane_numbers) ! k =
      (take m xs @ replicate (16 - m) 0) ! k"
    using k assms by (simp add: vec_and_def cmpgt_def set1_def nth_lane_numbers nth_append)
qed

end
