(* ===== verification/Mmuniq.thy ===== *)
theory Mmuniq
  imports Siphash Line_Loop Options Simd "HOL-Library.Monad_Syntax"
begin

text \<open>
  \<open>2020-02-mmuniq/mmuniq.c\<close>: the resizing duplicate filter. The two versions of
  \<open>find_nl_and_hash\<close>, the queue of pending lines (which points into the input buffer),
  \<open>process_flush\<close>, \<open>process_line\<close>, the input loop with its forced flushes and resizes, and
  \<open>main\<close>. The loop is written once, over the line finder; \<open>n\<close> is \<open>BUF_SZ\<close> throughout.
\<close>

unbundle bit_operations_syntax

section \<open>State\<close>

definition C_LINE_SZ :: nat where
  "C_LINE_SZ = 128"

text \<open>A pending line: where it starts in the input buffer, its length and its hash.\<close>

record c_line =
  c_s :: nat
  c_l :: nat
  c_h :: u64

text \<open>
  The static variables. \<open>written\<close> is what reached the standard output; \<open>write_results\<close> is
  what the next calls of \<open>write(1, ...)\<close> return (all bytes are taken when it is empty).
\<close>

record mm_state =
  out_buf :: bytes
  out_buf_pos :: nat
  global_size_mask :: u64
  global_repeated :: bool
  global_items :: u64
  global_bm :: "u64 list"
  line_count :: u64
  c_lines :: "c_line list"
  c_pos :: nat
  overflow_count :: u64
  global_resizes :: nat
  written :: bytes
  write_results :: "int list"

section \<open>process_flush and process_line\<close>

definition memcpy_out :: "bytes \<Rightarrow> mm_state \<Rightarrow> mm_stop + mm_state" where
  "memcpy_out d st =
     (if out_buf_pos st + length d \<le> length (out_buf st) then
        Inr (st\<lparr>out_buf := array_write (out_buf st) (out_buf_pos st) d,
               out_buf_pos := out_buf_pos st + length d\<rparr>)
      else Inl OutOfBounds)"

definition count_item :: "int \<Rightarrow> mm_state \<Rightarrow> mm_state" where
  "count_item miss st =
     (if miss = 1 then st\<lparr>global_items := global_items st + 1\<rparr> else st)"

definition wanted :: "bool \<Rightarrow> int \<Rightarrow> bool" where
  "wanted rep miss \<longleftrightarrow> \<not> rep \<and> miss = 1 \<or> rep \<and> miss = 0"

text \<open>The line \<open>d\<close> and a newline go to the output buffer.\<close>

definition emit :: "nat \<Rightarrow> bytes \<Rightarrow> mm_state \<Rightarrow> mm_stop + mm_state" where
  "emit n d st =
     rbind (memcpy_out d st) (\<lambda>st.
     rbind (memcpy_out [NL] st) (\<lambda>st.
       if out_buf_pos st > n + 1 then Inl Abort else Inr st))"

definition process_flush :: "nat \<Rightarrow> bytes \<Rightarrow> nat \<Rightarrow> nat \<Rightarrow> u64 \<Rightarrow> mm_state \<Rightarrow> mm_stop + mm_state" where
  "process_flush n buf s l h st =
     rbind (hash_insert h (global_bm st) (global_size_mask st) (overflow_count st))
       (\<lambda>(miss, bm', ov).
         let st = count_item miss (st\<lparr>global_bm := bm', overflow_count := ov\<rparr>) in
         if wanted (global_repeated st) miss then
           if s + l \<le> length buf then emit n (take l (drop s buf)) st else Inl OutOfBounds
         else Inr st)"

text \<open>The loop over the queue; \<open>cs\<close> are the entries from the current one on.\<close>

fun flush_loop :: "nat \<Rightarrow> bytes \<Rightarrow> c_line list \<Rightarrow> mm_state \<Rightarrow> mm_stop + mm_state" where
  "flush_loop n buf [] st = Inr st"
| "flush_loop n buf (c # cs) st =
     rbind (process_flush n buf (c_s c) (c_l c) (c_h c) st) (flush_loop n buf cs)"

text \<open>\<open>write(1, out_buf, out_buf_pos)\<close>: the returned value; no more bytes than offered are taken.\<close>

definition write_out :: "mm_state \<Rightarrow> int \<times> mm_state" where
  "write_out st =
     (let r = (case write_results st of [] \<Rightarrow> int (out_buf_pos st)
                                      | w # _ \<Rightarrow> min w (int (out_buf_pos st)))
      in (r, st\<lparr>written := written st @ take (nat r) (take (out_buf_pos st) (out_buf st)),
               write_results := tl (write_results st)\<rparr>))"

definition process_line ::
    "nat \<Rightarrow> bytes \<Rightarrow> (nat \<times> nat \<times> u64) option \<Rightarrow> bool \<Rightarrow> mm_state \<Rightarrow> mm_stop + (int \<times> mm_state)" where
  "process_line n buf line force st =
     rbind
       (case line of
          None \<Rightarrow> Inr st
        | Some (s, l, h) \<Rightarrow>
            (if c_pos st < length (c_lines st) then
               Inr (st\<lparr>line_count := line_count st + 1,
                      c_lines := (c_lines st)[c_pos st := \<lparr>c_s = s, c_l = l, c_h = h\<rparr>],
                      c_pos := c_pos st + 1\<rparr>)
             else Inl OutOfBounds))
       (\<lambda>st.
     rbind
       (if force \<or> c_pos st = C_LINE_SZ then
          rbind (flush_loop n buf (take (min (c_pos st) C_LINE_SZ) (c_lines st)) st)
            (\<lambda>st. Inr (st\<lparr>c_pos := 0\<rparr>))
        else Inr st)
       (\<lambda>st.
          if force \<and> out_buf_pos st \<noteq> 0 then
            (case write_out st of (r, st) \<Rightarrow>
               if r \<le> 0 then Inr (-1, st) else Inr (0, st\<lparr>out_buf_pos := 0\<rparr>))
          else Inr (0, st)))"

section \<open>Finding the end of a line and its hash\<close>

text \<open>
  A line finder looks at \<open>sz\<close> bytes of the buffer from \<open>off\<close> on: the distance of the first
  newline, and the hash of what is before it (of all bytes when there is none). Reading a byte that is
  not there stops it.
\<close>

type_synonym finder = "bytes \<Rightarrow> nat \<Rightarrow> nat \<Rightarrow> mm_stop + (nat option \<times> u64)"

text \<open>The version without SSE.\<close>

definition nosse_hash :: "bytes \<Rightarrow> u64" where
  "nosse_hash s = fst (siphash24 s 0xa224e4507e645d91 0xe7a9131a4b842813 None)"

definition find_nl_and_hash_nosse :: finder where
  "find_nl_and_hash_nosse buf off sz =
     (if off + sz \<le> length buf then
        (let s = take sz (drop off buf) in
         case memchr s NL sz of
           None \<Rightarrow> Inr (None, nosse_hash s)
         | Some c \<Rightarrow> Inr (Some c, nosse_hash (take c s)))
      else Inl OutOfBounds)"

text \<open>
  The SSE version. \<open>aesenc\<close> is the instruction. Every load takes 16 bytes, also the last one, for which
  fewer are left; \<open>behind\<close> are the bytes that can be read behind the buffer (it is a local array of \<open>main\<close>),
  and a load that goes beyond them faults. The loop returns the hash, and \<open>ret\<close> as a distance.
\<close>

definition rk0 :: bytes where
  "rk0 = le_bytes 8 (0x736f6d6570736575 :: u64) @ le_bytes 8 (0x646f72616e646f6d :: u64)"

definition rk1 :: bytes where
  "rk1 = le_bytes 8 (0xb549200b5168588f :: u64) @ le_bytes 8 (0xfd5c07200540ada5 :: u64)"

function sse_loop ::
    "(bytes \<Rightarrow> bytes \<Rightarrow> bytes) \<Rightarrow> bytes \<Rightarrow> nat \<Rightarrow> nat \<Rightarrow> bytes \<Rightarrow> mm_stop + (nat option \<times> bytes)" where
  "sse_loop aesenc b i sz hash =
     (if i < sz then
        if i + 16 \<le> length b then
        (let x = take 16 (drop i b);
             x = (if sz - i < 16 then vec_and x (cmpgt (set1 16 (of_nat (sz - i))) lane_numbers) else x);
             z = movemask (cmpeq x (set1 16 NL));
             f = ffs z;
             piece = (if z \<noteq> 0 then vec_and x (cmpgt (set1 16 (of_nat (f - 1))) lane_numbers) else x);
             hash = (if z AND 1 = 0 then aesenc (aesenc (vec_xor hash piece) rk0) rk1 else hash)
         in if z \<noteq> 0 then Inr (Some (i + f - 1), hash)
            else sse_loop aesenc b (i + 16) sz hash)
        else Inl OutOfBounds
      else Inr (None, hash))"
  by pat_completeness auto
termination
  by (relation "measure (\<lambda>(_, _, i, sz, _). sz - i)") auto

declare sse_loop.simps [simp del]

definition find_nl_and_hash_sse :: "(bytes \<Rightarrow> bytes \<Rightarrow> bytes) \<Rightarrow> bytes \<Rightarrow> finder" where
  "find_nl_and_hash_sse aesenc behind buf off sz =
     rbind (sse_loop aesenc (drop off (buf @ behind)) 0 sz rk0) (\<lambda>(ret, hash).
       let ret_sz = (case ret of None \<Rightarrow> sz | Some d \<Rightarrow> d);
           hash = aesenc hash (le_bytes 8 (of_nat ret_sz :: u64) @ le_bytes 8 (of_nat ret_sz :: u64))
       in Inr (ret, word_of_le (take 8 hash) XOR word_of_le (take 8 (drop 8 hash))))"

section \<open>The input loop\<close>

text \<open>\<open>res |= process_line(...)\<close> on the values 0 and -1.\<close>

definition or_res :: "int \<Rightarrow> int \<Rightarrow> int" where
  "or_res a b = (if a = 0 then b else -1)"

function find_loop ::
    "finder \<Rightarrow> nat \<Rightarrow> bytes \<Rightarrow> nat \<Rightarrow> nat \<Rightarrow> int \<Rightarrow> mm_state \<Rightarrow> mm_stop + (nat \<times> int \<times> mm_state)" where
  "find_loop fnd n buf buf_pos buf_sz res st =
     (if buf_pos \<le> buf_sz then
        (case fnd buf buf_pos (buf_sz - buf_pos) of
           Inl e \<Rightarrow> Inl e
         | Inr (None, h) \<Rightarrow> Inr (buf_pos, res, st)
         | Inr (Some nl, h) \<Rightarrow>
             rbind (process_line n buf (Some (buf_pos, nl, h)) False st) (\<lambda>(r, st).
               find_loop fnd n buf (buf_pos + nl + 1) buf_sz (or_res res r) st))
      else Inl OutOfBounds)"
  by pat_completeness auto
termination
  by (relation "measure (\<lambda>(_, _, _, buf_pos, buf_sz, _). buf_sz + 1 - buf_pos)") auto

declare find_loop.simps [simp del]

text \<open>
  The loop of \<open>main\<close>. \<open>threshold m\<close> is \<open>fill_rate * (double) m\<close> converted to an integer;
  \<open>fill_threshold\<close> is its current value.
\<close>

function main_loop ::
    "finder \<Rightarrow> nat \<Rightarrow> (u64 \<Rightarrow> bool) \<Rightarrow> (u64 \<Rightarrow> u64) \<Rightarrow> chunk list \<Rightarrow> bytes \<Rightarrow> nat \<Rightarrow> int \<Rightarrow> u64 \<Rightarrow>
     mm_state \<Rightarrow> mm_stop + mm_state" where
  "main_loop fnd n mmap_ok threshold ins buf buf_pos res fill_threshold st =
     (if res = 0 then
        (case os_read ins (n - buf_pos) of (r, d, ins) \<Rightarrow>
           if r < 0 then Inr st
           else if length buf < buf_pos + length d then Inl OutOfBounds
           else
             (let buf = array_write buf buf_pos d;
                  buf_sz = buf_pos + nat r
              in rbind (find_loop fnd n buf 0 buf_sz res st) (\<lambda>(buf_pos, res, st).
                 rbind (process_line n buf None True st) (\<lambda>(p, st).
                   let res = or_res res p;
                       buf = array_write buf 0 (take (buf_sz - buf_pos) (drop buf_pos buf));
                       buf_pos = buf_sz - buf_pos
                   in rbind
                     (if buf_pos = n \<or> r = 0 then
                        rbind (fnd buf 0 n) (\<lambda>(_, h).
                        rbind (process_line n buf (Some (0, n, h)) True st)
                          (\<lambda>(p, st). Inr (or_res res p, 0, st)))
                      else Inr (res, buf_pos, st))
                     (\<lambda>(res, buf_pos, st).
                       if r = 0 then Inr st
                       else if global_items st > fill_threshold then
                         rbind (resize mmap_ok (global_bm st) (global_size_mask st) (overflow_count st))
                           (\<lambda>(bm', msk, ov).
                             main_loop fnd n mmap_ok threshold ins buf buf_pos res (threshold (msk + 1))
                               (st\<lparr>global_resizes := global_resizes st + 1, global_bm := bm',
                                  global_size_mask := msk, overflow_count := ov\<rparr>))
                       else main_loop fnd n mmap_ok threshold ins buf buf_pos res fill_threshold st)))))
      else Inr st)"
  by pat_completeness auto
termination
  by (relation "measure (\<lambda>(_, _, _, _, ins, _). sum_list (map chunk_size ins))")
    (auto intro: os_read_smaller)

declare main_loop.simps [simp del]

section \<open>The program\<close>

text \<open>\<open>while (global_size * 2 * 8 < (unsigned long)l3_cache) global_size *= 2\<close>\<close>

partial_function (option) l3_loop :: "u64 \<Rightarrow> u64 \<Rightarrow> u64 option" where
  "l3_loop sz l3_cache = (if sz * 2 * 8 < l3_cache then l3_loop (sz * 2) l3_cache else Some sz)"

text \<open>\<open>while (global_size_mask < global_size) global_size_mask <<= 1\<close>\<close>

partial_function (option) mask_loop :: "u64 \<Rightarrow> u64 \<Rightarrow> u64 option" where
  "mask_loop msk sz = (if msk < sz then mask_loop (push_bit 1 msk) sz else Some msk)"

text \<open>What \<open>sysconf(_SC_LEVEL3_CACHE_SIZE)\<close> returned, turned into the default table size.\<close>

definition default_size :: "int \<Rightarrow> u64 option" where
  "default_size l3_cache =
     (if l3_cache \<le> 0 then Some (4 * 1024 * 1024) else l3_loop 4096 (word_of_int l3_cache))"

record mmuniq_options =
  mm_size :: u64
  mm_fill :: "bytes option" \<comment> \<open>the argument of \<open>-f\<close>, read as a double\<close>
  mm_verbose :: bool
  mm_repeated :: bool

text \<open>The characters 63 \<open>?\<close>, 104 \<open>h\<close>, 110 \<open>n\<close>, 102 \<open>f\<close>, 118 \<open>v\<close> and 68 \<open>D\<close>.\<close>

fun mmuniq_getopt :: "(int \<times> bytes) list \<Rightarrow> mmuniq_options \<Rightarrow> mm_stop + mmuniq_options" where
  "mmuniq_getopt [] opts = Inr opts"
| "mmuniq_getopt ((arg, optarg) # evs) opts =
     (if arg = 63 then Inl (Exit (-1))
      else if arg = 104 then Inl (Exit 1)
      else if arg = 110 then mmuniq_getopt evs (opts\<lparr>mm_size := llabs_u64 (atoll optarg)\<rparr>)
      else if arg = 102 then mmuniq_getopt evs (opts\<lparr>mm_fill := Some optarg\<rparr>)
      else if arg = 118 then mmuniq_getopt evs (opts\<lparr>mm_verbose := True\<rparr>)
      else if arg = 68 then mmuniq_getopt evs (opts\<lparr>mm_repeated := True\<rparr>)
      else Inl (Exit (-1)))"

definition start_state :: "nat \<Rightarrow> u64 \<Rightarrow> bool \<Rightarrow> u64 list \<Rightarrow> int list \<Rightarrow> mm_state" where
  "start_state n msk rep tab ws =
     \<lparr>out_buf = replicate (n * 2) 0, out_buf_pos = 0, global_size_mask = msk, global_repeated = rep,
      global_items = 0, global_bm = tab, line_count = 0,
      c_lines = replicate C_LINE_SZ \<lparr>c_s = 0, c_l = 0, c_h = 0\<rparr>, c_pos = 0, overflow_count = 0,
      global_resizes = 0, written = [], write_results = ws\<rparr>"

text \<open>
  \<open>main\<close>; \<open>threshold fill m\<close> is \<open>fill_rate * (double) m\<close> for the fill rate given by the last
  \<open>-f\<close> (0.6 when there is none or it is not between 0.1 and 0.9). The result is what was
  written and the number of overflows, which the program reports when it is not 0.
\<close>

definition mmuniq_main ::
    "finder \<Rightarrow> nat \<Rightarrow> int \<Rightarrow> (u64 \<Rightarrow> bool) \<Rightarrow> (bytes option \<Rightarrow> u64 \<Rightarrow> u64) \<Rightarrow> (int \<times> bytes) list \<Rightarrow>
     chunk list \<Rightarrow> int list \<Rightarrow> (mm_stop + (bytes \<times> u64)) option" where
  "mmuniq_main fnd n l3_cache mmap_ok threshold evs ins ws =
     Option.bind (default_size l3_cache) (\<lambda>sz.
       case mmuniq_getopt evs \<lparr>mm_size = sz, mm_fill = None, mm_verbose = False, mm_repeated = False\<rparr> of
         Inl e \<Rightarrow> Some (Inl e)
       | Inr opts \<Rightarrow>
           Option.bind (mask_loop 1 (mm_size opts)) (\<lambda>msk. Some
             (let msk = msk - 1;
                  bm_sz = (msk + 1) * 8
              in if \<not> mmap_ok bm_sz then Inl Mmap_failed
                 else rbind (main_loop fnd n mmap_ok (threshold (mm_fill opts)) ins (replicate n 0) 0 0
                     (threshold (mm_fill opts) (msk + 1))
                     (start_state n msk (mm_repeated opts) (replicate (unat bm_sz div 8) 0) ws))
                   (\<lambda>st. Inr (written st, overflow_count st)))))"

section \<open>The interface of the line finders\<close>

locale line_finder =
  fixes fnd :: finder and hf :: "bytes \<Rightarrow> u64"
  assumes finds: "off + sz \<le> length buf \<Longrightarrow> fnd buf off sz =
    (case memchr (drop off buf) NL sz of
       None \<Rightarrow> Inr (None, hf (take sz (drop off buf)))
     | Some c \<Rightarrow> Inr (Some c, hf (take c (drop off buf))))"

lemma memchr_take: "memchr (take n xs) c n = memchr xs c n"
  by (induction xs c n rule: memchr.induct) auto

interpretation nosse: line_finder find_nl_and_hash_nosse nosse_hash
proof
  fix off sz and buf :: bytes
  assume fits: "off + sz \<le> length buf"
  then show "find_nl_and_hash_nosse buf off sz =
    (case memchr (drop off buf) NL sz of
       None \<Rightarrow> Inr (None, nosse_hash (take sz (drop off buf)))
     | Some c \<Rightarrow> Inr (Some c, nosse_hash (take c (drop off buf))))"
  proof (cases "memchr (drop off buf) NL sz")
    case (Some c)
    then have "c < sz" by (simp add: memchr_Some)
    then show ?thesis using Some fits by (simp add: find_nl_and_hash_nosse_def memchr_take)
  qed (use fits in \<open>simp add: find_nl_and_hash_nosse_def memchr_take\<close>)
qed

section \<open>The SSE version computes a hash of the line\<close>

text \<open>
  The hash, as a function of the line: the line is cut into 16-byte blocks, the last one filled
  up with zeros; each is added to the state, which goes through two AES rounds; the length
  closes it.
\<close>

definition sse_block :: "(bytes \<Rightarrow> bytes \<Rightarrow> bytes) \<Rightarrow> bytes \<Rightarrow> bytes \<Rightarrow> bytes" where
  "sse_block aesenc hash c =
     aesenc (aesenc (vec_xor hash (c @ replicate (16 - length c) 0)) rk0) rk1"

function sse_blocks :: "(bytes \<Rightarrow> bytes \<Rightarrow> bytes) \<Rightarrow> bytes \<Rightarrow> bytes \<Rightarrow> bytes" where
  "sse_blocks aesenc s hash =
     (if s = [] then hash else sse_blocks aesenc (drop 16 s) (sse_block aesenc hash (take 16 s)))"
  by pat_completeness auto
termination by (relation "measure (\<lambda>(_, s, _). length s)") auto

declare sse_blocks.simps [simp del]

lemma sse_blocks_Nil [simp]: "sse_blocks aesenc [] hash = hash"
  by (simp add: sse_blocks.simps)

definition sse_hash :: "(bytes \<Rightarrow> bytes \<Rightarrow> bytes) \<Rightarrow> bytes \<Rightarrow> u64" where
  "sse_hash aesenc s =
     (let len = le_bytes 8 (of_nat (length s) :: u64);
          hash = aesenc (sse_blocks aesenc s rk0) (len @ len)
      in word_of_le (take 8 hash) XOR word_of_le (take 8 (drop 8 hash)))"

lemma memchr_skip:
  assumes "c \<notin> set (take m xs)" "m \<le> length xs" "m \<le> n"
  shows "memchr xs c n = map_option ((+) m) (memchr (drop m xs) c (n - m))"
  using assms
proof (induction m arbitrary: xs n)
  case 0
  then show ?case by (cases "memchr xs c n") auto
next
  case (Suc m)
  then obtain x xs' n' where "xs = x # xs'" "n = Suc n'" by (metis Suc_le_length_iff Suc_le_D)
  then show ?case using Suc.IH [of xs' n'] Suc.prems
    by (cases "memchr (drop m xs') c (n' - m)") auto
qed

lemma memchr_first:
  assumes "c \<in> set xs" "length xs \<le> n"
  obtains k where "k < length xs" "xs ! k = c" "c \<notin> set (take k xs)" "memchr (xs @ ys) c n = Some k"
proof -
  have "memchr (xs @ ys) c n \<noteq> None"
    using assms by (auto simp: memchr_None)
  then obtain k where m: "memchr (xs @ ys) c n = Some k" by auto
  then have k: "k < n" "(xs @ ys) ! k = c" "c \<notin> set (take k (xs @ ys))"
    by (auto simp: memchr_Some)
  have "k < length xs" using k(3) assms(1) by (cases "k < length xs") auto
  then show thesis using that m k by (auto simp: nth_append)
qed

lemma sse_loop_blocks:
  assumes "i \<le> sz" "sz + 15 \<le> length b"
  shows "sse_loop aesenc b i sz hash =
    (case memchr (drop i b) NL (sz - i) of
       None \<Rightarrow> Inr (None, sse_blocks aesenc (take (sz - i) (drop i b)) hash)
     | Some k \<Rightarrow> Inr (Some (i + k), sse_blocks aesenc (take k (drop i b)) hash))"
  using assms
proof (induction "sz - i" arbitrary: i hash rule: less_induct)
  case less
  show ?case
  proof (cases "i < sz")
    case False
    then show ?thesis using less.prems by (simp add: sse_loop.simps)
  next
    case True
    then have fits: "i + 16 \<le> length b" using less.prems(2) by simp
    define rest where "rest = take (sz - i) (drop i b)"
    define y where "y = take 16 rest"
    define x where "x = y @ replicate (16 - length y) 0"
    have y: "length y = min 16 (sz - i)" using less.prems by (simp add: y_def rest_def)
    have x: "length x = 16" using y by (simp add: x_def)
    have load: "(if sz - i < 16 then vec_and (take 16 (drop i b))
        (cmpgt (set1 16 (of_nat (sz - i))) lane_numbers) else take 16 (drop i b)) = x"
    proof (cases "sz - i < 16")
      case short: True
      have "length (take 16 (drop i b)) = 16" using less.prems True by simp
      from vec_and_cmpgt [OF this, of "sz - i"] have
        "vec_and (take 16 (drop i b)) (cmpgt (set1 16 (of_nat (sz - i))) lane_numbers) =
          take (sz - i) (drop i b) @ replicate (16 - (sz - i)) 0" using short by simp
      moreover have "y = take (sz - i) (drop i b)" using short by (simp add: y_def rest_def)
      moreover have "length y = sz - i" using y short by simp
      ultimately show ?thesis using short by (simp only: if_True x_def)
    next
      case long: False
      then have "y = take 16 (drop i b)" by (simp add: y_def rest_def min_def)
      then show ?thesis using long y by (simp add: x_def)
    qed
    have memchr: "memchr (drop i b) NL (sz - i) = memchr (y @ drop 16 rest) NL (sz - i)"
      by (simp only: y_def append_take_drop_id rest_def memchr_take)
    show ?thesis
    proof (cases "NL \<in> set y")
      case nl: True
      then obtain k where k: "k < length y" "y ! k = NL" "NL \<notin> set (take k y)"
        "memchr (y @ drop 16 rest) NL (sz - i) = Some k"
        using memchr_first [of NL y "sz - i" "drop 16 rest"] y by auto
      have k16: "k < 16" using k(1) y by simp
      have ffs: "ffs (movemask (cmpeq x (set1 16 NL))) = k + 1"
        using k x by (intro cmpeq_first) (auto simp: x_def nth_append)
      have z: "movemask (cmpeq x (set1 16 NL)) \<noteq> 0"
        using nl x by (subst cmpeq_none) (auto simp: x_def)
      have z1: "movemask (cmpeq x (set1 16 NL)) AND 1 = 0 \<longleftrightarrow> k \<noteq> 0"
      proof -
        have "x ! 0 = y ! 0" using k(1) by (cases y) (simp_all add: x_def)
        moreover have "y ! 0 = NL \<longleftrightarrow> k = 0" using k by (cases y; cases k) auto
        ultimately show ?thesis using x by (subst cmpeq_bit0) auto
      qed
      have line: "take k (drop i b) = take k y"
        using k(1) y by (simp add: y_def rest_def min_def)
      have piece: "vec_and x (cmpgt (set1 16 (of_nat k)) lane_numbers) =
          take k y @ replicate (16 - length (take k y)) 0"
        using x k(1) k16 by (simp add: vec_and_cmpgt) (simp add: x_def)
      have "sse_blocks aesenc (take k y) hash =
          (if k = 0 then hash else sse_block aesenc hash (take k y))"
        using k(1) k16 by (subst sse_blocks.simps) auto
      then have "sse_loop aesenc b i sz hash = Inr (Some (i + k), sse_blocks aesenc (take k y) hash)"
        using True by (subst sse_loop.simps)
          (simp only: fits load ffs z z1 piece Let_def if_True add_diff_cancel_right' add_Suc_right
            Suc_eq_plus1 [symmetric] diff_Suc_1 sse_block_def, simp)
      then show ?thesis by (simp add: memchr k(4) line)
    next
      case no: False
      have zero: "movemask (cmpeq x (set1 16 NL)) = 0"
        using no x by (subst cmpeq_none) (auto simp: x_def NL_def)
      have step: "sse_loop aesenc b i sz hash =
          sse_loop aesenc b (i + 16) sz (sse_block aesenc hash y)"
        using True by (subst sse_loop.simps)
          (simp only: fits load zero Let_def if_True, simp add: sse_block_def x_def)
      have blocks: "sse_blocks aesenc rest hash = sse_blocks aesenc (drop 16 rest) (sse_block aesenc hash y)"
        using True less.prems by (subst sse_blocks.simps) (auto simp: y_def rest_def)
      show ?thesis
      proof (cases "i + 16 < sz")
        case more: True
        have "drop 16 rest = take (sz - (i + 16)) (drop (i + 16) b)"
          by (simp add: rest_def drop_take add.commute)
        moreover have "y = take 16 (drop i b)"
          using more by (simp add: y_def rest_def min_def)
        then have "memchr (drop i b) NL (sz - i) =
            map_option ((+) 16) (memchr (drop (i + 16) b) NL (sz - (i + 16)))"
          using memchr_skip [of NL 16 "drop i b" "sz - i"] no more less.prems
          by (simp add: add.commute)
        moreover have "take (16 + k) (drop i b) = y @ take k (drop (i + 16) b)" for k
          using \<open>y = take 16 (drop i b)\<close> take_add [of 16 k "drop i b"] by (simp add: add.commute)
        moreover have "sse_blocks aesenc (y @ s) hash = sse_blocks aesenc s (sse_block aesenc hash y)" for s
          using y more by (subst sse_blocks.simps) auto
        ultimately show ?thesis
          using less.hyps [of "i + 16" "sse_block aesenc hash y"] more less.prems step blocks
          by (auto simp: rest_def split: option.splits)
      next
        case last: False
        then have "rest = y" by (simp add: y_def rest_def)
        then have "drop 16 rest = []" using y by simp
        have "memchr (drop i b) NL (sz - i) = None"
          using no \<open>rest = y\<close> by (auto simp: memchr_None rest_def)
        then show ?thesis
          using step blocks last \<open>drop 16 rest = []\<close> by (simp add: sse_loop.simps [of _ _ "i + 16"] rest_def)
      qed
    qed
  qed
qed

text \<open>
  Up to 15 bytes behind the buffer are loaded, but do not matter. Without them the load at the end of a
  buffer that is full faults.
\<close>

lemma find_sse_law:
  assumes "off + sz \<le> length buf" "15 \<le> length behind"
  shows "find_nl_and_hash_sse aesenc behind buf off sz =
    (case memchr (drop off buf) NL sz of
       None \<Rightarrow> Inr (None, sse_hash aesenc (take sz (drop off buf)))
     | Some c \<Rightarrow> Inr (Some c, sse_hash aesenc (take c (drop off buf))))"
proof -
  have "drop off (buf @ behind) = drop off buf @ behind" using assms by simp
  moreover have "memchr (drop off buf @ behind) NL sz = memchr (drop off buf) NL sz"
    using memchr_take [of sz "drop off buf @ behind" NL] memchr_take [of sz "drop off buf" NL] assms
    by simp
  moreover have cut: "take c (drop off buf @ behind) = take c (drop off buf)"
    "length (take c (drop off buf)) = c" if "c \<le> sz" for c
    using that assms by simp_all
  moreover have "sz + 15 \<le> length (drop off buf @ behind)" using assms by simp
  note sse_loop_blocks [OF _ this, of 0 aesenc rk0]
  ultimately have loop: "sse_loop aesenc (drop off (buf @ behind)) 0 sz rk0 =
      (case memchr (drop off buf) NL sz of
         None \<Rightarrow> Inr (None, sse_blocks aesenc (take sz (drop off buf)) rk0)
       | Some k \<Rightarrow> Inr (Some k, sse_blocks aesenc (take k (drop off buf @ behind)) rk0))"
    by (cases "memchr (drop off buf) NL sz") (simp_all del: take_append)
  show ?thesis
  proof (cases "memchr (drop off buf) NL sz")
    case None
    then show ?thesis
      using cut [of sz] by (simp add: find_nl_and_hash_sse_def sse_hash_def Let_def loop del: length_take drop_append)
  next
    case (Some c)
    then have "c \<le> sz" by (simp add: memchr_Some)
    then show ?thesis
      using cut [of c] Some by (simp add: find_nl_and_hash_sse_def sse_hash_def Let_def loop del: length_take take_append drop_append)
  qed
qed

lemma find_sse_over_read:
  assumes "off + sz = length buf" "0 < sz" "sz < 16" "length behind < 16 - sz"
  shows "find_nl_and_hash_sse aesenc behind buf off sz = Inl OutOfBounds"
proof -
  have "\<not> 0 + 16 \<le> length (drop off (buf @ behind))" using assms by simp
  then have "sse_loop aesenc (drop off (buf @ behind)) 0 sz rk0 = Inl OutOfBounds"
    using assms(2) by (subst sse_loop.simps) (simp only: if_True if_False)
  then show ?thesis by (simp add: find_nl_and_hash_sse_def)
qed

lemma sse_line_finder:
  "15 \<le> length behind \<Longrightarrow> line_finder (find_nl_and_hash_sse aesenc behind) (sse_hash aesenc)"
  by unfold_locales (rule find_sse_law)

interpretation sse: line_finder "find_nl_and_hash_sse aesenc (map stack [0..<15] @ far)" "sse_hash aesenc"
  for aesenc stack far
  by (rule sse_line_finder) simp

end
