(* ===== verification/Mmuniq_Output.thy ===== *)
theory Mmuniq_Output
  imports Mmuniq
begin

text \<open>
  What \<open>mmuniq\<close> computes. The queue of pending lines, the forced flushes and the memmove of
  the buffer are proved to have no effect on the sequence of lines offered to the hash table;
  every buffer access stays inside its buffer, and the abort of \<open>process_flush\<close> is never
  reached. The theorems are proved for any line finder and hold for both of them.
\<close>

section \<open>Flushing lines, without the queue\<close>

text \<open>One line \<open>d\<close> with its hash, and the lines \<open>es\<close> one after the other.\<close>

definition flush_line :: "nat \<Rightarrow> bytes \<times> u64 \<Rightarrow> mm_state \<Rightarrow> mm_stop + mm_state" where
  "flush_line n e st =
     rbind (hash_insert (snd e) (global_bm st) (global_size_mask st) (overflow_count st))
       (\<lambda>(miss, bm', ov).
         let st = count_item miss (st\<lparr>global_bm := bm', overflow_count := ov\<rparr>) in
         if wanted (global_repeated st) miss then emit n (fst e) st else Inr st)"

fun flush_all :: "nat \<Rightarrow> (bytes \<times> u64) list \<Rightarrow> mm_state \<Rightarrow> mm_stop + mm_state" where
  "flush_all n [] st = Inr st"
| "flush_all n (e # es) st =
     rbind (flush_line n e st) (flush_all n es)"

lemma flush_all_append: "flush_all n (xs @ ys) st = rbind (flush_all n xs st) (flush_all n ys)"
proof (induction xs arbitrary: st)
  case (Cons x xs)
  have "flush_all n (xs @ ys) = (\<lambda>st. rbind (flush_all n xs st) (flush_all n ys))"
    by (rule ext) (rule Cons.IH)
  then show ?case by (simp add: rbind_assoc)
qed simp

definition entry :: "bytes \<Rightarrow> c_line \<Rightarrow> bytes \<times> u64" where
  "entry buf c = (take (c_l c) (drop (c_s c) buf), c_h c)"

definition in_buf :: "bytes \<Rightarrow> c_line \<Rightarrow> bool" where
  "in_buf buf c \<longleftrightarrow> c_s c + c_l c \<le> length buf"

lemma process_flush_entry:
  "in_buf buf c \<Longrightarrow> process_flush n buf (c_s c) (c_l c) (c_h c) st = flush_line n (entry buf c) st"
  by (cases "hash_insert (c_h c) (global_bm st) (global_size_mask st) (overflow_count st)")
    (auto simp: process_flush_def flush_line_def entry_def in_buf_def Let_def)

lemma flush_loop_all:
  "\<forall>c \<in> set cs. in_buf buf c \<Longrightarrow> flush_loop n buf cs st = flush_all n (map (entry buf) cs) st"
proof (induction cs arbitrary: st)
  case (Cons c cs)
  then have "flush_loop n buf cs = flush_all n (map (entry buf) cs)" by (intro ext) simp
  then show ?case using Cons.prems by (simp add: process_flush_entry)
qed simp

text \<open>Flushing does not look at the queue.\<close>

definition queue_upd :: "u64 \<Rightarrow> c_line list \<Rightarrow> nat \<Rightarrow> mm_state \<Rightarrow> mm_state" where
  "queue_upd a b c st = st\<lparr>line_count := a, c_lines := b, c_pos := c\<rparr>"

definition rmap :: "('a \<Rightarrow> 'b) \<Rightarrow> 'e + 'a \<Rightarrow> 'e + 'b" where
  "rmap f m = rbind m (\<lambda>x. Inr (f x))"

lemma rmap_simps [simp]: "rmap f (Inl e) = Inl e" "rmap f (Inr x) = Inr (f x)"
  by (simp_all add: rmap_def)

lemma rbind_rmap: "rbind (rmap f m) g = rbind m (\<lambda>x. g (f x))"
  by (cases m) simp_all

lemma memcpy_out_queue: "memcpy_out d (queue_upd a b c st) = rmap (queue_upd a b c) (memcpy_out d st)"
  by (simp add: memcpy_out_def queue_upd_def)

lemma emit_queue: "emit n d (queue_upd a b c st) = rmap (queue_upd a b c) (emit n d st)"
proof (cases "memcpy_out d st")
  case (Inr st1)
  then show ?thesis
    by (cases "memcpy_out [NL] st1") (simp_all add: emit_def memcpy_out_queue, simp add: queue_upd_def)
qed (simp add: emit_def memcpy_out_queue)

lemma count_item_queue:
  "count_item miss ((queue_upd a b c st)\<lparr>global_bm := bm', overflow_count := ov\<rparr>) =
    queue_upd a b c (count_item miss (st\<lparr>global_bm := bm', overflow_count := ov\<rparr>))"
  by (simp add: count_item_def queue_upd_def)

lemma flush_line_queue: "flush_line n e (queue_upd a b c st) = rmap (queue_upd a b c) (flush_line n e st)"
proof (cases "hash_insert (snd e) (global_bm st) (global_size_mask st) (overflow_count st)")
  case (Inl e)
  then show ?thesis by (simp add: flush_line_def queue_upd_def)
next
  case (Inr x)
  obtain miss bm' ov where x: "x = (miss, bm', ov)" by (metis prod_cases3)
  have q: "global_repeated (queue_upd a b c st') = global_repeated st'"
    "hash_insert (snd e) (global_bm (queue_upd a b c st)) (global_size_mask (queue_upd a b c st))
      (overflow_count (queue_upd a b c st)) = Inr (miss, bm', ov)" for st'
    using Inr x by (simp_all add: queue_upd_def)
  show ?thesis
    unfolding flush_line_def q Inr x
    by (simp only: rbind_simps prod.case Let_def count_item_queue q emit_queue) simp
qed

lemma flush_all_queue: "flush_all n es (queue_upd a b c st) = rmap (queue_upd a b c) (flush_all n es st)"
proof (induction es arbitrary: st)
  case (Cons e es)
  then show ?case by (cases "flush_line n e st") (simp_all add: flush_line_queue)
qed simp

section \<open>What flushing does\<close>

text \<open>The answers of the table to a sequence of hashes, and the final table.\<close>

fun insert_all :: "u64 \<Rightarrow> u64 list \<Rightarrow> u64 list \<Rightarrow> int list \<times> u64 list" where
  "insert_all m [] tab = ([], tab)"
| "insert_all m (h # hs) tab =
     (let (miss, tab) = scan h (window m h) tab;
          (ms, tab) = insert_all m hs tab
      in (miss # ms, tab))"

lemma insert_all_Cons:
  "insert_all m (h # hs) tab = (ms, tab') \<longleftrightarrow>
    (\<exists>miss tab1 ms'. scan h (window m h) tab = (miss, tab1) \<and> insert_all m hs tab1 = (ms', tab') \<and>
      ms = miss # ms')"
  by (auto simp: Let_def split: prod.splits)

lemma insert_all_length: "insert_all m hs tab = (ms, tab') \<Longrightarrow> length ms = length hs \<and> length tab' = length tab"
  by (induction hs arbitrary: tab ms)
    (auto simp: insert_all_Cons dest: scan_length simp del: insert_all.simps(2))

lemma insert_all_append:
  assumes "insert_all m xs tab = (ms1, tab1)" "insert_all m ys tab1 = (ms2, tab2)"
  shows "insert_all m (xs @ ys) tab = (ms1 @ ms2, tab2)"
  using assms(1)
proof (induction xs arbitrary: tab ms1)
  case (Cons x xs)
  then obtain miss tab' ms' where "scan x (window m x) tab = (miss, tab')"
    "insert_all m xs tab' = (ms', tab1)" "ms1 = miss # ms'"
    by (auto simp: insert_all_Cons simp del: insert_all.simps(2))
  then show ?case using Cons.IH [of tab' ms'] by simp
qed (use assms(2) in simp)

text \<open>For new lines, these are the answers of the filter interface.\<close>

lemma insert_all_feed:
  assumes "table_sized m tab" "insert_all m hs tab = (ms, tab')"
  shows "feed table_ins hs (m, tab) = (map (\<lambda>miss. miss = 1) ms, m, tab')"
  using assms
proof (induction hs arbitrary: tab ms)
  case (Cons h hs)
  then obtain miss tab1 ms' where s: "scan h (window m h) tab = (miss, tab1)"
    "insert_all m hs tab1 = (ms', tab')" "ms = miss # ms'"
    by (auto simp: insert_all_Cons simp del: insert_all.simps(2))
  have "table_sized m tab1" using Cons.prems(1) s(1) by (auto simp: table_sized_def dest: scan_length)
  then show ?case
    using Cons.IH [of tab1 ms'] s Cons.prems(1) by (simp add: table_ins_def hash_insert_scan)
qed simp

text \<open>The bytes a sequence of lines needs in the output buffer.\<close>

definition out_need :: "bytes list \<Rightarrow> nat" where
  "out_need ls = sum_list (map (\<lambda>l. length l + 1) ls)"

lemma out_need_simps [simp]: "out_need [] = 0" "out_need (l # ls) = length l + 1 + out_need ls"
  by (simp_all add: out_need_def)

text \<open>The output buffer of a state: what it holds, and that \<open>d\<close> bytes more can be added.\<close>

definition out_bytes :: "mm_state \<Rightarrow> bytes" where
  "out_bytes st = take (out_buf_pos st) (out_buf st)"

definition has_room :: "nat \<Rightarrow> nat \<Rightarrow> mm_state \<Rightarrow> bool" where
  "has_room n d st \<longleftrightarrow> 0 < n \<and> length (out_buf st) = n * 2 \<and> out_buf_pos st + d \<le> n + 1"

lemma emit_line:
  assumes "has_room n (length d + 1 + k) st"
  shows "\<exists>buf p. emit n d st = Inr (st\<lparr>out_buf := buf, out_buf_pos := p\<rparr>) \<and>
    has_room n k (st\<lparr>out_buf := buf, out_buf_pos := p\<rparr>) \<and>
    take p buf = out_bytes st @ out_line d"
proof -
  define p1 where "p1 = out_buf_pos st + length d"
  define buf1 where "buf1 = array_write (out_buf st) (out_buf_pos st) d"
  define buf2 where "buf2 = array_write buf1 p1 [NL]"
  have len: "p1 + 1 \<le> length (out_buf st)" "p1 + 1 + k \<le> n + 1" "length (out_buf st) = n * 2" "0 < n"
    using assms by (auto simp: has_room_def p1_def)
  have len1: "length buf1 = n * 2" using len by (simp add: buf1_def p1_def)
  have "memcpy_out d st = Inr (st\<lparr>out_buf := buf1, out_buf_pos := p1\<rparr>)"
    using len by (simp add: memcpy_out_def buf1_def p1_def)
  moreover have "memcpy_out [NL] (st\<lparr>out_buf := buf1, out_buf_pos := p1\<rparr>) =
      Inr (st\<lparr>out_buf := buf2, out_buf_pos := p1 + 1\<rparr>)"
    using len len1 by (simp add: memcpy_out_def buf2_def)
  ultimately have "emit n d st = Inr (st\<lparr>out_buf := buf2, out_buf_pos := p1 + 1\<rparr>)"
    using len by (simp add: emit_def)
  moreover have "has_room n k (st\<lparr>out_buf := buf2, out_buf_pos := p1 + 1\<rparr>)"
    using len len1 by (simp add: has_room_def buf2_def)
  moreover have "take (p1 + 1) buf2 = take p1 buf1 @ [NL]"
    using take_array_write [of p1 "[NL]" buf1] len len1 by (simp add: buf2_def)
  moreover have "take p1 buf1 = out_bytes st @ d"
    using take_array_write [of "out_buf_pos st" d "out_buf st"] len
    by (simp add: buf1_def p1_def out_bytes_def)
  ultimately show ?thesis
    by (intro exI [of _ buf2] exI [of _ "p1 + 1"]) (simp add: out_line_def)
qed

text \<open>The part of the state flushing changes.\<close>

definition flushed :: "mm_state \<Rightarrow> bytes \<Rightarrow> nat \<Rightarrow> u64 list \<Rightarrow> u64 \<Rightarrow> u64 \<Rightarrow> mm_state" where
  "flushed st buf p tab items ov =
     st\<lparr>out_buf := buf, out_buf_pos := p, global_bm := tab, global_items := items, overflow_count := ov\<rparr>"

lemma count_item_repeated: "global_repeated (count_item miss st) = global_repeated st"
  by (simp add: count_item_def)

lemma flush_line_effect:
  assumes "table_sized (global_size_mask st) (global_bm st)"
    and room: "has_room n (length (fst e) + 1 + k) st"
    and sc: "scan (snd e) (window (global_size_mask st) (snd e)) (global_bm st) = (miss, tab)"
  shows "\<exists>buf p ov. flush_line n e st =
      Inr (flushed st buf p tab (global_items st + (if miss = 1 then 1 else 0)) ov) \<and>
    has_room n k (flushed st buf p tab (global_items st + (if miss = 1 then 1 else 0)) ov) \<and>
    take p buf = out_bytes st @ (if wanted (global_repeated st) miss then out_line (fst e) else [])"
proof -
  define ov where "ov = (if miss = -1 then overflow_count st + 1 else overflow_count st)"
  define st1 where "st1 = count_item miss (st\<lparr>global_bm := tab, overflow_count := ov\<rparr>)"
  have st1: "st1\<lparr>out_buf := buf, out_buf_pos := p\<rparr> =
      flushed st buf p tab (global_items st + (if miss = 1 then 1 else 0)) ov" for buf p
    by (simp add: st1_def count_item_def flushed_def)
  have line: "flush_line n e st = (if wanted (global_repeated st) miss then emit n (fst e) st1 else Inr st1)"
    using assms(1) sc
    by (simp add: flush_line_def hash_insert_scan st1_def ov_def Let_def count_item_repeated)
  have out1: "out_bytes st1 = out_bytes st" "has_room n d st1 = has_room n d st" for d
    by (simp_all add: st1_def count_item_def out_bytes_def has_room_def)
  show ?thesis
  proof (cases "wanted (global_repeated st) miss")
    case True
    have "has_room n (length (fst e) + 1 + k) st1" using room out1 by simp
    from emit_line [OF this] obtain buf p where
      "emit n (fst e) st1 = Inr (st1\<lparr>out_buf := buf, out_buf_pos := p\<rparr>)"
      "has_room n k (st1\<lparr>out_buf := buf, out_buf_pos := p\<rparr>)"
      "take p buf = out_bytes st1 @ out_line (fst e)" by blast
    then show ?thesis using True line out1
      by (intro exI [of _ buf] exI [of _ p] exI [of _ ov]) (simp add: st1)
  next
    case False
    have same: "st1 = st1\<lparr>out_buf := out_buf st, out_buf_pos := out_buf_pos st\<rparr>"
      by (simp add: st1_def count_item_def)
    have "has_room n k st1" using room out1 by (simp add: has_room_def)
    then show ?thesis
      using False line same st1 [where buf = "out_buf st" and p = "out_buf_pos st"]
      by (intro exI [of _ "out_buf st"] exI [of _ "out_buf_pos st"] exI [of _ ov]) (simp add: out_bytes_def)
  qed
qed

lemma flush_all_effect:
  assumes "table_sized (global_size_mask st) (global_bm st)"
    and "has_room n (out_need (map fst es) + k) st"
    and "insert_all (global_size_mask st) (map snd es) (global_bm st) = (ms, tab)"
  shows "\<exists>buf p items ov. flush_all n es st = Inr (flushed st buf p tab items ov) \<and>
    has_room n k (flushed st buf p tab items ov) \<and>
    items = global_items st + of_nat (length (filter (\<lambda>miss. miss = 1) ms)) \<and>
    take p buf = out_bytes st @
      concat (map out_line (picked (map fst es) (map (wanted (global_repeated st)) ms)))"
  using assms
proof (induction es arbitrary: st ms)
  case Nil
  then have "flush_all n [] st =
      Inr (flushed st (out_buf st) (out_buf_pos st) tab (global_items st) (overflow_count st))"
    by (simp add: flushed_def)
  moreover have "has_room n k (flushed st (out_buf st) (out_buf_pos st) tab (global_items st)
      (overflow_count st))" "ms = []"
    using Nil by (simp_all add: has_room_def flushed_def)
  ultimately show ?case
    by (intro exI [of _ "out_buf st"] exI [of _ "out_buf_pos st"] exI [of _ "global_items st"]
        exI [of _ "overflow_count st"]) (simp add: out_bytes_def)
next
  case (Cons e es)
  obtain miss tab1 ms' where sc: "scan (snd e) (window (global_size_mask st) (snd e)) (global_bm st) =
      (miss, tab1)" "insert_all (global_size_mask st) (map snd es) tab1 = (ms', tab)" "ms = miss # ms'"
    using Cons.prems(3) by (auto simp: insert_all_Cons simp del: insert_all.simps(2))
  have "has_room n (length (fst e) + 1 + (out_need (map fst es) + k)) st"
    using Cons.prems(2) by (simp add: ac_simps)
  from flush_line_effect [OF Cons.prems(1) this sc(1)] obtain buf p ov where
    line: "flush_line n e st = Inr (flushed st buf p tab1 (global_items st + (if miss = 1 then 1 else 0)) ov)"
      "has_room n (out_need (map fst es) + k)
        (flushed st buf p tab1 (global_items st + (if miss = 1 then 1 else 0)) ov)"
      "take p buf = out_bytes st @ (if wanted (global_repeated st) miss then out_line (fst e) else [])"
    by blast
  define st1 where "st1 = flushed st buf p tab1 (global_items st + (if miss = 1 then 1 else 0)) ov"
  have "table_sized (global_size_mask st1) (global_bm st1)"
    using Cons.prems(1) scan_length [OF sc(1)] by (simp add: st1_def flushed_def table_sized_def)
  from Cons.IH [OF this line(2) [folded st1_def], of ms'] obtain buf' p' items' ov' where
    rest: "flush_all n es st1 = Inr (flushed st1 buf' p' tab items' ov')"
      "has_room n k (flushed st1 buf' p' tab items' ov')"
      "items' = global_items st1 + of_nat (length (filter (\<lambda>miss. miss = 1) ms'))"
      "take p' buf' = out_bytes st1 @
        concat (map out_line (picked (map fst es) (map (wanted (global_repeated st1)) ms')))"
    using sc(2) by (auto simp: st1_def flushed_def)
  have "flushed st1 b q tab i v = flushed st b q tab i v" for b q i v
    by (simp add: st1_def flushed_def)
  moreover have "out_bytes st1 = take p buf" "global_repeated st1 = global_repeated st"
    "global_items st1 = global_items st + (if miss = 1 then 1 else 0)"
    by (simp_all add: st1_def flushed_def out_bytes_def)
  ultimately show ?case
    using rest line(1,3) sc(3)
    by (intro exI [of _ buf'] exI [of _ p'] exI [of _ items'] exI [of _ ov'])
      (simp flip: st1_def)
qed

section \<open>The queue\<close>

definition queued :: "mm_state \<Rightarrow> c_line list" where
  "queued st = take (c_pos st) (c_lines st)"

definition queue_ok :: "bytes \<Rightarrow> mm_state \<Rightarrow> bool" where
  "queue_ok buf st \<longleftrightarrow> c_pos st < C_LINE_SZ \<and> length (c_lines st) = C_LINE_SZ \<and>
     (\<forall>c \<in> set (queued st). in_buf buf c)"

definition hashed :: "(bytes \<Rightarrow> u64) \<Rightarrow> bytes list \<Rightarrow> (bytes \<times> u64) list" where
  "hashed hf ls = map (\<lambda>l. (l, hf l)) ls"

text \<open>
  Adding a line without force: flushing the queue afterwards, and then what follows, is
  flushing the old queue, the line, and what follows.
\<close>

lemma process_line_queue:
  assumes ok: "queue_ok buf st" and "s + l \<le> length buf"
    and all: "flush_all n (map (entry buf) (queued st) @ (take l (drop s buf), h) # es) st = Inr F"
  shows "\<exists>st'. process_line n buf (Some (s, l, h)) False st = Inr (0, st') \<and> queue_ok buf st' \<and>
    (\<exists>a b c. flush_all n (map (entry buf) (queued st') @ es) st' = Inr (queue_upd a b c F))"
proof -
  define c where "c = \<lparr>c_s = s, c_l = l, c_h = h\<rparr>"
  define st1 where "st1 = queue_upd (line_count st + 1) ((c_lines st)[c_pos st := c]) (c_pos st + 1) st"
  have pos: "c_pos st < C_LINE_SZ" "length (c_lines st) = C_LINE_SZ" using ok by (auto simp: queue_ok_def)
  have add: "(case Some (s, l, h) of None \<Rightarrow> Inr st | Some (s, l, h) \<Rightarrow>
      (if c_pos st < length (c_lines st) then
         Inr (st\<lparr>line_count := line_count st + 1,
                c_lines := (c_lines st)[c_pos st := \<lparr>c_s = s, c_l = l, c_h = h\<rparr>],
                c_pos := c_pos st + 1\<rparr>)
       else Inl OutOfBounds)) = (Inr st1 :: mm_stop + mm_state)"
    using pos by (simp add: st1_def queue_upd_def c_def)
  have pend: "queued st1 = queued st @ [c]"
    using pos by (simp add: queued_def st1_def queue_upd_def take_Suc_conv_app_nth)
  have in1: "\<forall>c \<in> set (queued st1). in_buf buf c"
    using ok assms(2) by (auto simp: pend queue_ok_def in_buf_def c_def)
  have ent: "entry buf c = (take l (drop s buf), h)" by (simp add: entry_def c_def)
  obtain G where G: "flush_all n (map (entry buf) (queued st1)) st = Inr G" "flush_all n es G = Inr F"
    using all by (auto simp: flush_all_append pend ent rbind_assoc rbind_eq_Inr_iff)
  have q1: "flush_all n (map (entry buf) (queued st1)) st1 =
      Inr (queue_upd (line_count st + 1) ((c_lines st)[c_pos st := c]) (c_pos st + 1) G)"
    using G(1) flush_all_queue [of n "map (entry buf) (queued st1)" "line_count st + 1"
        "(c_lines st)[c_pos st := c]" "c_pos st + 1" st, folded st1_def] by simp
  show ?thesis
  proof (cases "c_pos st1 = C_LINE_SZ")
    case True
    define st2 where "st2 = queue_upd (line_count st + 1) ((c_lines st)[c_pos st := c]) 0 G"
    have "min (c_pos st1) C_LINE_SZ = c_pos st1" using True by simp
    then have "process_line n buf (Some (s, l, h)) False st = Inr (0, st2)"
      using True q1 flush_loop_all [OF in1, of n st1]
      unfolding process_line_def add by (simp add: queued_def st2_def queue_upd_def)
    moreover have "queue_ok buf st2" "queued st2 = []"
      using pos by (simp_all add: queue_ok_def st2_def queue_upd_def queued_def C_LINE_SZ_def)
    moreover have "flush_all n es st2 = Inr (queue_upd (line_count st + 1) ((c_lines st)[c_pos st := c]) 0 F)"
      using G(2) by (simp add: st2_def flush_all_queue)
    ultimately show ?thesis by auto
  next
    case False
    then have "process_line n buf (Some (s, l, h)) False st = Inr (0, st1)"
      unfolding process_line_def add by simp
    moreover have "queue_ok buf st1"
      using pos in1 False by (simp add: queue_ok_def) (simp add: st1_def queue_upd_def)
    moreover have "flush_all n (map (entry buf) (queued st1) @ es) st1 =
        Inr (queue_upd (line_count st + 1) ((c_lines st)[c_pos st := c]) (c_pos st + 1) F)"
      using q1 G(2) by (simp add: flush_all_append flush_all_queue)
    ultimately show ?thesis by blast
  qed
qed

text \<open>What a forced call writes, after the flush.\<close>

definition write_rest :: "mm_state \<Rightarrow> int \<times> mm_state" where
  "write_rest st =
     (if out_buf_pos st \<noteq> 0 then
        (case write_out st of (r, st) \<Rightarrow> if r \<le> 0 then (-1, st) else (0, st\<lparr>out_buf_pos := 0\<rparr>))
      else (0, st))"

lemma process_line_None:
  assumes "queue_ok buf st" "flush_all n (map (entry buf) (queued st)) st = Inr F"
  shows "process_line n buf None True st = Inr (write_rest (F\<lparr>c_pos := 0\<rparr>))"
proof -
  have "\<forall>c \<in> set (queued st). in_buf buf c" "min (c_pos st) C_LINE_SZ = c_pos st"
    using assms(1) by (auto simp: queue_ok_def)
  then show ?thesis
    using assms(2) flush_loop_all [of "queued st" buf n st]
    by (simp add: process_line_def write_rest_def split_beta flip: queued_def)
qed

lemma process_line_forced:
  assumes "queue_ok buf st" "s + l \<le> length buf" "c_pos st = 0"
    and "flush_all n [(take l (drop s buf), h)] st = Inr F"
  shows "\<exists>a b. length b = C_LINE_SZ \<and>
    process_line n buf (Some (s, l, h)) True st = Inr (write_rest (queue_upd a b 0 F))"
proof -
  define c where "c = \<lparr>c_s = s, c_l = l, c_h = h\<rparr>"
  define st1 where "st1 = queue_upd (line_count st + 1) ((c_lines st)[0 := c]) 1 st"
  have len: "0 < length (c_lines st)" "take 1 ((c_lines st)[0 := c]) = [c]"
    using assms(1) by (auto simp: queue_ok_def C_LINE_SZ_def take_Suc_conv_app_nth)
  have "flush_loop n buf [c] st1 = Inr (queue_upd (line_count st + 1) ((c_lines st)[0 := c]) 1 F)"
    using assms(2,4) flush_loop_all [of "[c]" buf n st1]
    by (simp add: in_buf_def entry_def c_def st1_def flush_line_queue rbind_rmap)
      (simp add: rbind_eq_Inr_iff rmap_def)
  moreover have "st\<lparr>line_count := line_count st + 1, c_lines := (c_lines st)[0 := c], c_pos := 1\<rparr> = st1"
    by (simp add: st1_def queue_upd_def)
  moreover have "min 1 C_LINE_SZ = 1" by (simp add: C_LINE_SZ_def)
  ultimately have "process_line n buf (Some (s, l, h)) True st =
      Inr (write_rest (queue_upd (line_count st + 1) ((c_lines st)[0 := c]) 0 F))"
    using assms(3) len
    by (simp add: process_line_def write_rest_def split_beta st1_def queue_upd_def c_def)
  moreover have "length ((c_lines st)[0 := c]) = C_LINE_SZ"
    using assms(1) by (simp add: queue_ok_def)
  ultimately show ?thesis by blast
qed

lemma queue_upd_twice [simp]: "queue_upd a b c (queue_upd a' b' c' st) = queue_upd a b c st"
  by (simp add: queue_upd_def)

lemma flush_all_frame:
  assumes "flush_all n es st = Inr F"
  shows "F = queue_upd (line_count st) (c_lines st) (c_pos st) F"
proof -
  have "st = queue_upd (line_count st) (c_lines st) (c_pos st) st" by (simp add: queue_upd_def)
  then have "flush_all n es st =
      rmap (queue_upd (line_count st) (c_lines st) (c_pos st)) (flush_all n es st)"
    using flush_all_queue by metis
  then show ?thesis using assms by simp
qed

context line_finder begin

lemma find_loop_lines:
  assumes "cut_lines [] (take (buf_sz - buf_pos) (drop buf_pos buf)) = (ls, rest)"
    and "buf_pos \<le> buf_sz" "buf_sz \<le> length buf" "queue_ok buf st"
    and "flush_all n (map (entry buf) (queued st) @ hashed hf ls) st = Inr F"
  shows "\<exists>st'. find_loop fnd n buf buf_pos buf_sz 0 st = Inr (buf_sz - length rest, 0, st') \<and>
    queue_ok buf st' \<and> (\<exists>a b c. flush_all n (map (entry buf) (queued st')) st' = Inr (queue_upd a b c F))"
  using assms
proof (induction "buf_sz - buf_pos" arbitrary: buf_pos st ls F rule: less_induct)
  case less
  have found: "fnd buf buf_pos (buf_sz - buf_pos) =
    (case memchr (drop buf_pos buf) NL (buf_sz - buf_pos) of
       None \<Rightarrow> Inr (None, hf (take (buf_sz - buf_pos) (drop buf_pos buf)))
     | Some c \<Rightarrow> Inr (Some c, hf (take c (drop buf_pos buf))))"
    using less.prems(2,3) by (intro finds) simp
  show ?case
  proof (cases "memchr (drop buf_pos buf) NL (buf_sz - buf_pos)")
    case None
    then have "ls = []" "length rest = buf_sz - buf_pos"
      using cut_lines_None [OF None] less.prems(1-3) by auto
    then have "find_loop fnd n buf buf_pos buf_sz 0 st = Inr (buf_sz - length rest, 0, st)"
      using None found less.prems(2) by (simp add: find_loop.simps [of _ _ _ buf_pos])
    moreover have "flush_all n (map (entry buf) (queued st)) st =
        Inr (queue_upd (line_count st) (c_lines st) (c_pos st) F)"
      using less.prems(5) flush_all_frame [OF less.prems(5)] \<open>ls = []\<close> by (simp add: hashed_def)
    ultimately show ?thesis using less.prems(4) by blast
  next
    case (Some k)
    have k: "k < buf_sz - buf_pos" using Some by (simp add: memchr_Some)
    define line where "line = take k (drop buf_pos buf)"
    obtain ls' where cut: "cut_lines [] (take (buf_sz - (buf_pos + k + 1)) (drop (buf_pos + k + 1) buf)) =
        (ls', rest)" "ls = line # ls'"
      using cut_lines_Some [OF Some less.prems(3)] less.prems(1) unfolding line_def
      by (metis Pair_inject surj_pair)
    have "flush_all n (map (entry buf) (queued st) @ (take k (drop buf_pos buf), hf line) # hashed hf ls') st =
        Inr F"
      using less.prems(5) cut(2) by (simp add: hashed_def line_def)
    moreover have "buf_pos + k \<le> length buf" using k less.prems(3) by simp
    ultimately obtain st1 a b c where st1:
      "process_line n buf (Some (buf_pos, k, hf line)) False st = Inr (0, st1)" "queue_ok buf st1"
      "flush_all n (map (entry buf) (queued st1) @ hashed hf ls') st1 = Inr (queue_upd a b c F)"
      using process_line_queue [OF less.prems(4)] by blast
    have "find_loop fnd n buf buf_pos buf_sz 0 st = find_loop fnd n buf (buf_pos + k + 1) buf_sz 0 st1"
      using Some found less.prems(2) st1(1)
      by (simp add: find_loop.simps [of _ _ _ buf_pos] or_res_def line_def)
    moreover obtain st' a' b' c' where
      "find_loop fnd n buf (buf_pos + k + 1) buf_sz 0 st1 = Inr (buf_sz - length rest, 0, st')"
      "queue_ok buf st'"
      "flush_all n (map (entry buf) (queued st')) st' = Inr (queue_upd a' b' c' (queue_upd a b c F))"
    proof -
      have "buf_sz - (buf_pos + k + 1) < buf_sz - buf_pos" "buf_pos + k + 1 \<le> buf_sz" using k by auto
      from less.hyps [OF this(1) cut(1) this(2) less.prems(3) st1(2,3)] that show thesis by blast
    qed
    ultimately show ?thesis by auto
  qed
qed

end

section \<open>One turn of the input loop\<close>

text \<open>The state between two turns, and the state after the lines \<open>ls\<close> have been flushed.\<close>

definition loop_ok :: "nat \<Rightarrow> mm_state \<Rightarrow> bool" where
  "loop_ok n st \<longleftrightarrow> 0 < n \<and> length (out_buf st) = n * 2 \<and> out_buf_pos st = 0 \<and> c_pos st = 0 \<and>
     length (c_lines st) = C_LINE_SZ \<and> table_sized (global_size_mask st) (global_bm st)"

definition batch ::
    "nat \<Rightarrow> mm_state \<Rightarrow> bytes list \<Rightarrow> int list \<Rightarrow> u64 list \<Rightarrow> mm_state \<Rightarrow> bool" where
  "batch n st ls ms tab st' \<longleftrightarrow>
     loop_ok n (st'\<lparr>out_buf_pos := 0\<rparr>) \<and>
     out_bytes st' = concat (map out_line (picked ls (map (wanted (global_repeated st)) ms))) \<and>
     out_buf_pos st' = length (out_bytes st') \<and>
     global_bm st' = tab \<and> global_size_mask st' = global_size_mask st \<and>
     global_repeated st' = global_repeated st \<and>
     global_items st' = global_items st + of_nat (length (filter (\<lambda>miss. miss = 1) ms)) \<and>
     written st' = written st \<and> write_results st' = write_results st"

lemma loop_ok_queue:
  assumes "loop_ok n st"
  shows "queue_ok buf st" "queued st = []" "has_room n (n + 1) st" "out_bytes st = []"
  using assms by (auto simp: loop_ok_def queue_ok_def queued_def has_room_def out_bytes_def C_LINE_SZ_def)

lemma flush_batch:
  assumes "loop_ok n st" "out_need ls \<le> n + 1"
    and "insert_all (global_size_mask st) (map hf ls) (global_bm st) = (ms, tab)"
  shows "\<exists>F. flush_all n (hashed hf ls) st = Inr F \<and>
    (\<forall>a b. length b = C_LINE_SZ \<longrightarrow> batch n st ls ms tab (queue_upd a b 0 F))"
proof -
  have sized: "table_sized (global_size_mask st) (global_bm st)" using assms(1) by (simp add: loop_ok_def)
  have lines: "map fst (hashed hf ls) = ls" "map snd (hashed hf ls) = map hf ls"
    by (simp_all add: hashed_def comp_def)
  have "has_room n (out_need (map fst (hashed hf ls)) + (n + 1 - out_need ls)) st"
    using assms(2) loop_ok_queue(3) [OF assms(1)] by (simp add: lines)
  from flush_all_effect [OF sized this, of ms tab] obtain buf p items ov where F:
    "flush_all n (hashed hf ls) st = Inr (flushed st buf p tab items ov)"
    "has_room n (n + 1 - out_need ls) (flushed st buf p tab items ov)"
    "items = global_items st + of_nat (length (filter (\<lambda>miss. miss = 1) ms))"
    "take p buf = out_bytes st @ concat (map out_line (picked ls (map (wanted (global_repeated st)) ms)))"
    using assms(3) by (auto simp: lines)
  have "length tab = length (global_bm st)" using insert_all_length [OF assms(3)] by simp
  moreover have "length (take p buf) = p" using F(2) by (simp add: has_room_def flushed_def)
  ultimately have "batch n st ls ms tab (queue_upd a b 0 (flushed st buf p tab items ov))"
    if "length b = C_LINE_SZ" for a b
    using that F(2-4) assms(1) loop_ok_queue(4) [OF assms(1)]
    by (simp add: batch_def loop_ok_def flushed_def queue_upd_def out_bytes_def has_room_def table_sized_def)
  then show ?thesis using F(1) by blast
qed

text \<open>\<open>write\<close>: when all bytes are taken, and in general.\<close>

lemma write_rest_all:
  assumes "batch n st ls ms tab st'" "write_results st = []"
  shows "\<exists>st2. write_rest st' = (0, st2) \<and> loop_ok n st2 \<and> global_bm st2 = tab \<and>
    global_size_mask st2 = global_size_mask st \<and> global_repeated st2 = global_repeated st \<and>
    global_items st2 = global_items st + of_nat (length (filter (\<lambda>miss. miss = 1) ms)) \<and>
    written st2 = written st @ concat (map out_line (picked ls (map (wanted (global_repeated st)) ms))) \<and>
    write_results st2 = []"
proof (cases "out_buf_pos st' = 0")
  case True
  then have "write_rest st' = (0, st')" "loop_ok n st'" "out_bytes st' = []"
    using assms(1) by (auto simp: write_rest_def batch_def loop_ok_def out_bytes_def)
  then show ?thesis using assms by (auto simp: batch_def)
next
  case False
  define st2 where "st2 = st'\<lparr>written := written st' @ out_bytes st', write_results := [], out_buf_pos := 0\<rparr>"
  have "write_results st' = []" using assms by (simp add: batch_def)
  then have "write_out st' =
      (int (out_buf_pos st'), st'\<lparr>written := written st' @ out_bytes st', write_results := []\<rparr>)"
    by (simp add: write_out_def out_bytes_def)
  then have "write_rest st' = (0, st2)"
    using False by (simp add: write_rest_def st2_def)
  then show ?thesis using assms by (auto simp: batch_def st2_def loop_ok_def)
qed

lemma write_rest_any:
  assumes "batch n st ls ms tab st'" "write_rest st' = (r, st2)"
  shows "(r = 0 \<or> r = -1) \<and> (r = 0 \<longrightarrow> loop_ok n st2) \<and> (ls = [] \<longrightarrow> r = 0) \<and> global_bm st2 = tab \<and>
    table_sized (global_size_mask st2) (global_bm st2) \<and>
    global_size_mask st2 = global_size_mask st \<and> global_repeated st2 = global_repeated st \<and>
    global_items st2 = global_items st + of_nat (length (filter (\<lambda>miss. miss = 1) ms))"
  using assms
  by (auto simp: write_rest_def write_out_def batch_def loop_ok_def Let_def picked_def out_bytes_def
      split: if_splits list.splits)

text \<open>The hash of the bytes up to the first newline: what a line finder computes for the whole buffer.\<close>

definition whole_hash :: "(bytes \<Rightarrow> u64) \<Rightarrow> bytes \<Rightarrow> u64" where
  "whole_hash hf buf = hf (takeWhile (\<lambda>c. c \<noteq> NL) buf)"

context line_finder begin

lemma find_whole_hash: "\<exists>nl. fnd buf 0 (length buf) = Inr (nl, whole_hash hf buf)"
proof (cases "memchr buf NL (length buf)")
  case None
  then have "takeWhile (\<lambda>c. c \<noteq> NL) buf = buf"
    by (auto simp: memchr_None takeWhile_eq_all_conv)
  then show ?thesis using finds [of 0 "length buf" buf] None
    by (simp only: drop_0 take_all le_refl option.case add_0 whole_hash_def) simp
next
  case (Some k)
  then have k: "k < length buf" "buf ! k = NL" "NL \<notin> set (take k buf)" by (auto simp: memchr_Some)
  have "takeWhile (\<lambda>c. c \<noteq> NL) (take k buf @ buf ! k # drop (Suc k) buf) = take k buf"
    using k by (subst takeWhile_append2) auto
  then have "takeWhile (\<lambda>c. c \<noteq> NL) buf = take k buf" using k(1) by (simp add: id_take_nth_drop [symmetric])
  then show ?thesis using finds [of 0 "length buf" buf] Some by (simp add: whole_hash_def)
qed

text \<open>The forced call for the whole buffer, and the lines of one read with their forced flush.\<close>

lemma whole_buffer:
  assumes "loop_ok n st" "length buf = n"
    and "insert_all (global_size_mask st) [whole_hash hf buf] (global_bm st) = (ms, tab)"
  shows "\<exists>st'. process_line n buf (Some (0, n, whole_hash hf buf)) True st = Inr (write_rest st') \<and>
    batch n st [buf] ms tab st'"
proof -
  have queue: "queue_ok buf st" "c_pos st = 0" "length (c_lines st) = C_LINE_SZ"
    using loop_ok_queue(1) [OF assms(1)] assms(1) by (auto simp: loop_ok_def)
  have "insert_all (global_size_mask st) (map (\<lambda>_. whole_hash hf buf) [buf]) (global_bm st) = (ms, tab)"
    using assms(3) by simp
  from flush_batch [OF assms(1) _ this] obtain F where
    "flush_all n (hashed (\<lambda>_. whole_hash hf buf) [buf]) st = Inr F"
    and b: "\<forall>a b. length b = C_LINE_SZ \<longrightarrow> batch n st [buf] ms tab (queue_upd a b 0 F)"
    using assms(2) by auto
  then have "flush_all n [(take n (drop 0 buf), whole_hash hf buf)] st = Inr F"
    using assms(2) by (simp add: hashed_def)
  from process_line_forced [OF queue(1) _ queue(2) this] show ?thesis
    using assms(2) b by auto
qed

lemma read_lines:
  assumes "loop_ok n st" "length buf = n" "buf_sz \<le> n" "cut_lines [] (take buf_sz buf) = (ls, rest)"
    and "insert_all (global_size_mask st) (map hf ls) (global_bm st) = (ms, tab)"
  shows "\<exists>st1 st2. find_loop fnd n buf 0 buf_sz 0 st = Inr (buf_sz - length rest, 0, st1) \<and>
    process_line n buf None True st1 = Inr (write_rest st2) \<and> batch n st ls ms tab st2"
proof -
  have "out_need ls + length rest = buf_sz"
    using cut_lines_length [OF assms(4)] assms(2,3) by (simp add: out_need_def)
  then obtain F where F: "flush_all n (hashed hf ls) st = Inr F"
    "\<forall>a b. length b = C_LINE_SZ \<longrightarrow> batch n st ls ms tab (queue_upd a b 0 F)"
    using flush_batch [OF assms(1) _ assms(5)] assms(3) by auto
  note queue = loop_ok_queue [OF assms(1)]
  have "flush_all n (map (entry buf) (queued st) @ hashed hf ls) st = Inr F"
    using F(1) queue(2) by simp
  from find_loop_lines [OF _ _ _ queue(1) this, where buf_sz = buf_sz and buf_pos = 0 and rest = rest] obtain st1 a b c where st1:
    "find_loop fnd n buf 0 buf_sz 0 st = Inr (buf_sz - length rest, 0, st1)" "queue_ok buf st1"
    "flush_all n (map (entry buf) (queued st1)) st1 = Inr (queue_upd a b c F)"
    using assms(2-4) by auto
  have "b = c_lines st1"
    using arg_cong [OF flush_all_frame [OF st1(3)], of c_lines] by (simp add: queue_upd_def)
  then have "length b = C_LINE_SZ" using st1(2) by (simp add: queue_ok_def)
  moreover have "process_line n buf None True st1 = Inr (write_rest (queue_upd a b 0 F))"
    using process_line_None [OF st1(2,3)] by (simp add: queue_upd_def)
  ultimately show ?thesis using st1(1) F(2) by blast
qed

text \<open>
  A whole turn: \<open>buf2\<close> is the buffer after the memmove, its first bytes the unfinished line.
\<close>

lemma main_loop_turn:
  assumes "loop_ok n st" "length buf = n" "buf_pos < n" "NL \<notin> set (take buf_pos buf)"
    and rd: "os_read ins (n - buf_pos) = (r, d, ins')" "0 \<le> r"
    and cut: "cut_lines (take buf_pos buf) d = (ls, rest)"
    and ins: "insert_all (global_size_mask st) (map hf ls) (global_bm st) = (ms, tab)"
  shows "\<exists>buf2 st2 p st3. length buf2 = n \<and> length rest \<le> n \<and> take (length rest) buf2 = rest \<and>
    NL \<notin> set rest \<and> out_need ls + length rest \<le> n \<and>
    batch n st ls ms tab st2 \<and> write_rest st2 = (p, st3) \<and>
    main_loop fnd n mmap_ok threshold ins buf buf_pos 0 thr st =
      rbind
        (if length rest = n \<or> r = 0 then
           rbind (process_line n buf2 (Some (0, n, whole_hash hf buf2)) True st3)
             (\<lambda>(q, st). Inr (or_res p q, 0, st))
         else Inr (p, length rest, st3))
        (\<lambda>(res, buf_pos, st).
          if r = 0 then Inr st
          else if global_items st > thr then
            rbind (resize mmap_ok (global_bm st) (global_size_mask st) (overflow_count st))
              (\<lambda>(bm', msk, ov).
                main_loop fnd n mmap_ok threshold ins' buf2 buf_pos res (threshold (msk + 1))
                  (st\<lparr>global_resizes := global_resizes st + 1, global_bm := bm',
                     global_size_mask := msk, overflow_count := ov\<rparr>))
          else main_loop fnd n mmap_ok threshold ins' buf2 buf_pos res thr st)"
proof -
  define acc where "acc = take buf_pos buf"
  define buf1 where "buf1 = array_write buf buf_pos d"
  define buf_sz where "buf_sz = buf_pos + length d"
  have d: "r = int (length d)" "length d \<le> n - buf_pos"
    using rd assms(3) os_read_stream [OF rd(1)] os_read_length [OF rd(1)] by auto
  have lacc: "length acc = buf_pos" using assms(2,3) by (simp add: acc_def)
  have len1: "length buf1 = n" "buf_sz \<le> n"
    using d assms(2,3) by (simp_all add: buf1_def buf_sz_def)
  have content: "take buf_sz buf1 = acc @ d"
    using d assms(2,3) by (simp add: buf1_def buf_sz_def acc_def take_array_write)
  have cut0: "cut_lines [] (take buf_sz buf1) = (ls, rest)"
    using cut_lines_no_nl [of acc "[]" d] assms(4) cut by (simp add: content acc_def)
  obtain pre where pre: "acc @ d = pre @ rest" using cut_lines_suffix [OF cut] by (auto simp: acc_def)
  have lrest: "length rest \<le> buf_sz" using arg_cong [OF pre, of length] lacc by (simp add: buf_sz_def)
  define q where "q = buf_sz - length rest"
  have tail: "take (buf_sz - q) (drop q buf1) = rest" "buf_sz - q = length rest"
  proof -
    have "length pre = q" using lacc arg_cong [OF pre, of length] by (simp add: q_def buf_sz_def)
    then have "drop q (take buf_sz buf1) = rest" using pre content by simp
    then show "take (buf_sz - q) (drop q buf1) = rest" using lrest by (simp add: drop_take q_def)
    show "buf_sz - q = length rest" using lrest by (simp add: q_def)
  qed
  define buf2 where "buf2 = array_write buf1 0 rest"
  have buf2: "length buf2 = n" "take (length rest) buf2 = rest"
    using len1 lrest take_array_write [of 0 rest buf1] by (simp_all add: buf2_def)
  have need: "out_need ls + length rest \<le> n"
    using cut_lines_length [OF cut0] len1 by (simp add: out_need_def)
  from read_lines [OF assms(1) len1 cut0 ins] obtain st1 st2 where st:
    "find_loop fnd n buf1 0 buf_sz 0 st = Inr (q, 0, st1)"
    "process_line n buf1 None True st1 = Inr (write_rest st2)" "batch n st ls ms tab st2"
    unfolding q_def by blast
  obtain p st3 where wr: "write_rest st2 = (p, st3)" by (metis surj_pair)
  have nl: "NL \<notin> set rest" using cut_lines_rest [OF cut] assms(4) by simp
  have nr: "nat r = length d" "\<not> r < 0" using d(1) by simp_all
  have fits: "\<not> length buf < buf_sz" using len1(2) assms(2) by simp
  obtain nl2 where whole: "fnd buf2 0 n = Inr (nl2, whole_hash hf buf2)"
    using find_whole_hash [of buf2] unfolding buf2(1) by blast
  have "main_loop fnd n mmap_ok threshold ins buf buf_pos 0 thr st =
      rbind
        (if length rest = n \<or> r = 0 then
           rbind (process_line n buf2 (Some (0, n, whole_hash hf buf2)) True st3)
             (\<lambda>(q, st). Inr (or_res p q, 0, st))
         else Inr (p, length rest, st3))
        (\<lambda>(res, buf_pos, st).
          if r = 0 then Inr st
          else if global_items st > thr then
            rbind (resize mmap_ok (global_bm st) (global_size_mask st) (overflow_count st))
              (\<lambda>(bm', msk, ov).
                main_loop fnd n mmap_ok threshold ins' buf2 buf_pos res (threshold (msk + 1))
                  (st\<lparr>global_resizes := global_resizes st + 1, global_bm := bm',
                     global_size_mask := msk, overflow_count := ov\<rparr>))
          else main_loop fnd n mmap_ok threshold ins' buf2 buf_pos res thr st)"
    by (subst main_loop.simps)
      (simp only: rd(1) prod.case nr fits if_False if_True Let_def buf1_def [symmetric] buf_sz_def [symmetric]
        st wr whole rbind_simps tail tail(1) [unfolded tail(2)] buf2_def [symmetric] or_res_def [of 0] simp_thms refl)
  moreover have "length rest \<le> n" using lrest len1 by simp
  ultimately show ?thesis using buf2 need st(3) wr nl
    by (intro exI [of _ buf2] exI [of _ st2] exI [of _ p] exI [of _ st3] conjI) assumption+
qed

text \<open>The lines of one read, and the buffer as one more line when it is full.\<close>

lemma full_buffer_lines:
  assumes "batch n st ls ms tab st2" "write_rest st2 = (p, st3)" "write_results st = []"
    and "insert_all (global_size_mask st) (map hf ls) (global_bm st) = (ms, tab)"
    and "length buf2 = n" "take (length rest) buf2 = rest" "NL \<notin> set rest"
  shows "\<exists>st5 ms5 tab5.
    (if length rest = n then
       rbind (process_line n buf2 (Some (0, n, whole_hash hf buf2)) True st3)
         (\<lambda>(q, st). Inr (or_res p q, 0, st))
     else Inr (p, length rest, st3)) = Inr (0, if length rest = n then 0 else length rest, st5) \<and>
    insert_all (global_size_mask st) (map hf (ls @ (if length rest = n then [rest] else [])))
      (global_bm st) = (ms5, tab5) \<and>
    loop_ok n st5 \<and> write_results st5 = [] \<and> global_bm st5 = tab5 \<and>
    global_size_mask st5 = global_size_mask st \<and> global_repeated st5 = global_repeated st \<and>
    global_items st5 = global_items st + of_nat (length (filter (\<lambda>miss. miss = 1) ms5)) \<and>
    written st5 = written st @ concat (map out_line
      (picked (ls @ (if length rest = n then [rest] else [])) (map (wanted (global_repeated st)) ms5)))"
proof -
  from write_rest_all [OF assms(1,3)] assms(2) have st3: "p = 0" "loop_ok n st3"
    "global_bm st3 = tab" "global_size_mask st3 = global_size_mask st"
    "global_repeated st3 = global_repeated st" "write_results st3 = []"
    "global_items st3 = global_items st + of_nat (length (filter (\<lambda>miss. miss = 1) ms))"
    "written st3 = written st @ concat (map out_line (picked ls (map (wanted (global_repeated st)) ms)))"
    by auto
  show ?thesis
  proof (cases "length rest = n")
    case False
    then show ?thesis using st3 assms(4) by (intro exI [of _ st3] exI [of _ ms] exI [of _ tab]) simp
  next
    case True
    then have "buf2 = rest" using assms(5,6) by simp
    moreover have "takeWhile (\<lambda>c. c \<noteq> NL) rest = rest" using assms(7) by (auto simp: takeWhile_eq_all_conv)
    ultimately have h: "whole_hash hf buf2 = hf rest" by (simp only: whole_hash_def)
    obtain ms' tab5 where one: "insert_all (global_size_mask st) [hf rest] tab = (ms', tab5)"
      by (metis surj_pair)
    then have "insert_all (global_size_mask st3) [whole_hash hf buf2] (global_bm st3) = (ms', tab5)"
      by (simp only: h st3)
    from whole_buffer [OF st3(2) assms(5) this] obtain st4 where st4:
      "process_line n buf2 (Some (0, n, whole_hash hf buf2)) True st3 = Inr (write_rest st4)"
      "batch n st3 [buf2] ms' tab5 st4" by blast
    from write_rest_all [OF st4(2) st3(6)] obtain st5 where st5: "write_rest st4 = (0, st5)"
      "loop_ok n st5" "global_bm st5 = tab5" "global_size_mask st5 = global_size_mask st"
      "global_repeated st5 = global_repeated st" "write_results st5 = []"
      "global_items st5 = global_items st3 + of_nat (length (filter (\<lambda>miss. miss = 1) ms'))"
      "written st5 = written st3 @ concat (map out_line (picked [rest] (map (wanted (global_repeated st)) ms')))"
      by (auto simp: st3 \<open>buf2 = rest\<close>)
    have "insert_all (global_size_mask st) (map hf (ls @ [rest])) (global_bm st) = (ms @ ms', tab5)"
      using insert_all_append [OF assms(4), of "[hf rest]"] one by simp
    moreover have "length ls = length ms" using insert_all_length [OF assms(4)] by simp
    ultimately show ?thesis
      using True st3 st4(1) st5
      by (intro exI [of _ st5] exI [of _ "ms @ ms'"] exI [of _ tab5])
        (simp add: or_res_def picked_append)
  qed
qed

lemma unat_add_count: "unat (i + of_nat k :: u64) \<le> unat i + k"
  by (simp add: unat_word_ariths unat_of_nat take_bit_eq_mod)

text \<open>The output of the loop when every write takes all bytes and the table is not resized.\<close>

lemma main_loop_lines:
  assumes "loop_ok n st" "write_results st = []" "length buf = n" "buf_pos < n"
    and "NL \<notin> set (take buf_pos buf)"
    and "insert_all (global_size_mask st) (map hf (lines_of n (take buf_pos buf) (stream_bytes ins)))
      (global_bm st) = (ms, tab)"
    and "unat (global_items st) + length (lines_of n (take buf_pos buf) (stream_bytes ins)) \<le> unat thr"
  shows "\<exists>st' b. main_loop fnd n mmap_ok threshold ins buf buf_pos 0 thr st = Inr st' \<and> length b = n \<and>
    take (length (tail_of n (take buf_pos buf) (stream_bytes ins))) b =
      tail_of n (take buf_pos buf) (stream_bytes ins) \<and>
    written st' = written st @
      concat (map out_line (picked (lines_of n (take buf_pos buf) (stream_bytes ins))
        (map (wanted (global_repeated st)) ms))) @
      (if ends_with_eof ins \<and> wanted (global_repeated st)
           (fst (scan (hf (takeWhile (\<lambda>c. c \<noteq> NL) b))
             (window (global_size_mask st) (hf (takeWhile (\<lambda>c. c \<noteq> NL) b))) tab))
       then out_line b else [])"
  using assms
proof (induction "sum_list (map chunk_size ins)" arbitrary: ins buf buf_pos st ms rule: less_induct)
  case (less ins buf buf_pos st ms)
  obtain r d ins' where rd: "os_read ins (n - buf_pos) = (r, d, ins')" by (metis prod_cases3)
  have pos: "0 < n - buf_pos" using less.prems(4) by simp
  note stream = os_read_stream [OF rd pos] and eof = os_read_eof [OF rd pos]
  define acc where "acc = take buf_pos buf"
  have lacc: "length acc = buf_pos" using less.prems(3,4) by (simp add: acc_def)
  consider "r < 0" | "r = 0" | "0 < r" by linarith
  then show ?case
  proof cases
    case 1
    then have "main_loop fnd n mmap_ok threshold ins buf buf_pos 0 thr st = Inr st"
      by (simp add: main_loop.simps [of _ _ _ _ ins] rd)
    moreover have "stream_bytes ins = []" "\<not> ends_with_eof ins" using 1 stream eof by auto
    ultimately show ?thesis
      using lacc by (intro exI [of _ st] exI [of _ buf]) (simp add: less.prems(3) picked_def flip: acc_def)
  next
    case 2
    then have s: "stream_bytes ins = []" "ends_with_eof ins" "d = []"
      using stream eof os_read_length [OF rd] by auto
    have cut: "cut_lines (take buf_pos buf) d = ([], acc)" by (simp add: s acc_def)
    have tab: "tab = global_bm st" "ms = []" using less.prems(6) by (simp_all add: s)
    have "insert_all (global_size_mask st) (map hf []) (global_bm st) = ([], tab)" by (simp add: tab)
    from main_loop_turn [OF less.prems(1,3-5) rd _ cut this, where mmap_ok = mmap_ok and
        threshold = threshold and thr = thr] 2 obtain buf2 st2 p st3 where
      turn: "length buf2 = n" "take (length acc) buf2 = acc" "batch n st [] [] tab st2"
        "write_rest st2 = (p, st3)"
        "main_loop fnd n mmap_ok threshold ins buf buf_pos 0 thr st =
          rbind (rbind (process_line n buf2 (Some (0, n, whole_hash hf buf2)) True st3)
            (\<lambda>(q, st). Inr (or_res p q, 0 :: nat, st))) (\<lambda>(res, buf_pos, st). Inr st)"
      by auto
    from write_rest_all [OF turn(3) less.prems(2)] turn(4) have st3: "loop_ok n st3"
      "global_bm st3 = tab" "global_size_mask st3 = global_size_mask st"
      "global_repeated st3 = global_repeated st" "written st3 = written st" "write_results st3 = []"
      by (auto simp: picked_def)
    define h where "h = hf (takeWhile (\<lambda>c. c \<noteq> NL) buf2)"
    have h: "whole_hash hf buf2 = h" by (simp add: h_def whole_hash_def)
    obtain miss tab2 where sc: "scan h (window (global_size_mask st) h) tab = (miss, tab2)"
      by (metis surj_pair)
    then have "insert_all (global_size_mask st3) [whole_hash hf buf2] (global_bm st3) = ([miss], tab2)"
      by (simp add: st3 h)
    from whole_buffer [OF st3(1) turn(1) this] obtain st4 where st4:
      "process_line n buf2 (Some (0, n, whole_hash hf buf2)) True st3 = Inr (write_rest st4)"
      "batch n st3 [buf2] [miss] tab2 st4" by blast
    from write_rest_all [OF st4(2) st3(6)] obtain st5 where st5: "write_rest st4 = (0, st5)"
      "written st5 = written st @ (if wanted (global_repeated st) miss then out_line buf2 else [])"
      by (auto simp: st3)
    have "main_loop fnd n mmap_ok threshold ins buf buf_pos 0 thr st = Inr st5"
      using turn(5) st4(1) st5(1) by simp
    then show ?thesis
      using turn(1,2) st5(2) sc
      by (intro exI [of _ st5] exI [of _ buf2]) (simp add: s tab(2) picked_def flip: acc_def h_def)
  next
    case 3
    then have d: "length d \<le> n - buf_pos" "stream_bytes ins = d @ stream_bytes ins'"
      using stream by auto
    obtain ls rest where cut: "cut_lines acc d = (ls, rest)" by (metis surj_pair)
    obtain ms1 tab1 where ins1: "insert_all (global_size_mask st) (map hf ls) (global_bm st) = (ms1, tab1)"
      by (metis surj_pair)
    from main_loop_turn [OF less.prems(1,3-5) rd _ cut [unfolded acc_def] ins1,
        where mmap_ok = mmap_ok and threshold = threshold and thr = thr] 3
    obtain buf2 st2 p st3 where turn: "length buf2 = n" "length rest \<le> n" "take (length rest) buf2 = rest"
        "NL \<notin> set rest" "batch n st ls ms1 tab1 st2" "write_rest st2 = (p, st3)"
        "main_loop fnd n mmap_ok threshold ins buf buf_pos 0 thr st =
          rbind
            (if length rest = n then
               rbind (process_line n buf2 (Some (0, n, whole_hash hf buf2)) True st3)
                 (\<lambda>(q, st). Inr (or_res p q, 0, st))
             else Inr (p, length rest, st3))
            (\<lambda>(res, buf_pos, st).
              if global_items st > thr then
                rbind (resize mmap_ok (global_bm st) (global_size_mask st) (overflow_count st))
                  (\<lambda>(bm', msk, ov).
                    main_loop fnd n mmap_ok threshold ins' buf2 buf_pos res (threshold (msk + 1))
                      (st\<lparr>global_resizes := global_resizes st + 1, global_bm := bm',
                         global_size_mask := msk, overflow_count := ov\<rparr>))
              else main_loop fnd n mmap_ok threshold ins' buf2 buf_pos res thr st)"
      by auto
    from full_buffer_lines [OF turn(5,6) less.prems(2) ins1 turn(1,3,4)] obtain st5 ms5 tab5 where full:
      "(if length rest = n then
          rbind (process_line n buf2 (Some (0, n, whole_hash hf buf2)) True st3)
            (\<lambda>(q, st). Inr (or_res p q, 0, st))
        else Inr (p, length rest, st3)) = Inr (0, if length rest = n then 0 else length rest, st5)"
      and ins5: "insert_all (global_size_mask st)
        (map hf (ls @ (if length rest = n then [rest] else []))) (global_bm st) = (ms5, tab5)"
      and st5: "loop_ok n st5" "write_results st5 = []" "global_bm st5 = tab5"
        "global_size_mask st5 = global_size_mask st" "global_repeated st5 = global_repeated st"
        "global_items st5 = global_items st + of_nat (length (filter (\<lambda>miss. miss = 1) ms5))"
        "written st5 = written st @ concat (map out_line
          (picked (ls @ (if length rest = n then [rest] else [])) (map (wanted (global_repeated st)) ms5)))"
      by blast
    define pre where "pre = ls @ (if length rest = n then [rest] else [])"
    define pos5 where "pos5 = (if length rest = n then 0 else length rest)"
    define acc5 where "acc5 = (if length rest = n then [] else rest)"
    define post where "post = lines_of n acc5 (stream_bytes ins')"
    have acc5: "take pos5 buf2 = acc5" "pos5 < n" "NL \<notin> set acc5"
      using turn(2-4) less.prems(4) by (auto simp: pos5_def acc5_def)
    have lines: "lines_of n acc (stream_bytes ins) = pre @ post"
      using lines_of_cut [OF cut] d lacc less.prems(4) by (simp add: pre_def post_def acc5_def)
    have tail: "tail_of n acc (stream_bytes ins) = tail_of n acc5 (stream_bytes ins')"
      using tail_of_cut [OF cut] d lacc less.prems(4) by (simp add: acc5_def)
    obtain ms6 tab6 where ins6: "insert_all (global_size_mask st) (map hf post) tab5 = (ms6, tab6)"
      by (metis surj_pair)
    have ms: "ms = ms5 @ ms6" "tab = tab6"
      using insert_all_append [OF ins5 [folded pre_def] ins6] less.prems(6)
      by (simp_all add: lines flip: acc_def)
    have len5: "length pre = length ms5" using insert_all_length [OF ins5 [folded pre_def]] by simp
    have items: "unat (global_items st5) \<le> unat (global_items st) + length pre"
      using unat_add_count [of "global_items st" "length (filter (\<lambda>miss. miss = 1) ms5)"]
        length_filter_le [of "\<lambda>miss. miss = 1" ms5] len5 unfolding st5(6) by linarith
    have thr: "unat (global_items st) + length pre + length post \<le> unat thr"
      using less.prems(7) by (simp add: lines flip: acc_def)
    have "main_loop fnd n mmap_ok threshold ins buf buf_pos 0 thr st =
        main_loop fnd n mmap_ok threshold ins' buf2 pos5 0 thr st5"
    proof -
      have "\<not> global_items st5 > thr" using items thr by (simp add: word_less_nat_alt)
      then show ?thesis unfolding turn(7) full pos5_def by simp
    qed
    moreover have smaller: "sum_list (map chunk_size ins') < sum_list (map chunk_size ins)"
      using os_read_smaller [OF rd [symmetric]] 3 by simp
    have "insert_all (global_size_mask st5) (map hf (lines_of n (take pos5 buf2) (stream_bytes ins')))
        (global_bm st5) = (ms6, tab)"
      using ins6 by (simp add: acc5(1) st5 ms(2) flip: post_def)
    moreover have "unat (global_items st5) + length (lines_of n (take pos5 buf2) (stream_bytes ins')) \<le>
        unat thr"
      using items thr by (simp add: acc5(1) flip: post_def)
    moreover have "NL \<notin> set (take pos5 buf2)" by (simp add: acc5)
    ultimately obtain st' b where IH: "main_loop fnd n mmap_ok threshold ins buf buf_pos 0 thr st = Inr st'"
      "length b = n" "take (length (tail_of n acc5 (stream_bytes ins'))) b = tail_of n acc5 (stream_bytes ins')"
      "written st' = written st5 @
        concat (map out_line (picked post (map (wanted (global_repeated st)) ms6))) @
        (if ends_with_eof ins' \<and> wanted (global_repeated st)
             (fst (scan (hf (takeWhile (\<lambda>c. c \<noteq> NL) b))
               (window (global_size_mask st) (hf (takeWhile (\<lambda>c. c \<noteq> NL) b))) tab))
         then out_line b else [])"
      using less.hyps [OF smaller st5(1,2) turn(1) acc5(2)] by (auto simp: acc5(1) st5 post_def)
    have "ends_with_eof ins' = ends_with_eof ins" using eof(2) 3 by simp
    then show ?thesis
      using IH st5(7) [folded pre_def] len5
      by (intro exI [of _ st'] exI [of _ b])
        (simp add: lines tail ms(1) picked_append flip: acc_def)
  qed
qed

text \<open>
  Safety, whatever \<open>write\<close> does and with resizes: no buffer or table is left and the abort is
  not reached, while the input is shorter than \<open>2^51\<close> bytes and the threshold is at least a
  sixteenth of the table.
\<close>

lemma main_loop_safe:
  assumes "loop_ok n st" "length buf = n" "buf_pos < n" "NL \<notin> set (take buf_pos buf)"
    and mmap: "\<forall>j < 60. mmap_ok (2 ^ j)"
    and fill: "\<forall>j < 64. 2 ^ j \<le> 16 * (unat (threshold (2 ^ j)) + 1)"
    and "k < 64" "global_size_mask st = mask k" "thr = threshold (2 ^ k)"
    and "unat (global_items st) + buf_pos + sum_list (map chunk_size ins) \<le> 2 ^ 51"
  shows "\<exists>st'. main_loop fnd n mmap_ok threshold ins buf buf_pos 0 thr st = Inr st'"
  using assms(1-4,7-10)
proof (induction "sum_list (map chunk_size ins)" arbitrary: ins buf buf_pos st k thr rule: less_induct)
  case (less ins buf buf_pos st k thr)
  obtain r d ins' where rd: "os_read ins (n - buf_pos) = (r, d, ins')" by (metis prod_cases3)
  have pos: "0 < n - buf_pos" using less.prems(3) by simp
  define acc where "acc = take buf_pos buf"
  have lacc: "length acc = buf_pos" using less.prems(2,3) by (simp add: acc_def)
  show ?case
  proof (cases "r < 0")
    case True
    then show ?thesis by (simp add: main_loop.simps [of _ _ _ _ ins] rd)
  next
    case False
    obtain ls rest where cut: "cut_lines acc d = (ls, rest)" by (metis surj_pair)
    obtain ms tab where ins: "insert_all (global_size_mask st) (map hf ls) (global_bm st) = (ms, tab)"
      by (metis surj_pair)
    from main_loop_turn [OF less.prems(1-4) rd _ cut [unfolded acc_def] ins,
        where mmap_ok = mmap_ok and threshold = threshold and thr = thr] False
    obtain buf2 st2 p st3 where turn: "length buf2 = n" "length rest \<le> n" "take (length rest) buf2 = rest"
        "NL \<notin> set rest" "out_need ls + length rest \<le> n" "batch n st ls ms tab st2" "write_rest st2 = (p, st3)"
      and run: "main_loop fnd n mmap_ok threshold ins buf buf_pos 0 thr st =
          rbind
            (if length rest = n \<or> r = 0 then
               rbind (process_line n buf2 (Some (0, n, whole_hash hf buf2)) True st3)
                 (\<lambda>(q, st). Inr (or_res p q, 0, st))
             else Inr (p, length rest, st3))
            (\<lambda>(res, buf_pos, st).
              if r = 0 then Inr st
              else if global_items st > thr then
                rbind (resize mmap_ok (global_bm st) (global_size_mask st) (overflow_count st))
                  (\<lambda>(bm', msk, ov).
                    main_loop fnd n mmap_ok threshold ins' buf2 buf_pos res (threshold (msk + 1))
                      (st\<lparr>global_resizes := global_resizes st + 1, global_bm := bm',
                         global_size_mask := msk, overflow_count := ov\<rparr>))
              else main_loop fnd n mmap_ok threshold ins' buf2 buf_pos res thr st)"
      by auto
    note st3 = write_rest_any [OF turn(6,7)]
    have d: "length d \<le> n - buf_pos" "r = int (length d)"
      using os_read_length [OF rd] False by auto
    have need: "out_need ls + length rest = buf_pos + length d"
      using cut_lines_length [OF cut] lacc by (simp add: out_need_def)
    have count: "unat (global_items st3) \<le> unat (global_items st) + length ls"
    proof -
      have "length (filter (\<lambda>miss. miss = 1) ms) \<le> length ls"
        using insert_all_length [OF ins] length_filter_le [of "\<lambda>miss. miss = 1" ms] by simp
      then show ?thesis
        using unat_add_count [of "global_items st" "length (filter (\<lambda>miss. miss = 1) ms)"] st3 by simp
    qed
    have lines: "length ls \<le> out_need ls" by (induction ls) auto
    define b where "b = (length rest = n \<or> r = 0)"
    have mid: "\<exists>res st5. (if b then
           rbind (process_line n buf2 (Some (0, n, whole_hash hf buf2)) True st3)
             (\<lambda>(q, st). Inr (or_res p q, 0, st))
         else Inr (p, length rest, st3)) = Inr (res, if b then 0 else length rest, st5) \<and>
        (res = 0 \<longrightarrow> loop_ok n st5) \<and> table_sized (global_size_mask st5) (global_bm st5) \<and>
        global_size_mask st5 = mask k \<and>
        unat (global_items st5) \<le> unat (global_items st) + length ls + (if b then 1 else 0)"
    proof (cases b)
      case False
      then show ?thesis using st3 count less.prems(6) by auto
    next
      case True
      have "ls = []"
      proof (cases "length rest = n")
        case full: True
        then have "out_need ls = 0" using turn(5) by simp
        then show ?thesis by (cases ls) auto
      next
        case False
        then have "d = []" using True d(2) by (simp add: b_def)
        then show ?thesis using cut by simp
      qed
      then have ok: "loop_ok n st3" "p = 0" using st3 by auto
      obtain ms' tab' where one: "insert_all (global_size_mask st3) [whole_hash hf buf2] (global_bm st3) = (ms', tab')"
        by (metis surj_pair)
      from whole_buffer [OF ok(1) turn(1) one] obtain st4 where st4:
        "process_line n buf2 (Some (0, n, whole_hash hf buf2)) True st3 = Inr (write_rest st4)"
        "batch n st3 [buf2] ms' tab' st4" by blast
      obtain q st5 where q: "write_rest st4 = (q, st5)" by (metis surj_pair)
      note st5 = write_rest_any [OF st4(2) q]
      have "length (filter (\<lambda>miss. miss = 1) ms') \<le> 1"
        using insert_all_length [OF one] length_filter_le [of "\<lambda>miss. miss = 1" ms'] by simp
      then have "unat (global_items st5) \<le> unat (global_items st) + length ls + 1"
        using unat_add_count [of "global_items st3" "length (filter (\<lambda>miss. miss = 1) ms')"] count st5 by simp
      moreover have "table_sized (mask k) (global_bm st5)" "global_size_mask st5 = mask k"
        using st5 st3 less.prems(6) by auto
      ultimately show ?thesis using True ok st4(1) q st5 by (simp add: or_res_def)
    qed
    then obtain res st5 where
      m: "(if b then
           rbind (process_line n buf2 (Some (0, n, whole_hash hf buf2)) True st3)
             (\<lambda>(q, st). Inr (or_res p q, 0, st))
         else Inr (p, length rest, st3)) = Inr (res, if b then 0 else length rest, st5)"
      and ok5: "res = 0 \<Longrightarrow> loop_ok n st5" "table_sized (mask k) (global_bm st5)"
        "global_size_mask st5 = mask k"
        "unat (global_items st5) \<le> unat (global_items st) + length ls + (if b then 1 else 0)"
      by auto
    define pos5 where "pos5 = (if b then 0 else length rest)"
    show ?thesis
    proof (cases "r = 0")
      case True
      then show ?thesis using run m by (simp add: b_def)
    next
      case more: False
      have run5: "main_loop fnd n mmap_ok threshold ins buf buf_pos 0 thr st =
          (if global_items st5 > thr then
            rbind (resize mmap_ok (global_bm st5) (mask k) (overflow_count st5))
              (\<lambda>(bm', msk, ov).
                main_loop fnd n mmap_ok threshold ins' buf2 pos5 res (threshold (msk + 1))
                  (st5\<lparr>global_resizes := global_resizes st5 + 1, global_bm := bm',
                     global_size_mask := msk, overflow_count := ov\<rparr>))
          else main_loop fnd n mmap_ok threshold ins' buf2 pos5 res thr st5)"
        unfolding run m [unfolded b_def] using more by (simp add: ok5(3) pos5_def b_def)
      have total: "sum_list (map chunk_size ins') + length d \<le> sum_list (map chunk_size ins)"
        by (rule os_read_total [OF rd])
      have "0 < length d" using more d(2) by simp
      then have smaller: "sum_list (map chunk_size ins') < sum_list (map chunk_size ins)"
        using total by linarith
      have bytes: "unat (global_items st5) + pos5 + sum_list (map chunk_size ins') \<le> 2 ^ 51"
        "unat (global_items st5) \<le> 2 ^ 51"
      proof -
        have "length ls + pos5 + (if b then 1 else 0) \<le> buf_pos + length d"
        proof (cases b)
          case True
          then have "length rest = n" using more by (simp add: b_def)
          then have "out_need ls = 0" using turn(5) by simp
          then have "ls = []" by (cases ls) auto
          then show ?thesis using True \<open>0 < length d\<close> unfolding pos5_def by (cases d) auto
        qed (use need lines in \<open>simp add: pos5_def\<close>)
        then show "unat (global_items st5) + pos5 + sum_list (map chunk_size ins') \<le> 2 ^ 51"
          using ok5(4) less.prems(8) total by linarith
        then show "unat (global_items st5) \<le> 2 ^ 51" by linarith
      qed
      have buf5: "pos5 < n" "NL \<notin> set (take pos5 buf2)"
        using turn(2-4) less.prems(3) by (auto simp: pos5_def b_def)
      have next_turn: "\<exists>st'. main_loop fnd n mmap_ok threshold ins' buf2 pos5 res (threshold (2 ^ j)) st6 = Inr st'"
        if "j < 64" "global_size_mask st6 = mask j" "res = 0 \<Longrightarrow> loop_ok n st6"
          "global_items st6 = global_items st5" for j st6
      proof (cases "res = 0")
        case True
        then show ?thesis
          using less.hyps [OF smaller that(3) [OF True] turn(1) buf5 that(1,2) refl] bytes(1) that(4) by simp
      next
        case False
        then show ?thesis by (simp add: main_loop.simps [of _ _ _ _ ins'])
      qed
      show ?thesis
      proof (cases "global_items st5 > thr")
        case False
        then show ?thesis using run5 next_turn [OF less.prems(5) ok5(3) ok5(1) refl] less.prems(7) by simp
      next
        case grow: True
        then have "unat (threshold (2 ^ k)) + 1 \<le> 2 ^ 51"
          using bytes(2) less.prems(7) by (simp add: word_less_nat_alt)
        then have "(2 :: nat) ^ k \<le> 2 ^ 55" using fill less.prems(5) by fastforce
        then have k: "k \<le> 55" using power_le_imp_le_exp [of "2 :: nat" k 55] by simp
        obtain tab' ov' where rs:
          "resize mmap_ok (global_bm st5) (mask k) (overflow_count st5) = Inr (tab', mask (Suc k), ov')"
          "table_sized (mask (Suc k)) tab'"
          using resize_sized [of k "global_bm st5" mmap_ok "overflow_count st5"] ok5(2) k mmap by auto
        have "(mask (Suc k) + 1 :: u64) = 2 ^ Suc k" by (simp add: mask_eq_exp_minus_1)
        then show ?thesis
          using run5 grow rs(1) k ok5(1) rs(2)
            next_turn [of "Suc k" "st5\<lparr>global_resizes := global_resizes st5 + 1, global_bm := tab',
                global_size_mask := mask (Suc k), overflow_count := ov'\<rparr>"]
          by (simp add: loop_ok_def)
      qed
    qed
  qed
qed

end

section \<open>The sizes of main\<close>

lemma mask_loop_ends:
  assumes "unat sz \<le> 2 ^ 63" "unat sz \<le> 2 ^ (k + d)" "k + d < 64"
  shows "\<exists>j \<ge> k. j < 64 \<and> mask_loop (2 ^ k) sz = Some (2 ^ j) \<and> unat sz \<le> 2 ^ j"
  using assms(2-)
proof (induction d arbitrary: k)
  case 0
  then have "\<not> 2 ^ k < sz" by (simp add: word_less_nat_alt unat_exp)
  then show ?case using 0 by (auto simp: mask_loop.simps [of "2 ^ k"])
next
  case (Suc d)
  show ?case
  proof (cases "2 ^ k < sz")
    case True
    then obtain j where "Suc k \<le> j" "j < 64" "mask_loop (2 ^ Suc k) sz = Some (2 ^ j)" "unat sz \<le> 2 ^ j"
      using Suc.IH [of "Suc k"] Suc.prems by auto
    then show ?thesis
      using True by (intro exI [of _ j]) (simp add: mask_loop.simps [of "2 ^ k"] mult.commute)
  next
    case False
    then have "unat sz \<le> 2 ^ k" using Suc.prems(2) by (simp add: word_less_nat_alt unat_exp)
    then show ?thesis using False Suc.prems by (auto simp: mask_loop.simps [of "2 ^ k"])
  qed
qed

lemma mask_loop_total:
  assumes "unat sz \<le> 2 ^ 63"
  obtains k where "k < 64" "mask_loop 1 sz = Some (2 ^ k)" "unat sz \<le> 2 ^ k"
  using mask_loop_ends [OF assms, of 0 63] assms by auto

lemma l3_loop_ends:
  assumes "unat l3 < 2 ^ 63" "unat l3 \<le> 2 ^ (k + d + 4)" "k + d < 60"
  shows "\<exists>j < 60. l3_loop (2 ^ k) l3 = Some (2 ^ j)"
  using assms(2-)
proof (induction d arbitrary: k)
  case 0
  have "2 ^ k * 2 * 8 = (2 ^ (k + 4) :: u64)" by (simp add: power_add)
  then have "\<not> 2 ^ k * 2 * 8 < l3"
    using 0 unat_exp [of "k + 4", where ?'a = 64] by (simp add: word_less_nat_alt)
  then show ?case using 0 by (auto simp: l3_loop.simps [of "2 ^ k"])
next
  case (Suc d)
  show ?case
  proof (cases "2 ^ k * 2 * 8 < l3")
    case True
    then show ?thesis
      using Suc.IH [of "Suc k"] Suc.prems by (simp add: l3_loop.simps [of "2 ^ k"] mult.commute)
  next
    case False
    then show ?thesis using Suc.prems by (intro exI [of _ k]) (auto simp: l3_loop.simps [of "2 ^ k"])
  qed
qed

lemma default_size_total:
  assumes "l3_cache < 2 ^ 63"
  obtains sz where "default_size l3_cache = Some sz" "unat sz \<le> 2 ^ 63"
proof (cases "l3_cache \<le> 0")
  case True
  then have "default_size l3_cache = Some (2 ^ 22)" by (simp add: default_size_def)
  then show ?thesis by (rule that) (subst unat_exp, simp_all)
next
  case False
  then have l3: "unat (word_of_int l3_cache :: u64) = nat l3_cache"
    using assms by (simp add: unsigned_of_int take_bit_int_eq_self)
  then have "unat (word_of_int l3_cache :: u64) < 2 ^ 63"
    using False assms by (simp add: nat_less_iff)
  then obtain j where "j < 60" "l3_loop (2 ^ 12) (word_of_int l3_cache) = Some (2 ^ j)"
    using l3_loop_ends [of "word_of_int l3_cache" 12 47] by auto
  moreover have "unat (2 ^ j :: u64) \<le> 2 ^ 63"
    using \<open>j < 60\<close> power_increasing [of j 63 "2 :: nat"] by (simp add: unat_exp)
  ultimately show ?thesis using False by (intro that [of "2 ^ j"]) (simp_all add: default_size_def)
qed

lemma mmuniq_getopt_size:
  assumes "mmuniq_getopt evs opts = Inr opts'" "unat (mm_size opts) \<le> 2 ^ 63"
  shows "unat (mm_size opts') \<le> 2 ^ 63"
  using assms
proof (induction evs opts rule: mmuniq_getopt.induct)
  case (2 arg optarg evs opts)
  have "unat (llabs_u64 (atoll optarg)) \<le> 2 ^ 63"
    using unat_llabs [OF atoll_range(1) atoll_range(2), of optarg] atoll_range [of optarg] by simp
  then show ?case using 2 by (auto split: if_splits)
qed simp

lemma mmuniq_getopt_error: "mmuniq_getopt evs opts = Inl e \<Longrightarrow> \<exists>c. e = Exit c"
  by (induction evs opts rule: mmuniq_getopt.induct) (auto split: if_splits)

lemma start_state_ok:
  assumes "k < 64" "0 < n"
  shows "loop_ok n (start_state n (mask k) rep (replicate (2 ^ k) 0) ws)"
  using assms by (simp add: loop_ok_def start_state_def table_sized_def unat_mask64)

section \<open>Runs of the program\<close>

text \<open>
  The two line finders of the program, each with the hash it computes. For the one with SSE 15 bytes can be
  read behind the input buffer; without them it would fault (lemma \<open>find_sse_over_read\<close>).
\<close>

definition finder_of :: "finder \<Rightarrow> (bytes \<Rightarrow> u64) \<Rightarrow> bool" where
  "finder_of fnd hf \<longleftrightarrow> fnd = find_nl_and_hash_nosse \<and> hf = nosse_hash \<or>
     (\<exists>aesenc behind. 15 \<le> length behind \<and> fnd = find_nl_and_hash_sse aesenc behind \<and> hf = sse_hash aesenc)"

lemma finder_of_line_finder: "finder_of fnd hf \<Longrightarrow> line_finder fnd hf"
  using nosse.line_finder_axioms sse_line_finder by (auto simp: finder_of_def)

text \<open>The lines printed for \<open>ls\<close> with a table of \<open>2 ^ k\<close> slots, and the table at the end.\<close>

definition mmuniq_lines :: "(bytes \<Rightarrow> u64) \<Rightarrow> nat \<Rightarrow> bool \<Rightarrow> bytes list \<Rightarrow> bytes list" where
  "mmuniq_lines hf k rep ls =
     picked ls (map (wanted rep) (fst (insert_all (mask k) (map hf ls) (replicate (2 ^ k) 0))))"

definition mmuniq_table :: "(bytes \<Rightarrow> u64) \<Rightarrow> nat \<Rightarrow> bytes list \<Rightarrow> u64 list" where
  "mmuniq_table hf k ls = snd (insert_all (mask k) (map hf ls) (replicate (2 ^ k) 0))"

definition answer :: "u64 \<Rightarrow> nat \<Rightarrow> u64 list \<Rightarrow> int" where
  "answer h k tab = fst (scan h (window (mask k) h) tab)"

section \<open>Main properties\<close>

text \<open>
  C2: memory safety of \<open>mmuniq\<close>, with bounds. Let the input have at most \<open>2^51\<close> bytes, let \<open>mmap\<close> succeed for
  the tables below \<open>2^60\<close> bytes and fail for size 0, and let the fill rate, which is at least 0.1, give a
  threshold of at least a sixteenth of the table, rounded down. Then, whatever \<open>read\<close> and \<open>write\<close> return, for
  all options and sizes of the cache, and through all resizes, the program ends (all its loops do); it writes
  only to the input buffer, the output buffer, the queue and the table; it reads only from these, and in the
  version with SSE from at most 15 bytes behind the input buffer, which the hypothesis allows it; and it does
  not reach the \<open>abort\<close> of \<open>process_flush\<close>.
\<close>

theorem mmuniq_main_safe:
  assumes "finder_of fnd hf" and "0 < n" and "l3_cache < 2 ^ 63"
    and mmap: "\<forall>j < 60. mmap_ok (2 ^ j)" "\<not> mmap_ok 0"
    and fill: "\<forall>f. \<forall>j < 64. 2 ^ j \<le> 16 * (unat (threshold f (2 ^ j)) + 1)"
    and "sum_list (map chunk_size ins) \<le> 2 ^ 51"
  shows "\<exists>r. mmuniq_main fnd n l3_cache mmap_ok threshold evs ins ws = Some r \<and>
    r \<noteq> Inl OutOfBounds \<and> r \<noteq> Inl Abort"
proof -
  obtain sz where sz: "default_size l3_cache = Some sz" "unat sz \<le> 2 ^ 63"
    using default_size_total [OF assms(3)] .
  define opts0 where "opts0 = \<lparr>mm_size = sz, mm_fill = None, mm_verbose = False, mm_repeated = False\<rparr>"
  show ?thesis
  proof (cases "mmuniq_getopt evs opts0")
    case (Inl e)
    then show ?thesis
      using mmuniq_getopt_error [OF Inl] by (auto simp: mmuniq_main_def sz opts0_def)
  next
    case (Inr opts)
    have "unat (mm_size opts) \<le> 2 ^ 63"
      using mmuniq_getopt_size [OF Inr] sz(2) by (simp add: opts0_def)
    then obtain k where k: "k < 64" "mask_loop 1 (mm_size opts) = Some (2 ^ k)"
      by (rule mask_loop_total)
    have bytes: "2 ^ k * 8 = (2 ^ (k + 3) :: u64)" by (simp add: power_add)
    show ?thesis
    proof (cases "mmap_ok (2 ^ (k + 3))")
      case False
      then show ?thesis
        using Inr k(2) by (simp add: mmuniq_main_def sz bytes Let_def flip: opts0_def)
    next
      case True
      have "k + 3 < 64"
      proof (rule ccontr)
        assume "\<not> k + 3 < 64"
        then have "(2 ^ (k + 3) :: u64) = 0" by simp
        then show False using True mmap(2) by metis
      qed
      then have words: "unat (2 ^ (k + 3) :: u64) div 8 = 2 ^ k"
        using unat_exp [of "k + 3", where ?'a = 64] by (simp add: power_add)
      define st where "st = start_state n (mask k) (mm_repeated opts) (replicate (2 ^ k) 0) ws"
      have "\<exists>st'. main_loop fnd n mmap_ok (threshold (mm_fill opts)) ins (replicate n 0) 0 0
          (threshold (mm_fill opts) (2 ^ k)) st = Inr st'"
        using line_finder.main_loop_safe [OF finder_of_line_finder [OF assms(1)],
            of n st "replicate n 0" 0 mmap_ok "threshold (mm_fill opts)" k] assms(2,7) mmap(1) fill k(1)
          start_state_ok [OF k(1) assms(2), of "mm_repeated opts" ws]
        by (simp add: st_def) (simp add: start_state_def)
      then show ?thesis
        using Inr k(2) True
        by (auto simp: mmuniq_main_def sz bytes words st_def mask_eq_exp_minus_1 Let_def
            simp flip: opts0_def)
    qed
  qed
qed

theorem mmuniq_main_safe_witness:
  "\<exists>r. mmuniq_main find_nl_and_hash_nosse 4 (-1) (\<lambda>s. s \<noteq> 0) (\<lambda>_ m. m) [(118, [])]
      [Data [97, 10, 97, 10], Data [98]] [1, 0] = Some r \<and> r \<noteq> Inl OutOfBounds \<and> r \<noteq> Inl Abort"
  by (rule mmuniq_main_safe [where hf = nosse_hash]) (simp_all add: finder_of_def unat_exp)

text \<open>
  C3: the output of \<open>mmuniq\<close> when \<open>mmap\<close> succeeds, every \<open>write\<close> takes all bytes and the table is not resized,
  because there are no more lines than its threshold. The lines of the stream reach the table in order, whatever
  \<open>read\<close> returned, and the ones it answers as new (with \<open>-D\<close>: as known) are printed. At end of file the program
  handles all \<open>BUF_SZ\<close> bytes of the buffer as one more line: some contents \<open>b\<close> of this length, of which the
  theorem says that they begin with the unterminated rest of the input (behind it is what earlier reads left).
  They are hashed up to their first newline and, depending on the answer of the table, printed as a whole.
\<close>

theorem mmuniq_main_output:
  assumes "finder_of fnd hf" and "0 < n"
    and opts: "default_size l3_cache = Some sz"
      "mmuniq_getopt evs \<lparr>mm_size = sz, mm_fill = None, mm_verbose = False, mm_repeated = False\<rparr> = Inr opts"
      "mask_loop 1 (mm_size opts) = Some (2 ^ k)" "k < 60"
    and mmap: "mmap_ok (2 ^ (k + 3))"
    and few: "length (lines_of n [] (stream_bytes ins)) \<le> unat (threshold (mm_fill opts) (2 ^ k))"
  shows "\<exists>b ov. length b = n \<and>
    take (length (tail_of n [] (stream_bytes ins))) b = tail_of n [] (stream_bytes ins) \<and>
    mmuniq_main fnd n l3_cache mmap_ok threshold evs ins [] = Some (Inr
      (concat (map out_line (mmuniq_lines hf k (mm_repeated opts) (lines_of n [] (stream_bytes ins)))) @
       (if ends_with_eof ins \<and> wanted (mm_repeated opts) (answer (hf (takeWhile (\<lambda>c. c \<noteq> NL) b)) k
            (mmuniq_table hf k (lines_of n [] (stream_bytes ins))))
        then out_line b else []), ov))"
proof -
  have bytes: "2 ^ k * 8 = (2 ^ (k + 3) :: u64)" by (simp add: power_add)
  have words: "unat (2 ^ (k + 3) :: u64) div 8 = 2 ^ k"
    using opts(4) unat_exp [of "k + 3", where ?'a = 64] by (simp add: power_add)
  define ls where "ls = lines_of n [] (stream_bytes ins)"
  define st where "st = start_state n (mask k) (mm_repeated opts) (replicate (2 ^ k) 0) []"
  have st: "loop_ok n st" "global_size_mask st = mask k" "global_bm st = replicate (2 ^ k) 0"
    "global_repeated st = mm_repeated opts" "global_items st = 0" "write_results st = []" "written st = []"
    using start_state_ok [of k n "mm_repeated opts" "[]"] opts(4) assms(2)
    by (simp_all add: st_def) (simp_all add: start_state_def)
  obtain ms tab where ins: "insert_all (mask k) (map hf ls) (replicate (2 ^ k) 0) = (ms, tab)"
    by (metis surj_pair)
  then obtain st' b where run: "main_loop fnd n mmap_ok (threshold (mm_fill opts)) ins (replicate n 0) 0 0
        (threshold (mm_fill opts) (2 ^ k)) st = Inr st'" "length b = n"
      "take (length (tail_of n [] (stream_bytes ins))) b = tail_of n [] (stream_bytes ins)"
      "written st' = concat (map out_line (picked ls (map (wanted (mm_repeated opts)) ms))) @
        (if ends_with_eof ins \<and> wanted (mm_repeated opts) (fst (scan (hf (takeWhile (\<lambda>c. c \<noteq> NL) b))
            (window (mask k) (hf (takeWhile (\<lambda>c. c \<noteq> NL) b))) tab)) then out_line b else [])"
    using line_finder.main_loop_lines [OF finder_of_line_finder [OF assms(1)], of n st "replicate n 0" 0 ins ms
        tab "threshold (mm_fill opts) (2 ^ k)" mmap_ok "threshold (mm_fill opts)"] st assms(2) few
    by (auto simp: ls_def)
  have "mmuniq_main fnd n l3_cache mmap_ok threshold evs ins [] =
      Some (Inr (written st', overflow_count st'))"
    using run(1) opts mmap by (simp add: mmuniq_main_def bytes words st_def mask_eq_exp_minus_1 Let_def)
  then show ?thesis
    using run(2-4) ins
    by (intro exI [of _ b] exI [of _ "overflow_count st'"])
      (simp add: mmuniq_lines_def mmuniq_table_def answer_def flip: ls_def)
qed

theorem mmuniq_main_output_witness:
  "\<exists>b ov. length b = 8 \<and> take 1 b = [98] \<and>
    mmuniq_main find_nl_and_hash_nosse 8 (-1) (\<lambda>_. True) (\<lambda>_ m. m) [(68, [])] [Data [97, 10], Data [98]] [] =
      Some (Inr (concat (map out_line (mmuniq_lines nosse_hash 22 True [[97]])) @
       (if wanted True (answer (nosse_hash (takeWhile (\<lambda>c. c \<noteq> NL) b)) 22
            (mmuniq_table nosse_hash 22 [[97]]))
        then out_line b else []), ov))"
proof -
  have f: "finder_of find_nl_and_hash_nosse nosse_hash" by (simp add: finder_of_def)
  have sz: "default_size (-1) = Some 4194304" by (simp add: default_size_def)
  define opts where "opts = \<lparr>mm_size = 4194304, mm_fill = None, mm_verbose = False, mm_repeated = True\<rparr>"
  have opts: "mmuniq_getopt [(68, [])]
      \<lparr>mm_size = 4194304, mm_fill = None, mm_verbose = False, mm_repeated = False\<rparr> = Inr opts"
    by (simp add: opts_def)
  have mask: "mask_loop 1 (mm_size opts) = Some (2 ^ 22)"
    by (simp add: opts_def mask_loop.simps)
  have lines: "lines_of 8 [] (stream_bytes [Data [97, 10], Data [98]]) = [[97]]"
    "tail_of 8 [] (stream_bytes [Data [97, 10], Data [98]]) = [98]"
    by (simp_all add: NL_def)
  show ?thesis
    using mmuniq_main_output [OF f, of 8 "-1", OF _ sz opts mask, of "\<lambda>_. True"
        "[Data [97, 10], Data [98]]" "\<lambda>_ m. m"]
    by (simp only: lines) (simp add: opts_def)
qed

text \<open>
  For either hash, the printed lines have different hashes when the table can hold the
  hash of every line; while there are at most 4096 lines and not more than slots, they are the
  lines whose hash occurs for the first time, and the first occurrences of the lines
  themselves if different lines have different hashes.
\<close>

theorem mmuniq_first_lines:
  assumes "k < 64" and "\<forall>l \<in> set ls. hash_ok (hf l)"
  shows "distinct (map hf (mmuniq_lines hf k False ls)) \<and> set (mmuniq_lines hf k False ls) \<subseteq> set ls \<and>
    (length ls \<le> min OVERFLOW_AFTER (2 ^ k) \<longrightarrow>
      map hf (mmuniq_lines hf k False ls) = firsts {} (map hf ls) \<and>
      (inj_on hf (set ls) \<longrightarrow> mmuniq_lines hf k False ls = firsts {} ls))"
proof -
  obtain ms tab where ins: "insert_all (mask k) (map hf ls) (replicate (2 ^ k) 0) = (ms, tab)"
    by (metis surj_pair)
  have "table_sized (mask k) (replicate (2 ^ k) 0)"
    using assms(1) by (simp add: table_sized_def unat_mask64)
  from insert_all_feed [OF this ins] have
    feed: "feed table_ins (map hf ls) (mask k, replicate (2 ^ k) 0) = (map (\<lambda>miss. miss = 1) ms, mask k, tab)" .
  have "wanted False = (\<lambda>miss. miss = 1)" by (rule ext) (simp add: wanted_def)
  then have "mmuniq_lines hf k False ls = picked ls (map (\<lambda>miss. miss = 1) ms)"
    by (simp add: mmuniq_lines_def ins)
  then show ?thesis using table_first_lines [OF assms feed] by simp
qed

theorem mmuniq_first_lines_witness:
  "distinct (map nosse_hash (mmuniq_lines nosse_hash 4 False [[97], [97]])) \<and>
   mmuniq_lines nosse_hash 4 False [[97], [97]] = firsts {} [[97], [97]]"
proof -
  have "nosse_hash [97] = 15152752219305006271"
    by (simp add: nosse_hash_def siphash24_def) (simp add: sip_eval)
  then have ok: "\<forall>l \<in> set [[97], [97]]. hash_ok (nosse_hash l)"
    by (simp add: hash_ok_def OVERFLOW_AFTER_def)
  show ?thesis using mmuniq_first_lines [OF _ ok, of 4] by (simp add: OVERFLOW_AFTER_def)
qed

text \<open>
  Both versions of \<open>find_nl_and_hash\<close> find the first newline among the \<open>sz\<close> bytes at
  \<open>off\<close> and compute a hash of the bytes before it (or of all of them) that depends on those
  bytes only: not on what follows the newline, nor, in the SSE version, on the up to 15 bytes
  after the range that its last load reads.
\<close>

theorem find_nl_and_hash_line:
  assumes "finder_of fnd hf" and "off + sz \<le> length buf"
  shows "fnd buf off sz =
    (case memchr (drop off buf) NL sz of
       None \<Rightarrow> Inr (None, hf (take sz (drop off buf)))
     | Some c \<Rightarrow> Inr (Some c, hf (take c (drop off buf))))"
  by (rule line_finder.finds [OF finder_of_line_finder [OF assms(1)] assms(2)])

theorem find_nl_and_hash_line_witness:
  "find_nl_and_hash_sse (\<lambda>x k. rev (vec_xor x k)) (replicate 15 10) [1, 2, 3, 10, 5] 1 4 =
    Inr (Some 2, sse_hash (\<lambda>x k. rev (vec_xor x k)) [2, 3])"
proof -
  have "finder_of (find_nl_and_hash_sse (\<lambda>x k. rev (vec_xor x k)) (replicate 15 10))
      (sse_hash (\<lambda>x k. rev (vec_xor x k)))"
    unfolding finder_of_def by (metis length_replicate order_refl)
  moreover have "memchr (drop 1 [1, 2, 3, 10, 5]) NL 4 = Some 2" by (simp add: NL_def memchr_Some)
  ultimately show ?thesis
    using find_nl_and_hash_line [of _ _ 1 4 "[1, 2, 3, 10, 5]"] by simp
qed

end
