(* ===== verification/Memory.thy ===== *)
theory Memory
  imports Prelude
begin

text \<open>
  The memory of a process as the object-file loaders \<open>2021-03-obj-file/*/loader.c\<close> see it: bytes
  and page protections at 64-bit addresses, and the accesses of C code to it (\<open>memcpy\<close>, loads and
  stores of integers, C strings). An access to an address that is not mapped, or not with the
  protection it needs, is the value \<open>Inl Segv\<close>.

  The lemmas: loads and stores in closed form; \<open>sub_mem\<close>, the order under which every read is
  monotone; \<open>later\<close>, what any sequence of stores keeps; and arithmetic on offsets
  from a base address.
\<close>

unbundle bit_operations_syntax

section \<open>Memory\<close>

datatype prot = Prot (can_read: bool) (can_write: bool) (can_exec: bool)

record memory =
  byte_at :: "u64 \<Rightarrow> u8"
  prot_at :: "u64 \<Rightarrow> prot option"

text \<open>
  How a loader stops: a fault, a division by zero, a string that never ends, or \<open>exit\<close> with
  a code.
\<close>

datatype ld_stop = Segv | Sigfpe | Endless | Exit int

definition ENOENT :: int where "ENOENT = 2"
definition ENOEXEC :: int where "ENOEXEC = 8"
definition EINVAL :: int where "EINVAL = 22"
definition ENOMEM :: int where "ENOMEM = 12"

definition allows :: "memory \<Rightarrow> (prot \<Rightarrow> bool) \<Rightarrow> u64 \<Rightarrow> bool" where
  "allows m p a = (case prot_at m a of None \<Rightarrow> False | Some q \<Rightarrow> p q)"

fun load_bytes :: "memory \<Rightarrow> nat \<Rightarrow> u64 \<Rightarrow> ld_stop + bytes" where
  "load_bytes m 0 a = Inr []"
| "load_bytes m (Suc n) a =
     (if allows m can_read a then rbind (load_bytes m n (a + 1)) (\<lambda>bs. Inr (byte_at m a # bs))
      else Inl Segv)"

fun store_bytes :: "memory \<Rightarrow> u64 \<Rightarrow> bytes \<Rightarrow> ld_stop + memory" where
  "store_bytes m a [] = Inr m"
| "store_bytes m a (b # bs) =
     (if allows m can_write a then store_bytes (m\<lparr>byte_at := (byte_at m)(a := b)\<rparr>) (a + 1) bs
      else Inl Segv)"

definition load16 :: "memory \<Rightarrow> u64 \<Rightarrow> ld_stop + u16" where
  "load16 m a = rbind (load_bytes m 2 a) (\<lambda>bs. Inr (word_of_le bs))"

definition load32 :: "memory \<Rightarrow> u64 \<Rightarrow> ld_stop + u32" where
  "load32 m a = rbind (load_bytes m 4 a) (\<lambda>bs. Inr (word_of_le bs))"

definition load64 :: "memory \<Rightarrow> u64 \<Rightarrow> ld_stop + u64" where
  "load64 m a = rbind (load_bytes m 8 a) (\<lambda>bs. Inr (word_of_le bs))"

definition store32 :: "memory \<Rightarrow> u64 \<Rightarrow> u32 \<Rightarrow> ld_stop + memory" where
  "store32 m a v = store_bytes m a (le_bytes 4 v)"

definition store64 :: "memory \<Rightarrow> u64 \<Rightarrow> u64 \<Rightarrow> ld_stop + memory" where
  "store64 m a v = store_bytes m a (le_bytes 8 v)"

definition memcpy :: "memory \<Rightarrow> u64 \<Rightarrow> u64 \<Rightarrow> u64 \<Rightarrow> ld_stop + memory" where
  "memcpy m dst src n = rbind (load_bytes m (unat n) src) (store_bytes m dst)"

text \<open>
  The bytes of the string at \<open>a\<close>, up to its NUL (\<open>strlen\<close> and \<open>strcmp\<close> read these). The
  counter is the number of addresses left; a string that fills the address space is \<open>Endless\<close>.
\<close>

function cstring_from :: "memory \<Rightarrow> u64 \<Rightarrow> u64 \<Rightarrow> ld_stop + bytes" where
  "cstring_from m k a =
     (if k = 0 then Inl Endless
      else if \<not> allows m can_read a then Inl Segv
      else if byte_at m a = 0 then Inr []
      else rbind (cstring_from m (k - 1) (a + 1)) (\<lambda>bs. Inr (byte_at m a # bs)))"
  by pat_completeness auto
termination by (relation "measure (\<lambda>(_, k, _). unat k)") (auto simp: measure_unat)

declare cstring_from.simps [simp del]

definition cstring :: "memory \<Rightarrow> u64 \<Rightarrow> ld_stop + bytes" where
  "cstring m a = cstring_from m (- 1) a"

section \<open>Loads and stores in closed form\<close>

lemma load_bytes_Inr_iff:
  "load_bytes m n a = Inr bs \<longleftrightarrow>
     (\<forall>i<n. allows m can_read (a + of_nat i)) \<and> bs = map (\<lambda>i. byte_at m (a + of_nat i)) [0..<n]"
proof (induction n arbitrary: a bs)
  case 0
  then show ?case by auto
next
  case (Suc n)
  have all: "(\<forall>i<Suc n. allows m can_read (a + of_nat i)) \<longleftrightarrow>
      allows m can_read a \<and> (\<forall>i<n. allows m can_read (a + 1 + of_nat i))"
    by (simp add: All_less_Suc2 add.assoc) 
  have map: "map (\<lambda>i. byte_at m (a + of_nat i)) [0..<Suc n] =
      byte_at m a # map (\<lambda>i. byte_at m (a + 1 + of_nat i)) [0..<n]"
    by (simp add: map_upt_Suc add.assoc del: upt_Suc)
  show ?case
    unfolding all map by (auto simp: rbind_eq_Inr_iff Suc.IH)
qed

lemma length_load_bytes: "load_bytes m n a = Inr bs \<Longrightarrow> length bs = n"
  by (simp add: load_bytes_Inr_iff)

lemma load_bytes_stop: "load_bytes m n a = Inl e \<Longrightarrow> e = Segv"
  by (induction n arbitrary: a) (auto simp: rbind_eq_Inl_iff split: if_splits)

text \<open>The memory with the bytes \<open>bs\<close> at \<open>a\<close>.\<close>

definition poke :: "u64 \<Rightarrow> bytes \<Rightarrow> memory \<Rightarrow> memory" where
  "poke a bs m = m\<lparr>byte_at := (\<lambda>x. if unat (x - a) < length bs then bs ! unat (x - a)
                                   else byte_at m x)\<rparr>"

lemma prot_at_poke [simp]: "prot_at (poke a bs m) = prot_at m"
  by (simp add: poke_def)

lemma allows_poke [simp]: "allows (poke a bs m) = allows m"
  by (intro ext) (simp add: allows_def)

lemma byte_at_poke:
  "byte_at (poke a bs m) x = (if unat (x - a) < length bs then bs ! unat (x - a) else byte_at m x)"
  by (simp add: poke_def)

lemma poke_Nil [simp]: "poke a [] m = m"
  by (simp add: poke_def)

lemma poke_Cons:
  assumes "length bs < 2 ^ 64"
  shows "poke a (b # bs) m = poke (a + 1) bs (m\<lparr>byte_at := (byte_at m)(a := b)\<rparr>)"
proof -
  have "(if unat (x - a) < Suc (length bs) then (b # bs) ! unat (x - a) else byte_at m x) =
      (if unat (x - (a + 1)) < length bs then bs ! unat (x - (a + 1))
       else ((byte_at m)(a := b)) x)" for x
  proof (cases "x = a")
    case True
    then have "unat (x - (a + 1)) = 2 ^ 64 - 1" by (simp add: unsigned_minus_1_eq_mask mask_eq_exp_minus_1)
    then show ?thesis using True assms by simp
  next
    case False
    then have nz: "x - a \<noteq> 0" by simp
    then have "unat (x - a) = Suc (unat (x - a - 1))"
      using unat_minus_one [OF nz] unat_gt_0 [of "x - a"] nz by linarith
    then show ?thesis using False by (simp add: diff_diff_eq)
  qed
  then show ?thesis by (simp add: poke_def fun_upd_def cong: if_cong)
qed

lemma store_bytes_Inr_iff:
  assumes "length bs \<le> 2 ^ 64"
  shows "store_bytes m a bs = Inr m' \<longleftrightarrow>
    (\<forall>i<length bs. allows m can_write (a + of_nat i)) \<and> m' = poke a bs m"
  using assms
proof (induction bs arbitrary: m a)
  case Nil
  then show ?case by auto
next
  case (Cons b bs)
  have all: "(\<forall>i<length (b # bs). allows m can_write (a + of_nat i)) \<longleftrightarrow>
      allows m can_write a \<and> (\<forall>i<length bs. allows m can_write (a + 1 + of_nat i))"
    by (simp add: All_less_Suc2 add.assoc)
  have al: "allows (m\<lparr>byte_at := (byte_at m)(a := b)\<rparr>) = allows m"
    by (intro ext) (simp add: allows_def)
  show ?case
    using Cons unfolding all by (simp add: al poke_Cons)
qed

lemma store32_Inr_iff:
  "store32 m a v = Inr m' \<longleftrightarrow>
     (\<forall>i<4. allows m can_write (a + of_nat i)) \<and> m' = poke a (le_bytes 4 v) m"
  by (simp add: store32_def store_bytes_Inr_iff)

lemma store64_Inr_iff:
  "store64 m a v = Inr m' \<longleftrightarrow>
     (\<forall>i<8. allows m can_write (a + of_nat i)) \<and> m' = poke a (le_bytes 8 v) m"
  by (simp add: store64_def store_bytes_Inr_iff)

lemma memcpy_Inr_iff:
  "memcpy m dst src n = Inr m' \<longleftrightarrow>
     (\<exists>bs. load_bytes m (unat n) src = Inr bs \<and>
        (\<forall>i<unat n. allows m can_write (dst + of_nat i)) \<and> m' = poke dst bs m)"
proof -
  have "length bs \<le> 2 ^ 64" if "load_bytes m (unat n) src = Inr bs" for bs
    using length_load_bytes [OF that] unat_less_exp [of n] by simp
  then show ?thesis
    by (auto simp: memcpy_def rbind_eq_Inr_iff store_bytes_Inr_iff length_load_bytes)
qed

text \<open>A word that was stored is read back.\<close>

lemma load_poke:
  assumes "\<forall>i<length bs. allows m can_read (a + of_nat i)" "length bs \<le> 2 ^ 64"
  shows "load_bytes (poke a bs m) (length bs) a = Inr bs"
proof -
  have "map (\<lambda>i. byte_at (poke a bs m) (a + of_nat i)) [0..<length bs] = bs"
  proof (rule nth_equalityI)
    fix i assume "i < length (map (\<lambda>i. byte_at (poke a bs m) (a + of_nat i)) [0..<length bs])"
    then have i: "i < length bs" by simp
    then have "unat (of_nat i :: u64) = i"
      using assms(2) by (simp add: unat_of_nat take_bit_nat_eq_self_iff)
    then show "map (\<lambda>i. byte_at (poke a bs m) (a + of_nat i)) [0..<length bs] ! i = bs ! i"
      using i by (simp add: byte_at_poke)
  qed simp
  then show ?thesis
    using assms(1) by (simp add: load_bytes_Inr_iff)
qed

section \<open>The order of memories\<close>

text \<open>Everything that can be read in \<open>m\<close> can be read in \<open>m'\<close>, with the same result.\<close>

definition sub_mem :: "memory \<Rightarrow> memory \<Rightarrow> bool" where
  "sub_mem m m' \<longleftrightarrow>
     (\<forall>a. allows m can_read a \<longrightarrow> allows m' can_read a \<and> byte_at m' a = byte_at m a)"

named_theorems mono_reads \<open>reads give the same result in a larger memory\<close>

lemma sub_mem_refl [simp]: "sub_mem m m"
  by (simp add: sub_mem_def)

lemma sub_mem_trans: "sub_mem m m' \<Longrightarrow> sub_mem m' m'' \<Longrightarrow> sub_mem m m''"
  by (simp add: sub_mem_def)

lemma load_bytes_mono [mono_reads]:
  "load_bytes m n a = Inr bs \<Longrightarrow> sub_mem m m' \<Longrightarrow> load_bytes m' n a = Inr bs"
  by (simp add: load_bytes_Inr_iff sub_mem_def)

lemma load16_mono [mono_reads]:
  "load16 m a = Inr v \<Longrightarrow> sub_mem m m' \<Longrightarrow> load16 m' a = Inr v"
  by (auto simp: load16_def rbind_eq_Inr_iff intro: load_bytes_mono)

lemma load32_mono [mono_reads]:
  "load32 m a = Inr v \<Longrightarrow> sub_mem m m' \<Longrightarrow> load32 m' a = Inr v"
  by (auto simp: load32_def rbind_eq_Inr_iff intro: load_bytes_mono)

lemma load64_mono [mono_reads]:
  "load64 m a = Inr v \<Longrightarrow> sub_mem m m' \<Longrightarrow> load64 m' a = Inr v"
  by (auto simp: load64_def rbind_eq_Inr_iff intro: load_bytes_mono)

lemma cstring_from_mono:
  "cstring_from m k a = Inr bs \<Longrightarrow> sub_mem m m' \<Longrightarrow> cstring_from m' k a = Inr bs"
proof (induction m k a arbitrary: bs rule: cstring_from.induct)
  case (1 m k a)
  show ?case
  proof (cases "k \<noteq> 0 \<and> allows m can_read a \<and> byte_at m a \<noteq> 0")
    case True
    then obtain cs where cs: "cstring_from m (k - 1) (a + 1) = Inr cs" "bs = byte_at m a # cs"
      using "1.prems"(1) by (subst (asm) cstring_from.simps) (auto simp: rbind_eq_Inr_iff)
    then have "cstring_from m' (k - 1) (a + 1) = Inr cs"
      using "1.IH" "1.prems"(2) True by blast
    then show ?thesis
      using True "1.prems"(2) cs(2) by (subst cstring_from.simps) (auto simp: sub_mem_def)
  next
    case False
    then have "k \<noteq> 0 \<and> allows m can_read a \<and> byte_at m a = 0 \<and> bs = []"
      using "1.prems"(1) by (subst (asm) cstring_from.simps) (auto split: if_splits)
    then show ?thesis
      using "1.prems"(2) by (subst cstring_from.simps) (simp add: sub_mem_def)
  qed
qed

lemma cstring_mono [mono_reads]:
  "cstring m a = Inr bs \<Longrightarrow> sub_mem m m' \<Longrightarrow> cstring m' a = Inr bs"
  unfolding cstring_def by (rule cstring_from_mono)

section \<open>What stores keep\<close>

text \<open>
  \<open>later m m'\<close>: \<open>m'\<close> is \<open>m\<close> after some stores; protections are the same, and so is every byte
  on a page that cannot be written.
\<close>

definition later :: "memory \<Rightarrow> memory \<Rightarrow> bool" where
  "later m m' \<longleftrightarrow> prot_at m' = prot_at m \<and>
     (\<forall>a. \<not> allows m can_write a \<longrightarrow> byte_at m' a = byte_at m a)"

lemma later_allows: "later m m' \<Longrightarrow> allows m' = allows m"
  by (intro ext) (simp add: later_def allows_def)

lemma later_refl [simp]: "later m m"
  by (simp add: later_def)

lemma later_trans [trans]: "later m m' \<Longrightarrow> later m' m'' \<Longrightarrow> later m m''"
  using later_allows [of m m'] by (auto simp: later_def)

lemma later_poke:
  assumes "\<forall>i<length bs. allows m can_write (a + of_nat i)"
  shows "later m (poke a bs m)"
proof -
  have "byte_at (poke a bs m) x = byte_at m x" if "\<not> allows m can_write x" for x
  proof (cases "unat (x - a) < length bs")
    case True
    then have "allows m can_write (a + of_nat (unat (x - a)))" using assms by blast
    then show ?thesis using that by simp
  next
    case False
    then show ?thesis by (simp add: byte_at_poke)
  qed
  then show ?thesis by (simp add: later_def)
qed

lemma later_store32: "store32 m a v = Inr m' \<Longrightarrow> later m m'"
  by (auto simp: store32_Inr_iff intro: later_poke)

lemma later_store64: "store64 m a v = Inr m' \<Longrightarrow> later m m'"
  by (auto simp: store64_Inr_iff intro: later_poke)

lemma later_memcpy: "memcpy m d s n = Inr m' \<Longrightarrow> later m m'"
  by (auto simp: memcpy_Inr_iff length_load_bytes intro!: later_poke)

lemma load_bytes_cong:
  assumes "\<And>i. i < n \<Longrightarrow> allows m' can_read (a + of_nat i) = allows m can_read (a + of_nat i)"
    and "\<And>i. i < n \<Longrightarrow> byte_at m' (a + of_nat i) = byte_at m (a + of_nat i)"
  shows "load_bytes m' n a = load_bytes m n a"
  using assms
proof (induction n arbitrary: a)
  case 0
  then show ?case by simp
next
  case (Suc n)
  have "load_bytes m' n (a + 1) = load_bytes m n (a + 1)"
    using Suc.prems [of "Suc _"] by (intro Suc.IH) (simp_all add: add.assoc)
  then show ?case using Suc.prems [of 0] by simp
qed

section \<open>Offsets from a base address\<close>

text \<open>Addresses are compared by their distance from the base of a mapping.\<close>

lemma unat_diff_plus:
  "unat (x - (a + k)) = (if unat k \<le> unat (x - a) then unat (x - a) - unat (k :: u64)
                         else 2 ^ 64 + unat (x - a) - unat k)"
proof -
  have "unat (y - k) = (if unat k \<le> unat y then unat y - unat k else 2 ^ 64 + unat y - unat k)"
    for y :: u64
    by (simp add: unat_sub_if_size word_size) linarith
  from this [of "x - a"] show ?thesis by (simp only: diff_diff_eq)
qed

lemma offset_in:
  assumes "unat k + n \<le> 2 ^ 64"
  shows "unat (x - (a + k)) < n \<longleftrightarrow> unat k \<le> unat (x - a) \<and> unat (x - a) < unat (k :: u64) + n"
  using assms unat_less_exp [of k] by (auto simp: unat_diff_plus split: if_splits)

lemma offset_of_nat: "n < 2 ^ 64 \<Longrightarrow> unat (a + of_nat n - (a :: u64)) = n"
  by (simp add: unat_of_nat take_bit_nat_eq_self_iff)

text \<open>A write inside an array that is in memory.\<close>

lemma load_poke_inside:
  assumes "load_bytes m (length xs) a = Inr xs" "unat k + length ys \<le> length xs"
    "length xs \<le> 2 ^ 64"
  shows "load_bytes (poke (a + k) ys m) (length xs) a = Inr (array_write xs (unat k) ys)"
proof -
  have xs: "xs = map (\<lambda>i. byte_at m (a + of_nat i)) [0..<length xs]"
    and al: "\<forall>i<length xs. allows m can_read (a + of_nat i)"
    using assms(1) by (simp_all add: load_bytes_Inr_iff)
  have "map (\<lambda>i. byte_at (poke (a + k) ys m) (a + of_nat i)) [0..<length xs] =
      array_write xs (unat k) ys"
  proof (rule nth_equalityI)
    show "length (map (\<lambda>i. byte_at (poke (a + k) ys m) (a + of_nat i)) [0..<length xs]) =
        length (array_write xs (unat k) ys)"
      using assms(2) by simp
  next
    fix i assume "i < length (map (\<lambda>i. byte_at (poke (a + k) ys m) (a + of_nat i)) [0..<length xs])"
    then have i: "i < length xs" by simp
    have x: "xs ! i = byte_at m (a + of_nat i)" using i by (subst xs) simp
    have d: "unat (a + of_nat i - a) = i" using i assms(3) by (intro offset_of_nat) simp
    have iff: "unat (a + of_nat i - (a + k)) < length ys \<longleftrightarrow> unat k \<le> i \<and> i < unat k + length ys"
      using offset_in [of k "length ys" "a + of_nat i" a] assms(2,3) unfolding d by simp
    have "unat (a + of_nat i - (a + k)) = i - unat k" if "unat k \<le> i"
      using that unat_diff_plus [of "a + of_nat i" a k] unfolding d by simp
    then show "map (\<lambda>i. byte_at (poke (a + k) ys m) (a + of_nat i)) [0..<length xs] ! i =
        array_write xs (unat k) ys ! i"
      using i iff x assms(2) by (simp add: byte_at_poke nth_array_write)
  qed
  then show ?thesis using al by (simp add: load_bytes_Inr_iff)
qed

lemma load_poke_outside:
  assumes "\<And>i. i < n \<Longrightarrow> \<not> unat (a + of_nat i - b) < length ys"
  shows "load_bytes (poke b ys m) n a = load_bytes m n a"
  using assms by (intro load_bytes_cong) (simp_all add: byte_at_poke)

text \<open>A part of bytes that were loaded.\<close>

lemma load_slice:
  assumes "load_bytes m (length xs) a = Inr xs" "take n (drop k xs) = ys" "k + n \<le> length xs"
  shows "load_bytes m n (a + of_nat k) = Inr ys"
proof -
  have xs: "xs ! i = byte_at m (a + of_nat i)" "allows m can_read (a + of_nat i)" if "i < length xs" for i
    using assms(1) that by (auto simp: load_bytes_Inr_iff) (metis nth_map_upt add_0 diff_zero)
  have "ys = map (\<lambda>i. byte_at m (a + of_nat k + of_nat i)) [0..<n]"
    using assms(2,3) xs(1) by (intro nth_equalityI) (auto simp: add.assoc simp flip: of_nat_add)
  moreover have "allows m can_read (a + of_nat k + of_nat i)" if "i < n" for i
    using xs(2) [of "k + i"] that assms(3) by (simp add: add.assoc)
  ultimately show ?thesis by (simp add: load_bytes_Inr_iff)
qed

end
