(* ===== verification/Elf.thy ===== *)
theory Elf
  imports Memory
begin

text \<open>
  What the object-file loaders \<open>2021-03-obj-file/*/loader.c\<close> share: the system calls they make, the
  ELF structures read through memory, the loader's static variables, and the functions that are
  the same in all versions: \<open>page_align\<close>, \<open>load_obj\<close>, \<open>lookup_section\<close> and
  \<open>lookup_function\<close>.
\<close>

unbundle bit_operations_syntax

section \<open>The operating system\<close>

text \<open>
  The environment of a run: what \<open>open\<close>, \<open>fstat\<close> and \<open>mmap\<close> return (an error number or a
  result; \<open>anon_addr\<close> chooses the address of an anonymous mapping of a given size), and the
  page size.
\<close>

record os_env =
  obj_fd :: int
  open_errno :: int
  obj_file :: bytes
  fstat_errno :: "int option"
  obj_addr :: "int + u64"
  anon_addr :: "u64 \<Rightarrow> int + u64"
  os_page :: u64

definition pages_end :: "u64 \<Rightarrow> nat \<Rightarrow> nat" where
  "pages_end pg n = (n + unat pg - 1) div unat pg * unat pg"

text \<open>The addresses of the pages that hold \<open>n\<close> bytes from \<open>a\<close> on.\<close>

definition in_pages :: "u64 \<Rightarrow> u64 \<Rightarrow> nat \<Rightarrow> u64 \<Rightarrow> bool" where
  "in_pages pg a n x \<longleftrightarrow> unat (x - a) < pages_end pg n"

definition map_pages :: "u64 \<Rightarrow> u64 \<Rightarrow> nat \<Rightarrow> prot \<Rightarrow> (u64 \<Rightarrow> u8) \<Rightarrow> memory \<Rightarrow> memory" where
  "map_pages pg a n p f m =
     m\<lparr>byte_at := (\<lambda>x. if in_pages pg a n x then f (x - a) else byte_at m x),
       prot_at := (\<lambda>x. if in_pages pg a n x then Some p else prot_at m x)\<rparr>"

text \<open>\<open>mmap(NULL, n, PROT_READ | PROT_WRITE, MAP_PRIVATE | MAP_ANONYMOUS, -1, 0)\<close>\<close>

definition mmap_anon :: "os_env \<Rightarrow> u64 \<Rightarrow> memory \<Rightarrow> ld_stop + (u64 \<times> memory)" where
  "mmap_anon env n m =
     (if n = 0 then Inl (Exit EINVAL)
      else case anon_addr env n of
        Inl e \<Rightarrow> Inl (Exit e)
      | Inr a \<Rightarrow> Inr (a, map_pages (os_page env) a (unat n) (Prot True True False) (\<lambda>_. 0) m))"

text \<open>
  \<open>mprotect\<close>: the address is the start of a page and all pages are mapped; the result is an
  error number or the memory. The loaders exit with the error.
\<close>

definition mprotect :: "os_env \<Rightarrow> u64 \<Rightarrow> u64 \<Rightarrow> prot \<Rightarrow> memory \<Rightarrow> ld_stop + memory" where
  "mprotect env a n p m =
     (if a mod os_page env \<noteq> 0 then Inl (Exit EINVAL)
      else if \<exists>i \<in> {0..<pages_end (os_page env) (unat n)}. prot_at m (a + of_nat i) = None
        then Inl (Exit ENOMEM)
      else Inr (m\<lparr>prot_at := (\<lambda>x. if in_pages (os_page env) a (unat n) x then Some p
                                  else prot_at m x)\<rparr>))"

section \<open>The state of a loader\<close>

text \<open>The static variables of the program; \<open>printed\<close> are the lines it prints.\<close>

datatype event = Puts bytes | Print_int string int | Print_str string bytes

record loader =
  mem :: memory
  obj_base :: u64
  sections :: u64
  shstrtab :: u64
  symbols :: u64
  num_symbols :: "32 word"
  strtab :: u64
  page_size :: u64
  text_runtime_base :: u64
  data_runtime_base :: u64
  rodata_runtime_base :: u64
  num_ext_symbols :: "32 word"
  jumptable :: u64
  curr_jmp_idx :: "32 word"
  printed :: "event list"

section \<open>ELF structures\<close>

text \<open>Fields of \<open>Elf64_Ehdr\<close>, \<open>Elf64_Shdr\<close> (64 bytes), \<open>Elf64_Sym\<close> (24) and \<open>Elf64_Rela\<close> (24).\<close>

definition e_shoff :: "loader \<Rightarrow> ld_stop + u64" where
  "e_shoff st = load64 (mem st) (obj_base st + 40)"

definition e_shnum :: "loader \<Rightarrow> ld_stop + u16" where
  "e_shnum st = load16 (mem st) (obj_base st + 60)"

definition e_shstrndx :: "loader \<Rightarrow> ld_stop + u16" where
  "e_shstrndx st = load16 (mem st) (obj_base st + 62)"

definition section_at :: "loader \<Rightarrow> u16 \<Rightarrow> u64" where
  "section_at st i = sections st + 64 * ucast i"

definition sh_name :: "loader \<Rightarrow> u64 \<Rightarrow> ld_stop + u32" where
  "sh_name st s = load32 (mem st) s"

definition sh_offset :: "loader \<Rightarrow> u64 \<Rightarrow> ld_stop + u64" where
  "sh_offset st s = load64 (mem st) (s + 24)"

definition sh_size :: "loader \<Rightarrow> u64 \<Rightarrow> ld_stop + u64" where
  "sh_size st s = load64 (mem st) (s + 32)"

definition sh_entsize :: "loader \<Rightarrow> u64 \<Rightarrow> ld_stop + u64" where
  "sh_entsize st s = load64 (mem st) (s + 56)"

definition symbol_at :: "loader \<Rightarrow> 32 word \<Rightarrow> u64" where
  "symbol_at st i = symbols st + 24 * scast i"

definition st_name :: "loader \<Rightarrow> u64 \<Rightarrow> ld_stop + u32" where
  "st_name st s = load32 (mem st) s"

definition st_info :: "loader \<Rightarrow> u64 \<Rightarrow> ld_stop + u8" where
  "st_info st s = rbind (load_bytes (mem st) 1 (s + 4)) (\<lambda>bs. Inr (hd bs))"

definition st_shndx :: "loader \<Rightarrow> u64 \<Rightarrow> ld_stop + u16" where
  "st_shndx st s = load16 (mem st) (s + 6)"

definition st_value :: "loader \<Rightarrow> u64 \<Rightarrow> ld_stop + u64" where
  "st_value st s = load64 (mem st) (s + 8)"

definition r_offset :: "loader \<Rightarrow> u64 \<Rightarrow> ld_stop + u64" where
  "r_offset st r = load64 (mem st) r"

definition r_info :: "loader \<Rightarrow> u64 \<Rightarrow> ld_stop + u64" where
  "r_info st r = load64 (mem st) (r + 8)"

definition r_addend :: "loader \<Rightarrow> u64 \<Rightarrow> ld_stop + u64" where
  "r_addend st r = load64 (mem st) (r + 16)"

definition ELF64_ST_TYPE :: "u8 \<Rightarrow> u8" where
  "ELF64_ST_TYPE info = info AND 0xf"

definition STT_FUNC :: u8 where "STT_FUNC = 2"
definition SHN_UNDEF :: u16 where "SHN_UNDEF = 0"

definition ELF64_R_SYM :: "u64 \<Rightarrow> 32 word" where
  "ELF64_R_SYM info = ucast (drop_bit 32 info)"

definition ELF64_R_TYPE :: "u64 \<Rightarrow> 32 word" where
  "ELF64_R_TYPE info = ucast (info AND 0xffffffff)"

section \<open>The functions of all loaders\<close>

definition page_align :: "u64 \<Rightarrow> u64 \<Rightarrow> u64" where
  "page_align pg n = (n + (pg - 1)) AND NOT (pg - 1)"

text \<open>
  \<open>load_obj\<close>: the file is mapped read-only; the rest of its last page is zero. An empty file
  cannot be mapped.
\<close>

definition load_obj :: "os_env \<Rightarrow> loader \<Rightarrow> ld_stop + loader" where
  "load_obj env st =
     (if obj_fd env \<le> 0 then Inl (Exit (open_errno env))
      else case fstat_errno env of
        Some e \<Rightarrow> Inl (Exit e)
      | None \<Rightarrow>
          if obj_file env = [] then Inl (Exit EINVAL)
          else (case obj_addr env of
              Inl e \<Rightarrow> Inl (Exit e)
            | Inr a \<Rightarrow> Inr (st\<lparr>obj_base := a,
                mem := map_pages (os_page env) a (length (obj_file env)) (Prot True False False)
                  (\<lambda>i. if unat i < length (obj_file env) then obj_file env ! unat i else 0)
                  (mem st)\<rparr>)))"

lemma count16:
  assumes "i < (n :: u16)"
  shows "65536 - unat (i + 1) < 65536 - unat i"
  using unat_inc [OF assms] unat_less_exp [of i] by simp

text \<open>
  The loop of \<open>lookup_section\<close>: \<open>i\<close> runs to \<open>e_shnum\<close>; the first section of this name with a
  size is the result, \<open>None\<close> is the null pointer.
\<close>

function section_loop :: "loader \<Rightarrow> bytes \<Rightarrow> u16 \<Rightarrow> ld_stop + u64 option" where
  "section_loop st name i =
     rbind (e_shnum st) (\<lambda>n.
       if i < n then
         rbind (sh_name st (section_at st i)) (\<lambda>off.
         rbind (cstring (mem st) (shstrtab st + ucast off)) (\<lambda>section_name.
           if section_name = name then
             rbind (sh_size st (section_at st i)) (\<lambda>sz.
               if sz \<noteq> 0 then Inr (Some (section_at st i)) else section_loop st name (i + 1))
           else section_loop st name (i + 1)))
       else Inr None)"
  by pat_completeness auto
termination by (relation "measure (\<lambda>(_, _, i). 65536 - unat i)") (auto intro: count16)

declare section_loop.simps [simp del]

definition lookup_section :: "string \<Rightarrow> loader \<Rightarrow> ld_stop + u64 option" where
  "lookup_section name st = section_loop st (lit name) 0"

text \<open>\<open>i\<close> counts the symbols as an \<open>int\<close>.\<close>

function function_loop :: "loader \<Rightarrow> bytes \<Rightarrow> nat \<Rightarrow> ld_stop + u64 option" where
  "function_loop st name i =
     (if int i < sint (num_symbols st) then
        (let sym = symbol_at st (of_nat i) in
         rbind (st_info st sym) (\<lambda>info.
           if ELF64_ST_TYPE info = STT_FUNC then
             rbind (st_name st sym) (\<lambda>off.
             rbind (cstring (mem st) (strtab st + ucast off)) (\<lambda>function_name.
               if function_name = name then
                 rbind (st_value st sym) (\<lambda>v. Inr (Some (text_runtime_base st + v)))
               else function_loop st name (i + 1)))
           else function_loop st name (i + 1)))
      else Inr None)"
  by pat_completeness auto
termination by (relation "measure (\<lambda>(st, _, i). nat (sint (num_symbols st)) - i)") auto

declare function_loop.simps [simp del]

definition lookup_function :: "string \<Rightarrow> loader \<Rightarrow> ld_stop + u64 option" where
  "lookup_function name st = function_loop st (lit name) 0"

text \<open>A section the loader cannot do without: \<open>exit(ENOEXEC)\<close> when it is not found.\<close>

definition need_section :: "string \<Rightarrow> loader \<Rightarrow> ld_stop + u64" where
  "need_section name st =
     rbind (lookup_section name st) (\<lambda>s.
       case s of None \<Rightarrow> Inl (Exit ENOEXEC) | Some p \<Rightarrow> if p = 0 then Inl (Exit ENOEXEC) else Inr p)"

text \<open>The number of entries of a table: a division of 64-bit values, kept as an \<open>int\<close>.\<close>

definition entries :: "loader \<Rightarrow> u64 \<Rightarrow> ld_stop + 32 word" where
  "entries st s =
     rbind (sh_size st s) (\<lambda>sz.
     rbind (sh_entsize st s) (\<lambda>esz.
       if esz = 0 then Inl Sigfpe else Inr (ucast (sz div esz))))"

text \<open>The first half of \<open>parse_obj\<close>: the tables of the file.\<close>

definition parse_tables :: "os_env \<Rightarrow> loader \<Rightarrow> ld_stop + loader" where
  "parse_tables env st =
     rbind (e_shoff st) (\<lambda>shoff.
     let st = st\<lparr>sections := obj_base st + shoff\<rparr> in
     rbind (e_shstrndx st) (\<lambda>ndx.
     rbind (sh_offset st (section_at st ndx)) (\<lambda>off.
     let st = st\<lparr>shstrtab := obj_base st + off\<rparr> in
     rbind (need_section ''.symtab'' st) (\<lambda>symtab_hdr.
     rbind (sh_offset st symtab_hdr) (\<lambda>off.
     let st = st\<lparr>symbols := obj_base st + off\<rparr> in
     rbind (entries st symtab_hdr) (\<lambda>n.
     let st = st\<lparr>num_symbols := n\<rparr> in
     rbind (need_section ''.strtab'' st) (\<lambda>strtab_hdr.
     rbind (sh_offset st strtab_hdr) (\<lambda>off.
       Inr (st\<lparr>strtab := obj_base st + off, page_size := os_page env\<rparr>)))))))))"

text \<open>The copy of a section, at \<open>dst\<close>.\<close>

definition copy_section :: "u64 \<Rightarrow> u64 \<Rightarrow> loader \<Rightarrow> ld_stop + loader" where
  "copy_section dst s st =
     rbind (sh_offset st s) (\<lambda>off.
     rbind (sh_size st s) (\<lambda>sz.
     rbind (memcpy (mem st) dst (obj_base st + off) sz) (\<lambda>m. Inr (st\<lparr>mem := m\<rparr>))))"

section \<open>Calling the imported functions\<close>

text \<open>
  \<open>exec\<close> stands for the machine code at an address with an argument: the value it returns, the
  memory after it and what it prints. The processor only runs code on executable pages.
\<close>

type_synonym machine = "u64 \<Rightarrow> u32 \<Rightarrow> memory \<Rightarrow> ld_stop + (u64 \<times> memory \<times> event list)"

definition run :: "machine \<Rightarrow> u64 \<Rightarrow> u32 \<Rightarrow> loader \<Rightarrow> ld_stop + (u64 \<times> loader)" where
  "run exec f arg st =
     (if allows (mem st) can_exec f then
        rbind (exec f arg (mem st)) (\<lambda>(v, m, out).
          Inr (v, st\<lparr>mem := m, printed := printed st @ out\<rparr>))
      else Inl Segv)"

definition puts :: "string \<Rightarrow> loader \<Rightarrow> loader" where
  "puts s st = st\<lparr>printed := printed st @ [Puts (lit s)]\<rparr>"

text \<open>A function the program cannot do without: \<open>exit(ENOENT)\<close> when the lookup gives a null pointer.\<close>

definition need_function :: "string \<Rightarrow> loader \<Rightarrow> ld_stop + u64" where
  "need_function name st =
     rbind (lookup_function name st) (\<lambda>f.
       case f of None \<Rightarrow> Inl (Exit ENOENT) | Some p \<Rightarrow> if p = 0 then Inl (Exit ENOENT) else Inr p)"

text \<open>\<open>puts(msg); printf("... = %d\\n", f(arg))\<close>, and the same with \<open>%s\<close>.\<close>

definition show_int :: "machine \<Rightarrow> u64 \<Rightarrow> u32 \<Rightarrow> string \<Rightarrow> string \<Rightarrow> loader \<Rightarrow> ld_stop + loader" where
  "show_int exec f arg msg label st =
     rbind (run exec f arg (puts msg st)) (\<lambda>(v, st).
       Inr (st\<lparr>printed := printed st @ [Print_int label (sint (ucast v :: 32 word))]\<rparr>))"

definition show_str :: "machine \<Rightarrow> u64 \<Rightarrow> string \<Rightarrow> string \<Rightarrow> loader \<Rightarrow> ld_stop + loader" where
  "show_str exec f msg label st =
     rbind (run exec f 0 (puts msg st)) (\<lambda>(v, st).
     rbind (cstring (mem st) v) (\<lambda>s. Inr (st\<lparr>printed := printed st @ [Print_str label s]\<rparr>)))"

definition call_void :: "machine \<Rightarrow> u64 \<Rightarrow> u32 \<Rightarrow> string \<Rightarrow> loader \<Rightarrow> ld_stop + loader" where
  "call_void exec f arg msg st = rbind (run exec f arg (puts msg st)) (\<lambda>(v, st). Inr st)"

section \<open>Reads are monotone\<close>

text \<open>
  \<open>sub_st st st'\<close>: \<open>st'\<close> has the same tables as \<open>st\<close>, and a memory that holds all \<open>st\<close> can
  read. What the functions above find in \<open>st\<close> they find in \<open>st'\<close>.
\<close>

definition tables :: "loader \<Rightarrow> u64 \<times> u64 \<times> u64 \<times> u64 \<times> 32 word \<times> u64" where
  "tables st = (obj_base st, sections st, shstrtab st, symbols st, num_symbols st, strtab st)"

definition sub_st :: "loader \<Rightarrow> loader \<Rightarrow> bool" where
  "sub_st st st' \<longleftrightarrow> sub_mem (mem st) (mem st') \<and> tables st' = tables st"

lemma sub_st_refl [simp]: "sub_st st st"
  by (simp add: sub_st_def)

lemma sub_st_same:
  assumes "sub_st st st'"
  shows "obj_base st' = obj_base st" "sections st' = sections st" "shstrtab st' = shstrtab st"
    "symbols st' = symbols st" "num_symbols st' = num_symbols st" "strtab st' = strtab st"
    "section_at st' = section_at st" "symbol_at st' = symbol_at st"
  using assms by (auto simp: sub_st_def tables_def section_at_def symbol_at_def)

lemma sub_st_mem: "sub_st st st' \<Longrightarrow> sub_mem (mem st) (mem st')"
  by (simp add: sub_st_def)

lemmas field_defs = e_shoff_def e_shnum_def e_shstrndx_def sh_name_def sh_offset_def sh_size_def
  sh_entsize_def st_name_def st_shndx_def st_value_def r_offset_def r_info_def r_addend_def

lemma field_mono [mono_reads]:
  assumes "sub_st st st'"
  shows "e_shoff st = Inr u \<Longrightarrow> e_shoff st' = Inr u"
    "e_shnum st = Inr v \<Longrightarrow> e_shnum st' = Inr v"
    "e_shstrndx st = Inr v \<Longrightarrow> e_shstrndx st' = Inr v"
    "sh_name st s = Inr w \<Longrightarrow> sh_name st' s = Inr w"
    "sh_offset st s = Inr u \<Longrightarrow> sh_offset st' s = Inr u"
    "sh_size st s = Inr u \<Longrightarrow> sh_size st' s = Inr u"
    "sh_entsize st s = Inr u \<Longrightarrow> sh_entsize st' s = Inr u"
    "st_name st s = Inr w \<Longrightarrow> st_name st' s = Inr w"
    "st_shndx st s = Inr v \<Longrightarrow> st_shndx st' s = Inr v"
    "st_value st s = Inr u \<Longrightarrow> st_value st' s = Inr u"
    "r_offset st s = Inr u \<Longrightarrow> r_offset st' s = Inr u"
    "r_info st s = Inr u \<Longrightarrow> r_info st' s = Inr u"
    "r_addend st s = Inr u \<Longrightarrow> r_addend st' s = Inr u"
    "cstring (mem st) s = Inr bs \<Longrightarrow> cstring (mem st') s = Inr bs"
  using mono_reads [OF _ sub_st_mem [OF assms]] sub_st_same [OF assms]
  by (simp_all add: field_defs)

lemma section_loop_mono:
  "section_loop st name i = Inr r \<Longrightarrow> sub_st st st' \<Longrightarrow> section_loop st' name i = Inr r"
proof (induction st name i rule: section_loop.induct)
  case (1 st name i)
  obtain n where n: "e_shnum st = Inr n"
    using "1.prems"(1) by (subst (asm) section_loop.simps) (auto simp: rbind_eq_Inr_iff)
  note m = field_mono [OF "1.prems"(2)] and same = sub_st_same [OF "1.prems"(2)]
  show ?case
  proof (cases "i < n")
    case False
    then show ?thesis
      using "1.prems"(1) n m(2) [OF n] by (simp add: section_loop.simps [of _ name i])
  next
    case True
    then obtain off nm where off: "sh_name st (section_at st i) = Inr off"
      and nm: "cstring (mem st) (shstrtab st + ucast off) = Inr nm"
      using "1.prems"(1) n
      by (subst (asm) section_loop.simps) (auto simp: rbind_eq_Inr_iff)
    note step = section_loop.simps [of _ name i]
    show ?thesis
    proof (cases "nm = name")
      case eq: True
      then obtain sz where sz: "sh_size st (section_at st i) = Inr sz"
        using "1.prems"(1) n True off nm
        by (subst (asm) section_loop.simps) (auto simp: rbind_eq_Inr_iff)
      show ?thesis
      proof (cases "sz = 0")
        case z: True
        have "section_loop st name (i + 1) = Inr r"
          using "1.prems"(1) n True off nm sz eq z by (simp add: step)
        then have "section_loop st' name (i + 1) = Inr r"
          using "1.IH"(1) [OF n True off nm eq sz] z "1.prems"(2) by simp
        then show ?thesis
          using True eq z m(2) [OF n] m(4) [OF off] m(14) [OF nm] m(6) [OF sz]
          by (simp add: step same)
      next
        case nz: False
        then show ?thesis
          using "1.prems"(1) n True eq off nm sz m(2) [OF n] m(4) [OF off] m(14) [OF nm] m(6) [OF sz]
          by (simp add: step same)
      qed
    next
      case neq: False
      have "section_loop st name (i + 1) = Inr r"
        using "1.prems"(1) n True off nm neq by (simp add: step)
      then have "section_loop st' name (i + 1) = Inr r"
        using "1.IH"(2) [OF n True off nm neq] "1.prems"(2) by simp
      then show ?thesis
        using True neq m(2) [OF n] m(4) [OF off] m(14) [OF nm] by (simp add: step same)
    qed
  qed
qed

lemma lookup_section_mono [mono_reads]:
  "lookup_section name st = Inr r \<Longrightarrow> sub_st st st' \<Longrightarrow> lookup_section name st' = Inr r"
  unfolding lookup_section_def by (rule section_loop_mono)

lemma need_section_mono [mono_reads]:
  assumes "need_section name st = Inr s" "sub_st st st'"
  shows "need_section name st' = Inr s"
proof -
  obtain r where "lookup_section name st = Inr r" "r = Some s" "s \<noteq> 0"
    using assms(1) by (auto simp: need_section_def rbind_eq_Inr_iff split: option.splits if_splits)
  then show ?thesis
    using lookup_section_mono [OF _ assms(2)] by (simp add: need_section_def)
qed

lemma entries_mono [mono_reads]:
  assumes "entries st s = Inr n" "sub_st st st'"
  shows "entries st' s = Inr n"
proof -
  obtain sz esz where "sh_size st s = Inr sz" "sh_entsize st s = Inr esz"
    "esz \<noteq> 0" "n = ucast (sz div esz)"
    using assms(1) by (auto simp: entries_def rbind_eq_Inr_iff split: if_splits)
  then show ?thesis
    using field_mono [OF assms(2)] by (simp add: entries_def)
qed

lemma st_info_mono: "st_info st s = Inr w \<Longrightarrow> sub_st st st' \<Longrightarrow> st_info st' s = Inr w"
  unfolding st_info_def rbind_eq_Inr_iff using load_bytes_mono sub_st_mem by blast

lemma function_loop_mono:
  "function_loop st name i = Inr r \<Longrightarrow> sub_st st st' \<Longrightarrow>
     text_runtime_base st' = text_runtime_base st \<Longrightarrow> function_loop st' name i = Inr r"
proof (induction st name i rule: function_loop.induct)
  case (1 st name i)
  note m = field_mono [OF "1.prems"(2)] and same = sub_st_same [OF "1.prems"(2)]
  note step = function_loop.simps [of _ name i]
  let ?s = "symbol_at st (of_nat i)"
  show ?case
  proof (cases "int i < sint (num_symbols st)")
    case False
    then show ?thesis using "1.prems"(1) by (simp add: step same)
  next
    case lt: True
    then obtain info where info: "st_info st ?s = Inr info"
      using "1.prems"(1) by (subst (asm) step) (auto simp: rbind_eq_Inr_iff Let_def)
    note info' = st_info_mono [OF info "1.prems"(2)]
    show ?thesis
    proof (cases "ELF64_ST_TYPE info = STT_FUNC")
      case nf: False
      have "function_loop st name (i + 1) = Inr r"
        using "1.prems"(1) lt info nf by (simp add: step Let_def)
      then have "function_loop st' name (i + 1) = Inr r"
        using "1.IH"(2) [OF lt refl info nf] "1.prems"(2,3) by simp
      then show ?thesis using lt info' nf by (simp add: step same Let_def)
    next
      case f: True
      then obtain off nm where off: "st_name st ?s = Inr off"
        and nm: "cstring (mem st) (strtab st + ucast off) = Inr nm"
        using "1.prems"(1) lt info by (subst (asm) step) (auto simp: rbind_eq_Inr_iff Let_def)
      show ?thesis
      proof (cases "nm = name")
        case eq: True
        then obtain v where v: "st_value st ?s = Inr v" "r = Some (text_runtime_base st + v)"
          using "1.prems"(1) lt info f off nm by (subst (asm) step) (auto simp: rbind_eq_Inr_iff Let_def)
        show ?thesis
          using lt info' f eq m(8) [OF off] m(14) [OF nm] m(10) [OF v(1)] v(2) "1.prems"(3)
          by (simp add: step same Let_def)
      next
        case neq: False
        have "function_loop st name (i + 1) = Inr r"
          using "1.prems"(1) lt info f off nm neq by (simp add: step Let_def)
        then have "function_loop st' name (i + 1) = Inr r"
          using "1.IH"(1) [OF lt refl info f off nm neq] "1.prems"(2,3) by simp
        then show ?thesis
          using lt info' f neq m(8) [OF off] m(14) [OF nm] by (simp add: step same Let_def)
      qed
    qed
  qed
qed

lemma need_function_mono:
  assumes "need_function name st = Inr f" "sub_st st st'" "text_runtime_base st' = text_runtime_base st"
  shows "need_function name st' = Inr f"
proof -
  obtain r where "lookup_function name st = Inr r" "r = Some f" "f \<noteq> 0"
    using assms(1) by (auto simp: need_function_def rbind_eq_Inr_iff split: option.splits if_splits)
  then show ?thesis
    using function_loop_mono [OF _ assms(2,3)] by (simp add: need_function_def lookup_function_def)
qed

section \<open>The lookups find the first match\<close>

lemma of_nat_less_unat:
  assumes "j < unat (n :: 'a::len word)"
  shows "(of_nat j :: 'a word) < n" "unat (of_nat j :: 'a word) = j"
proof -
  have "j < 2 ^ LENGTH('a)" using assms unat_less_exp [of n] by linarith
  then show u: "unat (of_nat j :: 'a word) = j" by (simp add: unat_of_nat take_bit_nat_eq_self_iff)
  show "(of_nat j :: 'a word) < n" using assms by (simp add: word_less_nat_alt u)
qed

lemma section_loop_find:
  assumes n: "e_shnum st = Inr n"
    and hdr: "\<And>j. j < unat n \<Longrightarrow> sh_name st (section_at st (of_nat j)) = Inr (off j) \<and>
      cstring (mem st) (shstrtab st + ucast (off j)) = Inr (nm j) \<and>
      sh_size st (section_at st (of_nat j)) = Inr (sz j)"
  shows "k \<le> unat n \<Longrightarrow> section_loop st name (of_nat k) =
    Inr (map_option (\<lambda>j. section_at st (of_nat j))
      (find (\<lambda>j. nm j = name \<and> sz j \<noteq> 0) [k..<unat n]))"
proof (induction "unat n - k" arbitrary: k)
  case 0
  then have "k = unat n" by simp
  then show ?case using n by (simp add: section_loop.simps [of st name n])
next
  case (Suc d)
  then have k: "k < unat n" by simp
  have IH: "section_loop st name (of_nat (Suc k)) =
      Inr (map_option (\<lambda>j. section_at st (of_nat j))
        (find (\<lambda>j. nm j = name \<and> sz j \<noteq> 0) [Suc k..<unat n]))"
    using Suc by (intro Suc.hyps(1)) auto
  have [simp]: "(of_nat k :: u16) + 1 = of_nat (Suc k)" by (simp add: add.commute)
  show ?case
    using n hdr [OF k] of_nat_less_unat(1) [OF k] IH
    by (simp add: section_loop.simps [of st name "of_nat k"] upt_rec [of k "unat n"] k
        del: of_nat_Suc)
qed

lemma function_loop_find:
  assumes sym: "\<And>j. int j < sint (num_symbols st) \<Longrightarrow>
      st_info st (symbol_at st (of_nat j)) = Inr (info j) \<and>
      (ELF64_ST_TYPE (info j) = STT_FUNC \<longrightarrow>
        st_name st (symbol_at st (of_nat j)) = Inr (off j) \<and>
        cstring (mem st) (strtab st + ucast (off j)) = Inr (nm j) \<and>
        st_value st (symbol_at st (of_nat j)) = Inr (v j))"
  shows "function_loop st name k =
    Inr (map_option (\<lambda>j. text_runtime_base st + v j)
      (find (\<lambda>j. ELF64_ST_TYPE (info j) = STT_FUNC \<and> nm j = name)
        [k..<nat (sint (num_symbols st))]))"
proof (induction "nat (sint (num_symbols st)) - k" arbitrary: k)
  case 0
  then have "\<not> int k < sint (num_symbols st)" by linarith
  with 0 show ?case by (simp add: function_loop.simps [of st name k])
next
  case (Suc d)
  then have k: "int k < sint (num_symbols st)" by simp
  have IH: "function_loop st name (Suc k) =
      Inr (map_option (\<lambda>j. text_runtime_base st + v j)
        (find (\<lambda>j. ELF64_ST_TYPE (info j) = STT_FUNC \<and> nm j = name)
          [Suc k..<nat (sint (num_symbols st))]))"
    using Suc by (intro Suc.hyps(1)) auto
  have up: "[k..<nat (sint (num_symbols st))] = k # [Suc k..<nat (sint (num_symbols st))]"
    using k by (intro upt_conv_Cons) simp
  show ?case
    using k sym [OF k] IH
    by (simp add: function_loop.simps [of st name k] up Let_def)
qed

section \<open>Pages\<close>

lemma pages_end_ge:
  assumes "pg \<noteq> 0"
  shows "n \<le> pages_end pg n"
proof -
  have p: "0 < unat pg" using assms by (simp add: unat_gt_0)
  have "n + unat pg - 1 = (n + unat pg - 1) div unat pg * unat pg + (n + unat pg - 1) mod unat pg"
    by simp
  moreover have "(n + unat pg - 1) mod unat pg < unat pg" using p by simp
  ultimately show ?thesis unfolding pages_end_def using p by linarith
qed

lemma pages_end_mult [simp]: "unat pg dvd pages_end pg n"
  by (simp add: pages_end_def)

lemma pages_end_least:
  assumes "pg \<noteq> 0" "unat pg dvd k" "n \<le> k"
  shows "pages_end pg n \<le> k"
proof -
  obtain q where k: "k = q * unat pg" using assms(2) by (auto simp: dvd_def mult.commute)
  have p: "0 < unat pg" using assms(1) by (simp add: unat_gt_0)
  have "n + unat pg - 1 < (q + 1) * unat pg" using assms(3) k p by (simp add: algebra_simps)
  then have "(n + unat pg - 1) div unat pg < q + 1" using p by (simp add: div_less_iff_less_mult)
  then show ?thesis unfolding pages_end_def k by (simp add: mult_right_mono)
qed

text \<open>
  \<open>page_align\<close> rounds up to whole pages when the page size is a power of two and the result is
  below \<open>2 ^ 64\<close>.
\<close>

lemma unat_page_align:
  assumes pg: "pg = 2 ^ k" "k < 64" and fits: "unat n + unat pg \<le> 2 ^ 64"
  shows "unat (page_align pg n) = pages_end pg (unat n)"
proof -
  have up: "unat pg = 2 ^ k" using pg by (simp add: unat_exp)
  have m: "pg - 1 = mask k" using pg by (simp add: mask_eq_exp_minus_1)
  have s: "unat (n + (pg - 1)) = unat n + unat pg - 1"
  proof -
    have "unat (pg - 1) = unat pg - 1" using pg up unat_minus_one [of pg]
      by (metis power_eq_0_iff unat_0 zero_neq_numeral)
    moreover have "0 < unat pg" using up by simp
    ultimately show ?thesis using fits by (subst unat_add_lem [THEN iffD1]) auto
  qed
  have "page_align pg n = push_bit k (drop_bit k (n + (pg - 1)))"
    unfolding page_align_def m
    by (rule bit_word_eqI) (auto simp: bit_simps)
  also have "unat \<dots> = unat (n + (pg - 1)) div 2 ^ k * 2 ^ k" (is "_ = ?r")
  proof -
    have "?r \<le> unat (n + (pg - 1))" by simp
    from le_less_trans [OF this unat_less_exp] have "?r < 2 ^ 64" by simp
    then have "take_bit 64 ?r = ?r" by (rule take_bit_nat_eq_self)
    then have "take_bit LENGTH(64) (push_bit k (drop_bit k (unat (n + (pg - 1))))) = ?r"
      by (simp add: push_bit_eq_mult drop_bit_eq_div)
    then show ?thesis by (simp only: unsigned_push_bit_eq unsigned_drop_bit_eq
          take_bit_nat_eq_self [OF unat_less_exp])
  qed
  finally show ?thesis by (simp add: s up pages_end_def)
qed

end
