(* ===== verification/Sections.thy ===== *)
theory Sections
  imports Elf
begin

text \<open>
  The parts of \<open>parse_obj\<close> that the versions of \<open>2021-03-obj-file/*/loader.c\<close> share: the allocation of
  one block for the section copies, the copies, the change of the page protections, and the loop over
  the relocation table.

  The lemmas: the block in closed form after the copies and after the protections are set; the
  relocation table as a list, so that a relocation loop is a \<open>fold\<close>; and, in the locale
  \<open>relocator\<close>, what \<open>parse_obj\<close> does with the pages whatever the relocations of the version are.
\<close>

unbundle bit_operations_syntax

section \<open>Allocation, copies, protections\<close>

text \<open>
  \<open>allocate\<close>: one block for the copies of the three sections, each rounded up to whole pages, and
  \<open>extra\<close> bytes behind them.
\<close>

definition allocate :: "os_env \<Rightarrow> u64 \<Rightarrow> u64 \<Rightarrow> u64 \<Rightarrow> u64 \<Rightarrow> loader \<Rightarrow> ld_stop + loader" where
  "allocate env text_hdr data_hdr rodata_hdr extra st =
     rbind (sh_size st text_hdr) (\<lambda>tsz.
     rbind (sh_size st data_hdr) (\<lambda>dsz.
     rbind (sh_size st rodata_hdr) (\<lambda>rsz.
     rbind (mmap_anon env (page_align (page_size st) tsz + page_align (page_size st) dsz +
              page_align (page_size st) rsz + extra) (mem st)) (\<lambda>(a, m).
       Inr (st\<lparr>mem := m, text_runtime_base := a,
         data_runtime_base := a + page_align (page_size st) tsz,
         rodata_runtime_base :=
           a + page_align (page_size st) tsz + page_align (page_size st) dsz\<rparr>)))))"

definition copy_sections :: "u64 \<Rightarrow> u64 \<Rightarrow> u64 \<Rightarrow> loader \<Rightarrow> ld_stop + loader" where
  "copy_sections text_hdr data_hdr rodata_hdr st =
     rbind (copy_section (text_runtime_base st) text_hdr st) (\<lambda>st.
     rbind (copy_section (data_runtime_base st) data_hdr st) (\<lambda>st.
       copy_section (rodata_runtime_base st) rodata_hdr st))"

text \<open>\<open>mprotect\<close> of the copy of a section.\<close>

definition protect :: "os_env \<Rightarrow> u64 \<Rightarrow> u64 \<Rightarrow> prot \<Rightarrow> loader \<Rightarrow> ld_stop + loader" where
  "protect env base hdr p st =
     rbind (sh_size st hdr) (\<lambda>sz.
     rbind (mprotect env base (page_align (page_size st) sz) p (mem st)) (\<lambda>m.
       Inr (st\<lparr>mem := m\<rparr>)))"

abbreviation "RW \<equiv> Prot True True False"
abbreviation "RX \<equiv> Prot True False True"
abbreviation "RO \<equiv> Prot True False False"

section \<open>The relocation table\<close>

text \<open>The number of relocations and the address of the first.\<close>

definition rela_text :: "loader \<Rightarrow> ld_stop + (32 word \<times> u64)" where
  "rela_text st =
     rbind (need_section ''.rela.text'' st) (\<lambda>hdr.
     rbind (entries st hdr) (\<lambda>n.
     rbind (sh_offset st hdr) (\<lambda>off. Inr (n, obj_base st + off))))"

text \<open>
  The loop over the table: \<open>step\<close> is run with the address of each relocation, the index going
  from \<open>i\<close> up; the first argument is the number of rounds left.
\<close>

fun rela_loop :: "(u64 \<Rightarrow> loader \<Rightarrow> ld_stop + loader) \<Rightarrow> nat \<Rightarrow> u64 \<Rightarrow> nat \<Rightarrow> loader \<Rightarrow> ld_stop + loader"
  where
  "rela_loop step 0 relocations i st = Inr st"
| "rela_loop step (Suc k) relocations i st =
     rbind (step (relocations + 24 * of_nat i) st) (rela_loop step k relocations (i + 1))"

text \<open>The whole pass: the table is found, and \<open>step\<close> run on each entry.\<close>

definition for_relocations :: "(u64 \<Rightarrow> loader \<Rightarrow> ld_stop + loader) \<Rightarrow> loader \<Rightarrow> ld_stop + loader" where
  "for_relocations step st =
     rbind (rela_text st) (\<lambda>(n, relocations). rela_loop step (nat (sint n)) relocations 0 st)"

section \<open>Closed forms\<close>

lemma pages_end_dvd:
  assumes "pg \<noteq> 0" "unat pg dvd n"
  shows "pages_end pg n = n"
  using assms pages_end_ge [of pg n] pages_end_least [of pg n n] by simp

text \<open>What the kernel promises: the page size is a power of two.\<close>

definition os_ok :: "os_env \<Rightarrow> bool" where
  "os_ok env \<longleftrightarrow> (\<exists>k<64. os_page env = 2 ^ k)"

lemma os_page_nonzero: "os_ok env \<Longrightarrow> os_page env \<noteq> 0"
  by (auto simp: os_ok_def)

lemma dvd_room:
  assumes "p dvd m" "p dvd n" "m < (n :: nat)"
  shows "m + p \<le> n"
proof -
  obtain q r where "m = p * q" "n = p * r" using assms(1,2) by (auto simp: dvd_def)
  with assms(3) have "q < r" by simp
  then have "p * Suc q \<le> p * r" by (intro mult_le_mono2) simp
  then show ?thesis using \<open>m = p * q\<close> \<open>n = p * r\<close> by simp
qed

lemma page_align_ok:
  assumes "os_ok env" "pages_end (os_page env) (unat n) < 2 ^ 64"
  shows "unat (page_align (os_page env) n) = pages_end (os_page env) (unat n)"
    and "page_align (os_page env) n mod os_page env = 0"
proof -
  obtain k where k: "os_page env = 2 ^ k" "k < 64" using assms(1) by (auto simp: os_ok_def)
  have nz: "0 < unat (os_page env)" using os_page_nonzero [OF assms(1)] by (simp add: unat_gt_0)
  have "unat n + unat (os_page env) - 1 = pages_end (os_page env) (unat n) +
      (unat n + unat (os_page env) - 1) mod unat (os_page env)"
    unfolding pages_end_def by simp
  moreover have "(unat n + unat (os_page env) - 1) mod unat (os_page env) < unat (os_page env)"
    using nz by simp
  moreover have "unat (os_page env) = 2 ^ k" using k by (simp add: unat_exp)
  then have "unat (os_page env) dvd 2 ^ 64"
    using k(2) by (simp only:) (intro le_imp_power_dvd, simp)
  then have "pages_end (os_page env) (unat n) + unat (os_page env) \<le> 2 ^ 64"
    using assms(2) by (intro dvd_room) auto
  ultimately have "unat n + unat (os_page env) \<le> 2 ^ 64" by linarith
  from unat_page_align [OF k this]
  show u: "unat (page_align (os_page env) n) = pages_end (os_page env) (unat n)" .
  show "page_align (os_page env) n mod os_page env = 0"
    using u by (simp add: word_arith_nat_mod)
qed

lemma in_pages_align:
  assumes "os_ok env" "pages_end (os_page env) (unat n) < 2 ^ 64"
  shows "in_pages (os_page env) a (unat (page_align (os_page env) n)) x \<longleftrightarrow>
    unat (x - a) < pages_end (os_page env) (unat n)"
  using os_page_nonzero [OF assms(1)]
  by (simp add: in_pages_def page_align_ok [OF assms] pages_end_dvd)

lemma protect_ok:
  assumes os: "os_ok env" "page_size st = os_page env"
    and sz: "sh_size st hdr = Inr sz" "pages_end (os_page env) (unat sz) < 2 ^ 64"
    and base: "base mod os_page env = 0"
    and mapped: "\<And>x. unat (x - base) < pages_end (os_page env) (unat sz) \<Longrightarrow>
      prot_at (mem st) x \<noteq> None"
  shows "protect env base hdr p st = Inr (st\<lparr>mem := (mem st)\<lparr>prot_at := (\<lambda>x.
    if unat (x - base) < pages_end (os_page env) (unat sz) then Some p
    else prot_at (mem st) x)\<rparr>\<rparr>)"
proof -
  have idem: "pages_end (os_page env) (unat (page_align (os_page env) sz)) =
      pages_end (os_page env) (unat sz)"
    using os_page_nonzero [OF os(1)] by (simp add: page_align_ok [OF os(1) sz(2)] pages_end_dvd)
  have "prot_at (mem st) (base + of_nat i) \<noteq> None" if "i < pages_end (os_page env) (unat sz)" for i
    using that sz(2) by (intro mapped) (simp add: unat_of_nat take_bit_nat_eq_self_iff)
  then have "mprotect env base (page_align (os_page env) sz) p (mem st) =
      Inr ((mem st)\<lparr>prot_at := (\<lambda>x. if unat (x - base) < pages_end (os_page env) (unat sz)
        then Some p else prot_at (mem st) x)\<rparr>)"
    using base by (auto simp: mprotect_def idem in_pages_align [OF os(1) sz(2)])
  then show ?thesis
    by (simp add: protect_def sz(1) os(2))
qed

text \<open>The bytes of a section in the file.\<close>

definition section_bytes :: "loader \<Rightarrow> u64 \<Rightarrow> ld_stop + bytes" where
  "section_bytes st s =
     rbind (sh_offset st s) (\<lambda>off.
     rbind (sh_size st s) (\<lambda>sz. load_bytes (mem st) (unat sz) (obj_base st + off)))"

lemma section_bytes_mono [mono_reads]:
  assumes "section_bytes st s = Inr bs" "sub_st st st'"
  shows "section_bytes st' s = Inr bs"
  using assms(1) field_mono [OF assms(2)] sub_st_same [OF assms(2)]
    load_bytes_mono [OF _ sub_st_mem [OF assms(2)]]
  by (auto simp: section_bytes_def rbind_eq_Inr_iff)

lemma copy_section_ok:
  assumes bs: "section_bytes st s = Inr bs"
    and w: "\<And>i. i < length bs \<Longrightarrow> allows (mem st) can_write (dst + of_nat i)"
  shows "copy_section dst s st = Inr (st\<lparr>mem := poke dst bs (mem st)\<rparr>)"
proof -
  obtain off sz where o: "sh_offset st s = Inr off" "sh_size st s = Inr sz"
    and l: "load_bytes (mem st) (unat sz) (obj_base st + off) = Inr bs"
    using bs by (auto simp: section_bytes_def rbind_eq_Inr_iff)
  have "length bs = unat sz" using l by (rule length_load_bytes)
  then have "memcpy (mem st) dst (obj_base st + off) sz = Inr (poke dst bs (mem st))"
    using l w by (auto simp: memcpy_Inr_iff)
  then show ?thesis using o by (simp add: copy_section_def)
qed

text \<open>
  The block of the copies: \<open>n\<close> bytes at \<open>a\<close>, the text at its start, the other sections at
  their offsets.
\<close>

definition block_mem ::
    "u64 \<Rightarrow> u64 \<Rightarrow> nat \<Rightarrow> u64 \<Rightarrow> u64 \<Rightarrow> bytes \<Rightarrow> bytes \<Rightarrow> bytes \<Rightarrow> memory \<Rightarrow> memory" where
  "block_mem pg a n kd kr text data rodata m =
     poke (a + kr) rodata (poke (a + kd) data (poke a text (map_pages pg a n RW (\<lambda>_. 0) m)))"

definition unmapped :: "u64 \<Rightarrow> nat \<Rightarrow> memory \<Rightarrow> bool" where
  "unmapped a n m \<longleftrightarrow> (\<forall>x. unat (x - a) < n \<longrightarrow> prot_at m x = None)"

lemma sub_mem_map_pages:
  "unmapped a (pages_end pg n) m \<Longrightarrow> sub_mem m (map_pages pg a n p f m)"
  by (auto simp: sub_mem_def map_pages_def in_pages_def unmapped_def allows_def)

lemma sub_mem_poke:
  assumes "sub_mem m m'" "unmapped a n m" "unat k + length bs \<le> n" "n \<le> 2 ^ 64"
  shows "sub_mem m (poke (a + k) bs m')"
proof -
  have "\<not> unat (x - (a + k)) < length bs" if "allows m can_read x" for x
  proof
    assume "unat (x - (a + k)) < length bs"
    then have "unat (x - a) < n" using assms(3,4) by (auto simp: offset_in)
    then show False using assms(2) that by (simp add: unmapped_def allows_def)
  qed
  then show ?thesis using assms(1) by (simp add: sub_mem_def byte_at_poke)
qed

lemma prot_at_block [simp]:
  "prot_at (block_mem pg a n kd kr text data rodata m) x =
     (if unat (x - a) < pages_end pg n then Some RW else prot_at m x)"
  by (simp add: block_mem_def map_pages_def in_pages_def)

lemma allows_block:
  "allows (block_mem pg a n kd kr text data rodata m) can_write x \<longleftrightarrow>
     (if unat (x - a) < pages_end pg n then True else allows m can_write x)"
  "allows (block_mem pg a n kd kr text data rodata m) can_read x \<longleftrightarrow>
     (if unat (x - a) < pages_end pg n then True else allows m can_read x)"
  by (simp_all add: allows_def)

text \<open>The sections in the block do not overlap, and lie inside it.\<close>

definition block_fits :: "u64 \<Rightarrow> nat \<Rightarrow> u64 \<Rightarrow> u64 \<Rightarrow> bytes \<Rightarrow> bytes \<Rightarrow> bytes \<Rightarrow> bool" where
  "block_fits pg n kd kr text data rodata \<longleftrightarrow>
     length text \<le> unat kd \<and> unat kd + length data \<le> unat kr \<and>
     unat kr + length rodata \<le> pages_end pg n \<and> pages_end pg n \<le> 2 ^ 64"

lemma block_bytes:
  assumes "block_fits pg n kd kr text data rodata"
  shows "load_bytes (block_mem pg a n kd kr text data rodata m) (length text) a = Inr text"
    and "load_bytes (block_mem pg a n kd kr text data rodata m) (length data) (a + kd) = Inr data"
    and "load_bytes (block_mem pg a n kd kr text data rodata m) (length rodata) (a + kr) = Inr rodata"
proof -
  note fits = assms [unfolded block_fits_def]
  let ?p = "map_pages pg a n RW (\<lambda>_. 0) m"
  have rd: "allows ?p can_read (a + k + of_nat i)" if "i < l" "unat k + l \<le> pages_end pg n" for k l i
  proof -
    have i: "i < 2 ^ 64" using that fits by linarith
    have "unat (a + k + of_nat i - (a + k)) < l" using that(1) i by (simp add: unat_of_nat take_bit_nat_eq_self_iff)
    then have "unat (a + k + of_nat i - a) < pages_end pg n"
      using offset_in [of k l "a + k + of_nat i" a] that(2) fits by auto
    then show ?thesis by (simp add: map_pages_def in_pages_def allows_def)
  qed
  have off: "unat (a + k + of_nat i - a) = unat k + i"
    if "i < l" "unat k + l \<le> pages_end pg n" for k l i
  proof -
    have "unat k + i < 2 ^ 64" using that fits by linarith
    then show ?thesis by (simp add: unat_plus_of_nat)
  qed
  have out: "\<not> unat (a + k + of_nat i - (a + k')) < l'"
    if "i < l" "unat k + l \<le> pages_end pg n" "unat k' + l' \<le> pages_end pg n"
      "unat k + l \<le> unat k' \<or> unat k' + l' \<le> unat k" for k k' l l' i
    using off [OF that(1,2)] that offset_in [of k' l' "a + k + of_nat i" a] fits by auto
  have ro: "load_bytes (block_mem pg a n kd kr text data rodata m) (length rodata) (a + kr) =
      Inr rodata"
    unfolding block_mem_def using rd [of _ "length rodata" kr] fits
    by (intro load_poke) auto
  show "load_bytes (block_mem pg a n kd kr text data rodata m) (length rodata) (a + kr) = Inr rodata"
    by (rule ro)
  have "load_bytes (block_mem pg a n kd kr text data rodata m) (length data) (a + kd) =
      load_bytes (poke (a + kd) data (poke a text ?p)) (length data) (a + kd)"
    unfolding block_mem_def using out [of _ "length data" kd kr "length rodata"] fits
    by (intro load_poke_outside) auto
  also have "\<dots> = Inr data"
    using rd [of _ "length data" kd] fits by (intro load_poke) auto
  finally show "load_bytes (block_mem pg a n kd kr text data rodata m) (length data) (a + kd) =
      Inr data" .
  have "load_bytes (block_mem pg a n kd kr text data rodata m) (length text) a =
      load_bytes (poke (a + kd) data (poke a text ?p)) (length text) a"
    unfolding block_mem_def using out [of _ "length text" 0 kr "length rodata"] fits
    by (intro load_poke_outside) auto
  also have "\<dots> = load_bytes (poke a text ?p) (length text) a"
    using out [of _ "length text" 0 kd "length data"] fits by (intro load_poke_outside) auto
  also have "\<dots> = Inr text"
    using rd [of _ "length text" 0] fits by (intro load_poke) auto
  finally show "load_bytes (block_mem pg a n kd kr text data rodata m) (length text) a = Inr text" .
qed

text \<open>
  \<open>allocate\<close> and the copies, in closed form: \<open>a\<close> is the address the kernel chooses, in a part of
  the address space where nothing is mapped.
\<close>

definition block_size :: "os_env \<Rightarrow> u64 \<Rightarrow> u64 \<Rightarrow> u64 \<Rightarrow> u64 \<Rightarrow> u64" where
  "block_size env tsz dsz rsz extra = page_align (os_page env) tsz + page_align (os_page env) dsz +
     page_align (os_page env) rsz + extra"

text \<open>The number of bytes of whole pages the sections take.\<close>

abbreviation "pages env n \<equiv> pages_end (os_page env) (unat n)"

definition block_st :: "os_env \<Rightarrow> u64 \<Rightarrow> u64 \<Rightarrow> u64 \<Rightarrow> u64 \<Rightarrow> u64 \<Rightarrow> bytes \<Rightarrow> bytes \<Rightarrow> bytes \<Rightarrow> loader \<Rightarrow> loader"
  where
  "block_st env tsz dsz rsz extra a text data rodata st =
     (let kd = page_align (os_page env) tsz; kr = kd + page_align (os_page env) dsz in
      st\<lparr>mem := block_mem (os_page env) a (unat (block_size env tsz dsz rsz extra)) kd kr
           text data rodata (mem st),
         text_runtime_base := a, data_runtime_base := a + kd, rodata_runtime_base := a + kr\<rparr>)"

lemma block_sizes:
  assumes os: "os_ok env"
    and fits: "pages env tsz + pages env dsz + pages env rsz + unat extra < 2 ^ 64"
  shows "unat (page_align (os_page env) tsz) = pages env tsz"
    and "unat (page_align (os_page env) tsz + page_align (os_page env) dsz) =
      pages env tsz + pages env dsz"
    and "unat (block_size env tsz dsz rsz extra) =
      pages env tsz + pages env dsz + pages env rsz + unat extra"
proof -
  have al: "unat (page_align (os_page env) n) = pages env n" if "pages env n < 2 ^ 64" for n
    using that by (rule page_align_ok(1) [OF os])
  show t: "unat (page_align (os_page env) tsz) = pages env tsz"
    using fits by (intro al) linarith
  have d: "unat (page_align (os_page env) dsz) = pages env dsz"
    using fits by (intro al) linarith
  have r: "unat (page_align (os_page env) rsz) = pages env rsz"
    using fits by (intro al) linarith
  show td: "unat (page_align (os_page env) tsz + page_align (os_page env) dsz) =
      pages env tsz + pages env dsz"
    using fits t d by (subst unat_add_lem [THEN iffD1]) auto
  have tdr: "unat (page_align (os_page env) tsz + page_align (os_page env) dsz +
      page_align (os_page env) rsz) = pages env tsz + pages env dsz + pages env rsz"
    using fits td r by (subst unat_add_lem [THEN iffD1]) auto
  show "unat (block_size env tsz dsz rsz extra) =
      pages env tsz + pages env dsz + pages env rsz + unat extra"
    unfolding block_size_def using fits tdr by (subst unat_add_lem [THEN iffD1]) auto
qed

lemma fits_of_sizes:
  assumes os: "os_ok env" and len: "length text = unat tsz" "length data = unat dsz"
      "length rodata = unat rsz"
    and fits: "pages env tsz + pages env dsz + pages env rsz + unat extra < 2 ^ 64"
    and whole: "unat (os_page env) dvd unat extra"
  shows "pages_end (os_page env) (unat (block_size env tsz dsz rsz extra)) =
      pages env tsz + pages env dsz + pages env rsz + unat extra" (is ?A)
    and "block_fits (os_page env) (unat (block_size env tsz dsz rsz extra))
      (page_align (os_page env) tsz) (page_align (os_page env) tsz + page_align (os_page env) dsz)
      text data rodata" (is ?B)
proof -
  note nz = os_page_nonzero [OF os]
  note sz = block_sizes [OF os fits]
  show A: ?A
    unfolding sz(3) using whole by (intro pages_end_dvd [OF nz] dvd_add) auto
  show ?B
    unfolding block_fits_def A unfolding sz len
    using pages_end_ge [OF nz, of "unat tsz"] pages_end_ge [OF nz, of "unat dsz"]
      pages_end_ge [OF nz, of "unat rsz"] fits by auto
qed

lemma allocate_copy:
  assumes os: "os_ok env" "page_size st = os_page env"
    and sz: "sh_size st th = Inr tsz" "sh_size st dh = Inr dsz" "sh_size st rh = Inr rsz"
    and bytes: "section_bytes st th = Inr text" "section_bytes st dh = Inr data"
      "section_bytes st rh = Inr rodata"
    and fits: "pages env tsz + pages env dsz + pages env rsz + unat extra < 2 ^ 64"
    and whole: "unat (os_page env) dvd unat extra"
    and some: "block_size env tsz dsz rsz extra \<noteq> 0"
    and kernel: "anon_addr env (block_size env tsz dsz rsz extra) = Inr a"
      "unmapped a (pages env tsz + pages env dsz + pages env rsz + unat extra) (mem st)"
  shows "rbind (allocate env th dh rh extra st) (copy_sections th dh rh) =
    Inr (block_st env tsz dsz rsz extra a text data rodata st)"
proof -
  let ?n = "unat (block_size env tsz dsz rsz extra)"
  let ?kd = "page_align (os_page env) tsz" and ?kr = "page_align (os_page env) tsz + page_align (os_page env) dsz"
  have len: "length text = unat tsz" "length data = unat dsz" "length rodata = unat rsz"
    using bytes sz by (auto simp: section_bytes_def rbind_eq_Inr_iff dest: length_load_bytes)
  note F = fits_of_sizes [OF os(1) len fits whole]
  note fit = F(2) [unfolded block_fits_def]
  have un: "unmapped a (pages_end (os_page env) ?n) (mem st)"
    using kernel(2) by (simp only: F(1))
  let ?m0 = "map_pages (os_page env) a ?n RW (\<lambda>_. 0) (mem st)"
  let ?S = "\<lambda>m. st\<lparr>text_runtime_base := a, data_runtime_base := a + ?kd,
    rodata_runtime_base := a + ?kr, mem := m\<rparr>"
  have al: "allocate env th dh rh extra st = Inr (?S ?m0)"
    using sz some kernel(1) os(2)
    by (simp add: allocate_def mmap_anon_def block_size_def add.assoc)
  have s0: "sub_mem (mem st) ?m0" by (rule sub_mem_map_pages [OF un])
  have s1: "sub_mem (mem st) (poke a text ?m0)"
    using sub_mem_poke [OF s0 un, of 0 "text"] fit by simp
  have s2: "sub_mem (mem st) (poke (a + ?kd) data (poke a text ?m0))"
    using fit by (intro sub_mem_poke [OF s1 un]) auto
  have sub: "sub_st st (?S m)" if "sub_mem (mem st) m" for m
    using that by (simp add: sub_st_def tables_def)
  have w: "allows ?m0 can_write (a + k + of_nat i)"
    if "i < l" "unat k + l \<le> pages_end (os_page env) ?n" for k l i
  proof -
    have i: "i < 2 ^ 64" using that fit by linarith
    then have "unat (a + k + of_nat i - (a + k)) < l"
      using that(1) by (simp add: unat_of_nat take_bit_nat_eq_self_iff)
    then have "unat (a + k + of_nat i - a) < pages_end (os_page env) ?n"
      using offset_in [of k l "a + k + of_nat i" a] that(2) fit by auto
    then show ?thesis by (simp add: map_pages_def in_pages_def allows_def)
  qed
  have c1: "copy_section a th (?S ?m0) = Inr (?S (poke a text ?m0))"
    using copy_section_ok [OF section_bytes_mono [OF bytes(1) sub [OF s0]], of a]
      w [of _ "length text" 0] fit by simp
  have c2: "copy_section (a + ?kd) dh (?S (poke a text ?m0)) =
      Inr (?S (poke (a + ?kd) data (poke a text ?m0)))"
    using copy_section_ok [OF section_bytes_mono [OF bytes(2) sub [OF s1]], of "a + ?kd"]
      w [of _ "length data" ?kd] fit by simp
  have c3: "copy_section (a + ?kr) rh (?S (poke (a + ?kd) data (poke a text ?m0))) =
      Inr (?S (poke (a + ?kr) rodata (poke (a + ?kd) data (poke a text ?m0))))"
    using copy_section_ok [OF section_bytes_mono [OF bytes(3) sub [OF s2]], of "a + ?kr"]
      w [of _ "length rodata" ?kr] fit by simp
  have "rbind (allocate env th dh rh extra st) (copy_sections th dh rh) =
      Inr (?S (poke (a + ?kr) rodata (poke (a + ?kd) data (poke a text ?m0))))"
    unfolding al copy_sections_def using c1 c2 c3 by simp
  then show ?thesis
    by (simp add: block_st_def block_mem_def Let_def add.assoc)
qed

lemma sub_st_block:
  assumes "os_ok env" "length text = unat tsz" "length data = unat dsz" "length rodata = unat rsz"
    and "pages env tsz + pages env dsz + pages env rsz + unat extra < 2 ^ 64"
    and "unat (os_page env) dvd unat extra"
    and un: "unmapped a (pages env tsz + pages env dsz + pages env rsz + unat extra) (mem st)"
  shows "sub_st st (block_st env tsz dsz rsz extra a text data rodata st)"
proof -
  note F = fits_of_sizes [OF assms(1-6)]
  note fit = F(2) [unfolded block_fits_def]
  have un': "unmapped a (pages_end (os_page env) (unat (block_size env tsz dsz rsz extra))) (mem st)"
    using un by (simp only: F(1))
  have "sub_mem (mem st) (poke (a + 0) text (map_pages (os_page env) a
      (unat (block_size env tsz dsz rsz extra)) RW (\<lambda>_. 0) (mem st)))"
    using fit by (intro sub_mem_poke [OF sub_mem_map_pages [OF un'] un']) auto
  then show ?thesis
    using fit by (auto simp: sub_st_def tables_def block_st_def block_mem_def Let_def
        intro!: sub_mem_poke [OF _ un'])
qed

section \<open>Relocations\<close>

text \<open>\<open>section_runtime_base\<close>: where the copy of a section is, by the section's name.\<close>

definition section_runtime_base :: "loader \<Rightarrow> u64 \<Rightarrow> ld_stop + u64" where
  "section_runtime_base st s =
     rbind (sh_name st s) (\<lambda>off.
     rbind (cstring (mem st) (shstrtab st + ucast off)) (\<lambda>section_name.
       if section_name = lit ''.text'' then Inr (text_runtime_base st)
       else if section_name = lit ''.data'' then Inr (data_runtime_base st)
       else if section_name = lit ''.rodata'' then Inr (rodata_runtime_base st)
       else Inl (Exit ENOENT)))"

text \<open>
  A relocation as the file describes it: the place to patch is an offset in the text; the symbol
  is an offset in one of the copied sections, or an undefined symbol with a name.
\<close>

datatype place = Text_copy | Data_copy | Rodata_copy
datatype target = Local place u64 | External bytes

record reloc =
  rl_offset :: u64
  rl_type :: "32 word"
  rl_target :: target
  rl_addend :: u64

fun place_base :: "loader \<Rightarrow> place \<Rightarrow> u64" where
  "place_base st Text_copy = text_runtime_base st"
| "place_base st Data_copy = data_runtime_base st"
| "place_base st Rodata_copy = rodata_runtime_base st"

definition section_place :: "loader \<Rightarrow> u64 \<Rightarrow> ld_stop + place" where
  "section_place st s =
     rbind (sh_name st s) (\<lambda>off.
     rbind (cstring (mem st) (shstrtab st + ucast off)) (\<lambda>section_name.
       if section_name = lit ''.text'' then Inr Text_copy
       else if section_name = lit ''.data'' then Inr Data_copy
       else if section_name = lit ''.rodata'' then Inr Rodata_copy
       else Inl (Exit ENOENT)))"

definition place_of_name :: "bytes \<Rightarrow> ld_stop + place" where
  "place_of_name nm =
     (if nm = lit ''.text'' then Inr Text_copy
      else if nm = lit ''.data'' then Inr Data_copy
      else if nm = lit ''.rodata'' then Inr Rodata_copy
      else Inl (Exit ENOENT))"

lemma section_place_Inr_iff:
  "section_place st s = Inr p \<longleftrightarrow> (\<exists>off nm. sh_name st s = Inr off \<and>
     cstring (mem st) (shstrtab st + ucast off) = Inr nm \<and> place_of_name nm = Inr p)"
  unfolding section_place_def place_of_name_def [symmetric] by (auto simp: rbind_eq_Inr_iff)

lemma section_runtime_base_place:
  assumes "section_place st s = Inr p"
  shows "section_runtime_base st s = Inr (place_base st p)"
proof -
  obtain off nm where o: "sh_name st s = Inr off"
    "cstring (mem st) (shstrtab st + ucast off) = Inr nm" and p: "place_of_name nm = Inr p"
    using assms by (auto simp: section_place_Inr_iff)
  have "section_runtime_base st s =
      (if nm = lit ''.text'' then Inr (text_runtime_base st)
       else if nm = lit ''.data'' then Inr (data_runtime_base st)
       else if nm = lit ''.rodata'' then Inr (rodata_runtime_base st)
       else Inl (Exit ENOENT))"
    using o by (simp only: section_runtime_base_def rbind_simps)
  then show ?thesis using p unfolding place_of_name_def by (simp only: split: if_splits) auto
qed

lemma section_place_mono [mono_reads]:
  assumes "section_place st s = Inr p" "sub_st st st'"
  shows "section_place st' s = Inr p"
  using assms(1) field_mono(4,14) [OF assms(2)] sub_st_same(3) [OF assms(2)]
  unfolding section_place_Inr_iff by metis

definition read_target :: "bool \<Rightarrow> loader \<Rightarrow> u64 \<Rightarrow> ld_stop + target" where
  "read_target ext st s =
     rbind (st_shndx st s) (\<lambda>ndx.
       if ext \<and> ndx = SHN_UNDEF then
         rbind (st_name st s) (\<lambda>off.
         rbind (cstring (mem st) (strtab st + ucast off)) (\<lambda>nm. Inr (External nm)))
       else
         rbind (section_place st (section_at st ndx)) (\<lambda>p.
         rbind (st_value st s) (\<lambda>v. Inr (Local p v))))"

definition read_reloc :: "bool \<Rightarrow> loader \<Rightarrow> u64 \<Rightarrow> ld_stop + reloc" where
  "read_reloc ext st r =
     rbind (r_info st r) (\<lambda>info.
     rbind (r_offset st r) (\<lambda>off.
     rbind (read_target ext st (symbol_at st (ELF64_R_SYM info))) (\<lambda>t.
     rbind (r_addend st r) (\<lambda>A.
       Inr \<lparr>rl_offset = off, rl_type = ELF64_R_TYPE info, rl_target = t, rl_addend = A\<rparr>))))"

text \<open>\<open>relocs ext st rs\<close>: the relocation table of the object is \<open>rs\<close>.\<close>

definition relocs :: "bool \<Rightarrow> loader \<Rightarrow> reloc list \<Rightarrow> bool" where
  "relocs ext st rs \<longleftrightarrow> (\<exists>n base. rela_text st = Inr (n, base) \<and> length rs = nat (sint n) \<and>
     (\<forall>i<length rs. read_reloc ext st (base + 24 * of_nat i) = Inr (rs ! i)))"

lemma read_reloc_obtain:
  assumes "read_reloc ext st addr = Inr r"
  obtains info where "r_info st addr = Inr info" "r_offset st addr = Inr (rl_offset r)"
    "read_target ext st (symbol_at st (ELF64_R_SYM info)) = Inr (rl_target r)"
    "r_addend st addr = Inr (rl_addend r)" "rl_type r = ELF64_R_TYPE info"
  using assms by (auto simp: read_reloc_def rbind_eq_Inr_iff)

lemma rela_text_mono [mono_reads]:
  assumes "rela_text st = Inr p" "sub_st st st'"
  shows "rela_text st' = Inr p"
proof -
  obtain s n off where "need_section ''.rela.text'' st = Inr s" "entries st s = Inr n"
    "sh_offset st s = Inr off" "p = (n, obj_base st + off)"
    using assms(1) by (auto simp: rela_text_def rbind_eq_Inr_iff)
  then show ?thesis
    using need_section_mono [OF _ assms(2)] entries_mono [OF _ assms(2)] field_mono(5) [OF assms(2)]
      sub_st_same(1) [OF assms(2)]
    by (simp add: rela_text_def)
qed

text \<open>
  A loop over the table: when each step turns a state that stands for \<open>x\<close> into one that stands
  for \<open>f r x\<close>, the loop folds \<open>f\<close> over the relocations. The relation may depend on the index.
\<close>

lemma rela_loop_rel:
  assumes step: "\<And>i x st. i < length rs \<Longrightarrow> R (k + i) x st \<Longrightarrow>
      \<exists>st'. step (base + 24 * of_nat (k + i)) st = Inr st' \<and> R (Suc (k + i)) (f (rs ! i) x) st'"
    and "R k x st"
  shows "\<exists>st'. rela_loop step (length rs) base k st = Inr st' \<and> R (k + length rs) (fold f rs x) st'"
  using assms
proof (induction rs arbitrary: k x st)
  case Nil
  then show ?case by simp
next
  case (Cons r rs)
  obtain st1 where 1: "step (base + 24 * of_nat k) st = Inr st1" "R (Suc k) (f r x) st1"
    using Cons.prems(1) [of 0 x st] Cons.prems(2) by auto
  have "\<exists>st'. rela_loop step (length rs) base (Suc k) st1 = Inr st' \<and>
      R (Suc k + length rs) (fold f rs (f r x)) st'"
  proof (rule Cons.IH [OF _ 1(2)])
    fix i x st assume "i < length rs" "R (Suc k + i) x st"
    then show "\<exists>st'. step (base + 24 * of_nat (Suc k + i)) st = Inr st' \<and>
        R (Suc (Suc k + i)) (f (rs ! i) x) st'"
      using Cons.prems(1) [of "Suc i" x st] by simp
  qed
  then show ?case using 1(1) by simp
qed

lemma for_relocations_rel:
  assumes rs: "relocs ext st0 rs" and sub: "sub_st st0 st"
    and step: "\<And>i addr x st. i < length rs \<Longrightarrow> read_reloc ext st0 addr = Inr (rs ! i) \<Longrightarrow> R i x st \<Longrightarrow>
      \<exists>st'. step addr st = Inr st' \<and> R (Suc i) (f (rs ! i) x) st'"
    and R: "R 0 x st"
  shows "\<exists>st'. for_relocations step st = Inr st' \<and> R (length rs) (fold f rs x) st'"
proof -
  obtain n base where tab: "rela_text st0 = Inr (n, base)" and len: "length rs = nat (sint n)"
    and each: "\<And>i. i < length rs \<Longrightarrow> read_reloc ext st0 (base + 24 * of_nat i) = Inr (rs ! i)"
    using rs by (auto simp: relocs_def)
  have "\<exists>st'. rela_loop step (length rs) base 0 st = Inr st' \<and> R (0 + length rs) (fold f rs x) st'"
    using R each by (intro rela_loop_rel) (auto intro: step)
  then show ?thesis
    using rela_text_mono [OF tab sub] len by (simp add: for_relocations_def)
qed

text \<open>What no round changes, the loop does not change.\<close>

lemma rela_loop_keeps:
  assumes "\<And>addr st st'. step addr st = Inr st' \<Longrightarrow> f st' = f st"
  shows "rela_loop step k base i st = Inr st' \<Longrightarrow> f st' = f st"
  by (induction k arbitrary: i st) (auto simp: rbind_eq_Inr_iff dest: assms)

lemma for_relocations_keeps:
  assumes "\<And>addr st st'. step addr st = Inr st' \<Longrightarrow> f st' = f st"
    and "for_relocations step st = Inr st'"
  shows "f st' = f st"
  using assms(2) rela_loop_keeps [of step f, OF assms(1)]
  by (auto simp: for_relocations_def rbind_eq_Inr_iff)

section \<open>Patching the text\<close>

text \<open>The four-byte sites of two relocations do not overlap.\<close>

definition apart :: "reloc \<Rightarrow> reloc \<Rightarrow> bool" where
  "apart r r' \<longleftrightarrow> unat (rl_offset r) + 4 \<le> unat (rl_offset r') \<or> unat (rl_offset r') + 4 \<le> unat (rl_offset r)"


text \<open>
  \<open>text_now st0 bs st\<close>: \<open>st\<close> is \<open>st0\<close> after patches to the text, which now is \<open>bs\<close>.
\<close>

definition text_now :: "loader \<Rightarrow> bytes \<Rightarrow> loader \<Rightarrow> bool" where
  "text_now st0 bs st \<longleftrightarrow> st = st0\<lparr>mem := mem st\<rparr> \<and> prot_at (mem st) = prot_at (mem st0) \<and>
     (\<forall>x. length bs \<le> unat (x - text_runtime_base st0) \<longrightarrow> byte_at (mem st) x = byte_at (mem st0) x) \<and>
     load_bytes (mem st) (length bs) (text_runtime_base st0) = Inr bs"

lemma text_now_start:
  "load_bytes (mem st) (length bs) (text_runtime_base st) = Inr bs \<Longrightarrow> text_now st bs st"
  by (simp add: text_now_def)

lemma text_now_bases:
  assumes "text_now st0 bs st"
  shows "place_base st p = place_base st0 p" "text_runtime_base st = text_runtime_base st0"
    "data_runtime_base st = data_runtime_base st0" "rodata_runtime_base st = rodata_runtime_base st0"
proof -
  have st: "st = st0\<lparr>mem := mem st\<rparr>" using assms by (simp add: text_now_def)
  show b: "text_runtime_base st = text_runtime_base st0"
    "data_runtime_base st = data_runtime_base st0" "rodata_runtime_base st = rodata_runtime_base st0"
    by (subst st, simp)+
  show "place_base st p = place_base st0 p" by (cases p) (simp_all add: b)
qed

lemma text_now_sub:
  assumes "text_now st0 bs st" "sub_st st1 st0"
    "unmapped (text_runtime_base st0) n (mem st1)" "length bs \<le> n"
  shows "sub_st st1 st"
proof -
  have st: "st = st0\<lparr>mem := mem st\<rparr>" and p: "prot_at (mem st) = prot_at (mem st0)"
    and b: "\<And>x. length bs \<le> unat (x - text_runtime_base st0) \<Longrightarrow> byte_at (mem st) x = byte_at (mem st0) x"
    using assms(1) by (auto simp: text_now_def)
  have "tables st = tables st0" by (subst st) (simp add: tables_def)
  moreover have "sub_mem (mem st1) (mem st)"
    unfolding sub_mem_def
  proof (intro allI impI)
    fix x assume x: "allows (mem st1) can_read x"
    then have "\<not> unat (x - text_runtime_base st0) < n"
      using assms(3) by (auto simp: unmapped_def allows_def)
    then have "byte_at (mem st) x = byte_at (mem st0) x" using b assms(4) by simp
    then show "allows (mem st) can_read x \<and> byte_at (mem st) x = byte_at (mem st1) x"
      using x assms(2) p by (simp add: sub_st_def sub_mem_def allows_def)
  qed
  ultimately show ?thesis using assms(2) by (simp add: sub_st_def)
qed

lemma text_now_store:
  assumes now: "text_now st0 bs st" and len: "length bs \<le> 2 ^ 64"
    and w: "\<And>x. unat (x - text_runtime_base st0) < length bs \<Longrightarrow> allows (mem st0) can_write x"
    and site: "unat off + 4 \<le> length bs"
  shows "store32 (mem st) (text_runtime_base st0 + off) v =
      Inr (poke (text_runtime_base st0 + off) (le_bytes 4 v) (mem st))"
    and "text_now st0 (array_write bs (unat off) (le_bytes 4 v))
      (st\<lparr>mem := poke (text_runtime_base st0 + off) (le_bytes 4 v) (mem st)\<rparr>)"
proof -
  let ?a = "text_runtime_base st0"
  have in_text: "unat (x - ?a) < length bs" if "unat (x - (?a + off)) < 4" for x
    using that offset_in [of off 4 x ?a] site len by simp
  have al: "allows (mem st) = allows (mem st0)"
    using now by (intro ext) (simp add: text_now_def allows_def)
  have "allows (mem st) can_write (?a + off + of_nat i)" if "i < 4" for i
    unfolding al
    using that by (intro w in_text) (simp add: unat_of_nat take_bit_nat_eq_self_iff)
  then show "store32 (mem st) (?a + off) v = Inr (poke (?a + off) (le_bytes 4 v) (mem st))"
    by (simp add: store32_Inr_iff)
  have "load_bytes (poke (?a + off) (le_bytes 4 v) (mem st)) (length bs) ?a =
      Inr (array_write bs (unat off) (le_bytes 4 v))"
    using now site len by (intro load_poke_inside) (auto simp: text_now_def)
  moreover have "byte_at (poke (?a + off) (le_bytes 4 v) (mem st)) x = byte_at (mem st) x"
    if "length bs \<le> unat (x - ?a)" for x
    using in_text [of x] that by (auto simp: byte_at_poke)
  ultimately show "text_now st0 (array_write bs (unat off) (le_bytes 4 v))
      (st\<lparr>mem := poke (?a + off) (le_bytes 4 v) (mem st)\<rparr>)"
    using now site by (cases st0, cases st) (simp add: text_now_def)
qed

section \<open>parse_obj\<close>

text \<open>
  \<open>parse_obj\<close> of the versions without external symbols, over the relocation pass of the version.
\<close>

definition parse_obj_with ::
    "(loader \<Rightarrow> ld_stop + loader) \<Rightarrow> os_env \<Rightarrow> loader \<Rightarrow> ld_stop + loader" where
  "parse_obj_with do_relocations env st =
     rbind (parse_tables env st) (\<lambda>st.
     rbind (need_section ''.text'' st) (\<lambda>text_hdr.
     rbind (need_section ''.data'' st) (\<lambda>data_hdr.
     rbind (need_section ''.rodata'' st) (\<lambda>rodata_hdr.
     rbind (allocate env text_hdr data_hdr rodata_hdr 0 st) (\<lambda>st.
     rbind (copy_sections text_hdr data_hdr rodata_hdr st) (\<lambda>st.
     rbind (do_relocations st) (\<lambda>st.
     rbind (protect env (text_runtime_base st) text_hdr RX st) (\<lambda>st.
       protect env (rodata_runtime_base st) rodata_hdr RO st))))))))"

text \<open>An object, as its tables describe it.\<close>

record object =
  o_text :: bytes
  o_data :: bytes
  o_rodata :: bytes
  o_relocs :: "reloc list"

definition is_object :: "bool \<Rightarrow> loader \<Rightarrow> object \<Rightarrow> bool" where
  "is_object ext st ob \<longleftrightarrow> (\<exists>th dh rh.
     need_section ''.text'' st = Inr th \<and> section_bytes st th = Inr (o_text ob) \<and>
     need_section ''.data'' st = Inr dh \<and> section_bytes st dh = Inr (o_data ob) \<and>
     need_section ''.rodata'' st = Inr rh \<and> section_bytes st rh = Inr (o_rodata ob) \<and>
     relocs ext st (o_relocs ob))"

text \<open>The sizes of the copies in whole pages, and the offsets of the copies in the block.\<close>

definition text_pages :: "os_env \<Rightarrow> object \<Rightarrow> nat" where
  "text_pages env ob = pages_end (os_page env) (length (o_text ob))"
definition data_pages :: "os_env \<Rightarrow> object \<Rightarrow> nat" where
  "data_pages env ob = pages_end (os_page env) (length (o_data ob))"
definition rodata_pages :: "os_env \<Rightarrow> object \<Rightarrow> nat" where
  "rodata_pages env ob = pages_end (os_page env) (length (o_rodata ob))"

lemmas page_counts = text_pages_def data_pages_def rodata_pages_def

definition all_pages :: "os_env \<Rightarrow> object \<Rightarrow> nat" where
  "all_pages env ob = text_pages env ob + data_pages env ob + rodata_pages env ob"

text \<open>Where the three copies are when the block is at \<open>a\<close>.\<close>

fun place_at :: "os_env \<Rightarrow> object \<Rightarrow> u64 \<Rightarrow> place \<Rightarrow> u64" where
  "place_at env ob a Text_copy = a"
| "place_at env ob a Data_copy = a + of_nat (text_pages env ob)"
| "place_at env ob a Rodata_copy = a + of_nat (text_pages env ob + data_pages env ob)"

text \<open>
  \<open>image env ob t a e m m'\<close>: the memory \<open>m'\<close> is \<open>m\<close> with the block at \<open>a\<close> that holds the
  text \<open>t\<close> and the data of the object, each copy on pages of its own with its own protection, and
  \<open>e\<close> bytes of executable pages behind them.
\<close>

definition image :: "os_env \<Rightarrow> object \<Rightarrow> bytes \<Rightarrow> u64 \<Rightarrow> nat \<Rightarrow> memory \<Rightarrow> memory \<Rightarrow> bool" where
  "image env ob t a e m m' \<longleftrightarrow>
     load_bytes m' (length t) a = Inr t \<and>
     load_bytes m' (length (o_data ob)) (place_at env ob a Data_copy) = Inr (o_data ob) \<and>
     load_bytes m' (length (o_rodata ob)) (place_at env ob a Rodata_copy) = Inr (o_rodata ob) \<and>
     (\<forall>x. prot_at m' x =
        (if unat (x - a) < text_pages env ob then Some RX
         else if unat (x - a) < text_pages env ob + data_pages env ob then Some RW
         else if unat (x - a) < all_pages env ob then Some RO
         else if unat (x - a) < all_pages env ob + e then Some RX
         else prot_at m x)) \<and>
     (\<forall>x. all_pages env ob + e \<le> unat (x - a) \<longrightarrow> byte_at m' x = byte_at m x)"

lemma section_loop_size:
  "section_loop st name i = Inr (Some s) \<Longrightarrow> \<exists>sz. sh_size st s = Inr sz \<and> sz \<noteq> 0"
proof (induction st name i rule: section_loop.induct)
  case (1 st name i)
  show ?case
    using "1.prems" "1.IH"
    by (subst (asm) section_loop.simps [of st name i])
      (auto simp: rbind_eq_Inr_iff split: if_splits; blast)
qed

lemma need_section_size:
  assumes "need_section name st = Inr s" "section_bytes st s = Inr bs"
  shows "sh_size st s = Inr (of_nat (length bs))" "bs \<noteq> []" "length bs < 2 ^ 64"
proof -
  obtain sz where sz: "sh_size st s = Inr sz" "sz \<noteq> 0"
    using assms(1) section_loop_size [of st "lit name" 0 s]
    by (auto simp: need_section_def lookup_section_def rbind_eq_Inr_iff split: option.splits if_splits)
  have len: "length bs = unat sz"
    using assms(2) sz by (auto simp: section_bytes_def rbind_eq_Inr_iff dest: length_load_bytes)
  show "sh_size st s = Inr (of_nat (length bs))" using sz by (simp add: len)
  show "bs \<noteq> []" using len sz(2) by (auto simp: unat_eq_zero)
  show "length bs < 2 ^ 64" using len unat_less_exp [of sz] by simp
qed

text \<open>No page is both writable and executable.\<close>

definition wx :: "memory \<Rightarrow> bool" where
  "wx m \<longleftrightarrow> (\<forall>x. \<not> (allows m can_write x \<and> allows m can_exec x))"

lemma wx_step:
  assumes "wx m" "\<And>x. prot_at m' x = prot_at m x \<or> prot_at m' x \<in> {Some RW, Some RX, Some RO}"
  shows "wx m'"
  unfolding wx_def
proof
  fix x
  show "\<not> (allows m' can_write x \<and> allows m' can_exec x)"
    using assms(2) [of x] assms(1) unfolding wx_def allows_def by (elim disjE) auto
qed

lemma prot_allocate:
  "allocate env th dh rh extra st = Inr st' \<Longrightarrow>
     prot_at (mem st') x = prot_at (mem st) x \<or> prot_at (mem st') x \<in> {Some RW, Some RX, Some RO}"
  by (auto simp: allocate_def rbind_eq_Inr_iff mmap_anon_def map_pages_def split: if_splits sum.splits)

lemma prot_copy_section: "copy_section d s st = Inr st' \<Longrightarrow> prot_at (mem st') = prot_at (mem st)"
  by (auto simp: copy_section_def rbind_eq_Inr_iff memcpy_Inr_iff)

lemma prot_copy_sections:
  "copy_sections th dh rh st = Inr st' \<Longrightarrow> prot_at (mem st') = prot_at (mem st)"
  by (auto simp: copy_sections_def rbind_eq_Inr_iff dest!: prot_copy_section)

lemma prot_protect:
  "protect env b hdr p st = Inr st' \<Longrightarrow> prot_at (mem st') x = prot_at (mem st) x \<or> prot_at (mem st') x = Some p"
  by (auto simp: protect_def mprotect_def rbind_eq_Inr_iff split: if_splits)

lemma mem_parse_tables: "parse_tables env st = Inr st' \<Longrightarrow> mem st' = mem st"
  by (auto simp: parse_tables_def rbind_eq_Inr_iff Let_def)

text \<open>The protections of the three copies.\<close>

lemma pages_of_nat: "n < 2 ^ 64 \<Longrightarrow> pages env (of_nat n :: u64) = pages_end (os_page env) n"
  by (simp add: unat_of_nat take_bit_nat_eq_self_iff)

lemma page_align_of_nat:
  assumes "os_ok env" "n < 2 ^ 64" "pages_end (os_page env) n < 2 ^ 64"
  shows "page_align (os_page env) (of_nat n) = of_nat (pages_end (os_page env) n)"
proof -
  have "unat (page_align (os_page env) (of_nat n)) = pages_end (os_page env) n"
    using page_align_ok(1) [OF assms(1), of "of_nat n"] assms(2,3) by (simp add: pages_of_nat)
  then show ?thesis using assms(3) by (simp add: word_unat_eq_iff unat_of_nat take_bit_nat_eq_self_iff)
qed

lemma base_aligned:
  assumes "os_ok env" "a mod os_page env = 0" "unat (os_page env) dvd n"
  shows "(a + of_nat n) mod os_page env = 0"
proof -
  obtain k where k: "os_page env = 2 ^ k" "k < 64" using assms(1) by (auto simp: os_ok_def)
  have m: "w mod 2 ^ k = take_bit k w" for w :: u64 by (simp add: take_bit_eq_mod)
  have "(2::nat) ^ k dvd n" using assms(3) k by (simp add: unat_exp)
  moreover have "take_bit k (unat a) = 0"
    using assms(2) unfolding k m by (metis unsigned_take_bit_eq unsigned_0)
  then have "(2::nat) ^ k dvd unat a" by (simp add: take_bit_eq_0_iff)
  ultimately have "take_bit k (unat a + n) = 0" by (simp add: take_bit_eq_0_iff)
  then have "take_bit k (of_nat (unat a + n) :: u64) = 0"
    by (subst take_bit_of_nat) (simp del: of_nat_add)
  then have "take_bit k (a + of_nat n) = 0" by simp
  then show ?thesis unfolding k m .
qed

lemma object_sizes:
  assumes "os_ok env" "all_pages env ob < 2 ^ 64"
  shows "length (o_text ob) \<le> text_pages env ob" "length (o_data ob) \<le> data_pages env ob"
    "length (o_rodata ob) \<le> rodata_pages env ob"
    "unat (of_nat (text_pages env ob) :: u64) = text_pages env ob"
    "unat (of_nat (text_pages env ob + data_pages env ob) :: u64) = text_pages env ob + data_pages env ob"
  using assms pages_end_ge [OF os_page_nonzero [OF assms(1)]]
  by (auto simp: page_counts all_pages_def unat_of_nat take_bit_nat_eq_self_iff simp del: of_nat_add)

lemma protect_image:
  assumes os: "os_ok env" "page_size st = os_page env"
    and sz: "sh_size st th = Inr (of_nat (length (o_text ob)))" "sh_size st rh = Inr (of_nat (length (o_rodata ob)))"
    and base: "text_runtime_base st = a" "rodata_runtime_base st = place_at env ob a Rodata_copy"
    and al: "a mod os_page env = 0" and fits: "all_pages env ob < 2 ^ 64"
    and mapped: "\<And>x. unat (x - a) < all_pages env ob \<Longrightarrow> prot_at (mem st) x \<noteq> None"
  shows "rbind (protect env (text_runtime_base st) th RX st)
      (\<lambda>st. protect env (rodata_runtime_base st) rh RO st) =
    Inr (st\<lparr>mem := (mem st)\<lparr>prot_at := (\<lambda>x.
      if unat (x - a) < text_pages env ob then Some RX
      else if unat (x - a) < text_pages env ob + data_pages env ob then prot_at (mem st) x
      else if unat (x - a) < all_pages env ob then Some RO else prot_at (mem st) x)\<rparr>\<rparr>)"
proof -
  let ?k = "text_pages env ob + data_pages env ob"
  note S = object_sizes [OF os(1) fits]
  have t: "length (o_text ob) < 2 ^ 64" "length (o_rodata ob) < 2 ^ 64"
    using S fits by (auto simp: all_pages_def)
  have pt: "pages env (of_nat (length (o_text ob)) :: u64) = text_pages env ob"
    "pages env (of_nat (length (o_rodata ob)) :: u64) = rodata_pages env ob"
    using t by (simp_all add: pages_of_nat page_counts)
  have dv: "unat (os_page env) dvd ?k" by (simp add: page_counts)
  have off: "unat (x - (a + of_nat ?k)) < rodata_pages env ob \<longleftrightarrow>
      ?k \<le> unat (x - a) \<and> unat (x - a) < all_pages env ob" for x
    using offset_in [of "of_nat ?k" "rodata_pages env ob" x a] S(5) fits
    by (simp add: all_pages_def del: of_nat_add)
  let ?st1 = "st\<lparr>mem := (mem st)\<lparr>prot_at := (\<lambda>x. if unat (x - a) < text_pages env ob then Some RX
    else prot_at (mem st) x)\<rparr>\<rparr>"
  have 1: "protect env a th RX st = Inr ?st1"
    using protect_ok [OF os sz(1), of a RX] al mapped fits
    unfolding pt by (simp add: all_pages_def)
  have sz2: "sh_size ?st1 rh = Inr (of_nat (length (o_rodata ob)))"
  proof -
    have "sub_st st ?st1"
      using mapped by (auto simp: sub_st_def tables_def sub_mem_def allows_def)
    then show ?thesis using field_mono(6) sz(2) by blast
  qed
  have 2: "protect env (a + of_nat ?k) rh RO ?st1 = Inr (st\<lparr>mem := (mem st)\<lparr>prot_at := (\<lambda>x.
      if unat (x - (a + of_nat ?k)) < rodata_pages env ob then Some RO
      else if unat (x - a) < text_pages env ob then Some RX else prot_at (mem st) x)\<rparr>\<rparr>)"
  proof -
    have "prot_at (mem ?st1) x \<noteq> None" if "unat (x - (a + of_nat ?k)) < rodata_pages env ob" for x
      using that mapped [of x] by (simp add: off del: of_nat_add)
    then show ?thesis
      using protect_ok [OF os(1) _ sz2, of "a + of_nat ?k" RO] base_aligned [OF os(1) al dv] os(2) fits
      unfolding pt by (simp add: all_pages_def del: of_nat_add cong: if_cong)
  qed
  have ro: "rodata_runtime_base st = a + of_nat ?k" using base(2) by simp
  have eq: "(\<lambda>x. if unat (x - (a + of_nat ?k)) < rodata_pages env ob then Some RO
        else if unat (x - a) < text_pages env ob then Some RX else prot_at (mem st) x) =
      (\<lambda>x. if unat (x - a) < text_pages env ob then Some RX
      else if unat (x - a) < ?k then prot_at (mem st) x
      else if unat (x - a) < all_pages env ob then Some RO else prot_at (mem st) x)"
    by (intro ext) (auto simp: off simp del: of_nat_add)
  show ?thesis
    using 1 2 unfolding eq base(1) by (simp add: ro del: of_nat_add)
qed

section \<open>The block of an object\<close>

lemma page_size_parse_tables:
  "parse_tables env st = Inr st' \<Longrightarrow> page_size st' = os_page env"
  by (auto simp: parse_tables_def rbind_eq_Inr_iff Let_def)

lemma byte_at_block:
  assumes "block_fits pg n kd kr text data rodata" "pages_end pg n \<le> unat (x - a)"
  shows "byte_at (block_mem pg a n kd kr text data rodata m) x = byte_at m x"
proof -
  note fits = assms(1) [unfolded block_fits_def]
  have "\<not> unat (x - (a + k)) < l" if "unat k + l \<le> pages_end pg n" for k l
    using offset_in [of k l x a] that assms(2) fits by simp
  from this [of 0 "length text"] this [of kd "length data"] this [of kr "length rodata"]
  show ?thesis
    using fits assms(2) by (simp add: block_mem_def byte_at_poke map_pages_def in_pages_def)
qed

lemma byte_behind_block:
  assumes "block_fits pg n kd kr text data rodata" "unat kr + length rodata \<le> unat (x - a)"
    "unat (x - a) < pages_end pg n"
  shows "byte_at (block_mem pg a n kd kr text data rodata m) x = 0"
proof -
  note fits = assms(1) [unfolded block_fits_def]
  have "\<not> unat (x - (a + k)) < l" if "unat k + l \<le> unat kr + length rodata" for k l
    using offset_in [of k l x a] that assms(2) fits by simp
  from this [of 0 "length text"] this [of kd "length data"] this [of kr "length rodata"]
  show ?thesis
    using fits assms(3) by (simp add: block_mem_def byte_at_poke map_pages_def in_pages_def)
qed

text \<open>
  \<open>in_block env ob a e st1 B\<close>: \<open>B\<close> is the state after the copies, with \<open>e\<close> more bytes behind
  the sections.
\<close>

definition in_block :: "os_env \<Rightarrow> object \<Rightarrow> u64 \<Rightarrow> nat \<Rightarrow> loader \<Rightarrow> loader \<Rightarrow> bool" where
  "in_block env ob a e st1 B \<longleftrightarrow>
     B = st1\<lparr>mem := mem B, text_runtime_base := a,
       data_runtime_base := place_at env ob a Data_copy,
       rodata_runtime_base := place_at env ob a Rodata_copy\<rparr> \<and>
     sub_st st1 B \<and>
     load_bytes (mem B) (length (o_text ob)) a = Inr (o_text ob) \<and>
     load_bytes (mem B) (length (o_data ob)) (place_at env ob a Data_copy) = Inr (o_data ob) \<and>
     load_bytes (mem B) (length (o_rodata ob)) (place_at env ob a Rodata_copy) = Inr (o_rodata ob) \<and>
     (\<forall>x. prot_at (mem B) x =
       (if unat (x - a) < all_pages env ob + e then Some RW else prot_at (mem st1) x)) \<and>
     (\<forall>x. all_pages env ob \<le> unat (x - a) \<longrightarrow> unat (x - a) < all_pages env ob + e \<longrightarrow>
        byte_at (mem B) x = 0) \<and>
     (\<forall>x. all_pages env ob + e \<le> unat (x - a) \<longrightarrow> byte_at (mem B) x = byte_at (mem st1) x)"

definition has_headers :: "loader \<Rightarrow> object \<Rightarrow> u64 \<Rightarrow> u64 \<Rightarrow> u64 \<Rightarrow> bool" where
  "has_headers st ob th dh rh \<longleftrightarrow>
     need_section ''.text'' st = Inr th \<and> section_bytes st th = Inr (o_text ob) \<and>
     need_section ''.data'' st = Inr dh \<and> section_bytes st dh = Inr (o_data ob) \<and>
     need_section ''.rodata'' st = Inr rh \<and> section_bytes st rh = Inr (o_rodata ob)"

lemma allocate_Inr:
  assumes "allocate env th dh rh extra st = Inr A" "page_size st = os_page env"
    and "sh_size st th = Inr tsz" "sh_size st dh = Inr dsz" "sh_size st rh = Inr rsz"
    and "anon_addr env (block_size env tsz dsz rsz extra) = Inr a"
    and "unmapped a (pages_end (os_page env) (unat (block_size env tsz dsz rsz extra))) (mem st)"
  shows "sub_st st A" "page_size A = os_page env" "curr_jmp_idx A = curr_jmp_idx st"
    "rodata_runtime_base A = a + page_align (os_page env) tsz + page_align (os_page env) dsz"
  using assms sub_mem_map_pages [OF assms(7)]
  by (auto simp: allocate_def mmap_anon_def block_size_def sub_st_def tables_def rbind_eq_Inr_iff
      split: if_splits)

lemma object_block:
  assumes os: "os_ok env" "page_size st1 = os_page env"
    and ob: "has_headers st1 ob th dh rh"
    and fits: "all_pages env ob + unat extra < 2 ^ 64" and whole: "unat (os_page env) dvd unat extra"
    and kernel: "anon_addr env (of_nat (all_pages env ob) + extra) = Inr a"
      "unmapped a (all_pages env ob + unat extra) (mem st1)"
  shows "\<exists>A B. allocate env th dh rh extra st1 = Inr A \<and> copy_sections th dh rh A = Inr B \<and>
    sub_st st1 A \<and> page_size A = os_page env \<and>
    rodata_runtime_base A = place_at env ob a Rodata_copy \<and>
    in_block env ob a (unat extra) st1 B"
proof -
  have need: "need_section ''.text'' st1 = Inr th"
      "need_section ''.data'' st1 = Inr dh" "need_section ''.rodata'' st1 = Inr rh"
    and bytes: "section_bytes st1 th = Inr (o_text ob)" "section_bytes st1 dh = Inr (o_data ob)"
      "section_bytes st1 rh = Inr (o_rodata ob)"
    using ob by (auto simp: has_headers_def)
  have fits0: "all_pages env ob < 2 ^ 64" using fits by linarith
  note S = object_sizes [OF os(1) fits0]
  note sz = need_section_size [OF need(1) bytes(1)] need_section_size [OF need(2) bytes(2)]
    need_section_size [OF need(3) bytes(3)]
  let ?t = "of_nat (length (o_text ob)) :: u64" and ?d = "of_nat (length (o_data ob)) :: u64"
    and ?r = "of_nat (length (o_rodata ob)) :: u64"
  have pg: "pages env ?t = text_pages env ob" "pages env ?d = data_pages env ob"
      "pages env ?r = rodata_pages env ob"
    using sz by (simp_all add: pages_of_nat page_counts)
  have fits': "pages env ?t + pages env ?d + pages env ?r + unat extra < 2 ^ 64"
    unfolding pg using fits by (simp add: all_pages_def)
  have al: "page_align (os_page env) ?t = of_nat (text_pages env ob)"
      "page_align (os_page env) ?d = of_nat (data_pages env ob)"
      "page_align (os_page env) ?r = of_nat (rodata_pages env ob)"
    using sz fits0 by (simp_all add: page_align_of_nat [OF os(1)] page_counts all_pages_def)
  have size: "block_size env ?t ?d ?r extra = of_nat (all_pages env ob) + extra"
    by (simp add: block_size_def al all_pages_def)
  have un: "unmapped a (pages env ?t + pages env ?d + pages env ?r + unat extra) (mem st1)"
    unfolding pg using kernel(2) by (simp add: all_pages_def)
  have pos: "block_size env ?t ?d ?r extra \<noteq> 0"
  proof -
    have "unat (block_size env ?t ?d ?r extra) = all_pages env ob + unat extra"
      using block_sizes(3) [OF os(1) fits'] by (simp only: pg) (simp add: all_pages_def)
    moreover have "0 < length (o_text ob)" using sz(2) by simp
    ultimately show ?thesis using S(1) by (auto simp: all_pages_def)
  qed
  have len: "length (o_text ob) = unat ?t" "length (o_data ob) = unat ?d"
      "length (o_rodata ob) = unat ?r"
    using sz by (simp_all add: unat_of_nat take_bit_nat_eq_self_iff)
  let ?B = "block_st env ?t ?d ?r extra a (o_text ob) (o_data ob) (o_rodata ob) st1"
  have "anon_addr env (block_size env ?t ?d ?r extra) = Inr a"
    using kernel(1) by (simp only: size)
  from allocate_copy [OF os sz(1) sz(4) sz(7) bytes fits' whole pos this un]
  have run: "rbind (allocate env th dh rh extra st1) (copy_sections th dh rh) = Inr ?B" .
  have sub: "sub_st st1 ?B" by (rule sub_st_block [OF os(1) len fits' whole un])
  note F = fits_of_sizes [OF os(1) len fits' whole]
  have e: "pages_end (os_page env) (unat (block_size env ?t ?d ?r extra)) = all_pages env ob + unat extra"
    using F(1) unfolding pg by (simp only: all_pages_def)
  have kr: "unat (of_nat (text_pages env ob) + of_nat (data_pages env ob) :: u64) + length (o_rodata ob)
      \<le> all_pages env ob"
    using S by (simp add: all_pages_def)
  have "in_block env ob a (unat extra) st1 ?B"
    using byte_behind_block [OF F(2), where a = a and m = "mem st1"] kr sub block_bytes [OF F(2), of a "mem st1"] byte_at_block [OF F(2), where a = a and m = "mem st1"]
    unfolding in_block_def block_st_def Let_def al e by (simp add: e)
  moreover obtain A where A: "allocate env th dh rh extra st1 = Inr A"
    "copy_sections th dh rh A = Inr ?B"
    using run by (auto simp: rbind_eq_Inr_iff)
  moreover have "unmapped a (pages_end (os_page env) (unat (block_size env ?t ?d ?r extra))) (mem st1)"
    unfolding e by (rule kernel(2))
  then have "sub_st st1 A" "page_size A = os_page env" "rodata_runtime_base A = place_at env ob a Rodata_copy"
    using allocate_Inr [OF A(1) os(2) sz(1) sz(4) sz(7) \<open>anon_addr env (block_size env ?t ?d ?r extra) = Inr a\<close>]
    by (simp_all add: al)
  ultimately show ?thesis by blast
qed

text \<open>
  From the block to the image: the text is patched, the protections are set.
\<close>

lemma image_of_block:
  assumes os: "os_ok env" and fits: "all_pages env ob + e < 2 ^ 64"
    and B: "in_block env ob a e st1 B" and len: "length t = length (o_text ob)"
    and m2: "load_bytes m2 (length t) a = Inr t"
      "\<And>x. length t \<le> unat (x - a) \<Longrightarrow> unat (x - a) < all_pages env ob \<or> all_pages env ob + e \<le> unat (x - a) \<Longrightarrow>
        byte_at m2 x = byte_at (mem B) x"
    and byte: "byte_at m' = byte_at m2"
    and prot: "\<And>x. prot_at m' x =
        (if unat (x - a) < text_pages env ob then Some RX
         else if unat (x - a) < text_pages env ob + data_pages env ob then Some RW
         else if unat (x - a) < all_pages env ob then Some RO
         else if unat (x - a) < all_pages env ob + e then Some RX
         else prot_at (mem st1) x)"
  shows "image env ob t a e (mem st1) m'"
proof -
  have fits0: "all_pages env ob < 2 ^ 64" using fits by linarith
  note S = object_sizes [OF os fits0]
  have rd: "allows m' can_read x" if "unat (x - a) < all_pages env ob" for x
    using that prot [of x] by (simp add: allows_def)
  have rdB: "allows (mem B) can_read x" if "unat (x - a) < all_pages env ob" for x
    using that B by (simp add: allows_def in_block_def)
  have al: "text_pages env ob + data_pages env ob \<le> all_pages env ob"
    "text_pages env ob + data_pages env ob + rodata_pages env ob = all_pages env ob"
    by (simp_all add: all_pages_def)
  have off: "unat (a + of_nat k + of_nat i - a) = k + i"
    if "k + i < all_pages env ob" for k i
  proof -
    have "a + of_nat k + of_nat i - a = (of_nat (k + i) :: u64)" by simp
    then show ?thesis using that fits0 by (simp only: unat_of_nat) (simp add: take_bit_nat_eq_self)
  qed
  have copy: "load_bytes m' n (a + of_nat k) = Inr bs"
    if "load_bytes (mem B) n (a + of_nat k) = Inr bs" "length t \<le> k" "k + n \<le> all_pages env ob"
    for n k bs
  proof -
    have "unat (a + of_nat k + of_nat i - a) = k + i" if "i < n" for i
      using that \<open>k + n \<le> all_pages env ob\<close> by (intro off) linarith
    then have "load_bytes m' n (a + of_nat k) = load_bytes (mem B) n (a + of_nat k)"
      using that by (intro load_bytes_cong) (simp_all add: rd rdB byte m2(2) del: of_nat_add)
    then show ?thesis using that(1) by simp
  qed
  have tx: "load_bytes m' (length t) a = Inr t"
  proof -
    have "allows m' can_read (a + of_nat i)" if "i < length t" for i
      using that len S(1) al off [of 0 i] by (intro rd) simp
    then show ?thesis using m2(1) byte by (simp add: load_bytes_Inr_iff)
  qed
  have "load_bytes m' (length (o_data ob)) (a + of_nat (text_pages env ob)) = Inr (o_data ob)"
    using B S len al by (intro copy) (auto simp: in_block_def)
  moreover have "load_bytes m' (length (o_rodata ob))
      (a + of_nat (text_pages env ob + data_pages env ob)) = Inr (o_rodata ob)"
    using B S len al by (intro copy) (auto simp: in_block_def simp del: of_nat_add)
  moreover have "byte_at m' x = byte_at (mem st1) x" if "all_pages env ob + e \<le> unat (x - a)" for x
    using that m2(2) [of x] B len S(1) al by (auto simp: byte in_block_def)
  ultimately show ?thesis
    using tx prot by (simp add: image_def del: of_nat_add)
qed

section \<open>The interface of a relocation pass\<close>

text \<open>A pass that changes no page protection: what \<open>parse_obj\<close> then does to the pages.\<close>

locale relocator =
  fixes reloc :: "loader \<Rightarrow> ld_stop + loader"
  assumes keeps_prot: "reloc st = Inr st' \<Longrightarrow> prot_at (mem st') = prot_at (mem st)"
begin

lemma parse_obj_keeps_wx:
  assumes "parse_obj_with reloc env st = Inr st'" "wx (mem st)"
  shows "wx (mem st')"
proof -
  obtain s1 th dh rh s2 s3 s4 s5 where s: "parse_tables env st = Inr s1"
    "allocate env th dh rh 0 s1 = Inr s2" "copy_sections th dh rh s2 = Inr s3"
    "reloc s3 = Inr s4" "protect env (text_runtime_base s4) th RX s4 = Inr s5"
    "protect env (rodata_runtime_base s5) rh RO s5 = Inr st'"
    using assms(1) by (auto simp: parse_obj_with_def rbind_eq_Inr_iff)
  have "wx (mem s1)" using assms(2) mem_parse_tables [OF s(1)] by simp
  then have "wx (mem s2)" by (rule wx_step) (rule prot_allocate [OF s(2)])
  moreover have "prot_at (mem s4) = prot_at (mem s2)"
    using prot_copy_sections [OF s(3)] keeps_prot [OF s(4)] by simp
  ultimately have "wx (mem s4)" by (simp add: wx_def allows_def)
  then have "wx (mem s5)" by (rule wx_step) (use prot_protect [OF s(5)] in blast)
  then show ?thesis by (rule wx_step) (use prot_protect [OF s(6)] in blast)
qed

end

text \<open>
  A pass that links: on an object whose relocations are \<open>good\<close> it folds \<open>patch\<close> over the text
  and changes nothing else. \<open>b\<close> are the addresses of the copies, \<open>rd\<close> are addresses that can be
  read.
\<close>

locale linker = relocator reloc for reloc +
  fixes patch :: "(place \<Rightarrow> u64) \<Rightarrow> reloc \<Rightarrow> bytes \<Rightarrow> bytes"
    and good :: "(u64 \<Rightarrow> bool) \<Rightarrow> (place \<Rightarrow> u64) \<Rightarrow> nat \<Rightarrow> reloc \<Rightarrow> bool"
  assumes patch_length: "good rd b n r \<Longrightarrow> length xs = n \<Longrightarrow> length (patch b r xs) = n"
    and links: "relocs False st0 rs \<Longrightarrow> sub_st st0 st \<Longrightarrow>
      unmapped (text_runtime_base st) (length bs) (mem st0) \<Longrightarrow> length bs \<le> 2 ^ 64 \<Longrightarrow>
      load_bytes (mem st) (length bs) (text_runtime_base st) = Inr bs \<Longrightarrow>
      (\<And>x. unat (x - text_runtime_base st) < length bs \<Longrightarrow> allows (mem st) can_write x) \<Longrightarrow>
      (\<And>x. rd x \<Longrightarrow> allows (mem st) can_read x) \<Longrightarrow>
      (\<And>r. r \<in> set rs \<Longrightarrow> good rd (place_base st) (length bs) r) \<Longrightarrow>
      \<exists>st'. reloc st = Inr st' \<and> text_now st (fold (patch (place_base st)) rs bs) st'"
begin

lemma fold_patch_length:
  assumes "\<And>r. r \<in> set rs \<Longrightarrow> good rd b (length bs) r"
  shows "length (fold (patch b) rs bs) = length bs"
  using assms
proof (induction rs arbitrary: bs)
  case Nil
  then show ?case by simp
next
  case (Cons r rs)
  have l: "length (patch b r bs) = length bs"
    using Cons.prems [of r] by (intro patch_length [OF _ refl]) simp
  have "length (fold (patch b) rs (patch b r bs)) = length (patch b r bs)"
    using Cons.prems by (intro Cons.IH) (simp add: l)
  then show ?case by (simp add: l)
qed

lemma parse_obj_image:
  assumes os: "os_ok env" and tab: "parse_tables env st = Inr st1"
    and ob: "is_object False st1 ob" and fits: "all_pages env ob < 2 ^ 64"
    and kernel: "anon_addr env (of_nat (all_pages env ob)) = Inr a" "a mod os_page env = 0"
      "unmapped a (all_pages env ob) (mem st)"
    and good: "\<And>r. r \<in> set (o_relocs ob) \<Longrightarrow>
      good (\<lambda>x. unat (x - a) < all_pages env ob) (place_at env ob a) (length (o_text ob)) r"
  shows "\<exists>st'. parse_obj_with reloc env st = Inr st' \<and>
    image env ob (fold (patch (place_at env ob a)) (o_relocs ob) (o_text ob)) a 0 (mem st) (mem st') \<and>
    st' = st1\<lparr>mem := mem st', text_runtime_base := a,
      data_runtime_base := place_at env ob a Data_copy,
      rodata_runtime_base := place_at env ob a Rodata_copy\<rparr>"
proof -
  obtain th dh rh where hdr: "has_headers st1 ob th dh rh" and rs: "relocs False st1 (o_relocs ob)"
    using ob by (auto simp: is_object_def has_headers_def)
  have m1: "mem st1 = mem st" by (rule mem_parse_tables [OF tab])
  have ps: "page_size st1 = os_page env" by (rule page_size_parse_tables [OF tab])
  note S = object_sizes [OF os fits]
  obtain A B where run: "allocate env th dh rh 0 st1 = Inr A" "copy_sections th dh rh A = Inr B"
    and B: "in_block env ob a 0 st1 B"
    using object_block [OF os ps hdr, of 0 a] fits kernel(1,3) by (auto simp: m1)
  have st: "B = st1\<lparr>mem := mem B, text_runtime_base := a,
      data_runtime_base := place_at env ob a Data_copy,
      rodata_runtime_base := place_at env ob a Rodata_copy\<rparr>"
    and sub: "sub_st st1 B" and tx: "load_bytes (mem B) (length (o_text ob)) a = Inr (o_text ob)"
    and prot: "\<And>x. prot_at (mem B) x = (if unat (x - a) < all_pages env ob then Some RW else prot_at (mem st1) x)"
    using B by (auto simp: in_block_def)
  have base: "text_runtime_base B = a" "page_size B = os_page env"
      "rodata_runtime_base B = place_at env ob a Rodata_copy"
    by (subst st, simp add: ps)+
  have pb: "place_base B = place_at env ob a"
  proof
    fix p show "place_base B p = place_at env ob a p"
      by (cases p; subst st) simp_all
  qed
  have le: "length (o_text ob) \<le> all_pages env ob" using S(1) by (simp add: all_pages_def)
  let ?t = "fold (patch (place_at env ob a)) (o_relocs ob) (o_text ob)"
  have len: "length ?t = length (o_text ob)" by (rule fold_patch_length) (rule good)
  have "\<exists>st2. reloc B = Inr st2 \<and> text_now B (fold (patch (place_base B)) (o_relocs ob) (o_text ob)) st2"
  proof (rule links [OF rs sub, where rd = "\<lambda>x. unat (x - a) < all_pages env ob"])
    show "unmapped (text_runtime_base B) (length (o_text ob)) (mem st1)"
      using kernel(3) le by (auto simp: base m1 unmapped_def)
    show "length (o_text ob) \<le> 2 ^ 64" using le fits by simp
    show "load_bytes (mem B) (length (o_text ob)) (text_runtime_base B) = Inr (o_text ob)"
      using tx by (simp add: base)
    show "allows (mem B) can_write x" if "unat (x - text_runtime_base B) < length (o_text ob)" for x
      using that le by (simp add: base prot allows_def)
    show "allows (mem B) can_read x" if "unat (x - a) < all_pages env ob" for x
      using that by (simp add: prot allows_def)
    show "good (\<lambda>x. unat (x - a) < all_pages env ob) (place_base B) (length (o_text ob)) r"
      if "r \<in> set (o_relocs ob)" for r
      using good [OF that] by (simp add: pb)
  qed
  then obtain st2 where rel: "reloc B = Inr st2" and now: "text_now B ?t st2"
    by (auto simp: pb)
  have st2: "st2 = B\<lparr>mem := mem st2\<rparr>" and prot2: "prot_at (mem st2) = prot_at (mem B)"
    using now by (auto simp: text_now_def)
  have base2: "text_runtime_base st2 = a" "page_size st2 = os_page env"
      "rodata_runtime_base st2 = place_at env ob a Rodata_copy"
    by (subst st2, simp add: base)+
  have sub2: "sub_st st1 st2"
    by (rule text_now_sub [OF now sub, of "all_pages env ob"]) (use kernel(3) le len in \<open>auto simp: base m1\<close>)
  have sz: "sh_size st2 th = Inr (of_nat (length (o_text ob)))"
      "sh_size st2 rh = Inr (of_nat (length (o_rodata ob)))"
    using hdr need_section_size(1) field_mono(6) [OF sub2] unfolding has_headers_def by blast+
  have mapped: "prot_at (mem st2) x \<noteq> None" if "unat (x - a) < all_pages env ob" for x
    using that by (simp add: prot2 prot)
  note P = protect_image [OF os base2(2) sz base2(1,3) kernel(2) fits mapped]
  let ?m = "(mem st2)\<lparr>prot_at := (\<lambda>x.
      if unat (x - a) < text_pages env ob then Some RX
      else if unat (x - a) < text_pages env ob + data_pages env ob then prot_at (mem st2) x
      else if unat (x - a) < all_pages env ob then Some RO else prot_at (mem st2) x)\<rparr>"
  have "image env ob ?t a 0 (mem st1) ?m"
  proof (rule image_of_block [OF os _ B len])
    show "all_pages env ob + 0 < 2 ^ 64" using fits by simp
    show "load_bytes (mem st2) (length ?t) a = Inr ?t" using now by (simp add: text_now_def base)
    show "byte_at (mem st2) x = byte_at (mem B) x" if "length ?t \<le> unat (x - a)" for x
      using now that by (simp add: text_now_def base)
    show "prot_at ?m x = (if unat (x - a) < text_pages env ob then Some RX
         else if unat (x - a) < text_pages env ob + data_pages env ob then Some RW
         else if unat (x - a) < all_pages env ob then Some RO
         else if unat (x - a) < all_pages env ob + 0 then Some RX
         else prot_at (mem st1) x)" for x
      by (simp add: prot2 prot all_pages_def)
  qed simp
  moreover have "parse_obj_with reloc env st = Inr (st2\<lparr>mem := ?m\<rparr>)"
    using tab hdr run rel P by (simp add: parse_obj_with_def has_headers_def)
  moreover have "st2\<lparr>mem := ?m\<rparr> = st1\<lparr>mem := ?m, text_runtime_base := a,
      data_runtime_base := place_at env ob a Data_copy,
      rodata_runtime_base := place_at env ob a Rodata_copy\<rparr>"
    by (subst st2, subst st) simp
  ultimately show ?thesis
    by (intro exI [of _ "st2\<lparr>mem := ?m\<rparr>"] conjI) (simp_all add: m1)
qed

end

end
