(* ===== verification/Jump_Table.thy ===== *)
theory Jump_Table
  imports Sections
begin

text \<open>
  What the loaders with external functions share (\<open>2021-03-obj-file/3/loader.c\<close> and
  \<open>4/3/loader.c\<close>): the count of external symbols, the jump table behind the sections, and
  \<open>parse_obj\<close>. A slot of the table has 16 bytes in both versions.

  The lemmas: the count is the number of slots the relocation pass fills, so the table is never
  left; the locale \<open>ext_linker\<close> gives \<open>parse_obj\<close> in closed form for every pass that fills the
  slots in order.
\<close>

unbundle bit_operations_syntax

section \<open>Operations\<close>

text \<open>The loop body of \<open>count_external_symbols\<close>.\<close>

definition count_step :: "u64 \<Rightarrow> loader \<Rightarrow> ld_stop + loader" where
  "count_step r st =
     rbind (r_info st r) (\<lambda>info.
     rbind (st_shndx st (symbol_at st (ELF64_R_SYM info))) (\<lambda>ndx.
       if ndx = SHN_UNDEF then Inr (st\<lparr>num_ext_symbols := num_ext_symbols st + 1\<rparr>) else Inr st))"

definition count_external_symbols :: "loader \<Rightarrow> ld_stop + loader" where
  "count_external_symbols st = for_relocations count_step st"

text \<open>The only external function the program has, at \<open>my_puts\<close>.\<close>

definition lookup_ext_function :: "u64 \<Rightarrow> bytes \<Rightarrow> ld_stop + u64" where
  "lookup_ext_function my_puts name =
     (if name = lit ''puts'' then Inr my_puts else Inl (Exit ENOENT))"

text \<open>The size of the table in whole pages.\<close>

definition table_size :: "loader \<Rightarrow> u64" where
  "table_size st = page_align (page_size st) (16 * scast (num_ext_symbols st))"

text \<open>\<open>jumptable\<close> is set behind the copy of \<open>.rodata\<close>.\<close>

definition set_jumptable :: "u64 \<Rightarrow> loader \<Rightarrow> ld_stop + loader" where
  "set_jumptable rodata_hdr st =
     rbind (sh_size st rodata_hdr) (\<lambda>sz.
       Inr (st\<lparr>jumptable := rodata_runtime_base st + page_align (page_size st) sz\<rparr>))"

definition protect_table :: "os_env \<Rightarrow> loader \<Rightarrow> ld_stop + loader" where
  "protect_table env st =
     rbind (mprotect env (jumptable st) (table_size st) RX (mem st)) (\<lambda>m. Inr (st\<lparr>mem := m\<rparr>))"

definition parse_obj_ext ::
    "(loader \<Rightarrow> ld_stop + loader) \<Rightarrow> os_env \<Rightarrow> loader \<Rightarrow> ld_stop + loader" where
  "parse_obj_ext do_relocations env st =
     rbind (parse_tables env st) (\<lambda>st.
     rbind (need_section ''.text'' st) (\<lambda>text_hdr.
     rbind (need_section ''.data'' st) (\<lambda>data_hdr.
     rbind (need_section ''.rodata'' st) (\<lambda>rodata_hdr.
     rbind (count_external_symbols st) (\<lambda>st.
     rbind (allocate env text_hdr data_hdr rodata_hdr (table_size st) st) (\<lambda>st.
     rbind (set_jumptable rodata_hdr st) (\<lambda>st.
     rbind (copy_sections text_hdr data_hdr rodata_hdr st) (\<lambda>st.
     rbind (do_relocations st) (\<lambda>st.
     rbind (protect env (text_runtime_base st) text_hdr RX st) (\<lambda>st.
     rbind (protect env (rodata_runtime_base st) rodata_hdr RO st) (\<lambda>st.
       protect_table env st)))))))))))"

section \<open>The count\<close>

fun is_external :: "reloc \<Rightarrow> bool" where
  "is_external r \<longleftrightarrow> (case rl_target r of External nm \<Rightarrow> True | Local p v \<Rightarrow> False)"

definition externals :: "reloc list \<Rightarrow> nat" where
  "externals rs = length (filter is_external rs)"

lemma externals_simps [simp]:
  "externals [] = 0"
  "externals (r # rs) = (if is_external r then Suc (externals rs) else externals rs)"
  by (simp_all add: externals_def)

lemma externals_take: "externals (take i rs) \<le> externals rs"
  unfolding externals_def
  by (metis append_take_drop_id filter_append le_add1 length_append)

lemma externals_take_Suc:
  "i < length rs \<Longrightarrow>
     externals (take (Suc i) rs) = externals (take i rs) + (if is_external (rs ! i) then 1 else 0)"
  by (simp add: externals_def take_Suc_conv_app_nth)

lemma externals_length: "externals rs \<le> length rs"
  by (simp add: externals_def)

lemma read_target_cases:
  assumes "read_target True st s = Inr t"
  obtains (Undef) off nm where "st_shndx st s = Inr SHN_UNDEF" "st_name st s = Inr off"
    "cstring (mem st) (strtab st + ucast off) = Inr nm" "t = External nm"
  | (Defined) ndx p v where "st_shndx st s = Inr ndx" "ndx \<noteq> SHN_UNDEF"
    "section_place st (section_at st ndx) = Inr p" "st_value st s = Inr v" "t = Local p v"
  using assms by (auto simp: read_target_def rbind_eq_Inr_iff split: if_splits)

lemma count_step_reloc:
  assumes r: "read_reloc True st0 addr = Inr r" and sub: "sub_st st0 st"
  shows "count_step addr st = Inr (if is_external r
    then st\<lparr>num_ext_symbols := num_ext_symbols st + 1\<rparr> else st)"
proof -
  obtain info where i: "r_info st0 addr = Inr info"
    and t: "read_target True st0 (symbol_at st0 (ELF64_R_SYM info)) = Inr (rl_target r)"
    using r by (rule read_reloc_obtain)
  note m = field_mono [OF sub] and same = sub_st_same [OF sub]
  from t show ?thesis
  proof (cases rule: read_target_cases)
    case Undef
    then show ?thesis using m(12) [OF i] m(9) by (simp add: count_step_def same)
  next
    case Defined
    then show ?thesis using m(12) [OF i] m(9) by (simp add: count_step_def same)
  qed
qed

lemma count_external_symbols_ok:
  assumes "relocs True st rs"
  shows "count_external_symbols st =
    Inr (st\<lparr>num_ext_symbols := num_ext_symbols st + of_nat (externals rs)\<rparr>)"
proof -
  let ?st = "\<lambda>i. st\<lparr>num_ext_symbols := num_ext_symbols st + of_nat (externals (take i rs))\<rparr>"
  have "\<exists>st'. for_relocations count_step st = Inr st' \<and> st' = ?st (length rs)"
  proof (rule for_relocations_rel [OF assms sub_st_refl, where R = "\<lambda>i (x :: unit) s. s = ?st i" and f = "\<lambda>_ x. x"])
    fix i addr and x :: unit and s
    assume i: "i < length rs" "read_reloc True st addr = Inr (rs ! i)" and s: "s = ?st i"
    have "sub_st st s" using s by (simp add: sub_st_def tables_def)
    from count_step_reloc [OF i(2) this]
    show "\<exists>st'. count_step addr s = Inr st' \<and> st' = ?st (Suc i)"
      using i(1) by (simp add: s externals_take_Suc add.assoc)
  qed simp
  then show ?thesis by (simp add: count_external_symbols_def)
qed

section \<open>Filling the table\<close>

lemma poke_append:
  assumes "length xs + length ys \<le> 2 ^ 64"
  shows "poke (a + of_nat (length xs)) ys (poke a xs m) = poke a (xs @ ys) m"
proof (cases "ys = []")
  case True
  then show ?thesis by simp
next
  case False
  then have l: "length xs < 2 ^ 64" using assms by (cases ys) auto
  have "(if unat (x - (a + of_nat (length xs))) < length ys then ys ! unat (x - (a + of_nat (length xs)))
      else if unat (x - a) < length xs then xs ! unat (x - a) else byte_at m x) =
    (if unat (x - a) < length (xs @ ys) then (xs @ ys) ! unat (x - a) else byte_at m x)" for x
    using offset_in [of "of_nat (length xs)" "length ys" x a] unat_diff_plus [of x a "of_nat (length xs)"]
      l assms by (auto simp: nth_append unat_of_nat take_bit_nat_eq_self_iff)
  then show ?thesis by (simp add: poke_def cong: if_cong)
qed

text \<open>
  \<open>link_now st0 (j, xs, tab) st\<close>: \<open>st\<close> is \<open>st0\<close> after some relocations; \<open>j\<close> slots are filled, the
  text is \<open>xs\<close>, the table \<open>tab\<close>.
\<close>

definition link_now :: "loader \<Rightarrow> nat \<times> bytes \<times> bytes \<Rightarrow> loader \<Rightarrow> bool" where
  "link_now st0 x st \<longleftrightarrow> (case x of (j, xs, tab) \<Rightarrow>
     st = st0\<lparr>mem := mem st, curr_jmp_idx := of_nat j\<rparr> \<and> prot_at (mem st) = prot_at (mem st0) \<and>
     load_bytes (mem st) (length xs) (text_runtime_base st0) = Inr xs \<and>
     load_bytes (mem st) (length tab) (jumptable st0) = Inr tab \<and>
     (\<forall>x. length xs \<le> unat (x - text_runtime_base st0) \<longrightarrow>
        length tab \<le> unat (x - jumptable st0) \<longrightarrow> byte_at (mem st) x = byte_at (mem st0) x))"

text \<open>The text and the table do not overlap and can be written.\<close>

definition link_room :: "loader \<Rightarrow> nat \<Rightarrow> nat \<Rightarrow> bool" where
  "link_room st0 n e \<longleftrightarrow> n \<le> 2 ^ 64 \<and> e \<le> 2 ^ 64 \<and>
     (\<forall>x. unat (x - text_runtime_base st0) < n \<longrightarrow>
        e \<le> unat (x - jumptable st0) \<and> allows (mem st0) can_write x) \<and>
     (\<forall>x. unat (x - jumptable st0) < e \<longrightarrow> allows (mem st0) can_write x)"

lemma link_now_fields:
  assumes "link_now st0 x st"
  shows "text_runtime_base st = text_runtime_base st0" "place_base st = place_base st0"
    "jumptable st = jumptable st0" "curr_jmp_idx st = of_nat (fst x)"
    "tables st = tables st0" "page_size st = page_size st0" "num_ext_symbols st = num_ext_symbols st0"
    "rodata_runtime_base st = rodata_runtime_base st0" "prot_at (mem st) = prot_at (mem st0)"
proof -
  obtain m where st: "st = st0\<lparr>mem := m, curr_jmp_idx := of_nat (fst x)\<rparr>"
    using assms by (auto simp: link_now_def split: prod.splits)
  show "text_runtime_base st = text_runtime_base st0"
    "jumptable st = jumptable st0" "curr_jmp_idx st = of_nat (fst x)"
    "tables st = tables st0" "page_size st = page_size st0" "num_ext_symbols st = num_ext_symbols st0"
    "rodata_runtime_base st = rodata_runtime_base st0"
    by (simp_all add: st tables_def)
  show "place_base st = place_base st0"
  proof
    fix p show "place_base st p = place_base st0 p" by (cases p) (simp_all add: st)
  qed
  show "prot_at (mem st) = prot_at (mem st0)" using assms by (auto simp: link_now_def)
qed

lemma load_other:
  assumes ld: "load_bytes m n b = Inr zs" and n: "n < 2 ^ 64"
    and out: "\<And>x. unat (x - b) < n \<Longrightarrow> \<not> unat (x - c) < length ys"
  shows "load_bytes (poke c ys m) n b = Inr zs"
proof -
  have "load_bytes (poke c ys m) n b = load_bytes m n b"
    using n by (intro load_poke_outside out) (simp add: unat_of_nat take_bit_nat_eq_self_iff)
  then show ?thesis using ld by simp
qed

lemma store_in:
  assumes "\<And>x. unat (x - b) < n \<Longrightarrow> allows m can_write x" "unat k + length ys \<le> n" "n \<le> 2 ^ 64"
    and "length ys < 2 ^ 64"
  shows "store_bytes m (b + k) ys = Inr (poke (b + k) ys m)"
proof -
  have "allows m can_write (b + k + of_nat i)" if "i < length ys" for i
  proof (rule assms(1))
    have "unat (b + k + of_nat i - (b + k)) < length ys"
      using that assms(4) by (simp add: unat_of_nat take_bit_nat_eq_self_iff)
    then show "unat (b + k + of_nat i - b) < n"
      using offset_in [of k "length ys" "b + k + of_nat i" b] assms(2,3) by simp
  qed
  then show ?thesis using assms(4) by (simp add: store_bytes_Inr_iff)
qed

lemma link_now_text:
  assumes now: "link_now st0 (j, xs, tab) st" and room: "link_room st0 (length xs) (length tab)"
    and site: "unat off + length ys \<le> length xs" "length ys < 2 ^ 64" and tab: "length tab < 2 ^ 64"
  shows "store_bytes (mem st) (text_runtime_base st0 + off) ys =
      Inr (poke (text_runtime_base st0 + off) ys (mem st))"
    and "link_now st0 (j, array_write xs (unat off) ys, tab)
      (st\<lparr>mem := poke (text_runtime_base st0 + off) ys (mem st)\<rparr>)"
proof -
  let ?a = "text_runtime_base st0" and ?t = "jumptable st0"
  note N = now [unfolded link_now_def prod.case]
  note R = room [unfolded link_room_def]
  have al: "allows (mem st) = allows (mem st0)" using N by (intro ext) (simp add: allows_def)
  show "store_bytes (mem st) (?a + off) ys = Inr (poke (?a + off) ys (mem st))"
    using R site by (intro store_in [where n = "length xs"]) (auto simp: al)
  have in_text: "unat (x - ?a) < length xs" if "unat (x - (?a + off)) < length ys" for x
    using that offset_in [of off "length ys" x ?a] site R by simp
  have "load_bytes (poke (?a + off) ys (mem st)) (length xs) ?a = Inr (array_write xs (unat off) ys)"
    using N R site by (intro load_poke_inside) auto
  moreover have "\<not> unat (x - (?a + off)) < length ys" if "unat (x - ?t) < length tab" for x
    using in_text [of x] R that leD by blast
  then have "load_bytes (poke (?a + off) ys (mem st)) (length tab) ?t = Inr tab"
    using N tab by (intro load_other) auto
  moreover have "byte_at (poke (?a + off) ys (mem st)) x = byte_at (mem st) x"
    if "length xs \<le> unat (x - ?a)" for x
    using in_text [of x] that by (auto simp: byte_at_poke)
  moreover have "st\<lparr>mem := m\<rparr> = st0\<lparr>mem := m, curr_jmp_idx := of_nat j\<rparr>" for m
    using N by (cases st0, cases st) simp
  ultimately show "link_now st0 (j, array_write xs (unat off) ys, tab)
      (st\<lparr>mem := poke (?a + off) ys (mem st)\<rparr>)"
    using N site by (simp add: link_now_def)
qed

lemma link_now_table:
  assumes now: "link_now st0 (j, xs, tab) st" and room: "link_room st0 (length xs) (length tab)"
    and slot: "unat k + length ys \<le> length tab" and len: "length ys < 2 ^ 64" "length xs < 2 ^ 64"
  shows "store_bytes (mem st) (jumptable st0 + k) ys = Inr (poke (jumptable st0 + k) ys (mem st))"
    and "link_now st0 (i, xs, array_write tab (unat k) ys)
      (st\<lparr>mem := poke (jumptable st0 + k) ys (mem st), curr_jmp_idx := of_nat i\<rparr>)"
proof -
  let ?a = "text_runtime_base st0" and ?t = "jumptable st0"
  note N = now [unfolded link_now_def prod.case]
  note R = room [unfolded link_room_def]
  have al: "allows (mem st) = allows (mem st0)" using N by (intro ext) (simp add: allows_def)
  show "store_bytes (mem st) (?t + k) ys = Inr (poke (?t + k) ys (mem st))"
    using R slot len by (intro store_in [where n = "length tab"]) (auto simp: al)
  have in_tab: "unat (x - ?t) < length tab" if "unat (x - (?t + k)) < length ys" for x
    using that offset_in [of k "length ys" x ?t] slot R by simp
  have "load_bytes (poke (?t + k) ys (mem st)) (length tab) ?t = Inr (array_write tab (unat k) ys)"
    using N R slot by (intro load_poke_inside) auto
  moreover have "\<not> unat (x - (?t + k)) < length ys" if "unat (x - ?a) < length xs" for x
    using in_tab [of x] R that leD by blast
  then have "load_bytes (poke (?t + k) ys (mem st)) (length xs) ?a = Inr xs"
    using N len by (intro load_other) auto
  moreover have "byte_at (poke (?t + k) ys (mem st)) x = byte_at (mem st) x"
    if "length tab \<le> unat (x - ?t)" for x
    using in_tab [of x] that by (auto simp: byte_at_poke)
  moreover have "st\<lparr>mem := m, curr_jmp_idx := c\<rparr> = st0\<lparr>mem := m, curr_jmp_idx := c\<rparr>" for m c
    using N by (cases st0, cases st) simp
  ultimately show "link_now st0 (i, xs, array_write tab (unat k) ys)
      (st\<lparr>mem := poke (?t + k) ys (mem st), curr_jmp_idx := of_nat i\<rparr>)"
    using N slot by (simp add: link_now_def)
qed

lemma link_now_sub:
  assumes now: "link_now st0 (j, xs, tab) st" and sub: "sub_st st1 st0"
    and un: "\<And>x. unat (x - text_runtime_base st0) < length xs \<or> unat (x - jumptable st0) < length tab \<Longrightarrow>
      prot_at (mem st1) x = None"
  shows "sub_st st1 st"
proof -
  note N = now [unfolded link_now_def prod.case]
  have "sub_mem (mem st1) (mem st)"
    unfolding sub_mem_def
  proof (intro allI impI)
    fix x assume x: "allows (mem st1) can_read x"
    then have "prot_at (mem st1) x \<noteq> None" by (auto simp: allows_def split: option.splits)
    then have "length xs \<le> unat (x - text_runtime_base st0)" "length tab \<le> unat (x - jumptable st0)"
      using un [of x] by (meson leI)+
    then have "byte_at (mem st) x = byte_at (mem st0) x" using N by blast
    then show "allows (mem st) can_read x \<and> byte_at (mem st) x = byte_at (mem st1) x"
      using x sub N by (simp add: sub_st_def sub_mem_def allows_def)
  qed
  then show ?thesis using sub link_now_fields(5) [OF now] by (simp add: sub_st_def)
qed

section \<open>parse_obj with a jump table\<close>

text \<open>
  What one relocation does to the number of filled slots, the text and the table: \<open>patch_at\<close> puts
  a symbol address into the text, \<open>slot\<close> is the code of a slot that goes to an address, and \<open>d\<close>
  the offset of its first instruction.
\<close>

definition link_step :: "((place \<Rightarrow> u64) \<Rightarrow> u64 \<Rightarrow> reloc \<Rightarrow> bytes \<Rightarrow> bytes) \<Rightarrow> (u64 \<Rightarrow> bytes) \<Rightarrow> u64 \<Rightarrow> u64 \<Rightarrow>
    (place \<Rightarrow> u64) \<Rightarrow> u64 \<Rightarrow> reloc \<Rightarrow> nat \<times> bytes \<times> bytes \<Rightarrow> nat \<times> bytes \<times> bytes" where
  "link_step patch_at slot d ext b jt r x = (case x of (j, xs, tab) \<Rightarrow>
     (case rl_target r of
        Local p v \<Rightarrow> (j, patch_at b (b p + v) r xs, tab)
      | External nm \<Rightarrow> (Suc j, patch_at b (jt + 16 * of_nat j + d) r xs, array_write tab (16 * j) (slot ext))))"

definition only_puts :: "reloc list \<Rightarrow> bool" where
  "only_puts rs \<longleftrightarrow> (\<forall>r\<in>set rs. \<forall>nm. rl_target r = External nm \<longrightarrow> nm = lit ''puts'')"

lemma copy_section_jumptable:
  "copy_section dst s st = Inr st' \<Longrightarrow>
     copy_section dst s (st\<lparr>jumptable := j\<rparr>) = Inr (st'\<lparr>jumptable := j\<rparr>)"
  by (auto simp: copy_section_def sh_offset_def sh_size_def rbind_eq_Inr_iff)

lemma copy_sections_jumptable:
  assumes "copy_sections th dh rh st = Inr st'"
  shows "copy_sections th dh rh (st\<lparr>jumptable := j\<rparr>) = Inr (st'\<lparr>jumptable := j\<rparr>)"
proof -
  obtain s1 s2 where c: "copy_section (text_runtime_base st) th st = Inr s1"
    "copy_section (data_runtime_base s1) dh s1 = Inr s2"
    "copy_section (rodata_runtime_base s2) rh s2 = Inr st'"
    using assms by (auto simp: copy_sections_def rbind_eq_Inr_iff)
  show ?thesis
    using copy_section_jumptable [OF c(1), of j] copy_section_jumptable [OF c(2), of j]
      copy_section_jumptable [OF c(3), of j]
    by (simp add: copy_sections_def)
qed

locale ext_linker = 
  fixes reloc :: "loader \<Rightarrow> ld_stop + loader"
    and patch_at :: "(place \<Rightarrow> u64) \<Rightarrow> u64 \<Rightarrow> reloc \<Rightarrow> bytes \<Rightarrow> bytes"
    and slot :: "u64 \<Rightarrow> bytes" and d :: u64 and my_puts :: u64
    and good :: "(u64 \<Rightarrow> bool) \<Rightarrow> (place \<Rightarrow> u64) \<Rightarrow> nat \<Rightarrow> reloc \<Rightarrow> bool"
  assumes keeps_prot: "reloc st = Inr st' \<Longrightarrow> prot_at (mem st') = prot_at (mem st)"
    and patch_at_length: "good rd b n r \<Longrightarrow> length xs = n \<Longrightarrow> length (patch_at b s r xs) = n"
    and slot_length: "length (slot v) \<le> 16"
    and links: "relocs True st0 rs \<Longrightarrow> sub_st st0 st \<Longrightarrow> curr_jmp_idx st = 0 \<Longrightarrow>
      link_room st (length xs) (length tab) \<Longrightarrow> length xs < 2 ^ 64 \<Longrightarrow> length tab < 2 ^ 64 \<Longrightarrow>
      (\<And>x. unat (x - text_runtime_base st) < length xs \<or> unat (x - jumptable st) < length tab \<Longrightarrow>
        prot_at (mem st0) x = None) \<Longrightarrow>
      load_bytes (mem st) (length xs) (text_runtime_base st) = Inr xs \<Longrightarrow>
      load_bytes (mem st) (length tab) (jumptable st) = Inr tab \<Longrightarrow>
      16 * externals rs \<le> length tab \<Longrightarrow> only_puts rs \<Longrightarrow>
      (\<And>x. rd x \<Longrightarrow> allows (mem st) can_read x) \<Longrightarrow>
      (\<And>r. r \<in> set rs \<Longrightarrow> good rd (place_base st) (length xs) r) \<Longrightarrow>
      \<exists>st'. reloc st = Inr st' \<and>
        link_now st (fold (link_step patch_at slot d my_puts (place_base st) (jumptable st)) rs (0, xs, tab)) st'"
begin

abbreviation "step \<equiv> link_step patch_at slot d my_puts"

lemma fold_step_lengths:
  assumes "\<And>r. r \<in> set rs \<Longrightarrow> good rd b (length xs) r" "16 * (j + externals rs) \<le> length tab"
    and "fold (step b jt) rs (j, xs, tab) = (j', xs', tab')"
  shows "j' = j + externals rs \<and> length xs' = length xs \<and> length tab' = length tab"
  using assms
proof (induction rs arbitrary: j xs tab)
  case Nil
  then show ?case by simp
next
  case (Cons r rs)
  have l: "length (patch_at b s r xs) = length xs" for s
    using Cons.prems(1) [of r] by (intro patch_at_length [OF _ refl]) simp
  show ?case
  proof (cases "rl_target r")
    case (Local p v)
    then show ?thesis
      using Cons.IH [of "patch_at b (b p + v) r xs" j tab] Cons.prems by (auto simp: link_step_def l)
  next
    case (External nm)
    have "length (array_write tab (16 * j) (slot my_puts)) = length tab"
      using Cons.prems(2) slot_length [of my_puts] External by (simp add: algebra_simps)
    then show ?thesis
      using Cons.IH [of "patch_at b (jt + 16 * of_nat j + d) r xs" "Suc j" "array_write tab (16 * j) (slot my_puts)"]
        Cons.prems External by (auto simp: link_step_def l)
  qed
qed

lemma parse_obj_ext_keeps_wx:
  assumes "parse_obj_ext reloc env st = Inr st'" "wx (mem st)"
  shows "wx (mem st')"
proof -
  obtain s1 th dh rh s2 s3 s4 s5 s6 s7 s8 where s: "parse_tables env st = Inr s1"
    "count_external_symbols s1 = Inr s2"
    "allocate env th dh rh (table_size s2) s2 = Inr s3" "set_jumptable rh s3 = Inr s4"
    "copy_sections th dh rh s4 = Inr s5"
    "reloc s5 = Inr s6" "protect env (text_runtime_base s6) th RX s6 = Inr s7"
    "protect env (rodata_runtime_base s7) rh RO s7 = Inr s8" "protect_table env s8 = Inr st'"
    using assms(1) by (auto simp: parse_obj_ext_def rbind_eq_Inr_iff)
  have c: "count_step addr st = Inr st' \<Longrightarrow> mem st' = mem st" for addr st st'
    by (auto simp: count_step_def rbind_eq_Inr_iff split: if_splits)
  have "mem s2 = mem s1"
    using s(2) unfolding count_external_symbols_def by (rule for_relocations_keeps [rotated]) (rule c)
  then have "wx (mem s2)" using assms(2) mem_parse_tables [OF s(1)] by simp
  then have "wx (mem s3)" by (rule wx_step) (rule prot_allocate [OF s(3)])
  moreover have "mem s4 = mem s3" using s(4) by (auto simp: set_jumptable_def rbind_eq_Inr_iff)
  then have "prot_at (mem s6) = prot_at (mem s3)"
    using prot_copy_sections [OF s(5)] keeps_prot [OF s(6)] by simp
  ultimately have "wx (mem s6)" by (simp add: wx_def allows_def)
  then have "wx (mem s7)" by (rule wx_step) (use prot_protect [OF s(7)] in blast)
  then have "wx (mem s8)" by (rule wx_step) (use prot_protect [OF s(8)] in blast)
  then show ?thesis
    by (rule wx_step) (use s(9) in \<open>auto simp: protect_table_def mprotect_def rbind_eq_Inr_iff split: if_splits\<close>)
qed

lemma parse_obj_ext_image:
  assumes os: "os_ok env" and tab: "parse_tables env st = Inr st1"
    and ob: "is_object True st1 ob"
    and start: "num_ext_symbols st = 0" "curr_jmp_idx st = 0"
    and e: "e = pages_end (os_page env) (16 * externals (o_relocs ob))"
    and fits: "all_pages env ob + e < 2 ^ 64"
    and kernel: "anon_addr env (of_nat (all_pages env ob + e)) = Inr a" "a mod os_page env = 0"
      "unmapped a (all_pages env ob + e) (mem st)"
    and names: "only_puts (o_relocs ob)"
    and good: "\<And>r. r \<in> set (o_relocs ob) \<Longrightarrow>
      good (\<lambda>x. unat (x - a) < all_pages env ob + e) (place_at env ob a) (length (o_text ob)) r"
    and linked: "fold (step (place_at env ob a) (a + of_nat (all_pages env ob))) (o_relocs ob)
      (0, o_text ob, replicate e 0) = (j, t, table)"
  shows "\<exists>st'. parse_obj_ext reloc env st = Inr st' \<and>
    image env ob t a e (mem st) (mem st') \<and>
    load_bytes (mem st') e (a + of_nat (all_pages env ob)) = Inr table \<and>
    j = externals (o_relocs ob) \<and> num_ext_symbols st' = of_nat j \<and> curr_jmp_idx st' = of_nat j"
proof -
  let ?rs = "o_relocs ob" and ?n = "externals (o_relocs ob)" and ?jt = "a + of_nat (all_pages env ob)"
  obtain th dh rh where hdr: "has_headers st1 ob th dh rh" and rs: "relocs True st1 ?rs"
    using ob by (auto simp: is_object_def has_headers_def)
  have m1: "mem st1 = mem st" by (rule mem_parse_tables [OF tab])
  have st1: "num_ext_symbols st1 = 0" "curr_jmp_idx st1 = 0" "page_size st1 = os_page env"
    using tab start by (auto simp: parse_tables_def rbind_eq_Inr_iff Let_def)
  have fits0: "all_pages env ob < 2 ^ 64" using fits by linarith
  note S = object_sizes [OF os fits0]
  let ?c = "st1\<lparr>num_ext_symbols := of_nat ?n\<rparr>"
  have cnt: "count_external_symbols st1 = Inr ?c"
    using count_external_symbols_ok [OF rs] st1(1) by simp
  have subc: "sub_st st1 ?c" by (simp add: sub_st_def tables_def)
  have hdrc: "has_headers ?c ob th dh rh"
    using hdr need_section_mono [OF _ subc] section_bytes_mono [OF _ subc]
    unfolding has_headers_def by blast
  have n31: "?n < 2 ^ 31"
  proof -
    obtain k :: "32 word" where "length ?rs = nat (sint k)" using rs by (auto simp: relocs_def)
    moreover have "sint k < 2 ^ 31" using sint_lt [of k] by simp
    then have "nat (sint k) < 2 ^ 31" by (simp add: nat_less_iff)
    ultimately show ?thesis using externals_length [of ?rs] by simp
  qed
  have sc: "scast (of_nat ?n :: 32 word) = (of_nat ?n :: u64)"
  proof -
    have "signed_take_bit 31 (int ?n) = int ?n"
      using n31 by (intro signed_take_bit_int_eq_self) simp_all
    then show ?thesis by (simp add: signed_of_nat)
  qed
  have e64: "16 * ?n < 2 ^ 64" "e < 2 ^ 64" using n31 fits by simp_all
  have ts: "table_size ?c = of_nat e"
    using page_align_of_nat [OF os e64(1)] e e64(2)
    by (simp add: table_size_def sc st1(3))
  have ue: "unat (of_nat e :: u64) = e" using e64 by (simp add: unat_of_nat take_bit_nat_eq_self_iff)
  have dvd: "unat (os_page env) dvd e" by (simp add: e)
  obtain A B where run: "allocate env th dh rh (table_size ?c) ?c = Inr A" "copy_sections th dh rh A = Inr B"
    and A: "sub_st ?c A" "page_size A = os_page env" "rodata_runtime_base A = place_at env ob a Rodata_copy"
    and B: "in_block env ob a e ?c B"
    using object_block [OF os _ hdrc, of "of_nat e" a] fits kernel(1,3) dvd
    by (auto simp: m1 ue ts st1(3))
  have szr: "sh_size A rh = Inr (of_nat (length (o_rodata ob)))"
    using hdrc need_section_size(1) field_mono(6) [OF A(1)] unfolding has_headers_def by blast
  have jt: "set_jumptable rh A = Inr (A\<lparr>jumptable := ?jt\<rparr>)"
    using szr A(2,3) page_align_of_nat [OF os, of "length (o_rodata ob)"] S(3) fits0
    by (simp add: set_jumptable_def rodata_pages_def all_pages_def add.assoc)
  let ?B = "B\<lparr>jumptable := ?jt\<rparr>"
  have copy: "copy_sections th dh rh (A\<lparr>jumptable := ?jt\<rparr>) = Inr ?B"
    by (rule copy_sections_jumptable [OF run(2)])
  have st: "B = ?c\<lparr>mem := mem B, text_runtime_base := a,
      data_runtime_base := place_at env ob a Data_copy,
      rodata_runtime_base := place_at env ob a Rodata_copy\<rparr>"
    and sub: "sub_st ?c B" and tx: "load_bytes (mem B) (length (o_text ob)) a = Inr (o_text ob)"
    and prot: "\<And>x. prot_at (mem B) x = (if unat (x - a) < all_pages env ob + e then Some RW
      else prot_at (mem st) x)"
    and zero: "\<And>x. all_pages env ob \<le> unat (x - a) \<Longrightarrow> unat (x - a) < all_pages env ob + e \<Longrightarrow>
      byte_at (mem B) x = 0"
    using B by (auto simp: in_block_def m1)
  have base: "text_runtime_base ?B = a" "page_size ?B = os_page env" "jumptable ?B = ?jt"
      "rodata_runtime_base ?B = place_at env ob a Rodata_copy" "curr_jmp_idx ?B = 0"
      "num_ext_symbols ?B = of_nat ?n" "mem ?B = mem B"
    by (subst st, simp add: st1)+
  have pb: "place_base ?B = place_at env ob a"
  proof
    fix p show "place_base ?B p = place_at env ob a p"
      by (cases p; subst st) simp_all
  qed
  have subB: "sub_st st1 ?B"
    using sub by (simp add: sub_st_def tables_def)
  have tab_off: "unat (x - ?jt) < e \<longleftrightarrow> all_pages env ob \<le> unat (x - a) \<and> unat (x - a) < all_pages env ob + e" for x
    using offset_in [of "of_nat (all_pages env ob)" e x a] fits fits0
    by (simp add: unat_of_nat take_bit_nat_eq_self_iff)
  have le: "length (o_text ob) \<le> all_pages env ob" using S(1) by (simp add: all_pages_def)
  have room: "link_room ?B (length (o_text ob)) (length (replicate e (0::u8)))"
    using le fits e64 prot tab_off unfolding link_room_def base
    by (auto simp: allows_def not_less [symmetric])
  have tb: "load_bytes (mem ?B) (length (replicate e (0::u8))) ?jt = Inr (replicate e 0)"
  proof -
    have off: "unat (?jt + of_nat i - ?jt) < e" if "i < e" for i
      using that e64 by (simp add: unat_of_nat take_bit_nat_eq_self_iff)
    have "allows (mem B) can_read (?jt + of_nat i)" "byte_at (mem B) (?jt + of_nat i) = 0"
      if "i < e" for i
      using off [OF that] prot [of "?jt + of_nat i"] zero [of "?jt + of_nat i"]
      unfolding tab_off by (simp_all add: allows_def)
    then show ?thesis
      by (auto simp: load_bytes_Inr_iff map_replicate_trivial intro!: nth_equalityI)
  qed
  have "\<exists>st2. reloc ?B = Inr st2 \<and> link_now ?B (fold (step (place_base ?B) (jumptable ?B)) ?rs
      (0, o_text ob, replicate e 0)) st2"
  proof (rule links [OF rs subB base(5), where rd = "\<lambda>x. unat (x - a) < all_pages env ob + e"])
    show "link_room ?B (length (o_text ob)) (length (replicate e (0::u8)))" by (rule room)
    show "length (o_text ob) < 2 ^ 64" using le fits0 by simp
    show "length (replicate e (0::u8)) < 2 ^ 64" using e64 by simp
    show "prot_at (mem st1) x = None"
      if "unat (x - text_runtime_base ?B) < length (o_text ob) \<or>
        unat (x - jumptable ?B) < length (replicate e (0::u8))" for x
      using that le kernel(3) unfolding base m1 by (auto simp: unmapped_def tab_off)
    show "load_bytes (mem ?B) (length (o_text ob)) (text_runtime_base ?B) = Inr (o_text ob)"
      using tx by (simp add: base)
    show "load_bytes (mem ?B) (length (replicate e (0::u8))) (jumptable ?B) = Inr (replicate e 0)"
      using tb by (simp add: base)
    show "16 * ?n \<le> length (replicate e (0::u8))"
      using pages_end_ge [OF os_page_nonzero [OF os]] by (simp add: e)
    show "only_puts ?rs" by (rule names)
    show "allows (mem ?B) can_read x" if "unat (x - a) < all_pages env ob + e" for x
      using that by (simp add: prot allows_def)
    show "good (\<lambda>x. unat (x - a) < all_pages env ob + e) (place_base ?B) (length (o_text ob)) r"
      if "r \<in> set ?rs" for r
      using good [OF that] unfolding pb .
  qed
  then obtain st2 where rel: "reloc ?B = Inr st2" and now: "link_now ?B (j, t, table) st2"
    by (auto simp: pb linked)
  have lens: "j = ?n" "length t = length (o_text ob)" "length table = e"
    using fold_step_lengths [OF good _ linked] pages_end_ge [OF os_page_nonzero [OF os]] by (simp_all add: e)
  note F = link_now_fields [OF now, unfolded base]
  note N = now [unfolded link_now_def prod.case base]
  have sub2: "sub_st st1 st2"
    by (rule link_now_sub [OF now subB]) (use kernel(3) le lens in \<open>auto simp: base m1 unmapped_def tab_off\<close>)
  have prot2: "prot_at (mem st2) x = (if unat (x - a) < all_pages env ob + e then Some RW
      else prot_at (mem st) x)" for x
    using F(9) prot by simp
  have sz: "sh_size st2 th = Inr (of_nat (length (o_text ob)))"
      "sh_size st2 rh = Inr (of_nat (length (o_rodata ob)))"
    using hdr need_section_size(1) field_mono(6) [OF sub2] unfolding has_headers_def by blast+
  have mapped: "prot_at (mem st2) x \<noteq> None" if "unat (x - a) < all_pages env ob" for x
    using that by (simp add: prot2)
  note P = protect_image [OF os F(6) sz F(1,8) kernel(2) fits0 mapped]
  let ?m = "(mem st2)\<lparr>prot_at := (\<lambda>x.
      if unat (x - a) < text_pages env ob then Some RX
      else if unat (x - a) < text_pages env ob + data_pages env ob then prot_at (mem st2) x
      else if unat (x - a) < all_pages env ob then Some RO else prot_at (mem st2) x)\<rparr>"
  let ?m' = "?m\<lparr>prot_at := (\<lambda>x. if unat (x - ?jt) < e then Some RX else prot_at ?m x)\<rparr>"
  have pe: "pages_end (os_page env) e = e"
    by (rule pages_end_dvd [OF os_page_nonzero [OF os] dvd])
  have "mprotect env ?jt (of_nat e) RX ?m = Inr ?m'"
  proof -
    have "unat (os_page env) dvd all_pages env ob"
      unfolding all_pages_def page_counts by (intro dvd_add) auto
    then have "?jt mod os_page env = 0" by (rule base_aligned [OF os kernel(2)])
    moreover have "prot_at ?m (?jt + of_nat i) \<noteq> None" if "i < e" for i
    proof -
      have "unat (?jt + of_nat i - ?jt) < e" using that ue e64 by (simp add: unat_of_nat take_bit_nat_eq_self_iff)
      then show ?thesis unfolding tab_off by (simp add: prot2)
    qed
    ultimately show ?thesis by (simp add: mprotect_def ue pe in_pages_def)
  qed
  then have last: "protect_table env (st2\<lparr>mem := ?m\<rparr>) = Inr (st2\<lparr>mem := ?m'\<rparr>)"
    using ts F(3,6,7) by (simp add: protect_table_def table_size_def st1(3))
  have les: "text_pages env ob + data_pages env ob \<le> all_pages env ob" by (simp add: all_pages_def)
  have "image env ob t a e (mem ?c) ?m'"
  proof (rule image_of_block [OF os fits B lens(2)])
    show "load_bytes (mem st2) (length t) a = Inr t" using N by simp
    show "byte_at (mem st2) x = byte_at (mem B) x"
      if "length t \<le> unat (x - a)" "unat (x - a) < all_pages env ob \<or> all_pages env ob + e \<le> unat (x - a)" for x
    proof -
      have "e \<le> unat (x - ?jt)" using tab_off [of x] that(2) by linarith
      then show ?thesis using N that(1) lens(3) by simp
    qed
    show "prot_at ?m' x = (if unat (x - a) < text_pages env ob then Some RX
         else if unat (x - a) < text_pages env ob + data_pages env ob then Some RW
         else if unat (x - a) < all_pages env ob then Some RO
         else if unat (x - a) < all_pages env ob + e then Some RX
         else prot_at (mem ?c) x)" for x
      using m1 les by (auto simp: prot2 tab_off)
  qed simp
  moreover have "load_bytes ?m' e ?jt = Inr table"
  proof -
    have "allows ?m' can_read (?jt + of_nat i)" if "i < e" for i
      using that e64 by (simp add: allows_def unat_of_nat take_bit_nat_eq_self_iff)
    then show ?thesis using N lens(3) by (auto simp: load_bytes_Inr_iff)
  qed
  moreover have "parse_obj_ext reloc env st = Inr (st2\<lparr>mem := ?m'\<rparr>)"
    using tab hdr cnt run jt copy rel P last by (simp add: parse_obj_ext_def has_headers_def flip: rbind_assoc)
  ultimately show ?thesis
    using F(4,7) lens(1) by (intro exI [of _ "st2\<lparr>mem := ?m'\<rparr>"] conjI) (simp_all add: m1)
qed

end


section \<open>Resolving a symbol\<close>

text \<open>
  The symbol of a relocation: an external one gets the next slot of the table (\<open>fill\<close> stores its
  code), and stands for the first instruction of the slot.
\<close>

definition resolve :: "(u64 \<Rightarrow> u64 \<Rightarrow> memory \<Rightarrow> ld_stop + memory) \<Rightarrow> u64 \<Rightarrow> u64 \<Rightarrow> u64 \<Rightarrow> loader \<Rightarrow>
    ld_stop + (u64 \<times> loader)" where
  "resolve fill d my_puts symbol st =
     rbind (st_shndx st symbol) (\<lambda>ndx.
       if ndx = SHN_UNDEF then
         let slot = jumptable st + 16 * scast (curr_jmp_idx st) in
         rbind (st_name st symbol) (\<lambda>off.
         rbind (cstring (mem st) (strtab st + ucast off)) (\<lambda>name.
         rbind (lookup_ext_function my_puts name) (\<lambda>addr.
         rbind (fill slot addr (mem st)) (\<lambda>m.
           Inr (slot + d, st\<lparr>mem := m, curr_jmp_idx := curr_jmp_idx st + 1\<rparr>)))))
       else
         rbind (section_runtime_base st (section_at st ndx)) (\<lambda>base.
         rbind (st_value st symbol) (\<lambda>v. Inr (base + v, st))))"

lemma store_bytes_append:
  "store_bytes m a (xs @ ys) = rbind (store_bytes m a xs) (\<lambda>m. store_bytes m (a + of_nat (length xs)) ys)"
  by (induction xs arbitrary: m a) (simp_all add: add.assoc)

lemma resolve_step:
  assumes t: "read_target True st0 s = Inr t" and sub: "sub_st st0 st"
    and now: "link_now B (j, xs, tab) st" and room: "link_room B (length xs) (length tab)"
    and fill: "\<And>slot addr m. fill slot addr m = store_bytes m slot (code addr)"
    and code: "length (code my_puts) \<le> 16"
    and ext: "\<And>nm. t = External nm \<Longrightarrow> nm = lit ''puts'' \<and> 16 * j + 16 \<le> length tab \<and> j < 2 ^ 31"
    and len: "length xs < 2 ^ 64" "length tab < 2 ^ 64"
  shows "\<exists>st'. (case t of
      Local p v \<Rightarrow> resolve fill d my_puts s st = Inr (place_base B p + v, st') \<and> link_now B (j, xs, tab) st'
    | External nm \<Rightarrow> resolve fill d my_puts s st = Inr (jumptable B + 16 * of_nat j + d, st') \<and>
        link_now B (Suc j, xs, array_write tab (16 * j) (code my_puts)) st')"
proof -
  note m = field_mono [OF sub] and same = sub_st_same [OF sub]
  note F = link_now_fields [OF now]
  from t show ?thesis
  proof (cases rule: read_target_cases)
    case (Defined ndx p v)
    have "section_runtime_base st (section_at st ndx) = Inr (place_base B p)"
      using section_runtime_base_place [OF section_place_mono [OF Defined(3) sub]] F(2) by (simp add: same)
    then show ?thesis
      using m(9) [OF Defined(1)] m(10) [OF Defined(4)] Defined(2,5) now by (simp add: resolve_def)
  next
    case (Undef off nm)
    note e = ext [OF Undef(4)]
    let ?k = "of_nat (16 * j) :: u64"
    have uk: "unat ?k = 16 * j" using e by (simp add: unat_of_nat take_bit_nat_eq_self_iff del: of_nat_mult)
    have sc: "scast (curr_jmp_idx st) = (of_nat j :: u64)"
    proof -
      have "signed_take_bit 31 (int j) = int j"
        using e by (intro signed_take_bit_int_eq_self) simp_all
      then show ?thesis using F(4) by (simp add: signed_of_nat)
    qed
    have "unat ?k + length (code my_puts) \<le> length tab" using e code by (simp add: uk del: of_nat_mult)
    from link_now_table(1) [OF now room this] link_now_table(2) [OF now room this, where i = "Suc j"] len code
    have st: "store_bytes (mem st) (jumptable B + ?k) (code my_puts) =
        Inr (poke (jumptable B + ?k) (code my_puts) (mem st))"
      and now': "link_now B (Suc j, xs, array_write tab (16 * j) (code my_puts))
        (st\<lparr>mem := poke (jumptable B + ?k) (code my_puts) (mem st), curr_jmp_idx := of_nat (Suc j)\<rparr>)"
      unfolding uk by auto
    have ci: "curr_jmp_idx st + 1 = of_nat (Suc j)" using F(4) by (simp add: add.commute)
    have mul: "16 * (of_nat j :: u64) = ?k" by simp
    show ?thesis
      using m(9) [OF Undef(1)] m(8) [OF Undef(2)] m(14) [OF Undef(3)] Undef(4) e st now'
      unfolding resolve_def Let_def sc F(3) ci mul fill
      by (simp add: same lookup_ext_function_def del: of_nat_Suc of_nat_mult)
  qed
qed

lemma length_link_step:
  assumes "link_step patch_at slot d p b jt r (j, xs, tab) = (j', xs', tab')"
    and "\<And>s. length (patch_at b s r xs) = length xs" "length (slot p) \<le> 16"
    and "is_external r \<Longrightarrow> 16 * j + 16 \<le> length tab"
  shows "j' = j + (if is_external r then 1 else 0) \<and> length xs' = length xs \<and> length tab' = length tab"
  using assms by (cases "rl_target r") (auto simp: link_step_def)

text \<open>A loop whose rounds link one relocation each links the whole table.\<close>

lemma link_loop:
  assumes rs: "relocs True st0 rs" and sub: "sub_st st0 B" and start: "curr_jmp_idx B = 0"
    and room: "link_room B (length xs) (length tab)"
    and un: "\<And>x. unat (x - text_runtime_base B) < length xs \<or> unat (x - jumptable B) < length tab \<Longrightarrow>
        prot_at (mem st0) x = None"
    and ld: "load_bytes (mem B) (length xs) (text_runtime_base B) = Inr xs"
      "load_bytes (mem B) (length tab) (jumptable B) = Inr tab"
    and count: "16 * externals rs \<le> length tab" and names: "only_puts rs"
    and lens: "\<And>r s xs'. r \<in> set rs \<Longrightarrow> length xs' = length xs \<Longrightarrow>
        length (patch_at (place_base B) s r xs') = length xs'"
      "length (slot p) \<le> 16"
    and round: "\<And>r addr j xs' tab' st. r \<in> set rs \<Longrightarrow> read_reloc True st0 addr = Inr r \<Longrightarrow>
        sub_st st0 st \<Longrightarrow> link_now B (j, xs', tab') st \<Longrightarrow> length xs' = length xs \<Longrightarrow>
        length tab' = length tab \<Longrightarrow>
        (\<And>nm. rl_target r = External nm \<Longrightarrow> nm = lit ''puts'' \<and> 16 * j + 16 \<le> length tab' \<and> j < 2 ^ 31) \<Longrightarrow>
        \<exists>st'. step addr st = Inr st' \<and>
          link_now B (link_step patch_at slot d p (place_base B) (jumptable B) r (j, xs', tab')) st'"
  shows "\<exists>st'. for_relocations step B = Inr st' \<and>
    link_now B (fold (link_step patch_at slot d p (place_base B) (jumptable B)) rs (0, xs, tab)) st'"
proof -
  let ?f = "link_step patch_at slot d p (place_base B) (jumptable B)"
  let ?R = "\<lambda>i x s. link_now B x s \<and> fst x = externals (take i rs) \<and>
    length (fst (snd x)) = length xs \<and> length (snd (snd x)) = length tab"
  have n31: "externals rs < 2 ^ 31"
  proof -
    obtain k :: "32 word" where "length rs = nat (sint k)" using rs by (auto simp: relocs_def)
    moreover have "sint k < 2 ^ 31" using sint_lt [of k] by simp
    then have "nat (sint k) < 2 ^ 31" by (simp add: nat_less_iff)
    ultimately show ?thesis using externals_length [of rs] by simp
  qed
  have "\<exists>st'. for_relocations step B = Inr st' \<and> ?R (length rs) (fold ?f rs (0, xs, tab)) st'"
  proof (rule for_relocations_rel [OF rs sub, where R = ?R])
    have "B = B\<lparr>mem := mem B, curr_jmp_idx := of_nat 0\<rparr>" using start by (cases B) simp
    then show "?R 0 (0, xs, tab) B" using ld by (simp add: link_now_def)
  next
    fix i addr x s
    assume i: "i < length rs" "read_reloc True st0 addr = Inr (rs ! i)" and R: "?R i x s"
    obtain j xs' tab' where x: "x = (j, xs', tab')" by (cases x)
    have now: "link_now B (j, xs', tab') s" and j: "j = externals (take i rs)"
      and l: "length xs' = length xs" "length tab' = length tab" using R x by auto
    have mem: "rs ! i \<in> set rs" using i by simp
    have ex: "nm = lit ''puts'' \<and> 16 * j + 16 \<le> length tab' \<and> j < 2 ^ 31"
      if nm: "rl_target (rs ! i) = External nm" for nm
    proof -
      have "externals (take (Suc i) rs) = Suc j" using i nm by (simp add: externals_take_Suc j)
      then have "Suc j \<le> externals rs" using externals_take [of "Suc i" rs] by simp
      then show ?thesis using names mem nm count n31 l unfolding only_puts_def by auto
    qed
    have sub': "sub_st st0 s" by (rule link_now_sub [OF now sub]) (use un l in auto)
    obtain st' where st': "step addr s = Inr st'" "link_now B (?f (rs ! i) (j, xs', tab')) st'"
      using round [OF mem i(2) sub' now l ex] by auto
    obtain j2 xs2 tab2 where y: "?f (rs ! i) (j, xs', tab') = (j2, xs2, tab2)" by (cases "?f (rs ! i) (j, xs', tab')")
    have "j2 = j + (if is_external (rs ! i) then 1 else 0) \<and> length xs2 = length xs' \<and> length tab2 = length tab'"
    proof (rule length_link_step [OF y])
      show "length (patch_at (place_base B) s (rs ! i) xs') = length xs'" for s
        by (rule lens(1) [OF mem l(1)])
      show "length (slot p) \<le> 16" by (rule lens(2))
      show "16 * j + 16 \<le> length tab'" if "is_external (rs ! i)"
        using that ex by (cases "rl_target (rs ! i)") auto
    qed
    then show "\<exists>st'. step addr s = Inr st' \<and> ?R (Suc i) (?f (rs ! i) x) st'"
      using st' y l i(1) j by (simp add: x externals_take_Suc)
  qed
  then show ?thesis by blast
qed

section \<open>Slots and sites\<close>

text \<open>
  What holds of the text and the table after linking, for every way to patch four bytes at a site
  (of the relocations that \<open>touch\<close> the text) and every code of at most 16 bytes.
\<close>

locale slot_linker =
  fixes patch_at :: "(place \<Rightarrow> u64) \<Rightarrow> u64 \<Rightarrow> reloc \<Rightarrow> bytes \<Rightarrow> bytes"
    and slot :: "u64 \<Rightarrow> bytes" and d :: u64 and touch :: "reloc \<Rightarrow> bool"
  assumes patch_length: "unat (rl_offset r) + 4 \<le> length xs \<Longrightarrow> length (patch_at b s r xs) = length xs"
    and patch_frame: "unat (rl_offset r) + 4 \<le> length xs \<Longrightarrow> i < length xs \<Longrightarrow>
      i < unat (rl_offset r) \<or> unat (rl_offset r) + 4 \<le> i \<Longrightarrow> patch_at b s r xs ! i = xs ! i"
    and untouched: "\<not> touch r \<Longrightarrow> patch_at b s r xs = xs"
    and slot_size: "length (slot v) \<le> 16"
begin

abbreviation "link p b jt \<equiv> link_step patch_at slot d p b jt"

lemma patch_any:
  assumes "touch r \<Longrightarrow> unat (rl_offset r) + 4 \<le> length xs"
  shows "length (patch_at b s r xs) = length xs"
    and "i < length xs \<Longrightarrow> (touch r \<Longrightarrow> i < unat (rl_offset r) \<or> unat (rl_offset r) + 4 \<le> i) \<Longrightarrow>
      patch_at b s r xs ! i = xs ! i"
  using assms patch_length patch_frame untouched by (cases "touch r"; simp)+

lemma fold_link_keeps:
  assumes "fold (link p b jt) rs (j, xs, tab) = (j', xs', tab')"
    and "\<And>r. r \<in> set rs \<Longrightarrow> touch r \<Longrightarrow> unat (rl_offset r) + 4 \<le> length xs"
    and "16 * (j + externals rs) \<le> length tab"
  shows "j' = j + externals rs \<and> length xs' = length xs \<and> length tab' = length tab \<and>
    take (16 * j) tab' = take (16 * j) tab \<and>
    (\<forall>i<length xs. (\<forall>r\<in>set rs. touch r \<longrightarrow> i < unat (rl_offset r) \<or> unat (rl_offset r) + 4 \<le> i) \<longrightarrow>
      xs' ! i = xs ! i)"
  using assms
proof (induction rs arbitrary: j xs tab)
  case Nil
  then show ?case by simp
next
  case (Cons r rs)
  have l: "length (patch_at b s r xs) = length xs" for s
    using Cons.prems(2) [of r] by (intro patch_any(1)) simp
  have n: "patch_at b s r xs ! i = xs ! i"
    if "i < length xs" "touch r \<Longrightarrow> i < unat (rl_offset r) \<or> unat (rl_offset r) + 4 \<le> i" for s i
    using that Cons.prems(2) [of r] by (intro patch_any(2)) auto
  show ?case
  proof (cases "rl_target r")
    case (Local q v)
    then show ?thesis
      using Cons.IH [of j "patch_at b (b q + v) r xs" tab] Cons.prems l n
      by (auto simp: link_step_def)
  next
    case (External nm)
    let ?tab = "array_write tab (16 * j) (slot p)"
    have lt: "length ?tab = length tab"
      using Cons.prems(3) External slot_size [of p] by (intro length_array_write) simp
    have "16 * (Suc j + externals rs) \<le> length ?tab"
      using Cons.prems(3) External lt by simp
    then have IH: "j' = Suc j + externals rs \<and> length xs' = length xs \<and> length tab' = length tab \<and>
        take (16 * Suc j) tab' = take (16 * Suc j) ?tab \<and>
        (\<forall>i<length xs. (\<forall>r\<in>set rs. touch r \<longrightarrow> i < unat (rl_offset r) \<or> unat (rl_offset r) + 4 \<le> i) \<longrightarrow>
          xs' ! i = patch_at b (jt + 16 * of_nat j + d) r xs ! i)"
      using Cons.IH [of "Suc j" "patch_at b (jt + 16 * of_nat j + d) r xs" ?tab] Cons.prems External lt l
      by (simp add: link_step_def)
    have "take (16 * j) tab' = take (16 * j) (take (16 * Suc j) tab')" by (simp add: min_def)
    also have "\<dots> = take (16 * j) ?tab" using IH by (simp add: min_def)
    also have "\<dots> = take (16 * j) tab"
      using Cons.prems(3) External by (intro take_array_write_before) auto
    finally show ?thesis using IH External n by auto
  qed
qed

text \<open>The slot of an external relocation, and the bytes at its site.\<close>

lemma fold_link_external:
  assumes fold: "fold (link p b jt) (us @ r # vs) (0, xs, tab) = (j', xs', tab')"
    and site: "\<And>r'. r' \<in> set (us @ r # vs) \<Longrightarrow> touch r' \<Longrightarrow> unat (rl_offset r') + 4 \<le> length xs"
    and size: "16 * externals (us @ r # vs) \<le> length tab"
    and r: "touch r" "rl_target r = External nm"
    and apart: "\<And>r'. r' \<in> set vs \<Longrightarrow> touch r' \<Longrightarrow> apart r r'"
  shows "take (length (slot p)) (drop (16 * externals us) tab') = slot p \<and>
    length xs' = length xs \<and> length tab' = length tab \<and>
    (\<exists>ys. length ys = length xs \<and> take 4 (drop (unat (rl_offset r)) xs') =
      take 4 (drop (unat (rl_offset r)) (patch_at b (jt + 16 * of_nat (externals us) + d) r ys)))"
proof -
  have ex: "externals (us @ r # vs) = externals us + Suc (externals vs)"
    using r(2) by (simp add: externals_def)
  obtain j1 xs1 tab1 where 1: "fold (link p b jt) us (0, xs, tab) = (j1, xs1, tab1)"
    by (cases "fold (link p b jt) us (0, xs, tab)")
  have K1: "j1 = externals us" "length xs1 = length xs" "length tab1 = length tab"
    using fold_link_keeps [OF 1] site size ex by simp_all
  let ?s = "jt + 16 * of_nat (externals us) + d"
  let ?xs = "patch_at b ?s r xs1" and ?tab = "array_write tab1 (16 * externals us) (slot p)"
  have 2: "fold (link p b jt) vs (Suc (externals us), ?xs, ?tab) = (j', xs', tab')"
    using fold 1 K1(1) r(2) by (simp add: link_step_def)
  let ?o = "unat (rl_offset r)"
  have o: "?o + 4 \<le> length xs" using site r(1) by simp
  have lx: "length ?xs = length xs" using o K1 by (simp add: patch_length)
  have lt: "length ?tab = length tab"
    using size ex K1 slot_size [of p] by simp
  have K2: "j' = Suc (externals us) + externals vs \<and> length xs' = length ?xs \<and> length tab' = length ?tab \<and>
    take (16 * Suc (externals us)) tab' = take (16 * Suc (externals us)) ?tab \<and>
    (\<forall>i<length ?xs. (\<forall>r\<in>set vs. touch r \<longrightarrow> i < unat (rl_offset r) \<or> unat (rl_offset r) + 4 \<le> i) \<longrightarrow>
      xs' ! i = ?xs ! i)"
    using site size ex lx lt by (intro fold_link_keeps [OF 2]) auto
  let ?n = "length (slot p)"
  have n: "min (16 * Suc (externals us) - 16 * externals us) ?n = ?n" using slot_size [of p] by simp
  have "take ?n (drop (16 * externals us) tab') =
      take ?n (drop (16 * externals us) (take (16 * Suc (externals us)) tab'))"
    using n by (simp add: drop_take min.commute)
  also have "\<dots> = take ?n (drop (16 * externals us) ?tab)"
    using K2 n by (simp add: drop_take min.commute)
  also have "\<dots> = slot p"
    using size ex K1 by (simp add: array_write_def)
  finally have s: "take ?n (drop (16 * externals us) tab') = slot p" .
  have "take 4 (drop ?o xs') = take 4 (drop ?o ?xs)"
  proof (rule nth_equalityI)
    show "length (take 4 (drop ?o xs')) = length (take 4 (drop ?o ?xs))" using K2 by simp
  next
    fix i assume "i < length (take 4 (drop ?o xs'))"
    then have i: "i < 4" by simp
    have "?o + i < unat (rl_offset r') \<or> unat (rl_offset r') + 4 \<le> ?o + i"
      if "r' \<in> set vs" "touch r'" for r'
      using apart [OF that] i unfolding apart_def by linarith
    then have "xs' ! (?o + i) = ?xs ! (?o + i)"
      using K2 lx o i by simp
    then show "take 4 (drop ?o xs') ! i = take 4 (drop ?o ?xs) ! i"
      using i K2 lx o by simp
  qed
  then show ?thesis using s K2 lx lt K1 by auto
qed

end

text \<open>How far a slot is from a site in the text, when the table is \<open>n\<close> bytes behind the text.\<close>

lemma slot_distance:
  assumes "unat off \<le> n + c" "n + 16 * k + c < 2 ^ 63"
  shows "a + of_nat n + 16 * of_nat k + of_nat c - (a + off) = (of_nat (n + 16 * k + c - unat off) :: u64)"
    and "sint (a + of_nat n + 16 * of_nat k + of_nat c - (a + off) :: u64) = int (n + 16 * k + c - unat off)"
proof -
  have "(of_nat (n + 16 * k + c - unat off) :: u64) = of_nat (n + 16 * k + c) - of_nat (unat off)"
    using assms(1) by (intro of_nat_diff) simp
  then show e: "a + of_nat n + 16 * of_nat k + of_nat c - (a + off) = (of_nat (n + 16 * k + c - unat off) :: u64)"
    by (simp add: algebra_simps)
  show "sint (a + of_nat n + 16 * of_nat k + of_nat c - (a + off) :: u64) = int (n + 16 * k + c - unat off)"
    unfolding e using assms(2) by (simp add: signed_of_nat signed_take_bit_int_eq_self del: of_nat_diff)
qed

lemma multiple_of_four:
  assumes "4 dvd n"
  shows "(of_nat n :: u64) AND 3 = 0"
proof -
  obtain k where n: "n = 4 * k" using assms by (auto simp: dvd_def)
  have "(of_nat n :: u64) AND 3 = take_bit 2 (push_bit 2 (of_nat k))"
    by (simp add: n take_bit_eq_mask mask_eq_exp_minus_1 push_bit_eq_mult mult.commute)
  also have "\<dots> = 0" by (rule bit_word_eqI) (simp add: bit_take_bit_iff bit_push_bit_iff)
  finally show ?thesis .
qed

end
