(* ===== verification/Elf_File.thy ===== *)
theory Elf_File
  imports Sections
begin

text \<open>
  The structures of an ELF file as bytes, for files that are described by their contents: each
  structure is written out, and the accessors of \<open>Elf\<close> read back what was written.
\<close>

unbundle bit_operations_syntax

section \<open>Structures as bytes\<close>

definition ehdr_bytes :: "u64 \<Rightarrow> u16 \<Rightarrow> u16 \<Rightarrow> bytes" where
  "ehdr_bytes shoff shnum shstrndx =
     replicate 40 0 @ le_bytes 8 shoff @ replicate 12 0 @ le_bytes 2 shnum @ le_bytes 2 shstrndx"

definition shdr_bytes :: "u32 \<Rightarrow> u64 \<Rightarrow> u64 \<Rightarrow> u64 \<Rightarrow> bytes" where
  "shdr_bytes name off sz entsize =
     le_bytes 4 name @ replicate 20 0 @ le_bytes 8 off @ le_bytes 8 sz @ replicate 16 0 @ le_bytes 8 entsize"

definition sym_bytes :: "u32 \<Rightarrow> u8 \<Rightarrow> u16 \<Rightarrow> u64 \<Rightarrow> bytes" where
  "sym_bytes name info shndx val =
     le_bytes 4 name @ [info, 0] @ le_bytes 2 shndx @ le_bytes 8 val @ replicate 8 0"

definition rela_bytes :: "u64 \<Rightarrow> u32 \<Rightarrow> u32 \<Rightarrow> u64 \<Rightarrow> bytes" where
  "rela_bytes off index ty addend =
     le_bytes 8 off @ le_bytes 4 ty @ le_bytes 4 index @ le_bytes 8 addend"

lemma length_structures [simp]:
  "length (ehdr_bytes shoff shnum shstrndx) = 64" "length (shdr_bytes name off sz entsize) = 64"
  "length (sym_bytes name info shndx val) = 24" "length (rela_bytes off index ty addend) = 24"
  by (simp_all add: ehdr_bytes_def shdr_bytes_def sym_bytes_def rela_bytes_def)

section \<open>What the accessors read\<close>

text \<open>\<open>k\<close> bytes at an offset of a structure.\<close>

lemma load_part:
  assumes "load_bytes m (length xs) a = Inr xs" "xs = us @ ys @ vs"
  shows "load_bytes m (length ys) (a + of_nat (length us)) = Inr ys"
  by (rule load_slice [OF assms(1)]) (simp_all add: assms(2))

lemma load16_part:
  "load_bytes m (length xs) a = Inr xs \<Longrightarrow> xs = us @ le_bytes 2 v @ vs \<Longrightarrow>
     load16 m (a + of_nat (length us)) = Inr v"
  using load_part [of m xs a us "le_bytes 2 v" vs] by (simp add: load16_def word_of_le_le_bytes)

lemma load32_part:
  "load_bytes m (length xs) a = Inr xs \<Longrightarrow> xs = us @ le_bytes 4 v @ vs \<Longrightarrow>
     load32 m (a + of_nat (length us)) = Inr v"
  using load_part [of m xs a us "le_bytes 4 v" vs] by (simp add: load32_def word_of_le_le_bytes)

lemma load64_part:
  "load_bytes m (length xs) a = Inr xs \<Longrightarrow> xs = us @ le_bytes 8 v @ vs \<Longrightarrow>
     load64 m (a + of_nat (length us)) = Inr v"
  using load_part [of m xs a us "le_bytes 8 v" vs] by (simp add: load64_def word_of_le_le_bytes)

lemma ehdr_read:
  assumes "load_bytes (mem st) 64 (obj_base st) = Inr (ehdr_bytes shoff shnum shstrndx)"
  shows "e_shoff st = Inr shoff" "e_shnum st = Inr shnum" "e_shstrndx st = Inr shstrndx"
proof -
  have l: "load_bytes (mem st) (length (ehdr_bytes shoff shnum shstrndx)) (obj_base st) =
      Inr (ehdr_bytes shoff shnum shstrndx)"
    using assms by simp
  show "e_shoff st = Inr shoff"
    using load64_part [OF l, of "replicate 40 0" shoff]
    by (simp add: ehdr_bytes_def e_shoff_def)
  show "e_shnum st = Inr shnum"
    using load16_part [OF l, of "replicate 40 0 @ le_bytes 8 shoff @ replicate 12 0" shnum]
    by (simp add: ehdr_bytes_def e_shnum_def)
  show "e_shstrndx st = Inr shstrndx"
    using load16_part [OF l, of "replicate 40 0 @ le_bytes 8 shoff @ replicate 12 0 @ le_bytes 2 shnum" shstrndx "[]"]
    by (simp add: ehdr_bytes_def e_shstrndx_def)
qed

lemma shdr_read:
  assumes "load_bytes (mem st) 64 s = Inr (shdr_bytes name off sz entsize)"
  shows "sh_name st s = Inr name" "sh_offset st s = Inr off" "sh_size st s = Inr sz"
    "sh_entsize st s = Inr entsize"
proof -
  have l: "load_bytes (mem st) (length (shdr_bytes name off sz entsize)) s =
      Inr (shdr_bytes name off sz entsize)"
    using assms by simp
  show "sh_name st s = Inr name"
    using load32_part [OF l, of "[]" name] by (simp add: shdr_bytes_def sh_name_def)
  show "sh_offset st s = Inr off"
    using load64_part [OF l, of "le_bytes 4 name @ replicate 20 0" off]
    by (simp add: shdr_bytes_def sh_offset_def)
  show "sh_size st s = Inr sz"
    using load64_part [OF l, of "le_bytes 4 name @ replicate 20 0 @ le_bytes 8 off" sz]
    by (simp add: shdr_bytes_def sh_size_def)
  show "sh_entsize st s = Inr entsize"
    using load64_part [OF l, of "le_bytes 4 name @ replicate 20 0 @ le_bytes 8 off @ le_bytes 8 sz @
        replicate 16 0" entsize "[]"]
    by (simp add: shdr_bytes_def sh_entsize_def)
qed

lemma sym_read:
  assumes "load_bytes (mem st) 24 s = Inr (sym_bytes name info shndx val)"
  shows "st_name st s = Inr name" "st_info st s = Inr info" "st_shndx st s = Inr shndx"
    "st_value st s = Inr val"
proof -
  have l: "load_bytes (mem st) (length (sym_bytes name info shndx val)) s =
      Inr (sym_bytes name info shndx val)"
    using assms by simp
  show "st_name st s = Inr name"
    using load32_part [OF l, of "[]" name] by (simp add: sym_bytes_def st_name_def)
  show "st_info st s = Inr info"
    using load_part [OF l, of "le_bytes 4 name" "[info]"]
    by (simp add: sym_bytes_def st_info_def del: load_bytes.simps)
  show "st_shndx st s = Inr shndx"
    using load16_part [OF l, of "le_bytes 4 name @ [info, 0]" shndx]
    by (simp add: sym_bytes_def st_shndx_def)
  show "st_value st s = Inr val"
    using load64_part [OF l, of "le_bytes 4 name @ [info, 0] @ le_bytes 2 shndx" val]
    by (simp add: sym_bytes_def st_value_def)
qed

lemma rela_read:
  assumes "load_bytes (mem st) 24 r = Inr (rela_bytes off index ty addend)"
  shows "r_offset st r = Inr off" "r_addend st r = Inr addend"
    "\<exists>info. r_info st r = Inr info \<and> ELF64_R_SYM info = index \<and> ELF64_R_TYPE info = ty"
proof -
  have l: "load_bytes (mem st) (length (rela_bytes off index ty addend)) r =
      Inr (rela_bytes off index ty addend)"
    using assms by simp
  show "r_offset st r = Inr off"
    using load64_part [OF l, of "[]" off] by (simp add: rela_bytes_def r_offset_def)
  show "r_addend st r = Inr addend"
    using load64_part [OF l, of "le_bytes 8 off @ le_bytes 4 ty @ le_bytes 4 index" addend "[]"]
    by (simp add: rela_bytes_def r_addend_def)
  let ?w = "word_of_le (le_bytes 4 ty @ le_bytes 4 index) :: u64"
  have "r_info st r = Inr ?w"
    using load_part [OF l, of "le_bytes 8 off" "le_bytes 4 ty @ le_bytes 4 index"]
    by (simp add: rela_bytes_def r_info_def load64_def)
  moreover have w: "bit ?w n \<longleftrightarrow> (if n < 32 then bit ty n else bit index (n - 32))" for n
  proof -
    have n: "8 * (n div 8) + n mod 8 = n" by simp
    consider "n < 32" | "32 \<le> n" "n < 64" | "64 \<le> n" by linarith
    then show ?thesis
    proof cases
      case 1
      then have "n div 8 < 4" by linarith
      with 1 n show ?thesis by (simp add: bit_word_of_le nth_append nth_le_bytes bit_simps)
    next
      case 2
      then have d: "4 \<le> n div 8" "n div 8 - 4 < 4" by simp_all
      then have "8 * (n div 8 - 4) + n mod 8 = n - 32" using n by linarith
      then show ?thesis using 2 d by (simp add: bit_word_of_le nth_append nth_le_bytes bit_simps)
    next
      case 3
      then show ?thesis by (auto simp: bit_word_of_le dest: bit_imp_le_length)
    qed
  qed
  then have "ELF64_R_SYM ?w = index"
    by (intro bit_word_eqI) (simp add: ELF64_R_SYM_def bit_simps)
  moreover have m: "(0xffffffff :: u64) = mask 32" by code_simp
  have "ELF64_R_TYPE ?w = ty"
    unfolding ELF64_R_TYPE_def m
    by (rule bit_word_eqI, simp only: bit_unsigned_iff bit_and_iff bit_mask_iff w) auto
  ultimately show "\<exists>info. r_info st r = Inr info \<and> ELF64_R_SYM info = index \<and> ELF64_R_TYPE info = ty"
    by blast
qed

section \<open>Strings\<close>

lemma cstring_from_part:
  assumes "load_bytes m (Suc (length s)) a = Inr (s @ [0])" "0 \<notin> set s" "length s < unat k"
  shows "cstring_from m k a = Inr s"
  using assms
proof (induction s arbitrary: k a)
  case Nil
  then show ?case by (subst cstring_from.simps) (auto split: if_splits simp: rbind_eq_Inr_iff unat_gt_0)
next
  case (Cons c s)
  then have k: "k \<noteq> 0" by auto
  have "load_bytes m (Suc (length s)) (a + 1) = Inr (s @ [0])" "allows m can_read a" "byte_at m a = c"
    using Cons.prems(1) by (auto split: if_splits simp: rbind_eq_Inr_iff simp del: load_bytes.simps(2)
      simp: load_bytes.simps(2) [of m "Suc (length s)"])
  moreover have "length s < unat (k - 1)" using Cons.prems(3) k by (simp add: unat_minus_one)
  ultimately show ?case
    using Cons.IH Cons.prems(2) k by (subst cstring_from.simps) auto
qed

lemma cstring_part:
  assumes "load_bytes m (length xs) a = Inr xs" "xs = us @ s @ 0 # vs" "0 \<notin> set s"
    and "length s < 2 ^ 64 - 1"
  shows "cstring m (a + of_nat (length us)) = Inr s"
  unfolding cstring_def using load_part [OF assms(1), of us "s @ [0]" vs] assms(2-4)
  by (intro cstring_from_part) (simp_all add: unsigned_minus_1_eq_mask mask_eq_exp_minus_1)

lemma of_char_u8: "(of_char c :: u8) = of_char d \<longleftrightarrow> c = d"
proof
  assume "of_char c = (of_char d :: u8)"
  then have "unat (of_nat (of_char c) :: u8) = unat (of_nat (of_char d) :: u8)"
    by (simp add: of_nat_of_char)
  then have "(of_char c :: nat) mod 256 = of_char d mod 256" by (simp add: unat_of_nat take_bit_eq_mod)
  then show "c = d" by simp
qed simp

lemma lit_eq_iff [simp]: "lit s = lit t \<longleftrightarrow> s = t"
proof -
  have "inj (of_char :: char \<Rightarrow> u8)" by (rule injI) (simp only: of_char_u8)
  then show ?thesis unfolding lit_def by (rule inj_map_eq_map)
qed

lemma lit_no_nul: "CHR 0x00 \<notin> set s \<Longrightarrow> 0 \<notin> set (lit s)"
proof -
  assume "CHR 0x00 \<notin> set s"
  moreover have "(of_char (CHR 0x00) :: u8) = 0" by code_simp
  then have "of_char c = (0 :: u8) \<longleftrightarrow> c = CHR 0x00" for c by (metis of_char_u8)
  ultimately show "0 \<notin> set (lit s)" by (metis (no_types, lifting) imageE lit_def set_map)
qed

end
