(* ===== verification/Example_Object.thy ===== *)
theory Example_Object
  imports Jump_Table Elf_File
begin

text \<open>
  A small object file, on which the theorems about the loaders are instantiated: the sections
  \<open>.symtab\<close>, \<open>.strtab\<close>, \<open>.text\<close>, \<open>.data\<close>, \<open>.rodata\<close> and \<open>.rela.text\<close>; the functions \<open>add5\<close> and
  \<open>add10\<close>; a third symbol and one relocation, which the versions of the loader need in different forms.
  The file is mapped at \<open>0x10000\<close>, the kernel puts the copies at \<open>0x100000\<close>.
\<close>

unbundle bit_operations_syntax

section \<open>The file\<close>

definition names :: "string list" where
  "names = [''.symtab'', ''.strtab'', ''.data'', ''.rodata'', ''.rela.text'', ''add5'', ''add10'', ''puts'']"

definition string_table :: bytes where
  "string_table = 0 # concat (map (\<lambda>s. lit s @ [0]) names)"

definition text_bytes :: bytes where
  "text_bytes = [0x55, 0x90, 0x90, 0xe8, 0, 0, 0, 0, 0xb8, 1, 0, 0, 0, 0xc3, 0x90, 0x90]"

text \<open>The parts of the file; the third symbol and the relocation at offset 4 of the text vary.\<close>

definition object_parts :: "u32 \<Rightarrow> u16 \<Rightarrow> u32 \<Rightarrow> u64 \<Rightarrow> bytes list" where
  "object_parts name shndx ty addend = [
     ehdr_bytes 64 6 1,
     shdr_bytes 1 512 72 24, shdr_bytes 9 448 58 0, shdr_bytes 36 624 16 0,
     shdr_bytes 17 640 4 0, shdr_bytes 23 656 8 0, shdr_bytes 31 592 24 24,
     string_table, replicate 6 0,
     sym_bytes 42 2 2 0, sym_bytes 47 2 2 8, sym_bytes name 0 shndx 0, replicate 8 0,
     rela_bytes 4 2 ty addend, replicate 8 0,
     text_bytes, [7, 0, 0, 0], replicate 12 0, lit ''hello'' @ [0, 0, 0]]"

definition object_file :: "u32 \<Rightarrow> u16 \<Rightarrow> u32 \<Rightarrow> u64 \<Rightarrow> bytes" where
  "object_file name shndx ty addend = concat (object_parts name shndx ty addend)"

lemma length_parts:
  "map length (object_parts name shndx ty addend) =
     [64, 64, 64, 64, 64, 64, 64, 58, 6, 24, 24, 24, 8, 24, 8, 16, 4, 12, 8]"
  by (simp add: object_parts_def string_table_def names_def text_bytes_def lit_def)

lemma length_object_file: "length (object_file name shndx ty addend) = 664"
  by (simp add: object_file_def length_concat length_parts)

section \<open>Reading the file\<close>

definition holds_file :: "loader \<Rightarrow> u32 \<Rightarrow> u16 \<Rightarrow> u32 \<Rightarrow> u64 \<Rightarrow> bool" where
  "holds_file st name shndx ty addend \<longleftrightarrow> obj_base st = 0x10000 \<and>
     load_bytes (mem st) 664 0x10000 = Inr (object_file name shndx ty addend)"

lemma load_piece:
  assumes "load_bytes m (length (concat ps)) a = Inr (concat ps)" "k < length ps"
  shows "load_bytes m (map length ps ! k) (a + of_nat (sum_list (take k (map length ps)))) = Inr (ps ! k)"
proof -
  have "concat ps = concat (take k ps) @ ps ! k @ concat (drop (Suc k) ps)"
    using id_take_nth_drop [OF assms(2)] by (metis concat.simps(2) concat_append)
  from load_part [OF assms(1) this] show ?thesis
    using assms(2) by (simp add: length_concat take_map)
qed

lemma pieces:
  assumes "holds_file st name shndx ty addend"
  shows "load_bytes (mem st) 64 0x10000 = Inr (ehdr_bytes 64 6 1)"
    "load_bytes (mem st) 64 0x10040 = Inr (shdr_bytes 1 512 72 24)"
    "load_bytes (mem st) 64 0x10080 = Inr (shdr_bytes 9 448 58 0)"
    "load_bytes (mem st) 64 0x100c0 = Inr (shdr_bytes 36 624 16 0)"
    "load_bytes (mem st) 64 0x10100 = Inr (shdr_bytes 17 640 4 0)"
    "load_bytes (mem st) 64 0x10140 = Inr (shdr_bytes 23 656 8 0)"
    "load_bytes (mem st) 64 0x10180 = Inr (shdr_bytes 31 592 24 24)"
    "load_bytes (mem st) 58 0x101c0 = Inr string_table"
    "load_bytes (mem st) 24 0x10200 = Inr (sym_bytes 42 2 2 0)"
    "load_bytes (mem st) 24 0x10218 = Inr (sym_bytes 47 2 2 8)"
    "load_bytes (mem st) 24 0x10230 = Inr (sym_bytes name 0 shndx 0)"
    "load_bytes (mem st) 24 0x10250 = Inr (rela_bytes 4 2 ty addend)"
    "load_bytes (mem st) 16 0x10270 = Inr text_bytes"
    "load_bytes (mem st) 4 0x10280 = Inr [7, 0, 0, 0]"
    "load_bytes (mem st) 8 0x10290 = Inr (lit ''hello'' @ [0, 0, 0])"
proof -
  let ?ps = "object_parts name shndx ty addend"
  have l: "length (concat ?ps) = 664"
    using length_object_file [of name shndx ty addend] by (simp add: object_file_def)
  have "load_bytes (mem st) (length (concat ?ps)) 0x10000 = Inr (concat ?ps)"
    unfolding l using assms by (simp add: holds_file_def object_file_def del: load_bytes.simps)
  note P = load_piece [OF this, unfolded length_parts]
  have n: "length ?ps = 19" by (simp add: object_parts_def)
  note Q = P [unfolded n]
  show "load_bytes (mem st) 64 0x10000 = Inr (ehdr_bytes 64 6 1)"
    using Q [of 0] by (simp add: object_parts_def del: load_bytes.simps)
  show "load_bytes (mem st) 64 0x10040 = Inr (shdr_bytes 1 512 72 24)"
    using Q [of 1] by (simp add: object_parts_def del: load_bytes.simps)
  show "load_bytes (mem st) 64 0x10080 = Inr (shdr_bytes 9 448 58 0)"
    using Q [of 2] by (simp add: object_parts_def del: load_bytes.simps)
  show "load_bytes (mem st) 64 0x100c0 = Inr (shdr_bytes 36 624 16 0)"
    using Q [of 3] by (simp add: object_parts_def del: load_bytes.simps)
  show "load_bytes (mem st) 64 0x10100 = Inr (shdr_bytes 17 640 4 0)"
    using Q [of 4] by (simp add: object_parts_def del: load_bytes.simps)
  show "load_bytes (mem st) 64 0x10140 = Inr (shdr_bytes 23 656 8 0)"
    using Q [of 5] by (simp add: object_parts_def del: load_bytes.simps)
  show "load_bytes (mem st) 64 0x10180 = Inr (shdr_bytes 31 592 24 24)"
    using Q [of 6] by (simp add: object_parts_def del: load_bytes.simps)
  show "load_bytes (mem st) 58 0x101c0 = Inr string_table"
    using Q [of 7] by (simp add: object_parts_def del: load_bytes.simps)
  show "load_bytes (mem st) 24 0x10200 = Inr (sym_bytes 42 2 2 0)"
    using Q [of 9] by (simp add: object_parts_def del: load_bytes.simps)
  show "load_bytes (mem st) 24 0x10218 = Inr (sym_bytes 47 2 2 8)"
    using Q [of 10] by (simp add: object_parts_def del: load_bytes.simps)
  show "load_bytes (mem st) 24 0x10230 = Inr (sym_bytes name 0 shndx 0)"
    using Q [of 11] by (simp add: object_parts_def del: load_bytes.simps)
  show "load_bytes (mem st) 24 0x10250 = Inr (rela_bytes 4 2 ty addend)"
    using Q [of 13] by (simp add: object_parts_def del: load_bytes.simps)
  show "load_bytes (mem st) 16 0x10270 = Inr text_bytes"
    using Q [of 15] by (simp add: object_parts_def del: load_bytes.simps)
  show "load_bytes (mem st) 4 0x10280 = Inr [7, 0, 0, 0]"
    using Q [of 16] by (simp add: object_parts_def del: load_bytes.simps)
  show "load_bytes (mem st) 8 0x10290 = Inr (lit ''hello'' @ [0, 0, 0])"
    using Q [of 18] by (simp add: object_parts_def del: load_bytes.simps)
qed

text \<open>The strings of the table.\<close>

lemma length_string_table: "length string_table = 58"
  by (simp add: string_table_def names_def lit_def)

lemma strings_read:
  assumes "holds_file st name shndx ty addend"
  shows "cstring (mem st) 0x101c1 = Inr (lit ''.symtab'')" "cstring (mem st) 0x101c9 = Inr (lit ''.strtab'')"
    "cstring (mem st) 0x101d1 = Inr (lit ''.data'')" "cstring (mem st) 0x101d7 = Inr (lit ''.rodata'')"
    "cstring (mem st) 0x101df = Inr (lit ''.rela.text'')" "cstring (mem st) 0x101e4 = Inr (lit ''.text'')"
    "cstring (mem st) 0x101ea = Inr (lit ''add5'')" "cstring (mem st) 0x101ef = Inr (lit ''add10'')"
    "cstring (mem st) 0x101f5 = Inr (lit ''puts'')"
proof -
  have l: "load_bytes (mem st) (length string_table) 0x101c0 = Inr string_table"
    unfolding length_string_table by (rule pieces(8) [OF assms])
  have c: "cstring (mem st) (0x101c0 + of_nat (Suc (length (concat (map (\<lambda>s. lit s @ [0]) us))))) = Inr (lit s)"
    if "names = us @ s # vs" "CHR 0x00 \<notin> set s" "length s < 100" for us s vs
  proof -
    have "string_table = (0 # concat (map (\<lambda>s. lit s @ [0]) us)) @ lit s @ 0 # concat (map (\<lambda>s. lit s @ [0]) vs)"
      by (simp add: string_table_def that(1))
    from cstring_part [OF l this lit_no_nul [OF that(2)]] show ?thesis
      using that(3) by (simp add: lit_def)
  qed
  show "cstring (mem st) 0x101c1 = Inr (lit ''.symtab'')"
    using c [of "[]"] by (simp add: names_def lit_def)
  show "cstring (mem st) 0x101c9 = Inr (lit ''.strtab'')"
    using c [of "[''.symtab'']"] by (simp add: names_def lit_def)
  show "cstring (mem st) 0x101d1 = Inr (lit ''.data'')"
    using c [of "[''.symtab'', ''.strtab'']"] by (simp add: names_def lit_def)
  show "cstring (mem st) 0x101d7 = Inr (lit ''.rodata'')"
    using c [of "[''.symtab'', ''.strtab'', ''.data'']"] by (simp add: names_def lit_def)
  show "cstring (mem st) 0x101df = Inr (lit ''.rela.text'')"
    using c [of "[''.symtab'', ''.strtab'', ''.data'', ''.rodata'']"] by (simp add: names_def lit_def)
  have "cstring (mem st) (0x101c0 + of_nat (length (take 36 string_table))) = Inr (lit ''.text'')"
    by (rule cstring_part [OF l, of _ _ "drop 42 string_table"])
      (simp_all add: string_table_def names_def lit_no_nul, simp_all add: lit_def)
  then show "cstring (mem st) 0x101e4 = Inr (lit ''.text'')"
    by (simp add: string_table_def names_def lit_def)
  show "cstring (mem st) 0x101ea = Inr (lit ''add5'')"
    using c [of "[''.symtab'', ''.strtab'', ''.data'', ''.rodata'', ''.rela.text'']"]
    by (simp add: names_def lit_def)
  show "cstring (mem st) 0x101ef = Inr (lit ''add10'')"
    using c [of "[''.symtab'', ''.strtab'', ''.data'', ''.rodata'', ''.rela.text'', ''add5'']"]
    by (simp add: names_def lit_def)
  show "cstring (mem st) 0x101f5 = Inr (lit ''puts'')"
    using c [of "[''.symtab'', ''.strtab'', ''.data'', ''.rodata'', ''.rela.text'', ''add5'', ''add10'']"]
    by (simp add: names_def lit_def)
qed

section \<open>The sections\<close>

lemma headers_read:
  assumes "holds_file st name shndx ty addend" "sections st = 0x10040" "shstrtab st = 0x101c0" "j < 6"
  shows "sh_name st (section_at st (of_nat j)) = Inr ([1, 9, 36, 17, 23, 31] ! j)"
    "sh_offset st (section_at st (of_nat j)) = Inr ([512, 448, 624, 640, 656, 592] ! j)"
    "sh_size st (section_at st (of_nat j)) = Inr ([72, 58, 16, 4, 8, 24] ! j)"
    "sh_entsize st (section_at st (of_nat j)) = Inr ([24, 0, 0, 0, 0, 24] ! j)"
    "cstring (mem st) (shstrtab st + ucast ([1, 9, 36, 17, 23, 31] ! j :: u32)) =
      Inr (lit ([''.symtab'', ''.strtab'', ''.text'', ''.data'', ''.rodata'', ''.rela.text''] ! j))"
proof -
  note p = pieces [OF assms(1)]
  note h = shdr_read [OF p(2)] shdr_read [OF p(3)] shdr_read [OF p(4)] shdr_read [OF p(5)]
    shdr_read [OF p(6)] shdr_read [OF p(7)]
  note s = strings_read [OF assms(1)]
  have "j \<in> {0, 1, 2, 3, 4, 5}" using assms(4) by auto
  then show "sh_name st (section_at st (of_nat j)) = Inr ([1, 9, 36, 17, 23, 31] ! j)"
    "sh_offset st (section_at st (of_nat j)) = Inr ([512, 448, 624, 640, 656, 592] ! j)"
    "sh_size st (section_at st (of_nat j)) = Inr ([72, 58, 16, 4, 8, 24] ! j)"
    "sh_entsize st (section_at st (of_nat j)) = Inr ([24, 0, 0, 0, 0, 24] ! j)"
    "cstring (mem st) (shstrtab st + ucast ([1, 9, 36, 17, 23, 31] ! j :: u32)) =
      Inr (lit ([''.symtab'', ''.strtab'', ''.text'', ''.data'', ''.rodata'', ''.rela.text''] ! j))"
    using h s by (auto simp: section_at_def assms(2,3))
qed

lemma sections_found:
  assumes "holds_file st name shndx ty addend" "sections st = 0x10040" "shstrtab st = 0x101c0"
  shows "need_section ''.symtab'' st = Inr 0x10040" "need_section ''.strtab'' st = Inr 0x10080"
    "need_section ''.text'' st = Inr 0x100c0" "need_section ''.data'' st = Inr 0x10100"
    "need_section ''.rodata'' st = Inr 0x10140" "need_section ''.rela.text'' st = Inr 0x10180"
proof -
  note h = headers_read [OF assms]
  have base: "obj_base st = 0x10000" using assms(1) by (simp add: holds_file_def)
  have n: "e_shnum st = Inr 6"
    using ehdr_read(2) [of st 64 6 1] pieces(1) [OF assms(1)] by (simp add: base)
  have "section_loop st (lit nm) (of_nat 0) = Inr (map_option (\<lambda>j. section_at st (of_nat j))
      (find (\<lambda>j. lit ([''.symtab'', ''.strtab'', ''.text'', ''.data'', ''.rodata'', ''.rela.text''] ! j) = lit nm \<and>
        ([72, 58, 16, 4, 8, 24] ! j :: u64) \<noteq> 0) [0..<unat (6 :: u16)]))" for nm
    by (rule section_loop_find [OF n]) (use h in auto)
  then show "need_section ''.symtab'' st = Inr 0x10040" "need_section ''.strtab'' st = Inr 0x10080"
    "need_section ''.text'' st = Inr 0x100c0" "need_section ''.data'' st = Inr 0x10100"
    "need_section ''.rodata'' st = Inr 0x10140" "need_section ''.rela.text'' st = Inr 0x10180"
    by (simp_all add: need_section_def lookup_section_def upt_conv_Cons section_at_def assms(2))
qed

lemma entries_read:
  assumes "holds_file st name shndx ty addend"
  shows "entries st 0x10040 = Inr 3" "entries st 0x10180 = Inr 1"
  using shdr_read(3,4) [OF pieces(2) [OF assms]] shdr_read(3,4) [OF pieces(7) [OF assms]]
  by (simp_all add: entries_def)

section \<open>The loader on the file\<close>

lemma holds_file_update [simp]:
  "holds_file (st\<lparr>sections := x\<rparr>) = holds_file st" "holds_file (st\<lparr>shstrtab := x\<rparr>) = holds_file st"
  "holds_file (st\<lparr>symbols := x\<rparr>) = holds_file st" "holds_file (st\<lparr>num_symbols := n\<rparr>) = holds_file st"
  "holds_file (st\<lparr>text_runtime_base := x\<rparr>) = holds_file st"
  by (intro ext; simp add: holds_file_def)+

text \<open>The state after the tables are read.\<close>

definition parsed :: "loader \<Rightarrow> loader" where
  "parsed st = st\<lparr>sections := 0x10040, shstrtab := 0x101c0, symbols := 0x10200,
     num_symbols := 3, strtab := 0x101c0, page_size := 4096\<rparr>"

lemma tables_parsed:
  assumes st: "holds_file st name shndx ty addend" and pg: "os_page env = 4096"
  shows "parse_tables env st = Inr (parsed st)"
proof -
  have base: "obj_base st = 0x10000" using st by (simp add: holds_file_def)
  have e: "e_shoff s = Inr 64" "e_shstrndx s = Inr 1" if "holds_file s name shndx ty addend" for s
    using ehdr_read [of s 64 6 1] pieces(1) [OF that] that by (simp_all add: holds_file_def)
  have o: "sh_offset s 0x10040 = Inr 512" "sh_offset s 0x10080 = Inr 448"
    if "holds_file s name shndx ty addend" for s
    using shdr_read(2) [OF pieces(2) [OF that]] shdr_read(2) [OF pieces(3) [OF that]] by simp_all
  note f = sections_found(1,2) [where name = name and shndx = shndx and ty = ty and addend = addend]
    entries_read(1) [where name = name and shndx = shndx and ty = ty and addend = addend]
  show ?thesis
    using st by (simp add: parse_tables_def Let_def e o f base section_at_def pg parsed_def)
qed

definition example_reloc :: "u32 \<Rightarrow> u64 \<Rightarrow> target \<Rightarrow> reloc" where
  "example_reloc ty addend target =
     \<lparr>rl_offset = 4, rl_type = ty, rl_target = target, rl_addend = addend\<rparr>"

definition example_object :: "u32 \<Rightarrow> u64 \<Rightarrow> target \<Rightarrow> object" where
  "example_object ty addend target =
     \<lparr>o_text = text_bytes, o_data = [7, 0, 0, 0], o_rodata = lit ''hello'' @ [0, 0, 0],
      o_relocs = [example_reloc ty addend target]\<rparr>"

lemma parsed_fields [simp]:
  "mem (parsed st) = mem st" "obj_base (parsed st) = obj_base st" "sections (parsed st) = 0x10040"
  "shstrtab (parsed st) = 0x101c0" "symbols (parsed st) = 0x10200" "num_symbols (parsed st) = 3"
  "strtab (parsed st) = 0x101c0" "holds_file (parsed st) name shndx ty addend = holds_file st name shndx ty addend"
  by (simp_all add: parsed_def holds_file_def)

lemma target_read:
  assumes "holds_file st name shndx ty addend"
    and "shndx = 4 \<and> target = Local Rodata_copy 0 \<or>
      ext \<and> shndx = 0 \<and> name = 53 \<and> target = External (lit ''puts'')"
  shows "read_target ext (parsed st) 0x10230 = Inr target"
proof -
  let ?s = "parsed st"
  have H: "holds_file ?s name shndx ty addend" using assms(1) by simp
  have y: "st_name ?s 0x10230 = Inr name" "st_shndx ?s 0x10230 = Inr shndx" "st_value ?s 0x10230 = Inr 0"
    using sym_read [OF pieces(11) [OF H]] by simp_all
  have "section_place ?s (section_at ?s 4) = Inr Rodata_copy"
    using headers_read(1,5) [OF H, of 4] by (simp add: section_place_def section_at_def)
  then show ?thesis
    using y strings_read(9) [OF H] assms(2) by (auto simp: read_target_def SHN_UNDEF_def)
qed

lemma object_parsed:
  assumes "holds_file st name shndx ty addend"
    and "shndx = 4 \<and> target = Local Rodata_copy 0 \<or>
      ext \<and> shndx = 0 \<and> name = 53 \<and> target = External (lit ''puts'')"
  shows "is_object ext (parsed st) (example_object ty addend target)"
proof -
  let ?s = "parsed st"
  have H: "holds_file ?s name shndx ty addend" using assms(1) by simp
  have base: "obj_base st = 0x10000" using assms(1) by (simp add: holds_file_def)
  note h = shdr_read(2,3) [OF pieces(4) [OF H]] shdr_read(2,3) [OF pieces(5) [OF H]]
    shdr_read(2,3) [OF pieces(6) [OF H]] shdr_read(2,3) [OF pieces(7) [OF H]]
  note f = sections_found [OF H]
  have b: "section_bytes ?s 0x100c0 = Inr text_bytes" "section_bytes ?s 0x10100 = Inr [7, 0, 0, 0]"
    "section_bytes ?s 0x10140 = Inr (lit ''hello'' @ [0, 0, 0])"
    using pieces(13-15) [OF assms(1)] by (simp_all add: section_bytes_def h base del: load_bytes.simps)
  obtain info where i: "r_info ?s 0x10250 = Inr info" "ELF64_R_SYM info = 2" "ELF64_R_TYPE info = ty"
    using rela_read(3) [OF pieces(12) [OF H]] by blast
  have "read_reloc ext ?s 0x10250 = Inr (example_reloc ty addend target)"
    using i rela_read(1,2) [OF pieces(12) [OF H]] target_read [OF assms]
    by (simp add: read_reloc_def symbol_at_def example_reloc_def)
  moreover have "rela_text ?s = Inr (1, 0x10250)"
    using f(6) entries_read(2) [OF H] h by (simp add: rela_text_def base)
  ultimately have "relocs ext ?s [example_reloc ty addend target]"
    by (auto simp: relocs_def)
  then show ?thesis using f b by (simp add: is_object_def example_object_def)
qed

lemma functions_found:
  assumes "holds_file st name shndx ty addend" "text_runtime_base st = 0" 
  shows "lookup_function ''add5'' ((parsed st)\<lparr>text_runtime_base := a\<rparr>) = Inr (Some (a + 0))"
    "lookup_function ''add10'' ((parsed st)\<lparr>text_runtime_base := a\<rparr>) = Inr (Some (a + 8))"
proof -
  let ?s = "(parsed st)\<lparr>text_runtime_base := a\<rparr>"
  have H: "holds_file ?s name shndx ty addend" using assms(1) by simp
  note y = sym_read [OF pieces(9) [OF H]] sym_read [OF pieces(10) [OF H]] sym_read [OF pieces(11) [OF H]]
  note s = strings_read(7,8) [OF H]
  have "function_loop ?s (lit nm) 0 =
    Inr (map_option (\<lambda>j. text_runtime_base ?s + [0, 8, 0] ! j)
      (find (\<lambda>j. ELF64_ST_TYPE ([2, 2, 0] ! j) = STT_FUNC \<and> [lit ''add5'', lit ''add10'', []] ! j = lit nm)
        [0..<nat (sint (num_symbols ?s))]))" for nm
  proof (rule function_loop_find [where off = "\<lambda>j. [42, 47, 0] ! j"])
    fix j assume "int j < sint (num_symbols ?s)"
    then have "j \<in> {0, 1, 2}" by auto
    then show "st_info ?s (symbol_at ?s (of_nat j)) = Inr ([2, 2, 0] ! j) \<and>
        (ELF64_ST_TYPE ([2, 2, 0] ! j) = STT_FUNC \<longrightarrow>
          st_name ?s (symbol_at ?s (of_nat j)) = Inr ([42, 47, 0] ! j) \<and>
          cstring (mem ?s) (strtab ?s + ucast ([42, 47, 0] ! j :: u32)) = Inr ([lit ''add5'', lit ''add10'', []] ! j) \<and>
          st_value ?s (symbol_at ?s (of_nat j)) = Inr ([0, 8, 0] ! j))"
      using y s by (auto simp: symbol_at_def ELF64_ST_TYPE_def STT_FUNC_def)
  qed
  then show "lookup_function ''add5'' ?s = Inr (Some (a + 0))"
    "lookup_function ''add10'' ?s = Inr (Some (a + 8))"
    by (simp_all add: lookup_function_def upt_conv_Cons ELF64_ST_TYPE_def STT_FUNC_def)
qed

section \<open>Before the loader runs\<close>

text \<open>A process in which nothing is mapped, with all static variables zero.\<close>

definition fresh :: loader where
  "fresh = \<lparr>mem = \<lparr>byte_at = (\<lambda>_. 0), prot_at = (\<lambda>_. None)\<rparr>, obj_base = 0, sections = 0, shstrtab = 0,
     symbols = 0, num_symbols = 0, strtab = 0, page_size = 0, text_runtime_base = 0, data_runtime_base = 0,
     rodata_runtime_base = 0, num_ext_symbols = 0, jumptable = 0, curr_jmp_idx = 0, printed = []\<rparr>"

definition example_env :: "u32 \<Rightarrow> u16 \<Rightarrow> u32 \<Rightarrow> u64 \<Rightarrow> os_env" where
  "example_env name shndx ty addend = \<lparr>obj_fd = 3, open_errno = 0,
     obj_file = object_file name shndx ty addend, fstat_errno = None, obj_addr = Inr 0x10000,
     anon_addr = (\<lambda>_. Inr 0x100000), os_page = 4096\<rparr>"

definition loaded :: "u32 \<Rightarrow> u16 \<Rightarrow> u32 \<Rightarrow> u64 \<Rightarrow> loader" where
  "loaded name shndx ty addend = fresh\<lparr>obj_base := 0x10000,
     mem := map_pages 4096 0x10000 664 RO
       (\<lambda>i. if unat i < 664 then object_file name shndx ty addend ! unat i else 0) (mem fresh)\<rparr>"

lemma env_fields [simp]:
  "os_page (example_env name shndx ty addend) = 4096"
  "anon_addr (example_env name shndx ty addend) n = Inr 0x100000"
  "os_ok (example_env name shndx ty addend)"
proof -
  have "os_page (example_env name shndx ty addend) = 2 ^ 12" by (simp add: example_env_def)
  then show "os_ok (example_env name shndx ty addend)" unfolding os_ok_def by (intro exI [of _ 12]) simp
qed (simp_all add: example_env_def)

lemma file_loaded:
  "load_obj (example_env name shndx ty addend) fresh = Inr (loaded name shndx ty addend)"
proof -
  have "object_file name shndx ty addend \<noteq> []" using length_object_file [of name shndx ty addend] by auto
  then show ?thesis
    by (simp add: load_obj_def example_env_def loaded_def length_object_file cong: if_cong)
qed

lemma loaded_holds: "holds_file (loaded name shndx ty addend) name shndx ty addend"
proof -
  have "load_bytes (mem (loaded name shndx ty addend)) 664 0x10000 = Inr (object_file name shndx ty addend)"
    unfolding load_bytes_Inr_iff
  proof (intro conjI allI impI nth_equalityI)
    fix i :: nat assume "i < 664"
    then show "allows (mem (loaded name shndx ty addend)) can_read (0x10000 + of_nat i)"
      by (simp add: loaded_def map_pages_def in_pages_def allows_def pages_end_def unat_of_nat take_bit_nat_eq_self_iff)
  next
    fix i assume "i < length (object_file name shndx ty addend)"
    then have "i < 664" by (simp add: length_object_file)
    then show "object_file name shndx ty addend ! i =
        map (\<lambda>i. byte_at (mem (loaded name shndx ty addend)) (0x10000 + of_nat i)) [0..<664] ! i"
      by (simp add: loaded_def map_pages_def in_pages_def pages_end_def unat_of_nat take_bit_nat_eq_self_iff)
  qed (simp add: length_object_file)
  then show ?thesis by (simp add: holds_file_def loaded_def del: load_bytes.simps)
qed

lemma loaded_unmapped:
  assumes "n \<le> 0x10000"
  shows "unmapped 0x100000 n (mem (loaded name shndx ty addend))"
  unfolding unmapped_def
proof (intro allI impI)
  fix x :: u64 assume "unat (x - 0x100000) < n"
  then have d: "unat (x - 0x100000) + unat (0xf0000 :: u64) < 2 ^ 64" using assms by simp
  have "x - 0x10000 = (x - 0x100000) + 0xf0000" by simp
  then have "unat (x - 0x10000) = unat (x - 0x100000) + 0xf0000"
    using d unat_add_lem [of "x - 0x100000" "0xf0000"] by simp
  then have "4096 \<le> unat (x - 0x10000)" by simp
  then show "prot_at (mem (loaded name shndx ty addend)) x = None"
    by (simp add: loaded_def map_pages_def in_pages_def pages_end_def fresh_def)
qed

lemma loaded_wx: "wx (mem (loaded name shndx ty addend))"
  by (simp add: wx_def allows_def loaded_def map_pages_def fresh_def)

lemma example_pages:
  "text_pages (example_env name shndx ty addend) (example_object ty addend target) = 4096"
  "data_pages (example_env name shndx ty addend) (example_object ty addend target) = 4096"
  "all_pages (example_env name shndx ty addend) (example_object ty addend target) = 12288"
  by (simp_all add: all_pages_def page_counts example_object_def pages_end_def text_bytes_def lit_def)

lemma example_parts:
  "o_relocs (example_object ty addend target) = [example_reloc ty addend target]"
  "o_text (example_object ty addend target) = text_bytes" "length text_bytes = 16"
  "rl_offset (example_reloc ty addend target) = 4" "rl_type (example_reloc ty addend target) = ty"
  "rl_target (example_reloc ty addend target) = target" "rl_addend (example_reloc ty addend target) = addend"
  by (simp_all add: example_object_def example_reloc_def text_bytes_def)

text \<open>The hypotheses of the theorems about \<open>parse_obj\<close> on this file.\<close>

lemma example_setup:
  assumes "shndx = 4 \<and> target = Local Rodata_copy 0 \<or>
    ext \<and> shndx = 0 \<and> name = 53 \<and> target = External (lit ''puts'')"
  shows "parse_tables (example_env name shndx ty addend) (loaded name shndx ty addend) =
      Inr (parsed (loaded name shndx ty addend))"
    "is_object ext (parsed (loaded name shndx ty addend)) (example_object ty addend target)"
    "(0x100000 :: u64) mod os_page (example_env name shndx ty addend) = 0"
  using tables_parsed [OF loaded_holds, of "example_env name shndx ty addend"] object_parsed [OF loaded_holds assms]
  by simp_all

end
