(* ===== verification/Loader1.thy ===== *)
theory Loader1
  imports Example_Object
begin

text \<open>
  \<open>2021-03-obj-file/1/loader.c\<close>: the loader that imports only \<open>.text\<close> and calls two functions of it.
  The functions it shares with the later versions are in \<open>Elf\<close>.

  The theorems: the whole program, from the object file to the lines it prints.
\<close>

unbundle bit_operations_syntax

section \<open>Operations\<close>

text \<open>The memory for the copy of the text.\<close>

definition allocate_text :: "os_env \<Rightarrow> u64 \<Rightarrow> loader \<Rightarrow> ld_stop + loader" where
  "allocate_text env text_hdr st =
     rbind (sh_size st text_hdr) (\<lambda>sz.
     rbind (mmap_anon env (page_align (page_size st) sz) (mem st)) (\<lambda>(a, m).
       Inr (st\<lparr>mem := m, text_runtime_base := a\<rparr>)))"

definition parse_obj :: "os_env \<Rightarrow> loader \<Rightarrow> ld_stop + loader" where
  "parse_obj env st =
     rbind (parse_tables env st) (\<lambda>st.
     rbind (need_section ''.text'' st) (\<lambda>text_hdr.
     rbind (allocate_text env text_hdr st) (\<lambda>st.
     rbind (copy_section (text_runtime_base st) text_hdr st) (\<lambda>st.
       protect env (text_runtime_base st) text_hdr RX st))))"

definition execute_funcs :: "machine \<Rightarrow> loader \<Rightarrow> ld_stop + loader" where
  "execute_funcs exec st =
     rbind (need_function ''add5'' st) (\<lambda>add5.
     rbind (show_int exec add5 42 ''Executing add5...'' ''add5(42) = '' st) (\<lambda>st.
     rbind (need_function ''add10'' st) (\<lambda>add10.
       show_int exec add10 42 ''Executing add10...'' ''add10(42) = '' st)))"

definition main :: "machine \<Rightarrow> os_env \<Rightarrow> loader \<Rightarrow> ld_stop + (int \<times> loader)" where
  "main exec env st =
     rbind (load_obj env st) (\<lambda>st.
     rbind (parse_obj env st) (\<lambda>st.
     rbind (execute_funcs exec st) (\<lambda>st. Inr (0, st))))"

section \<open>The imported text\<close>

text \<open>\<open>text_image env xs a m m'\<close>: \<open>m'\<close> is \<open>m\<close> with \<open>xs\<close> on executable pages at \<open>a\<close>.\<close>

definition text_image :: "os_env \<Rightarrow> bytes \<Rightarrow> u64 \<Rightarrow> memory \<Rightarrow> memory \<Rightarrow> bool" where
  "text_image env xs a m m' \<longleftrightarrow>
     load_bytes m' (length xs) a = Inr xs \<and>
     (\<forall>x. prot_at m' x = (if unat (x - a) < pages_end (os_page env) (length xs) then Some RX else prot_at m x)) \<and>
     (\<forall>x. pages_end (os_page env) (length xs) \<le> unat (x - a) \<longrightarrow> byte_at m' x = byte_at m x)"

lemma parse_obj_text:
  assumes os: "os_ok env" and tab: "parse_tables env st = Inr st1"
    and hdr: "need_section ''.text'' st1 = Inr th" "section_bytes st1 th = Inr xs"
    and fits: "pages_end (os_page env) (length xs) < 2 ^ 64"
    and kernel: "anon_addr env (of_nat (pages_end (os_page env) (length xs))) = Inr a"
      "a mod os_page env = 0" "unmapped a (pages_end (os_page env) (length xs)) (mem st)"
  shows "\<exists>m'. parse_obj env st = Inr (st1\<lparr>mem := m', text_runtime_base := a\<rparr>) \<and>
    text_image env xs a (mem st) m' \<and> sub_mem (mem st1) m'"
proof -
  let ?n = "pages_end (os_page env) (length xs)" and ?pg = "os_page env"
  note sz = need_section_size [OF hdr]
  have m1: "mem st1 = mem st" by (rule mem_parse_tables [OF tab])
  have ps: "page_size st1 = ?pg" by (rule page_size_parse_tables [OF tab])
  have al: "page_align ?pg (of_nat (length xs)) = of_nat ?n" by (rule page_align_of_nat [OF os sz(3) fits])
  have un: "unat (of_nat ?n :: u64) = ?n" using fits by (simp add: unat_of_nat take_bit_nat_eq_self_iff)
  have le: "length xs \<le> ?n" by (rule pages_end_ge [OF os_page_nonzero [OF os]])
  have pe: "pages_end ?pg ?n = ?n" by (rule pages_end_dvd [OF os_page_nonzero [OF os]]) simp
  have pos: "(of_nat ?n :: u64) \<noteq> 0"
  proof
    assume "(of_nat ?n :: u64) = 0"
    then have "?n = 0" using un by simp
    then show False using le sz(2) by simp
  qed
  let ?m0 = "map_pages ?pg a ?n RW (\<lambda>_. 0) (mem st)"
  let ?S = "\<lambda>m. st1\<lparr>text_runtime_base := a, mem := m\<rparr>"
  have alloc: "allocate_text env th st1 = Inr (?S ?m0)"
    using sz(1) kernel(1) pos un by (simp add: allocate_text_def mmap_anon_def ps al m1)
  have kern: "unmapped a (pages_end ?pg ?n) (mem st)" using kernel(3) by (simp only: pe)
  have s0: "sub_mem (mem st) ?m0" by (rule sub_mem_map_pages [OF kern])
  have s1: "sub_mem (mem st) (poke a xs ?m0)"
    using sub_mem_poke [OF s0 kernel(3), of 0 xs] le fits by simp
  have sub: "sub_st st1 (?S m)" if "sub_mem (mem st) m" for m
    using that by (simp add: sub_st_def tables_def m1)
  have w: "allows ?m0 can_write (a + of_nat i)" if "i < length xs" for i
    using that le fits by (simp add: map_pages_def in_pages_def allows_def pe unat_of_nat take_bit_nat_eq_self_iff)
  have c: "copy_section a th (?S ?m0) = Inr (?S (poke a xs ?m0))"
    using copy_section_ok [OF section_bytes_mono [OF hdr(2) sub [OF s0]], of a] w by simp
  have sz1: "sh_size (?S (poke a xs ?m0)) th = Inr (of_nat (length xs))"
    by (rule field_mono(6) [OF sub [OF s1] sz(1)])
  let ?m2 = "(poke a xs ?m0)\<lparr>prot_at := (\<lambda>x. if unat (x - a) < ?n then Some RX
    else prot_at (poke a xs ?m0) x)\<rparr>"
  have pgs: "pages env (of_nat (length xs) :: u64) = ?n" using sz(3) by (rule pages_of_nat)
  have "prot_at (mem (?S (poke a xs ?m0))) x \<noteq> None" if "unat (x - a) < ?n" for x
    using that by (simp add: map_pages_def in_pages_def pe)
  then have p: "protect env a th RX (?S (poke a xs ?m0)) = Inr (?S ?m2)"
    using protect_ok [OF os _ sz1, of a RX] kernel(2) fits ps unfolding pgs by (simp cong: if_cong)
  have run: "parse_obj env st = Inr (?S ?m2)"
    using tab hdr(1) alloc c p by (simp add: parse_obj_def)
  have "load_bytes (poke a xs ?m0) (length xs) a = Inr xs"
    using le fits by (intro load_poke)
      (auto simp: map_pages_def in_pages_def allows_def pe unat_of_nat take_bit_nat_eq_self_iff)
  then have "load_bytes ?m2 (length xs) a = Inr xs"
    using le fits by (auto simp: load_bytes_Inr_iff allows_def unat_of_nat take_bit_nat_eq_self_iff)
  then have "text_image env xs a (mem st) ?m2"
    using le by (auto simp: text_image_def map_pages_def in_pages_def pe byte_at_poke)
  moreover have "sub_mem (mem st1) ?m2"
    using s1 kernel(3) by (auto simp: m1 sub_mem_def allows_def unmapped_def)
  moreover have "?S ?m2 = st1\<lparr>mem := ?m2, text_runtime_base := a\<rparr>" by simp
  ultimately show ?thesis using run by (intro exI [of _ ?m2]) simp
qed

text \<open>One call whose result is printed.\<close>

lemma show_int_ok:
  assumes "allows (mem st) can_exec f" "exec f arg (mem st) = Inr (v, m', [])"
  shows "show_int exec f arg msg label st = Inr (st\<lparr>mem := m',
    printed := printed st @ [Puts (lit msg), Print_int label (sint (ucast v :: 32 word))]\<rparr>)"
  using assms by (simp add: show_int_def run_def puts_def)

section \<open>Theorems\<close>

text \<open>
  The imported machine code is right for \<open>f\<close>: called at offset \<open>off\<close> of the text \<open>xs\<close> at \<open>a\<close>
  with the argument 42, in every memory that holds the text there, it returns \<open>v\<close>, prints nothing
  and leaves the memory as it was.
\<close>

definition computes :: "machine \<Rightarrow> bytes \<Rightarrow> u64 \<Rightarrow> u64 \<Rightarrow> u64 \<Rightarrow> bool" where
  "computes exec xs a f v \<longleftrightarrow> (\<forall>m. load_bytes m (length xs) a = Inr xs \<longrightarrow> exec f 42 m = Inr (v, m, []))"

lemma need_function_Some:
  "lookup_function name st = Inr (Some f) \<Longrightarrow> f \<noteq> 0 \<Longrightarrow> need_function name st = Inr f"
  by (simp add: need_function_def)

text \<open>
  C34: the whole program. For an object file that is mapped, whose tables can be read and in which the
  symbols \<open>add5\<close> and \<open>add10\<close> are functions at offsets of the text, \<open>main\<close> returns 0 and has printed
  the two calls with their results, each run on an executable page; it ends with the text on pages
  that are executable and not writable.
\<close>

theorem loader_prints:
  assumes os: "os_ok env" and load: "load_obj env st = Inr st0" and tab: "parse_tables env st0 = Inr st1"
    and hdr: "need_section ''.text'' st1 = Inr th" "section_bytes st1 th = Inr xs"
    and fits: "pages_end (os_page env) (length xs) < 2 ^ 64"
    and kernel: "anon_addr env (of_nat (pages_end (os_page env) (length xs))) = Inr a"
      "a mod os_page env = 0" "unmapped a (pages_end (os_page env) (length xs)) (mem st0)"
    and funs: "lookup_function ''add5'' (st1\<lparr>text_runtime_base := a\<rparr>) = Inr (Some (a + k5))"
      "lookup_function ''add10'' (st1\<lparr>text_runtime_base := a\<rparr>) = Inr (Some (a + k10))"
      "unat k5 < length xs" "unat k10 < length xs" "a + k5 \<noteq> 0" "a + k10 \<noteq> 0"
    and code: "computes exec xs a (a + k5) v5" "computes exec xs a (a + k10) v10"
  shows "\<exists>st'. main exec env st = Inr (0, st') \<and>
    printed st' = printed st @
      [Puts (lit ''Executing add5...''), Print_int ''add5(42) = '' (sint (ucast v5 :: 32 word)),
       Puts (lit ''Executing add10...''), Print_int ''add10(42) = '' (sint (ucast v10 :: 32 word))] \<and>
    load_bytes (mem st') (length xs) a = Inr xs \<and>
    (\<forall>x. unat (x - a) < length xs \<longrightarrow> prot_at (mem st') x = Some RX)"
proof -
  let ?n = "pages_end (os_page env) (length xs)"
  have le: "length xs \<le> ?n" by (rule pages_end_ge [OF os_page_nonzero [OF os]])
  obtain m where parse: "parse_obj env st0 = Inr (st1\<lparr>mem := m, text_runtime_base := a\<rparr>)"
    and img: "text_image env xs a (mem st0) m" and sub: "sub_mem (mem st1) m"
    using parse_obj_text [OF os tab hdr fits kernel] by blast
  let ?s = "\<lambda>m out. st1\<lparr>mem := m, text_runtime_base := a, printed := out\<rparr>"
  have pr: "printed st1 = printed st"
    using load tab by (auto simp: load_obj_def parse_tables_def rbind_eq_Inr_iff Let_def
        split: if_splits option.splits sum.splits)
  have ro: "allows m can_exec x" "prot_at m x = Some RX" if "unat (x - a) < length xs" for x
    using img that le by (simp_all add: text_image_def allows_def)
  have ld: "load_bytes m (length xs) a = Inr xs" using img by (simp add: text_image_def)
  have run: "exec (a + k5) 42 m = Inr (v5, m, [])" "exec (a + k10) 42 m = Inr (v10, m, [])"
    using code ld by (auto simp: computes_def)
  have x: "allows m can_exec (a + k5)" "allows m can_exec (a + k10)"
    using funs(3,4) by (intro ro(1); simp)+
  have find: "need_function name (?s m out) = Inr f"
    if "lookup_function name (st1\<lparr>text_runtime_base := a\<rparr>) = Inr (Some f)" "f \<noteq> 0" for name out f
    using need_function_mono [OF need_function_Some [OF that], of "?s m out"] sub
    by (simp add: sub_st_def tables_def)
  let ?o5 = "printed st @ [Puts (lit ''Executing add5...''), Print_int ''add5(42) = '' (sint (ucast v5 :: 32 word))]"
  let ?o10 = "?o5 @ [Puts (lit ''Executing add10...''), Print_int ''add10(42) = '' (sint (ucast v10 :: 32 word))]"
  have "st1\<lparr>mem := m, text_runtime_base := a\<rparr> = ?s m (printed st)"
    using pr by (cases st1) simp
  then have parse': "parse_obj env st0 = Inr (?s m (printed st))" using parse by (simp only:)
  have 1: "show_int exec (a + k5) 42 ''Executing add5...'' ''add5(42) = '' (?s m (printed st)) = Inr (?s m ?o5)"
    using show_int_ok [of "?s m (printed st)" "a + k5" exec 42 v5 m] x(1) run(1) by simp
  have 2: "show_int exec (a + k10) 42 ''Executing add10...'' ''add10(42) = '' (?s m ?o5) = Inr (?s m ?o10)"
    using show_int_ok [of "?s m ?o5" "a + k10" exec 42 v10 m] x(2) run(2) by simp
  have "execute_funcs exec (?s m (printed st)) = Inr (?s m ?o10)"
    unfolding execute_funcs_def find [OF funs(1,5)] find [OF funs(2,6)] rbind_simps 1 2 ..
  then have "main exec env st = Inr (0, ?s m ?o10)"
    unfolding main_def load rbind_simps parse' by simp
  then show ?thesis
    using ld ro(2) by (intro exI [of _ "?s m ?o10"]) simp
qed

text \<open>A machine for the example: the function at the start of the text adds 5, the other one 10.\<close>

definition adder :: machine where
  "adder f x m = Inr (ucast x + (if f = 0x100000 then 5 else 10), m, [])"

theorem loader_prints_witness:
  "\<exists>st'. main adder (example_env 0 4 4 (- 4)) fresh = Inr (0, st') \<and>
    printed st' =
      [Puts (lit ''Executing add5...''), Print_int ''add5(42) = '' 47,
       Puts (lit ''Executing add10...''), Print_int ''add10(42) = '' 52]"
proof -
  let ?e = "example_env 0 4 4 (- 4)" and ?s = "loaded 0 4 4 (- 4)"
  have H: "holds_file (parsed ?s) 0 4 4 (- 4)" using loaded_holds by simp
  have tab: "parse_tables ?e ?s = Inr (parsed ?s)"
    and ob: "is_object False (parsed ?s) (example_object 4 (- 4) (Local Rodata_copy 0))"
    by (rule example_setup; simp)+
  then have th: "need_section ''.text'' (parsed ?s) = Inr 0x100c0" "section_bytes (parsed ?s) 0x100c0 = Inr text_bytes"
    using sections_found(3) [OF H] by (auto simp: is_object_def example_parts)
  have pg: "pages_end (os_page ?e) (length text_bytes) = 4096" by (simp add: pages_end_def example_parts)
  have f: "lookup_function ''add5'' ((parsed ?s)\<lparr>text_runtime_base := 0x100000\<rparr>) = Inr (Some (0x100000 + 0))"
    "lookup_function ''add10'' ((parsed ?s)\<lparr>text_runtime_base := 0x100000\<rparr>) = Inr (Some (0x100000 + 8))"
    by (rule functions_found [OF loaded_holds], simp add: loaded_def fresh_def)+
  have "\<exists>st'. main adder ?e fresh = Inr (0, st') \<and> printed st' = printed fresh @
      [Puts (lit ''Executing add5...''), Print_int ''add5(42) = '' (sint (ucast (47 :: u64) :: 32 word)),
       Puts (lit ''Executing add10...''), Print_int ''add10(42) = '' (sint (ucast (52 :: u64) :: 32 word))] \<and>
      load_bytes (mem st') (length text_bytes) 0x100000 = Inr text_bytes \<and>
      (\<forall>x. unat (x - 0x100000) < length text_bytes \<longrightarrow> prot_at (mem st') x = Some RX)"
    by (rule loader_prints [OF env_fields(3) file_loaded tab th _ _ _ _ f]; (unfold pg)?)
      (simp_all add: example_parts loaded_unmapped computes_def adder_def)
  then show ?thesis by (auto simp: fresh_def)
qed

end
