(* ===== verification/Aarch64.thy ===== *)
theory Aarch64
  imports Sections
begin

text \<open>
  The relocations of the AArch64 loaders \<open>2021-03-obj-file/4/2/loader.c\<close> and \<open>4/3/loader.c\<close>, which have
  the same \<open>switch\<close>: each case reads and writes the instruction at the site.

  The theorems: a relocated \<open>bl\<close> reaches its symbol; a relocated \<open>adrp\<close> reaches the page of the
  symbol only when that page is at most three pages after the page of the site; a relocated \<open>add\<close>
  never gets the offset in the page.
\<close>

unbundle bit_operations_syntax

section \<open>The cases of the switch\<close>

definition R_AARCH64_CALL26 :: "32 word" where "R_AARCH64_CALL26 = 283"
definition R_AARCH64_ADD_ABS_LO12_NC :: "32 word" where "R_AARCH64_ADD_ABS_LO12_NC = 277"
definition R_AARCH64_ADR_PREL_PG_HI21 :: "32 word" where "R_AARCH64_ADR_PREL_PG_HI21 = 275"

text \<open>\<open>*((uint32_t *)patch_offset) = f(...)\<close>: the word is read, changed and written back.\<close>

definition update32 :: "(u32 \<Rightarrow> u32) \<Rightarrow> u64 \<Rightarrow> memory \<Rightarrow> ld_stop + memory" where
  "update32 f p m = rbind (load32 m p) (\<lambda>w. store32 m p (f w))"

definition load8 :: "memory \<Rightarrow> u64 \<Rightarrow> ld_stop + u8" where
  "load8 m a = rbind (load_bytes m 1 a) (\<lambda>bs. Inr (hd bs))"

text \<open>\<open>addend m\<close> reads \<open>relocations[i].r_addend\<close>; every use reads it again.\<close>

definition mask_bl :: u32 where "mask_bl = push_bit 26 0xffffffff"

definition call26 :: "(memory \<Rightarrow> ld_stop + u64) \<Rightarrow> u64 \<Rightarrow> u64 \<Rightarrow> memory \<Rightarrow> ld_stop + memory" where
  "call26 addend symbol_address patch_offset m =
     rbind (addend m) (\<lambda>A.
     let val = ucast (signed_drop_bit 2 (symbol_address + A - patch_offset)) in
     rbind (update32 (\<lambda>w. w AND mask_bl) patch_offset m)
       (update32 (\<lambda>w. w OR (val AND NOT mask_bl)) patch_offset))"

definition adr_prel :: "(memory \<Rightarrow> ld_stop + u64) \<Rightarrow> u64 \<Rightarrow> u64 \<Rightarrow> memory \<Rightarrow> ld_stop + memory" where
  "adr_prel addend symbol_address patch_offset m =
     rbind (addend m) (\<lambda>A.
     let val = ucast (((symbol_address + A) AND NOT 0xFFF) - (patch_offset AND NOT 0xFFF)) :: u32;
         val = drop_bit 12 val;
         immlo = push_bit 29 (val AND drop_bit 2 0xf);
         immhi = push_bit 22 (val AND push_bit 2 (drop_bit 13 0xffffff)) in
     rbind (update32 (\<lambda>w. w OR immlo) patch_offset m) (update32 (\<lambda>w. w OR immhi) patch_offset))"

definition mask_add :: u32 where "mask_add = 0xffc003ff"

text \<open>The case has no \<open>break\<close>: it goes on with the next one.\<close>

definition add_abs :: "(memory \<Rightarrow> ld_stop + u64) \<Rightarrow> u64 \<Rightarrow> u64 \<Rightarrow> memory \<Rightarrow> ld_stop + memory" where
  "add_abs addend symbol_address patch_offset m =
     rbind (addend m) (\<lambda>A.
     rbind (load8 m (symbol_address + A)) (\<lambda>b.
     let val = ucast b AND NOT mask_add in
     rbind (update32 (\<lambda>w. w AND mask_add) patch_offset m) (\<lambda>m.
     rbind (update32 (\<lambda>w. w OR val) patch_offset m)
       (adr_prel addend symbol_address patch_offset))))"

definition switch ::
    "32 word \<Rightarrow> (memory \<Rightarrow> ld_stop + u64) \<Rightarrow> u64 \<Rightarrow> u64 \<Rightarrow> memory \<Rightarrow> ld_stop + memory" where
  "switch type addend symbol_address patch_offset m =
     (if type = R_AARCH64_CALL26 then call26 addend symbol_address patch_offset m
      else if type = R_AARCH64_ADD_ABS_LO12_NC then add_abs addend symbol_address patch_offset m
      else if type = R_AARCH64_ADR_PREL_PG_HI21 then adr_prel addend symbol_address patch_offset m
      else Inr m)"

section \<open>The instruction a case leaves\<close>

definition call26_word :: "u64 \<Rightarrow> u64 \<Rightarrow> u32 \<Rightarrow> u32" where
  "call26_word s p w = (w AND mask_bl) OR (ucast (signed_drop_bit 2 (s - p)) AND NOT mask_bl)"

definition page_delta :: "u64 \<Rightarrow> u64 \<Rightarrow> u32" where
  "page_delta s p = drop_bit 12 (ucast ((s AND NOT 0xFFF) - (p AND NOT 0xFFF)))"

definition adr_word :: "u64 \<Rightarrow> u64 \<Rightarrow> u32 \<Rightarrow> u32" where
  "adr_word s p w = w OR push_bit 29 (page_delta s p AND 3) OR push_bit 22 (page_delta s p AND 0x1ffc)"

text \<open>The byte that \<open>add_abs\<close> reads never reaches the instruction.\<close>

definition add_word :: "u64 \<Rightarrow> u64 \<Rightarrow> u32 \<Rightarrow> u32" where
  "add_word s p w = adr_word s p (w AND mask_add)"

definition new_word :: "32 word \<Rightarrow> u64 \<Rightarrow> u64 \<Rightarrow> u32 \<Rightarrow> u32" where
  "new_word type s p w =
     (if type = R_AARCH64_CALL26 then call26_word s p w
      else if type = R_AARCH64_ADD_ABS_LO12_NC then add_word s p w
      else adr_word s p w)"

definition relocates :: "reloc \<Rightarrow> bool" where
  "relocates r \<longleftrightarrow> rl_type r \<in> {R_AARCH64_CALL26, R_AARCH64_ADD_ABS_LO12_NC, R_AARCH64_ADR_PREL_PG_HI21}"

lemma load32_text:
  assumes "load_bytes m (length xs) a = Inr xs" "unat off + 4 \<le> length xs"
  shows "load32 m (a + off) = Inr (word_of_le (take 4 (drop (unat off) xs)))"
proof -
  have xs: "xs ! i = byte_at m (a + of_nat i)" "allows m can_read (a + of_nat i)" if "i < length xs" for i
    using assms(1) that by (auto simp: load_bytes_Inr_iff) (metis nth_map_upt add_0 diff_zero)
  have "take 4 (drop (unat off) xs) = map (\<lambda>i. byte_at m (a + off + of_nat i)) [0..<4]"
    using assms(2) xs(1) by (intro nth_equalityI) (auto simp: add.assoc)
  moreover have "allows m can_read (a + off + of_nat i)" if "i < 4" for i
    using xs(2) [of "unat off + i"] that assms(2) by (simp add: add.assoc)
  ultimately have "load_bytes m 4 (a + off) = Inr (take 4 (drop (unat off) xs))"
    by (simp add: load_bytes_Inr_iff)
  then show ?thesis by (simp add: load32_def)
qed

lemma poke_twice:
  "length xs = length ys \<Longrightarrow> poke a ys (poke a xs m) = poke a ys m"
  by (simp add: poke_def cong: if_cong)

lemma update32_text:
  assumes ld: "load32 m p = Inr w" and wr: "\<And>i. i < 4 \<Longrightarrow> allows m can_write (p + of_nat i)"
  shows "update32 f p m = Inr (poke p (le_bytes 4 (f w)) m)"
  using assms by (simp add: update32_def store32_Inr_iff)

lemma load32_poke:
  assumes "load32 m p = Inr w"
  shows "load32 (poke p (le_bytes 4 v) m) p = Inr v"
proof -
  obtain bs where "load_bytes m 4 p = Inr bs" using assms by (auto simp: load32_def rbind_eq_Inr_iff)
  then have "load_bytes (poke p (le_bytes 4 v) m) (length (le_bytes 4 v)) p = Inr (le_bytes 4 v)"
    by (intro load_poke) (auto simp: load_bytes_Inr_iff)
  then show ?thesis by (simp add: load32_def word_of_le_le_bytes)
qed

lemma update32_poked:
  assumes "load32 m p = Inr w" "\<And>i. i < 4 \<Longrightarrow> allows m can_write (p + of_nat i)"
  shows "update32 f p (poke p (le_bytes 4 v) m) = Inr (poke p (le_bytes 4 (f v)) m)"
  using update32_text [OF load32_poke [OF assms(1)], of v f] assms(2) by (simp add: poke_twice)

lemma byte_and_mask_add: "(ucast (b :: u8) :: u32) AND NOT mask_add = 0"
proof (rule bit_word_eqI)
  fix n assume "n < LENGTH(32)"
  then have "n < 32" by simp
  moreover have "bit mask_add n" if "n < 8"
    using that by (simp add: mask_add_def less_Suc_eq numeral_eq_Suc) auto
  ultimately show "bit ((ucast b :: u32) AND NOT mask_add) n \<longleftrightarrow> bit (0 :: u32) n"
    by (auto simp: bit_simps dest: bit_imp_le_length)
qed

lemma adr_prel_word:
  assumes ld: "load32 m p = Inr w" and wr: "\<And>i. i < 4 \<Longrightarrow> allows m can_write (p + of_nat i)"
    and ad: "addend m = Inr A"
  shows "adr_prel addend s p m = Inr (poke p (le_bytes 4 (adr_word (s + A) p w)) m)"
  using ad update32_text [OF ld wr] update32_poked [OF ld wr]
  by (simp add: adr_prel_def Let_def adr_word_def page_delta_def or.assoc)

text \<open>The switch as one write of the new word.\<close>

lemma switch_word:
  assumes ld: "load32 m p = Inr w" and wr: "\<And>i. i < 4 \<Longrightarrow> allows m can_write (p + of_nat i)"
    and ad: "addend m = Inr A" "\<And>v :: u32. addend (poke p (le_bytes 4 v) m) = Inr A"
    and rd: "type = R_AARCH64_ADD_ABS_LO12_NC \<Longrightarrow> allows m can_read (s + A)"
    and ty: "type \<in> {R_AARCH64_CALL26, R_AARCH64_ADD_ABS_LO12_NC, R_AARCH64_ADR_PREL_PG_HI21}"
  shows "switch type addend s p m = Inr (poke p (le_bytes 4 (new_word type (s + A) p w)) m)"
proof -
  note U = update32_text [OF ld wr] update32_poked [OF ld wr]
  have adr: "adr_prel addend s p (poke p (le_bytes 4 v) m) = Inr (poke p (le_bytes 4 (adr_word (s + A) p v)) m)" for v
    using ad(2) U(2) by (simp add: adr_prel_def Let_def adr_word_def page_delta_def or.assoc)
  have adr0: "adr_prel addend s p m = Inr (poke p (le_bytes 4 (adr_word (s + A) p w)) m)"
    using ad(1) U by (simp add: adr_prel_def Let_def adr_word_def page_delta_def or.assoc)
  have call: "call26 addend s p m = Inr (poke p (le_bytes 4 (call26_word (s + A) p w)) m)"
    using ad(1) U by (simp add: call26_def Let_def call26_word_def)
  have add: "add_abs addend s p m = Inr (poke p (le_bytes 4 (add_word (s + A) p w)) m)"
    if "allows m can_read (s + A)"
    using that ad(1) U adr by (simp add: add_abs_def Let_def load8_def add_word_def byte_and_mask_add)
  show ?thesis
    using ty rd adr0 call add by (auto simp: switch_def new_word_def)
qed

section \<open>What the processor makes of it\<close>

text \<open>The target of \<open>bl\<close> (\<open>w\<close> at \<open>p\<close>): a signed 26-bit count of instructions.\<close>

definition bl_target :: "u64 \<Rightarrow> u32 \<Rightarrow> u64" where
  "bl_target p w = p + push_bit 2 (scast (signed_take_bit 25 w))"

text \<open>
  The result of \<open>adrp\<close>: a signed 21-bit count of pages, its two low bits in bits 29 and 30 of the
  instruction, the others from bit 5 on.
\<close>

definition adrp_target :: "u64 \<Rightarrow> u32 \<Rightarrow> u64" where
  "adrp_target p w = (p AND NOT 0xFFF) + push_bit 12 (signed_take_bit 20
     (ucast (push_bit 2 (take_bit 19 (drop_bit 5 w)) OR take_bit 2 (drop_bit 29 w))))"

lemma mask_eqs:
  "mask_bl = push_bit 26 (mask 6)" "mask_add = NOT (push_bit 10 (mask 12))"
  "(3 :: u32) = mask 2" "(0x1ffc :: u32) = push_bit 2 (mask 11)" "(3 :: u64) = mask 2"
  "(0xFFF :: u64) = mask 12"
  by code_simp+

lemma bit_mask_bl: "bit mask_bl n \<longleftrightarrow> 26 \<le> n \<and> n < 32"
  unfolding mask_eqs by (simp only: bit_push_bit_iff bit_mask_iff possible_bit_word len_bit0) auto

lemma bl_target_call26:
  assumes al: "(s - p) AND 3 = 0" and near: "- (2 ^ 27) \<le> sint (s - p)" "sint (s - p) < 2 ^ 27"
  shows "bl_target p (call26_word s p w) = s"
proof -
  let ?D = "s - p"
  have hi: "bit ?D n \<longleftrightarrow> bit ?D 27" if "27 \<le> n" "n < 64" for n
  proof -
    have "signed_take_bit 27 (sint ?D) = sint ?D"
      using near by (intro signed_take_bit_int_eq_self) simp_all
    then have "bit (sint ?D) n \<longleftrightarrow> bit (signed_take_bit 27 (sint ?D)) n" by simp
    also have "\<dots> \<longleftrightarrow> bit (sint ?D) (min 27 n)" by (simp add: bit_signed_take_bit_iff)
    finally have "bit (sint ?D) n \<longleftrightarrow> bit (sint ?D) (min 27 n)" .
    then show ?thesis using that by (simp add: bit_sint_iff min_def)
  qed
  have lo: "\<not> bit ?D n" if "n < 2" for n
  proof -
    have "bit (?D AND 3) n \<longleftrightarrow> bit ?D n \<and> n < 2"
      unfolding mask_eqs by (auto simp: bit_simps)
    then show ?thesis using al that by simp
  qed
  have "push_bit 2 (scast (signed_take_bit 25 (call26_word s p w))) = ?D"
  proof (rule bit_word_eqI)
    fix n assume n: "n < LENGTH(64)"
    show "bit (push_bit 2 (scast (signed_take_bit 25 (call26_word s p w))) :: u64) n \<longleftrightarrow> bit ?D n"
    proof (cases "n < 2")
      case True
      then show ?thesis using lo by (simp add: bit_simps)
    next
      case False
      have low: "bit (call26_word s p w) k \<longleftrightarrow> bit ?D (k + 2)" if "k \<le> 25" for k
        using that by (simp add: call26_word_def bit_or_iff bit_and_iff bit_not_iff bit_mask_bl
            bit_unsigned_iff bit_signed_drop_bit_iff add.commute)
      have "bit (push_bit 2 (scast (signed_take_bit 25 (call26_word s p w))) :: u64) n \<longleftrightarrow>
          bit (call26_word s p w) (min 25 (min 31 (n - 2)))"
        using False n by (auto simp: bit_push_bit_iff bit_signed_iff bit_signed_take_bit_iff min_def)
      also have "\<dots> \<longleftrightarrow> bit ?D (min 25 (min 31 (n - 2)) + 2)" by (rule low) simp
      also have "\<dots> \<longleftrightarrow> bit ?D n"
      proof -
        have "min 25 (min 31 (n - 2)) + 2 = min 27 n" using False by (auto simp: min_def)
        then show ?thesis using n hi [of n] by (cases "n < 27") (simp_all add: min_def)
      qed
      finally show ?thesis .
    qed
  qed
  then show ?thesis by (simp add: bl_target_def)
qed

text \<open>
  A \<open>bl\<close> that was relocated keeps its opcode and reaches \<open>S + A\<close>, when that is a multiple of
  four within 128 MB of the instruction.
\<close>

theorem bl_reaches:
  assumes al: "(s - p) AND 3 = 0" and near: "- (2 ^ 27) \<le> sint (s - p)" "sint (s - p) < 2 ^ 27"
  shows "bl_target p (call26_word s p w) = s \<and> drop_bit 26 (call26_word s p w) = drop_bit 26 w"
proof
  show "bl_target p (call26_word s p w) = s" by (rule bl_target_call26 [OF assms])
  show "drop_bit 26 (call26_word s p w) = drop_bit 26 w"
    by (rule bit_word_eqI) (auto simp: call26_word_def bit_simps bit_mask_bl dest: bit_imp_le_length)
qed

theorem bl_reaches_witness:
  "bl_target 0x100004 (call26_word 0x102000 0x100004 0x94000000) = 0x102000 \<and>
   drop_bit 26 (call26_word 0x102000 0x100004 0x94000000) = drop_bit 26 (0x94000000 :: u32)"
  by (rule bl_reaches) (code_simp, simp_all)

lemma bit_mask_add: "bit mask_add n \<longleftrightarrow> n < 10 \<or> 22 \<le> n \<and> n < 32"
  unfolding mask_eqs by (simp only: bit_not_iff bit_push_bit_iff bit_mask_iff possible_bit_word) auto

lemma bit_adr_word:
  "bit (adr_word s p w) n \<longleftrightarrow> bit w n \<or> (n = 29 \<or> n = 30) \<and> bit (page_delta s p) (n - 29) \<or>
     24 \<le> n \<and> n < 32 \<and> bit (page_delta s p) (n - 22)"
proof -
  have "bit (adr_word s p w) n \<longleftrightarrow> bit w n \<or>
      (29 \<le> n \<and> n < 32 \<and> bit (page_delta s p) (n - 29) \<and> n - 29 < 2) \<or>
      (22 \<le> n \<and> n < 32 \<and> bit (page_delta s p) (n - 22) \<and> 2 \<le> n - 22 \<and> n - 22 - 2 < 11)"
    unfolding adr_word_def mask_eqs(3,4)
    by (simp only: bit_or_iff bit_and_iff bit_push_bit_iff bit_mask_iff possible_bit_word len_bit0) auto
  then show ?thesis by auto
qed

text \<open>
  A relocated \<open>add\<close> never gets the offset of the symbol in its page: its immediate is zero,
  whatever the symbol is, and the page distance is written over its opcode bits instead.
\<close>

theorem add_loses_offset:
  "take_bit 12 (drop_bit 10 (add_word s p w)) = 0 \<and>
   take_bit 2 (drop_bit 29 (add_word s p w)) = take_bit 2 (drop_bit 29 w) OR
     take_bit 2 (page_delta s p) OR take_bit 2 (drop_bit 7 (page_delta s p))"
proof
  show "take_bit 12 (drop_bit 10 (add_word s p w)) = 0"
    by (rule bit_word_eqI) (auto simp: add_word_def bit_adr_word bit_simps bit_mask_add)
  show "take_bit 2 (drop_bit 29 (add_word s p w)) = take_bit 2 (drop_bit 29 w) OR
     take_bit 2 (page_delta s p) OR take_bit 2 (drop_bit 7 (page_delta s p))"
    by (rule bit_word_eqI) (auto simp: add_word_def bit_adr_word bit_simps bit_mask_add)
qed

text \<open>The word that is left by an \<open>adrp\<close> relocation with empty immediate, as the processor reads it.\<close>

lemma adr_word_reaches_iff:
  assumes w: "take_bit 19 (drop_bit 5 w) = 0" "take_bit 2 (drop_bit 29 w) = 0"
  shows "adrp_target p (adr_word s p w) = (s AND NOT 0xFFF) \<longleftrightarrow>
    (s AND NOT 0xFFF) - (p AND NOT 0xFFF) < 0x4000"
proof -
  let ?D = "(s AND NOT 0xFFF) - (p AND NOT 0xFFF)"
  let ?E = "push_bit 12 (signed_take_bit 20 (ucast
     (push_bit 2 (take_bit 19 (drop_bit 5 (adr_word s p w))) OR
      take_bit 2 (drop_bit 29 (adr_word s p w))))) :: u64"
  have lo: "\<not> bit ?D n" if "n < 12" for n
  proof -
    have page: "x AND NOT 0xFFF = push_bit 12 (drop_bit 12 x)" for x :: u64
      unfolding mask_eqs by (rule bit_word_eqI)
        (auto simp: bit_and_iff bit_not_iff bit_mask_iff bit_push_bit_iff bit_drop_bit_eq)
    have "?D = push_bit 12 (drop_bit 12 s - drop_bit 12 p)"
      unfolding page by (simp add: push_bit_eq_mult algebra_simps)
    then show ?thesis using that by (simp only: bit_push_bit_iff) auto
  qed
  have pd: "bit (page_delta s p) n \<longleftrightarrow> n < 20 \<and> bit ?D (n + 12)" for n
    by (auto simp: page_delta_def bit_drop_bit_eq bit_unsigned_iff add.commute)
  have w0: "\<not> bit w n" if "5 \<le> n \<and> n < 24 \<or> n = 29 \<or> n = 30" for n
  proof -
    have "\<not> bit (take_bit 19 (drop_bit 5 w)) (n - 5)" "\<not> bit (take_bit 2 (drop_bit 29 w)) (n - 29)"
      using w by simp_all
    then show ?thesis using that by (auto simp: bit_take_bit_iff bit_drop_bit_eq)
  qed
  have E: "bit ?E n \<longleftrightarrow> n = 12 \<and> (bit ?D 12 \<or> bit ?D 19) \<or> n = 13 \<and> (bit ?D 13 \<or> bit ?D 20)" for n
  proof -
    let ?Z = "push_bit 2 (take_bit 19 (drop_bit 5 (adr_word s p w))) OR
      take_bit 2 (drop_bit 29 (adr_word s p w))"
    have Z: "bit ?Z k \<longleftrightarrow> k = 0 \<and> (bit ?D 12 \<or> bit ?D 19) \<or> k = 1 \<and> (bit ?D 13 \<or> bit ?D 20)" if "k \<le> 20" for k
    proof -
      have "bit ?Z k \<longleftrightarrow> 2 \<le> k \<and> bit (adr_word s p w) (k + 3) \<or> k < 2 \<and> bit (adr_word s p w) (k + 29)"
        using that by (auto simp: bit_or_iff bit_push_bit_iff bit_take_bit_iff bit_drop_bit_eq add.commute)
      moreover have "\<not> bit (adr_word s p w) (k + 3)" if "2 \<le> k"
        using that \<open>k \<le> 20\<close> w0 [of "k + 3"] unfolding bit_adr_word by auto
      moreover have "bit (adr_word s p w) 29 \<longleftrightarrow> bit ?D 12 \<or> bit ?D 19"
        "bit (adr_word s p w) 30 \<longleftrightarrow> bit ?D 13 \<or> bit ?D 20"
        using w0 [of 29] w0 [of 30] unfolding bit_adr_word pd by auto
      moreover have "k < 2 \<longleftrightarrow> k = 0 \<or> k = 1" by auto
      ultimately show ?thesis by (cases "k < 2") auto
    qed
    have "bit ?E n \<longleftrightarrow> 12 \<le> n \<and> n < 64 \<and> bit ?Z (min 20 (n - 12))"
      by (auto simp only: bit_push_bit_iff bit_signed_take_bit_iff bit_unsigned_iff possible_bit_word len_bit0)
        (auto simp: min_def dest: bit_imp_le_length)
    also have "\<dots> \<longleftrightarrow> n = 12 \<and> (bit ?D 12 \<or> bit ?D 19) \<or> n = 13 \<and> (bit ?D 13 \<or> bit ?D 20)"
      by (subst Z) (auto simp: min_def)
    finally show ?thesis .
  qed
  have small: "?D < 0x4000 \<longleftrightarrow> (\<forall>n\<ge>14. \<not> bit ?D n)"
  proof -
    have "?D < 0x4000 \<longleftrightarrow> take_bit 14 (unat ?D) = unat ?D"
      by (simp add: word_less_nat_alt take_bit_nat_eq_self_iff)
    also have "\<dots> \<longleftrightarrow> (\<forall>n. n < 14 \<and> bit ?D n \<longleftrightarrow> bit ?D n)"
      by (simp add: bit_eq_iff bit_take_bit_iff bit_unsigned_iff)
    finally show ?thesis by (meson not_le)
  qed
  have "adrp_target p (adr_word s p w) = (s AND NOT 0xFFF) \<longleftrightarrow> ?E = ?D"
    unfolding adrp_target_def by (auto simp: algebra_simps)
  also have "\<dots> \<longleftrightarrow> ?D < 0x4000"
  proof
    assume "?E = ?D"
    then have eq: "bit ?E n \<longleftrightarrow> bit ?D n" for n by (simp only:)
    show "?D < 0x4000"
      unfolding small
    proof (intro allI impI)
      fix n :: nat assume "14 \<le> n"
      then show "\<not> bit ?D n" using eq [of n] unfolding E by auto
    qed
  next
    assume s: "?D < 0x4000"
    show "?E = ?D"
    proof (rule bit_word_eqI)
      fix n assume "n < LENGTH(64)"
      have "n < 12 \<or> n = 12 \<or> n = 13 \<or> 14 \<le> n" by linarith
      then show "bit ?E n \<longleftrightarrow> bit ?D n"
        using s lo [of n] unfolding small E by auto
    qed
  qed
  finally show ?thesis .
qed

text \<open>
  C39: the case of \<open>adrp\<close> in the relocation pass, at a site \<open>p\<close> in memory that can be read and written and whose
  instruction has an empty immediate, as assemblers leave it (the case only sets bits): it succeeds, changes no byte
  outside of the instruction, and the instruction it leaves gives the page of \<open>S + A\<close> exactly when that page is the
  page of the instruction or one of the three pages behind it.
\<close>

theorem adrp_reaches_iff:
  assumes "load32 m p = Inr w" "\<And>i. i < 4 \<Longrightarrow> allows m can_write (p + of_nat i)" "addend m = Inr A"
    and "take_bit 19 (drop_bit 5 w) = 0" "take_bit 2 (drop_bit 29 w) = 0"
  shows "\<exists>m' w'. adr_prel addend s p m = Inr m' \<and> load32 m' p = Inr w' \<and>
    (\<forall>x. 4 \<le> unat (x - p) \<longrightarrow> byte_at m' x = byte_at m x) \<and>
    (adrp_target p w' = ((s + A) AND NOT 0xFFF) \<longleftrightarrow> ((s + A) AND NOT 0xFFF) - (p AND NOT 0xFFF) < 0x4000)"
  using adr_prel_word [where addend = addend and m = m and p = p and w = w and A = A and s = s, OF assms(1-3)] load32_poke [OF assms(1), of "adr_word (s + A) p w"]
    adr_word_reaches_iff [OF assms(4,5), of p "s + A"]
  by (simp add: poke_def)

text \<open>The instruction \<open>adrp x0\<close> in a page that can be read and written; the symbol is two pages further.\<close>

definition adrp_page :: memory where
  "adrp_page = poke 0x100004 (le_bytes 4 (0x90000000 :: u32)) \<lparr>byte_at = (\<lambda>_. 0), prot_at = (\<lambda>_. Some RW)\<rparr>"

theorem adrp_reaches_iff_witness:
  "load32 adrp_page 0x100004 = Inr 0x90000000 \<and>
   (\<exists>m' w'. adr_prel (\<lambda>_. Inr 0) 0x102008 0x100004 adrp_page = Inr m' \<and> load32 m' 0x100004 = Inr w' \<and>
     adrp_target 0x100004 w' = 0x102000)"
proof -
  have ld: "load32 adrp_page 0x100004 = Inr 0x90000000"
    unfolding adrp_page_def
    by (rule load32_poke [where w = 0]) (simp add: load32_def allows_def numeral_eq_Suc)
  have "allows adrp_page can_write x" for x by (simp add: adrp_page_def allows_def poke_def)
  moreover have "take_bit 19 (drop_bit 5 (0x90000000 :: u32)) = 0" "take_bit 2 (drop_bit 29 (0x90000000 :: u32)) = 0"
    by code_simp+
  moreover have "((0x102008 + 0) AND NOT 0xFFF) - (0x100004 AND NOT 0xFFF) < (0x4000 :: u64)"
    "((0x102008 + 0) AND NOT 0xFFF) = (0x102000 :: u64)" by code_simp+
  ultimately show ?thesis
    using adrp_reaches_iff [OF ld, where addend = "\<lambda>_. Inr 0" and A = 0 and s = "0x102008"] ld by auto
qed

end
