(* ===== verification/Loader2.thy ===== *)
theory Loader2
  imports Sections Example_Object
begin

text \<open>
  \<open>2021-03-obj-file/2/loader.c\<close>: the loader that imports \<open>.text\<close>, \<open>.data\<close> and \<open>.rodata\<close> of an
  x86-64 object and applies the relocations of the text. \<open>parse_obj\<close> and \<open>section_runtime_base\<close>
  are in \<open>Sections\<close>; this theory has the relocation pass, the calls and \<open>main\<close>.

  The theorems: the pass writes \<open>S + A - P\<close> at every site and nothing else, \<open>parse_obj\<close> lays the
  linked object out on pages that are never writable and executable at once, and a displacement
  that fits in 32 bits is decoded to the symbol.
\<close>

unbundle bit_operations_syntax

section \<open>The functions of the file\<close>

definition page_align :: "u64 \<Rightarrow> u64 \<Rightarrow> u64" where
  "page_align = Elf.page_align"

definition load_obj :: "os_env \<Rightarrow> loader \<Rightarrow> ld_stop + loader" where
  "load_obj = Elf.load_obj"

definition lookup_section :: "string \<Rightarrow> loader \<Rightarrow> ld_stop + u64 option" where
  "lookup_section = Elf.lookup_section"

definition lookup_function :: "string \<Rightarrow> loader \<Rightarrow> ld_stop + u64 option" where
  "lookup_function = Elf.lookup_function"

definition R_X86_64_PC32 :: "32 word" where "R_X86_64_PC32 = 2"
definition R_X86_64_PLT32 :: "32 word" where "R_X86_64_PLT32 = 4"

text \<open>One round of the relocation loop, for the entry at \<open>r\<close>.\<close>

definition relocate :: "u64 \<Rightarrow> loader \<Rightarrow> ld_stop + loader" where
  "relocate r st =
     rbind (r_info st r) (\<lambda>info.
     rbind (r_offset st r) (\<lambda>offset.
     let symbol = symbol_at st (ELF64_R_SYM info);
         type = ELF64_R_TYPE info;
         patch_offset = text_runtime_base st + offset in
     rbind (st_shndx st symbol) (\<lambda>ndx.
     rbind (section_runtime_base st (section_at st ndx)) (\<lambda>base.
     rbind (st_value st symbol) (\<lambda>v.
     let symbol_address = base + v in
     if type = R_X86_64_PC32 \<or> type = R_X86_64_PLT32 then
       rbind (r_addend st r) (\<lambda>addend.
       rbind (store32 (mem st) patch_offset (ucast (symbol_address + addend - patch_offset))) (\<lambda>m.
         Inr (st\<lparr>mem := m\<rparr>)))
     else Inr st)))))"

definition do_text_relocations :: "loader \<Rightarrow> ld_stop + loader" where
  "do_text_relocations st = for_relocations relocate st"

definition parse_obj :: "os_env \<Rightarrow> loader \<Rightarrow> ld_stop + loader" where
  "parse_obj env st = parse_obj_with do_text_relocations env st"

definition execute_funcs :: "machine \<Rightarrow> loader \<Rightarrow> ld_stop + loader" where
  "execute_funcs exec st =
     rbind (need_function ''add5'' st) (\<lambda>add5.
     rbind (show_int exec add5 42 ''Executing add5...'' ''add5(42) = '' st) (\<lambda>st.
     rbind (need_function ''add10'' st) (\<lambda>add10.
     rbind (show_int exec add10 42 ''Executing add10...'' ''add10(42) = '' st) (\<lambda>st.
     rbind (need_function ''get_hello'' st) (\<lambda>get_hello.
     rbind (show_str exec get_hello ''Executing get_hello...'' ''get_hello() = '' st) (\<lambda>st.
     rbind (need_function ''get_var'' st) (\<lambda>get_var.
     rbind (show_int exec get_var 0 ''Executing get_var...'' ''get_var() = '' st) (\<lambda>st.
     rbind (need_function ''set_var'' st) (\<lambda>set_var.
     rbind (call_void exec set_var 42 ''Executing set_var(42)...'' st) (\<lambda>st.
       show_int exec get_var 0 ''Executing get_var again...'' ''get_var() = '' st))))))))))"

definition main :: "machine \<Rightarrow> os_env \<Rightarrow> loader \<Rightarrow> ld_stop + (int \<times> loader)" where
  "main exec env st =
     rbind (load_obj env st) (\<lambda>st.
     rbind (parse_obj env st) (\<lambda>st.
     rbind (execute_funcs exec st) (\<lambda>st. Inr (0, st))))"

section \<open>The relocation pass links\<close>

text \<open>What a relocation does to the text: \<open>S + A - P\<close>, 32 bits.\<close>

fun symbol_address :: "(place \<Rightarrow> u64) \<Rightarrow> target \<Rightarrow> u64" where
  "symbol_address b (Local p v) = b p + v"
| "symbol_address b (External nm) = 0"

definition pc_relative :: "reloc \<Rightarrow> bool" where
  "pc_relative r \<longleftrightarrow> rl_type r = R_X86_64_PC32 \<or> rl_type r = R_X86_64_PLT32"

definition displacement :: "(place \<Rightarrow> u64) \<Rightarrow> u64 \<Rightarrow> reloc \<Rightarrow> u32" where
  "displacement b s r = ucast (s + rl_addend r - (b Text_copy + rl_offset r))"

definition patch :: "(place \<Rightarrow> u64) \<Rightarrow> reloc \<Rightarrow> bytes \<Rightarrow> bytes" where
  "patch b r xs =
     (if pc_relative r then
        array_write xs (unat (rl_offset r))
          (le_bytes 4 (displacement b (symbol_address b (rl_target r)) r))
      else xs)"

definition good_site :: "(u64 \<Rightarrow> bool) \<Rightarrow> (place \<Rightarrow> u64) \<Rightarrow> nat \<Rightarrow> reloc \<Rightarrow> bool" where
  "good_site rd b n r \<longleftrightarrow> pc_relative r \<longrightarrow> unat (rl_offset r) + 4 \<le> n"

lemma read_target_Local:
  assumes "read_target False st s = Inr t"
  obtains ndx p v where "st_shndx st s = Inr ndx" "section_place st (section_at st ndx) = Inr p"
    "st_value st s = Inr v" "t = Local p v"
  using assms by (auto simp: read_target_def rbind_eq_Inr_iff)

lemma relocate_step:
  assumes r: "read_reloc False st0 addr = Inr r" and sub: "sub_st st0 st"
  shows "relocate addr st =
    (if pc_relative r then
       rbind (store32 (mem st) (text_runtime_base st + rl_offset r)
         (displacement (place_base st) (symbol_address (place_base st) (rl_target r)) r))
         (\<lambda>m. Inr (st\<lparr>mem := m\<rparr>))
     else Inr st)"
proof -
  obtain info off t A where f: "r_info st0 addr = Inr info" "r_offset st0 addr = Inr off"
    "r_addend st0 addr = Inr A"
    and t: "read_target False st0 (symbol_at st0 (ELF64_R_SYM info)) = Inr t"
    and rr: "r = \<lparr>rl_offset = off, rl_type = ELF64_R_TYPE info, rl_target = t, rl_addend = A\<rparr>"
    using r by (auto simp: read_reloc_def rbind_eq_Inr_iff)
  obtain ndx p v where s: "st_shndx st0 (symbol_at st0 (ELF64_R_SYM info)) = Inr ndx"
    "section_place st0 (section_at st0 ndx) = Inr p"
    "st_value st0 (symbol_at st0 (ELF64_R_SYM info)) = Inr v" "t = Local p v"
    using t by (rule read_target_Local)
  note m = field_mono [OF sub] and same = sub_st_same [OF sub]
  have base: "section_runtime_base st (section_at st ndx) = Inr (place_base st p)"
    using section_runtime_base_place [OF section_place_mono [OF s(2) sub]] by (simp add: same)
  show ?thesis
    using m(12) [OF f(1)] m(11) [OF f(2)] m(13) [OF f(3)] m(9) [OF s(1)] m(10) [OF s(3)] base s(4)
    by (simp add: relocate_def Let_def same rr pc_relative_def displacement_def)
qed

lemma relocate_keeps_prot:
  "relocate addr st = Inr st' \<Longrightarrow> prot_at (mem st') = prot_at (mem st)"
  by (auto simp: relocate_def Let_def rbind_eq_Inr_iff store32_Inr_iff split: if_splits)

interpretation x86: linker do_text_relocations patch good_site
proof
  show "prot_at (mem st') = prot_at (mem st)" if "do_text_relocations st = Inr st'" for st st'
    using for_relocations_keeps [of relocate "\<lambda>s. prot_at (mem s)"] relocate_keeps_prot that
    unfolding do_text_relocations_def by blast
next
  show "length (patch b r xs) = n" if "good_site rd b n r" "length xs = n" for rd b n r xs
    using that by (simp add: patch_def good_site_def)
next
  fix st0 st :: loader and rs bs rd
  assume rs: "relocs False st0 rs" and sub: "sub_st st0 st"
    and un: "unmapped (text_runtime_base st) (length bs) (mem st0)" and len: "length bs \<le> 2 ^ 64"
    and ld: "load_bytes (mem st) (length bs) (text_runtime_base st) = Inr bs"
    and w: "\<And>x. unat (x - text_runtime_base st) < length bs \<Longrightarrow> allows (mem st) can_write x"
    and good: "\<And>r. r \<in> set rs \<Longrightarrow> good_site rd (place_base st) (length bs) r"
  let ?R = "\<lambda>xs s. length xs = length bs \<and> text_now st xs s"
  have "\<exists>st'. for_relocations relocate st = Inr st' \<and> ?R (fold (patch (place_base st)) rs bs) st'"
  proof (rule for_relocations_rel [OF rs sub, where R = "\<lambda>_. ?R"])
    show "?R bs st" using ld by (simp add: text_now_start)
  next
    fix i addr xs s
    assume i: "i < length rs" "read_reloc False st0 addr = Inr (rs ! i)" and R: "?R xs s"
    define r where "r = rs ! i"
    have r: "r \<in> set rs" "read_reloc False st0 addr = Inr r" using i by (simp_all add: r_def)
    from R have now: "text_now st xs s" and l: "length xs = length bs" by auto
    have sub': "sub_st st0 s" using text_now_sub [OF now sub un] l by simp
    note b = text_now_bases [OF now]
    have pb: "place_base s = place_base st" by (intro ext b(1))
    have "\<exists>st'. relocate addr s = Inr st' \<and> ?R (patch (place_base st) r xs) st'"
    proof (cases "pc_relative r")
      case True
      have site: "unat (rl_offset r) + 4 \<le> length xs"
        using good [OF r(1)] True l by (simp add: good_site_def)
      show ?thesis
        using text_now_store [OF now _ _ site] len w l True site
        by (simp add: relocate_step [OF r(2) sub'] pb b(2) patch_def)
    next
      case False
      then show ?thesis
        using now l by (simp add: relocate_step [OF r(2) sub'] patch_def)
    qed
    then show "\<exists>st'. relocate addr s = Inr st' \<and> ?R (patch (place_base st) (rs ! i) xs) st'"
      unfolding r_def .
  qed
  then show "\<exists>st'. do_text_relocations st = Inr st' \<and>
      text_now st (fold (patch (place_base st)) rs bs) st'"
    by (auto simp: do_text_relocations_def)
qed

section \<open>Theorems\<close>

text \<open>
  C5: \<open>parse_obj\<close> links: for an object whose tables can be read and whose relocation sites lie in
  the text, it succeeds and leaves the image of the object in the block the kernel gave: the text
  with \<open>S + A - P\<close> at every site, the data and the read-only data as they are in the file, each on
  pages of its own with its own protection, and nothing else in memory changed.
\<close>

theorem parse_obj_links:
  assumes "os_ok env" "parse_tables env st = Inr st1" "is_object False st1 ob"
    and "all_pages env ob < 2 ^ 64" "anon_addr env (of_nat (all_pages env ob)) = Inr a"
      "a mod os_page env = 0" "unmapped a (all_pages env ob) (mem st)"
    and "\<And>r. r \<in> set (o_relocs ob) \<Longrightarrow> pc_relative r \<Longrightarrow> unat (rl_offset r) + 4 \<le> length (o_text ob)"
  shows "\<exists>st'. parse_obj env st = Inr st' \<and>
    image env ob (fold (patch (place_at env ob a)) (o_relocs ob) (o_text ob)) a 0 (mem st) (mem st') \<and>
    st' = st1\<lparr>mem := mem st', text_runtime_base := a,
      data_runtime_base := place_at env ob a Data_copy,
      rodata_runtime_base := place_at env ob a Rodata_copy\<rparr>"
  unfolding parse_obj_def
  by (rule x86.parse_obj_image [OF assms(1-7)]) (simp add: good_site_def assms(8))

definition linked_bytes :: bytes where
  "linked_bytes = [0x55, 0x90, 0x90, 0xe8] @ le_bytes 4 (0x1ff8 :: u32) @ drop 8 text_bytes"

lemma patch_example:
  "patch (place_at (example_env 0 4 4 (- 4)) (example_object 4 (- 4) (Local Rodata_copy 0)) 0x100000)
     (example_reloc 4 (- 4) (Local Rodata_copy 0)) text_bytes = linked_bytes"
  by (simp add: example_parts patch_def pc_relative_def R_X86_64_PLT32_def array_write_def displacement_def
      example_pages text_bytes_def linked_bytes_def del: of_nat_add)

theorem parse_obj_links_witness:
  "\<exists>st'. parse_obj (example_env 0 4 4 (- 4)) (loaded 0 4 4 (- 4)) = Inr st' \<and>
    image (example_env 0 4 4 (- 4)) (example_object 4 (- 4) (Local Rodata_copy 0)) linked_bytes
      0x100000 0 (mem (loaded 0 4 4 (- 4))) (mem st')"
proof -
  let ?e = "example_env 0 4 4 (- 4)" and ?o = "example_object 4 (- 4) (Local Rodata_copy 0)"
  have "parse_tables ?e (loaded 0 4 4 (- 4)) = Inr (parsed (loaded 0 4 4 (- 4)))"
    "is_object False (parsed (loaded 0 4 4 (- 4))) ?o"
    by (rule example_setup; simp)+
  from parse_obj_links [where a = "0x100000", OF env_fields(3) this] show ?thesis
    by (auto simp: patch_example example_pages loaded_unmapped example_parts)
qed

text \<open>
  Whatever the object file is, \<open>parse_obj\<close> makes no page writable and executable.
\<close>

theorem parse_obj_wx:
  assumes "parse_obj env st = Inr st'" "wx (mem st)"
  shows "wx (mem st')"
  using assms unfolding parse_obj_def by (rule x86.parse_obj_keeps_wx)

theorem parse_obj_wx_witness:
  "\<exists>st'. parse_obj (example_env 0 4 4 (- 4)) (loaded 0 4 4 (- 4)) = Inr st' \<and> wx (mem st')"
proof -
  let ?e = "example_env 0 4 4 (- 4)" and ?o = "example_object 4 (- 4) (Local Rodata_copy 0)"
  have "parse_tables ?e (loaded 0 4 4 (- 4)) = Inr (parsed (loaded 0 4 4 (- 4)))"
    "is_object False (parsed (loaded 0 4 4 (- 4))) ?o"
    by (rule example_setup; simp)+
  from x86.parse_obj_image [where a = "0x100000", OF env_fields(3) this]
  obtain st' where "parse_obj ?e (loaded 0 4 4 (- 4)) = Inr st'"
    by (auto simp: parse_obj_def example_pages loaded_unmapped example_parts good_site_def text_bytes_def)
  then show ?thesis using parse_obj_wx [OF _ loaded_wx] by blast
qed

lemma length_patch:
  "pc_relative r \<Longrightarrow> unat (rl_offset r) + 4 \<le> length xs \<Longrightarrow> length (patch b r xs) = length xs"
  by (simp add: patch_def)

lemma fold_patch_frame:
  assumes "\<And>r. r \<in> set rs \<Longrightarrow> pc_relative r \<Longrightarrow> unat (rl_offset r) + 4 \<le> length xs"
    and "\<And>r. r \<in> set rs \<Longrightarrow> pc_relative r \<Longrightarrow> i < unat (rl_offset r) \<or> unat (rl_offset r) + 4 \<le> i"
    and "i < length xs"
  shows "fold (patch b) rs xs ! i = xs ! i" "length (fold (patch b) rs xs) = length xs"
proof -
  have "fold (patch b) rs xs ! i = xs ! i \<and> length (fold (patch b) rs xs) = length xs"
    using assms
  proof (induction rs arbitrary: xs)
    case Nil
    then show ?case by simp
  next
    case (Cons r rs)
    have l: "length (patch b r xs) = length xs"
      using Cons.prems(1) [of r] by (cases "pc_relative r") (simp_all add: patch_def)
    have n: "patch b r xs ! i = xs ! i"
      using Cons.prems(1) [of r] Cons.prems(2) [of r] Cons.prems(3)
      by (cases "pc_relative r") (auto simp: patch_def nth_array_write)
    have "fold (patch b) rs (patch b r xs) ! i = patch b r xs ! i \<and>
        length (fold (patch b) rs (patch b r xs)) = length (patch b r xs)"
      using Cons.prems by (intro Cons.IH) (auto simp: l)
    then show ?case by (simp add: l n)
  qed
  then show "fold (patch b) rs xs ! i = xs ! i" "length (fold (patch b) rs xs) = length xs"
    by auto
qed

lemma scast_ucast_fits:
  assumes "- (2 ^ 31) \<le> sint (w :: u64)" "sint w < 2 ^ 31"
  shows "scast (ucast w :: u32) = w"
proof -
  have "sint (ucast w :: u32) = signed_take_bit 31 (uint w)"
    by (simp add: signed_ucast_eq)
  also have "\<dots> = signed_take_bit 31 (sint w)"
    by (rule bit_eqI) (auto simp: bit_signed_take_bit_iff bit_uint_iff bit_sint_iff min_def)
  also have "\<dots> = sint w"
    using assms by (intro signed_take_bit_int_eq_self) auto
  finally show ?thesis by (simp add: scast_eq)
qed

text \<open>
  After linking, the word at the site of a relocation that no other one overlaps is the
  distance from the site to \<open>S + A\<close>: the processor, which adds the sign-extended word to the
  address, reaches \<open>S + A\<close> whenever the distance fits in 32 bits; bytes outside the sites are those
  of the file.
\<close>

theorem linked_text:
  assumes site: "\<And>r. r \<in> set rs \<Longrightarrow> pc_relative r \<Longrightarrow> unat (rl_offset r) + 4 \<le> length xs"
    and rs: "rs = us @ r # vs" "pc_relative r"
    and apart: "\<And>r'. r' \<in> set vs \<Longrightarrow> pc_relative r' \<Longrightarrow> apart r r'"
    and S: "s = symbol_address b (rl_target r) + rl_addend r" "p = b Text_copy + rl_offset r"
    and near: "- (2 ^ 31) \<le> sint (s - p)" "sint (s - p) < 2 ^ 31"
  shows "p + scast (word_of_le (take 4 (drop (unat (rl_offset r)) (fold (patch b) rs xs))) :: u32) = s \<and>
    (\<forall>i<length xs. (\<forall>r\<in>set rs. pc_relative r \<longrightarrow>
        i < unat (rl_offset r) \<or> unat (rl_offset r) + 4 \<le> i) \<longrightarrow>
      fold (patch b) rs xs ! i = xs ! i)"
proof (intro conjI allI impI)
  let ?o = "unat (rl_offset r)" and ?w = "displacement b (symbol_address b (rl_target r)) r"
  let ?xs1 = "fold (patch b) us xs" and ?xs2 = "patch b r (fold (patch b) us xs)"
  have l1: "length ?xs1 = length xs"
    using site rs(1) by (intro x86.fold_patch_length) (auto simp: good_site_def)
  have o: "?o + 4 \<le> length xs" using site rs by simp
  have l2: "length ?xs2 = length xs" using length_patch [OF rs(2)] o l1 by simp
  have same: "fold (patch b) vs ?xs2 ! i = ?xs2 ! i" if i: "?o \<le> i" "i < ?o + 4" for i
  proof (rule fold_patch_frame(1))
    show "unat (rl_offset r') + 4 \<le> length ?xs2" if "r' \<in> set vs" "pc_relative r'" for r'
      using site [of r'] that rs(1) l2 by simp
    show "i < unat (rl_offset r') \<or> unat (rl_offset r') + 4 \<le> i" if "r' \<in> set vs" "pc_relative r'" for r'
      using apart [OF that] i by (auto simp: apart_def)
    show "i < length ?xs2" using i o l2 by simp
  qed
  have l3: "length (fold (patch b) vs ?xs2) = length xs"
    using site rs(1) l2 by (subst x86.fold_patch_length) (auto simp: good_site_def)
  have "take 4 (drop ?o (fold (patch b) rs xs)) = le_bytes 4 ?w"
  proof (rule nth_equalityI)
    show "length (take 4 (drop ?o (fold (patch b) rs xs))) = length (le_bytes 4 ?w)"
      using l3 o by (simp add: rs(1))
  next
    fix j assume "j < length (take 4 (drop ?o (fold (patch b) rs xs)))"
    then have j: "j < 4" by simp
    have "fold (patch b) rs xs ! (?o + j) = ?xs2 ! (?o + j)"
      using same [of "?o + j"] j by (simp add: rs(1))
    also have "\<dots> = le_bytes 4 ?w ! j"
      using rs(2) j o l1 by (simp add: patch_def nth_array_write)
    finally show "take 4 (drop ?o (fold (patch b) rs xs)) ! j = le_bytes 4 ?w ! j"
      using j l3 o by (simp add: rs(1))
  qed
  then have "word_of_le (take 4 (drop ?o (fold (patch b) rs xs))) = ?w"
    by (simp add: word_of_le_le_bytes)
  also have "?w = ucast (s - p)" by (simp add: displacement_def S)
  finally show "p + scast (word_of_le (take 4 (drop ?o (fold (patch b) rs xs))) :: u32) = s"
    using scast_ucast_fits [OF near] by simp
next
  fix i
  assume "i < length xs" "\<forall>r\<in>set rs. pc_relative r \<longrightarrow>
      i < unat (rl_offset r) \<or> unat (rl_offset r) + 4 \<le> i"
  then show "fold (patch b) rs xs ! i = xs ! i"
    using site by (intro fold_patch_frame(1)) auto
qed

theorem linked_text_witness:
  "0x100004 + scast (word_of_le (take 4 (drop 4 (fold (patch (place_at (example_env 0 4 4 (- 4))
     (example_object 4 (- 4) (Local Rodata_copy 0)) 0x100000)) [example_reloc 4 (- 4) (Local Rodata_copy 0)]
     text_bytes))) :: u32) = (0x101ffc :: u64)"
proof -
  let ?b = "place_at (example_env 0 4 4 (- 4)) (example_object 4 (- 4) (Local Rodata_copy 0)) 0x100000"
  have "(0x100004 :: u64) + scast (word_of_le (take 4 (drop (unat (rl_offset (example_reloc 4 (- 4) (Local Rodata_copy 0))))
      (fold (patch ?b) [example_reloc 4 (- 4) (Local Rodata_copy 0)] text_bytes))) :: u32) = 0x101ffc"
    by (rule linked_text [where us = "[]" and vs = "[]", THEN conjunct1])
      (simp_all add: example_parts pc_relative_def R_X86_64_PLT32_def example_pages)
  then show ?thesis by (simp add: example_parts)
qed

end
