(* ===== verification/Loader4_2.thy ===== *)
theory Loader4_2
  imports Aarch64 Loader2
begin

text \<open>
  \<open>2021-03-obj-file/4/2/loader.c\<close>: the loader of \<open>2/loader.c\<close> for AArch64 objects. The relocation pass
  is different, everything else is the same.

  The theorem: \<open>parse_obj\<close> in closed form, through the same interface as the x86-64 loader.
\<close>

unbundle bit_operations_syntax

section \<open>The functions of the file\<close>

definition page_align :: "u64 \<Rightarrow> u64 \<Rightarrow> u64" where
  "page_align = Elf.page_align"

definition load_obj :: "os_env \<Rightarrow> loader \<Rightarrow> ld_stop + loader" where
  "load_obj = Elf.load_obj"

definition lookup_section :: "string \<Rightarrow> loader \<Rightarrow> ld_stop + u64 option" where
  "lookup_section = Elf.lookup_section"

definition lookup_function :: "string \<Rightarrow> loader \<Rightarrow> ld_stop + u64 option" where
  "lookup_function = Elf.lookup_function"

definition section_runtime_base :: "loader \<Rightarrow> u64 \<Rightarrow> ld_stop + u64" where
  "section_runtime_base = Sections.section_runtime_base"

definition relocate :: "u64 \<Rightarrow> loader \<Rightarrow> ld_stop + loader" where
  "relocate r st =
     rbind (r_info st r) (\<lambda>info.
     rbind (r_offset st r) (\<lambda>offset.
     let symbol = symbol_at st (ELF64_R_SYM info);
         type = ELF64_R_TYPE info;
         patch_offset = text_runtime_base st + offset in
     rbind (st_shndx st symbol) (\<lambda>ndx.
     rbind (section_runtime_base st (section_at st ndx)) (\<lambda>base.
     rbind (st_value st symbol) (\<lambda>v.
     rbind (switch type (\<lambda>m. r_addend (st\<lparr>mem := m\<rparr>) r) (base + v) patch_offset (mem st)) (\<lambda>m.
       Inr (st\<lparr>mem := m\<rparr>)))))))"

definition do_text_relocations :: "loader \<Rightarrow> ld_stop + loader" where
  "do_text_relocations st = for_relocations relocate st"

definition parse_obj :: "os_env \<Rightarrow> loader \<Rightarrow> ld_stop + loader" where
  "parse_obj env st = parse_obj_with do_text_relocations env st"

definition execute_funcs :: "machine \<Rightarrow> loader \<Rightarrow> ld_stop + loader" where
  "execute_funcs = Loader2.execute_funcs"

definition main :: "machine \<Rightarrow> os_env \<Rightarrow> loader \<Rightarrow> ld_stop + (int \<times> loader)" where
  "main exec env st =
     rbind (load_obj env st) (\<lambda>st.
     rbind (parse_obj env st) (\<lambda>st.
     rbind (execute_funcs exec st) (\<lambda>st. Inr (0, st))))"

section \<open>The relocation pass links\<close>

text \<open>The word at an offset of the text.\<close>

definition word_at :: "bytes \<Rightarrow> u64 \<Rightarrow> u32" where
  "word_at xs off = word_of_le (take 4 (drop (unat off) xs))"

definition patch_word :: "(place \<Rightarrow> u64) \<Rightarrow> u64 \<Rightarrow> reloc \<Rightarrow> bytes \<Rightarrow> bytes" where
  "patch_word b s r xs =
     (if relocates r then
        array_write xs (unat (rl_offset r))
          (le_bytes 4 (new_word (rl_type r) (s + rl_addend r) (b Text_copy + rl_offset r)
             (word_at xs (rl_offset r))))
      else xs)"

definition patch :: "(place \<Rightarrow> u64) \<Rightarrow> reloc \<Rightarrow> bytes \<Rightarrow> bytes" where
  "patch b r xs = patch_word b (symbol_address b (rl_target r)) r xs"

definition good_word :: "(u64 \<Rightarrow> bool) \<Rightarrow> u64 \<Rightarrow> nat \<Rightarrow> reloc \<Rightarrow> bool" where
  "good_word rd s n r \<longleftrightarrow> relocates r \<longrightarrow> unat (rl_offset r) + 4 \<le> n \<and>
     (rl_type r = R_AARCH64_ADD_ABS_LO12_NC \<longrightarrow> rd (s + rl_addend r))"

definition good_site :: "(u64 \<Rightarrow> bool) \<Rightarrow> (place \<Rightarrow> u64) \<Rightarrow> nat \<Rightarrow> reloc \<Rightarrow> bool" where
  "good_site rd b n r \<longleftrightarrow> good_word rd (symbol_address b (rl_target r)) n r"

lemma length_patch_word:
  "good_word rd s' n r \<Longrightarrow> length xs = n \<Longrightarrow> length (patch_word b s r xs) = n"
  by (auto simp: patch_word_def good_word_def)

text \<open>One switch in a memory that holds the text.\<close>

lemma switch_text:
  assumes ld: "load_bytes m (length xs) a = Inr xs"
    and wr: "\<And>x. unat (x - a) < length xs \<Longrightarrow> allows m can_write x" and len: "length xs \<le> 2 ^ 64"
    and ad: "addend m = Inr (rl_addend r)"
      "\<And>v :: u32. addend (poke (a + rl_offset r) (le_bytes 4 v) m) = Inr (rl_addend r)"
    and good: "good_word (\<lambda>x. allows m can_read x) s (length xs) r" and r: "relocates r"
  shows "switch (rl_type r) addend s (a + rl_offset r) m =
    Inr (poke (a + rl_offset r) (le_bytes 4 (new_word (rl_type r) (s + rl_addend r)
      (a + rl_offset r) (word_at xs (rl_offset r)))) m)"
proof (rule switch_word)
  have site: "unat (rl_offset r) + 4 \<le> length xs" using good r by (simp add: good_word_def)
  show "load32 m (a + rl_offset r) = Inr (word_at xs (rl_offset r))"
    unfolding word_at_def by (rule load32_text [OF ld site])
  show "allows m can_write (a + rl_offset r + of_nat i)" if "i < 4" for i
  proof (rule wr)
    have "unat (a + rl_offset r + of_nat i - (a + rl_offset r)) < 4"
      using that by (simp add: unat_of_nat take_bit_nat_eq_self_iff)
    then show "unat (a + rl_offset r + of_nat i - a) < length xs"
      using offset_in [of "rl_offset r" 4 "a + rl_offset r + of_nat i" a] site len by simp
  qed
  show "addend m = Inr (rl_addend r)" by (rule ad)
  show "addend (poke (a + rl_offset r) (le_bytes 4 v) m) = Inr (rl_addend r)" for v :: u32 by (rule ad)
  show "allows m can_read (s + rl_addend r)" if "rl_type r = R_AARCH64_ADD_ABS_LO12_NC"
    using good r that by (simp add: good_word_def)
  show "rl_type r \<in> {R_AARCH64_CALL26, R_AARCH64_ADD_ABS_LO12_NC, R_AARCH64_ADR_PREL_PG_HI21}"
    using r by (simp add: relocates_def)
qed

lemma switch_other: "\<not> relocates r \<Longrightarrow> switch (rl_type r) addend s p m = Inr m"
  by (simp add: switch_def relocates_def)

lemma prot_update32: "update32 f p m = Inr m' \<Longrightarrow> prot_at m' = prot_at m"
  by (auto simp: update32_def rbind_eq_Inr_iff store32_Inr_iff)

lemma prot_switch: "switch ty addend s p m = Inr m' \<Longrightarrow> prot_at m' = prot_at m"
  by (auto simp: switch_def call26_def add_abs_def adr_prel_def Let_def rbind_eq_Inr_iff
      dest!: prot_update32 split: if_splits)

lemma relocate4_keeps_prot:
  "relocate addr st = Inr st' \<Longrightarrow> prot_at (mem st') = prot_at (mem st)"
  by (auto simp: relocate_def Let_def rbind_eq_Inr_iff dest!: prot_switch)

lemma relocate4_step:
  assumes r: "read_reloc False st0 addr = Inr r" and sub: "sub_st st0 st"
  shows "relocate addr st = rbind (switch (rl_type r) (\<lambda>m. r_addend (st\<lparr>mem := m\<rparr>) addr)
      (symbol_address (place_base st) (rl_target r)) (text_runtime_base st + rl_offset r) (mem st))
    (\<lambda>m. Inr (st\<lparr>mem := m\<rparr>))"
proof -
  obtain info off t A where f: "r_info st0 addr = Inr info" "r_offset st0 addr = Inr off"
    "r_addend st0 addr = Inr A"
    and t: "read_target False st0 (symbol_at st0 (ELF64_R_SYM info)) = Inr t"
    and rr: "r = \<lparr>rl_offset = off, rl_type = ELF64_R_TYPE info, rl_target = t, rl_addend = A\<rparr>"
    using r by (auto simp: read_reloc_def rbind_eq_Inr_iff)
  obtain ndx p v where s: "st_shndx st0 (symbol_at st0 (ELF64_R_SYM info)) = Inr ndx"
    "section_place st0 (section_at st0 ndx) = Inr p"
    "st_value st0 (symbol_at st0 (ELF64_R_SYM info)) = Inr v" "t = Local p v"
    using t by (rule read_target_Local)
  note m = field_mono [OF sub] and same = sub_st_same [OF sub]
  have base: "section_runtime_base st (section_at st ndx) = Inr (place_base st p)"
    using section_runtime_base_place [OF section_place_mono [OF s(2) sub]]
    by (simp add: same section_runtime_base_def)
  show ?thesis
    using m(12) [OF f(1)] m(11) [OF f(2)] m(9) [OF s(1)] m(10) [OF s(3)] base s(4)
    by (simp add: relocate_def Let_def same rr)
qed

lemma relocate4_now:
  assumes r: "read_reloc False st0 addr = Inr r" and sub0: "sub_st st0 st"
    and un: "unmapped (text_runtime_base st) (length xs) (mem st0)" and len: "length xs \<le> 2 ^ 64"
    and w: "\<And>x. unat (x - text_runtime_base st) < length xs \<Longrightarrow> allows (mem st) can_write x"
    and rd: "\<And>x. rd x \<Longrightarrow> allows (mem st) can_read x"
    and good: "good_site rd (place_base st) (length xs) r" and now: "text_now st xs s"
  shows "\<exists>st'. relocate addr s = Inr st' \<and> text_now st (patch (place_base st) r xs) st'"
proof -
  have sub: "sub_st st0 s" by (rule text_now_sub [OF now sub0 un]) simp
  note b = text_now_bases [OF now]
  have pb: "place_base s = place_base st" by (intro ext b(1))
  have al: "allows (mem s) = allows (mem st)"
    using now by (intro ext) (simp add: text_now_def allows_def)
  have ad0: "r_addend st0 addr = Inr (rl_addend r)" using r by (auto elim: read_reloc_obtain)
  show ?thesis
  proof (cases "relocates r")
    case False
    then show ?thesis
      using now by (simp add: relocate4_step [OF r sub] switch_other patch_def patch_word_def)
  next
    case True
    have site: "unat (rl_offset r) + 4 \<le> length xs"
      using good True by (simp add: good_site_def good_word_def)
    have ld: "load_bytes (mem s) (length xs) (text_runtime_base st) = Inr xs"
      using now by (simp add: text_now_def)
    let ?sa = "symbol_address (place_base st) (rl_target r)"
    have new: "text_now st (array_write xs (unat (rl_offset r)) (le_bytes 4 v))
        (s\<lparr>mem := poke (text_runtime_base st + rl_offset r) (le_bytes 4 v) (mem s)\<rparr>)" for v :: u32
      by (rule text_now_store(2) [OF now len w site])
    have "switch (rl_type r) (\<lambda>m. r_addend (s\<lparr>mem := m\<rparr>) addr) ?sa (text_runtime_base st + rl_offset r) (mem s) =
      Inr (poke (text_runtime_base st + rl_offset r) (le_bytes 4 (new_word (rl_type r) (?sa + rl_addend r)
        (text_runtime_base st + rl_offset r) (word_at xs (rl_offset r)))) (mem s))"
    proof (rule switch_text [OF ld _ len _ _ _ True])
      show "allows (mem s) can_write x" if "unat (x - text_runtime_base st) < length xs" for x
        using w [OF that] by (simp add: al)
      show "r_addend (s\<lparr>mem := mem s\<rparr>) addr = Inr (rl_addend r)"
        using field_mono(13) [OF sub ad0] by simp
      show "r_addend (s\<lparr>mem := poke (text_runtime_base st + rl_offset r) (le_bytes 4 v) (mem s)\<rparr>) addr =
          Inr (rl_addend r)" for v :: u32
        by (rule field_mono(13) [OF text_now_sub [OF new sub0 un] ad0]) (simp add: site)
      show "good_word (\<lambda>x. allows (mem s) can_read x) ?sa (length xs) r"
        using good rd by (auto simp: good_site_def good_word_def al)
    qed
    then show ?thesis
      using new True by (simp add: relocate4_step [OF r sub] pb b(2) patch_def patch_word_def)
  qed
qed

interpretation arm: linker do_text_relocations patch good_site
proof
  show "prot_at (mem st') = prot_at (mem st)" if "do_text_relocations st = Inr st'" for st st'
    using that unfolding do_text_relocations_def
    by (rule for_relocations_keeps [rotated]) (rule relocate4_keeps_prot)
next
  show "length (patch b r xs) = n" if "good_site rd b n r" "length xs = n" for rd b n r xs
    using that unfolding patch_def good_site_def by (rule length_patch_word)
next
  fix st0 st :: loader and rs bs rd
  assume rs: "relocs False st0 rs" and sub: "sub_st st0 st"
    and un: "unmapped (text_runtime_base st) (length bs) (mem st0)" and len: "length bs \<le> 2 ^ 64"
    and ld: "load_bytes (mem st) (length bs) (text_runtime_base st) = Inr bs"
    and w: "\<And>x. unat (x - text_runtime_base st) < length bs \<Longrightarrow> allows (mem st) can_write x"
    and rd: "\<And>x. rd x \<Longrightarrow> allows (mem st) can_read x"
    and good: "\<And>r. r \<in> set rs \<Longrightarrow> good_site rd (place_base st) (length bs) r"
  let ?R = "\<lambda>xs s. length xs = length bs \<and> text_now st xs s"
  have "\<exists>st'. for_relocations relocate st = Inr st' \<and> ?R (fold (patch (place_base st)) rs bs) st'"
  proof (rule for_relocations_rel [OF rs sub, where R = "\<lambda>_. ?R"])
    show "?R bs st" using ld by (simp add: text_now_start)
  next
    fix i addr xs s
    assume i: "i < length rs" "read_reloc False st0 addr = Inr (rs ! i)" and R: "?R xs s"
    have g: "good_site rd (place_base st) (length xs) (rs ! i)" using good i R by simp
    then have "length (patch (place_base st) (rs ! i) xs) = length bs"
      using R unfolding patch_def good_site_def by (simp add: length_patch_word)
    moreover have "\<exists>st'. relocate addr s = Inr st' \<and> text_now st (patch (place_base st) (rs ! i) xs) st'"
      using R un len w rd g by (intro relocate4_now [OF i(2) sub]) auto
    ultimately show "\<exists>st'. relocate addr s = Inr st' \<and> ?R (patch (place_base st) (rs ! i) xs) st'"
      by blast
  qed
  then show "\<exists>st'. do_text_relocations st = Inr st' \<and>
      text_now st (fold (patch (place_base st)) rs bs) st'"
    by (auto simp: do_text_relocations_def)
qed

section \<open>Theorems\<close>

text \<open>
  \<open>parse_obj\<close> of the AArch64 loader: for an object whose relocation sites lie in the text and
  whose \<open>add\<close> relocations point into the copies, it succeeds and leaves the image of the object, the
  text with the word of the relocation's case at every site.
\<close>

theorem parse_obj_arm_links:
  assumes "os_ok env" "parse_tables env st = Inr st1" "is_object False st1 ob"
    and "all_pages env ob < 2 ^ 64" "anon_addr env (of_nat (all_pages env ob)) = Inr a"
      "a mod os_page env = 0" "unmapped a (all_pages env ob) (mem st)"
    and "\<And>r. r \<in> set (o_relocs ob) \<Longrightarrow>
      good_site (\<lambda>x. unat (x - a) < all_pages env ob) (place_at env ob a) (length (o_text ob)) r"
  shows "\<exists>st'. parse_obj env st = Inr st' \<and>
    image env ob (fold (patch (place_at env ob a)) (o_relocs ob) (o_text ob)) a 0 (mem st) (mem st')"
  using arm.parse_obj_image [OF assms] unfolding parse_obj_def by blast

definition linked_bytes :: bytes where
  "linked_bytes = [0x55, 0x90, 0x90, 0xe8] @ le_bytes 4 (0x7ff :: u32) @ drop 8 text_bytes"

lemma patch_word_example:
  assumes "b Text_copy = 0x100000" "s + addend = 0x102000"
  shows "patch_word b s (example_reloc 283 addend target) text_bytes = linked_bytes"
proof -
  have "call26_word 0x102000 0x100004 0 = 0x7ff" by code_simp
  then show ?thesis
    by (simp add: example_parts assms patch_word_def relocates_def new_word_def R_AARCH64_CALL26_def word_at_def
        array_write_def text_bytes_def linked_bytes_def)
qed

theorem parse_obj_arm_links_witness:
  "\<exists>st'. parse_obj (example_env 0 4 283 0) (loaded 0 4 283 0) = Inr st' \<and>
    image (example_env 0 4 283 0) (example_object 283 0 (Local Rodata_copy 0)) linked_bytes
      0x100000 0 (mem (loaded 0 4 283 0)) (mem st')"
proof -
  let ?e = "example_env 0 4 283 0" and ?o = "example_object 283 0 (Local Rodata_copy 0)"
  have s: "parse_tables ?e (loaded 0 4 283 0) = Inr (parsed (loaded 0 4 283 0))"
    "is_object False (parsed (loaded 0 4 283 0)) ?o"
    by (rule example_setup; simp)+
  have p: "patch (place_at ?e ?o 0x100000) (example_reloc 283 0 (Local Rodata_copy 0)) text_bytes = linked_bytes"
    unfolding patch_def by (rule patch_word_example) (simp_all add: example_parts example_pages)
  from parse_obj_arm_links [where a = "0x100000", OF env_fields(3) s] show ?thesis
    by (auto simp: p example_pages loaded_unmapped example_parts good_site_def good_word_def
        R_AARCH64_ADD_ABS_LO12_NC_def)
qed

end
