(* ===== verification/Loader3.thy ===== *)
theory Loader3
  imports Loader2
begin

text \<open>
  \<open>2021-03-obj-file/3/loader.c\<close>: the loader for objects that call a function of the host program. The
  relocation pass fills a slot of the jump table for each reference to an external symbol, and relocates
  the call to the slot. \<open>count_external_symbols\<close> and \<open>parse_obj\<close> are in \<open>Jump_Table\<close>.

  The theorems: \<open>parse_obj\<close> in closed form with as many slots filled as were counted; the code of a
  slot jumps to the function.
\<close>

unbundle bit_operations_syntax

section \<open>The functions of the file\<close>

definition page_align :: "u64 \<Rightarrow> u64 \<Rightarrow> u64" where
  "page_align = Elf.page_align"

definition load_obj :: "os_env \<Rightarrow> loader \<Rightarrow> ld_stop + loader" where
  "load_obj = Elf.load_obj"

definition lookup_section :: "string \<Rightarrow> loader \<Rightarrow> ld_stop + u64 option" where
  "lookup_section = Elf.lookup_section"

definition lookup_function :: "string \<Rightarrow> loader \<Rightarrow> ld_stop + u64 option" where
  "lookup_function = Elf.lookup_function"

definition section_runtime_base :: "loader \<Rightarrow> u64 \<Rightarrow> ld_stop + u64" where
  "section_runtime_base = Sections.section_runtime_base"

text \<open>\<open>my_puts\<close> prints a line of its own and its argument.\<close>

definition my_puts :: "memory \<Rightarrow> u64 \<Rightarrow> ld_stop + event list" where
  "my_puts m s = rbind (cstring m s) (\<lambda>bs. Inr [Puts (lit ''my_puts executed''), Puts bs])"

text \<open>
  \<open>struct ext_jump\<close>: the address at offset 0, six bytes of code at offset 8. The stores of the
  relocation loop:
\<close>

definition stub :: bytes where
  "stub = [0xff, 0x25, 0xf2, 0xff, 0xff, 0xff]"

definition fill_slot :: "u64 \<Rightarrow> u64 \<Rightarrow> memory \<Rightarrow> ld_stop + memory" where
  "fill_slot slot addr m = rbind (store64 m slot addr) (\<lambda>m. store_bytes m (slot + 8) stub)"

definition relocate :: "u64 \<Rightarrow> u64 \<Rightarrow> loader \<Rightarrow> ld_stop + loader" where
  "relocate puts_addr r st =
     rbind (r_info st r) (\<lambda>info.
     rbind (r_offset st r) (\<lambda>offset.
     let type = ELF64_R_TYPE info;
         patch_offset = text_runtime_base st + offset in
     rbind (resolve fill_slot 8 puts_addr (symbol_at st (ELF64_R_SYM info)) st) (\<lambda>(symbol_address, st).
     if type = R_X86_64_PC32 \<or> type = R_X86_64_PLT32 then
       rbind (r_addend st r) (\<lambda>addend.
       rbind (store32 (mem st) patch_offset (ucast (symbol_address + addend - patch_offset))) (\<lambda>m.
         Inr (st\<lparr>mem := m\<rparr>)))
     else Inr st)))"

definition do_text_relocations :: "u64 \<Rightarrow> loader \<Rightarrow> ld_stop + loader" where
  "do_text_relocations puts_addr st = for_relocations (relocate puts_addr) st"

definition parse_obj :: "u64 \<Rightarrow> os_env \<Rightarrow> loader \<Rightarrow> ld_stop + loader" where
  "parse_obj puts_addr env st = parse_obj_ext (do_text_relocations puts_addr) env st"

definition execute_funcs :: "machine \<Rightarrow> loader \<Rightarrow> ld_stop + loader" where
  "execute_funcs exec st =
     rbind (Loader2.execute_funcs exec st) (\<lambda>st.
     rbind (need_function ''say_hello'' st) (\<lambda>say_hello.
       call_void exec say_hello 0 ''Executing say_hello...'' st))"

definition main :: "machine \<Rightarrow> u64 \<Rightarrow> os_env \<Rightarrow> loader \<Rightarrow> ld_stop + (int \<times> loader)" where
  "main exec puts_addr env st =
     rbind (load_obj env st) (\<lambda>st.
     rbind (parse_obj puts_addr env st) (\<lambda>st.
     rbind (execute_funcs exec st) (\<lambda>st. Inr (0, st))))"

section \<open>The relocation pass\<close>

definition slot :: "u64 \<Rightarrow> bytes" where
  "slot addr = le_bytes 8 addr @ stub"

definition patch_at :: "(place \<Rightarrow> u64) \<Rightarrow> u64 \<Rightarrow> reloc \<Rightarrow> bytes \<Rightarrow> bytes" where
  "patch_at b s r xs =
     (if pc_relative r then array_write xs (unat (rl_offset r)) (le_bytes 4 (displacement b s r))
      else xs)"

lemma fill_slot_store: "fill_slot a v m = store_bytes m a (slot v)"
  by (simp add: fill_slot_def slot_def store_bytes_append store64_def)

lemma length_slot: "length (slot v) = 14"
  by (simp add: slot_def stub_def)

lemma prot_store_bytes: "store_bytes m a bs = Inr m' \<Longrightarrow> prot_at m' = prot_at m"
  by (induction bs arbitrary: m a) (auto split: if_splits)

lemma relocate3_keeps_prot:
  "relocate p addr st = Inr st' \<Longrightarrow> prot_at (mem st') = prot_at (mem st)"
  by (auto simp: relocate_def resolve_def Let_def rbind_eq_Inr_iff store32_Inr_iff fill_slot_store
      dest!: prot_store_bytes split: if_splits)

lemma relocate3_link:
  assumes r: "read_reloc True st0 addr = Inr r" and sub: "sub_st st0 st"
    and un: "\<And>x. unat (x - text_runtime_base B) < length xs \<or> unat (x - jumptable B) < length tab \<Longrightarrow>
        prot_at (mem st0) x = None" and subB: "sub_st st0 B"
    and now: "link_now B (j, xs, tab) st" and room: "link_room B (length xs) (length tab)"
    and ext: "\<And>nm. rl_target r = External nm \<Longrightarrow> nm = lit ''puts'' \<and> 16 * j + 16 \<le> length tab \<and> j < 2 ^ 31"
    and len: "length xs < 2 ^ 64" "length tab < 2 ^ 64"
    and site: "good_site rd b (length xs) r"
  shows "\<exists>st'. relocate p addr st = Inr st' \<and>
    link_now B (link_step patch_at slot 8 p (place_base B) (jumptable B) r (j, xs, tab)) st'"
proof -
  obtain info where i: "r_info st0 addr = Inr info" "r_offset st0 addr = Inr (rl_offset r)"
    and t: "read_target True st0 (symbol_at st0 (ELF64_R_SYM info)) = Inr (rl_target r)"
    and ad: "r_addend st0 addr = Inr (rl_addend r)" and ty: "rl_type r = ELF64_R_TYPE info"
    using r by (rule read_reloc_obtain)
  note m = field_mono [OF sub] and same = sub_st_same [OF sub]
  note F = link_now_fields [OF now]
  obtain sa j' tab' st1 where res: "resolve fill_slot 8 p (symbol_at st (ELF64_R_SYM info)) st = Inr (sa, st1)"
    and now1: "link_now B (j', xs, tab') st1" and l1: "length tab' = length tab"
    and step: "link_step patch_at slot 8 p (place_base B) (jumptable B) r (j, xs, tab) =
      (j', patch_at (place_base B) sa r xs, tab')"
    using resolve_step [OF t sub now room, where fill = fill_slot and code = slot and my_puts = p and d = 8] ext len
    by (cases "rl_target r") (auto simp: fill_slot_store length_slot same link_step_def)
  have room1: "link_room B (length xs) (length tab')" using room l1 by simp
  have sub1: "sub_st st0 st1"
    by (rule link_now_sub [OF now1 subB]) (use un l1 in auto)
  show ?thesis
  proof (cases "pc_relative r")
    case False
    then show ?thesis
      using m(12) [OF i(1)] m(11) [OF i(2)] res now1 ty
      by (simp add: relocate_def Let_def step patch_at_def pc_relative_def)
  next
    case True
    have s: "unat (rl_offset r) + length (le_bytes 4 v) \<le> length xs" for v :: u32
      using site True by (simp add: good_site_def)
    have l4: "length (le_bytes 4 v) < 2 ^ 64" for v :: u32 by simp
    have tb: "text_runtime_base st = text_runtime_base B" by (rule F(1))
    have dsp: "ucast (sa + rl_addend r - (text_runtime_base B + rl_offset r)) =
        displacement (place_base B) sa r" by (simp add: displacement_def)
    show ?thesis
      using m(12) [OF i(1)] m(11) [OF i(2)] res True ty field_mono(13) [OF sub1 ad]
        link_now_text [OF now1 room1 s l4] l1 len
      by (simp add: relocate_def Let_def step patch_at_def pc_relative_def tb dsp store32_def)
  qed
qed

interpretation x86_ext: ext_linker "do_text_relocations p" patch_at slot 8 p good_site
  for p :: u64
proof
  show "prot_at (mem st') = prot_at (mem st)" if "do_text_relocations p st = Inr st'" for st st'
    using that unfolding do_text_relocations_def
    by (rule for_relocations_keeps [rotated]) (rule relocate3_keeps_prot)
next
  show len: "length (patch_at b s r xs) = n" if "good_site rd b n r" "length xs = n" for rd b n r s xs
    using that by (simp add: patch_at_def good_site_def)
next
  show "length (slot v) \<le> 16" for v by (simp add: length_slot)
next
  fix st0 st :: loader and rs xs tab rd
  assume rs: "relocs True st0 rs" and sub: "sub_st st0 st" and start: "curr_jmp_idx st = 0"
    and room: "link_room st (length xs) (length tab)"
    and len: "length xs < 2 ^ 64" "length tab < 2 ^ 64"
    and un: "\<And>x. unat (x - text_runtime_base st) < length xs \<or> unat (x - jumptable st) < length tab \<Longrightarrow>
        prot_at (mem st0) x = None"
    and ld: "load_bytes (mem st) (length xs) (text_runtime_base st) = Inr xs"
      "load_bytes (mem st) (length tab) (jumptable st) = Inr tab"
    and count: "16 * externals rs \<le> length tab" and names: "only_puts rs"
    and good: "\<And>r. r \<in> set rs \<Longrightarrow> good_site rd (place_base st) (length xs) r"
  show "\<exists>st'. do_text_relocations p st = Inr st' \<and>
      link_now st (fold (link_step patch_at slot 8 p (place_base st) (jumptable st)) rs (0, xs, tab)) st'"
    unfolding do_text_relocations_def
  proof (rule link_loop [OF rs sub start room un ld count names])
    fix r s and xs' :: bytes assume "r \<in> set rs" "length xs' = length xs"
    then show "length (patch_at (place_base st) s r xs') = length xs'"
      using good by (simp add: patch_at_def good_site_def)
  next
    show "length (slot p) \<le> 16" by (simp add: length_slot)
  next
    fix r addr j xs' tab' s
    assume r: "r \<in> set rs" "read_reloc True st0 addr = Inr r" and s: "sub_st st0 s"
      "link_now st (j, xs', tab') s" and l: "length xs' = length xs" "length tab' = length tab"
      and ex: "\<And>nm. rl_target r = External nm \<Longrightarrow>
        nm = lit ''puts'' \<and> 16 * j + 16 \<le> length tab' \<and> j < 2 ^ 31"
    show "\<exists>st'. relocate p addr s = Inr st' \<and>
        link_now st (link_step patch_at slot 8 p (place_base st) (jumptable st) r (j, xs', tab')) st'"
      using un room len good [OF r(1)] l
      by (intro relocate3_link [OF r(2) s(1) _ sub s(2) _ ex]) auto
  qed
qed

section \<open>Calls through the table\<close>

interpretation x86_slots: slot_linker patch_at slot 8 pc_relative
  by unfold_locales (auto simp: patch_at_def nth_array_write length_slot)

text \<open>
  The instruction \<open>ff 25 disp32\<close> at \<open>a\<close>: a jump to the address stored at \<open>disp32\<close> from the next
  instruction. A call \<open>e8 rel32\<close> whose last four bytes are at \<open>site\<close> goes to \<open>rel32\<close> from the next
  instruction.
\<close>

definition jmp_indirect :: "memory \<Rightarrow> u64 \<Rightarrow> ld_stop + u64" where
  "jmp_indirect m a =
     rbind (load_bytes m 6 a) (\<lambda>bs.
       if take 2 bs = [0xff, 0x25] then load64 m (a + 6 + scast (word_of_le (drop 2 bs) :: u32))
       else Inl Segv)"

definition call_target :: "memory \<Rightarrow> u64 \<Rightarrow> ld_stop + u64" where
  "call_target m site = rbind (load32 m site) (\<lambda>w. Inr (site + 4 + scast w))"

lemma stub_jumps:
  assumes "load_bytes m 14 a = Inr (slot p)"
  shows "jmp_indirect m (a + 8) = Inr p"
proof -
  have l: "load_bytes m (length (slot p)) a = Inr (slot p)" using assms by (simp add: length_slot)
  have "load_bytes m 6 (a + of_nat 8) = Inr stub"
    by (rule load_slice [OF l]) (simp_all add: slot_def stub_def)
  moreover have "load_bytes m 8 (a + of_nat 0) = Inr (le_bytes 8 p)"
    by (rule load_slice [OF l]) (simp_all add: slot_def stub_def)
  moreover have "scast (word_of_le (drop 2 stub) :: u32) = (- 14 :: u64)"
    by code_simp
  ultimately show ?thesis
    by (simp add: jmp_indirect_def load64_def word_of_le_le_bytes) (simp add: stub_def)
qed

section \<open>Theorems\<close>

text \<open>
  C21: \<open>parse_obj\<close> with external functions: for an object that calls only \<open>puts\<close>, it succeeds; the
  block holds the linked text, the data, and a jump table with exactly as many slots filled as
  \<open>count_external_symbols\<close> counted, so the table is never left; text and table are executable and not
  writable, and nothing else in memory changed.
\<close>

theorem parse_obj_ext_links:
  assumes "os_ok env" "parse_tables env st = Inr st1" "is_object True st1 ob"
    and "num_ext_symbols st = 0" "curr_jmp_idx st = 0"
    and "e = pages_end (os_page env) (16 * externals (o_relocs ob))"
    and "all_pages env ob + e < 2 ^ 64"
    and "anon_addr env (of_nat (all_pages env ob + e)) = Inr a" "a mod os_page env = 0"
      "unmapped a (all_pages env ob + e) (mem st)"
    and "only_puts (o_relocs ob)"
    and "\<And>r. r \<in> set (o_relocs ob) \<Longrightarrow> pc_relative r \<Longrightarrow> unat (rl_offset r) + 4 \<le> length (o_text ob)"
    and "fold (link_step patch_at slot 8 p (place_at env ob a) (a + of_nat (all_pages env ob)))
      (o_relocs ob) (0, o_text ob, replicate e 0) = (j, t, table)"
  shows "\<exists>st'. parse_obj p env st = Inr st' \<and>
    image env ob t a e (mem st) (mem st') \<and>
    load_bytes (mem st') e (a + of_nat (all_pages env ob)) = Inr table \<and>
    j = externals (o_relocs ob) \<and> num_ext_symbols st' = of_nat j \<and> curr_jmp_idx st' = of_nat j"
  unfolding parse_obj_def
  using assms(1-11) _ assms(13)
  by (rule x86_ext.parse_obj_ext_image) (simp add: good_site_def assms(12))

definition called_bytes :: bytes where
  "called_bytes = [0x55, 0x90, 0x90, 0xe8] @ le_bytes 4 (0x3000 :: u32) @ drop 8 text_bytes"

lemma link_example:
  assumes "b Text_copy = 0x100000" "jt = 0x103000"
  shows "link_step patch_at slot 8 p b jt (example_reloc 4 (- 4) (External nm)) (0, text_bytes, tab) =
    (1, called_bytes, array_write tab 0 (slot p))"
  by (simp add: link_step_def example_parts assms patch_at_def pc_relative_def R_X86_64_PLT32_def
      array_write_def displacement_def text_bytes_def called_bytes_def)

lemma place_at_Text: "place_at env ob a Text_copy = a" by simp

lemma example_ext_setup:
  defines "e \<equiv> example_env 53 0 4 (- 4)" and "ob \<equiv> example_object 4 (- 4) (External (lit ''puts''))"
    and "s \<equiv> loaded 53 0 4 (- 4)"
  shows "parse_tables e s = Inr (parsed s)" "is_object True (parsed s) ob"
    "num_ext_symbols s = 0" "curr_jmp_idx s = 0" "4096 = pages_end (os_page e) (16 * externals (o_relocs ob))"
    "fold (link_step patch_at slot 8 p (place_at e ob 0x100000) (0x100000 + of_nat (all_pages e ob)))
       (o_relocs ob) (0, o_text ob, replicate 4096 0) = (1, called_bytes, array_write (replicate 4096 0) 0 (slot p))"
proof -
  show "parse_tables e s = Inr (parsed s)" "is_object True (parsed s) ob"
    unfolding e_def ob_def s_def by (rule example_setup; simp)+
  show "num_ext_symbols s = 0" "curr_jmp_idx s = 0"
    by (simp_all add: s_def loaded_def fresh_def)
  have "externals (o_relocs ob) = 1" by (simp add: ob_def example_parts)
  then show "4096 = pages_end (os_page e) (16 * externals (o_relocs ob))"
    by (simp only:) (simp add: e_def pages_end_def)
  show "fold (link_step patch_at slot 8 p (place_at e ob 0x100000) (0x100000 + of_nat (all_pages e ob)))
      (o_relocs ob) (0, o_text ob, replicate 4096 0) = (1, called_bytes, array_write (replicate 4096 0) 0 (slot p))"
    unfolding e_def ob_def example_parts(1,2) fold_simps id_def
    by (rule link_example) (simp_all only: place_at_Text example_pages of_nat_numeral, simp)
qed

lemmas example_ext_simps = example_pages loaded_unmapped example_parts only_puts_def

theorem parse_obj_ext_links_witness:
  "\<exists>st'. parse_obj 0x401000 (example_env 53 0 4 (- 4)) (loaded 53 0 4 (- 4)) = Inr st' \<and>
    image (example_env 53 0 4 (- 4)) (example_object 4 (- 4) (External (lit ''puts''))) called_bytes
      0x100000 4096 (mem (loaded 53 0 4 (- 4))) (mem st') \<and> curr_jmp_idx st' = 1"
  using parse_obj_ext_links [where a = "0x100000" and p = "0x401000",
      OF env_fields(3) example_ext_setup(1-5) _ _ _ _ _ _ example_ext_setup(6)]
  by (auto simp: example_ext_simps)

text \<open>
  In a memory that holds the linked text and the jump table, the call instruction of an external relocation (addend
  \<open>-4\<close>) goes to the slot the relocation got, and the code of the slot jumps to the function.
\<close>

lemma linked_call_reaches:
  assumes fold: "fold (link_step patch_at slot 8 p b jt) (us @ r # vs) (0, xs, tab) = (j, t, table)"
    and site: "\<And>r'. r' \<in> set (us @ r # vs) \<Longrightarrow> pc_relative r' \<Longrightarrow> unat (rl_offset r') + 4 \<le> length xs"
    and size: "16 * externals (us @ r # vs) \<le> length tab"
    and r: "pc_relative r" "rl_target r = External nm" "rl_addend r = - 4"
    and apart: "\<And>r'. r' \<in> set vs \<Longrightarrow> pc_relative r' \<Longrightarrow> apart r r'"
    and mem: "load_bytes m (length t) (b Text_copy) = Inr t" "load_bytes m (length table) jt = Inr table"
    and s: "s = jt + 16 * of_nat (externals us) + 8" "q = b Text_copy + rl_offset r"
    and near: "- (2 ^ 31) \<le> sint (s - 4 - q)" "sint (s - 4 - q) < 2 ^ 31"
  shows "rbind (call_target m q) (jmp_indirect m) = Inr p"
proof -
  obtain ys where E: "take 14 (drop (16 * externals us) table) = slot p"
      "length t = length xs" "length table = length tab" "length ys = length xs"
    and w: "take 4 (drop (unat (rl_offset r)) t) = take 4 (drop (unat (rl_offset r)) (patch_at b s r ys))"
    using x86_slots.fold_link_external [OF fold site size r(1,2) apart] by (auto simp: length_slot s)
  let ?w = "displacement b s r"
  have "take 4 (drop (unat (rl_offset r)) (patch_at b s r ys)) = le_bytes 4 ?w"
  proof -
    have "unat (rl_offset r) + 4 \<le> length ys" using site r(1) E(4) by simp
    then show ?thesis using r(1) by (simp add: patch_at_def array_write_def min_def)
  qed
  then have "load_bytes m 4 (b Text_copy + of_nat (unat (rl_offset r))) = Inr (le_bytes 4 ?w)"
    using site r(1) E(2) w by (intro load_slice [OF mem(1)]) auto
  then have "load32 m q = Inr ?w" by (simp add: load32_def s word_of_le_le_bytes)
  moreover have "?w = ucast (s - 4 - q)" by (simp add: displacement_def r(3) s(2))
  ultimately have call: "call_target m q = Inr s"
    using scast_ucast_fits [OF near] by (simp add: call_target_def)
  have "externals (us @ r # vs) = externals us + Suc (externals vs)"
    using r(2) by (simp add: externals_def)
  then have "load_bytes m 14 (jt + of_nat (16 * externals us)) = Inr (slot p)"
    using size E(3) by (intro load_slice [OF mem(2) E(1)]) simp
  from stub_jumps [OF this] show ?thesis unfolding call by (simp add: s(1))
qed

text \<open>
  C22: calls to the host program reach it. For an object as in the theorem above, whose block is smaller than 2 GB:
  \<open>parse_obj\<close> succeeds, and in the memory it leaves the call instruction of every external relocation (of a call or
  relative to the program counter, addend \<open>-4\<close>, and no later relocation overwrites its operand) goes to a slot of
  the jump table whose code jumps to the function of the host program.
\<close>

theorem external_call_reaches:
  assumes "os_ok env" "parse_tables env st = Inr st1" "is_object True st1 ob"
    and "num_ext_symbols st = 0" "curr_jmp_idx st = 0"
    and e: "e = pages_end (os_page env) (16 * externals (o_relocs ob))"
    and small: "all_pages env ob + e < 2 ^ 31"
    and "anon_addr env (of_nat (all_pages env ob + e)) = Inr a" "a mod os_page env = 0"
      "unmapped a (all_pages env ob + e) (mem st)"
    and "only_puts (o_relocs ob)"
    and site: "\<And>r. r \<in> set (o_relocs ob) \<Longrightarrow> pc_relative r \<Longrightarrow> unat (rl_offset r) + 4 \<le> length (o_text ob)"
    and rs: "o_relocs ob = us @ r # vs" and r: "pc_relative r" "rl_target r = External nm" "rl_addend r = - 4"
    and apart: "\<And>r'. r' \<in> set vs \<Longrightarrow> pc_relative r' \<Longrightarrow> apart r r'"
  shows "\<exists>st'. parse_obj p env st = Inr st' \<and>
    rbind (call_target (mem st') (a + rl_offset r)) (jmp_indirect (mem st')) = Inr p"
proof -
  let ?n = "all_pages env ob"
  have fits: "?n + e < 2 ^ 64" using small by simp
  obtain j t table where F: "fold (link_step patch_at slot 8 p (place_at env ob a) (a + of_nat ?n))
      (us @ r # vs) (0, o_text ob, replicate e 0) = (j, t, table)" by (metis prod_cases3)
  have size: "16 * externals (us @ r # vs) \<le> e"
    unfolding e rs by (rule pages_end_ge) (rule os_page_nonzero [OF assms(1)])
  have lt: "length table = e"
    using x86_slots.fold_link_keeps [OF F] site size rs by simp
  obtain st' where st': "parse_obj p env st = Inr st'" "image env ob t a e (mem st) (mem st')"
    "load_bytes (mem st') e (a + of_nat ?n) = Inr table"
    using x86_ext.parse_obj_ext_image [OF assms(1-6) fits assms(8-11) _ F [folded rs]] site
    by (auto simp: parse_obj_def good_site_def)
  let ?k = "externals us" and ?jt = "a + of_nat ?n"
  have k: "16 * ?k + 16 \<le> e" using size r(2) by (simp add: externals_def)
  have "length (o_text ob) \<le> ?n"
    unfolding all_pages_def text_pages_def
    using pages_end_ge [OF os_page_nonzero [OF assms(1)], of "length (o_text ob)"] by simp
  then have off: "unat (rl_offset r) + 4 \<le> ?n" using site [of r] rs r(1) by simp
  have "?jt + 16 * of_nat ?k + 8 - 4 = ?jt + 16 * of_nat ?k + of_nat 4" by simp
  moreover have "sint (?jt + 16 * of_nat ?k + of_nat 4 - (a + rl_offset r)) = int (?n + 16 * ?k + 4 - unat (rl_offset r))"
    using off k small by (intro slot_distance(2)) simp_all
  ultimately have d: "sint (?jt + 16 * of_nat ?k + 8 - 4 - (a + rl_offset r)) = int (?n + 16 * ?k + 4 - unat (rl_offset r))"
    by (simp only:)
  have "?n + 16 * ?k + 4 - unat (rl_offset r) < 2 ^ 31" using k small by linarith
  then have v: "0 \<le> int (?n + 16 * ?k + 4 - unat (rl_offset r))" "int (?n + 16 * ?k + 4 - unat (rl_offset r)) < 2 ^ 31"
    by (metis of_nat_0_le_iff, metis of_nat_less_iff of_nat_numeral of_nat_power)
  have m: "load_bytes (mem st') (length t) (place_at env ob a Text_copy) = Inr t"
    using st'(2) by (simp add: image_def)
  have "rbind (call_target (mem st') (a + rl_offset r)) (jmp_indirect (mem st')) = Inr p"
  proof (rule linked_call_reaches [OF F _ _ r apart m _ refl])
    show "unat (rl_offset r') + 4 \<le> length (o_text ob)" if "r' \<in> set (us @ r # vs)" "pc_relative r'" for r'
      using site that rs by simp
    show "16 * externals (us @ r # vs) \<le> length (replicate e (0 :: u8))" using size by simp
    show "load_bytes (mem st') (length table) ?jt = Inr table" using st'(3) lt by simp
    show "- (2 ^ 31) \<le> sint (?jt + 16 * of_nat ?k + 8 - 4 - (a + rl_offset r))"
      "sint (?jt + 16 * of_nat ?k + 8 - 4 - (a + rl_offset r)) < 2 ^ 31"
      using v unfolding d by linarith+
  qed simp_all
  then show ?thesis using st'(1) by blast
qed

theorem external_call_reaches_witness:
  "\<exists>st'. parse_obj 0x401000 (example_env 53 0 4 (- 4)) (loaded 53 0 4 (- 4)) = Inr st' \<and>
    rbind (call_target (mem st') 0x100004) (jmp_indirect (mem st')) = Inr 0x401000"
  using external_call_reaches [where a = "0x100000" and p = "0x401000" and us = "[]" and vs = "[]" and
      r = "example_reloc 4 (- 4) (External (lit ''puts''))" and nm = "lit ''puts''", OF env_fields(3) example_ext_setup(1-5)]
  by (auto simp: example_ext_simps pc_relative_def R_X86_64_PLT32_def)

text \<open>
  C23: no page is writable and executable after \<open>parse_obj\<close>, the jump table included, whatever the
  object file is.
\<close>

theorem parse_obj_ext_wx:
  assumes "parse_obj p env st = Inr st'" "wx (mem st)"
  shows "wx (mem st')"
  using assms unfolding parse_obj_def by (rule x86_ext.parse_obj_ext_keeps_wx)

theorem parse_obj_ext_wx_witness:
  "\<exists>st'. parse_obj 0x401000 (example_env 53 0 4 (- 4)) (loaded 53 0 4 (- 4)) = Inr st' \<and> wx (mem st')"
proof -
  obtain st' where "parse_obj 0x401000 (example_env 53 0 4 (- 4)) (loaded 53 0 4 (- 4)) = Inr st'"
    using x86_ext.parse_obj_ext_image [where a = "0x100000" and p = "0x401000",
      OF env_fields(3) example_ext_setup(1-5) _ _ _ _ _ _ example_ext_setup(6)]
    by (auto simp: example_ext_simps parse_obj_def good_site_def)
  then show ?thesis using parse_obj_ext_wx [OF _ loaded_wx] by blast
qed

end
