(* ===== verification/Loader4_3.thy ===== *)
theory Loader4_3
  imports Loader4_2 Loader3
begin

text \<open>
  \<open>2021-03-obj-file/4/3/loader.c\<close>: the loader of \<open>3/loader.c\<close> for AArch64 objects. A slot of the jump
  table is four instructions that build the address in \<open>x9\<close> and branch to it; the relocations are
  those of \<open>Aarch64\<close>.

  The theorems: \<open>parse_obj\<close> in closed form; an external call reaches the low 48 bits of the
  function's address.
\<close>

unbundle bit_operations_syntax

section \<open>The functions of the file\<close>

definition page_align :: "u64 \<Rightarrow> u64 \<Rightarrow> u64" where
  "page_align = Elf.page_align"

definition load_obj :: "os_env \<Rightarrow> loader \<Rightarrow> ld_stop + loader" where
  "load_obj = Elf.load_obj"

definition lookup_section :: "string \<Rightarrow> loader \<Rightarrow> ld_stop + u64 option" where
  "lookup_section = Elf.lookup_section"

definition lookup_function :: "string \<Rightarrow> loader \<Rightarrow> ld_stop + u64 option" where
  "lookup_function = Elf.lookup_function"

definition section_runtime_base :: "loader \<Rightarrow> u64 \<Rightarrow> ld_stop + u64" where
  "section_runtime_base = Sections.section_runtime_base"

definition my_puts :: "memory \<Rightarrow> u64 \<Rightarrow> ld_stop + event list" where
  "my_puts = Loader3.my_puts"

definition lookup_ext_function :: "u64 \<Rightarrow> bytes \<Rightarrow> ld_stop + u64" where
  "lookup_ext_function = Jump_Table.lookup_ext_function"

definition count_external_symbols :: "loader \<Rightarrow> ld_stop + loader" where
  "count_external_symbols = Jump_Table.count_external_symbols"

text \<open>The four words of a slot.\<close>

definition mov :: "u64 \<Rightarrow> u32" where
  "mov addr = ucast (0xd2800009 OR drop_bit 43 (push_bit 48 addr))"

definition movk1 :: "u64 \<Rightarrow> u32" where
  "movk1 addr = ucast (0xf2a00009 OR drop_bit 43 (push_bit 48 (drop_bit 16 addr)))"

definition movk2 :: "u64 \<Rightarrow> u32" where
  "movk2 addr = ucast (0xf2c00009 OR drop_bit 43 (push_bit 48 (drop_bit 32 addr)))"

definition fill_slot :: "u64 \<Rightarrow> u64 \<Rightarrow> memory \<Rightarrow> ld_stop + memory" where
  "fill_slot instr addr m =
     rbind (store32 m instr (mov addr)) (\<lambda>m.
     rbind (store32 m (instr + 4) (movk1 addr)) (\<lambda>m.
     rbind (store32 m (instr + 8) (movk2 addr)) (\<lambda>m.
       store32 m (instr + 12) 0xd61f0120)))"

definition relocate :: "u64 \<Rightarrow> u64 \<Rightarrow> loader \<Rightarrow> ld_stop + loader" where
  "relocate puts_addr r st =
     rbind (r_info st r) (\<lambda>info.
     rbind (r_offset st r) (\<lambda>offset.
     let type = ELF64_R_TYPE info;
         patch_offset = text_runtime_base st + offset in
     rbind (resolve fill_slot 0 puts_addr (symbol_at st (ELF64_R_SYM info)) st) (\<lambda>(symbol_address, st).
     rbind (switch type (\<lambda>m. r_addend (st\<lparr>mem := m\<rparr>) r) symbol_address patch_offset (mem st)) (\<lambda>m.
       Inr (st\<lparr>mem := m\<rparr>)))))"

definition do_text_relocations :: "u64 \<Rightarrow> loader \<Rightarrow> ld_stop + loader" where
  "do_text_relocations puts_addr st = for_relocations (relocate puts_addr) st"

definition parse_obj :: "u64 \<Rightarrow> os_env \<Rightarrow> loader \<Rightarrow> ld_stop + loader" where
  "parse_obj puts_addr env st = parse_obj_ext (do_text_relocations puts_addr) env st"

definition execute_funcs :: "machine \<Rightarrow> loader \<Rightarrow> ld_stop + loader" where
  "execute_funcs = Loader3.execute_funcs"

definition main :: "machine \<Rightarrow> u64 \<Rightarrow> os_env \<Rightarrow> loader \<Rightarrow> ld_stop + (int \<times> loader)" where
  "main exec puts_addr env st =
     rbind (load_obj env st) (\<lambda>st.
     rbind (parse_obj puts_addr env st) (\<lambda>st.
     rbind (execute_funcs exec st) (\<lambda>st. Inr (0, st))))"

section \<open>The relocation pass\<close>

definition slot :: "u64 \<Rightarrow> bytes" where
  "slot addr = le_bytes 4 (mov addr) @ le_bytes 4 (movk1 addr) @ le_bytes 4 (movk2 addr) @
     le_bytes 4 (0xd61f0120 :: u32)"

lemma length_slot4: "length (slot v) = 16"
  by (simp add: slot_def)

lemma fill_slot4_store: "fill_slot a v m = store_bytes m a (slot v)"
  by (simp add: fill_slot_def slot_def store_bytes_append store32_def add.assoc)

lemma relocate43_keeps_prot:
  "relocate p addr st = Inr st' \<Longrightarrow> prot_at (mem st') = prot_at (mem st)"
  by (auto simp: relocate_def resolve_def Let_def rbind_eq_Inr_iff fill_slot4_store
      dest!: prot_store_bytes prot_switch split: if_splits)

text \<open>
  The relocations of the link specification: sites in the text, and for \<open>add\<close> a symbol in readable
  memory. (An external \<open>add\<close> reads a byte of the slot.)
\<close>

definition good_ext :: "(u64 \<Rightarrow> bool) \<Rightarrow> (place \<Rightarrow> u64) \<Rightarrow> nat \<Rightarrow> reloc \<Rightarrow> bool" where
  "good_ext rd b n r \<longleftrightarrow> relocates r \<longrightarrow> unat (rl_offset r) + 4 \<le> n \<and>
     (rl_type r = R_AARCH64_ADD_ABS_LO12_NC \<longrightarrow>
        (\<exists>q v. rl_target r = Local q v \<and> rd (b q + v + rl_addend r)))"

lemma relocate43_link:
  assumes r: "read_reloc True st0 addr = Inr r" and sub: "sub_st st0 st"
    and un: "\<And>x. unat (x - text_runtime_base B) < length xs \<or> unat (x - jumptable B) < length tab \<Longrightarrow>
        prot_at (mem st0) x = None" and subB: "sub_st st0 B"
    and now: "link_now B (j, xs, tab) st" and room: "link_room B (length xs) (length tab)"
    and exn: "\<And>nm. rl_target r = External nm \<Longrightarrow> nm = lit ''puts'' \<and> 16 * j + 16 \<le> length tab \<and> j < 2 ^ 31"
    and len: "length xs < 2 ^ 64" "length tab < 2 ^ 64"
    and rd: "\<And>x. rd x \<Longrightarrow> allows (mem B) can_read x"
    and good: "good_ext rd (place_base B) (length xs) r"
  shows "\<exists>st'. relocate p addr st = Inr st' \<and>
    link_now B (link_step patch_word slot 0 p (place_base B) (jumptable B) r (j, xs, tab)) st'"
proof -
  obtain info where i: "r_info st0 addr = Inr info" "r_offset st0 addr = Inr (rl_offset r)"
    and t: "read_target True st0 (symbol_at st0 (ELF64_R_SYM info)) = Inr (rl_target r)"
    and ad: "r_addend st0 addr = Inr (rl_addend r)" and ty: "rl_type r = ELF64_R_TYPE info"
    using r by (rule read_reloc_obtain)
  note m = field_mono [OF sub] and same = sub_st_same [OF sub]
  note F = link_now_fields [OF now]
  obtain sa j' tab' st1 where res: "resolve fill_slot 0 p (symbol_at st (ELF64_R_SYM info)) st = Inr (sa, st1)"
    and now1: "link_now B (j', xs, tab') st1" and l1: "length tab' = length tab"
    and step: "link_step patch_word slot 0 p (place_base B) (jumptable B) r (j, xs, tab) =
      (j', patch_word (place_base B) sa r xs, tab')"
    and gw: "good_word rd sa (length xs) r"
    using resolve_step [OF t sub now room, where fill = fill_slot and code = slot and my_puts = p and d = 0]
      exn len good
    by (cases "rl_target r") (auto simp: fill_slot4_store length_slot4 same link_step_def good_ext_def good_word_def)
  have room1: "link_room B (length xs) (length tab')" using room l1 by simp
  have un1: "\<And>x. unat (x - text_runtime_base B) < length xs \<or> unat (x - jumptable B) < length tab' \<Longrightarrow>
        prot_at (mem st0) x = None" using un l1 by simp
  have sub1: "sub_st st0 st1" by (rule link_now_sub [OF now1 subB un1])
  have run: "relocate p addr st = rbind (switch (rl_type r) (\<lambda>m. r_addend (st1\<lparr>mem := m\<rparr>) addr) sa
      (text_runtime_base B + rl_offset r) (mem st1)) (\<lambda>m. Inr (st1\<lparr>mem := m\<rparr>))"
    using m(12) [OF i(1)] m(11) [OF i(2)] res ty F(1) by (simp add: relocate_def Let_def)
  show ?thesis
  proof (cases "relocates r")
    case False
    then show ?thesis using now1 by (simp add: run switch_other step patch_word_def)
  next
    case True
    have s: "unat (rl_offset r) + length (le_bytes 4 v) \<le> length xs" for v :: u32
      using good True by (simp add: good_ext_def)
    have l4: "length (le_bytes 4 v) < 2 ^ 64" for v :: u32 by simp
    have new: "link_now B (j', array_write xs (unat (rl_offset r)) (le_bytes 4 v), tab')
        (st1\<lparr>mem := poke (text_runtime_base B + rl_offset r) (le_bytes 4 v) (mem st1)\<rparr>)" for v :: u32
      using link_now_text(2) [OF now1 room1 s l4] len l1 by simp
    have al: "allows (mem st1) = allows (mem B)"
      using link_now_fields(9) [OF now1] by (intro ext) (simp add: allows_def)
    note N = now1 [unfolded link_now_def prod.case]
    have "switch (rl_type r) (\<lambda>m. r_addend (st1\<lparr>mem := m\<rparr>) addr) sa (text_runtime_base B + rl_offset r) (mem st1) =
      Inr (poke (text_runtime_base B + rl_offset r) (le_bytes 4 (new_word (rl_type r) (sa + rl_addend r)
        (text_runtime_base B + rl_offset r) (word_at xs (rl_offset r)))) (mem st1))"
    proof (rule switch_text [OF _ _ _ _ _ _ True])
      show "load_bytes (mem st1) (length xs) (text_runtime_base B) = Inr xs" using N by simp
      show "allows (mem st1) can_write x" if "unat (x - text_runtime_base B) < length xs" for x
        using that room1 by (simp add: al link_room_def)
      show "length xs \<le> 2 ^ 64" using len by simp
      show "r_addend (st1\<lparr>mem := mem st1\<rparr>) addr = Inr (rl_addend r)"
        using field_mono(13) [OF sub1 ad] by simp
      show "r_addend (st1\<lparr>mem := poke (text_runtime_base B + rl_offset r) (le_bytes 4 v) (mem st1)\<rparr>) addr =
          Inr (rl_addend r)" for v :: u32
        by (rule field_mono(13) [OF link_now_sub [OF new subB] ad]) (use un1 s in auto)
      show "good_word (\<lambda>x. allows (mem st1) can_read x) sa (length xs) r"
        using gw rd by (auto simp: good_word_def al)
    qed
    then show ?thesis
      using new True by (simp add: run step patch_word_def F(1) place_base.simps(1))
  qed
qed

interpretation arm_ext: ext_linker "do_text_relocations p" patch_word slot 0 p good_ext
  for p :: u64
proof
  show "prot_at (mem st') = prot_at (mem st)" if "do_text_relocations p st = Inr st'" for st st'
    using that unfolding do_text_relocations_def
    by (rule for_relocations_keeps [rotated]) (rule relocate43_keeps_prot)
next
  show "length (patch_word b s r xs) = n" if "good_ext rd b n r" "length xs = n" for rd b n r s xs
    using that by (auto simp: patch_word_def good_ext_def)
next
  show "length (slot v) \<le> 16" for v by (simp add: length_slot4)
next
  fix st0 st :: loader and rs xs tab rd
  assume rs: "relocs True st0 rs" and sub: "sub_st st0 st" and start: "curr_jmp_idx st = 0"
    and room: "link_room st (length xs) (length tab)"
    and len: "length xs < 2 ^ 64" "length tab < 2 ^ 64"
    and un: "\<And>x. unat (x - text_runtime_base st) < length xs \<or> unat (x - jumptable st) < length tab \<Longrightarrow>
        prot_at (mem st0) x = None"
    and ld: "load_bytes (mem st) (length xs) (text_runtime_base st) = Inr xs"
      "load_bytes (mem st) (length tab) (jumptable st) = Inr tab"
    and count: "16 * externals rs \<le> length tab" and names: "only_puts rs"
    and rd: "\<And>x. rd x \<Longrightarrow> allows (mem st) can_read x"
    and good: "\<And>r. r \<in> set rs \<Longrightarrow> good_ext rd (place_base st) (length xs) r"
  show "\<exists>st'. do_text_relocations p st = Inr st' \<and>
      link_now st (fold (link_step patch_word slot 0 p (place_base st) (jumptable st)) rs (0, xs, tab)) st'"
    unfolding do_text_relocations_def
  proof (rule link_loop [OF rs sub start room un ld count names])
    fix r s and xs' :: bytes assume "r \<in> set rs" "length xs' = length xs"
    then show "length (patch_word (place_base st) s r xs') = length xs'"
      using good by (auto simp: patch_word_def good_ext_def)
  next
    show "length (slot p) \<le> 16" by (simp add: length_slot4)
  next
    fix r addr j xs' tab' s
    assume r: "r \<in> set rs" "read_reloc True st0 addr = Inr r" and s: "sub_st st0 s"
      "link_now st (j, xs', tab') s" and l: "length xs' = length xs" "length tab' = length tab"
      and ex: "\<And>nm. rl_target r = External nm \<Longrightarrow>
        nm = lit ''puts'' \<and> 16 * j + 16 \<le> length tab' \<and> j < 2 ^ 31"
    show "\<exists>st'. relocate p addr s = Inr st' \<and>
        link_now st (link_step patch_word slot 0 p (place_base st) (jumptable st) r (j, xs', tab')) st'"
      using un room len good [OF r(1)] l rd
      by (intro relocate43_link [OF r(2) s(1) _ sub s(2) _ ex]) auto
  qed
qed

interpretation arm_slots: slot_linker patch_word slot 0 relocates
  by unfold_locales (auto simp: patch_word_def nth_array_write length_slot4)

section \<open>What the processor makes of a slot\<close>

text \<open>
  \<open>movz x9, #imm, lsl #sh\<close> and \<open>movk x9, #imm, lsl #sh\<close> as functions on \<open>x9\<close>; other instructions
  are not understood.
\<close>

definition mov_wide :: "u32 \<Rightarrow> u64 \<Rightarrow> u64 option" where
  "mov_wide w x9 =
     (let imm = ucast (take_bit 16 (drop_bit 5 w)) :: u64; sh = 16 * unat (take_bit 2 (drop_bit 21 w)) in
      if drop_bit 23 w = 0x1a5 \<and> take_bit 5 w = 9 then Some (push_bit sh imm)
      else if drop_bit 23 w = 0x1e5 \<and> take_bit 5 w = 9 then
        Some ((x9 AND NOT (push_bit sh (mask 16))) OR push_bit sh imm)
      else None)"

text \<open>Three such instructions and \<open>br x9\<close> at \<open>a\<close>: the address control goes to.\<close>

definition branch_x9 :: "memory \<Rightarrow> u64 \<Rightarrow> ld_stop + u64" where
  "branch_x9 m a =
     rbind (load32 m a) (\<lambda>w0. rbind (load32 m (a + 4)) (\<lambda>w1.
     rbind (load32 m (a + 8)) (\<lambda>w2. rbind (load32 m (a + 12)) (\<lambda>w3.
       case Option.bind (mov_wide w0 0) (\<lambda>x. Option.bind (mov_wide w1 x) (mov_wide w2)) of
         Some x \<Rightarrow> if w3 = 0xd61f0120 then Inr x else Inl Segv
       | None \<Rightarrow> Inl Segv))))"

definition fields :: "u64 \<Rightarrow> u64 \<Rightarrow> u64 \<Rightarrow> u64 \<Rightarrow> u32" where
  "fields op hw q lo = ucast (push_bit 23 (take_bit 9 op) OR push_bit 21 (take_bit 2 hw) OR
     push_bit 5 (take_bit 16 q) OR take_bit 5 lo)"

lemma bit_fields:
  "bit (fields op hw q lo) n \<longleftrightarrow> n < 32 \<and>
     (23 \<le> n \<and> bit op (n - 23) \<or> 21 \<le> n \<and> n < 23 \<and> bit hw (n - 21) \<or>
      5 \<le> n \<and> n < 21 \<and> bit q (n - 5) \<or> n < 5 \<and> bit lo n)"
  by (auto simp: fields_def bit_unsigned_iff bit_or_iff bit_push_bit_iff bit_take_bit_iff
      dest: bit_imp_le_length)

lemma fields_parts:
  "drop_bit 23 (fields op hw q lo) = ucast (take_bit 9 op)"
  "take_bit 2 (drop_bit 21 (fields op hw q lo)) = ucast (take_bit 2 hw)"
  "take_bit 16 (drop_bit 5 (fields op hw q lo)) = ucast (take_bit 16 q)"
  "take_bit 5 (fields op hw q lo) = ucast (take_bit 5 lo)"
  by (rule bit_word_eqI;
      auto simp: bit_fields bit_unsigned_iff bit_take_bit_iff bit_drop_bit_eq add.commute
        less_diff_conv)+

lemma slot_words:
  "mov p = fields 0x1a5 0 p 9" "movk1 p = fields 0x1e5 1 (drop_bit 16 p) 9"
  "movk2 p = fields 0x1e5 2 (drop_bit 32 p) 9"
proof -
  have sh: "drop_bit 43 (push_bit 48 q) = push_bit 5 (take_bit 16 q)" for q :: u64
    by (rule bit_word_eqI) (auto simp: bit_drop_bit_eq bit_push_bit_iff bit_take_bit_iff)
  have c: "(0xd2800009 :: u64) = push_bit 23 (take_bit 9 0x1a5) OR push_bit 21 (take_bit 2 0) OR take_bit 5 9"
    "(0xf2a00009 :: u64) = push_bit 23 (take_bit 9 0x1e5) OR push_bit 21 (take_bit 2 1) OR take_bit 5 9"
    "(0xf2c00009 :: u64) = push_bit 23 (take_bit 9 0x1e5) OR push_bit 21 (take_bit 2 2) OR take_bit 5 9"
    by code_simp+
  show "mov p = fields 0x1a5 0 p 9" "movk1 p = fields 0x1e5 1 (drop_bit 16 p) 9"
    "movk2 p = fields 0x1e5 2 (drop_bit 32 p) 9"
    unfolding mov_def movk1_def movk2_def fields_def c sh by (simp_all only: or.assoc or.commute or.left_commute)
qed

lemma field_values:
  "ucast (take_bit 9 (0x1a5 :: u64)) = (0x1a5 :: u32)" "ucast (take_bit 9 (0x1e5 :: u64)) = (0x1e5 :: u32)"
  "ucast (take_bit 5 (9 :: u64)) = (9 :: u32)"
  "unat (ucast (take_bit 2 (0 :: u64)) :: u32) = 0" "unat (ucast (take_bit 2 (1 :: u64)) :: u32) = 1"
  "unat (ucast (take_bit 2 (2 :: u64)) :: u32) = 2" "(0x1e5 :: u32) \<noteq> 0x1a5"
  by code_simp+

lemma mov_wide_slot:
  "mov_wide (mov p) x = Some (take_bit 16 p)"
  "mov_wide (movk1 p) x =
     Some ((x AND NOT (push_bit 16 (mask 16))) OR push_bit 16 (take_bit 16 (drop_bit 16 p)))"
  "mov_wide (movk2 p) x =
     Some ((x AND NOT (push_bit 32 (mask 16))) OR push_bit 32 (take_bit 16 (drop_bit 32 p)))"
proof -
  have u: "(ucast (ucast (take_bit 16 q :: u64) :: u32) :: u64) = take_bit 16 q" for q
    by (rule bit_word_eqI) (auto simp: bit_unsigned_iff bit_take_bit_iff)
  show "mov_wide (mov p) x = Some (take_bit 16 p)"
    "mov_wide (movk1 p) x =
       Some ((x AND NOT (push_bit 16 (mask 16))) OR push_bit 16 (take_bit 16 (drop_bit 16 p)))"
    "mov_wide (movk2 p) x =
       Some ((x AND NOT (push_bit 32 (mask 16))) OR push_bit 32 (take_bit 16 (drop_bit 32 p)))"
    unfolding mov_wide_def slot_words fields_parts Let_def field_values u by simp_all
qed

lemma slot_branches:
  assumes "load_bytes m 16 a = Inr (slot p)"
  shows "branch_x9 m a = Inr (take_bit 48 p)"
proof -
  have l: "load_bytes m (length (slot p)) a = Inr (slot p)" using assms by (simp add: length_slot4)
  have w: "load32 m (a + of_nat k) = Inr v" if "take 4 (drop k (slot p)) = le_bytes 4 v" "k + 4 \<le> 16" for k v
  proof -
    have "load_bytes m 4 (a + of_nat k) = Inr (le_bytes 4 v)"
      by (rule load_slice [OF l that(1)]) (use that(2) in \<open>simp add: length_slot4\<close>)
    then show ?thesis by (simp add: load32_def word_of_le_le_bytes)
  qed
  have "load32 m (a + of_nat 0) = Inr (mov p)" by (rule w) (simp_all add: slot_def)
  moreover have "load32 m (a + of_nat 4) = Inr (movk1 p)" by (rule w) (simp_all add: slot_def)
  moreover have "load32 m (a + of_nat 8) = Inr (movk2 p)" by (rule w) (simp_all add: slot_def)
  moreover have "load32 m (a + of_nat 12) = Inr 0xd61f0120" by (rule w) (simp_all add: slot_def)
  moreover have "((take_bit 16 p AND NOT (push_bit 16 (mask 16))) OR push_bit 16 (take_bit 16 (drop_bit 16 p)))
      AND NOT (push_bit 32 (mask 16)) OR push_bit 32 (take_bit 16 (drop_bit 32 p)) = take_bit 48 p"
  proof (rule bit_word_eqI)
    fix n :: nat
    consider "n < 16" | "16 \<le> n" "n < 32" | "32 \<le> n" by linarith
    then show "bit (((take_bit 16 p AND NOT (push_bit 16 (mask 16))) OR push_bit 16 (take_bit 16 (drop_bit 16 p)))
        AND NOT (push_bit 32 (mask 16)) OR push_bit 32 (take_bit 16 (drop_bit 32 p))) n \<longleftrightarrow>
        bit (take_bit 48 p) n"
      by cases (auto simp: bit_or_iff bit_and_iff bit_not_iff bit_push_bit_iff bit_mask_iff
        bit_take_bit_iff bit_drop_bit_eq)
  qed
  ultimately show ?thesis by (simp add: branch_x9_def mov_wide_slot)
qed

section \<open>Theorems\<close>

text \<open>
  C37: \<open>parse_obj\<close> of the AArch64 loader with external functions: it succeeds, fills as many slots as
  were counted, and leaves the linked image.
\<close>

theorem parse_obj_arm_ext_links:
  assumes "os_ok env" "parse_tables env st = Inr st1" "is_object True st1 ob"
    and "num_ext_symbols st = 0" "curr_jmp_idx st = 0"
    and "e = pages_end (os_page env) (16 * externals (o_relocs ob))"
    and "all_pages env ob + e < 2 ^ 64"
    and "anon_addr env (of_nat (all_pages env ob + e)) = Inr a" "a mod os_page env = 0"
      "unmapped a (all_pages env ob + e) (mem st)"
    and "only_puts (o_relocs ob)"
    and "\<And>r. r \<in> set (o_relocs ob) \<Longrightarrow> good_ext (\<lambda>x. unat (x - a) < all_pages env ob + e)
      (place_at env ob a) (length (o_text ob)) r"
    and "fold (link_step patch_word slot 0 p (place_at env ob a) (a + of_nat (all_pages env ob)))
      (o_relocs ob) (0, o_text ob, replicate e 0) = (j, t, table)"
  shows "\<exists>st'. parse_obj p env st = Inr st' \<and>
    image env ob t a e (mem st) (mem st') \<and>
    load_bytes (mem st') e (a + of_nat (all_pages env ob)) = Inr table \<and>
    j = externals (o_relocs ob) \<and> num_ext_symbols st' = of_nat j \<and> curr_jmp_idx st' = of_nat j"
  unfolding parse_obj_def using assms by (rule arm_ext.parse_obj_ext_image)

definition called_bytes :: bytes where
  "called_bytes = [0x55, 0x90, 0x90, 0xe8] @ le_bytes 4 (0xbff :: u32) @ drop 8 text_bytes"

lemma link_example4:
  assumes "b Text_copy = 0x100000" "jt = 0x103000"
  shows "link_step patch_word slot 0 p b jt (example_reloc 283 0 (External nm)) (0, text_bytes, tab) =
    (1, called_bytes, array_write tab 0 (slot p))"
proof -
  have "call26_word 0x103000 0x100004 0 = 0xbff" by code_simp
  then show ?thesis
    by (simp add: link_step_def example_parts assms patch_word_def relocates_def new_word_def R_AARCH64_CALL26_def
        word_at_def array_write_def text_bytes_def called_bytes_def)
qed

lemma example_arm_setup:
  defines "e \<equiv> example_env 53 0 283 0" and "ob \<equiv> example_object 283 0 (External (lit ''puts''))"
    and "s \<equiv> loaded 53 0 283 0"
  shows "parse_tables e s = Inr (parsed s)" "is_object True (parsed s) ob"
    "num_ext_symbols s = 0" "curr_jmp_idx s = 0" "4096 = pages_end (os_page e) (16 * externals (o_relocs ob))"
proof -
  show "parse_tables e s = Inr (parsed s)" "is_object True (parsed s) ob"
    unfolding e_def ob_def s_def by (rule example_setup; simp)+
  show "num_ext_symbols s = 0" "curr_jmp_idx s = 0" by (simp_all add: s_def loaded_def fresh_def)
  have "externals (o_relocs ob) = 1" by (simp add: ob_def example_parts)
  then show "4096 = pages_end (os_page e) (16 * externals (o_relocs ob))"
    by (simp only:) (simp add: e_def pages_end_def)
qed

theorem parse_obj_arm_ext_links_witness:
  "\<exists>st'. parse_obj 0x401000 (example_env 53 0 283 0) (loaded 53 0 283 0) = Inr st' \<and>
    image (example_env 53 0 283 0) (example_object 283 0 (External (lit ''puts''))) called_bytes
      0x100000 4096 (mem (loaded 53 0 283 0)) (mem st') \<and> curr_jmp_idx st' = 1"
proof -
  let ?e = "example_env 53 0 283 0" and ?o = "example_object 283 0 (External (lit ''puts''))"
  have "fold (link_step patch_word slot 0 0x401000 (place_at ?e ?o 0x100000) (0x100000 + of_nat (all_pages ?e ?o)))
      (o_relocs ?o) (0, o_text ?o, replicate 4096 0) = (1, called_bytes, array_write (replicate 4096 0) 0 (slot 0x401000))"
    unfolding example_parts(1,2) fold_simps id_def
    by (rule link_example4) (simp_all only: place_at.simps(1) example_pages of_nat_numeral, simp)
  from parse_obj_arm_ext_links [where a = "0x100000" and p = "0x401000", OF env_fields(3) example_arm_setup _ _ _ _ _ _ this]
  show ?thesis
    by (auto simp: example_pages loaded_unmapped example_parts only_puts_def good_ext_def R_AARCH64_CALL26_def
        R_AARCH64_ADD_ABS_LO12_NC_def)
qed

text \<open>
  In a memory that holds the linked text and the jump table, the \<open>bl\<close> of an external relocation goes to the slot the
  relocation got, and the slot branches to the low 48 bits of the address of the function.
\<close>

lemma linked_bl_reaches:
  assumes fold: "fold (link_step patch_word slot 0 p b jt) (us @ r # vs) (0, xs, tab) = (j, t, table)"
    and site: "\<And>r'. r' \<in> set (us @ r # vs) \<Longrightarrow> relocates r' \<Longrightarrow> unat (rl_offset r') + 4 \<le> length xs"
    and size: "16 * externals (us @ r # vs) \<le> length tab"
    and r: "rl_type r = R_AARCH64_CALL26" "rl_target r = External nm" "rl_addend r = 0"
    and apart: "\<And>r'. r' \<in> set vs \<Longrightarrow> relocates r' \<Longrightarrow> apart r r'"
    and mem: "load_bytes m (length t) (b Text_copy) = Inr t" "load_bytes m (length table) jt = Inr table"
    and s: "s = jt + 16 * of_nat (externals us)" "q = b Text_copy + rl_offset r"
    and near: "(s - q) AND 3 = 0" "- (2 ^ 27) \<le> sint (s - q)" "sint (s - q) < 2 ^ 27"
  shows "rbind (load32 m q) (\<lambda>w. branch_x9 m (bl_target q w)) = Inr (take_bit 48 p)"
proof -
  have rel: "relocates r" using r(1) by (simp add: relocates_def)
  obtain ys where E: "take 16 (drop (16 * externals us) table) = slot p"
      "length t = length xs" "length table = length tab" "length ys = length xs"
    and w: "take 4 (drop (unat (rl_offset r)) t) = take 4 (drop (unat (rl_offset r)) (patch_word b s r ys))"
    using arm_slots.fold_link_external [OF fold site size rel r(2) apart] by (auto simp: length_slot4 s)
  let ?w = "call26_word s q (word_at ys (rl_offset r))"
  have "take 4 (drop (unat (rl_offset r)) (patch_word b s r ys)) = le_bytes 4 ?w"
  proof -
    have "unat (rl_offset r) + 4 \<le> length ys" using site rel E(4) by simp
    then show ?thesis using rel r(1,3) s(2)
      by (simp add: patch_word_def array_write_def min_def new_word_def)
  qed
  then have "load_bytes m 4 (b Text_copy + of_nat (unat (rl_offset r))) = Inr (le_bytes 4 ?w)"
    using site rel E(2) w by (intro load_slice [OF mem(1)]) auto
  then have call: "load32 m q = Inr ?w" by (simp add: load32_def s(2) word_of_le_le_bytes)
  have "bl_target q ?w = s" using near by (simp add: bl_target_call26)
  moreover have "externals (us @ r # vs) = externals us + Suc (externals vs)"
    using r(2) by (simp add: externals_def)
  then have "load_bytes m 16 (jt + of_nat (16 * externals us)) = Inr (slot p)"
    using size E(3) by (intro load_slice [OF mem(2) E(1)]) simp
  ultimately show ?thesis using slot_branches [of m s p] by (simp add: call s(1))
qed

text \<open>
  C38: calls to the host program reach it on AArch64. For an object as in the theorem above, with pages of at least
  four bytes and a block smaller than 128 MB: \<open>parse_obj\<close> succeeds, and in the memory it leaves the \<open>bl\<close> of
  every external call relocation (at a multiple of four, with addend 0, and no later relocation overwrites it) goes to a
  slot of the jump table, whose four instructions branch to the low 48 bits of the address of the function of the
  host program: to the function, for an address of user space.
\<close>

theorem external_bl_reaches:
  assumes "os_ok env" "parse_tables env st = Inr st1" "is_object True st1 ob"
    and "num_ext_symbols st = 0" "curr_jmp_idx st = 0"
    and e: "e = pages_end (os_page env) (16 * externals (o_relocs ob))"
    and small: "all_pages env ob + e < 2 ^ 27"
    and "anon_addr env (of_nat (all_pages env ob + e)) = Inr a" "a mod os_page env = 0"
      "unmapped a (all_pages env ob + e) (mem st)"
    and "only_puts (o_relocs ob)"
    and site: "\<And>r. r \<in> set (o_relocs ob) \<Longrightarrow> good_ext (\<lambda>x. unat (x - a) < all_pages env ob + e)
      (place_at env ob a) (length (o_text ob)) r"
    and rs: "o_relocs ob = us @ r # vs"
    and r: "rl_type r = R_AARCH64_CALL26" "rl_target r = External nm" "rl_addend r = 0"
    and apart: "\<And>r'. r' \<in> set vs \<Longrightarrow> relocates r' \<Longrightarrow> apart r r'"
    and four: "4 dvd unat (os_page env)" "4 dvd unat (rl_offset r)"
  shows "\<exists>st'. parse_obj p env st = Inr st' \<and>
    rbind (load32 (mem st') (a + rl_offset r)) (\<lambda>w. branch_x9 (mem st') (bl_target (a + rl_offset r) w)) =
      Inr (take_bit 48 p)"
proof -
  let ?n = "all_pages env ob"
  have fits: "?n + e < 2 ^ 64" using small by simp
  obtain j t table where F: "fold (link_step patch_word slot 0 p (place_at env ob a) (a + of_nat ?n))
      (us @ r # vs) (0, o_text ob, replicate e 0) = (j, t, table)" by (metis prod_cases3)
  have sites: "unat (rl_offset r') + 4 \<le> length (o_text ob)" if "r' \<in> set (us @ r # vs)" "relocates r'" for r'
    using site [of r'] that rs by (simp add: good_ext_def)
  have size: "16 * externals (us @ r # vs) \<le> e"
    unfolding e rs by (rule pages_end_ge) (rule os_page_nonzero [OF assms(1)])
  have lt: "length table = e"
    using arm_slots.fold_link_keeps [OF F] sites size by simp
  obtain st' where st': "parse_obj p env st = Inr st'" "image env ob t a e (mem st) (mem st')"
    "load_bytes (mem st') e (a + of_nat ?n) = Inr table"
    using arm_ext.parse_obj_ext_image [OF assms(1-6) fits assms(8-12) F [folded rs]]
    by (auto simp: parse_obj_def)
  let ?k = "externals us" and ?jt = "a + of_nat ?n"
  let ?d = "?n + 16 * ?k - unat (rl_offset r)"
  have k: "16 * ?k + 16 \<le> e" using size r(2) by (simp add: externals_def)
  have "length (o_text ob) \<le> ?n"
    unfolding all_pages_def text_pages_def
    using pages_end_ge [OF os_page_nonzero [OF assms(1)], of "length (o_text ob)"] by simp
  then have off: "unat (rl_offset r) + 4 \<le> ?n" using sites [of r] r(1) by (simp add: relocates_def)
  have d: "?jt + 16 * of_nat ?k - (a + rl_offset r) = (of_nat ?d :: u64)"
    "sint (?jt + 16 * of_nat ?k - (a + rl_offset r)) = int ?d"
    using slot_distance [of "rl_offset r" ?n 0 ?k a] off k small by simp_all
  have "?d < 2 ^ 27" using k small by linarith
  then have v: "0 \<le> int ?d" "int ?d < 2 ^ 27"
    by (metis of_nat_0_le_iff, metis of_nat_less_iff of_nat_numeral of_nat_power)
  have "4 dvd ?n"
    unfolding all_pages_def page_counts by (intro dvd_add) (rule dvd_trans [OF four(1) pages_end_mult])+
  then have "4 dvd ?d" using four(2) by (intro dvd_diff_nat dvd_add) simp_all
  then have al: "(of_nat ?d :: u64) AND 3 = 0"
    by (rule multiple_of_four)
  have m: "load_bytes (mem st') (length t) (place_at env ob a Text_copy) = Inr t"
    using st'(2) by (simp add: image_def)
  have "rbind (load32 (mem st') (a + rl_offset r)) (\<lambda>w. branch_x9 (mem st') (bl_target (a + rl_offset r) w)) =
      Inr (take_bit 48 p)"
  proof (rule linked_bl_reaches [OF F sites _ r apart m _ refl])
    show "16 * externals (us @ r # vs) \<le> length (replicate e (0 :: u8))" using size by simp
    show "load_bytes (mem st') (length table) ?jt = Inr table" using st'(3) lt by simp
    show "(?jt + 16 * of_nat ?k - (a + rl_offset r)) AND 3 = 0" unfolding d(1) by (rule al)
    show "- (2 ^ 27) \<le> sint (?jt + 16 * of_nat ?k - (a + rl_offset r))"
      "sint (?jt + 16 * of_nat ?k - (a + rl_offset r)) < 2 ^ 27"
      using v unfolding d(2) by linarith+
  qed simp_all
  then show ?thesis using st'(1) by blast
qed

theorem external_bl_reaches_witness:
  "\<exists>st'. parse_obj 0x401000 (example_env 53 0 283 0) (loaded 53 0 283 0) = Inr st' \<and>
    rbind (load32 (mem st') 0x100004) (\<lambda>w. branch_x9 (mem st') (bl_target 0x100004 w)) = Inr (take_bit 48 0x401000)"
  using external_bl_reaches [where a = "0x100000" and p = "0x401000" and us = "[]" and vs = "[]" and
      r = "example_reloc 283 0 (External (lit ''puts''))" and nm = "lit ''puts''", OF env_fields(3) example_arm_setup]
  by (auto simp: example_pages loaded_unmapped example_parts only_puts_def good_ext_def R_AARCH64_CALL26_def
      R_AARCH64_ADD_ABS_LO12_NC_def)

end
