(* ===== verification/Mmdist_Input.thy ===== *)
theory Mmdist_Input
  imports Prelude
begin

text \<open>
  The input side of \<open>2020-12-mmdist\<close>: \<open>to_hex\<close> and the generator of test data (\<open>generate.c\<close>),
  \<open>parse_hex\<close> and \<open>mmdist_load\<close> (\<open>utils.c\<close>), and \<open>fgets\<close>, by which every search program reads
  its queries.

  The theorems: \<open>parse_hex\<close> reads back what \<open>to_hex\<close> writes, and \<open>mmdist_load\<close> the vectors the
  generator wrote; what \<open>mmdist_load\<close> makes of any file; \<open>parse_hex\<close> never reads behind the end of a C string,
  whatever it holds. The products \<open>item * 289\<close> and \<open>144 * items\<close> are of type \<open>int\<close> in the code and numbers here: the
  model is that of files smaller than 2 GB.
\<close>

unbundle bit_operations_syntax

section \<open>Hexadecimal digits\<close>

text \<open>How a program stops: a read behind the mapped memory, a division by zero, \<open>exit\<close>.\<close>

datatype md_stop = Overrun | Fpe | Quit int

definition HEX :: bytes where
  "HEX = [48, 49, 50, 51, 52, 53, 54, 55, 56, 57, 97, 98, 99, 100, 101, 102]"

text \<open>The loop of \<open>to_hex\<close>, then the terminator: the bytes written to \<open>dst\<close>.\<close>

fun hex_loop :: "bytes \<Rightarrow> nat \<Rightarrow> bytes" where
  "hex_loop src 0 = []"
| "hex_loop [] (Suc n) = []"
| "hex_loop (c # src) (Suc n) =
     HEX ! unat (drop_bit 4 c AND 0xf) # HEX ! unat (c AND 0xf) # hex_loop src n"

definition to_hex :: "bytes \<Rightarrow> nat \<Rightarrow> bytes" where
  "to_hex src sz = hex_loop src sz @ [0]"

text \<open>\<open>BRANCHLESS_IF_ELSE\<close>: the masks are all ones or zero.\<close>

definition branchless :: "bool \<Rightarrow> u32 \<Rightarrow> u32 \<Rightarrow> u32" where
  "branchless f x y = (x AND - of_bool f) OR (y AND - of_bool (\<not> f))"

definition hex_value :: "u8 \<Rightarrow> u32" where
  "hex_value a =
     branchless (48 \<le> a \<and> a \<le> 57) (ucast a - 48)
       (branchless (97 \<le> a \<and> a \<le> 102) (ucast a - 97 + 10) 0x100)"

text \<open>\<open>uint8_t a = ' '; while (a == ' ') a = *src++;\<close> with the bytes of memory from \<open>src\<close> on.\<close>

fun skip_spaces :: "bytes \<Rightarrow> md_stop + (u8 \<times> bytes)" where
  "skip_spaces [] = Inl Overrun"
| "skip_spaces (c # src) = (if c = 32 then skip_spaces src else Inr (c, src))"

text \<open>
  The loop of \<open>parse_hex\<close>: \<open>n\<close> bytes are written, \<open>k\<close> are left; the result is the returned value
  and the bytes written from here on.
\<close>

fun parse_loop :: "nat \<Rightarrow> int \<Rightarrow> bytes \<Rightarrow> md_stop + (int \<times> bytes)" where
  "parse_loop 0 n src = Inr (n, [])"
| "parse_loop (Suc k) n src =
     rbind (skip_spaces src) (\<lambda>(a, src).
       if a = 0 then Inr (n, [])
       else rbind (skip_spaces src) (\<lambda>(b, src).
         if b = 0 then Inr (-1, [])
         else
           (let a1 = hex_value (a OR 0x20); b1 = hex_value (b OR 0x20) in
            if a1 = 0x100 \<or> b1 = 0x100 then Inr (-2, [])
            else rbind (parse_loop k (n + 1) src) (\<lambda>(r, out).
              Inr (r, ucast (push_bit 4 a1 OR b1) # out)))))"

definition parse_hex :: "bytes \<Rightarrow> nat \<Rightarrow> md_stop + (int \<times> bytes)" where
  "parse_hex src n = parse_loop n 0 src"

section \<open>Reading the queries\<close>

text \<open>\<open>fgets\<close>: up to \<open>n - 1\<close> bytes, to the end of the line; \<open>None\<close> at the end of the input.\<close>

fun take_line :: "nat \<Rightarrow> bytes \<Rightarrow> bytes \<times> bytes" where
  "take_line 0 s = ([], s)"
| "take_line (Suc n) [] = ([], [])"
| "take_line (Suc n) (c # s) =
     (if c = 10 then ([c], s) else (let (l, r) = take_line n s in (c # l, r)))"

definition fgets :: "nat \<Rightarrow> bytes \<Rightarrow> (bytes \<times> bytes) option" where
  "fgets n s = (if s = [] then None else Some (take_line (n - 1) s))"

text \<open>
  A query: a line of at most 1023 bytes, its terminator and what the array held before; \<open>None\<close> at
  the end of the input. A line that has not exactly 288 digits in front stops the program.
\<close>

definition read_query :: "bytes \<Rightarrow> bytes \<Rightarrow> md_stop + (bytes \<times> bytes) option" where
  "read_query old s =
     (case fgets 1024 s of
        None \<Rightarrow> Inr None
      | Some (line, s) \<Rightarrow>
          rbind (parse_hex (line @ 0 # old) 144) (\<lambda>(r, query).
            if r \<noteq> 144 then Inl (Quit (-1)) else Inr (Some (query, s))))"

section \<open>The database\<close>

text \<open>
  The environment of \<open>mmdist_load\<close>: the results of \<open>open\<close>, \<open>fstat\<close>, \<open>mmap\<close> (the error numbers they
  leave, 0 if they leave none) and \<open>calloc\<close>, the file, the size of a page.
\<close>

record load_env =
  open_err :: "int option"
  stat_err :: "int option"
  map_err :: "int option"
  file_bytes :: bytes
  alloc_ok :: bool
  page_bytes :: nat

definition RECORD :: nat where "RECORD = 144 * 2 + 1"

definition error_or :: "int \<Rightarrow> int" where
  "error_or e = (if e \<noteq> 0 then e else 22)"

text \<open>The mapped file: zeros up to the end of its last page.\<close>

definition file_mem :: "load_env \<Rightarrow> bytes" where
  "file_mem env = file_bytes env @
     replicate ((page_bytes env - length (file_bytes env) mod page_bytes env) mod page_bytes env) 0"

text \<open>One record: what \<open>parse_hex\<close> does not write is zero; its result is not looked at.\<close>

definition load_item :: "bytes \<Rightarrow> nat \<Rightarrow> md_stop + bytes" where
  "load_item m item =
     rbind (parse_hex (drop (item * RECORD) m) 144) (\<lambda>(r, out).
       Inr (out @ replicate (144 - length out) 0))"

fun load_items :: "bytes \<Rightarrow> nat \<Rightarrow> nat \<Rightarrow> md_stop + bytes list" where
  "load_items m item 0 = Inr []"
| "load_items m item (Suc k) =
     rbind (load_item m item) (\<lambda>h. rbind (load_items m (item + 1) k) (\<lambda>hs. Inr (h # hs)))"

text \<open>\<open>Inr (Inl e)\<close>: the function returns the error number \<open>e\<close>; \<open>Inr (Inr hashes)\<close>: it returns 0.\<close>

definition mmdist_load :: "load_env \<Rightarrow> md_stop + int + bytes list" where
  "mmdist_load env =
     (case open_err env of Some e \<Rightarrow> Inr (Inl (error_or e)) | None \<Rightarrow>
      case stat_err env of Some e \<Rightarrow> Inr (Inl (error_or e)) | None \<Rightarrow>
      if length (file_bytes env) mod RECORD \<noteq> 0 then Inr (Inl 90)
      else if file_bytes env = [] then Inr (Inl 22)
      else case map_err env of Some e \<Rightarrow> Inr (Inl (error_or e)) | None \<Rightarrow>
      if \<not> alloc_ok env then Inr (Inl 12)
      else rbind (load_items (file_mem env) 0 (length (file_bytes env) div RECORD))
        (\<lambda>hashes. Inr (Inr hashes)))"


section \<open>Digits\<close>

lemma branchless_if: "branchless f x y = (if f then x else y)"
  by (simp add: branchless_def)

lemma hex_value_cases:
  "hex_value a = (if 48 \<le> a \<and> a \<le> 57 then ucast a - 48
     else if 97 \<le> a \<and> a \<le> 102 then ucast a - 97 + 10 else 0x100)"
  by (simp add: hex_value_def branchless_if)

text \<open>The digits of a byte are read back: all 16 values of each half.\<close>

lemma hex_digit:
  assumes "k < 16"
  shows "hex_value (HEX ! k OR 0x20) = of_nat k" "HEX ! k \<noteq> 0" "HEX ! k \<noteq> 32" "HEX ! k \<noteq> 10"
proof -
  have "k \<in> set [0..<16]" using assms by simp
  moreover have "\<forall>k\<in>set [0..<16]. hex_value (HEX ! k OR 0x20) = of_nat k \<and>
      HEX ! k \<noteq> 0 \<and> HEX ! k \<noteq> 32 \<and> HEX ! k \<noteq> 10"
    by code_simp
  ultimately show "hex_value (HEX ! k OR 0x20) = of_nat k" "HEX ! k \<noteq> 0" "HEX ! k \<noteq> 32" "HEX ! k \<noteq> 10"
    by blast+
qed

lemma length_hex_loop: "n \<le> length src \<Longrightarrow> length (hex_loop src n) = 2 * n"
  by (induction src n rule: hex_loop.induct) simp_all

lemma nibble: "unat (c AND 0xf :: u8) < 16" "unat (drop_bit 4 c AND 0xf :: u8) < 16"
proof -
  have "unat (x AND 0xf :: u8) \<le> unat (0xf :: u8)" for x by (rule and_le_mask_right)
  moreover have "unat (0xf :: u8) < 16" by simp
  ultimately have "unat (x AND 0xf :: u8) < 16" for x by (rule le_less_trans)
  then show "unat (c AND 0xf :: u8) < 16" "unat (drop_bit 4 c AND 0xf :: u8) < 16" by blast+
qed

lemma join_nibbles:
  "ucast (push_bit 4 (ucast (drop_bit 4 c AND 0xf :: u8) :: u32) OR ucast (c AND 0xf)) = c"
proof -
  have m: "(0xf :: u8) = mask 4" by (simp add: mask_eq_exp_minus_1)
  show ?thesis
    unfolding m by (rule bit_word_eqI) (auto simp: bit_simps)
qed

lemma nibble_value: "(ucast (x :: u8) :: u32) \<noteq> 0x100"
proof
  assume "(ucast x :: u32) = 0x100"
  then have "unat (ucast x :: u32) = unat (0x100 :: u32)" by simp
  then show False using unat_less_exp [of x] by (simp add: unsigned_ucast_eq take_bit_nat_eq_self)
qed

lemma parse_hex_loop:
  "n \<le> length src \<Longrightarrow> parse_loop n m (hex_loop src n @ rest) = Inr (m + int n, take n src)"
proof (induction src n arbitrary: m rule: hex_loop.induct)
  case (3 c src n)
  note h = hex_digit [OF nibble(1) [of c]] hex_digit [OF nibble(2) [of c]]
  show ?case using 3 by (simp add: h nibble_value join_nibbles Let_def)
qed simp_all

lemma skip_spaces_total:
  "0 \<in> set src \<Longrightarrow> \<exists>c rest. skip_spaces src = Inr (c, rest) \<and> (c \<noteq> 0 \<longrightarrow> 0 \<in> set rest)"
  by (induction src) auto

lemma skip_spaces_nul:
  "skip_spaces (xs @ 0 # ys) = (case skip_spaces (xs @ [0]) of
     Inl e \<Rightarrow> Inl e
   | Inr (c, rest) \<Rightarrow> Inr (c, rest @ ys))"
  by (induction xs) auto

lemma skip_spaces_end:
  "skip_spaces (xs @ [0]) = Inr (c, rest) \<Longrightarrow> c \<noteq> 0 \<Longrightarrow> \<exists>zs. rest = zs @ [0]"
  by (induction xs) (auto split: if_splits)

lemma parse_loop_total:
  "0 \<in> set src \<Longrightarrow> \<exists>r out. parse_loop k n src = Inr (r, out)"
proof (induction k arbitrary: n src)
  case (Suc k)
  obtain a s1 where a: "skip_spaces src = Inr (a, s1)" "a \<noteq> 0 \<longrightarrow> 0 \<in> set s1"
    using skip_spaces_total [OF Suc.prems] by blast
  show ?case
  proof (cases "a = 0")
    case False
    then obtain b s2 where b: "skip_spaces s1 = Inr (b, s2)" "b \<noteq> 0 \<longrightarrow> 0 \<in> set s2"
      using skip_spaces_total a(2) by blast
    then show ?thesis
      using Suc.IH [of s2 "n + 1"] a(1) False by (cases "b = 0") (auto simp: Let_def)
  qed (simp add: a)
qed simp

lemma parse_loop_nul: "parse_loop k n (xs @ 0 # ys) = parse_loop k n (xs @ [0])"
proof (induction k arbitrary: n xs)
  case (Suc k)
  show ?case
  proof (cases "skip_spaces (xs @ [0])")
    case (Inl e)
    then show ?thesis using skip_spaces_nul [of xs ys] by simp
  next
    case (Inr p)
    obtain a s1 where p: "p = (a, s1)" by (cases p)
    show ?thesis
    proof (cases "a = 0")
      case True
      then show ?thesis using Inr p skip_spaces_nul [of xs ys] by simp
    next
      case False
      then obtain zs where s1: "s1 = zs @ [0]" using skip_spaces_end Inr p by blast
      have 1: "skip_spaces (xs @ 0 # ys) = Inr (a, zs @ 0 # ys)"
        using Inr p False s1 skip_spaces_nul [of xs ys] by simp
      show ?thesis
      proof (cases "skip_spaces (zs @ [0])")
        case (Inl e)
        then show ?thesis using 1 Inr p s1 skip_spaces_nul [of zs ys] by simp
      next
        case i2: (Inr p2)
        obtain b s2 where p2: "p2 = (b, s2)" by (cases p2)
        show ?thesis
        proof (cases "b = 0")
          case True
          then show ?thesis using 1 Inr p s1 i2 p2 False skip_spaces_nul [of zs ys] by (simp add: Let_def)
        next
          case nb: False
          then obtain us where s2: "s2 = us @ [0]" using skip_spaces_end i2 p2 by blast
          have "skip_spaces (zs @ 0 # ys) = Inr (b, us @ 0 # ys)"
            using i2 p2 nb s2 skip_spaces_nul [of zs ys] by simp
          then show ?thesis
            using 1 Inr p s1 i2 p2 False nb s2 Suc.IH [of "n + 1" us] by (simp add: Let_def)
        qed
      qed
    qed
  qed
qed simp

lemma parse_loop_result:
  "parse_loop k n src = Inr (r, out) \<Longrightarrow>
     length out \<le> k \<and> (r = - 1 \<or> r = - 2 \<or> r = n + int (length out)) "
proof (induction k arbitrary: n src r out)
  case (Suc k)
  then show ?case
    by (auto simp: rbind_eq_Inr_iff Let_def split: if_splits dest!: Suc.IH)
qed simp

section \<open>The database of generated lines\<close>





lemma load_item_length: "load_item m item = Inr h \<Longrightarrow> length h = 144"
  by (auto simp: load_item_def parse_hex_def rbind_eq_Inr_iff dest!: parse_loop_result)

lemma load_items_shape:
  "load_items m item k = Inr hs \<Longrightarrow> length hs = k \<and> (\<forall>h\<in>set hs. length h = 144)"
  by (induction k arbitrary: item hs) (auto simp: rbind_eq_Inr_iff dest: load_item_length)



section \<open>Theorems\<close>

text \<open>
  \<open>parse_hex\<close> undoes \<open>to_hex\<close>: it returns the number of bytes and the bytes, whatever memory
  follows; the string has two digits for each byte.
\<close>

theorem parse_hex_to_hex:
  assumes "n \<le> length src"
  shows "parse_hex (to_hex src n @ rest) n = Inr (int n, take n src) \<and>
    length (to_hex src n) = 2 * n + 1"
  using parse_hex_loop [OF assms, of 0 "0 # rest"] assms
  by (simp add: parse_hex_def to_hex_def length_hex_loop)

theorem parse_hex_to_hex_witness:
  "parse_hex (to_hex [0x0f, 0xa0] 2 @ [7]) 2 = Inr (2, [0x0f, 0xa0]) \<and> to_hex [0x0f, 0xa0] 2 = [48, 102, 97, 48, 0]"
proof
  show "parse_hex (to_hex [0x0f, 0xa0] 2 @ [7]) 2 = Inr (2, [0x0f, 0xa0])"
    using parse_hex_to_hex [of 2 "[0x0f, 0xa0]" "[7]"] by simp
  show "to_hex [0x0f, 0xa0] 2 = [48, 102, 97, 48, 0]" by code_simp
qed

text \<open>
  \<open>parse_hex\<close> on a C string: it never reads behind the terminator, writes at most \<open>n\<close> bytes, and
  returns their number or an error.
\<close>

theorem parse_hex_in_string:
  "\<exists>r out. parse_hex (s @ 0 # behind) n = Inr (r, out) \<and> parse_hex (s @ [0]) n = Inr (r, out) \<and>
    length out \<le> n \<and> r \<in> {- 1, - 2, int (length out)}"
proof -
  obtain r out where "parse_loop n 0 (s @ [0]) = Inr (r, out)"
    using parse_loop_total [of "s @ [0]" n 0] by auto
  then show ?thesis
    using parse_loop_result [of n 0 "s @ [0]" r out] parse_loop_nul [of n 0 s behind]
    by (auto simp: parse_hex_def)
qed

text \<open>The two cases of the bit \<open>0x20\<close>, by the upper three bits.\<close>

lemma digit_ranges:
  assumes "c < (256 :: nat)"
  shows "(48 \<le> (if odd (c div 32) then c else c + 32) \<and> (if odd (c div 32) then c else c + 32) \<le> 57 \<or>
      97 \<le> (if odd (c div 32) then c else c + 32) \<and> (if odd (c div 32) then c else c + 32) \<le> 102) \<longleftrightarrow>
    16 \<le> c \<and> c \<le> 25 \<or> 48 \<le> c \<and> c \<le> 57 \<or> 65 \<le> c \<and> c \<le> 70 \<or> 97 \<le> c \<and> c \<le> 102"
proof -
  have c: "c = 32 * (c div 32) + c mod 32" "c mod 32 < 32" by simp_all
  have "c div 32 < 8" using assms by simp
  then consider "c div 32 = 0" | "c div 32 = 1" | "c div 32 = 2" | "c div 32 = 3" | "4 \<le> c div 32"
    by linarith
  then show ?thesis by cases (use c in auto)
qed

text \<open>
  The digits \<open>parse_hex\<close> accepts: besides \<open>0-9\<close>, \<open>a-f\<close> and \<open>A-F\<close> also the ten control characters
  from \<open>0x10\<close> on, because the bit \<open>0x20\<close> is set before the comparisons.
\<close>

theorem hex_value_digits:
  "hex_value (c OR 0x20) \<noteq> 0x100 \<longleftrightarrow>
     (0x10 \<le> c \<and> c \<le> 0x19) \<or> (0x30 \<le> c \<and> c \<le> 0x39) \<or> (0x41 \<le> c \<and> c \<le> 0x46) \<or> (0x61 \<le> c \<and> c \<le> 0x66)"
proof -
  let ?x = "c OR 0x20"
  have big: "(ucast ?x :: u32) - 48 \<noteq> 0x100" "(ucast ?x :: u32) - 97 + 10 \<noteq> 0x100"
  proof -
    have "(ucast ?x :: u32) \<noteq> 0x130" "(ucast ?x :: u32) \<noteq> 0x157"
      using unat_less_exp [of ?x] by (auto dest!: arg_cong [of _ _ unat] simp: unsigned_ucast_eq take_bit_nat_eq_self)
    moreover have "w - 48 = 0x100 \<Longrightarrow> w = 0x130" "w - 97 + 10 = 0x100 \<Longrightarrow> w = 0x157" for w :: u32
      using arg_cong [of "w - 48" "0x100" "\<lambda>v. v + 48"] arg_cong [of "w - 97 + 10" "0x100" "\<lambda>v. v + 87"]
      by simp_all
    ultimately show "(ucast ?x :: u32) - 48 \<noteq> 0x100" "(ucast ?x :: u32) - 97 + 10 \<noteq> 0x100"
      by blast+
  qed
  have x: "unat ?x = (if odd (unat c div 32) then unat c else unat c + 32)"
  proof -
    have e: "(0x20 :: u8) = 2 ^ 5" "(32 :: nat) = 2 ^ 5" by simp_all
    have b: "bit (unat c) 5 \<longleftrightarrow> odd (unat c div 32)" by (simp add: bit_iff_odd)
    have "unat ?x = unat c OR 2 ^ 5" by (simp add: unsigned_or_eq)
    also have "\<dots> = (if bit (unat c) 5 then unat c else unat c + 2 ^ 5)"
    proof (cases "bit (unat c) 5")
      case True
      then have "unat c OR 2 ^ 5 = unat c"
        by (intro bit_eqI, simp only: bit_or_iff bit_exp_iff) auto
      then show ?thesis using True by simp
    next
      case False
      then have "unat c + 2 ^ 5 = unat c OR 2 ^ 5"
        by (intro disjunctive_add, simp only: bit_exp_iff) auto
      then show ?thesis using False by simp
    qed
    finally show ?thesis using b by simp
  qed
  have "hex_value ?x \<noteq> 0x100 \<longleftrightarrow> 48 \<le> unat ?x \<and> unat ?x \<le> 57 \<or> 97 \<le> unat ?x \<and> unat ?x \<le> 102"
    using big by (auto simp: hex_value_cases word_le_nat_alt)
  also have "\<dots> \<longleftrightarrow> 16 \<le> unat c \<and> unat c \<le> 25 \<or> 48 \<le> unat c \<and> unat c \<le> 57 \<or>
      65 \<le> unat c \<and> unat c \<le> 70 \<or> 97 \<le> unat c \<and> unat c \<le> 102"
    unfolding x by (rule digit_ranges) (use unat_less_exp [of c] in simp)
  finally show ?thesis by (simp add: word_le_nat_alt)
qed




lemma load_shape:
  assumes "mmdist_load env = Inr (Inr hs)"
  shows "length (file_bytes env) = 289 * length hs \<and> hs \<noteq> [] \<and> (\<forall>h\<in>set hs. length h = 144)"
proof -
  have c: "length (file_bytes env) mod RECORD = 0" "file_bytes env \<noteq> []"
    and l: "load_items (file_mem env) 0 (length (file_bytes env) div RECORD) = Inr hs"
    using assms by (auto simp: mmdist_load_def rbind_eq_Inr_iff split: option.splits if_splits)
  then have "length (file_bytes env) = RECORD * length hs"
    using load_items_shape [OF l] by auto
  then show ?thesis using c load_items_shape [OF l] by (auto simp: RECORD_def)
qed

text \<open>
  What a record of any file means, apart from the code: the characters that are not spaces, in pairs of digits, as
  long as both are digits; at most 144 bytes, and zeros behind them.
\<close>

definition digit :: "u8 \<Rightarrow> nat option" where
  "digit c =
     (if 0x30 \<le> c \<and> c \<le> 0x39 then Some (unat c - 0x30)
      else if 0x41 \<le> c \<and> c \<le> 0x46 then Some (unat c - 0x41 + 10)
      else if 0x61 \<le> c \<and> c \<le> 0x66 then Some (unat c - 0x61 + 10)
      else if 0x10 \<le> c \<and> c \<le> 0x19 then Some (unat c - 0x10)
      else None)"

fun pairs :: "nat \<Rightarrow> bytes \<Rightarrow> bytes" where
  "pairs (Suc k) (a # b # s) =
     (case (digit a, digit b) of (Some x, Some y) \<Rightarrow> of_nat (16 * x + y) # pairs k s | _ \<Rightarrow> [])"
| "pairs _ _ = []"

definition record_vector :: "bytes \<Rightarrow> nat \<Rightarrow> bytes" where
  "record_vector file i =
     (let v = pairs 144 (filter (\<lambda>c. c \<noteq> 32) (drop (289 * i) file)) in v @ replicate (144 - length v) 0)"

lemma hex_value_digit: "hex_value (c OR 0x20) = (case digit c of Some k \<Rightarrow> of_nat k | None \<Rightarrow> 0x100)"
proof -
  have "\<forall>n\<in>set [0..<256]. hex_value (of_nat n OR 0x20) = (case digit (of_nat n) of Some k \<Rightarrow> of_nat k | None \<Rightarrow> 0x100)"
    by code_simp
  from bspec [OF this, of "unat c"] show ?thesis using unat_less_exp [of c] by simp
qed

lemma digit_less: "digit c = Some k \<Longrightarrow> k < 16"
  by (auto simp: digit_def word_le_nat_alt split: if_splits)

lemma digit_join:
  assumes "digit a = Some x" "digit b = Some y"
  shows "ucast (push_bit 4 (of_nat x :: u32) OR of_nat y) = (of_nat (16 * x + y) :: u8)"
proof -
  have "\<forall>x\<in>set [0..<16]. \<forall>y\<in>set [0..<16]. ucast (push_bit 4 (of_nat x :: u32) OR of_nat y) = (of_nat (16 * x + y) :: u8)"
    by code_simp
  then show ?thesis using digit_less [OF assms(1)] digit_less [OF assms(2)] by simp
qed

lemma digit_small: "digit c = Some k \<Longrightarrow> (of_nat k :: u32) \<noteq> 0x100"
proof
  assume "digit c = Some k" and e: "(of_nat k :: u32) = 0x100"
  then have "k < 16" using digit_less by blast
  then have "unat (of_nat k :: u32) = k" by (simp add: unat_of_nat take_bit_nat_eq_self)
  then show False using e \<open>k < 16\<close> by simp
qed

lemma skip_spaces_filter:
  "skip_spaces src = Inr (c, rest) \<Longrightarrow> filter (\<lambda>c. c \<noteq> 32) src = c # filter (\<lambda>c. c \<noteq> 32) rest"
  by (induction src) (auto split: if_splits)

lemma digit_0 [simp]: "digit 0 = None"
  by (simp add: digit_def)

lemma pairs_0 [simp]: "pairs k (0 # s) = []" "pairs k (a # 0 # s) = []"
  by (cases k; cases s; simp split: option.splits)+

lemma parse_loop_pairs:
  "parse_loop k n src = Inr (r, out) \<Longrightarrow> out = pairs k (filter (\<lambda>c. c \<noteq> 32) src)"
proof (induction k arbitrary: n src r out)
  case (Suc k)
  obtain a s1 where a: "skip_spaces src = Inr (a, s1)" using Suc.prems by (auto simp: rbind_eq_Inr_iff)
  note fa = skip_spaces_filter [OF a]
  show ?case
  proof (cases "a = 0")
    case True
    then show ?thesis using Suc.prems a fa by simp
  next
    case na: False
    obtain b s2 where b: "skip_spaces s1 = Inr (b, s2)" using Suc.prems a na by (auto simp: rbind_eq_Inr_iff)
    note fb = skip_spaces_filter [OF b]
    show ?thesis
    proof (cases "b = 0")
      case True
      then show ?thesis using Suc.prems a na b fa fb by simp
    next
      case nb: False
      show ?thesis
      proof (cases "digit a = None \<or> digit b = None")
        case True
        then show ?thesis
          using Suc.prems a na b nb fa fb by (auto simp: hex_value_digit Let_def split: option.splits if_splits)
      next
        case False
        then obtain x y where d: "digit a = Some x" "digit b = Some y" by auto
        then obtain out' where "parse_loop k (n + 1) s2 = Inr (r, out')" "out = of_nat (16 * x + y) # out'"
          using Suc.prems a na b nb digit_small digit_join
          by (auto simp: hex_value_digit Let_def rbind_eq_Inr_iff)
        then show ?thesis using Suc.IH fa fb d by simp
      qed
    qed
  qed
qed simp

lemma pairs_zeros: "pairs k (s @ replicate n 0) = pairs k s"
proof (induction k arbitrary: s)
  case (Suc k)
  consider "s = []" | a where "s = [a]" | a b s' where "s = a # b # s'" by (cases s rule: remdups_adj.cases) auto
  then show ?case
  proof cases
    case 1
    then show ?thesis by (cases n) simp_all
  next
    case (2 a)
    then show ?thesis by (cases n) simp_all
  next
    case (3 a b s')
    then show ?thesis using Suc.IH [of s'] by (simp split: option.splits)
  qed
qed simp

lemma load_item_vector:
  assumes "load_item (file @ replicate n 0) i = Inr h" "289 * i \<le> length file"
  shows "h = record_vector file i"
  using assms parse_loop_pairs [of 144 0 "drop (289 * i) file @ replicate n 0"]
  by (auto simp: load_item_def parse_hex_def record_vector_def RECORD_def rbind_eq_Inr_iff pairs_zeros mult.commute Let_def)

lemma load_items_vectors:
  assumes "load_items (file @ replicate n 0) i k = Inr hs" "289 * (i + k) \<le> length file"
  shows "hs = map (record_vector file) [i..<i + k]"
  using assms
proof (induction k arbitrary: i hs)
  case (Suc k)
  then obtain h hs' where h: "load_item (file @ replicate n 0) i = Inr h"
    "load_items (file @ replicate n 0) (i + 1) k = Inr hs'" "hs = h # hs'" by (auto simp: rbind_eq_Inr_iff)
  then have "h = record_vector file i" using load_item_vector Suc.prems(2) by simp
  moreover have "hs' = map (record_vector file) [i + 1..<(i + 1) + k]" using Suc.IH [OF h(2)] Suc.prems(2) by simp
  moreover have "[i..<i + Suc k] = i # [i + 1..<(i + 1) + k]" using upt_conv_Cons [of i "i + Suc k"] by simp
  ultimately show ?case using h(3) by (simp only: list.map)
qed simp

lemma skip_spaces_stop: "skip_spaces src = Inl e \<Longrightarrow> e = Overrun"
  by (induction src) (auto split: if_splits)

lemma parse_loop_stop: "parse_loop k n src = Inl e \<Longrightarrow> e = Overrun"
proof (induction k arbitrary: n src)
  case (Suc k)
  then show ?case
    by (auto simp: rbind_def Let_def split: sum.splits if_splits prod.splits dest: skip_spaces_stop)
qed simp

lemma load_items_overrun: "load_items m i k = Inl e \<Longrightarrow> e = Overrun"
  by (induction k arbitrary: i)
    (auto simp: rbind_def load_item_def parse_hex_def split: sum.splits prod.splits dest: parse_loop_stop)

lemma load_items_stop:
  "load_items m i k = Inl e \<Longrightarrow> e = Overrun \<and> (\<exists>j. i \<le> j \<and> j < i + k \<and> 0 \<notin> set (drop (j * RECORD) m))"
proof (induction k arbitrary: i)
  case (Suc k)
  show ?case
  proof (cases "0 \<in> set (drop (i * RECORD) m)")
    case True
    then obtain h where "load_item m i = Inr h" using parse_loop_total [OF True, of 144 0] by (auto simp: load_item_def parse_hex_def)
    then have "load_items m (i + 1) k = Inl e" using Suc.prems by (auto simp: rbind_def split: sum.splits)
    then obtain j where "e = Overrun" "i + 1 \<le> j" "j < (i + 1) + k" "0 \<notin> set (drop (j * RECORD) m)"
      using Suc.IH [of "i + 1"] by blast
    then show ?thesis by (intro conjI exI [of _ j]) simp_all
  next
    case False
    then show ?thesis using load_items_overrun [OF Suc.prems] by auto
  qed
qed simp

text \<open>
  C40: what \<open>mmdist_load\<close> makes of any file smaller than 2 GB (behind that \<open>item * 289\<close> leaves the \<open>int\<close>), whatever
  its records hold, when the calls succeed and the size is a multiple of 289: for each record the bytes of its
  pairs of digits, read over spaces, up to the first pair that is none or 144 of them, and zeros behind them; a bad
  record is no error. It fails only by reading behind the mapping, and only when the file fills its last page.
\<close>

theorem mmdist_load_decodes:
  assumes "open_err env = None" "stat_err env = None" "map_err env = None" "alloc_ok env"
    and "file_bytes env \<noteq> []" "289 dvd length (file_bytes env)" "length (file_bytes env) < 2 ^ 31" "0 < page_bytes env"
  shows "mmdist_load env = Inr (Inr (map (record_vector (file_bytes env)) [0..<length (file_bytes env) div 289])) \<or>
    mmdist_load env = Inl Overrun \<and> page_bytes env dvd length (file_bytes env)"
proof -
  let ?f = "file_bytes env" and ?n = "length (file_bytes env) div 289"
  define r where "r = length ?f mod page_bytes env"
  define z where "z = (page_bytes env - r) mod page_bytes env"
  have m: "file_mem env = ?f @ replicate z 0" by (simp add: file_mem_def z_def r_def)
  have "r < page_bytes env" using assms(8) by (simp add: r_def)
  then have "z = 0 \<longleftrightarrow> r = 0" by (cases "r = 0") (simp_all add: z_def)
  then have z: "z = 0 \<longleftrightarrow> page_bytes env dvd length ?f" by (simp add: r_def dvd_eq_mod_eq_0)
  have run: "mmdist_load env = rbind (load_items (file_mem env) 0 ?n) (\<lambda>hs. Inr (Inr hs))"
    using assms by (simp add: mmdist_load_def RECORD_def dvd_eq_mod_eq_0)
  show ?thesis
  proof (cases "load_items (file_mem env) 0 ?n")
    case (Inr hs)
    then show ?thesis using run load_items_vectors [of ?f z 0 ?n hs] m by simp
  next
    case (Inl e)
    then obtain j where "e = Overrun" "j < ?n" "0 \<notin> set (drop (j * RECORD) (file_mem env))"
      using load_items_stop [OF Inl] by auto
    moreover have "j * RECORD \<le> length ?f" using \<open>j < ?n\<close> by (simp add: RECORD_def)
    ultimately have "e = Overrun" "z = 0" by (auto simp: m)
    then show ?thesis using run Inl z by simp
  qed
qed

text \<open>Two records: one with spaces and a bad digit behind two bytes, and one that is empty.\<close>

definition rough_env :: load_env where
  "rough_env = \<lparr>open_err = None, stat_err = None, map_err = None,
     file_bytes = lit '' 0f 1D x9'' @ replicate 280 48 @ replicate 289 10, alloc_ok = True, page_bytes = 4096\<rparr>"

lemma rough_vectors:
  "record_vector (file_bytes rough_env) 0 = [0x0f, 0x1d] @ replicate 142 0"
  "record_vector (file_bytes rough_env) 1 = replicate 144 0"
proof -
  have "pairs (Suc (Suc (Suc k))) (48 # 102 # 49 # 68 # 120 # 57 # s) = [0x0f, 0x1d]" for k s
    by (simp add: digit_def)
  from this [of 141] have "pairs 144 (48 # 102 # 49 # 68 # 120 # 57 # s) = [0x0f, 0x1d]" for s by simp
  then show "record_vector (file_bytes rough_env) 0 = [0x0f, 0x1d] @ replicate 142 0"
    by (simp add: record_vector_def rough_env_def lit_def of_char_def Let_def)
  have d: "drop 289 (file_bytes rough_env) = replicate 289 10" by (simp add: rough_env_def lit_def)
  have "pairs (Suc k) (replicate (Suc (Suc n)) 10) = []" for k n by (simp add: digit_def)
  from this [of 143 287] have "pairs 144 (replicate 289 10) = []" by simp
  then show "record_vector (file_bytes rough_env) 1 = replicate 144 0"
    by (simp add: record_vector_def d Let_def filter_replicate)
qed

theorem mmdist_load_decodes_witness:
  "mmdist_load rough_env = Inr (Inr [[0x0f, 0x1d] @ replicate 142 0, replicate 144 0])"
proof -
  have l: "length (file_bytes rough_env) = 578" by (simp add: rough_env_def lit_def)
  have "[0..<578 div 289] = [0, 1 :: nat]" by (simp add: upt_rec)
  then have v: "map (record_vector (file_bytes rough_env)) [0..<length (file_bytes rough_env) div 289] =
      [[0x0f, 0x1d] @ replicate 142 0, replicate 144 0]"
    unfolding l by (simp only: list.map rough_vectors)
  have "open_err rough_env = None" "stat_err rough_env = None" "map_err rough_env = None" "alloc_ok rough_env"
    "page_bytes rough_env = 4096" by (simp_all add: rough_env_def)
  moreover have "file_bytes rough_env \<noteq> []" using l by force
  ultimately show ?thesis
    using mmdist_load_decodes [of rough_env] l unfolding v by simp
qed

end
