(* ===== verification/Mmdist_Kernels.thy ===== *)
theory Mmdist_Kernels
  imports Mmdist_Input Simd
begin

text \<open>
  The distance functions of \<open>2020-12-mmdist\<close>: the loop of \<open>mmdist-naive.c\<close> and \<open>mmdist-short-inv.c\<close>,
  and the AVX2 function of the other programs, over the intrinsics lane by lane. A pointer into an
  array is the list of the bytes from there to the end of the array; reads behind it stop the program.

  The theorem: the AVX2 function and the loop return the squared Euclidean distance.
\<close>

unbundle bit_operations_syntax

section \<open>Intrinsics\<close>

definition loadu_si128 :: "bytes \<Rightarrow> nat \<Rightarrow> md_stop + bytes" where
  "loadu_si128 a i = (if i + 16 \<le> length a then Inr (take 16 (drop i a)) else Inl Overrun)"

definition cvtepu8_epi16 :: "bytes \<Rightarrow> u16 list" where
  "cvtepu8_epi16 xs = map ucast xs"

definition sub_epi16 :: "u16 list \<Rightarrow> u16 list \<Rightarrow> u16 list" where
  "sub_epi16 xs ys = map2 (-) xs ys"

text \<open>Neighbouring lanes are multiplied as signed numbers and added.\<close>

fun madd_epi16 :: "u16 list \<Rightarrow> u16 list \<Rightarrow> u32 list" where
  "madd_epi16 (x0 # x1 # xs) (y0 # y1 # ys) =
     word_of_int (sint x0 * sint y0 + sint x1 * sint y1) # madd_epi16 xs ys"
| "madd_epi16 _ _ = []"

definition add_epi32 :: "u32 list \<Rightarrow> u32 list \<Rightarrow> u32 list" where
  "add_epi32 xs ys = map2 (+) xs ys"

text \<open>Sums of neighbours, in each half of 128 bits: those of the first operand, then of the second.\<close>

definition hadd_epi32 :: "u32 list \<Rightarrow> u32 list \<Rightarrow> u32 list" where
  "hadd_epi32 a b =
     [a ! 0 + a ! 1, a ! 2 + a ! 3, b ! 0 + b ! 1, b ! 2 + b ! 3,
      a ! 4 + a ! 5, a ! 6 + a ! 7, b ! 4 + b ! 5, b ! 6 + b ! 7]"

definition extract_epi32 :: "u32 list \<Rightarrow> nat \<Rightarrow> u32" where
  "extract_epi32 e k = e ! k"

section \<open>The functions\<close>

definition byte_of :: "bytes \<Rightarrow> nat \<Rightarrow> md_stop + u8" where
  "byte_of a i = (if i < length a then Inr (a ! i) else Inl Overrun)"

text \<open>\<open>i\<close> counts up, \<open>k\<close> rounds are left.\<close>

fun distance_loop :: "bytes \<Rightarrow> bytes \<Rightarrow> nat \<Rightarrow> nat \<Rightarrow> u32 \<Rightarrow> md_stop + u32" where
  "distance_loop a b i 0 d = Inr d"
| "distance_loop a b i (Suc k) d =
     rbind (byte_of a i) (\<lambda>x. rbind (byte_of b i) (\<lambda>y.
     let t = ucast x - ucast y in distance_loop a b (i + 1) k (d + t * t)))"

definition distance :: "bytes \<Rightarrow> bytes \<Rightarrow> nat \<Rightarrow> md_stop + u32" where
  "distance a b len = distance_loop a b 0 len 0"

definition full_distance :: "bytes \<Rightarrow> bytes \<Rightarrow> md_stop + u32" where
  "full_distance a b = distance a b 144"

function avx2_loop :: "bytes \<Rightarrow> bytes \<Rightarrow> nat \<Rightarrow> nat \<Rightarrow> u32 list \<Rightarrow> md_stop + u32 list" where
  "avx2_loop a b len i acc =
     (if i < len then
        rbind (loadu_si128 a i) (\<lambda>a_16x8. rbind (loadu_si128 b i) (\<lambda>b_16x8.
        let d_16x16 = sub_epi16 (cvtepu8_epi16 a_16x8) (cvtepu8_epi16 b_16x8);
            sq_8x32 = madd_epi16 d_16x16 d_16x16 in
        avx2_loop a b len (i + 16) (add_epi32 acc sq_8x32)))
      else Inr acc)"
  by pat_completeness auto
termination by (relation "measure (\<lambda>(_, _, len, i, _). len - i)") auto

declare avx2_loop.simps [simp del]

definition distance_avx2 :: "bytes \<Rightarrow> bytes \<Rightarrow> nat \<Rightarrow> md_stop + u32" where
  "distance_avx2 a b len =
     (let zero = set1 8 0 in
      rbind (avx2_loop a b len 0 zero) (\<lambda>sum.
      let e = hadd_epi32 sum zero;
          e = hadd_epi32 e zero;
          sc1 = extract_epi32 e 0;
          sc2 = extract_epi32 e 4 in
      Inr (sc1 + sc2)))"

definition full_distance_avx2 :: "bytes \<Rightarrow> bytes \<Rightarrow> md_stop + u32" where
  "full_distance_avx2 a b = distance_avx2 a b 144"

section \<open>The squared distance\<close>

definition sq :: "u8 \<Rightarrow> u8 \<Rightarrow> nat" where
  "sq x y = nat ((uint x - uint y) ^ 2)"

text \<open>The squared Euclidean distance of the first \<open>n\<close> coordinates.\<close>

definition sqdist :: "nat \<Rightarrow> bytes \<Rightarrow> bytes \<Rightarrow> nat" where
  "sqdist n a b = sum_list (map (\<lambda>i. sq (a ! i) (b ! i)) [0..<n])"

lemma sqdist_Suc: "sqdist (Suc n) a b = sqdist n a b + sq (a ! n) (b ! n)"
  by (simp add: sqdist_def)

lemma sqdist_0 [simp]: "sqdist 0 a b = 0"
  by (simp add: sqdist_def)

lemma sqdist_split:
  "k \<le> length a \<Longrightarrow> k \<le> length b \<Longrightarrow> sqdist (k + n) a b = sqdist k a b + sqdist n (drop k a) (drop k b)"
  by (induction n) (simp_all add: sqdist_Suc)

lemma sqdist_take: "n \<le> k \<Longrightarrow> n \<le> length a \<Longrightarrow> n \<le> length b \<Longrightarrow> sqdist n (take k a) (take k b) = sqdist n a b"
  by (induction n) (simp_all add: sqdist_Suc)

lemma abs_byte_diff: "\<bar>uint x - uint y\<bar> \<le> 255" for x y :: u8
proof -
  have "uint w < 256" "0 \<le> uint w" for w :: u8 using unsigned_less [of w] by simp_all
  from this [of x] this [of y] show ?thesis by linarith
qed

lemma sq_le: "sq x y \<le> 65025"
proof -
  have "(uint x - uint y) ^ 2 \<le> 255 ^ 2"
    using abs_byte_diff [of x y] by (metis abs_ge_zero power2_abs power_mono)
  then show ?thesis by (simp add: sq_def)
qed

lemma sqdist_le: "sqdist n a b \<le> n * 65025"
proof (induction n)
  case (Suc n)
  then show ?case using sq_le [of "a ! n" "b ! n"] by (simp add: sqdist_Suc)
qed simp

lemma sqdist_small: "n \<le> 144 \<Longrightarrow> sqdist n a b < 2 ^ 24"
proof -
  assume "n \<le> 144"
  then have "n * 65025 \<le> 144 * 65025" by (rule mult_le_mono1)
  then show ?thesis using sqdist_le [of n a b] by simp
qed

text \<open>One term of the sum, in 32 bits and in 16 bits.\<close>

lemma of_nat_sq: "(of_nat (sq x y) :: 'a::len word) = word_of_int ((uint x - uint y) * (uint x - uint y))"
proof -
  have "(of_nat (sq x y) :: 'a word) = word_of_int (int (sq x y))" by simp
  then show ?thesis by (simp add: sq_def power2_eq_square)
qed

lemma sq32: "(ucast x - ucast y) * (ucast x - ucast y) = (of_nat (sq x y) :: u32)"
  unfolding of_nat_sq by simp

lemma sint_diff16: "sint (ucast (x :: u8) - ucast (y :: u8) :: u16) = uint x - uint y"
proof -
  have e: "(ucast x - ucast y :: u16) = word_of_int (uint x - uint y)" by simp
  have "sint (ucast x - ucast y :: u16) = signed_take_bit (LENGTH(16) - Suc 0) (uint x - uint y)"
    unfolding e signed_of_int by simp
  also have "\<dots> = signed_take_bit 15 (uint x - uint y)" by simp
  also have "\<dots> = uint x - uint y"
    using abs_byte_diff [of x y] by (intro signed_take_bit_int_eq_self) auto
  finally show ?thesis .
qed

lemma scast_diff16: "scast (ucast (x :: u8) - ucast (y :: u8) :: u16) = (ucast x - ucast y :: u32)"
  using sint_diff16 [of x y] by (simp add: scast_eq)

section \<open>The loop\<close>

lemma distance_loop_ok:
  assumes "i + k \<le> length a" "i + k \<le> length b" "d = of_nat (sqdist i a b)"
  shows "distance_loop a b i k d = Inr (of_nat (sqdist (i + k) a b))"
  using assms
proof (induction k arbitrary: i d)
  case (Suc k)
  have "distance_loop a b (i + 1) k (d + (ucast (a ! i) - ucast (b ! i)) * (ucast (a ! i) - ucast (b ! i))) =
      Inr (of_nat (sqdist (i + 1 + k) a b))"
    using Suc.prems by (intro Suc.IH) (simp_all add: sq32 sqdist_Suc)
  then show ?case using Suc.prems by (simp add: byte_of_def Let_def)
qed simp

lemma distance_ok:
  "n \<le> length a \<Longrightarrow> n \<le> length b \<Longrightarrow> distance a b n = Inr (of_nat (sqdist n a b))"
  using distance_loop_ok [of 0 n a b 0] by (simp add: distance_def)

section \<open>The vector loop\<close>

lemma sum_madd:
  "length xs = length ys \<Longrightarrow> even (length xs) \<Longrightarrow>
     length (madd_epi16 xs ys) = length xs div 2 \<and>
     sum_list (madd_epi16 xs ys) = sum_list (map2 (\<lambda>x y. word_of_int (sint x * sint y)) xs ys)"
  by (induction xs ys rule: madd_epi16.induct) (auto simp: algebra_simps)

lemma sum_add: "length xs = length ys \<Longrightarrow> sum_list (add_epi32 xs ys) = sum_list xs + sum_list ys"
  unfolding add_epi32_def by (induction xs ys rule: list_induct2) (simp_all add: algebra_simps)

lemma sqdist_block:
  assumes "length xs = n" "length ys = n"
  shows "sum_list (map2 (\<lambda>x y. of_nat (sq x y) :: u32) xs ys) = of_nat (sqdist n xs ys)"
proof -
  have "map2 (\<lambda>x y. of_nat (sq x y) :: u32) xs ys = map of_nat (map (\<lambda>i. sq (xs ! i) (ys ! i)) [0..<n])"
    using assms by (intro nth_equalityI) simp_all
  moreover have "sum_list (map of_nat ns) = (of_nat (sum_list ns) :: u32)" for ns
    by (induction ns) simp_all
  ultimately show ?thesis by (simp only: sqdist_def)
qed

text \<open>One block of 16 coordinates.\<close>

lemma block_sum:
  assumes "length xs = 16" "length ys = 16"
  defines "d \<equiv> sub_epi16 (cvtepu8_epi16 xs) (cvtepu8_epi16 ys)"
  shows "length (madd_epi16 d d) = 8" "sum_list (madd_epi16 d d) = of_nat (sqdist 16 xs ys)"
proof -
  have l: "length d = 16" by (simp add: d_def sub_epi16_def cvtepu8_epi16_def assms)
  then show "length (madd_epi16 d d) = 8" using sum_madd [of d d] by simp
  have "map2 (\<lambda>x y. word_of_int (sint x * sint y) :: u32) d d = map2 (\<lambda>x y. of_nat (sq x y)) xs ys"
    using assms(1,2)
    by (intro nth_equalityI) (simp_all add: d_def sub_epi16_def cvtepu8_epi16_def scast_diff16 of_nat_sq)
  then show "sum_list (madd_epi16 d d) = of_nat (sqdist 16 xs ys)"
    using sum_madd [of d d] l sqdist_block [OF assms(1,2)] by simp
qed

lemma avx2_loop_ok:
  assumes "16 dvd len" "16 dvd i" "i \<le> len" "len \<le> length a" "len \<le> length b"
    and "length acc = 8" "sum_list acc = of_nat (sqdist i a b)"
  shows "\<exists>v. avx2_loop a b len i acc = Inr v \<and> length v = 8 \<and> sum_list v = of_nat (sqdist len a b)"
  using assms
proof (induction a b len i acc rule: avx2_loop.induct)
  case (1 a b len i acc)
  show ?case
  proof (cases "i < len")
    case False
    then show ?thesis using "1.prems" by (subst avx2_loop.simps) simp
  next
    case True
    have room: "i + 16 \<le> len"
      using True "1.prems"(1,2) by (auto simp: dvd_def)
    let ?x = "take 16 (drop i a)" and ?y = "take 16 (drop i b)"
    let ?d = "sub_epi16 (cvtepu8_epi16 ?x) (cvtepu8_epi16 ?y)"
    have l: "length ?x = 16" "length ?y = 16" using room "1.prems" by simp_all
    have ld: "loadu_si128 a i = Inr ?x" "loadu_si128 b i = Inr ?y"
      using room "1.prems" by (simp_all add: loadu_si128_def)
    have "sqdist (i + 16) a b = sqdist i a b + sqdist 16 ?x ?y"
      using room "1.prems" by (simp add: sqdist_split sqdist_take)
    then have s: "sum_list (add_epi32 acc (madd_epi16 ?d ?d)) = of_nat (sqdist (i + 16) a b)"
      using block_sum [OF l] "1.prems"(6,7) by (simp add: sum_add)
    have "length (add_epi32 acc (madd_epi16 ?d ?d)) = 8"
      using block_sum(1) [OF l] "1.prems"(6) by (simp add: add_epi32_def)
    then have "\<exists>v. avx2_loop a b len (i + 16) (add_epi32 acc (madd_epi16 ?d ?d)) = Inr v \<and> length v = 8 \<and>
        sum_list v = of_nat (sqdist len a b)"
      using "1.IH" [OF True ld refl refl] room "1.prems" s by simp
    then show ?thesis using True ld by (subst avx2_loop.simps) (simp add: Let_def)
  qed
qed

lemma list_of_8: "length v = 8 \<Longrightarrow> sum_list v = v ! 0 + v ! 1 + v ! 2 + v ! 3 + (v ! 4 + v ! 5 + v ! 6 + v ! 7)"
  for v :: "u32 list"
  by (auto simp: length_Suc_conv numeral_eq_Suc algebra_simps)

lemma distance_avx2_ok:
  assumes "16 dvd n" "n \<le> length a" "n \<le> length b"
  shows "distance_avx2 a b n = Inr (of_nat (sqdist n a b))"
proof -
  obtain v where v: "avx2_loop a b n 0 (set1 8 0) = Inr v" "length v = 8" "sum_list v = of_nat (sqdist n a b)"
    using avx2_loop_ok [of n 0 a b "set1 8 0"] assms by (auto simp: set1_def numeral_eq_Suc)
  then show ?thesis
    using list_of_8 [OF v(2)]
    by (simp add: distance_avx2_def hadd_epi32_def extract_epi32_def set1_def algebra_simps numeral_eq_Suc)
qed

section \<open>Theorems\<close>

text \<open>
  C32: the AVX2 function and the byte-by-byte loop return the squared Euclidean distance of the first
  \<open>n\<close> coordinates, for every multiple of 16 up to the size of the arrays, and read nothing behind them;
  with 144 coordinates no intermediate sum is cut to 32 bits.
\<close>

theorem distance_kernels:
  assumes "16 dvd n" "n \<le> length a" "n \<le> length b"
  shows "distance_avx2 a b n = distance a b n \<and>
    (\<exists>d. distance a b n = Inr d \<and> (n \<le> 144 \<longrightarrow> unat d = sqdist n a b))"
proof -
  have "unat (of_nat (sqdist n a b) :: u32) = sqdist n a b" if "n \<le> 144"
    using sqdist_small [OF that, of a b] by (simp add: unat_of_nat take_bit_nat_eq_self_iff)
  then show ?thesis using assms by (simp add: distance_avx2_ok distance_ok)
qed

theorem distance_kernels_witness:
  "distance_avx2 (replicate 16 3) (replicate 16 255) 16 = distance (replicate 16 3) (replicate 16 255) 16"
  using distance_kernels [of 16 "replicate 16 3" "replicate 16 255"] by simp

end
