(* ===== verification/Mmdist_Search.thy ===== *)
theory Mmdist_Search
  imports Mmdist_Kernels Options
begin

text \<open>
  The search programs of \<open>2020-12-mmdist\<close> that compare a query with one database vector at a time:
  \<open>mmdist-naive.c\<close>, \<open>mmdist-naive-avx2.c\<close>, \<open>mmdist-batch-avx2.c\<close> and \<open>mmdist-short-avx2.c\<close>; and the loop
  over batches of queries, which the programs of \<open>Mmdist_Inv\<close> share.

  The locale \<open>searcher\<close> is the step of a search, \<open>batch_program\<close> a search as the batch loop uses it. The
  theorems: every program prints, for each query, the first database vector at the least distance, if
  that is below the threshold of the program.
\<close>

unbundle bit_operations_syntax

section \<open>The programs with one query at a time\<close>

text \<open>\<open>min_dist\<close> and \<open>min_idx\<close>; the line \<open>sq_dist=%d idx=%d\<close>.\<close>

type_synonym best = "u32 \<times> int"

datatype line = Sq_dist int int

definition print_best :: "best \<Rightarrow> line" where
  "print_best b = Sq_dist (sint (fst b)) (snd b)"

fun naive_search :: "(bytes \<Rightarrow> bytes \<Rightarrow> md_stop + u32) \<Rightarrow> bytes \<Rightarrow> int \<Rightarrow> bytes list \<Rightarrow> best \<Rightarrow> md_stop + best"
  where
  "naive_search dist query i [] b = Inr b"
| "naive_search dist query i (hash # hashes) b =
     rbind (dist query hash) (\<lambda>d.
       naive_search dist query (i + 1) hashes (if d < fst b then (d, i) else b))"

lemma take_line_size: "take_line n s = (l, r) \<Longrightarrow> length l + length r = length s"
  by (induction n s arbitrary: l r rule: take_line.induct) (auto split: if_splits prod.splits)

lemma take_line_progress: "take_line (Suc n) s = (l, r) \<Longrightarrow> s \<noteq> [] \<Longrightarrow> l \<noteq> []"
  by (cases s) (auto split: if_splits prod.splits)

lemma read_query_size:
  assumes "read_query old s = Inr (Some (query, s'))"
  shows "length s' < length s"
proof -
  obtain l where f: "fgets 1024 s = Some (l, s')"
    using assms by (auto simp: read_query_def rbind_eq_Inr_iff split: option.splits if_splits)
  then have ne: "s \<noteq> []" and l: "take_line (Suc 1022) s = (l, s')"
    by (auto simp: fgets_def split: if_splits)
  show ?thesis using take_line_size [OF l] take_line_progress [OF l ne] by (cases l) auto
qed

text \<open>
  The loop over the queries: the lines printed, and how it ends: a stop, or the number of queries at
  the end of the input. \<open>old\<close> is what the line buffer holds behind the line.
\<close>

function naive_loop :: "(bytes \<Rightarrow> bytes \<Rightarrow> md_stop + u32) \<Rightarrow> bytes list \<Rightarrow> bytes \<Rightarrow> bytes \<Rightarrow> nat \<Rightarrow>
    line list \<times> (md_stop + nat)" where
  "naive_loop dist hashes old s count =
     (case read_query old s of
        Inl e \<Rightarrow> ([], Inl e)
      | Inr None \<Rightarrow> ([], Inr count)
      | Inr (Some (query, s')) \<Rightarrow>
          (case naive_search dist query 0 hashes (0xffffffff, -1) of
             Inl e \<Rightarrow> ([], Inl e)
           | Inr b \<Rightarrow>
               let (out, r) = naive_loop dist hashes old s' (count + 1) in (print_best b # out, r)))"
  by pat_completeness auto
termination
  by (relation "measure (\<lambda>(_, _, _, s, _). length s)") (auto intro: read_query_size)

declare naive_loop.simps [simp del]

text \<open>The end of every program: the time for a query is a division by their number.\<close>

definition statistics :: "line list \<times> (md_stop + nat) \<Rightarrow> line list \<times> (md_stop + nat)" where
  "statistics p = (fst p, rbind (snd p) (\<lambda>count. if count = 0 then Inl Fpe else Inr count))"

text \<open>\<open>main\<close> from \<open>mmdist_load\<close> on, over the rest of the program.\<close>

definition with_database :: "load_env \<Rightarrow> (bytes list \<Rightarrow> line list \<times> (md_stop + nat)) \<Rightarrow>
    line list \<times> (md_stop + nat)" where
  "with_database env rest =
     (case mmdist_load env of
        Inl e \<Rightarrow> ([], Inl e)
      | Inr (Inl err) \<Rightarrow> ([], Inl (Quit (-1)))
      | Inr (Inr hashes) \<Rightarrow> rest hashes)"

definition naive_main :: "load_env \<Rightarrow> bytes \<Rightarrow> bytes \<Rightarrow> line list \<times> (md_stop + nat)" where
  "naive_main env old s =
     with_database env (\<lambda>hashes. statistics (naive_loop full_distance hashes old s 0))"

definition naive_avx2_main :: "load_env \<Rightarrow> bytes \<Rightarrow> bytes \<Rightarrow> line list \<times> (md_stop + nat)" where
  "naive_avx2_main env old s =
     with_database env (\<lambda>hashes. statistics (naive_loop full_distance_avx2 hashes old s 0))"

section \<open>The programs with batches of queries\<close>

definition BATCH_SIZE :: nat where "BATCH_SIZE = 6"

text \<open>Up to \<open>n\<close> queries; the end of the input ends the batch.\<close>

fun read_batch :: "bytes \<Rightarrow> nat \<Rightarrow> bytes \<Rightarrow> md_stop + (bytes list \<times> bytes)" where
  "read_batch old 0 s = Inr ([], s)"
| "read_batch old (Suc n) s =
     rbind (read_query old s) (\<lambda>q. case q of
         None \<Rightarrow> Inr ([], s)
       | Some (query, s) \<Rightarrow> rbind (read_batch old n s) (\<lambda>(qs, s). Inr (query # qs, s)))"

lemma read_batch_size:
  "read_batch old n s = Inr (qs, s') \<Longrightarrow> length s' \<le> length s \<and> (qs \<noteq> [] \<longrightarrow> length s' < length s)"
proof (induction n arbitrary: s qs)
  case (Suc n)
  show ?case
  proof (cases "read_query old s")
    case (Inr q)
    then show ?thesis
      using Suc.prems Suc.IH read_query_size [of old s]
      by (cases q) (fastforce simp: rbind_eq_Inr_iff)+
  qed (use Suc.prems in simp)
qed simp

text \<open>
  The loop: a batch is read, \<open>search\<close> gives \<open>min_dist\<close> and \<open>min_idx\<close> of all places of the batch, those
  that have a query are printed. An empty batch is the last.
\<close>

function batch_loop :: "(bytes list \<Rightarrow> md_stop + best list) \<Rightarrow> (best \<Rightarrow> line) \<Rightarrow> bytes \<Rightarrow> bytes \<Rightarrow> nat \<Rightarrow>
    line list \<times> (md_stop + nat)" where
  "batch_loop search print old s count =
     (case read_batch old BATCH_SIZE s of
        Inl e \<Rightarrow> ([], Inl e)
      | Inr (queries, s') \<Rightarrow>
          (case search queries of
             Inl e \<Rightarrow> ([], Inl e)
           | Inr bests \<Rightarrow>
               let lines = map print (take (length queries) bests); count' = count + length queries in
               if queries = [] then (lines, Inr count')
               else let (out, r) = batch_loop search print old s' count' in (lines @ out, r)))"
  by pat_completeness auto
termination
  by (relation "measure (\<lambda>(_, _, _, s, _). length s)") (auto dest: read_batch_size)

declare batch_loop.simps [simp del]

text \<open>The loop over the places of a batch that have a query, for one database vector.\<close>

fun visit_all :: "(bytes \<Rightarrow> int \<Rightarrow> 'h \<Rightarrow> best \<Rightarrow> md_stop + best) \<Rightarrow> int \<Rightarrow> 'h \<Rightarrow> bytes list \<Rightarrow> best list \<Rightarrow>
    md_stop + best list" where
  "visit_all visit i hash [] bests = Inr bests"
| "visit_all visit i hash (query # queries) [] = Inl Overrun"
| "visit_all visit i hash (query # queries) (b # bests) =
     rbind (visit query i hash b) (\<lambda>b. rbind (visit_all visit i hash queries bests) (\<lambda>bests.
       Inr (b # bests)))"

fun batch_search :: "(bytes \<Rightarrow> int \<Rightarrow> 'h \<Rightarrow> best \<Rightarrow> md_stop + best) \<Rightarrow> int \<Rightarrow> 'h list \<Rightarrow> bytes list \<Rightarrow> best list \<Rightarrow>
    md_stop + best list" where
  "batch_search visit i [] queries bests = Inr bests"
| "batch_search visit i (hash # hashes) queries bests =
     rbind (visit_all visit i hash queries bests) (batch_search visit (i + 1) hashes queries)"

definition no_best :: "u32 \<Rightarrow> best list" where
  "no_best d = replicate BATCH_SIZE (d, -1)"

definition visit_full :: "bytes \<Rightarrow> int \<Rightarrow> bytes \<Rightarrow> best \<Rightarrow> md_stop + best" where
  "visit_full query i hash b =
     rbind (full_distance_avx2 query hash) (\<lambda>d. Inr (if d < fst b then (d, i) else b))"

definition batch_main :: "load_env \<Rightarrow> bytes \<Rightarrow> bytes \<Rightarrow> line list \<times> (md_stop + nat)" where
  "batch_main env old s = with_database env (\<lambda>hashes.
     statistics (batch_loop (\<lambda>queries. batch_search visit_full 0 hashes queries (no_best 0xffffffff))
       print_best old s 0))"

text \<open>\<open>mmdist-short-avx2.c\<close>: the first 32 coordinates are compared first, from a copy.\<close>

definition MIXER_SIZE :: nat where "MIXER_SIZE = 32"

definition threshold_arg :: "bytes option \<Rightarrow> u32" where
  "threshold_arg arg = (case arg of None \<Rightarrow> 0xffffffff | Some a \<Rightarrow> word_of_int (atoll a))"

definition visit_short :: "u32 \<Rightarrow> bytes \<Rightarrow> int \<Rightarrow> bytes \<times> bytes \<Rightarrow> best \<Rightarrow> md_stop + best" where
  "visit_short threshold query i h b = (case h of (short_hash, full_hash) \<Rightarrow>
     rbind (distance_avx2 query short_hash MIXER_SIZE) (\<lambda>short_dist.
       if short_dist > fst b \<or> short_dist > threshold then Inr b
       else
         rbind (distance_avx2 (drop MIXER_SIZE query) (drop MIXER_SIZE full_hash) (144 - MIXER_SIZE)) (\<lambda>d.
         let full_dist = short_dist + d in
         Inr (if full_dist < fst b \<and> full_dist < threshold then (full_dist, i) else b))))"

definition short_main :: "bytes option \<Rightarrow> load_env \<Rightarrow> bytes \<Rightarrow> bytes \<Rightarrow> line list \<times> (md_stop + nat)" where
  "short_main arg env old s = with_database env (\<lambda>hashes.
     let shorth = map (take MIXER_SIZE) hashes in
     statistics (batch_loop
       (\<lambda>queries. batch_search (visit_short (threshold_arg arg)) 0 (zip shorth hashes) queries
          (no_best 0xffffffff))
       print_best old s 0))"

section \<open>The nearest vector\<close>

text \<open>
  The specification: the first vector at the least distance, if that is below the threshold; and the line
  for it.
\<close>

definition nearest :: "nat \<Rightarrow> bytes list \<Rightarrow> bytes \<Rightarrow> nat option" where
  "nearest T hashes q = find (\<lambda>i. sqdist 144 q (hashes ! i) < T \<and>
     (\<forall>j<length hashes. sqdist 144 q (hashes ! i) \<le> sqdist 144 q (hashes ! j))) [0..<length hashes]"

definition answer :: "nat \<Rightarrow> bytes list \<Rightarrow> bytes \<Rightarrow> line" where
  "answer T hashes q = (case nearest T hashes q of
     None \<Rightarrow> Sq_dist (-1) (-1)
   | Some i \<Rightarrow> Sq_dist (int (sqdist 144 q (hashes ! i))) (int i))"

lemma nearest_Some_iff:
  "nearest T hashes q = Some i \<longleftrightarrow> i < length hashes \<and> sqdist 144 q (hashes ! i) < T \<and>
     (\<forall>j<length hashes. sqdist 144 q (hashes ! i) \<le> sqdist 144 q (hashes ! j)) \<and>
     (\<forall>j<i. sqdist 144 q (hashes ! i) < sqdist 144 q (hashes ! j))"
proof -
  let ?d = "\<lambda>i. sqdist 144 q (hashes ! i)"
  define P where "P i \<longleftrightarrow> ?d i < T \<and> (\<forall>j<length hashes. ?d i \<le> ?d j)" for i
  have first: "nearest T hashes q = Some i \<longleftrightarrow> i < length hashes \<and> P i \<and> (\<forall>j<i. \<not> P j)"
    by (auto simp: nearest_def find_Some_iff P_def [abs_def])
  have "(\<forall>j<i. \<not> P j) \<longleftrightarrow> (\<forall>j<i. ?d i < ?d j)" if i: "i < length hashes" "P i"
  proof (intro iff_allI imp_cong refl)
    fix j assume "j < i"
    then have j: "j < length hashes" using i(1) by simp
    show "\<not> P j \<longleftrightarrow> ?d i < ?d j"
    proof
      assume "\<not> P j"
      show "?d i < ?d j"
      proof (rule ccontr)
        assume "\<not> ?d i < ?d j"
        then have "?d j \<le> ?d i" by simp
        then have "P j" using i(2) unfolding P_def by (meson le_less_trans order_trans)
        with \<open>\<not> P j\<close> show False ..
      qed
    next
      assume "?d i < ?d j"
      then show "\<not> P j" using i(1) unfolding P_def by (meson not_le)
    qed
  qed
  then show ?thesis unfolding first by (auto simp: P_def)
qed

lemma nearest_None_iff:
  "nearest T hashes q = None \<longleftrightarrow> (\<forall>j<length hashes. T \<le> sqdist 144 q (hashes ! j))"
proof
  assume none: "nearest T hashes q = None"
  show "\<forall>j<length hashes. T \<le> sqdist 144 q (hashes ! j)"
  proof (intro allI impI)
    fix j assume j: "j < length hashes"
    let ?d = "\<lambda>i. sqdist 144 q (hashes ! i)"
    obtain i where i: "i < length hashes" "\<And>k. k < length hashes \<Longrightarrow> ?d i \<le> ?d k"
      using ex_min_if_finite [of "?d ` {..<length hashes}"] j by (auto simp: not_less)
    have "\<not> (?d i < T \<and> (\<forall>j<length hashes. ?d i \<le> ?d j))"
      using none i(1) by (simp add: nearest_def find_None_iff)
    then have "T \<le> ?d i" using i(2) by auto
    also have "\<dots> \<le> ?d j" using i(2) [OF j] .
    finally show "T \<le> ?d j" .
  qed
qed (auto simp: nearest_def find_None_iff)

text \<open>No threshold: \<open>UINT32_MAX\<close>.\<close>

definition NO_LIMIT :: nat where "NO_LIMIT = 4294967295"

text \<open>The step of the search, as the specification has it.\<close>

definition better :: "nat \<Rightarrow> bytes \<Rightarrow> int \<Rightarrow> bytes \<Rightarrow> best \<Rightarrow> best" where
  "better T q i h b =
     (let d = sqdist 144 q h in if d < unat (fst b) \<and> d < T then (of_nat d, i) else b)"

fun scan :: "nat \<Rightarrow> bytes \<Rightarrow> int \<Rightarrow> bytes list \<Rightarrow> best \<Rightarrow> best" where
  "scan T q i [] b = b"
| "scan T q i (h # hs) b = scan T q (i + 1) hs (better T q i h b)"

lemma scan_snoc: "scan T q i (hs @ [h]) b = better T q (i + int (length hs)) h (scan T q i hs b)"
  by (induction hs arbitrary: i b) (simp_all add: add.assoc)

lemma unat_sqdist: "unat (of_nat (sqdist 144 q h) :: u32) = sqdist 144 q h"
  using sqdist_small [of 144 q h] by (simp add: unat_of_nat take_bit_nat_eq_self_iff)

lemma scan_nearest:
  assumes "T \<le> unat d"
  shows "scan T q 0 hs (d, - 1) = (case nearest T hs q of
    None \<Rightarrow> (d, - 1) | Some i \<Rightarrow> (of_nat (sqdist 144 q (hs ! i)), int i))"
proof (induction hs rule: rev_induct)
  case Nil
  then show ?case by (simp add: nearest_def)
next
  case (snoc h hs)
  let ?d = "sqdist 144 q h" and ?n = "length hs"
  show ?case
  proof (cases "nearest T hs q")
    case None
    then have far: "\<And>j. j < ?n \<Longrightarrow> T \<le> sqdist 144 q (hs ! j)" by (simp add: nearest_None_iff)
    show ?thesis
    proof (cases "?d < T")
      case True
      then have "nearest T (hs @ [h]) q = Some ?n"
        using far by (fastforce simp: nearest_Some_iff nth_append less_Suc_eq)
      then show ?thesis using True assms None snoc.IH by (simp add: scan_snoc better_def)
    next
      case False
      then have "nearest T (hs @ [h]) q = None"
        using far by (auto simp: nearest_None_iff nth_append less_Suc_eq)
      then show ?thesis using False None snoc.IH by (simp add: scan_snoc better_def)
    qed
  next
    case (Some i)
    note i = Some [unfolded nearest_Some_iff]
    show ?thesis
    proof (cases "?d < sqdist 144 q (hs ! i)")
      case True
      then have "nearest T (hs @ [h]) q = Some ?n"
        using i by (fastforce simp: nearest_Some_iff nth_append less_Suc_eq)
      then show ?thesis using True i Some snoc.IH by (simp add: scan_snoc better_def unat_sqdist)
    next
      case False
      then have "nearest T (hs @ [h]) q = Some i"
        using i by (auto simp: nearest_Some_iff nth_append less_Suc_eq)
      then show ?thesis using False i Some snoc.IH by (simp add: scan_snoc better_def unat_sqdist nth_append)
    qed
  qed
qed

lemma sint_sqdist: "sint (of_nat (sqdist 144 q h) :: u32) = int (sqdist 144 q h)"
  using sqdist_small [of 144 q h] by (simp add: signed_of_nat signed_take_bit_int_eq_self)

lemma print_scan:
  "print_best (scan (NO_LIMIT) q 0 hs (0xffffffff, - 1)) = answer (NO_LIMIT) hs q"
  "T \<le> NO_LIMIT \<Longrightarrow> print_best (scan T q 0 hs (0xffffffff, - 1)) = answer T hs q"
  by (simp_all add: NO_LIMIT_def scan_nearest print_best_def answer_def sint_sqdist split: option.splits)

section \<open>The queries of the input\<close>

text \<open>All queries, and how the reading ends: at the end of the input, or at a line that stops the program.\<close>

function all_queries :: "bytes \<Rightarrow> bytes \<Rightarrow> bytes list \<times> md_stop option" where
  "all_queries old s =
     (case read_query old s of
        Inl e \<Rightarrow> ([], Some e)
      | Inr None \<Rightarrow> ([], None)
      | Inr (Some (query, s')) \<Rightarrow> let (qs, e) = all_queries old s' in (query # qs, e))"
  by pat_completeness auto
termination by (relation "measure (\<lambda>(_, s). length s)") (auto intro: read_query_size)

declare all_queries.simps [simp del]

lemma all_queries_cases:
  "read_query old s = Inl e \<Longrightarrow> all_queries old s = ([], Some e)"
  "read_query old s = Inr None \<Longrightarrow> all_queries old s = ([], None)"
  "read_query old s = Inr (Some (q, s')) \<Longrightarrow>
     all_queries old s = (q # fst (all_queries old s'), snd (all_queries old s'))"
  by (simp_all add: all_queries.simps [of old s] split: prod.splits)

lemma read_query_length: "read_query old s = Inr (Some (q, s')) \<Longrightarrow> length q = 144"
  by (auto simp: read_query_def parse_hex_def rbind_eq_Inr_iff dest!: parse_loop_result
      split: option.splits if_splits)

lemma all_queries_length: "q \<in> set (fst (all_queries old s)) \<Longrightarrow> length q = 144"
proof (induction old s rule: all_queries.induct)
  case (1 old s)
  show ?case
  proof (cases "read_query old s")
    case (Inl e)
    then show ?thesis using "1.prems" by (simp add: all_queries_cases)
  next
    case (Inr r)
    show ?thesis
    proof (cases r)
      case None
      then show ?thesis using "1.prems" Inr by (simp add: all_queries_cases)
    next
      case (Some p)
      obtain q' s' where p: "p = (q', s')" by (cases p)
      then show ?thesis
        using "1.prems" "1.IH" [OF Inr Some p [symmetric]] Inr Some read_query_length [of old s q' s']
        by (auto simp: all_queries_cases)
    qed
  qed
qed

text \<open>The batches are pieces of this list.\<close>

lemma read_batch_queries:
  "all_queries old s = (qs, e) \<Longrightarrow>
     (if n \<le> length qs then \<exists>s'. read_batch old n s = Inr (take n qs, s') \<and> all_queries old s' = (drop n qs, e)
      else case e of
        None \<Rightarrow> \<exists>s'. read_batch old n s = Inr (qs, s') \<and> all_queries old s' = ([], None)
      | Some x \<Rightarrow> read_batch old n s = Inl x)"
proof (induction n arbitrary: s qs)
  case (Suc n)
  show ?case
  proof (cases "read_query old s")
    case (Inl x)
    then show ?thesis using Suc.prems by (auto simp: all_queries_cases)
  next
    case (Inr r)
    show ?thesis
    proof (cases r)
      case None
      then show ?thesis using Suc.prems Inr by (auto simp: all_queries_cases)
    next
      case (Some p)
      obtain q s1 where p: "p = (q, s1)" by (cases p)
      then have qs: "qs = q # fst (all_queries old s1)" "e = snd (all_queries old s1)"
        using Suc.prems Inr Some by (auto simp: all_queries_cases)
      have "all_queries old s1 = (fst (all_queries old s1), e)" by (simp add: qs)
      from Suc.IH [OF this] show ?thesis
        using Inr Some p by (cases e) (auto simp: qs(1) split: if_splits)
    qed
  qed
qed auto

section \<open>The interfaces of a search\<close>

text \<open>The step of a search does what the specification does.\<close>

locale searcher =
  fixes visit :: "bytes \<Rightarrow> int \<Rightarrow> 'h \<Rightarrow> best \<Rightarrow> md_stop + best"
    and full :: "'h \<Rightarrow> bytes" and good :: "'h \<Rightarrow> bool" and T :: nat
  assumes visit_ok: "length q = 144 \<Longrightarrow> good h \<Longrightarrow> visit q i h b = Inr (better T q i (full h) b)"
begin

lemma visit_all_ok:
  assumes "\<And>q. q \<in> set queries \<Longrightarrow> length q = 144" "good h" "length queries \<le> length bests"
  shows "visit_all visit i h queries bests =
    Inr (map2 (\<lambda>q b. better T q i (full h) b) queries bests @ drop (length queries) bests)"
  using assms(1,3)
proof (induction queries arbitrary: bests)
  case (Cons q queries)
  then obtain b bests' where "bests = b # bests'" by (cases bests) auto
  then show ?case using Cons assms(2) by (simp add: visit_ok)
qed simp

lemma batch_search_ok:
  assumes "\<And>q. q \<in> set queries \<Longrightarrow> length q = 144" "length queries \<le> length bests"
    and "\<And>h. h \<in> set hs \<Longrightarrow> good h"
  shows "batch_search visit i hs queries bests =
    Inr (map2 (\<lambda>q b. scan T q i (map full hs) b) queries bests @ drop (length queries) bests)"
  using assms(2,3)
proof (induction hs arbitrary: i bests)
  case Nil
  then have "map2 (\<lambda>q b. b) queries bests = take (length queries) bests"
    by (intro nth_equalityI) simp_all
  then show ?case by simp
next
  case (Cons h hs)
  let ?b = "map2 (\<lambda>q b. better T q i (full h) b) queries bests @ drop (length queries) bests"
  have l: "length queries \<le> length ?b" "length (map2 (\<lambda>q b. better T q i (full h) b) queries bests) = length queries"
    using Cons.prems(1) by simp_all
  have "map2 (\<lambda>q b. scan T q (i + 1) (map full hs) b) queries ?b =
      map2 (\<lambda>q b. scan T q i (map full (h # hs)) b) queries bests"
    using Cons.prems(1) by (intro nth_equalityI) (auto simp: nth_append)
  then show ?case
    using Cons l by (simp add: visit_all_ok [OF assms(1)])
qed

lemma batch_search_no_best:
  assumes "\<And>q. q \<in> set queries \<Longrightarrow> length q = 144" "length queries \<le> BATCH_SIZE"
    and "\<And>h. h \<in> set hs \<Longrightarrow> good h" "T \<le> NO_LIMIT"
  shows "\<exists>bests. batch_search visit 0 hs queries (no_best 0xffffffff) = Inr bests \<and>
    map print_best (take (length queries) bests) = map (answer T (map full hs)) queries"
proof -
  have "map print_best (map2 (\<lambda>q b. scan T q 0 (map full hs) b) queries (no_best 0xffffffff)) =
      map (answer T (map full hs)) queries"
    using assms(2,4) by (intro nth_equalityI) (simp_all add: no_best_def print_scan)
  then show ?thesis
    using batch_search_ok [OF assms(1) _ assms(3), of queries "no_best 0xffffffff" hs 0] assms(2)
    by (auto simp: no_best_def)
qed

end

text \<open>What the batch loop needs of a search over a database.\<close>

locale batch_program =
  fixes search :: "bytes list \<Rightarrow> bytes list \<Rightarrow> md_stop + best list" and show_best :: "best \<Rightarrow> line"
    and fits :: "bytes list \<Rightarrow> bool" and T :: nat
  assumes search_ok: "fits hashes \<Longrightarrow> length queries \<le> BATCH_SIZE \<Longrightarrow>
    (\<And>q. q \<in> set queries \<Longrightarrow> length q = 144) \<Longrightarrow>
    \<exists>bests. search hashes queries = Inr bests \<and>
      map show_best (take (length queries) bests) = map (answer T hashes) queries"
begin

lemma batch_loop_ok:
  assumes "fits hashes" "all_queries old s = (qs, e)"
  shows "batch_loop (search hashes) show_best old s count = (case e of
      None \<Rightarrow> (map (answer T hashes) qs, Inr (count + length qs))
    | Some x \<Rightarrow> (map (answer T hashes) (take (length qs div BATCH_SIZE * BATCH_SIZE) qs), Inl x))"
  using assms(2)
proof (induction "length qs" arbitrary: qs s count rule: less_induct)
  case less
  have q: "\<And>q. q \<in> set qs \<Longrightarrow> length q = 144" using all_queries_length [of _ old s] less.prems by simp
  have B: "BATCH_SIZE = 6" by (simp add: BATCH_SIZE_def)
  note batch = read_batch_queries [OF less.prems, of BATCH_SIZE]
  show ?case
  proof (cases "BATCH_SIZE \<le> length qs")
    case True
    then obtain s' where r: "read_batch old BATCH_SIZE s = Inr (take BATCH_SIZE qs, s')"
      "all_queries old s' = (drop BATCH_SIZE qs, e)" using batch by auto
    obtain bests where b: "search hashes (take BATCH_SIZE qs) = Inr bests"
      "map show_best (take (length (take BATCH_SIZE qs)) bests) = map (answer T hashes) (take BATCH_SIZE qs)"
      using search_ok [OF assms(1), of "take BATCH_SIZE qs"] q by (auto dest: in_set_takeD)
    have ne: "take BATCH_SIZE qs \<noteq> []" using True by (auto simp: B)
    have d: "length qs div BATCH_SIZE * BATCH_SIZE =
        BATCH_SIZE + length (drop BATCH_SIZE qs) div BATCH_SIZE * BATCH_SIZE"
      using True by (simp add: le_div_geq B)
    note IH = less.hyps [OF _ r(2)]
    have "length (drop BATCH_SIZE qs) < length qs" using True by (simp add: B)
    from IH [OF this, of "count + length (take BATCH_SIZE qs)"] show ?thesis
      using r(1) b ne True
      by (subst batch_loop.simps)
        (auto simp: Let_def d take_add split: option.splits prod.splits simp flip: map_append)
  next
    case False
    show ?thesis
    proof (cases e)
      case (Some x)
      then have "read_batch old BATCH_SIZE s = Inl x" using batch False by simp
      then show ?thesis using False Some by (subst batch_loop.simps) simp
    next
      case None
      then obtain s' where r: "read_batch old BATCH_SIZE s = Inr (qs, s')" "all_queries old s' = ([], e)"
        using batch False by auto
      obtain bests where b: "search hashes qs = Inr bests"
        "map show_best (take (length qs) bests) = map (answer T hashes) qs"
        using search_ok [OF assms(1), of qs] q False by auto
      show ?thesis
      proof (cases "qs = []")
        case True
        then show ?thesis using r(1) b None by (subst batch_loop.simps) simp
      next
        case ne: False
        from less.hyps [OF _ r(2), of "count + length qs"] have
          "batch_loop (search hashes) show_best old s' (count + length qs) = ([], Inr (count + length qs))"
          using ne None by simp
        then show ?thesis using r(1) b None ne by (subst batch_loop.simps) simp
      qed
    qed
  qed
qed

end

section \<open>The programs\<close>

definition vectors :: "bytes list \<Rightarrow> bool" where
  "vectors hashes \<longleftrightarrow> (\<forall>h\<in>set hashes. length h = 144)"

lemma full_distance_ok:
  assumes "length q = 144" "length h = 144"
  shows "full_distance q h = Inr (of_nat (sqdist 144 q h))"
    and "full_distance_avx2 q h = Inr (of_nat (sqdist 144 q h))"
  using assms by (simp_all add: full_distance_def full_distance_avx2_def distance_ok distance_avx2_ok)

lemma better_full:
  "(if (of_nat (sqdist 144 q h) :: u32) < fst b then (of_nat (sqdist 144 q h), i) else b) =
     better (NO_LIMIT) q i h b"
  using sqdist_small [of 144 q h] by (simp add: NO_LIMIT_def better_def word_less_nat_alt unat_sqdist)

lemma naive_search_ok:
  assumes "\<And>h. length h = 144 \<Longrightarrow> dist q h = Inr (of_nat (sqdist 144 q h))" "vectors hs"
  shows "naive_search dist q i hs b = Inr (scan (NO_LIMIT) q i hs b)"
  using assms(2)
proof (induction hs arbitrary: i b)
  case (Cons h hs)
  then show ?case using assms(1) [of h] better_full [of q h b i] by (simp add: vectors_def)
qed simp

interpretation full: searcher visit_full "\<lambda>h. h" "\<lambda>h. length h = 144" NO_LIMIT
proof
  fix q h :: bytes and i b assume "length q = 144" "length h = 144"
  then show "visit_full q i h b = Inr (better (NO_LIMIT) q i h b)"
    using better_full [of q h b i] by (simp add: visit_full_def full_distance_ok)
qed

interpretation short: searcher "visit_short threshold" snd "\<lambda>(s, h). length h = 144 \<and> s = take MIXER_SIZE h"
  "unat threshold" for threshold
proof
  fix q :: bytes and h :: "bytes \<times> bytes" and i b
  assume q: "length q = 144" and h: "case h of (s, h) \<Rightarrow> length h = 144 \<and> s = take MIXER_SIZE h"
  obtain f where f: "h = (take 32 f, f)" "length f = 144" using h by (auto simp: MIXER_SIZE_def)
  let ?s = "sqdist 32 q f" and ?r = "sqdist 112 (drop 32 q) (drop 32 f)"
  have all: "sqdist 144 q f = ?s + ?r" using sqdist_split [of 32 q f 112] q f(2) by simp
  have u: "unat (of_nat ?s :: u32) = ?s" "unat (of_nat ?s + of_nat ?r :: u32) = ?s + ?r"
    using sqdist_small [of 144 q f] all by (simp_all add: unat_of_nat take_bit_nat_eq_self_iff flip: of_nat_add)
  have s: "sqdist 32 q (take 32 f) = ?s"
    unfolding sqdist_def by (intro arg_cong [of _ _ sum_list] map_cong refl) simp
  have "distance_avx2 q (take 32 f) 32 = Inr (of_nat ?s)"
    "distance_avx2 (drop 32 q) (drop 32 f) 112 = Inr (of_nat ?r)"
    using distance_avx2_ok [of 32 q "take 32 f"] distance_avx2_ok [of 112 "drop 32 q" "drop 32 f"] q f(2) s by simp_all
  then show "visit_short threshold q i h b = Inr (better (unat threshold) q i (snd h) b)"
    by (auto simp: visit_short_def MIXER_SIZE_def f(1) better_def Let_def word_less_nat_alt u all)
qed

interpretation batch: batch_program
  "\<lambda>hashes queries. batch_search visit_full 0 hashes queries (no_best 0xffffffff)" print_best vectors NO_LIMIT
proof
  fix hashes queries :: "bytes list"
  assume "vectors hashes" "length queries \<le> BATCH_SIZE" "\<And>q. q \<in> set queries \<Longrightarrow> length q = 144"
  then show "\<exists>bests. batch_search visit_full 0 hashes queries (no_best 0xffffffff) = Inr bests \<and>
      map print_best (take (length queries) bests) = map (answer (NO_LIMIT) hashes) queries"
    using full.batch_search_no_best [of queries hashes] by (auto simp: vectors_def)
qed

interpretation short_batch: batch_program
  "\<lambda>hashes queries. batch_search (visit_short threshold) 0 (zip (map (take MIXER_SIZE) hashes) hashes) queries
     (no_best 0xffffffff)" print_best vectors "unat threshold" for threshold
proof
  fix hashes queries :: "bytes list"
  assume a: "vectors hashes" "length queries \<le> BATCH_SIZE" "\<And>q. q \<in> set queries \<Longrightarrow> length q = 144"
  have m: "map snd (zip (map (take MIXER_SIZE) hashes) hashes) = hashes" by (simp add: map_snd_zip)
  have g: "case p of (s, h) \<Rightarrow> length h = 144 \<and> s = take MIXER_SIZE h"
    if "p \<in> set (zip (map (take MIXER_SIZE) hashes) hashes)" for p
    using that a(1) by (auto simp: vectors_def in_set_zip)
  have "unat threshold \<le> NO_LIMIT" using unat_less_exp [of threshold] by (simp add: NO_LIMIT_def)
  have "\<exists>bests. batch_search (visit_short threshold) 0 (zip (map (take MIXER_SIZE) hashes) hashes) queries
        (no_best 0xffffffff) = Inr bests \<and>
      map print_best (take (length queries) bests) =
        map (answer (unat threshold) (map snd (zip (map (take MIXER_SIZE) hashes) hashes))) queries"
    by (rule short.batch_search_no_best) (use a(2,3) g \<open>unat threshold \<le> NO_LIMIT\<close> in blast)+
  then show "\<exists>bests. batch_search (visit_short threshold) 0 (zip (map (take MIXER_SIZE) hashes) hashes) queries
        (no_best 0xffffffff) = Inr bests \<and>
      map print_best (take (length queries) bests) = map (answer (unat threshold) hashes) queries"
    by (simp only: m)
qed

section \<open>Theorems\<close>

text \<open>
  What a program with threshold \<open>T\<close> and batches of \<open>n\<close> queries prints: the answers in order. When a line
  stops the program, the answers of the last, incomplete batch are missing; an input without queries is a
  division by zero.
\<close>

definition expected :: "nat \<Rightarrow> nat \<Rightarrow> bytes \<Rightarrow> bytes \<Rightarrow> bytes list \<Rightarrow> line list \<times> (md_stop + nat)" where
  "expected T n old s hashes = (case all_queries old s of
     (qs, None) \<Rightarrow> (map (answer T hashes) qs, if qs = [] then Inl Fpe else Inr (length qs))
   | (qs, Some e) \<Rightarrow> (map (answer T hashes) (take (length qs div n * n) qs), Inl e))"

lemma naive_loop_ok:
  assumes dist: "\<And>q h. length q = 144 \<Longrightarrow> length h = 144 \<Longrightarrow> dist q h = Inr (of_nat (sqdist 144 q h))"
    and hs: "vectors hashes"
  shows "naive_loop dist hashes old s count =
    (map (answer (NO_LIMIT) hashes) (fst (all_queries old s)),
     case snd (all_queries old s) of None \<Rightarrow> Inr (count + length (fst (all_queries old s))) | Some e \<Rightarrow> Inl e)"
proof (induction old s arbitrary: count rule: all_queries.induct)
  case (1 old s)
  show ?case
  proof (cases "read_query old s")
    case (Inl e)
    then show ?thesis by (subst naive_loop.simps) (simp add: all_queries_cases)
  next
    case (Inr r)
    show ?thesis
    proof (cases r)
      case None
      then show ?thesis using Inr by (subst naive_loop.simps) (simp add: all_queries_cases)
    next
      case (Some p)
      obtain q s' where p: "p = (q, s')" by (cases p)
      have "length q = 144" using read_query_length [of old s q s'] Inr Some p by simp
      then have "naive_search dist q 0 hashes (0xffffffff, - 1) = Inr (scan (NO_LIMIT) q 0 hashes (0xffffffff, - 1))"
        by (intro naive_search_ok dist hs)
      then show ?thesis
        using "1.IH" [OF Inr Some p [symmetric], of "count + 1"] Inr Some p
        by (subst naive_loop.simps)
          (simp add: all_queries_cases print_scan(1) split: option.splits)
    qed
  qed
qed

lemma with_database_cong:
  assumes "\<And>hashes. vectors hashes \<Longrightarrow> f hashes = g hashes"
  shows "with_database env f = with_database env g"
  using load_shape [of env] assms
  by (auto simp: with_database_def vectors_def split: sum.splits)

text \<open>
  The two programs with one query at a time print the first nearest vector for each query, up to
  the first line that is no query.
\<close>

theorem naive_output:
  "naive_main env old s = with_database env (expected (NO_LIMIT) 1 old s) \<and>
   naive_avx2_main env old s = with_database env (expected (NO_LIMIT) 1 old s)"
proof -
  have e: "statistics (naive_loop dist hashes old s 0) = expected (NO_LIMIT) 1 old s hashes"
    if "\<And>q h. length q = 144 \<Longrightarrow> length h = 144 \<Longrightarrow> dist q h = Inr (of_nat (sqdist 144 q h))"
      "vectors hashes" for dist hashes
  proof -
    have "naive_loop dist hashes old s 0 = (map (answer NO_LIMIT hashes) (fst (all_queries old s)),
        case snd (all_queries old s) of None \<Rightarrow> Inr (0 + length (fst (all_queries old s))) | Some e \<Rightarrow> Inl e)"
      by (rule naive_loop_ok) (use that in blast)+
    then show ?thesis
      by (cases "all_queries old s") (auto simp: statistics_def expected_def split: option.splits)
  qed
  show ?thesis
    unfolding naive_main_def naive_avx2_main_def
    by (intro conjI with_database_cong e full_distance_ok)
qed

lemma batch_expected:
  "(case all_queries old s of (qs, e) \<Rightarrow> statistics (case e of
       None \<Rightarrow> (map (answer T hashes) qs, Inr (0 + length qs))
     | Some x \<Rightarrow> (map (answer T hashes) (take (length qs div BATCH_SIZE * BATCH_SIZE) qs), Inl x))) =
   expected T BATCH_SIZE old s hashes"
  by (auto simp: statistics_def expected_def split: option.splits prod.splits)

text \<open>
  The program with batches prints the same answers; of an input with a bad line it prints whole
  batches only.
\<close>

theorem batch_output:
  "batch_main env old s = with_database env (expected (NO_LIMIT) 6 old s)"
proof -
  have B: "BATCH_SIZE = 6" by (simp add: BATCH_SIZE_def)
  show ?thesis
    unfolding batch_main_def B [symmetric]
    by (intro with_database_cong, subst batch_expected [symmetric],
        cases "all_queries old s", simp only: prod.case batch.batch_loop_ok)
qed

text \<open>
  The program that compares 32 coordinates first prints the first nearest vector whose distance is
  below the threshold; without an argument these are the answers of the other programs.
\<close>

theorem short_output:
  "short_main arg env old s = with_database env (expected (unat (threshold_arg arg)) 6 old s) \<and>
   short_main None env old s = batch_main env old s"
proof -
  have B: "BATCH_SIZE = 6" by (simp add: BATCH_SIZE_def)
  have s: "short_main arg env old s = with_database env (expected (unat (threshold_arg arg)) BATCH_SIZE old s)" for arg
    unfolding short_main_def Let_def
    by (intro with_database_cong, subst batch_expected [symmetric],
        cases "all_queries old s", simp only: prod.case short_batch.batch_loop_ok)
  have b: "batch_main env old s = with_database env (expected (NO_LIMIT) BATCH_SIZE old s)"
    unfolding batch_main_def
    by (intro with_database_cong, subst batch_expected [symmetric],
        cases "all_queries old s", simp only: prod.case batch.batch_loop_ok)
  have "unat (threshold_arg None) = NO_LIMIT" by (simp add: threshold_arg_def NO_LIMIT_def)
  then show ?thesis using s [of arg] s [of None] b by (simp only: B)
qed

end
