(* ===== verification/Mmdist_Inv.thy ===== *)
theory Mmdist_Inv
  imports Mmdist_Search
begin

text \<open>
  \<open>mmdist-short-inv.c\<close> of \<open>2020-12-mmdist\<close>, which compares a query with 16 database vectors at a time,
  over a transposed copy of their first 24 coordinates. The copy and the locale \<open>block_program\<close>, the
  search block by block, are shared with \<open>Mmdist_Inv_Avx2\<close>.

  The theorem: the program prints, for each query, the first nearest vector below its threshold.
\<close>

unbundle bit_operations_syntax

section \<open>Loops over a list of indices\<close>

fun rfold :: "('a \<Rightarrow> 's \<Rightarrow> 'e + 's) \<Rightarrow> 'a list \<Rightarrow> 's \<Rightarrow> 'e + 's" where
  "rfold f [] s = Inr s"
| "rfold f (x # xs) s = rbind (f x s) (rfold f xs)"

lemma rfold_append: "rfold f (xs @ ys) s = rbind (rfold f xs s) (rfold f ys)"
proof (induction xs arbitrary: s)
  case (Cons x xs)
  then show ?case by (cases "f x s") simp_all
qed simp

lemma rfold_map: "rfold f (map g xs) s = rfold (\<lambda>x. f (g x)) xs s"
proof (induction xs arbitrary: s)
  case (Cons x xs)
  then show ?case by (cases "f (g x) s") simp_all
qed simp

lemma rfold_upt_Suc: "rfold f [0..<Suc n] s = rbind (rfold f [0..<n] s) (f n)"
proof -
  have "rfold f [n] = f n"
  proof
    fix s show "rfold f [n] s = f n s" by (cases "f n s") simp_all
  qed
  then show ?thesis by (simp only: upt_Suc_append rfold_append le0)
qed

section \<open>The transposed copy\<close>

definition LANE_SIZE :: nat where "LANE_SIZE = 16"
definition INV_MIXER :: nat where "INV_MIXER = 24"

definition put :: "bytes \<Rightarrow> nat \<Rightarrow> u8 \<Rightarrow> md_stop + bytes" where
  "put sv i v = (if i < length sv then Inr (sv[i := v]) else Inl Overrun)"

text \<open>The starts of the blocks: \<open>i = 0; i < items; i += LANE_SIZE\<close>, for a multiple of \<open>LANE_SIZE\<close>.\<close>

definition blocks :: "nat \<Rightarrow> nat list" where
  "blocks items = map (\<lambda>b. LANE_SIZE * b) [0..<items div LANE_SIZE]"

definition shuffle_item :: "bytes list \<Rightarrow> nat \<Rightarrow> nat \<Rightarrow> bytes \<Rightarrow> md_stop + bytes" where
  "shuffle_item hashes i j = rfold (\<lambda>k sv.
     rbind (byte_of (hashes ! (i + j)) k) (\<lambda>c. put sv (i * INV_MIXER + k * LANE_SIZE + j) c))
     [0..<INV_MIXER]"

definition shuffle :: "bytes list \<Rightarrow> md_stop + bytes" where
  "shuffle hashes =
     rfold (\<lambda>i. rfold (shuffle_item hashes i) [0..<LANE_SIZE]) (blocks (length hashes))
       (replicate (length hashes * INV_MIXER) 0)"

text \<open>The 16 bytes at an index of it.\<close>

definition lanes_at :: "bytes \<Rightarrow> nat \<Rightarrow> md_stop + bytes" where
  "lanes_at = loadu_si128"

section \<open>mmdist-short-inv.c\<close>

text \<open>The squares of one coordinate, added to the scores of a query (the loops over \<open>l\<close> and \<open>c\<close>).\<close>

definition score_row :: "u8 \<Rightarrow> bytes \<Rightarrow> u32 list \<Rightarrow> u32 list" where
  "score_row x b row = map2 (\<lambda>s t. let delta = ucast x - ucast t in s + delta * delta) row b"

definition score_step :: "bytes list \<Rightarrow> bytes \<Rightarrow> nat \<Rightarrow> nat \<Rightarrow> u32 list list \<Rightarrow> md_stop + u32 list list" where
  "score_step queries sv i j scores =
     rbind (lanes_at sv (i * INV_MIXER + j * LANE_SIZE)) (\<lambda>b.
       Inr (map2 (\<lambda>q row. score_row (q ! j) b row) queries scores))"

definition block_scores :: "bytes list \<Rightarrow> bytes \<Rightarrow> nat \<Rightarrow> md_stop + u32 list list" where
  "block_scores queries sv i =
     rfold (score_step queries sv i) [0..<INV_MIXER] (replicate BATCH_SIZE (replicate LANE_SIZE 0))"

text \<open>One lane of one query.\<close>

definition inv_lane :: "u32 \<Rightarrow> bytes list \<Rightarrow> nat \<Rightarrow> bytes \<Rightarrow> u32 list \<Rightarrow> nat \<Rightarrow> best \<Rightarrow> md_stop + best" where
  "inv_lane threshold hashes i query row l b =
     (if row ! l < fst b \<and> row ! l \<le> threshold then
        rbind (distance (drop INV_MIXER query) (drop INV_MIXER (hashes ! (i + l))) (144 - INV_MIXER)) (\<lambda>d.
        let full_dist = row ! l + d in
        Inr (if full_dist < fst b \<and> full_dist < threshold then (full_dist, int (i + l)) else b))
      else Inr b)"

fun inv_queries :: "u32 \<Rightarrow> bytes list \<Rightarrow> nat \<Rightarrow> bytes list \<Rightarrow> u32 list list \<Rightarrow> best list \<Rightarrow> md_stop + best list"
  where
  "inv_queries threshold hashes i (q # qs) (row # rows) (b # bs) =
     rbind (rfold (inv_lane threshold hashes i q row) [0..<LANE_SIZE] b) (\<lambda>b.
     rbind (inv_queries threshold hashes i qs rows bs) (\<lambda>bs. Inr (b # bs)))"
| "inv_queries threshold hashes i _ _ _ = Inr []"

text \<open>\<open>uint8_t query[BATCH_SIZE][144] = {}\<close>: the places without a query are zero, and are searched too.\<close>

definition all_places :: "bytes list \<Rightarrow> bytes list" where
  "all_places queries = queries @ replicate (BATCH_SIZE - length queries) (replicate 144 0)"

definition inv_block :: "u32 \<Rightarrow> bytes list \<Rightarrow> bytes list \<Rightarrow> bytes \<Rightarrow> nat \<Rightarrow> best list \<Rightarrow> md_stop + best list" where
  "inv_block threshold hashes queries sv i bests =
     rbind (block_scores queries sv i) (\<lambda>scores. inv_queries threshold hashes i queries scores bests)"

definition inv_search :: "u32 \<Rightarrow> bytes list \<Rightarrow> bytes list \<Rightarrow> md_stop + best list" where
  "inv_search threshold hashes queries =
     rbind (shuffle hashes) (\<lambda>sv.
     rfold (inv_block threshold hashes (all_places queries) sv) (blocks (length hashes)) (no_best 0xffffffff))"

text \<open>
  The copy does not depend on the queries; in the program it is made once, before the loop. A database
  whose size is no multiple of 16 is refused.
\<close>

definition inv_main :: "bytes option \<Rightarrow> load_env \<Rightarrow> bytes \<Rightarrow> bytes \<Rightarrow> line list \<times> (md_stop + nat)" where
  "inv_main arg env old s = with_database env (\<lambda>hashes.
     if length hashes mod LANE_SIZE \<noteq> 0 then ([], Inl (Quit (-1)))
     else statistics (batch_loop (inv_search (threshold_arg arg) hashes) print_best old s 0))"

section \<open>The transposed copy holds the first coordinates\<close>

text \<open>A computation that writes \<open>val m\<close> at the places \<open>m\<close> of \<open>W\<close>, and nothing else.\<close>

definition fills :: "(bytes \<Rightarrow> md_stop + bytes) \<Rightarrow> nat set \<Rightarrow> (nat \<Rightarrow> u8) \<Rightarrow> nat \<Rightarrow> bool" where
  "fills f W val n \<longleftrightarrow> (\<forall>sv. length sv = n \<longrightarrow> (\<exists>sv'. f sv = Inr sv' \<and> length sv' = n \<and>
     (\<forall>m<n. sv' ! m = (if m \<in> W then val m else sv ! m))))"

lemma fills_put: "i < n \<Longrightarrow> v = val i \<Longrightarrow> fills (\<lambda>sv. put sv i v) {i} val n"
  by (simp add: fills_def put_def nth_list_update)

lemma fills_rfold:
  "(\<And>x. x \<in> set xs \<Longrightarrow> fills (f x) (W x) val n) \<Longrightarrow> fills (rfold f xs) (\<Union>x\<in>set xs. W x) val n"
proof (induction xs)
  case Nil
  then show ?case by (simp add: fills_def)
next
  case (Cons x xs)
  have f: "fills (f x) (W x) val n" "fills (rfold f xs) (\<Union>x\<in>set xs. W x) val n"
    using Cons by simp_all
  show ?case unfolding fills_def
  proof (intro allI impI)
    fix sv :: bytes assume "length sv = n"
    then obtain sv1 where s1: "f x sv = Inr sv1" "length sv1 = n"
      "\<forall>m<n. sv1 ! m = (if m \<in> W x then val m else sv ! m)" using f(1) unfolding fills_def by blast
    obtain sv2 where s2: "rfold f xs sv1 = Inr sv2" "length sv2 = n"
      "\<forall>m<n. sv2 ! m = (if m \<in> (\<Union>x\<in>set xs. W x) then val m else sv1 ! m)"
      using f(2) s1(2) unfolding fills_def by blast
    then show "\<exists>sv'. rfold f (x # xs) sv = Inr sv' \<and> length sv' = n \<and>
        (\<forall>m<n. sv' ! m = (if m \<in> (\<Union>x\<in>set (x # xs). W x) then val m else sv ! m))"
      using s1 by auto
  qed
qed

text \<open>Coordinate \<open>k\<close> of vector \<open>j\<close> of block \<open>b\<close> is at this place.\<close>

lemma place_parts:
  assumes "j < (16 :: nat)" "k < (24 :: nat)"
  shows "(16 * b * 24 + k * 16 + j) div 384 = b" "(16 * b * 24 + k * 16 + j) mod 384 div 16 = k"
    "(16 * b * 24 + k * 16 + j) mod 16 = j"
proof -
  have e: "16 * b * 24 + k * 16 + j = (k * 16 + j) + b * 384" "k * 16 + j < 384" using assms by simp_all
  show "(16 * b * 24 + k * 16 + j) div 384 = b" "(16 * b * 24 + k * 16 + j) mod 384 div 16 = k"
    unfolding e(1) using e(2) assms by simp_all
  have "16 * b * 24 + k * 16 + j = j + 16 * (b * 24 + k)" by simp
  then show "(16 * b * 24 + k * 16 + j) mod 16 = j" using assms by (simp only: mod_mult_self2 mod_less)
qed

lemma shuffle_ok:
  assumes "vectors hashes" "length hashes mod 16 = 0"
  shows "\<exists>sv. shuffle hashes = Inr sv \<and> length sv = length hashes * 24 \<and>
    (\<forall>b<length hashes div 16. \<forall>j<16. \<forall>k<24.
      sv ! (16 * b * 24 + k * 16 + j) = hashes ! (16 * b + j) ! k)"
proof -
  let ?n = "length hashes * 24" and ?B = "length hashes div 16"
  define val where "val m = hashes ! (16 * (m div 384) + m mod 16) ! (m mod 384 div 16)" for m
  define W where "W b j = (\<Union>k\<in>{0..<24}. {16 * b * 24 + k * 16 + j})" for b j :: nat
  have room: "16 * b * 24 + k * 16 + j < ?n" "16 * b + j < length hashes" if "b < ?B" "j < 16" "k < 24" for b j k
  proof -
    have "16 * b + 16 \<le> length hashes" using that(1) assms(2) by auto
    then show "16 * b * 24 + k * 16 + j < ?n" "16 * b + j < length hashes" using that by auto
  qed
  have item: "fills (shuffle_item hashes (16 * b) j) (W b j) val ?n" if "b < ?B" "j < 16" for b j
    unfolding shuffle_item_def W_def INV_MIXER_def LANE_SIZE_def set_upt [symmetric]
  proof (rule fills_rfold)
    fix k assume "k \<in> set [0..<24 :: nat]"
    then have k: "k < 24" by simp
    have "length (hashes ! (16 * b + j)) = 144"
      using assms(1) room(2) [OF that k] by (simp add: vectors_def)
    then have "byte_of (hashes ! (16 * b + j)) k = Inr (val (16 * b * 24 + k * 16 + j))"
      using k by (simp only: val_def place_parts [OF that(2) k] byte_of_def) simp
    then show "fills (\<lambda>sv. rbind (byte_of (hashes ! (16 * b + j)) k) (\<lambda>c. put sv (16 * b * 24 + k * 16 + j) c))
        {16 * b * 24 + k * 16 + j} val ?n"
      using room(1) [OF that k] by (simp add: fills_put)
  qed
  have "fills (rfold (\<lambda>i. rfold (shuffle_item hashes i) [0..<16]) (map ((*) 16) [0..<?B]))
      (\<Union>i\<in>set (map ((*) 16) [0..<?B]). \<Union>j\<in>set [0..<16]. W (i div 16) j) val ?n"
    by (intro fills_rfold) (auto intro: item)
  then obtain sv where sv: "shuffle hashes = Inr sv" "length sv = ?n" and at: "\<And>m. m < ?n \<Longrightarrow>
      m \<in> (\<Union>i\<in>set (map ((*) 16) [0..<?B]). \<Union>j\<in>set [0..<16]. W (i div 16) j) \<Longrightarrow> sv ! m = val m"
    unfolding fills_def shuffle_def blocks_def INV_MIXER_def LANE_SIZE_def
    by (metis (no_types, lifting) length_replicate)
  have "sv ! (16 * b * 24 + k * 16 + j) = hashes ! (16 * b + j) ! k" if "b < ?B" "j < 16" "k < 24" for b j k
  proof -
    have "sv ! (16 * b * 24 + k * 16 + j) = val (16 * b * 24 + k * 16 + j)"
    proof (rule at [OF room(1) [OF that]])
      show "16 * b * 24 + k * 16 + j \<in> (\<Union>i\<in>set (map ((*) 16) [0..<?B]). \<Union>j\<in>set [0..<16]. W (i div 16) j)"
        by (rule UN_I [of "16 * b"], use that in simp, rule UN_I [of j]) (use that in \<open>auto simp: W_def\<close>)
    qed
    then show ?thesis by (simp only: val_def place_parts [OF that(2,3)])
  qed
  then show ?thesis using sv by blast
qed

text \<open>The 16 bytes of a coordinate of a block.\<close>

definition copied :: "bytes list \<Rightarrow> bytes \<Rightarrow> bool" where
  "copied hashes sv \<longleftrightarrow> (\<forall>b<length hashes div 16. \<forall>k<24.
     lanes_at sv (16 * b * 24 + k * 16) = Inr (map (\<lambda>l. hashes ! (16 * b + l) ! k) [0..<16]))"

lemma shuffle_copied:
  assumes "vectors hashes" "length hashes mod 16 = 0"
  obtains sv where "shuffle hashes = Inr sv" "copied hashes sv"
proof -
  obtain sv where sv: "shuffle hashes = Inr sv" "length sv = length hashes * 24"
    and at: "\<And>b j k. b < length hashes div 16 \<Longrightarrow> j < 16 \<Longrightarrow> k < 24 \<Longrightarrow>
      sv ! (16 * b * 24 + k * 16 + j) = hashes ! (16 * b + j) ! k"
    using shuffle_ok [OF assms] by blast
  have "copied hashes sv" unfolding copied_def
  proof (intro allI impI)
    fix b k assume b: "b < length hashes div 16" and k: "k < (24 :: nat)"
    then have "16 * b + 16 \<le> length hashes" using assms(2) by auto
    then have room: "16 * b * 24 + k * 16 + 16 \<le> length sv" using sv(2) k by auto
    have "take 16 (drop (16 * b * 24 + k * 16) sv) = map (\<lambda>l. hashes ! (16 * b + l) ! k) [0..<16]"
    proof (rule nth_equalityI)
      show "length (take 16 (drop (16 * b * 24 + k * 16) sv)) =
          length (map (\<lambda>l. hashes ! (16 * b + l) ! k) [0..<16])" using room by simp
    next
      fix l assume "l < length (take 16 (drop (16 * b * 24 + k * 16) sv))"
      then have "l < 16" by simp
      then show "take 16 (drop (16 * b * 24 + k * 16) sv) ! l = map (\<lambda>l. hashes ! (16 * b + l) ! k) [0..<16] ! l"
        using at [OF b _ k, of l] room by simp
    qed
    then show "lanes_at sv (16 * b * 24 + k * 16) = Inr (map (\<lambda>l. hashes ! (16 * b + l) ! k) [0..<16])"
      using room by (simp add: lanes_at_def loadu_si128_def)
  qed
  then show thesis using that sv(1) by blast
qed

section \<open>Searching block by block\<close>

lemma scan_append: "scan T q i (xs @ ys) b = scan T q (i + int (length xs)) ys (scan T q i xs b)"
  by (induction xs arbitrary: i b) (simp_all add: add.assoc)

lemma scan_le: "unat (fst (scan T q i hs b)) \<le> unat (fst b)"
proof (induction hs arbitrary: i b)
  case (Cons h hs)
  have "unat (fst (better T q i h b)) \<le> unat (fst b)" by (simp add: better_def Let_def unat_sqdist)
  then show ?case using Cons [of "i + 1" "better T q i h b"] by simp
qed simp

lemma sqdist_24: "length q = 144 \<Longrightarrow> length h = 144 \<Longrightarrow>
    sqdist 144 q h = sqdist 24 q h + sqdist 120 (drop 24 q) (drop 24 h)"
  using sqdist_split [of 24 q h 120] by simp

definition lane_of :: "bytes list \<Rightarrow> nat \<Rightarrow> bytes list" where
  "lane_of hashes b = map (\<lambda>l. hashes ! (16 * b + l)) [0..<16]"

lemma take_lane_of:
  "16 * b + 16 \<le> length hashes \<Longrightarrow> take (16 * Suc b) hashes = take (16 * b) hashes @ lane_of hashes b"
  by (intro nth_equalityI) (auto simp: lane_of_def nth_append)

text \<open>
  The contract of the two programs: the step for a block updates, for every place of the batch, the best
  vector of all 16 lanes, held as \<open>rep\<close> of it.
\<close>

locale block_program =
  fixes step :: "bytes list \<Rightarrow> bytes list \<Rightarrow> bytes \<Rightarrow> nat \<Rightarrow> 'p list \<Rightarrow> md_stop + 'p list"
    and rep :: "best \<Rightarrow> 'p" and T :: nat and in_range :: "best \<Rightarrow> bool"
  assumes range_better: "in_range x \<Longrightarrow> in_range (better T q i h x)"
    and step_ok: "vectors hashes \<Longrightarrow> copied hashes sv \<Longrightarrow> b < length hashes div 16 \<Longrightarrow>
    vectors queries \<Longrightarrow> length queries = 6 \<Longrightarrow> length bests = 6 \<Longrightarrow>
    (\<And>x. x \<in> set bests \<Longrightarrow> in_range x) \<Longrightarrow>
    step hashes queries sv (16 * b) (map rep bests) =
      Inr (map rep (map2 (\<lambda>q. scan T q (int (16 * b)) (lane_of hashes b)) queries bests))"
begin

lemma range_scan: "in_range b \<Longrightarrow> in_range (scan T q i hs b)"
  by (induction hs arbitrary: i b) (simp_all add: range_better)

lemma blocks_ok:
  assumes "vectors hashes" "copied hashes sv" "length hashes mod 16 = 0"
    and "vectors queries" "length queries = 6" "in_range x"
  shows "rfold (step hashes queries sv) (blocks (length hashes)) (replicate 6 (rep x)) =
    Inr (map (\<lambda>q. rep (scan T q 0 hashes x)) queries)"
proof -
  have r: "map (\<lambda>q. x) queries = replicate 6 x" using assms(5) by (simp add: map_replicate_const)
  have "rfold (\<lambda>b. step hashes queries sv (16 * b)) [0..<n] (map rep (replicate 6 x)) =
      Inr (map rep (map (\<lambda>q. scan T q 0 (take (16 * n) hashes) x) queries))"
    if "n \<le> length hashes div 16" for n
    using that
  proof (induction n)
    case 0
    then show ?case using r by simp
  next
    case (Suc n)
    let ?bests = "map (\<lambda>q. scan T q 0 (take (16 * n) hashes) x) queries"
    have n: "n < length hashes div 16" "16 * n + 16 \<le> length hashes" using Suc.prems assms(3) by auto
    have le: "in_range y" if "y \<in> set ?bests" for y
      using that assms(6) by (auto intro: range_scan)
    have "step hashes queries sv (16 * n) (map rep ?bests) =
        Inr (map rep (map2 (\<lambda>q. scan T q (int (16 * n)) (lane_of hashes n)) queries ?bests))"
      by (rule step_ok) (use assms n le in auto)
    also have "map2 (\<lambda>q. scan T q (int (16 * n)) (lane_of hashes n)) queries ?bests =
        map (\<lambda>q. scan T q 0 (take (16 * Suc n) hashes) x) queries"
      using n(2) by (intro nth_equalityI) (simp_all add: take_lane_of scan_append del: mult_Suc_right)
    finally show ?case using Suc by (simp add: rfold_upt_Suc del: upt_Suc)
  qed
  moreover have "16 * (length hashes div 16) = length hashes" using assms(3) by auto
  ultimately show ?thesis by (simp add: blocks_def rfold_map LANE_SIZE_def comp_def)
qed

end

section \<open>The scores of a block\<close>

lemma block_scores_ok:
  assumes "copied hashes sv" "b < length hashes div 16" "length queries = 6"
  shows "block_scores queries sv (16 * b) =
    Inr (map (\<lambda>q. map (\<lambda>h. of_nat (sqdist 24 q h)) (lane_of hashes b)) queries)"
proof -
  have "rfold (score_step queries sv (16 * b)) [0..<n] (replicate 6 (replicate 16 0)) =
      Inr (map (\<lambda>q. map (\<lambda>h. of_nat (sqdist n q h)) (lane_of hashes b)) queries)" if "n \<le> 24" for n
    using that
  proof (induction n)
    case 0
    then show ?case using assms(3) by (auto simp: lane_of_def intro!: nth_equalityI)
  next
    case (Suc n)
    have row: "score_row x (map (\<lambda>l. hashes ! (16 * b + l) ! n) [0..<16])
          (map (\<lambda>h. of_nat (sqdist n q h)) (lane_of hashes b)) =
        map (\<lambda>h. of_nat (sqdist (Suc n) q h)) (lane_of hashes b)" if "x = q ! n" for x q
      unfolding that by (intro nth_equalityI) (simp_all add: score_row_def lane_of_def Let_def sq32 sqdist_Suc)
    have "map2 (\<lambda>q r. score_row (q ! n) (map (\<lambda>l. hashes ! (16 * b + l) ! n) [0..<16]) r) queries
          (map (\<lambda>q. map (\<lambda>h. of_nat (sqdist n q h)) (lane_of hashes b)) queries) =
        map (\<lambda>q. map (\<lambda>h. of_nat (sqdist (Suc n) q h)) (lane_of hashes b)) queries"
      by (intro nth_equalityI) (simp_all add: row)
    moreover have "lanes_at sv (16 * b * 24 + n * 16) = Inr (map (\<lambda>l. hashes ! (16 * b + l) ! n) [0..<16])"
      using assms(1,2) Suc.prems by (simp add: copied_def)
    ultimately show ?case using Suc
      by (simp add: rfold_upt_Suc score_step_def INV_MIXER_def LANE_SIZE_def del: upt_Suc)
  qed
  from this [of 24] show ?thesis
    by (simp add: block_scores_def INV_MIXER_def BATCH_SIZE_def LANE_SIZE_def del: upt_Suc)
qed

lemma inv_lane_ok:
  assumes "length q = 144" "length (hashes ! (i + l)) = 144" "row ! l = of_nat (sqdist 24 q (hashes ! (i + l)))"
  shows "inv_lane threshold hashes i q row l b = Inr (better (unat threshold) q (int (i + l)) (hashes ! (i + l)) b)"
proof -
  let ?h = "hashes ! (i + l)"
  let ?s = "sqdist 24 q ?h" and ?r = "sqdist 120 (drop 24 q) (drop 24 ?h)"
  have all: "sqdist 144 q ?h = ?s + ?r" using assms by (intro sqdist_24)
  have u: "unat (of_nat ?s :: u32) = ?s" "unat (of_nat ?s + of_nat ?r :: u32) = ?s + ?r"
    using sqdist_small [of 144 q ?h] all by (simp_all add: unat_of_nat take_bit_nat_eq_self_iff flip: of_nat_add)
  have "distance (drop 24 q) (drop 24 ?h) 120 = Inr (of_nat ?r)"
    using distance_ok [of 120 "drop 24 q" "drop 24 ?h"] assms by simp
  then show ?thesis
    by (auto simp: inv_lane_def INV_MIXER_def assms(3) better_def Let_def word_less_nat_alt word_le_nat_alt u all)
qed

text \<open>A loop over lanes whose step is \<open>better\<close>.\<close>

lemma rfold_lanes:
  assumes "\<And>l b. l < n \<Longrightarrow> f l b = Inr (better T q (int (16 * k + l)) (hashes ! (16 * k + l)) b)" "n \<le> 16"
  shows "rfold f [0..<n] b = Inr (scan T q (int (16 * k)) (take n (lane_of hashes k)) b)"
  using assms
proof (induction n)
  case (Suc n)
  have t: "take (Suc n) (lane_of hashes k) = take n (lane_of hashes k) @ [hashes ! (16 * k + n)]"
    using Suc.prems(2) by (simp add: lane_of_def take_Suc_conv_app_nth)
  have "length (take n (lane_of hashes k)) = n" using Suc.prems(2) by (simp add: lane_of_def)
  then show ?case using Suc by (simp add: rfold_upt_Suc t scan_snoc del: upt_Suc)
qed simp

lemma inv_queries_ok:
  assumes "vectors hashes" "16 * k + 16 \<le> length hashes" "vectors queries" "length bests = length queries"
  shows "inv_queries threshold hashes (16 * k) queries
      (map (\<lambda>q. map (\<lambda>h. of_nat (sqdist 24 q h)) (lane_of hashes k)) queries) bests =
    Inr (map2 (\<lambda>q. scan (unat threshold) q (int (16 * k)) (lane_of hashes k)) queries bests)"
  using assms(4,3)
proof (induction bests queries rule: list_induct2)
  case (Cons b bests q queries)
  have h: "length (hashes ! (16 * k + l)) = 144" if "l < 16" for l
    using that assms(1,2) by (simp add: vectors_def)
  have "rfold (inv_lane threshold hashes (16 * k) q (map (\<lambda>h. of_nat (sqdist 24 q h)) (lane_of hashes k)))
      [0..<16] b = Inr (scan (unat threshold) q (int (16 * k)) (take 16 (lane_of hashes k)) b)"
    using Cons.prems h by (intro rfold_lanes inv_lane_ok) (simp_all add: vectors_def lane_of_def)
  then show ?case using Cons by (simp add: LANE_SIZE_def vectors_def lane_of_def)
qed simp

interpretation inv: block_program "inv_block threshold" "\<lambda>b. b" "unat threshold" "\<lambda>b. True" for threshold
proof (unfold_locales, rule TrueI)
  fix hashes queries :: "bytes list" and sv b and bests :: "best list"
  assume a: "vectors hashes" "copied hashes sv" "b < length hashes div 16" "vectors queries"
    "length queries = 6" "length bests = 6"
  then have "16 * b + 16 \<le> length hashes" by auto
  then show "inv_block threshold hashes queries sv (16 * b) (map (\<lambda>b. b) bests) =
      Inr (map (\<lambda>b. b) (map2 (\<lambda>q. scan (unat threshold) q (int (16 * b)) (lane_of hashes b)) queries bests))"
    using a by (simp add: inv_block_def block_scores_ok inv_queries_ok)
qed

section \<open>The programs\<close>

text \<open>The places of a batch; what is printed are the queries.\<close>

lemma all_places_ok:
  assumes "length queries \<le> BATCH_SIZE" "\<And>q. q \<in> set queries \<Longrightarrow> length q = 144"
  shows "vectors (all_places queries)" "length (all_places queries) = 6"
    "take (length queries) (map f (all_places queries)) = map f queries"
  using assms by (auto simp: all_places_def vectors_def BATCH_SIZE_def)

definition sixteens :: "bytes list \<Rightarrow> bool" where
  "sixteens hashes \<longleftrightarrow> vectors hashes \<and> length hashes mod 16 = 0"

interpretation inv_batch: batch_program "inv_search threshold" print_best sixteens "unat threshold" for threshold
proof
  fix hashes queries :: "bytes list"
  assume s: "sixteens hashes" and q: "length queries \<le> BATCH_SIZE" "\<And>q. q \<in> set queries \<Longrightarrow> length q = 144"
  have v: "vectors hashes" "length hashes mod 16 = 0" using s by (simp_all add: sixteens_def)
  note p = all_places_ok [OF q]
  obtain sv where sv: "shuffle hashes = Inr sv" "copied hashes sv" by (rule shuffle_copied [OF v])
  have T: "unat threshold \<le> NO_LIMIT" using unat_less_exp [of threshold] by (simp add: NO_LIMIT_def)
  let ?bests = "map (\<lambda>q. scan (unat threshold) q 0 hashes (0xffffffff, - 1)) (all_places queries)"
  have "rfold (inv_block threshold hashes (all_places queries) sv) (blocks (length hashes))
      (replicate 6 (0xffffffff, - 1)) = Inr ?bests"
    using v sv(2) p(1,2) by (intro inv.blocks_ok) simp_all
  then have "inv_search threshold hashes queries = Inr ?bests"
    by (simp add: inv_search_def sv(1) no_best_def BATCH_SIZE_def)
  moreover have "map print_best (take (length queries) ?bests) = map (answer (unat threshold) hashes) queries"
    by (simp only: p(3) map_map comp_def print_scan(2) [OF T])
  ultimately show "\<exists>bests. inv_search threshold hashes queries = Inr bests \<and>
      map print_best (take (length queries) bests) = map (answer (unat threshold) hashes) queries" by blast
qed

text \<open>
  C7: the program prints the first nearest vector whose distance is below the threshold, for a database
  whose size is a multiple of 16; any other it refuses.
\<close>

theorem inv_output:
  "inv_main arg env old s = with_database env (\<lambda>hashes.
     if length hashes mod 16 \<noteq> 0 then ([], Inl (Quit (- 1)))
     else expected (unat (threshold_arg arg)) 6 old s hashes)"
proof -
  have B: "BATCH_SIZE = 6" by (simp add: BATCH_SIZE_def)
  have "statistics (batch_loop (inv_search t hashes) print_best old s 0) = expected (unat t) BATCH_SIZE old s hashes"
    if "vectors hashes" "length hashes mod 16 = 0" for t hashes
    by (subst batch_expected [symmetric], cases "all_queries old s", simp only: prod.case)
      (subst inv_batch.batch_loop_ok; use that in \<open>simp add: sixteens_def\<close>)
  then show ?thesis
    unfolding inv_main_def by (intro with_database_cong) (simp add: LANE_SIZE_def B)
qed

end
