(* ===== verification/Mmdist_Inv_Avx2.thy ===== *)
theory Mmdist_Inv_Avx2
  imports Mmdist_Inv
begin

text \<open>
  \<open>mmdist-short-inv-avx2.c\<close> of \<open>2020-12-mmdist\<close>: the search over the transposed copy with AVX2
  intrinsics, saturating 16-bit sums and a mask of the lanes that are near enough. The copy, made by
  \<open>calloc\<close>, is aligned to 16 bytes, so that the aligned loads at multiples of 16 are defined.

  The theorem: the program prints, for each query, the first nearest vector below its threshold, which
  is at most 65534.
\<close>

unbundle bit_operations_syntax

section \<open>mmdist-short-inv-avx2.c\<close>

text \<open>Further intrinsics, on 16 lanes of 16 bits.\<close>

definition mullo_epi16 :: "u16 list \<Rightarrow> u16 list \<Rightarrow> u16 list" where
  "mullo_epi16 xs ys = map2 (*) xs ys"

definition adds_epu16 :: "u16 list \<Rightarrow> u16 list \<Rightarrow> u16 list" where
  "adds_epu16 xs ys = map2 (\<lambda>x y. of_nat (min 65535 (unat x + unat y))) xs ys"

definition subs_epu16 :: "u16 list \<Rightarrow> u16 list \<Rightarrow> u16 list" where
  "subs_epu16 xs ys = map2 (\<lambda>x y. if y \<le> x then x - y else 0) xs ys"

definition movemask_epi8 :: "u16 list \<Rightarrow> u32" where
  "movemask_epi8 xs = movemask (concat (map (le_bytes 2) xs))"

definition ffsll :: "u64 \<Rightarrow> nat" where
  "ffsll z = (case filter (bit z) [0..<64] of [] \<Rightarrow> 0 | k # _ \<Rightarrow> k + 1)"

definition sum_step :: "bytes list \<Rightarrow> bytes \<Rightarrow> nat \<Rightarrow> nat \<Rightarrow> u16 list list \<Rightarrow> md_stop + u16 list list" where
  "sum_step queries sv ii j scores =
     rbind (lanes_at sv (ii * INV_MIXER + j * LANE_SIZE)) (\<lambda>hs.
     let h_16x16 = cvtepu8_epi16 hs in
     Inr (map2 (\<lambda>q score.
       let n_16x16 = set1 16 (ucast (q ! j)); d_16x16 = sub_epi16 h_16x16 n_16x16;
           sq = mullo_epi16 d_16x16 d_16x16 in
       adds_epu16 score sq) queries scores))"

definition block_sums :: "bytes list \<Rightarrow> bytes \<Rightarrow> nat \<Rightarrow> md_stop + u16 list list" where
  "block_sums queries sv ii =
     rfold (sum_step queries sv ii) [0..<INV_MIXER] (replicate BATCH_SIZE (set1 16 1))"

text \<open>\<open>min_dist\<close>, \<open>min_idx\<close> and \<open>thres_8\<close> of a query.\<close>

type_synonym place = "best \<times> u16 list"

definition place_of :: "best \<Rightarrow> place" where
  "place_of b = (b, set1 16 (ucast (fst b)))"

definition mask_of :: "u16 list \<Rightarrow> place \<Rightarrow> u32" where
  "mask_of score p = movemask_epi8 (cmpeq (set1 16 0) (subs_epu16 score (snd p)))"

definition avx2_lane :: "bytes list \<Rightarrow> nat \<Rightarrow> bytes \<Rightarrow> nat \<Rightarrow> place \<Rightarrow> md_stop + place" where
  "avx2_lane hashes ii query j p =
     rbind (distance_avx2 query (hashes ! (ii + j)) 144) (\<lambda>full_dist.
       Inr (if full_dist < fst (fst p) then place_of (full_dist, int (ii + j)) else p))"

text \<open>The loop over the bits of the mask: the lowest bit is cleared in each round.\<close>

lemma ffsll_bits:
  assumes "mm \<noteq> (0 :: u64)"
  obtains k ks where "filter (bit mm) [0..<64] = k # ks" "ffsll mm = k + 1" "bit mm k"
proof -
  obtain n where "bit mm n" "n < 64" using assms by (auto simp: bit_eq_iff [where ?'a = "64 word"])
  then have "n \<in> set (filter (bit mm) [0..<64])" by simp
  then obtain k ks where k: "filter (bit mm) [0..<64] = k # ks" by (cases "filter (bit mm) [0..<64]") auto
  then have "k \<in> set (filter (bit mm) [0..<64])" by simp
  then have "bit mm k" by (simp only: set_filter mem_Collect_eq)
  then show thesis using that [OF k] by (simp add: ffsll_def k)
qed

lemma bit_clear: "bit (mm AND NOT (push_bit k 1)) n \<longleftrightarrow> bit mm n \<and> n \<noteq> k" for mm :: u64
  by (cases "n < 64") (auto simp: bit_simps dest: bit_imp_le_length)

lemma clear_bit_less:
  assumes "mm \<noteq> (0 :: u64)"
  shows "unat (mm AND NOT (push_bit (ffsll mm - 1) 1)) < unat mm"
proof -
  obtain k ks where k: "ffsll mm - 1 = k" "bit mm k" by (rule ffsll_bits [OF assms]) simp
  have "mm AND NOT (push_bit k 1) \<noteq> mm" using bit_clear [of mm k k] k(2) by auto
  moreover have "mm AND NOT (push_bit k 1) \<le> mm"
    by (rule word_and_le2)
  ultimately have "mm AND NOT (push_bit k 1) < mm" by (simp only: order_less_le simp_thms)
  then show ?thesis by (simp only: k(1) word_less_nat_alt)
qed

function mask_loop :: "bytes list \<Rightarrow> nat \<Rightarrow> bytes \<Rightarrow> u64 \<Rightarrow> place \<Rightarrow> md_stop + place" where
  "mask_loop hashes ii query mm p =
     (if mm = 0 then Inr p
      else
        let bitno = ffsll mm - 1; mm = mm AND NOT (push_bit bitno 1); j = bitno div 2 in
        rbind (avx2_lane hashes ii query j p) (mask_loop hashes ii query mm))"
  by pat_completeness auto
termination by (relation "measure (\<lambda>(_, _, _, mm, _). unat mm)") (auto intro: clear_bit_less simp del: push_bit_of_1 One_nat_def)

declare mask_loop.simps [simp del]

fun avx2_places :: "bytes list \<Rightarrow> nat \<Rightarrow> bytes list \<Rightarrow> u32 list \<Rightarrow> place list \<Rightarrow> md_stop + place list" where
  "avx2_places hashes ii (q # qs) (mm # mms) (p # ps) =
     rbind (if mm = 0 then Inr p
            else mask_loop hashes ii q (ucast mm AND 0x5555555555555555) p) (\<lambda>p.
     rbind (avx2_places hashes ii qs mms ps) (\<lambda>ps. Inr (p # ps)))"
| "avx2_places hashes ii _ _ _ = Inr []"

definition avx2_block :: "bytes list \<Rightarrow> bytes list \<Rightarrow> bytes \<Rightarrow> nat \<Rightarrow> place list \<Rightarrow> md_stop + place list" where
  "avx2_block hashes queries sv ii ps =
     rbind (block_sums queries sv ii) (\<lambda>scores.
     let mm = map2 mask_of scores ps; cc = fold (OR) mm 0 in
     if cc = 0 then Inr ps else avx2_places hashes ii queries mm ps)"

definition clamp :: "u32 \<Rightarrow> u32" where
  "clamp threshold = (if threshold \<ge> 65535 then 65534 else threshold)"

definition inv_avx2_search :: "u32 \<Rightarrow> bytes list \<Rightarrow> bytes list \<Rightarrow> md_stop + best list" where
  "inv_avx2_search threshold hashes queries =
     rbind (shuffle hashes) (\<lambda>sv.
     rbind (rfold (avx2_block hashes (all_places queries) sv) (blocks (length hashes))
         (map place_of (no_best threshold))) (\<lambda>ps.
       Inr (map fst ps)))"

definition print_found :: "best \<Rightarrow> line" where
  "print_found b = (if snd b \<noteq> -1 then Sq_dist (sint (fst b)) (snd b) else Sq_dist (-1) (snd b))"

definition inv_avx2_main :: "bytes option \<Rightarrow> load_env \<Rightarrow> bytes \<Rightarrow> bytes \<Rightarrow> line list \<times> (md_stop + nat)" where
  "inv_avx2_main arg env old s = with_database env (\<lambda>hashes.
     if length hashes mod LANE_SIZE \<noteq> 0 then ([], Inl (Quit (-1)))
     else statistics (batch_loop (inv_avx2_search (clamp (threshold_arg arg)) hashes) print_found old s 0))"


section \<open>The saturating sums\<close>

lemma sq_commute: "sq x y = sq y x"
  by (simp add: sq_def power2_commute)

lemma sq16: "unat (of_nat (sq x y) :: u16) = sq x y"
  using sq_le [of x y] by (simp add: unat_of_nat take_bit_nat_eq_self_iff)

lemma sq_lane: "(ucast x - ucast y) * (ucast x - ucast y) = (of_nat (sq y x) :: u16)"
  unfolding sq_commute [of y x] of_nat_sq by simp

definition sum_of :: "nat \<Rightarrow> u16" where
  "sum_of s = of_nat (min 65535 (1 + s))"

lemma unat_sum_of: "unat (sum_of s) = min 65535 (1 + s)"
  unfolding sum_of_def unat_of_nat by (rule mod_less) simp

lemma adds_sum_of:
  "(of_nat (min 65535 (unat (sum_of s) + unat (of_nat (sq x y) :: u16))) :: u16) = sum_of (s + sq x y)"
proof -
  have "min 65535 (min 65535 (1 + s) + sq x y) = min 65535 (1 + (s + sq x y))" by auto
  then show ?thesis by (simp only: unat_sum_of sq16) (simp only: sum_of_def)
qed

lemma block_sums_ok:
  assumes "copied hashes sv" "b < length hashes div 16" "length queries = 6"
  shows "block_sums queries sv (16 * b) = Inr (map (\<lambda>q. map (\<lambda>h. sum_of (sqdist 24 q h)) (lane_of hashes b)) queries)"
proof -
  have "rfold (sum_step queries sv (16 * b)) [0..<n] (replicate 6 (set1 16 1)) =
      Inr (map (\<lambda>q. map (\<lambda>h. sum_of (sqdist n q h)) (lane_of hashes b)) queries)" if "n \<le> 24" for n
    using that
  proof (induction n)
    case 0
    then show ?case using assms(3) by (auto simp: lane_of_def set1_def sum_of_def intro!: nth_equalityI)
  next
    case (Suc n)
    let ?h = "cvtepu8_epi16 (map (\<lambda>l. hashes ! (16 * b + l) ! n) [0..<16])"
    have row: "adds_epu16 (map (\<lambda>h. sum_of (sqdist n q h)) (lane_of hashes b))
          (mullo_epi16 (sub_epi16 ?h (set1 16 (ucast (q ! n)))) (sub_epi16 ?h (set1 16 (ucast (q ! n))))) =
        map (\<lambda>h. sum_of (sqdist (Suc n) q h)) (lane_of hashes b)" for q
      by (intro nth_equalityI)
        (simp_all add: adds_epu16_def mullo_epi16_def sub_epi16_def cvtepu8_epi16_def set1_def lane_of_def
          sq_lane adds_sum_of sqdist_Suc)
    have "map2 (\<lambda>q score. adds_epu16 score
          (mullo_epi16 (sub_epi16 ?h (set1 16 (ucast (q ! n)))) (sub_epi16 ?h (set1 16 (ucast (q ! n)))))) queries
          (map (\<lambda>q. map (\<lambda>h. sum_of (sqdist n q h)) (lane_of hashes b)) queries) =
        map (\<lambda>q. map (\<lambda>h. sum_of (sqdist (Suc n) q h)) (lane_of hashes b)) queries"
      by (intro nth_equalityI) (simp_all add: row)
    moreover have "lanes_at sv (16 * b * 24 + n * 16) = Inr (map (\<lambda>l. hashes ! (16 * b + l) ! n) [0..<16])"
      using assms(1,2) Suc.prems by (simp add: copied_def)
    ultimately show ?case using Suc
      by (simp add: rfold_upt_Suc sum_step_def INV_MIXER_def LANE_SIZE_def Let_def del: upt_Suc)
  qed
  from this [of 24] show ?thesis
    by (simp add: block_sums_def INV_MIXER_def BATCH_SIZE_def del: upt_Suc)
qed

section \<open>The mask\<close>

lemma nth_concat_pairs:
  assumes "\<And>x. length (f x) = 2" "k < 2 * length xs"
  shows "concat (map f xs) ! k = f (xs ! (k div 2)) ! (k mod 2)"
  using assms(2)
proof (induction xs arbitrary: k)
  case (Cons x xs)
  show ?case
  proof (cases "k < 2")
    case True
    then show ?thesis by (simp add: nth_append assms(1))
  next
    case False
    then obtain j where "k = j + 2" by (metis le_add_diff_inverse2 not_less)
    then show ?thesis using Cons by (simp add: nth_append assms(1))
  qed
qed simp

lemma bit_mask_of:
  assumes "length score = 16" "unat (fst b) \<le> 65534"
  shows "bit (mask_of score (place_of b)) k \<longleftrightarrow> k < 32 \<and> unat (score ! (k div 2)) \<le> unat (fst b)"
proof -
  let ?x = "cmpeq (set1 16 0) (subs_epu16 score (snd (place_of b)))"
  have u: "unat (ucast (fst b) :: u16) = unat (fst b)"
    using assms(2) by (simp add: unsigned_ucast_eq take_bit_nat_eq_self_iff)
  have l: "length ?x = 16" using assms(1) by (simp add: cmpeq_def subs_epu16_def place_of_def set1_def)
  have x: "?x ! j = (if unat (score ! j) \<le> unat (fst b) then - 1 else 0)" if "j < 16" for j
    using that assms(1) u
    by (auto simp: cmpeq_def subs_epu16_def place_of_def set1_def word_le_nat_alt) (metis word_unat_eq_iff)
  have len: "length (concat (map (le_bytes 2) ?x)) = 32" using l by (simp add: length_concat comp_def sum_list_triv)
  show ?thesis
  proof (cases "k < 32")
    case False
    then show ?thesis using bit_imp_le_length [of "mask_of score (place_of b)" k] by auto
  next
    case True
    then have j: "k div 2 < 16" by simp
    have "bit (mask_of score (place_of b)) k \<longleftrightarrow> bit (le_bytes 2 (?x ! (k div 2)) ! (k mod 2)) 7"
      using True l len by (simp add: mask_of_def movemask_epi8_def bit_movemask nth_concat_pairs)
    also have "\<dots> \<longleftrightarrow> unat (score ! (k div 2)) \<le> unat (fst b)"
      unfolding x [OF j] by (cases "k mod 2") (auto simp: nth_le_bytes bit_simps)
    finally show ?thesis using True by simp
  qed
qed

lemma near_lane:
  assumes "unat t \<le> 65534"
  shows "unat (sum_of s) \<le> unat t \<longleftrightarrow> s < unat t"
  using assms by (auto simp: unat_sum_of min_def)

section \<open>The loop over the mask\<close>

lemma filter_minus_first:
  assumes "filter P [0..<n] = k # ks"
  shows "filter (\<lambda>i. P i \<and> i \<noteq> k) [0..<n] = ks"
proof -
  have "filter (\<lambda>i. P i \<and> i \<noteq> k) [0..<n] = filter (\<lambda>i. i \<noteq> k) (filter P [0..<n])"
    by (simp add: conj_commute)
  moreover have "distinct (k # ks)" using assms by (metis distinct_filter distinct_upt)
  ultimately show ?thesis unfolding assms by (auto simp: filter_id_conv)
qed

lemma mask_loop_bits:
  "mask_loop hashes ii q mm p = rfold (\<lambda>k. avx2_lane hashes ii q (k div 2)) (filter (bit mm) [0..<64]) p"
proof (induction hashes ii q mm p rule: mask_loop.induct)
  case (1 hashes ii q mm p)
  show ?case
  proof (cases "mm = 0")
    case True
    then show ?thesis by (subst mask_loop.simps) simp
  next
    case False
    obtain k ks where k: "filter (bit mm) [0..<64] = k # ks" "ffsll mm - 1 = k" by (rule ffsll_bits [OF False]) simp
    let ?mm = "mm AND NOT (push_bit k 1)"
    have ks: "filter (bit ?mm) [0..<64] = ks"
    proof -
      have "bit ?mm = (\<lambda>i. bit mm i \<and> i \<noteq> k)" by (rule ext) (rule bit_clear)
      then show ?thesis using filter_minus_first [OF k(1)] by (simp only:)
    qed
    show ?thesis
    proof (cases "avx2_lane hashes ii q (k div 2) p")
      case (Inl e)
      then show ?thesis unfolding k(1) by (subst mask_loop.simps) (simp only: False k(2) Let_def if_False rfold.simps rbind_simps)
    next
      case (Inr p')
      have "mask_loop hashes ii q ?mm p' = rfold (\<lambda>k. avx2_lane hashes ii q (k div 2)) ks p'"
        using "1.IH" [OF False k(2) [symmetric] refl refl Inr] unfolding ks .
      then show ?thesis unfolding k(1)
        by (subst mask_loop.simps) (simp only: False k(2) Let_def if_False rfold.simps Inr rbind_simps)
    qed
  qed
qed

lemma filter_even:
  "filter (\<lambda>k. even k \<and> C (k div 2)) [0..<2 * n] = map ((*) 2) (filter C [0..<n])"
proof (induction n)
  case (Suc n)
  have "[0..<2 * Suc n] = [0..<2 * n] @ [2 * n, Suc (2 * n)]" by simp
  then show ?case using Suc by (simp del: upt_Suc add: upt_Suc_append)
qed simp

text \<open>The bits at even places of a 32-bit mask.\<close>

lemma filter_mask:
  assumes "\<And>k. bit mm k \<longleftrightarrow> k < 32 \<and> C (k div 2)"
  shows "filter (bit (ucast (mm :: u32) AND 0x5555555555555555 :: u64)) [0..<64] = map ((*) 2) (filter C [0..<16])"
proof -
  have five: "bit (0x5555555555555555 :: u64) k \<longleftrightarrow> even k" if "k < 64" for k
  proof -
    have "\<forall>k\<in>set [0..<64]. bit (0x5555555555555555 :: u64) k \<longleftrightarrow> even k" by code_simp
    then show ?thesis using that by simp
  qed
  have halves: "[0..<64] = [0..<2 * 16] @ [32..<64 :: nat]" using upt_add_eq_append [of 0 32 32] by simp
  have "filter (bit (ucast mm AND 0x5555555555555555 :: u64)) [0..<64] =
      filter (\<lambda>k. k < 32 \<and> even k \<and> C (k div 2)) [0..<64]"
    by (rule filter_cong [OF refl], simp only: bit_and_iff bit_ucast_iff assms five set_upt atLeastLessThan_iff) auto
  also have "\<dots> = filter (\<lambda>k. even k \<and> C (k div 2)) [0..<2 * 16]"
    unfolding halves by (simp only: filter_append) (auto simp: filter_empty_conv intro: filter_cong)
  finally show ?thesis by (simp only: filter_even)
qed

lemma mask_loop_lanes:
  assumes "\<And>k. bit mm k \<longleftrightarrow> k < 32 \<and> C (k div 2)"
  shows "mask_loop hashes ii q (ucast (mm :: u32) AND 0x5555555555555555) p =
    rfold (avx2_lane hashes ii q) (filter C [0..<16]) p"
  by (simp only: mask_loop_bits filter_mask [OF assms] rfold_map) simp

section \<open>The places of a block\<close>

lemma avx2_lane_ok:
  assumes "length q = 144" "length (hashes ! (ii + j)) = 144" "unat (fst b) \<le> T"
  shows "avx2_lane hashes ii q j (place_of b) = Inr (place_of (better T q (int (ii + j)) (hashes ! (ii + j)) b))"
  using distance_avx2_ok [of 144 q "hashes ! (ii + j)"] assms
  by (auto simp: avx2_lane_def better_def Let_def word_less_nat_alt unat_sqdist place_of_def)

lemma rfold_snoc: "rfold f (xs @ [x]) s = rbind (rfold f xs s) (f x)"
proof -
  have "rfold f [x] = f x"
  proof
    fix s show "rfold f [x] s = f x s" by (cases "f x s") simp_all
  qed
  then show ?thesis by (simp only: rfold_append)
qed

text \<open>A lane that was not near enough at the start is not better later.\<close>

lemma better_far:
  assumes "length q = 144" "length h = 144" "unat (fst b) \<le> sqdist 24 q h"
  shows "better T q i h b = b"
  using assms sqdist_24 [of q h] by (simp add: better_def)

lemma rfold_near:
  assumes "vectors hashes" "16 * k + 16 \<le> length hashes" "length q = 144" "unat (fst b) \<le> T" "n \<le> 16"
  shows "rfold (avx2_lane hashes (16 * k) q)
      (filter (\<lambda>l. sqdist 24 q (hashes ! (16 * k + l)) < unat (fst b)) [0..<n]) (place_of b) =
    Inr (place_of (scan T q (int (16 * k)) (take n (lane_of hashes k)) b))"
  using assms(5)
proof (induction n)
  case (Suc n)
  let ?h = "hashes ! (16 * k + n)" and ?b = "scan T q (int (16 * k)) (take n (lane_of hashes k)) b"
  have t: "take (Suc n) (lane_of hashes k) = take n (lane_of hashes k) @ [?h]"
    using Suc.prems by (simp add: lane_of_def take_Suc_conv_app_nth)
  have len: "min (length (lane_of hashes k)) n = n" using Suc.prems by (simp add: lane_of_def)
  have h: "length ?h = 144" using assms(1,2) Suc.prems by (simp add: vectors_def)
  have le: "unat (fst ?b) \<le> unat (fst b)" by (rule scan_le)
  show ?case
  proof (cases "sqdist 24 q ?h < unat (fst b)")
    case True
    have "avx2_lane hashes (16 * k) q n (place_of ?b) = Inr (place_of (better T q (int (16 * k + n)) ?h ?b))"
      using assms(3,4) h le by (intro avx2_lane_ok) simp_all
    then show ?thesis using Suc True by (simp add: rfold_snoc t scan_snoc len)
  next
    case False
    then have "better T q (int (16 * k) + int n) ?h ?b = ?b"
      using le by (intro better_far assms(3) h) simp
    then show ?thesis using Suc False by (simp add: t scan_snoc len)
  qed
qed simp

text \<open>All places of the batch, with the test whether a mask is zero.\<close>

definition near :: "bytes list \<Rightarrow> nat \<Rightarrow> bytes \<Rightarrow> best \<Rightarrow> nat \<Rightarrow> bool" where
  "near hashes k q b l \<longleftrightarrow> sqdist 24 q (hashes ! (16 * k + l)) < unat (fst b)"

definition mask_ok :: "bytes list \<Rightarrow> nat \<Rightarrow> bytes \<Rightarrow> best \<Rightarrow> u32 \<Rightarrow> bool" where
  "mask_ok hashes k q b mm \<longleftrightarrow> (\<forall>j. bit mm j \<longleftrightarrow> j < 32 \<and> near hashes k q b (j div 2))"

lemma mask_of_ok:
  assumes "16 * k + 16 \<le> length hashes" "unat (fst b) \<le> 65534"
  shows "mask_ok hashes k q b (mask_of (map (\<lambda>h. sum_of (sqdist 24 q h)) (lane_of hashes k)) (place_of b))"
  unfolding mask_ok_def
  by (subst bit_mask_of) (use assms in \<open>auto simp: lane_of_def near_def near_lane\<close>)

lemma zero_mask:
  assumes "mask_ok hashes k q b 0"
  shows "filter (near hashes k q b) [0..<16] = []"
proof -
  have "\<not> near hashes k q b l" if "l < 16" for l
  proof -
    have "2 * l < 32" using that by simp
    then show ?thesis using assms [unfolded mask_ok_def, rule_format, of "2 * l"] by simp
  qed
  then show ?thesis by (simp add: filter_empty_conv)
qed

lemma place_step:
  assumes "vectors hashes" "16 * k + 16 \<le> length hashes" "length q = 144" "unat (fst b) \<le> T"
    and "mask_ok hashes k q b mm"
  shows "(if mm = 0 then Inr (place_of b)
     else mask_loop hashes (16 * k) q (ucast mm AND 0x5555555555555555) (place_of b)) =
    Inr (place_of (scan T q (int (16 * k)) (lane_of hashes k) b))"
proof -
  have all: "rfold (avx2_lane hashes (16 * k) q) (filter (near hashes k q b) [0..<16]) (place_of b) =
      Inr (place_of (scan T q (int (16 * k)) (lane_of hashes k) b))"
    using rfold_near [OF assms(1-4), of 16] unfolding near_def [abs_def] by (simp add: lane_of_def)
  show ?thesis
  proof (cases "mm = 0")
    case True
    then show ?thesis using all zero_mask [of hashes k q b] assms(5) by simp
  next
    case False
    then show ?thesis
      using all assms(5) mask_loop_lanes [of mm "near hashes k q b"] by (simp add: mask_ok_def)
  qed
qed

lemma avx2_places_ok:
  assumes "vectors hashes" "16 * k + 16 \<le> length hashes" "length bests = length queries" "vectors queries"
    and "\<And>b. b \<in> set bests \<Longrightarrow> unat (fst b) \<le> T" "T \<le> 65534"
  shows "avx2_places hashes (16 * k) queries
      (map2 (\<lambda>q b. mask_of (map (\<lambda>h. sum_of (sqdist 24 q h)) (lane_of hashes k)) (place_of b)) queries bests)
      (map place_of bests) =
    Inr (map place_of (map2 (\<lambda>q. scan T q (int (16 * k)) (lane_of hashes k)) queries bests))"
  using assms(3-5)
proof (induction bests queries rule: list_induct2)
  case (Cons b bests q queries)
  have b: "unat (fst b) \<le> T" "length q = 144" using Cons.prems by (simp_all add: vectors_def)
  have "mask_ok hashes k q b (mask_of (map (\<lambda>h. sum_of (sqdist 24 q h)) (lane_of hashes k)) (place_of b))"
    using assms(2,6) b(1) by (intro mask_of_ok) simp_all
  from place_step [OF assms(1,2) b(2,1) this] show ?case
    using Cons by (simp only: list.map zip_Cons_Cons prod.case avx2_places.simps rbind_simps)
      (simp add: vectors_def)
qed simp

lemma fold_or_zero: "fold (OR) ms (a :: u32) = 0 \<longleftrightarrow> a = 0 \<and> (\<forall>m\<in>set ms. m = 0)"
  by (induction ms arbitrary: a) (auto simp: or_eq_0_iff)

lemma avx2_places_zero:
  "length mm = length queries \<Longrightarrow> length ps = length queries \<Longrightarrow> \<forall>m\<in>set mm. m = 0 \<Longrightarrow>
     avx2_places hashes ii queries mm ps = Inr ps"
proof (induction queries arbitrary: mm ps)
  case (Cons q queries)
  then show ?case by (cases mm; cases ps) auto
qed simp

lemma avx2_block_ok:
  assumes "vectors hashes" "copied hashes sv" "b < length hashes div 16" "vectors queries" "length queries = 6"
    and "length bests = 6" "\<And>x. x \<in> set bests \<Longrightarrow> unat (fst x) \<le> T" "T \<le> 65534"
  shows "avx2_block hashes queries sv (16 * b) (map place_of bests) =
    Inr (map place_of (map2 (\<lambda>q. scan T q (int (16 * b)) (lane_of hashes b)) queries bests))"
proof -
  have room: "16 * b + 16 \<le> length hashes" using assms(3) by auto
  let ?mm = "map2 (\<lambda>q b'. mask_of (map (\<lambda>h. sum_of (sqdist 24 q h)) (lane_of hashes b)) (place_of b')) queries bests"
  have mm: "map2 mask_of (map (\<lambda>q. map (\<lambda>h. sum_of (sqdist 24 q h)) (lane_of hashes b)) queries)
      (map place_of bests) = ?mm" by (simp add: zip_map_map split_def comp_def)
  have p: "avx2_places hashes (16 * b) queries ?mm (map place_of bests) =
      Inr (map place_of (map2 (\<lambda>q. scan T q (int (16 * b)) (lane_of hashes b)) queries bests))"
    using assms room by (intro avx2_places_ok) simp_all
  moreover have "avx2_places hashes (16 * b) queries ?mm (map place_of bests) = Inr (map place_of bests)"
    if "fold (OR) ?mm 0 = 0"
    using that assms(5,6) by (intro avx2_places_zero) (simp_all only: fold_or_zero, simp_all)
  ultimately show ?thesis
    unfolding avx2_block_def block_sums_ok [OF assms(2,3,5)] rbind_simps Let_def mm by simp
qed

section \<open>The program\<close>

lemma unat_clamp: "unat (clamp t) = min (unat t) 65534"
  by (auto simp: clamp_def word_le_nat_alt)

interpretation inv_avx2: block_program avx2_block place_of "unat (clamp t)" "\<lambda>x. unat (fst x) \<le> unat (clamp t)" for t
proof
  show "unat (fst (better (unat (clamp t)) q i h x)) \<le> unat (clamp t)" if "unat (fst x) \<le> unat (clamp t)"
    for x q i h using that by (simp add: better_def Let_def unat_sqdist)
next
  fix hashes sv b queries and bests :: "best list"
  assume "vectors hashes" "copied hashes sv" "b < length hashes div 16" "vectors queries" "length queries = 6"
    "length bests = 6" "\<And>x. x \<in> set bests \<Longrightarrow> unat (fst x) \<le> unat (clamp t)"
  then show "avx2_block hashes queries sv (16 * b) (map place_of bests) =
      Inr (map place_of (map2 (\<lambda>q. scan (unat (clamp t)) q (int (16 * b)) (lane_of hashes b)) queries bests))"
    by (intro avx2_block_ok) (simp_all add: unat_clamp)
qed

lemma print_found_scan:
  "print_found (scan (unat t) q 0 hs (t, - 1)) = answer (unat t) hs q"
  by (simp add: scan_nearest print_found_def answer_def sint_sqdist split: option.splits)

interpretation inv_avx2_batch: batch_program "inv_avx2_search (clamp t)" print_found sixteens "unat (clamp t)" for t
proof
  fix hashes queries :: "bytes list"
  assume s: "sixteens hashes" and q: "length queries \<le> BATCH_SIZE" "\<And>q. q \<in> set queries \<Longrightarrow> length q = 144"
  have v: "vectors hashes" "length hashes mod 16 = 0" using s by (simp_all add: sixteens_def)
  note p = all_places_ok [OF q]
  obtain sv where sv: "shuffle hashes = Inr sv" "copied hashes sv" by (rule shuffle_copied [OF v])
  let ?scan = "\<lambda>q. scan (unat (clamp t)) q 0 hashes (clamp t, - 1)"
  have "rfold (avx2_block hashes (all_places queries) sv) (blocks (length hashes))
      (replicate 6 (place_of (clamp t, - 1))) = Inr (map (\<lambda>q. place_of (?scan q)) (all_places queries))"
    using v sv(2) p(1,2) by (intro inv_avx2.blocks_ok) simp_all
  then have "inv_avx2_search (clamp t) hashes queries = Inr (map ?scan (all_places queries))"
    by (simp add: inv_avx2_search_def sv(1) no_best_def BATCH_SIZE_def place_of_def comp_def)
  moreover have "map print_found (take (length queries) (map ?scan (all_places queries))) =
      map (answer (unat (clamp t)) hashes) queries"
    by (simp only: p(3) map_map comp_def print_found_scan)
  ultimately show "\<exists>bests. inv_avx2_search (clamp t) hashes queries = Inr bests \<and>
      map print_found (take (length queries) bests) = map (answer (unat (clamp t)) hashes) queries" by blast
qed

text \<open>
  C6: the AVX2 program prints the first nearest vector whose distance is below the threshold; a
  threshold of 65535 or more, also the default, is 65534.
\<close>

theorem inv_avx2_output:
  "inv_avx2_main arg env old s = with_database env (\<lambda>hashes.
     if length hashes mod 16 \<noteq> 0 then ([], Inl (Quit (- 1)))
     else expected (min (unat (threshold_arg arg)) 65534) 6 old s hashes)"
proof -
  have B: "BATCH_SIZE = 6" by (simp add: BATCH_SIZE_def)
  have "statistics (batch_loop (inv_avx2_search (clamp t) hashes) print_found old s 0) =
      expected (unat (clamp t)) BATCH_SIZE old s hashes"
    if "vectors hashes" "length hashes mod 16 = 0" for t hashes
    by (subst batch_expected [symmetric], cases "all_queries old s", simp only: prod.case)
      (subst inv_avx2_batch.batch_loop_ok; use that in \<open>simp add: sixteens_def\<close>)
  then show ?thesis
    unfolding inv_avx2_main_def by (intro with_database_cong) (simp add: LANE_SIZE_def B unat_clamp)
qed

end
