(* ===== verification/Computation.thy ===== *)
theory Computation
  imports Prelude
begin

text \<open>
  Computations of the programs that talk to the kernel: functions of a state that may stop the program;
  the state at the stop is kept, so that what the program did before it stopped can be stated.
\<close>

type_synonym ('e, 's, 'a) prog = "'s \<Rightarrow> ('e + 'a) \<times> 's"

definition ret :: "'a \<Rightarrow> ('e, 's, 'a) prog" where
  "ret x s = (Inr x, s)"

definition halt :: "'e \<Rightarrow> ('e, 's, 'a) prog" where
  "halt e s = (Inl e, s)"

definition bnd :: "('e, 's, 'a) prog \<Rightarrow> ('a \<Rightarrow> ('e, 's, 'b) prog) \<Rightarrow> ('e, 's, 'b) prog" where
  "bnd m f s = (case m s of (Inl e, s) \<Rightarrow> (Inl e, s) | (Inr x, s) \<Rightarrow> f x s)"

definition andthen :: "('e, 's, 'a) prog \<Rightarrow> ('e, 's, 'b) prog \<Rightarrow> ('e, 's, 'b) prog" where
  "andthen m k = bnd m (\<lambda>_. k)"

definition update :: "('s \<Rightarrow> 's) \<Rightarrow> ('e, 's, unit) prog" where
  "update f s = (Inr (), f s)"

definition fetch :: "('s \<Rightarrow> 'a) \<Rightarrow> ('e, 's, 'a) prog" where
  "fetch f s = (Inr (f s), s)"

named_theorems prog_simps \<open>running a computation\<close>

lemma prog_run [prog_simps]:
  "ret x s = (Inr x, s)"
  "halt e s = (Inl e, s)"
  "update f s = (Inr (), f s)"
  "fetch g s = (Inr (g s), s)"
  by (simp_all add: ret_def halt_def update_def fetch_def)

lemma bnd_run [prog_simps]:
  "bnd m f s = (case m s of (Inl e, s) \<Rightarrow> (Inl e, s) | (Inr x, s) \<Rightarrow> f x s)"
  "andthen m k s = (case m s of (Inl e, s) \<Rightarrow> (Inl e, s) | (Inr x, s) \<Rightarrow> k s)"
  by (simp_all add: bnd_def andthen_def)

lemma bnd_assoc:
  "bnd (bnd m f) g = bnd m (\<lambda>x. bnd (f x) g)" "bnd (andthen m k) g = andthen m (bnd k g)" "bnd (halt e) g = halt e"
  by (auto simp: fun_eq_iff bnd_def andthen_def halt_def split: prod.splits sum.splits)

lemma andthen_assoc: "andthen (andthen m k) l = andthen m (andthen k l)"
  by (auto simp: fun_eq_iff bnd_def andthen_def split: prod.splits sum.splits)

end
