(* ===== verification/Fuzz_State.thy ===== *)
theory Fuzz_State
  imports Options Siphash Computation "HOL-Library.Signed_Division"
begin

text \<open>
  The state of the netlink fuzzer \<open>2019-07-kernel-fuzzing/src\<close>, and how it stops.
\<close>

unbundle bit_operations_syntax

section \<open>Stops\<close>

text \<open>
  \<open>PFATAL\<close>, \<open>exit\<close>, an access outside of the mapped memory or behind an array; the overflow of the number of rounds,
  an \<open>int\<close>, whose effect C leaves open.
\<close>

datatype fz_stop = Fatal | Exited int | Segv | Past_end | Overflow

text \<open>A system call that must succeed.\<close>

definition require :: "bool \<Rightarrow> (fz_stop, 's, unit) prog" where
  "require ok = (if ok then ret () else halt Fatal)"

lemma require_run [prog_simps]:
  "require True s = (Inr (), s)"
  "require False s = (Inl Fatal, s)"
  by (simp_all add: require_def prog_run)

section \<open>The state\<close>

text \<open>
  \<open>struct forksrv\<close>: whether \<open>afl_no_forksrv\<close> is set, and the area behind \<open>afl_area_ptr\<close>; \<open>None\<close> is the
  address \<open>-1\<close>, behind which there is no memory.
\<close>

record forksrv =
  afl_no_forksrv :: bool
  afl_area :: "bytes option"

text \<open>\<open>struct kcov\<close>: the buffer shared with the kernel; \<open>None\<close> after \<open>munmap\<close>.\<close>

record kcov =
  kcov_fd :: int
  cover :: "u64 list option"

text \<open>The messages on the descriptors 198 and 199, to and from AFL.\<close>

datatype message = From_afl u32 | To_afl u32

text \<open>What a test got to: the protocol, the groups, the payload of the message sent.\<close>

datatype attempt = No_socket int | Not_bound int u32 | Sent int u32 bytes

text \<open>
  The variables of \<open>main\<close> that live through the loop, and what the program did to the world: the messages to
  and from AFL, the netlink messages sent into each new network namespace, the tests, the lines printed
  with \<open>-d\<close>, the records written to the file of \<open>-m\<close>.
\<close>

record fuzz =
  fork :: forksrv
  kc :: "kcov option"
  force_new_netns :: bool
  run_no :: int
  afl :: "message list"
  nets :: "bytes list list"
  tests :: "attempt list"
  dumped :: "u64 list"
  user_log :: "bytes list"

definition log_afl :: "message \<Rightarrow> fuzz \<Rightarrow> fuzz" where
  "log_afl m st = st\<lparr>afl := afl st @ [m]\<rparr>"

end
