(* ===== verification/Fuzz_Services.thy ===== *)
theory Fuzz_Services
  imports Fuzz_State
begin

text \<open>
  What the main loop of the fuzzer \<open>2019-07-kernel-fuzzing/src\<close> is built on: the fork-server protocol of AFL
  (\<open>forksrv.c\<close>), the coverage buffer of the kernel (\<open>kcov.c\<close>) and network namespaces (\<open>namespace.c\<close>). The
  results of system calls are arguments of the functions, in the order of the calls.

  The theorem: the three messages sent into a new network namespace, read by the rules of rtnetlink(7), set
  the interface 1 up, create the interface \<open>dummy1\<close> of kind \<open>dummy\<close> and set the interface 2 up.
\<close>

unbundle bit_operations_syntax

section \<open>forksrv.c\<close>

text \<open>\<open>shmat\<close> returns the address \<open>-1\<close> when it fails, never a null pointer.\<close>

definition forksrv_new :: "bool \<Rightarrow> bytes option \<Rightarrow> (int \<Rightarrow> bytes option) \<Rightarrow> forksrv" where
  "forksrv_new no_forksrv afl_shm_id_str shmat =
     (case afl_shm_id_str of
        None \<Rightarrow> \<lparr>afl_no_forksrv = True, afl_area = Some (replicate (2 ^ 16) 0)\<rparr>
      | Some s \<Rightarrow> \<lparr>afl_no_forksrv = no_forksrv, afl_area = shmat (atoi s)\<rparr>)"

definition forksrv_on :: "forksrv \<Rightarrow> bool" where
  "forksrv_on f \<longleftrightarrow> \<not> afl_no_forksrv f"

text \<open>\<open>write(198 + 1, &v, 4)\<close> with result \<open>r\<close>.\<close>

definition afl_write :: "int \<Rightarrow> u32 \<Rightarrow> (fz_stop, fuzz, unit) prog" where
  "afl_write r v = (if r = 4 then update (log_afl (To_afl v)) else halt Fatal)"

definition forksrv_welcome :: "int \<Rightarrow> (fz_stop, fuzz, unit) prog" where
  "forksrv_welcome w = bnd (fetch fork) (\<lambda>f. if forksrv_on f then afl_write w 0 else ret ())"

definition forksrv_cycle :: "int \<Rightarrow> u32 \<Rightarrow> int \<Rightarrow> u32 \<Rightarrow> (fz_stop, fuzz, int) prog" where
  "forksrv_cycle r was_killed w child_pid = bnd (fetch fork) (\<lambda>f.
     if forksrv_on f then
       andthen (if r = 4 then update (log_afl (From_afl was_killed)) else halt Fatal)
         (andthen (afl_write w child_pid) (ret (sint was_killed)))
     else ret (-1))"

definition forksrv_status :: "int \<Rightarrow> u32 \<Rightarrow> (fz_stop, fuzz, unit) prog" where
  "forksrv_status w status = bnd (fetch fork) (\<lambda>f. if forksrv_on f then afl_write w status else ret ())"

definition forksrv_free :: "(fz_stop, fuzz, unit) prog" where
  "forksrv_free = update (\<lambda>st. st\<lparr>fork := (fork st)\<lparr>afl_area := None\<rparr>\<rparr>)"

section \<open>kcov.c\<close>

definition COVER_SIZE :: nat where "COVER_SIZE = 64 * 2 ^ 10"

definition kcov_new :: "int \<Rightarrow> int \<Rightarrow> u64 list option \<Rightarrow> (fz_stop, fuzz, kcov) prog" where
  "kcov_new fd r mapped =
     andthen (require (fd \<noteq> -1)) (andthen (require (r = 0))
       (case mapped of None \<Rightarrow> halt Fatal | Some c \<Rightarrow> ret \<lparr>kcov_fd = fd, cover = Some c\<rparr>))"

definition kcov_cover :: "(fz_stop, fuzz, u64 list) prog" where
  "kcov_cover = bnd (fetch kc) (\<lambda>k.
     case Option.bind k cover of None \<Rightarrow> halt Segv | Some c \<Rightarrow> ret c)"

definition cover_store :: "nat \<Rightarrow> u64 \<Rightarrow> (fz_stop, fuzz, unit) prog" where
  "cover_store i v = bnd kcov_cover (\<lambda>c.
     if i < length c then update (\<lambda>st. st\<lparr>kc := map_option (\<lambda>k. k\<lparr>cover := Some (c[i := v])\<rparr>) (kc st)\<rparr>)
     else halt Past_end)"

definition cover_load :: "nat \<Rightarrow> (fz_stop, fuzz, u64) prog" where
  "cover_load i = bnd kcov_cover (\<lambda>c. if i < length c then ret (c ! i) else halt Past_end)"

definition kcov_enable :: "int \<Rightarrow> (fz_stop, fuzz, unit) prog" where
  "kcov_enable r = andthen (cover_store 0 0) (andthen (require (r = 0)) (cover_store 0 0))"

text \<open>The counter is cut to \<open>int\<close>.\<close>

definition kcov_disable :: "int \<Rightarrow> (fz_stop, fuzz, int) prog" where
  "kcov_disable r = bnd (cover_load 0) (\<lambda>n.
     let kcov_len = sint (ucast n :: u32) in andthen (require (r = 0)) (ret kcov_len))"

definition kcov_free :: "(fz_stop, fuzz, unit) prog" where
  "kcov_free = update (\<lambda>st. st\<lparr>kc := map_option (\<lambda>k. \<lparr>kcov_fd = -1, cover = None\<rparr>) (kc st)\<rparr>)"

text \<open>What the kernel does to the buffer between the two calls, a parameter.\<close>

definition kernel :: "(u64 list \<Rightarrow> u64 list) \<Rightarrow> (fz_stop, fuzz, unit) prog" where
  "kernel f = update (\<lambda>st. st\<lparr>kc := map_option (\<lambda>k. k\<lparr>cover := map_option f (cover k)\<rparr>) (kc st)\<rparr>)"

section \<open>namespace.c\<close>

definition netns_save :: "int \<Rightarrow> (fz_stop, fuzz, int) prog" where
  "netns_save net_ns = andthen (require (net_ns \<ge> 0)) (ret net_ns)"

definition netns_restore :: "int \<Rightarrow> (fz_stop, fuzz, unit) prog" where
  "netns_restore r = require (r = 0)"

definition ENOSPC :: int where "ENOSPC = 28"
definition NLM_F_REQUEST :: u16 where "NLM_F_REQUEST = 1"

definition data1 :: bytes where
  "data1 = [0, 0, 0, 0, 1, 0, 0, 0, 1, 0, 0, 0, 1, 0, 0, 0]"

definition data2 :: bytes where
  "data2 =
    [0x00, 0x00, 0x00, 0x00, 0x00, 0x00, 0x00, 0x00, 0x00, 0x00, 0x00, 0x00, 0x00,
     0x00, 0x00, 0x00, 0x0b, 0x00, 0x03, 0x00, 0x64, 0x75, 0x6d, 0x6d, 0x79, 0x31,
     0x00, 0x00, 0x10, 0x00, 0x12, 0x00, 0x09, 0x00, 0x01, 0x00, 0x64, 0x75, 0x6d,
     0x6d, 0x79, 0x00, 0x00, 0x00]"

definition data3 :: bytes where
  "data3 = [0, 0, 0, 0, 2, 0, 0, 0, 1, 0, 0, 0, 1, 0, 0, 0]"

text \<open>
  \<open>struct nlmsghdr\<close> with the given flags and the data behind it, built in an array of 128 bytes; \<open>memcpy\<close>
  copies the terminator of the literal too, the message ends before it.
\<close>

definition nl_message :: "u16 \<Rightarrow> bytes \<Rightarrow> (fz_stop, fuzz, bytes) prog" where
  "nl_message flags data =
     (if 16 + (length data + 1) > 128 then halt Past_end
      else ret (le_bytes 4 (of_nat (length data + 16) :: u32) @ le_bytes 2 (0x10 :: u16) @
        le_bytes 2 flags @ le_bytes 4 (1 :: u32) @ le_bytes 4 (0 :: u32) @ data))"

text \<open>\<open>sendmsg\<close> on the descriptor; its result is not looked at, nor is that of \<open>socket\<close>.\<close>

definition send_route :: "int \<Rightarrow> bytes \<Rightarrow> (fz_stop, fuzz, unit) prog" where
  "send_route nl_fd m = update (\<lambda>st.
     if nl_fd < 0 then st else st\<lparr>nets := butlast (nets st) @ [last (nets st) @ [m]]\<rparr>)"

definition netns_new :: "int option \<Rightarrow> int \<Rightarrow> (fz_stop, fuzz, unit) prog" where
  "netns_new unshare nl_fd = (case unshare of
     Some errno \<Rightarrow> if errno \<noteq> ENOSPC then halt Fatal else ret ()
   | None \<Rightarrow>
       andthen (update (\<lambda>st. st\<lparr>nets := nets st @ [[]]\<rparr>))
       (andthen (bnd (nl_message NLM_F_REQUEST data1) (send_route nl_fd))
       (andthen (bnd (nl_message (NLM_F_REQUEST OR 0x600) data2) (send_route nl_fd))
         (bnd (nl_message NLM_F_REQUEST data3) (send_route nl_fd)))))"

section \<open>The fork server and the coverage buffer\<close>

text \<open>Running the operations, by the state they are started in.\<close>

lemma run_afl_write [prog_simps]:
  "afl_write r v st = (if r = 4 then (Inr (), log_afl (To_afl v) st) else (Inl Fatal, st))"
  by (simp add: afl_write_def prog_simps)

lemma run_welcome [prog_simps]:
  "forksrv_welcome w st = (if forksrv_on (fork st) then afl_write w 0 st else (Inr (), st))"
  by (simp add: forksrv_welcome_def prog_simps)

lemma run_cycle [prog_simps]:
  "forksrv_cycle r k w p st =
     (if \<not> forksrv_on (fork st) then (Inr (-1), st)
      else if r \<noteq> 4 then (Inl Fatal, st)
      else if w \<noteq> 4 then (Inl Fatal, log_afl (From_afl k) st)
      else (Inr (sint k), log_afl (To_afl p) (log_afl (From_afl k) st)))"
  by (simp add: forksrv_cycle_def prog_simps)

lemma run_status [prog_simps]:
  "forksrv_status w v st = (if forksrv_on (fork st) then afl_write w v st else (Inr (), st))"
  by (simp add: forksrv_status_def prog_simps)

lemma run_kcov_cover [prog_simps]:
  "kcov_cover st = (case Option.bind (kc st) cover of None \<Rightarrow> (Inl Segv, st) | Some c \<Rightarrow> (Inr c, st))"
  by (simp add: kcov_cover_def prog_simps split: option.splits)

text \<open>A buffer the kernel was asked for is there, with room for the counter.\<close>

definition has_cover :: "u64 list \<Rightarrow> fuzz \<Rightarrow> bool" where
  "has_cover c st \<longleftrightarrow> (\<exists>k. kc st = Some k \<and> cover k = Some c) \<and> 0 < length c"

definition set_cover :: "u64 list \<Rightarrow> fuzz \<Rightarrow> fuzz" where
  "set_cover c st = st\<lparr>kc := map_option (\<lambda>k. k\<lparr>cover := Some c\<rparr>) (kc st)\<rparr>"

lemma has_cover_set: "has_cover c st \<Longrightarrow> 0 < length d \<Longrightarrow> has_cover d (set_cover d st)"
  by (auto simp: has_cover_def set_cover_def)

lemma set_cover_twice [simp]: "set_cover d (set_cover c st) = set_cover d st"
  by (cases "kc st") (simp_all add: set_cover_def)

lemma run_kcov_enable:
  "has_cover c st \<Longrightarrow> kcov_enable 0 st = (Inr (), set_cover (c[0 := 0]) st)"
  by (auto simp: has_cover_def kcov_enable_def cover_store_def prog_simps set_cover_def)

lemma run_kernel:
  "has_cover c st \<Longrightarrow> kernel f st = (Inr (), set_cover (f c) st)"
  by (auto simp: has_cover_def kernel_def prog_simps set_cover_def)

lemma run_kcov_disable:
  "has_cover c st \<Longrightarrow> kcov_disable 0 st = (Inr (sint (ucast (c ! 0) :: u32)), st)"
  by (auto simp: has_cover_def kcov_disable_def cover_load_def prog_simps Let_def)

section \<open>The messages of namespace.c\<close>

text \<open>
  Reading a link request by the rules of netlink(7) and rtnetlink(7): the header, whose length is that of
  the message, \<open>struct ifinfomsg\<close>, and attributes aligned to four bytes.
\<close>

fun le_nat :: "bytes \<Rightarrow> nat" where
  "le_nat [] = 0"
| "le_nat (b # bs) = unat b + 256 * le_nat bs"

definition field :: "bytes \<Rightarrow> nat \<Rightarrow> nat \<Rightarrow> nat" where
  "field m i n = le_nat (take n (drop i m))"

function attributes :: "bytes \<Rightarrow> (nat \<times> bytes) list option" where
  "attributes m =
     (if m = [] then Some []
      else let len = field m 0 2 in
        if len < 4 \<or> length m < len then None
        else map_option ((#) (field m 2 2, take (len - 4) (drop 4 m))) (attributes (drop ((len + 3) div 4 * 4) m)))"
  by pat_completeness auto
termination
proof (relation "measure length")
  fix m :: bytes and len
  assume "m \<noteq> []" "len = field m 0 2" "\<not> (len < 4 \<or> length m < len)"
  moreover have "0 < (len + 3) div 4" using calculation by (simp add: div_greater_zero_iff)
  ultimately show "(drop ((len + 3) div 4 * 4) m, m) \<in> measure length" by (cases m) auto
qed simp

declare attributes.simps [simp del]

record link_request =
  msg_type :: nat
  msg_flags :: nat
  if_index :: nat
  if_flags :: nat
  if_change :: nat
  if_attributes :: "(nat \<times> bytes) list"

definition link_request :: "bytes \<Rightarrow> link_request option" where
  "link_request m =
     (if length m < 32 \<or> field m 0 4 \<noteq> length m then None
      else map_option (\<lambda>as. \<lparr>msg_type = field m 4 2, msg_flags = field m 6 2, if_index = field m 20 4,
          if_flags = field m 24 4, if_change = field m 28 4, if_attributes = as\<rparr>)
        (attributes (drop 32 m)))"

definition header :: "u32 \<Rightarrow> u16 \<Rightarrow> bytes" where
  "header len flags = le_bytes 4 len @ le_bytes 2 (0x10 :: u16) @ le_bytes 2 flags @ le_bytes 4 (1 :: u32) @
     le_bytes 4 (0 :: u32)"

definition setup_messages :: "bytes list" where
  "setup_messages = [header 32 1 @ data1, header 60 0x601 @ data2, header 32 1 @ data3]"

lemma setup_bytes:
  "header 32 1 = [32, 0, 0, 0, 16, 0, 1, 0, 1, 0, 0, 0, 0, 0, 0, 0]"
  "header 60 0x601 = [60, 0, 0, 0, 16, 0, 1, 6, 1, 0, 0, 0, 0, 0, 0, 0]"
  by code_simp+

lemma setup_read:
  "link_request (header 32 1 @ data1) =
     Some \<lparr>msg_type = 16, msg_flags = 1, if_index = 1, if_flags = 1, if_change = 1, if_attributes = []\<rparr>"
  "link_request (header 32 1 @ data3) =
     Some \<lparr>msg_type = 16, msg_flags = 1, if_index = 2, if_flags = 1, if_change = 1, if_attributes = []\<rparr>"
  by (simp_all add: setup_bytes data1_def data3_def link_request_def field_def attributes.simps)

lemma run_netns_new:
  "netns_new u fd st = (case u of
     Some e \<Rightarrow> (if e = 28 then Inr () else Inl Fatal, st)
   | None \<Rightarrow> (Inr (), st\<lparr>nets := nets st @ [if fd < 0 then [] else setup_messages]\<rparr>))"
  by (simp add: netns_new_def ENOSPC_def nl_message_def NLM_F_REQUEST_def send_route_def prog_simps
      setup_messages_def header_def data1_def data2_def data3_def split: option.split)

text \<open>
  A new network namespace is sent three requests; read back they set the interface 1 up, create an
  interface named \<open>dummy1\<close> of the kind \<open>dummy\<close> (and fail if there is one), and set the interface 2 up.
  Without a socket they are lost, and the namespace is used as it is.
\<close>

theorem netns_setup:
  "\<exists>m1 m2 m3 as. netns_new None fd st =
       (Inr (), st\<lparr>nets := nets st @ [if fd < 0 then [] else [m1, m2, m3]]\<rparr>) \<and>
     link_request m1 = Some \<lparr>msg_type = 16, msg_flags = 1, if_index = 1, if_flags = 1, if_change = 1,
       if_attributes = []\<rparr> \<and>
     link_request m2 = Some \<lparr>msg_type = 16, msg_flags = 1 + 0x200 + 0x400, if_index = 0, if_flags = 0,
       if_change = 0, if_attributes = [(3, lit ''dummy1'' @ [0]), (18, as)]\<rparr> \<and>
     attributes as = Some [(1, lit ''dummy'')] \<and>
     link_request m3 = Some \<lparr>msg_type = 16, msg_flags = 1, if_index = 2, if_flags = 1, if_change = 1,
       if_attributes = []\<rparr>"
proof (intro exI conjI)
  show "netns_new None fd st = (Inr (), st\<lparr>nets := nets st @ [if fd < 0 then [] else
      [header 32 1 @ data1, header 60 0x601 @ data2, header 32 1 @ data3]]\<rparr>)"
    by (simp add: run_netns_new setup_messages_def)
  show "attributes [9, 0, 1, 0, 0x64, 0x75, 0x6d, 0x6d, 0x79, 0, 0, 0] = Some [(1, lit ''dummy'')]"
    by (simp add: attributes.simps field_def lit_def of_char_def)
  show "link_request (header 60 0x601 @ data2) = Some \<lparr>msg_type = 16, msg_flags = 1 + 0x200 + 0x400,
      if_index = 0, if_flags = 0, if_change = 0, if_attributes = [(3, lit ''dummy1'' @ [0]),
        (18, [9, 0, 1, 0, 0x64, 0x75, 0x6d, 0x6d, 0x79, 0, 0, 0])]\<rparr>"
    by (simp add: setup_bytes data2_def link_request_def field_def attributes.simps lit_def of_char_def)
qed (rule setup_read)+

end
