(* ===== verification/Fuzz_Coverage.thy ===== *)
theory Fuzz_Coverage
  imports Fuzz_Services
begin

text \<open>
  The part of the main loop of \<open>2019-07-kernel-fuzzing/src/fuzznetlink.c\<close> that turns the addresses recorded
  by the kernel into the coverage map of AFL.

  The theorem: each place of the map is advanced once for each pair of consecutive addresses that hash to
  it, nothing outside of the map is touched, and a place that was hit is never zero again.
\<close>

unbundle bit_operations_syntax

section \<open>The loop\<close>

text \<open>\<open>__builtin_add_overflow(*s, 1, s)\<close>, and the place set to 128 on overflow.\<close>

definition bump :: "u8 \<Rightarrow> u8" where
  "bump s = (let r = unat s + 1 \<ge> 256; s = s + 1 in if r then 128 else s)"

definition hit :: "u64 \<Rightarrow> (fz_stop, fuzz, unit) prog" where
  "hit mixed = bnd (fetch fork) (\<lambda>f. case afl_area f of
       None \<Rightarrow> halt Segv
     | Some a \<Rightarrow>
         if unat mixed < length a then
           update (\<lambda>st. st\<lparr>fork := f\<lparr>afl_area := Some (a[unat mixed := bump (a ! unat mixed)])\<rparr>\<rparr>)
         else halt Past_end)"

text \<open>\<open>i\<close> counts up, \<open>k\<close> rounds are left; \<open>c\<close> is \<open>kcov_cover_buf\<close>.\<close>

fun record_locs :: "bool \<Rightarrow> u64 list \<Rightarrow> nat \<Rightarrow> nat \<Rightarrow> u64 \<Rightarrow> (fz_stop, fuzz, unit) prog" where
  "record_locs dump c i 0 afl_prev_loc = ret ()"
| "record_locs dump c i (Suc k) afl_prev_loc =
     (if i + 1 < length c then
        let current_loc = c ! (i + 1);
            hash = ucast (hsiphash_static (le_bytes 8 current_loc));
            mixed = (hash AND 0xffff) XOR afl_prev_loc;
            afl_prev_loc = drop_bit 1 (hash AND 0xffff) in
        andthen (hit mixed)
        (andthen (if dump then update (\<lambda>st. st\<lparr>dumped := dumped st @ [current_loc]\<rparr>) else ret ())
          (record_locs dump c (i + 1) k afl_prev_loc))
      else halt Past_end)"

section \<open>The map\<close>

text \<open>
  The specification: the lower 16 bits of the hash of an address are its block; an edge is a block combined
  with half of the block before it, for the first with 0.
\<close>

definition block_id :: "u64 \<Rightarrow> u64" where
  "block_id loc = ucast (hsiphash_static (le_bytes 8 loc)) AND 0xffff"

definition edges :: "u64 list \<Rightarrow> nat list" where
  "edges locs = map2 (\<lambda>b prev. unat (b XOR drop_bit 1 prev)) (map block_id locs) (0 # map block_id locs)"

fun edges_from :: "u64 \<Rightarrow> u64 list \<Rightarrow> nat list" where
  "edges_from prev [] = []"
| "edges_from prev (l # ls) = unat (block_id l XOR prev) # edges_from (drop_bit 1 (block_id l)) ls"

lemma edges_from_prev:
  "edges_from (drop_bit 1 p) ls = map2 (\<lambda>b prev. unat (b XOR drop_bit 1 prev)) (map block_id ls) (p # map block_id ls)"
  by (induction ls arbitrary: p) simp_all

lemma edges_eq: "edges ls = edges_from 0 ls"
  using edges_from_prev [of 0 ls] by (simp add: edges_def)

lemma block_mask: "block_id l = take_bit 16 (ucast (hsiphash_static (le_bytes 8 l)))"
  by (simp add: block_id_def take_bit_eq_mask mask_numeral)

lemma bit_block: "bit (block_id l) n \<Longrightarrow> n < 16"
  unfolding block_mask bit_take_bit_iff by simp

lemma small_bits:
  assumes "\<And>n. bit w n \<Longrightarrow> n < 16"
  shows "unat (w :: u64) < 65536"
proof -
  have "take_bit 16 w = w" by (rule bit_eqI) (auto simp: bit_take_bit_iff assms)
  then have "unat w = take_bit 16 (unat w)" by (metis unsigned_take_bit_eq)
  also have "\<dots> < 2 ^ 16" by (rule take_bit_nat_less_exp)
  finally show ?thesis by simp
qed

lemma edge_small:
  assumes "\<And>n. bit prev n \<Longrightarrow> n < 16"
  shows "unat (block_id l XOR prev) < 65536"
  by (rule small_bits) (auto simp: bit_xor_iff dest: bit_block assms)

lemma bit_half_block: "bit (drop_bit 1 (block_id l)) n \<Longrightarrow> n < 16"
  unfolding bit_drop_bit_eq comp_def by (drule bit_block) simp

definition count_hits :: "nat list \<Rightarrow> bytes \<Rightarrow> bytes" where
  "count_hits es a = map (\<lambda>m. (bump ^^ count_list es m) (a ! m)) [0..<length a]"

lemma length_count_hits [simp]: "length (count_hits es a) = length a"
  by (simp add: count_hits_def)

lemma count_hits_Nil: "count_hits [] a = a"
  by (simp add: count_hits_def map_nth)

lemma count_hits_Cons:
  "m < length a \<Longrightarrow> count_hits es (a[m := bump (a ! m)]) = count_hits (m # es) a"
  unfolding count_hits_def by (intro nth_equalityI) (auto simp: nth_list_update funpow_swap1)

definition set_area :: "bytes \<Rightarrow> fuzz \<Rightarrow> fuzz" where
  "set_area a st = st\<lparr>fork := (fork st)\<lparr>afl_area := Some a\<rparr>\<rparr>"

lemma set_area_simps [simp]:
  "afl_area (fork (set_area a st)) = Some a"
  "set_area b (set_area a st) = set_area b st"
  "afl_no_forksrv (fork (set_area a st)) = afl_no_forksrv (fork st)"
  "dumped (set_area a st) = dumped st" "afl (set_area a st) = afl st"
  by (simp_all add: set_area_def)

lemma run_hit:
  "afl_area (fork st) = Some a \<Longrightarrow> unat m < length a \<Longrightarrow>
     hit m st = (Inr (), set_area (a[unat m := bump (a ! unat m)]) st)"
  by (simp add: hit_def prog_simps set_area_def)

text \<open>The loop writes the map and the lines of \<open>-d\<close>.\<close>

lemma run_record_locs:
  assumes "length a = 65536" "afl_area (fork st) = Some a" "i + k < length c"
    and "\<And>n. bit prev n \<Longrightarrow> n < 16"
  shows "record_locs dump c i k prev st =
    (Inr (), (set_area (count_hits (edges_from prev (take k (drop (i + 1) c))) a) st)
      \<lparr>dumped := dumped st @ (if dump then take k (drop (i + 1) c) else [])\<rparr>)"
  using assms
proof (induction k arbitrary: i prev st a)
  case 0
  then show ?case by (simp add: prog_simps count_hits_Nil set_area_def)
next
  case (Suc k)
  let ?l = "c ! (i + 1)" and ?m = "block_id (c ! (i + 1)) XOR prev"
  let ?a = "a[unat ?m := bump (a ! unat ?m)]"
  let ?st = "(set_area ?a st)\<lparr>dumped := dumped st @ (if dump then [?l] else [])\<rparr>"
  have m: "unat ?m < length a" using edge_small [OF Suc.prems(4)] Suc.prems(1) by simp
  have t: "take (Suc k) (drop (i + 1) c) = ?l # take k (drop (i + 1 + 1) c)"
    using Suc.prems(3) by (simp add: Cons_nth_drop_Suc [symmetric])
  have "record_locs dump c (i + 1) k (drop_bit 1 (block_id ?l)) ?st =
      (Inr (), (set_area (count_hits (edges_from (drop_bit 1 (block_id ?l)) (take k (drop (i + 1 + 1) c))) ?a) ?st)
        \<lparr>dumped := dumped ?st @ (if dump then take k (drop (i + 1 + 1) c) else [])\<rparr>)"
    using Suc.prems by (intro Suc.IH bit_half_block) (simp_all add: set_area_def)
  moreover have "record_locs dump c i (Suc k) prev st = record_locs dump c (i + 1) k (drop_bit 1 (block_id ?l)) ?st"
    using Suc.prems(3) run_hit [OF Suc.prems(2) m]
    by (auto simp: prog_simps Let_def block_id_def set_area_def)
  ultimately show ?case
    unfolding t using m by (auto simp: count_hits_Cons set_area_def)
qed

lemma bump_nonzero: "bump s \<noteq> 0"
proof -
  have "s + 1 \<noteq> 0" if "unat s + 1 < 256"
  proof
    assume "s + 1 = 0"
    then have "unat (s + 1) = 0" by simp
    moreover have "unat (s + 1) = unat s + 1" using that by (subst unat_add_lem [THEN iffD1]) simp_all
    ultimately show False by simp
  qed
  then show ?thesis by (auto simp: bump_def Let_def)
qed

text \<open>A place hit \<open>n\<close> times, from zero: it counts to 255, then between 128 and 255.\<close>

lemma unat_bump: "unat (bump s) = (if unat s = 255 then 128 else unat s + 1)"
proof (cases "unat s + 1 < 256")
  case True
  then have "unat (s + 1) = unat s + 1" by (subst unat_add_lem [THEN iffD1]) simp_all
  then show ?thesis using True by (simp add: bump_def Let_def)
next
  case False
  then have "unat s = 255" using unat_less_exp [of s] by simp
  then show ?thesis by (simp add: bump_def Let_def)
qed

lemma unat_bumps: "unat ((bump ^^ n) 0) = (if n < 256 then n else 128 + (n - 256) mod 128)"
proof (induction n)
  case (Suc n)
  have "unat ((bump ^^ Suc n) 0) = (if unat ((bump ^^ n) 0) = 255 then 128 else unat ((bump ^^ n) 0) + 1)"
    by (simp add: unat_bump)
  also have "\<dots> = (if Suc n < 256 then Suc n else 128 + (Suc n - 256) mod 128)"
  proof (cases "n < 256")
    case True
    then show ?thesis unfolding Suc by simp
  next
    case False
    then have "Suc n - 256 = Suc (n - 256)" by simp
    then show ?thesis using False unfolding Suc by (simp add: mod_Suc)
  qed
  finally show ?case .
qed simp

section \<open>Theorem\<close>

text \<open>
  C25: for a map of 64 KiB and a count within the buffer the loop never leaves either; afterwards each
  place has been advanced once for every edge of the addresses recorded that leads to it, so that a place
  that was hit is not zero; \<open>n\<close> hits of a zero place make \<open>n\<close>, from the 256th on a number from 128 to 255.
\<close>

theorem coverage_counts:
  assumes "length a = 65536" "afl_area (fork st) = Some a" "k < length c"
  shows "\<exists>a'. record_locs dump c 0 k 0 st = (Inr (), st\<lparr>fork := (fork st)\<lparr>afl_area := Some a'\<rparr>,
      dumped := dumped st @ (if dump then take k (drop 1 c) else [])\<rparr>) \<and>
    length a' = 65536 \<and>
    (\<forall>m<65536. a' ! m = (bump ^^ count_list (edges (take k (drop 1 c))) m) (a ! m) \<and>
      (m \<in> set (edges (take k (drop 1 c))) \<longrightarrow> a' ! m \<noteq> 0) \<and>
      (a ! m = 0 \<longrightarrow> unat (a' ! m) = (let n = count_list (edges (take k (drop 1 c))) m in
        if n < 256 then n else 128 + (n - 256) mod 128)))"
proof (intro exI conjI allI impI)
  let ?es = "edges (take k (drop 1 c))"
  show "record_locs dump c 0 k 0 st = (Inr (), st\<lparr>fork := (fork st)\<lparr>afl_area := Some (count_hits ?es a)\<rparr>,
      dumped := dumped st @ (if dump then take k (drop 1 c) else [])\<rparr>)"
    using run_record_locs [OF assms(1,2), of 0 k c 0 dump] assms(3) by (simp add: edges_eq set_area_def)
  show "length (count_hits ?es a) = 65536" using assms(1) by simp
  fix m :: nat assume m: "m < 65536"
  then show at: "count_hits ?es a ! m = (bump ^^ count_list ?es m) (a ! m)"
    using assms(1) by (simp add: count_hits_def)
  show "count_hits ?es a ! m \<noteq> 0" if "m \<in> set ?es"
  proof -
    have "count_list ?es m \<noteq> 0" using that by (simp only: count_list_0_iff not_not)
    then obtain n where "count_list ?es m = Suc n" using not0_implies_Suc by blast
    then show ?thesis unfolding at by (simp add: bump_nonzero)
  qed
  show "unat (count_hits ?es a ! m) = (let n = count_list ?es m in if n < 256 then n else 128 + (n - 256) mod 128)"
    if "a ! m = 0" unfolding at that by (simp only: unat_bumps Let_def)
qed

definition blank_area :: bytes where "blank_area = replicate 65536 0"

lemma length_blank_area: "length blank_area = 65536"
  by (simp only: blank_area_def length_replicate)

definition traced_state :: fuzz where
  "traced_state = \<lparr>fork = \<lparr>afl_no_forksrv = False, afl_area = Some blank_area\<rparr>, kc = None,
     force_new_netns = True, run_no = 0, afl = [], nets = [], tests = [], dumped = [], user_log = []\<rparr>"

theorem coverage_counts_witness:
  "\<exists>a'. record_locs True [2, 0xffffffff81000010, 0xffffffff81000020] 0 2 0 traced_state =
     (Inr (), traced_state\<lparr>fork := \<lparr>afl_no_forksrv = False, afl_area = Some a'\<rparr>,
        dumped := [0xffffffff81000010, 0xffffffff81000020]\<rparr>)"
  using coverage_counts [OF length_blank_area, of traced_state 2 "[2, 0xffffffff81000010, 0xffffffff81000020]" True]
  by (auto simp: traced_state_def simp del: record_locs.simps)

end
