(* ===== verification/Fuzz_Main.thy ===== *)
theory Fuzz_Main
  imports Fuzz_Coverage "HOL-Library.Sublist"
begin

text \<open>
  \<open>main\<close> of \<open>2019-07-kernel-fuzzing/src/fuzznetlink.c\<close>: the options, the preparations, and the loop, in
  which AFL is told that a child was started, its input is sent to the kernel as a netlink message, the
  addresses the kernel recorded are entered into the coverage map, and the kernel's messages are searched
  for a crash. A round of the loop takes the results of its system calls from a record; messages on the
  standard error are not modelled.

  The theorems: the conversation with AFL, the safety of the loop under the contract of the kernel's
  coverage buffer, and what the fuzzer does in a whole run when no system call fails.
\<close>

unbundle bit_operations_syntax

section \<open>The options\<close>

record fuzz_opts =
  verbose :: int
  one_run :: int
  dump :: int
  no_kcov :: int
  netns :: int
  user_dmesg :: "bytes option"

definition no_opts :: fuzz_opts where
  "no_opts = \<lparr>verbose = 0, one_run = 0, dump = 0, no_kcov = 0, netns = 0, user_dmesg = None\<rparr>"

text \<open>
  The switch over what \<open>getopt_long\<close> returns until -1, with \<open>optarg\<close>: 104 \<open>h\<close>, 63 \<open>?\<close>, 118 \<open>v\<close>, 114 \<open>r\<close>,
  100 \<open>d\<close>, 107 \<open>k\<close>, 110 \<open>n\<close> and 109 \<open>m\<close>.
\<close>

fun fuzz_getopt :: "(int \<times> bytes option) list \<Rightarrow> fuzz_opts \<Rightarrow> fz_stop + fuzz_opts" where
  "fuzz_getopt [] opts = Inr opts"
| "fuzz_getopt ((arg, optarg) # evs) opts =
     (if arg = 0 then Inl (Exited (-1))
      else if arg = 104 then Inl (Exited 0)
      else if arg = 63 then Inl (Exited (-1))
      else if arg = 118 then fuzz_getopt evs (opts\<lparr>verbose := verbose opts + 1\<rparr>)
      else if arg = 114 then fuzz_getopt evs (opts\<lparr>one_run := one_run opts + 1\<rparr>)
      else if arg = 100 then fuzz_getopt evs (opts\<lparr>dump := dump opts + 1\<rparr>)
      else if arg = 107 then fuzz_getopt evs (opts\<lparr>no_kcov := no_kcov opts + 1\<rparr>)
      else if arg = 110 then
        (case optarg of
           Some a \<Rightarrow> fuzz_getopt evs (opts\<lparr>netns := atoi a\<rparr>)
         | None \<Rightarrow> fuzz_getopt evs (opts\<lparr>netns := netns opts + 1\<rparr>))
      else if arg = 109 then fuzz_getopt evs (opts\<lparr>user_dmesg := optarg\<rparr>)
      else Inl (Exited (-1)))"

section \<open>A round\<close>

text \<open>
  The results of the system calls of a round: the control message and the two writes to AFL, the input
  (\<open>None\<close> for an error), the error number of \<open>unshare\<close>, the sockets, what the kernel does to the coverage
  buffer, and the records read from \<open>/dev/kmsg\<close> until \<open>read\<close> returns no more than 0.
\<close>

record round =
  ctl_result :: int
  was_killed :: u32
  pid_result :: int
  stdin :: "bytes option"
  unshare_error :: "int option"
  route_socket :: int
  enable_result :: int
  socket_result :: int
  bind_result :: int
  traced :: "u64 list \<Rightarrow> u64 list"
  disable_result :: int
  kmsg :: "bytes list"
  status_result :: int

text \<open>\<open>buf\<close> as far as it is written: the input, and zeros up to 32 bytes.\<close>

definition input_buf :: "bytes \<Rightarrow> bytes" where
  "input_buf input = input @ drop (length input) (replicate 32 0)"

text \<open>\<open>char\<close> is signed.\<close>

definition nl_groups :: "bytes \<Rightarrow> u32" where
  "nl_groups buf = push_bit 24 (scast (buf ! 1)) OR push_bit 16 (scast (buf ! 2)) OR
     push_bit 8 (scast (buf ! 3)) OR scast (buf ! 4)"

text \<open>
  \<open>run_no\<close> counts the rounds from 0 and stops at its overflow, so it is never negative and the remainder is that of C
  for every \<open>netns\<close> but 0 (\<open>INT_MIN % -1\<close> does not occur).
\<close>

definition RUN_NO_MAX :: int where "RUN_NO_MAX = 2 ^ 31 - 1"

definition next_run :: "(fz_stop, fuzz, unit) prog" where
  "next_run = bnd (fetch run_no) (\<lambda>n. if n < RUN_NO_MAX then update (\<lambda>st. st\<lparr>run_no := n + 1\<rparr>) else halt Overflow)"

definition new_netns :: "fuzz_opts \<Rightarrow> round \<Rightarrow> (fz_stop, fuzz, unit) prog" where
  "new_netns opts r = bnd (fetch (\<lambda>st. (netns opts \<noteq> 0 \<and> run_no st smod netns opts = 0) \<or> force_new_netns st)) (\<lambda>b.
     if b then
       andthen (netns_new (unshare_error r) (route_socket r)) (update (\<lambda>st. st\<lparr>force_new_netns := False\<rparr>))
     else ret ())"

definition start_coverage :: "round \<Rightarrow> (fz_stop, fuzz, unit) prog" where
  "start_coverage r = bnd (fetch kc) (\<lambda>k. if k \<noteq> None then kcov_enable (enable_result r) else ret ())"

definition attempt :: "round \<Rightarrow> bytes \<Rightarrow> nat \<Rightarrow> attempt" where
  "attempt r buf buf_len =
     (let protocol = sint (buf ! 0) in
      if socket_result r < 0 then No_socket protocol
      else if bind_result r < 0 then Not_bound protocol (nl_groups buf)
      else Sent protocol (nl_groups buf) (take (buf_len - 5) (drop 5 buf)))"

definition test_input :: "round \<Rightarrow> bytes \<Rightarrow> nat \<Rightarrow> (fz_stop, fuzz, unit) prog" where
  "test_input r buf buf_len = update (\<lambda>st. st\<lparr>tests := tests st @ [attempt r buf buf_len]\<rparr>)"

definition stop_coverage :: "fuzz_opts \<Rightarrow> round \<Rightarrow> (fz_stop, fuzz, unit) prog" where
  "stop_coverage opts r = bnd (fetch kc) (\<lambda>k.
     if k \<noteq> None then
       bnd (kcov_disable (disable_result r)) (\<lambda>kcov_len.
       bnd kcov_cover (\<lambda>c. record_locs (dump opts \<noteq> 0) c 0 (nat kcov_len) 0))
     else ret ())"

fun strstr :: "bytes \<Rightarrow> bytes \<Rightarrow> bool" where
  "strstr needle [] \<longleftrightarrow> needle = []"
| "strstr needle (c # s) \<longleftrightarrow> take (length needle) (c # s) = needle \<or> strstr needle s"

text \<open>The search ends at a zero in the record.\<close>

definition is_crash :: "bytes \<Rightarrow> bool" where
  "is_crash record = (let s = takeWhile (\<lambda>c. c \<noteq> 0) record in
     strstr (lit ''Call Trace'') s \<or> strstr (lit ''RIP:'') s \<or> strstr (lit ''Code:'') s)"

fun check_dmesg :: "fuzz_opts \<Rightarrow> bytes list \<Rightarrow> nat \<Rightarrow> (fz_stop, fuzz, nat) prog" where
  "check_dmesg opts [] crashed = ret crashed"
| "check_dmesg opts (m # ms) crashed =
     (if m = [] then ret crashed
      else
        andthen (if user_dmesg opts \<noteq> None then update (\<lambda>st. st\<lparr>user_log := user_log st @ [m]\<rparr>) else ret ())
          (if length m < 8192 then check_dmesg opts ms (if is_crash m then crashed + 1 else crashed)
           else halt Past_end))"

definition report :: "round \<Rightarrow> nat \<Rightarrow> (fz_stop, fuzz, unit) prog" where
  "report r crashed =
     (if crashed > 0 then
        andthen (forksrv_status (status_result r) 139) (update (\<lambda>st. st\<lparr>force_new_netns := True\<rparr>))
      else forksrv_status (status_result r) 0)"

definition one_round :: "fuzz_opts \<Rightarrow> u32 \<Rightarrow> round \<Rightarrow> (fz_stop, fuzz, unit) prog" where
  "one_round opts child_pid r =
     andthen (forksrv_cycle (ctl_result r) (was_killed r) (pid_result r) child_pid)
     (case stdin r of
        None \<Rightarrow> halt Fatal
      | Some input \<Rightarrow>
          let buf = input_buf input; buf_len = max 5 (length input) in
          andthen (new_netns opts r)
          (andthen (start_coverage r)
          (andthen (test_input r buf buf_len)
          (andthen (kernel (traced r))
          (andthen (stop_coverage opts r)
          (bnd (check_dmesg opts (kmsg r) 0) (report r)))))))"

text \<open>The loop; \<open>True\<close> when it ended, \<open>False\<close> when it waits for another round.\<close>

fun fuzz_loop :: "fuzz_opts \<Rightarrow> u32 \<Rightarrow> round list \<Rightarrow> (fz_stop, fuzz, bool) prog" where
  "fuzz_loop opts child_pid [] = ret False"
| "fuzz_loop opts child_pid (r # rs) =
     andthen (one_round opts child_pid r)
     (if one_run opts \<noteq> 0 then ret True
      else andthen next_run (fuzz_loop opts child_pid rs))"

section \<open>The program\<close>

record fuzz_env =
  pid :: int
  env_no_forksrv :: bool
  env_shm_id :: "bytes option"
  env_shmat :: "int \<Rightarrow> bytes option"
  hello_result :: int
  kcov_open :: int
  kcov_init :: int
  kcov_map :: "u64 list option"
  kmsg_open :: int
  log_open :: int

definition first_state :: "fuzz_env \<Rightarrow> fuzz" where
  "first_state env = \<lparr>fork = forksrv_new (env_no_forksrv env) (env_shm_id env) (env_shmat env), kc = None,
     force_new_netns = True, run_no = 0, afl = [], nets = [], tests = [], dumped = [], user_log = []\<rparr>"

definition fuzz_start :: "fuzz_opts \<Rightarrow> fuzz_env \<Rightarrow> (fz_stop, fuzz, unit) prog" where
  "fuzz_start opts env =
     andthen (forksrv_welcome (hello_result env))
     (andthen
       (if no_kcov opts = 0 then
          bnd (kcov_new (kcov_open env) (kcov_init env) (kcov_map env)) (\<lambda>k. update (\<lambda>st. st\<lparr>kc := Some k\<rparr>))
        else ret ())
     (andthen (require (kmsg_open env \<ge> 0))
       (if user_dmesg opts \<noteq> None then
          andthen (require (log_open env \<ge> 0))
            (update (\<lambda>st. st\<lparr>user_log := user_log st @ [lit '',;: Restarting fuzzing'' @ [10]]\<rparr>))
        else ret ())))"

text \<open>\<open>Some 0\<close>: the program returned 0; \<open>None\<close>: it waits for another round.\<close>

definition fuzz_main :: "(int \<times> bytes option) list \<Rightarrow> fuzz_env \<Rightarrow> round list \<Rightarrow> (fz_stop + int option) \<times> fuzz" where
  "fuzz_main evs env rounds =
     (case fuzz_getopt evs no_opts of
        Inl e \<Rightarrow> (Inl e, first_state env)
      | Inr opts \<Rightarrow>
          andthen (fuzz_start opts env)
          (bnd (fuzz_loop opts (word_of_int (pid env + 1)) rounds) (\<lambda>ended.
           if ended then
             andthen forksrv_free
             (andthen (bnd (fetch kc) (\<lambda>k. if k \<noteq> None then kcov_free else ret ())) (ret (Some 0)))
           else ret None)) (first_state env))"

section \<open>The conversation with AFL\<close>

text \<open>Computations that say nothing to AFL and leave the switch of the fork server.\<close>

definition quiet :: "(fz_stop, fuzz, 'a) prog \<Rightarrow> bool" where
  "quiet m \<longleftrightarrow> (\<forall>st. afl (snd (m st)) = afl st \<and> forksrv_on (fork (snd (m st))) = forksrv_on (fork st))"

named_theorems quiet_intros \<open>computations that say nothing to AFL\<close>

lemma quiet_basic [quiet_intros]:
  "quiet (ret x)" "quiet (halt e)" "quiet (fetch f)" "quiet (require b)"
  by (simp_all add: quiet_def ret_def halt_def fetch_def require_def)

lemma quiet_bnd [quiet_intros]: "quiet m \<Longrightarrow> (\<And>x. quiet (f x)) \<Longrightarrow> quiet (bnd m f)"
  by (auto simp: quiet_def bnd_def split: prod.splits sum.splits) (metis snd_conv)+

lemma quiet_andthen [quiet_intros]: "quiet m \<Longrightarrow> quiet k \<Longrightarrow> quiet (andthen m k)"
  unfolding andthen_def by (rule quiet_bnd)

lemma quiet_if [quiet_intros]: "quiet m \<Longrightarrow> quiet k \<Longrightarrow> quiet (if b then m else k)"
  by simp

lemma quiet_option [quiet_intros]: "quiet m \<Longrightarrow> (\<And>x. quiet (f x)) \<Longrightarrow> quiet (case_option m f z)"
  by (cases z) simp_all

lemma quiet_update:
  "(\<And>st. afl (f st) = afl st \<and> afl_no_forksrv (fork (f st)) = afl_no_forksrv (fork st)) \<Longrightarrow> quiet (update f)"
  by (simp add: quiet_def update_def forksrv_on_def)

lemma quiet_services [quiet_intros]:
  "quiet kcov_cover" "quiet (cover_store i v)" "quiet (cover_load i)" "quiet (kcov_enable e)"
  "quiet (kcov_disable e)" "quiet (kernel g)" "quiet (nl_message fl d)" "quiet (send_route fd m)"
  "quiet (netns_new u fd)"
proof -
  show c: "quiet kcov_cover" unfolding kcov_cover_def by (intro quiet_intros)
  show s: "quiet (cover_store i v)" for i v
    unfolding cover_store_def by (intro quiet_intros c quiet_update) simp
  show l: "quiet (cover_load i)" unfolding cover_load_def by (intro quiet_intros c)
  show "quiet (kcov_enable e)" unfolding kcov_enable_def by (intro quiet_intros s)
  show "quiet (kcov_disable e)" unfolding kcov_disable_def cover_load_def Let_def by (intro quiet_intros c)
  show "quiet (kernel g)" unfolding kernel_def by (rule quiet_update) simp
  show m: "quiet (nl_message fl d)" for fl d unfolding nl_message_def by (intro quiet_intros)
  show r: "quiet (send_route fd m)" for m unfolding send_route_def by (rule quiet_update) simp
  show "quiet (netns_new u fd)" unfolding netns_new_def by (intro quiet_intros m r quiet_update) simp
qed

lemma quiet_hit [quiet_intros]: "quiet (hit m)"
  by (auto simp: quiet_def hit_def prog_simps forksrv_on_def split: option.splits)

lemma quiet_record_locs [quiet_intros]: "quiet (record_locs d c i k p)"
  by (induction d c i k p rule: record_locs.induct)
    (simp_all add: Let_def, (intro quiet_intros conjI impI quiet_update; simp)+)

lemma quiet_check_dmesg [quiet_intros]: "quiet (check_dmesg opts ms n)"
  by (induction opts ms n rule: check_dmesg.induct) (auto intro!: quiet_intros quiet_update)

lemma quiet_parts [quiet_intros]:
  "quiet (new_netns opts r)" "quiet (start_coverage r)" "quiet (test_input r b n)" "quiet (stop_coverage opts r)"
  unfolding new_netns_def start_coverage_def test_input_def stop_coverage_def
  by (intro quiet_intros quiet_update; simp)+

text \<open>A round between the two parts of the exchange.\<close>

definition middle :: "fuzz_opts \<Rightarrow> round \<Rightarrow> (fz_stop, fuzz, nat) prog" where
  "middle opts r = (case stdin r of
     None \<Rightarrow> halt Fatal
   | Some input \<Rightarrow>
       andthen (new_netns opts r)
       (andthen (start_coverage r)
       (andthen (test_input r (input_buf input) (max 5 (length input)))
       (andthen (kernel (traced r))
       (andthen (stop_coverage opts r) (check_dmesg opts (kmsg r) 0))))))"

lemma one_round_split:
  "one_round opts p r = andthen (forksrv_cycle (ctl_result r) (was_killed r) (pid_result r) p)
     (bnd (middle opts r) (report r))"
  by (cases "stdin r") (simp_all add: one_round_def middle_def bnd_assoc Let_def)

lemma quiet_middle: "quiet (middle opts r)"
  unfolding middle_def by (intro quiet_intros)

definition exchange :: "u32 \<Rightarrow> round \<Rightarrow> u32 \<Rightarrow> message list" where
  "exchange p r s = [From_afl (was_killed r), To_afl p, To_afl s]"

lemma report_said:
  "\<exists>s said. s \<in> {0, 139} \<and> afl (snd (report r n st)) = afl st @ said \<and>
     forksrv_on (fork (snd (report r n st))) = forksrv_on (fork st) \<and>
     (if forksrv_on (fork st) then prefix said [To_afl s] else said = []) \<and>
     (fst (report r n st) = Inr () \<and> forksrv_on (fork st) \<longrightarrow> said = [To_afl s])"
  by (auto simp: report_def prog_simps log_afl_def forksrv_on_def)

lemma one_round_said:
  "\<exists>s said. s \<in> {0, 139} \<and> afl (snd (one_round opts p r st)) = afl st @ said \<and>
     forksrv_on (fork (snd (one_round opts p r st))) = forksrv_on (fork st) \<and>
     (if forksrv_on (fork st) then prefix said (exchange p r s) else said = []) \<and>
     (fst (one_round opts p r st) = Inr () \<and> forksrv_on (fork st) \<longrightarrow> said = exchange p r s)"
proof (cases "forksrv_on (fork st) \<and> (ctl_result r \<noteq> 4 \<or> pid_result r \<noteq> 4)")
  case True
  then show ?thesis
    by (intro exI [of _ 0] exI [of _ "if ctl_result r \<noteq> 4 then [] else [From_afl (was_killed r)]"])
      (auto simp: one_round_split prog_simps log_afl_def exchange_def forksrv_on_def)
next
  case False
  define st1 where "st1 = snd (forksrv_cycle (ctl_result r) (was_killed r) (pid_result r) p st)"
  define said1 where "said1 = (if forksrv_on (fork st) then [From_afl (was_killed r), To_afl p] else [])"
  have c: "forksrv_cycle (ctl_result r) (was_killed r) (pid_result r) p st =
      (Inr (if forksrv_on (fork st) then sint (was_killed r) else -1), st1)"
    using False by (auto simp: st1_def prog_simps)
  have st1: "afl st1 = afl st @ said1" "forksrv_on (fork st1) = forksrv_on (fork st)"
    using False by (auto simp: st1_def said1_def prog_simps log_afl_def forksrv_on_def)
  obtain res st2 where m: "middle opts r st1 = (res, st2)" by force
  have st2: "afl st2 = afl st @ said1" "forksrv_on (fork st2) = forksrv_on (fork st)"
    using quiet_middle [of opts r] st1 m unfolding quiet_def by (metis snd_conv)+
  show ?thesis
  proof (cases res)
    case (Inl e)
    then have "one_round opts p r st = (Inl e, st2)" using c m by (simp add: one_round_split prog_simps)
    then show ?thesis using st2
      by (intro exI [of _ 0] exI [of _ said1]) (auto simp: said1_def exchange_def)
  next
    case (Inr n)
    then have o: "one_round opts p r st = report r n st2" using c m by (simp add: one_round_split prog_simps)
    obtain s said where s: "s \<in> {0, 139}" "afl (snd (report r n st2)) = afl st2 @ said"
      "forksrv_on (fork (snd (report r n st2))) = forksrv_on (fork st2)"
      "if forksrv_on (fork st2) then prefix said [To_afl s] else said = []"
      "fst (report r n st2) = Inr () \<and> forksrv_on (fork st2) \<longrightarrow> said = [To_afl s]"
      using report_said [of r n st2] by blast
    show ?thesis unfolding o
      using s st2 by (intro exI [of _ s] exI [of _ "said1 @ said"]) (auto simp: said1_def exchange_def split: if_splits)
  qed
qed

lemma next_run_run:
  "next_run st = (if run_no st < RUN_NO_MAX then (Inr (), st\<lparr>run_no := run_no st + 1\<rparr>) else (Inl Overflow, st))"
  by (simp add: next_run_def prog_simps)

lemma loop_said:
  "\<exists>ss. length ss = length rounds \<and> set ss \<subseteq> {0, 139} \<and>
     (\<exists>said. afl (snd (fuzz_loop opts p rounds st)) = afl st @ said \<and>
       (if forksrv_on (fork st) then prefix said (concat (map2 (exchange p) rounds ss)) else said = []))"
proof (induction rounds arbitrary: st)
  case Nil
  then show ?case by (simp add: prog_simps)
next
  case (Cons r rs)
  obtain s said where s: "s \<in> {0, 139}" "afl (snd (one_round opts p r st)) = afl st @ said"
    "forksrv_on (fork (snd (one_round opts p r st))) = forksrv_on (fork st)"
    "if forksrv_on (fork st) then prefix said (exchange p r s) else said = []"
    "fst (one_round opts p r st) = Inr () \<and> forksrv_on (fork st) \<longrightarrow> said = exchange p r s"
    using one_round_said [of opts p r st] by blast
  obtain res st1 where o: "one_round opts p r st = (res, st1)" by force
  let ?ok = "\<lambda>said ss. if forksrv_on (fork st) then prefix said (concat (map2 (exchange p) (r # rs) ss)) else said = []"
  have "length (s # replicate (length rs) 0) = length (r # rs)" "set (s # replicate (length rs) 0) \<subseteq> {0, 139}"
    using s(1) by (simp_all add: set_replicate_conv_if)
  moreover have "?ok said (s # replicate (length rs) 0)" using s(4) by (simp split: if_splits)
  ultimately have ends: "\<exists>ss. length ss = length (r # rs) \<and> set ss \<subseteq> {0, 139} \<and> (\<exists>said. afl st1 = afl st @ said \<and> ?ok said ss)"
    using s(2) o by (metis snd_conv)
  show ?case
  proof (cases res)
    case (Inl e)
    then show ?thesis using ends o by (simp add: prog_simps)
  next
    case (Inr u)
    show ?thesis
    proof (cases "one_run opts = 0 \<and> run_no st1 < RUN_NO_MAX")
      case False
      then show ?thesis using ends o Inr by (auto simp: prog_simps next_run_run)
    next
      case True
      let ?st = "st1\<lparr>run_no := run_no st1 + 1\<rparr>"
      obtain ss said2 where l: "length ss = length rs" "set ss \<subseteq> {0, 139}"
        "afl (snd (fuzz_loop opts p rs ?st)) = afl ?st @ said2"
        "if forksrv_on (fork ?st) then prefix said2 (concat (map2 (exchange p) rs ss)) else said2 = []"
        using Cons.IH [of ?st] by blast
      have "fuzz_loop opts p (r # rs) st = fuzz_loop opts p rs ?st" using o Inr True by (simp add: prog_simps next_run_run)
      moreover have "afl (snd (fuzz_loop opts p rs ?st)) = afl st @ (said @ said2)" using l(3) s(2) o by simp
      moreover have "?ok (said @ said2) (s # ss)"
        using l(4) s(3-5) o Inr by (cases "forksrv_on (fork st)") simp_all
      moreover have "length (s # ss) = length (r # rs)" "set (s # ss) \<subseteq> {0, 139}" using l(1,2) s(1) by simp_all
      ultimately show ?thesis by metis
    qed
  qed
qed

lemma start_said:
  "forksrv_on (fork (snd (fuzz_start opts env (first_state env)))) = forksrv_on (fork (first_state env)) \<and>
   (fst (fuzz_start opts env (first_state env)) = Inr () \<longrightarrow>
     afl (snd (fuzz_start opts env (first_state env))) = (if forksrv_on (fork (first_state env)) then [To_afl 0] else [])) \<and>
   prefix (afl (snd (fuzz_start opts env (first_state env)))) (if forksrv_on (fork (first_state env)) then [To_afl 0] else [])"
proof -
  let ?st = "first_state env"
  define rest :: "(fz_stop, fuzz, unit) prog" where "rest =
     andthen
       (if no_kcov opts = 0 then
          bnd (kcov_new (kcov_open env) (kcov_init env) (kcov_map env)) (\<lambda>k. update (\<lambda>st. st\<lparr>kc := Some k\<rparr>))
        else ret ())
     (andthen (require (kmsg_open env \<ge> 0))
       (if user_dmesg opts \<noteq> None then
          andthen (require (log_open env \<ge> 0))
            (update (\<lambda>st. st\<lparr>user_log := user_log st @ [lit '',;: Restarting fuzzing'' @ [10]]\<rparr>))
        else ret ()))"
  have q: "quiet rest" unfolding rest_def kcov_new_def by (intro quiet_intros quiet_update) simp_all
  have s: "fuzz_start opts env = andthen (forksrv_welcome (hello_result env)) rest"
    by (simp add: fuzz_start_def rest_def)
  have "afl ?st = []" by (simp add: first_state_def)
  then show ?thesis
    unfolding s using q [unfolded quiet_def, rule_format, of ?st]
      q [unfolded quiet_def, rule_format, of "log_afl (To_afl 0) ?st"]
    by (simp add: prog_simps) (simp add: log_afl_def forksrv_on_def)
qed

text \<open>
  C20: whatever the system calls return, what the fuzzer says to AFL is the greeting and, for each control
  message read, the pid of the child and a status, which is 0 or 139; a failing call cuts the conversation
  off. Without the fork server it says nothing.
\<close>

theorem fuzz_conversation:
  "\<exists>ss. length ss = length rounds \<and> set ss \<subseteq> {0, 139} \<and>
     (if forksrv_on (forksrv_new (env_no_forksrv env) (env_shm_id env) (env_shmat env)) then
        prefix (afl (snd (fuzz_main evs env rounds))) (To_afl 0 # concat (map2 (\<lambda>r s.
          [From_afl (was_killed r), To_afl (word_of_int (pid env + 1)), To_afl s]) rounds ss))
      else afl (snd (fuzz_main evs env rounds)) = [])"
proof (cases "fuzz_getopt evs no_opts")
  case (Inl e)
  then show ?thesis
    by (intro exI [of _ "replicate (length rounds) 0"]) (simp add: fuzz_main_def first_state_def set_replicate_conv_if)
next
  case (Inr opts)
  let ?p = "word_of_int (pid env + 1) :: u32" and ?on = "forksrv_on (fork (first_state env))"
  obtain res st where s: "fuzz_start opts env (first_state env) = (res, st)" by force
  have on: "?on = forksrv_on (forksrv_new (env_no_forksrv env) (env_shm_id env) (env_shmat env))"
    by (simp add: first_state_def)
  note said = start_said [of opts env, unfolded s fst_conv snd_conv]
  show ?thesis
  proof (cases res)
    case (Inl e)
    then have "snd (fuzz_main evs env rounds) = st" using Inr s by (simp add: fuzz_main_def prog_simps)
    then show ?thesis using said on
      by (intro exI [of _ "replicate (length rounds) 0"]) (auto split: if_splits simp: prefix_Cons set_replicate_conv_if)
  next
    case ok: (Inr u)
    obtain ended st' where l: "fuzz_loop opts ?p rounds st = (ended, st')" by force
    have e: "afl (snd (fuzz_main evs env rounds)) = afl st'"
      using Inr s ok l
      by (cases ended; cases "kc st'")
        (auto simp: fuzz_main_def prog_simps forksrv_free_def kcov_free_def)
    show ?thesis
      using loop_said [of rounds opts ?p st] said ok on unfolding e l snd_conv exchange_def [abs_def]
      by (auto split: if_splits)
  qed
qed

section \<open>The state between the rounds\<close>

text \<open>The coverage map and, if it is used, the buffer of the kernel are there in their sizes.\<close>

definition ready :: "fuzz \<Rightarrow> bool" where
  "ready st \<longleftrightarrow> (\<exists>a. afl_area (fork st) = Some a \<and> length a = 65536) \<and>
     (kc st = None \<or> (\<exists>c. has_cover c st \<and> length c = COVER_SIZE))"

text \<open>
  The contract of the coverage buffer: the kernel keeps its size, and the counter stays within it. A record of
  \<open>/dev/kmsg\<close> fits into the buffer given to \<open>read\<close>.
\<close>

definition kernel_contract :: "round \<Rightarrow> bool" where
  "kernel_contract r \<longleftrightarrow>
     (\<forall>c. length c = COVER_SIZE \<longrightarrow> length (traced r c) = COVER_SIZE \<and> unat (traced r c ! 0) < COVER_SIZE) \<and>
     (\<forall>m\<in>set (kmsg r). length m < 8192)"

text \<open>Computations that keep a state ready and end with nothing but \<open>PFATAL\<close>, or with the overflow of the number of rounds.\<close>

definition sound :: "(fz_stop, fuzz, 'a) prog \<Rightarrow> bool" where
  "sound m \<longleftrightarrow> (\<forall>st. ready st \<longrightarrow> ready (snd (m st)) \<and> (\<forall>e. fst (m st) = Inl e \<longrightarrow> e \<in> {Fatal, Overflow}))"

named_theorems sound_intros \<open>computations without faults\<close>

lemma sound_basic [sound_intros]:
  "sound (ret x)" "sound (halt Fatal)" "sound (halt Overflow)" "sound (fetch f)" "sound (require b)"
  by (simp_all add: sound_def ret_def halt_def fetch_def require_def)

lemma sound_bnd [sound_intros]:
  assumes "sound m" "\<And>x. sound (f x)"
  shows "sound (bnd m f)"
  unfolding sound_def
proof (intro allI impI)
  fix st assume r: "ready st"
  obtain res st1 where m: "m st = (res, st1)" by force
  then have st1: "ready st1" "res = Inl e \<Longrightarrow> e \<in> {Fatal, Overflow}" for e
    using assms(1) [unfolded sound_def, rule_format, OF r] by simp_all
  show "ready (snd (bnd m f st)) \<and> (\<forall>e. fst (bnd m f st) = Inl e \<longrightarrow> e \<in> {Fatal, Overflow})"
  proof (cases res)
    case (Inl e)
    then show ?thesis using m st1 by (simp add: bnd_def)
  next
    case (Inr x)
    then show ?thesis using m assms(2) [of x, unfolded sound_def, rule_format, OF st1(1)] by (simp add: bnd_def)
  qed
qed

lemma sound_andthen [sound_intros]: "sound m \<Longrightarrow> sound k \<Longrightarrow> sound (andthen m k)"
  unfolding andthen_def by (rule sound_bnd)

lemma sound_if [sound_intros]: "sound m \<Longrightarrow> sound k \<Longrightarrow> sound (if b then m else k)"
  by simp

lemma sound_option [sound_intros]: "sound m \<Longrightarrow> (\<And>x. sound (f x)) \<Longrightarrow> sound (case_option m f z)"
  by (cases z) simp_all

lemma ready_cong:
  "afl_area (fork st') = afl_area (fork st) \<Longrightarrow> kc st' = kc st \<Longrightarrow> ready st' = ready st"
  by (simp add: ready_def has_cover_def)

lemma sound_update:
  assumes "\<And>st. afl_area (fork (f st)) = afl_area (fork st) \<and> kc (f st) = kc st"
  shows "sound (update f)"
proof -
  have "ready (f st) = ready st" for st using assms [of st] by (intro ready_cong) simp_all
  then show ?thesis by (simp add: sound_def update_def)
qed

lemma ready_set_cover: "ready st \<Longrightarrow> length c = COVER_SIZE \<Longrightarrow> ready (set_cover c st)"
  by (auto simp: ready_def set_cover_def has_cover_def COVER_SIZE_def)

lemma sound_afl [sound_intros]:
  "sound (afl_write w v)" "sound (forksrv_cycle a b w v)" "sound (forksrv_status w v)"
  unfolding afl_write_def forksrv_cycle_def forksrv_status_def
  by (intro sound_intros sound_update; simp add: log_afl_def)+

lemma sound_netns_new [sound_intros]: "sound (netns_new u fd)"
proof -
  have "ready (st\<lparr>nets := n\<rparr>) = ready st" for st n by (rule ready_cong) simp_all
  then show ?thesis by (auto simp: sound_def run_netns_new split: option.splits)
qed

text \<open>A round with a coverage buffer: from \<open>kcov_enable\<close> to the map.\<close>

lemma ready_set_area: "ready st \<Longrightarrow> length a = 65536 \<Longrightarrow> ready (set_area a st)"
  by (auto simp: ready_def set_area_def has_cover_def)

lemma sint_count: "unat (n :: u64) < COVER_SIZE \<Longrightarrow> nat (sint (ucast n :: u32)) = unat n"
proof -
  assume "unat n < COVER_SIZE"
  then have n: "unat n < 65536" by (simp add: COVER_SIZE_def)
  moreover have i: "uint n = int (unat n)" by simp
  ultimately have u: "0 \<le> uint n" "uint n < 65536" by linarith+
  moreover have "(2 :: int) ^ 31 = 2147483648" "(2 :: int) ^ 32 = 4294967296" by simp_all
  ultimately have "- (2 ^ 31) \<le> uint n" "uint n < 2 ^ 31" and p: "uint n < 2 ^ 32" by linarith+
  from this(1,2) have "signed_take_bit 31 (uint n) = uint n" by (rule signed_take_bit_int_eq_self)
  moreover have "take_bit 32 (uint n) = uint n" using u(1) p by (rule take_bit_int_eq_self)
  ultimately have "sint (ucast n :: u32) = int (unat n)" unfolding i [symmetric]
    by (simp only: sint_uint unsigned_ucast_eq) simp
  then show ?thesis by simp
qed

text \<open>The addresses a round records, and the state after the part of the round that deals with them.\<close>

definition recorded :: "round \<Rightarrow> fuzz \<Rightarrow> u64 list" where
  "recorded r st = (case Option.bind (kc st) cover of
     None \<Rightarrow> []
   | Some c \<Rightarrow> (let c = traced r (c[0 := 0]) in take (unat (c ! 0)) (drop 1 c)))"

lemma ready_cases:
  assumes "ready st"
  obtains a where "afl_area (fork st) = Some a" "length a = 65536" "kc st = None"
  | a c where "afl_area (fork st) = Some a" "length a = 65536" "has_cover c st" "length c = COVER_SIZE"
  using assms unfolding ready_def by blast

lemma run_stop_coverage:
  assumes "has_cover c st" "length c = COVER_SIZE" "unat (c ! 0) < COVER_SIZE" "afl_area (fork st) = Some a"
    and "length a = 65536"
  shows "stop_coverage opts r st = (if disable_result r \<noteq> 0 then (Inl Fatal, st) else
    (Inr (), (set_area (count_hits (edges (take (unat (c ! 0)) (drop 1 c))) a) st)
      \<lparr>dumped := dumped st @ (if dump opts \<noteq> 0 then take (unat (c ! 0)) (drop 1 c) else [])\<rparr>))"
proof -
  have k: "kc st \<noteq> None" "Option.bind (kc st) cover = Some c" using assms(1) by (auto simp: has_cover_def)
  have l: "cover_load 0 st = (Inr (c ! 0), st)"
    using k assms(1) by (simp add: cover_load_def prog_simps has_cover_def)
  have d: "kcov_disable (disable_result r) st =
      (if disable_result r \<noteq> 0 then (Inl Fatal, st) else (Inr (sint (ucast (c ! 0) :: u32)), st))"
    by (simp add: kcov_disable_def prog_simps l Let_def)
  show ?thesis
    using run_record_locs [OF assms(5,4), of 0 "unat (c ! 0)" c 0 "dump opts \<noteq> 0"] assms(2,3) k
    by (simp add: stop_coverage_def prog_simps d sint_count edges_eq)
qed

lemma sound_stop:
  assumes "kernel_contract r"
  shows "sound (andthen (kernel (traced r)) (stop_coverage opts r))"
  unfolding sound_def
proof (intro allI impI)
  fix st assume r: "ready st"
  let ?m = "andthen (kernel (traced r)) (stop_coverage opts r)"
  from r show "ready (snd (?m st)) \<and> (\<forall>e. fst (?m st) = Inl e \<longrightarrow> e \<in> {Fatal, Overflow})"
  proof (cases rule: ready_cases)
    case (1 a)
    then have "?m st = (Inr (), st)" by (simp add: prog_simps kernel_def stop_coverage_def)
    then show ?thesis using r by simp
  next
    case (2 a c)
    let ?c = "traced r c" and ?st = "set_cover (traced r c) st"
    have c: "length ?c = COVER_SIZE" "unat (?c ! 0) < COVER_SIZE"
      using assms 2(4) by (simp_all add: kernel_contract_def)
    have h: "has_cover ?c ?st" using 2(3) c(1) by (intro has_cover_set) (auto simp: COVER_SIZE_def)
    have a: "afl_area (fork ?st) = Some a" using 2(1) by (simp add: set_cover_def)
    have rd: "ready ?st" using r c(1) by (rule ready_set_cover)
    have "?m st = stop_coverage opts r ?st" using run_kernel [OF 2(3)] by (simp add: prog_simps)
    moreover have "ready ((set_area b ?st)\<lparr>dumped := d\<rparr>)" if "length b = 65536" for b d
      using ready_set_area [OF rd that] by (simp add: ready_def has_cover_def)
    ultimately show ?thesis
      using rd 2(2) by (simp add: run_stop_coverage [OF h c a 2(2)])
  qed
qed

lemma sound_enable: "sound (start_coverage r)"
  unfolding sound_def
proof (intro allI impI)
  fix st assume r: "ready st"
  from r show "ready (snd (start_coverage r st)) \<and> (\<forall>e. fst (start_coverage r st) = Inl e \<longrightarrow> e \<in> {Fatal, Overflow})"
  proof (cases rule: ready_cases)
    case (1 a)
    then show ?thesis using r by (simp add: start_coverage_def prog_simps)
  next
    case (2 a c)
    then have k: "kc st \<noteq> None" "Option.bind (kc st) cover = Some c" "0 < length c" by (auto simp: has_cover_def)
    have s: "cover_store 0 0 st = (Inr (), set_cover (c[0 := 0]) st)"
      using k by (simp add: cover_store_def prog_simps set_cover_def)
    have rd: "ready (set_cover (c[0 := 0]) st)" using r 2(4) by (intro ready_set_cover) simp_all
    have "start_coverage r st =
        (if enable_result r = 0 then (Inr (), set_cover (c[0 := 0]) st) else (Inl Fatal, set_cover (c[0 := 0]) st))"
      using run_kcov_enable [OF 2(3)] k s by (auto simp: start_coverage_def kcov_enable_def prog_simps)
    then show ?thesis using rd by simp
  qed
qed

lemma sound_check_dmesg:
  "\<forall>m\<in>set ms. length m < 8192 \<Longrightarrow> sound (check_dmesg opts ms n)"
  by (induction opts ms n rule: check_dmesg.induct) (auto intro!: sound_intros sound_update)

lemma sound_round:
  assumes "kernel_contract r"
  shows "sound (one_round opts p r)"
proof -
  have n: "sound (new_netns opts r)" unfolding new_netns_def by (intro sound_intros sound_update) simp
  have t: "sound (test_input r b k)" for b k unfolding test_input_def by (intro sound_update) simp
  have rep: "sound (report r k)" for k unfolding report_def by (intro sound_intros sound_update) simp
  have d: "sound (check_dmesg opts (kmsg r) 0)" using assms by (intro sound_check_dmesg) (simp add: kernel_contract_def)
  have s: "sound (andthen (kernel (traced r)) (andthen (stop_coverage opts r) (bnd (check_dmesg opts (kmsg r) 0) (report r))))"
    unfolding andthen_assoc [symmetric] by (intro sound_intros sound_stop assms d rep)
  show ?thesis unfolding one_round_def Let_def
  proof (rule sound_andthen [OF sound_afl(2)], cases "stdin r")
    case (Some input)
    then show "sound (case stdin r of None \<Rightarrow> halt Fatal | Some input \<Rightarrow>
        andthen (new_netns opts r) (andthen (start_coverage r)
          (andthen (test_input r (input_buf input) (max 5 (length input))) (andthen (kernel (traced r))
          (andthen (stop_coverage opts r) (bnd (check_dmesg opts (kmsg r) 0) (report r)))))))"
      by (simp only: option.case) (rule sound_andthen [OF n sound_andthen [OF sound_enable sound_andthen [OF t s]]])
  qed (simp add: sound_basic)
qed

lemma sound_next_run: "sound next_run"
  by (simp add: sound_def next_run_run ready_def has_cover_def)

lemma sound_loop:
  "\<forall>r\<in>set rounds. kernel_contract r \<Longrightarrow> sound (fuzz_loop opts p rounds)"
  by (induction rounds) (auto intro!: sound_intros sound_round sound_next_run)

text \<open>
  The shared memory of AFL, if there is any, can be attached and has the size of the map; the buffer mapped
  from \<open>kcov\<close> has the size asked for.
\<close>

definition env_contract :: "fuzz_env \<Rightarrow> bool" where
  "env_contract env \<longleftrightarrow>
     (case env_shm_id env of None \<Rightarrow> True | Some s \<Rightarrow>
        (case env_shmat env (atoi s) of None \<Rightarrow> False | Some a \<Rightarrow> length a = 65536)) \<and>
     (case kcov_map env of None \<Rightarrow> True | Some c \<Rightarrow> length c = COVER_SIZE)"

lemma ready_first: "env_contract env \<Longrightarrow> ready (first_state env)"
  by (auto simp: env_contract_def ready_def first_state_def forksrv_new_def split: option.splits)

lemma sound_start: "env_contract env \<Longrightarrow> sound (fuzz_start opts env)"
proof -
  assume "env_contract env"
  then have k: "sound (bnd (kcov_new (kcov_open env) (kcov_init env) (kcov_map env)) (\<lambda>k. update (\<lambda>st. st\<lparr>kc := Some k\<rparr>)))"
    by (auto simp: env_contract_def sound_def kcov_new_def prog_simps require_def ready_def has_cover_def
        COVER_SIZE_def split: option.splits)
  show ?thesis
    unfolding fuzz_start_def forksrv_welcome_def by (intro sound_intros k sound_update) simp_all
qed

lemma getopt_exits: "fuzz_getopt evs opts = Inl e \<Longrightarrow> \<exists>c. e = Exited c"
proof (induction evs arbitrary: opts)
  case (Cons ev evs)
  obtain arg optarg where "ev = (arg, optarg)" by force
  then show ?case using Cons.prems by (auto dest: Cons.IH split: if_split_asm option.split_asm)
qed simp

section \<open>A round in which no call fails\<close>

definition calls_ok :: "round \<Rightarrow> bool" where
  "calls_ok r \<longleftrightarrow> ctl_result r = 4 \<and> pid_result r = 4 \<and> stdin r \<noteq> None \<and> unshare_error r \<in> {None, Some 28} \<and>
     enable_result r = 0 \<and> disable_result r = 0 \<and> status_result r = 4"

text \<open>A crash is reported when one of the records read is one.\<close>

definition crashes :: "round \<Rightarrow> bool" where
  "crashes r \<longleftrightarrow> (\<exists>m\<in>set (takeWhile (\<lambda>m. m \<noteq> []) (kmsg r)). is_crash m)"

definition status_of :: "round \<Rightarrow> u32" where
  "status_of r = (if crashes r then 139 else 0)"

text \<open>The namespaces made in a round, and the test.\<close>

definition spaces_of :: "fuzz_opts \<Rightarrow> int \<Rightarrow> bool \<Rightarrow> round \<Rightarrow> bytes list list" where
  "spaces_of opts n force r =
     (if (netns opts \<noteq> 0 \<and> n smod netns opts = 0 \<or> force) \<and> unshare_error r = None then
        [if route_socket r < 0 then [] else setup_messages] else [])"

definition test_of :: "round \<Rightarrow> attempt" where
  "test_of r = (let input = the (stdin r) in attempt r (input_buf input) (max 5 (length input)))"

lemma run_check_dmesg:
  "\<forall>m\<in>set ms. length m < 8192 \<Longrightarrow> \<exists>k l. check_dmesg opts ms n st = (Inr (n + k), st\<lparr>user_log := l\<rparr>) \<and>
     (0 < k \<longleftrightarrow> (\<exists>m\<in>set (takeWhile (\<lambda>m. m \<noteq> []) ms). is_crash m))"
proof (induction ms arbitrary: n st)
  case Nil
  then show ?case by (intro exI [of _ 0] exI [of _ "user_log st"]) (simp add: prog_simps)
next
  case (Cons m ms)
  show ?case
  proof (cases "m = []")
    case True
    then show ?thesis by (intro exI [of _ 0] exI [of _ "user_log st"]) (simp add: prog_simps)
  next
    case False
    let ?n = "if is_crash m then n + 1 else n"
    let ?st = "st\<lparr>user_log := user_log st @ (if user_dmesg opts \<noteq> None then [m] else [])\<rparr>"
    obtain k l where "check_dmesg opts ms ?n ?st = (Inr (?n + k), ?st\<lparr>user_log := l\<rparr>)"
      "0 < k \<longleftrightarrow> (\<exists>m\<in>set (takeWhile (\<lambda>m. m \<noteq> []) ms). is_crash m)"
      using Cons.IH [of ?n ?st] Cons.prems by fastforce
    moreover have "check_dmesg opts (m # ms) n st = check_dmesg opts ms ?n ?st"
      using False Cons.prems by (simp add: prog_simps)
    ultimately show ?thesis using False
      by (intro exI [of _ "if is_crash m then Suc k else k"] exI [of _ l]) auto
  qed
qed

lemma run_new_netns:
  assumes "unshare_error r \<in> {None, Some 28}"
  shows "new_netns opts r st = (Inr (), st\<lparr>nets := nets st @ spaces_of opts (run_no st) (force_new_netns st) r,
    force_new_netns := False\<rparr>)"
  using assms by (auto simp: new_netns_def prog_simps run_netns_new spaces_of_def)

text \<open>The fields that are not touched between the test and the report.\<close>

definition same_rest :: "fuzz \<Rightarrow> fuzz \<Rightarrow> bool" where
  "same_rest st st' \<longleftrightarrow> afl st' = afl st \<and> nets st' = nets st \<and> tests st' = tests st \<and> run_no st' = run_no st \<and>
     force_new_netns st' = force_new_netns st \<and> forksrv_on (fork st') = forksrv_on (fork st)"

lemma coverage_ok:
  assumes r: "ready st" and c: "calls_ok r" "kernel_contract r"
  shows "\<exists>st'. andthen (start_coverage r) (andthen (test_input r b n) (andthen (kernel (traced r)) (stop_coverage opts r))) st =
      (Inr (), st') \<and> ready st' \<and> same_rest (st\<lparr>tests := tests st @ [attempt r b n]\<rparr>) st'"
  using r
proof (cases rule: ready_cases)
  case (1 a)
  let ?st = "st\<lparr>tests := tests st @ [attempt r b n]\<rparr>"
  have "ready ?st" using r by (simp add: ready_def has_cover_def)
  moreover have "kernel (traced r) ?st = (Inr (), ?st)" using 1(3) by (simp add: kernel_def prog_simps)
  ultimately show ?thesis using 1(3)
    by (simp add: prog_simps start_coverage_def test_input_def stop_coverage_def same_rest_def)
next
  case (2 a c)
  let ?c0 = "c[0 := 0]" and ?c1 = "traced r (c[0 := 0])"
  let ?st1 = "set_cover ?c0 st"
  let ?st2 = "?st1\<lparr>tests := tests st @ [attempt r b n]\<rparr>"
  have c1: "length ?c1 = COVER_SIZE" "unat (?c1 ! 0) < COVER_SIZE"
    using c(2) 2(4) by (simp_all add: kernel_contract_def)
  have h2: "has_cover ?c0 ?st2" using has_cover_set [OF 2(3), of ?c0] 2(3) by (simp add: has_cover_def)
  have h3: "has_cover ?c1 (set_cover ?c1 ?st2)" using has_cover_set [OF h2, of ?c1] c1(1) by (simp add: COVER_SIZE_def)
  have a: "afl_area (fork (set_cover ?c1 ?st2)) = Some a" using 2(1) by (simp add: set_cover_def)
  have "kc st \<noteq> None" using 2(3) by (auto simp: has_cover_def)
  then have s: "start_coverage r st = (Inr (), ?st1)"
    using run_kcov_enable [OF 2(3)] c(1) by (simp add: start_coverage_def prog_simps calls_ok_def)
  let ?ls = "take (unat (?c1 ! 0)) (drop 1 ?c1)"
  let ?st3 = "(set_area (count_hits (edges ?ls) a) (set_cover ?c1 ?st2))
      \<lparr>dumped := dumped ?st2 @ (if dump opts \<noteq> 0 then ?ls else [])\<rparr>"
  have "stop_coverage opts r (set_cover ?c1 ?st2) = (Inr (), ?st3)"
    using run_stop_coverage [OF h3 c1 a 2(2)] c(1) by (simp add: calls_ok_def set_cover_def)
  then have run: "andthen (start_coverage r) (andthen (test_input r b n) (andthen (kernel (traced r)) (stop_coverage opts r))) st =
      (Inr (), ?st3)"
    using s run_kernel [OF h2] by (simp add: prog_simps test_input_def set_cover_def)
  have "ready (set_cover ?c1 ?st2)"
  proof (rule ready_set_cover [OF _ c1(1)])
    show "ready ?st2" using h2 2(1,2,4) by (auto simp: ready_def set_cover_def)
  qed
  then have "ready (set_area (count_hits (edges ?ls) a) (set_cover ?c1 ?st2))"
    using 2(2) by (intro ready_set_area) simp_all
  then have "ready ?st3" by (simp add: ready_def has_cover_def)
  moreover have "same_rest (st\<lparr>tests := tests st @ [attempt r b n]\<rparr>) ?st3"
    by (simp add: same_rest_def set_area_def set_cover_def forksrv_on_def)
  ultimately show ?thesis using run by blast
qed

lemma one_round_ok:
  assumes st: "ready st" and r: "calls_ok r" "kernel_contract r"
  shows "\<exists>st'. one_round opts p r st = (Inr (), st') \<and> ready st' \<and>
    afl st' = afl st @ (if forksrv_on (fork st) then exchange p r (status_of r) else []) \<and>
    nets st' = nets st @ spaces_of opts (run_no st) (force_new_netns st) r \<and>
    tests st' = tests st @ [test_of r] \<and> run_no st' = run_no st \<and> force_new_netns st' = crashes r \<and>
    forksrv_on (fork st') = forksrv_on (fork st)"
proof -
  obtain input where i: "stdin r = Some input" using r(1) by (auto simp: calls_ok_def)
  let ?b = "input_buf input" and ?n = "max 5 (length input)"
  define st1 where "st1 = snd (forksrv_cycle (ctl_result r) (was_killed r) (pid_result r) p st)"
  have c: "fst (forksrv_cycle (ctl_result r) (was_killed r) (pid_result r) p st) \<in> range Inr"
    and st1: "afl st1 = afl st @ (if forksrv_on (fork st) then [From_afl (was_killed r), To_afl p] else [])"
      "nets st1 = nets st" "tests st1 = tests st" "run_no st1 = run_no st"
      "force_new_netns st1 = force_new_netns st" "fork st1 = fork st" "kc st1 = kc st"
    using r(1) by (auto simp: st1_def calls_ok_def prog_simps log_afl_def)
  let ?st2 = "st1\<lparr>nets := nets st1 @ spaces_of opts (run_no st1) (force_new_netns st1) r, force_new_netns := False\<rparr>"
  have n: "new_netns opts r st1 = (Inr (), ?st2)" using r(1) by (intro run_new_netns) (simp add: calls_ok_def)
  have "ready ?st2" using st st1(6,7) by (simp add: ready_def has_cover_def)
  then obtain st3 where s3: "andthen (start_coverage r) (andthen (test_input r ?b ?n)
        (andthen (kernel (traced r)) (stop_coverage opts r))) ?st2 = (Inr (), st3)"
      "ready st3" "same_rest (?st2\<lparr>tests := tests ?st2 @ [attempt r ?b ?n]\<rparr>) st3"
    using coverage_ok [OF _ r] by blast
  obtain k l where d: "check_dmesg opts (kmsg r) 0 st3 = (Inr k, st3\<lparr>user_log := l\<rparr>)" "0 < k \<longleftrightarrow> crashes r"
    using run_check_dmesg [of "kmsg r" opts 0 st3] r(2) by (auto simp: kernel_contract_def crashes_def)
  have "one_round opts p r st = report r k (st3\<lparr>user_log := l\<rparr>)"
  proof -
    have "one_round opts p r = andthen (forksrv_cycle (ctl_result r) (was_killed r) (pid_result r) p)
        (andthen (new_netns opts r) (andthen (andthen (start_coverage r) (andthen (test_input r ?b ?n)
          (andthen (kernel (traced r)) (stop_coverage opts r)))) (bnd (check_dmesg opts (kmsg r) 0) (report r))))"
      by (simp add: one_round_def i Let_def andthen_assoc)
    moreover obtain w where "forksrv_cycle (ctl_result r) (was_killed r) (pid_result r) p st = (Inr w, st1)"
      using c by (metis imageE prod.collapse st1_def)
    ultimately show ?thesis using n s3(1) d(1) by (simp only: bnd_run prod.case sum.case)
  qed
  moreover have "report r k (st3\<lparr>user_log := l\<rparr>) = (Inr (),
      st3\<lparr>user_log := l, afl := afl st3 @ (if forksrv_on (fork st3) then [To_afl (status_of r)] else []),
        force_new_netns := crashes r\<rparr>)"
    using d(2) r(1) s3(3) by (auto simp: report_def prog_simps log_afl_def calls_ok_def status_of_def same_rest_def)
  moreover have "ready (st3\<lparr>user_log := l, afl := m, force_new_netns := b\<rparr>)" for m b
    using s3(2) by (simp add: ready_def has_cover_def)
  ultimately show ?thesis
    using s3(3) st1 i by (auto simp: same_rest_def exchange_def test_of_def Let_def)
qed

text \<open>The namespaces of the rounds: the number of the round and the crash before it decide.\<close>

definition spaces_at :: "fuzz_opts \<Rightarrow> int \<Rightarrow> bool \<Rightarrow> round list \<Rightarrow> nat \<Rightarrow> bytes list list" where
  "spaces_at opts n force rounds i =
     spaces_of opts (n + int i) (if i = 0 then force else crashes (rounds ! (i - 1))) (rounds ! i)"

lemma fuzz_loop_ok:
  assumes "one_run opts = 0" "ready st" "\<forall>r\<in>set rounds. calls_ok r \<and> kernel_contract r"
    and "run_no st + int (length rounds) \<le> RUN_NO_MAX"
  shows "\<exists>st'. fuzz_loop opts p rounds st = (Inr False, st') \<and>
    afl st' = afl st @ (if forksrv_on (fork st) then concat (map (\<lambda>r. exchange p r (status_of r)) rounds) else []) \<and>
    nets st' = nets st @ concat (map (spaces_at opts (run_no st) (force_new_netns st) rounds) [0..<length rounds]) \<and>
    tests st' = tests st @ map test_of rounds"
  using assms(2-4)
proof (induction rounds arbitrary: st)
  case Nil
  then show ?case by (simp add: prog_simps)
next
  case (Cons r rs)
  obtain st1 where o: "one_round opts p r st = (Inr (), st1)" "ready st1"
    and s: "afl st1 = afl st @ (if forksrv_on (fork st) then exchange p r (status_of r) else [])"
      "nets st1 = nets st @ spaces_of opts (run_no st) (force_new_netns st) r"
      "tests st1 = tests st @ [test_of r]" "run_no st1 = run_no st" "force_new_netns st1 = crashes r"
      "forksrv_on (fork st1) = forksrv_on (fork st)"
    using one_round_ok [of st r opts p] Cons.prems by auto
  let ?st = "st1\<lparr>run_no := run_no st1 + 1\<rparr>"
  have "ready ?st" using o(2) by (simp add: ready_def has_cover_def)
  then obtain st' where l: "fuzz_loop opts p rs ?st = (Inr False, st')"
    "afl st' = afl ?st @ (if forksrv_on (fork ?st) then concat (map (\<lambda>r. exchange p r (status_of r)) rs) else [])"
    "nets st' = nets ?st @ concat (map (spaces_at opts (run_no ?st) (force_new_netns ?st) rs) [0..<length rs])"
    "tests st' = tests ?st @ map test_of rs"
    using Cons.IH [of ?st] Cons.prems(2,3) s(4) by auto
  have shift: "map (spaces_at opts (run_no st) (force_new_netns st) (r # rs)) [0..<length (r # rs)] =
      spaces_of opts (run_no st) (force_new_netns st) r #
        map (spaces_at opts (run_no st + 1) (crashes r) rs) [0..<length rs]"
  proof -
    have "[0..<length (r # rs)] = 0 # map Suc [0..<length rs]" by (simp add: map_Suc_upt upt_conv_Cons del: upt_Suc)
    then show ?thesis by (auto simp: spaces_at_def nth_Cons' algebra_simps)
  qed
  have "fuzz_loop opts p (r # rs) st = (Inr False, st')"
    using o(1) l(1) assms(1) Cons.prems(3) s(4) by (simp add: prog_simps next_run_run)
  moreover have "nets st' = nets st @ concat (map (spaces_at opts (run_no st) (force_new_netns st) (r # rs)) [0..<length (r # rs)])"
    unfolding shift using l(3) s by simp
  ultimately show ?case using l(2,4) s by auto
qed

text \<open>The preparations succeed.\<close>

definition start_ok :: "fuzz_opts \<Rightarrow> fuzz_env \<Rightarrow> bool" where
  "start_ok opts env \<longleftrightarrow> env_contract env \<and> hello_result env = 4 \<and> kmsg_open env \<ge> 0 \<and>
     (no_kcov opts = 0 \<longrightarrow> kcov_open env \<noteq> -1 \<and> kcov_init env = 0 \<and> kcov_map env \<noteq> None) \<and>
     (user_dmesg opts \<noteq> None \<longrightarrow> log_open env \<ge> 0)"

lemma run_start:
  assumes "start_ok opts env"
  shows "\<exists>st. fuzz_start opts env (first_state env) = (Inr (), st) \<and> ready st \<and> nets st = [] \<and> tests st = [] \<and>
    run_no st = 0 \<and> force_new_netns st \<and> forksrv_on (fork st) = forksrv_on (fork (first_state env)) \<and>
    afl st = (if forksrv_on (fork (first_state env)) then [To_afl 0] else [])"
proof -
  obtain res st where s: "fuzz_start opts env (first_state env) = (res, st)" by force
  have "res = Inr () \<and> nets st = [] \<and> tests st = [] \<and> run_no st = 0 \<and> force_new_netns st"
    using s assms
    by (auto simp: fuzz_start_def prog_simps kcov_new_def require_def start_ok_def first_state_def log_afl_def
        split: option.splits if_splits)
  moreover have "ready st"
    using sound_start [of env opts] ready_first [of env] s assms by (simp add: sound_def start_ok_def) (metis snd_conv)
  ultimately show ?thesis using start_said [of opts env] s by simp
qed

section \<open>Theorems\<close>

text \<open>
  C19: under the contract of the shared memory and of the kernel's buffer the fuzzer never accesses memory it
  has not mapped nor leaves an array, whatever its input, its options and the results of all other calls:
  it goes on, returns, or exits. This is said up to the overflow of \<open>run_no\<close> behind $2^{31} - 1$ rounds, where the
  model stops.
\<close>

theorem fuzz_main_safe:
  assumes "env_contract env" "\<forall>r\<in>set rounds. kernel_contract r"
  shows "fst (fuzz_main evs env rounds) \<notin> {Inl Segv, Inl Past_end}"
proof (cases "fuzz_getopt evs no_opts")
  case (Inl e)
  then show ?thesis using getopt_exits [OF Inl] by (auto simp: fuzz_main_def)
next
  case (Inr opts)
  let ?loop = "fuzz_loop opts (word_of_int (pid env + 1)) rounds"
  have s: "sound (andthen (fuzz_start opts env) ?loop)"
    by (intro sound_intros sound_start sound_loop assms)
  obtain res st where l: "andthen (fuzz_start opts env) ?loop (first_state env) = (res, st)" by force
  have "res \<noteq> Inl Segv" "res \<noteq> Inl Past_end"
    using s [unfolded sound_def, rule_format, OF ready_first [OF assms(1)]] l by auto
  moreover have "fuzz_main evs env rounds = bnd (andthen (fuzz_start opts env) ?loop) (\<lambda>ended.
      if ended then andthen forksrv_free
        (andthen (bnd (fetch kc) (\<lambda>k. if k \<noteq> None then kcov_free else ret ())) (ret (Some 0)))
      else ret None) (first_state env)"
    using Inr by (simp add: fuzz_main_def bnd_assoc)
  ultimately show ?thesis using l
    by (cases res) (auto simp: prog_simps forksrv_free_def kcov_free_def)
qed

definition quiet_round :: round where
  "quiet_round = \<lparr>ctl_result = 4, was_killed = 0, pid_result = 4, stdin = Some [0x10, 0, 0, 0, 0x80, 1, 2, 3],
     unshare_error = None, route_socket = 5, enable_result = 0, socket_result = 6, bind_result = 0,
     traced = (\<lambda>c. c[0 := 1, 1 := 0xffffffff81000010]), disable_result = 0, kmsg = [lit ''6,1,2,-;hello''],
     status_result = 4\<rparr>"

definition afl_env :: fuzz_env where
  "afl_env = \<lparr>pid = 41, env_no_forksrv = False, env_shm_id = Some [49], env_shmat = (\<lambda>_. Some blank_area),
     hello_result = 4, kcov_open = 3, kcov_init = 0, kcov_map = Some (replicate COVER_SIZE 0), kmsg_open = 4,
     log_open = -1\<rparr>"

lemma afl_env_contract: "env_contract afl_env"
  by (simp add: env_contract_def afl_env_def length_blank_area)

lemma quiet_round_contract: "kernel_contract quiet_round"
  by (auto simp: kernel_contract_def quiet_round_def COVER_SIZE_def lit_def)

theorem fuzz_main_safe_witness:
  "fst (fuzz_main [(118, None)] afl_env [quiet_round, quiet_round]) \<notin> {Inl Segv, Inl Past_end}"
  by (rule fuzz_main_safe) (simp_all add: afl_env_contract quiet_round_contract)

text \<open>
  C18: when no system call fails the loop goes on for each of the first $2^{31} - 1$ rounds (behind them \<open>run_no\<close>, an
  \<open>int\<close>, overflows), and every control message of AFL is answered: the status is 139 exactly when the kernel printed
  a crash. Each input is sent as one netlink message; a new namespace is made for the first test, after a crash, and
  for every \<open>N\<close>th test.
\<close>

theorem fuzz_run:
  assumes "fuzz_getopt evs no_opts = Inr opts" "one_run opts = 0" "start_ok opts env"
    and "\<forall>r\<in>set rounds. calls_ok r \<and> kernel_contract r" "length rounds < 2 ^ 31"
  shows "\<exists>st. fuzz_main evs env rounds = (Inr None, st) \<and>
    afl st = (if forksrv_on (fork (first_state env)) then
        To_afl 0 # concat (map (\<lambda>r. [From_afl (was_killed r), To_afl (word_of_int (pid env + 1)),
          To_afl (if crashes r then 139 else 0)]) rounds) else []) \<and>
    tests st = map (\<lambda>r. let input = the (stdin r) in attempt r (input_buf input) (max 5 (length input))) rounds \<and>
    nets st = concat (map (\<lambda>i.
        if (i = 0 \<or> crashes (rounds ! (i - 1)) \<or> netns opts \<noteq> 0 \<and> int i smod netns opts = 0) \<and>
            unshare_error (rounds ! i) = None
        then [if route_socket (rounds ! i) < 0 then [] else setup_messages] else []) [0..<length rounds])"
proof -
  obtain st where s: "fuzz_start opts env (first_state env) = (Inr (), st)" "ready st" "nets st = []" "tests st = []"
      "run_no st = 0" "force_new_netns st" "forksrv_on (fork st) = forksrv_on (fork (first_state env))"
      "afl st = (if forksrv_on (fork (first_state env)) then [To_afl 0] else [])"
    using run_start [OF assms(3)] by blast
  have n31: "run_no st + int (length rounds) \<le> RUN_NO_MAX" using s(5) assms(5) by (simp add: RUN_NO_MAX_def)
  obtain st' where l: "fuzz_loop opts (word_of_int (pid env + 1)) rounds st = (Inr False, st')"
      "afl st' = afl st @ (if forksrv_on (fork st) then
        concat (map (\<lambda>r. exchange (word_of_int (pid env + 1)) r (status_of r)) rounds) else [])"
      "nets st' = nets st @ concat (map (spaces_at opts (run_no st) (force_new_netns st) rounds) [0..<length rounds])"
      "tests st' = tests st @ map test_of rounds"
    using fuzz_loop_ok [OF assms(2) s(2) assms(4) n31] by blast
  have n: "spaces_at opts 0 True rounds = (\<lambda>i.
      if (i = 0 \<or> crashes (rounds ! (i - 1)) \<or> netns opts \<noteq> 0 \<and> int i smod netns opts = 0) \<and>
          unshare_error (rounds ! i) = None
      then [if route_socket (rounds ! i) < 0 then [] else setup_messages] else [])"
    by (auto simp: fun_eq_iff spaces_at_def spaces_of_def)
  have "fuzz_main evs env rounds = (Inr None, st')"
    using assms(1) s(1) l(1) by (simp add: fuzz_main_def prog_simps)
  moreover have "afl st' = (if forksrv_on (fork (first_state env)) then
        To_afl 0 # concat (map (\<lambda>r. [From_afl (was_killed r), To_afl (word_of_int (pid env + 1)),
          To_afl (if crashes r then 139 else 0)]) rounds) else [])"
    using l(2) s(7,8) by (simp add: exchange_def status_of_def)
  moreover have "tests st' = map (\<lambda>r. let input = the (stdin r) in
      attempt r (input_buf input) (max 5 (length input))) rounds"
    using l(4) s(4) by (simp add: test_of_def [abs_def])
  ultimately show ?thesis using l(3) s(3,5,6) n by auto
qed

text \<open>A round behind the last one \<open>run_no\<close> can count.\<close>

lemma rounds_overflow:
  assumes "one_run opts = 0" "run_no st = RUN_NO_MAX" "one_round opts p r st = (Inr (), st1)" "run_no st1 = run_no st"
  shows "fuzz_loop opts p (r # rs) st = (Inl Overflow, st1)"
  using assms by (simp add: prog_simps next_run_run)

definition crash_round :: round where
  "crash_round = quiet_round\<lparr>kmsg := [lit ''4,7,9,-;RIP: 0010:nlmsg'', []]\<rparr>"

lemma crash_round_contract: "kernel_contract crash_round" "calls_ok crash_round" "calls_ok quiet_round"
  using quiet_round_contract
  by (auto simp: crash_round_def kernel_contract_def calls_ok_def quiet_round_def lit_def)

lemma crashes_examples: "crashes crash_round" "\<not> crashes quiet_round"
  by (simp_all add: crashes_def crash_round_def quiet_round_def is_crash_def lit_def of_char_def Let_def)

theorem fuzz_run_witness:
  "\<exists>st. fuzz_main [(118, None)] afl_env [crash_round, quiet_round] = (Inr None, st) \<and>
     afl st = [To_afl 0, From_afl 0, To_afl 42, To_afl 139, From_afl 0, To_afl 42, To_afl 0] \<and>
     nets st = [setup_messages, setup_messages]"
proof -
  define opts where "opts = no_opts\<lparr>verbose := 1\<rparr>"
  have o: "fuzz_getopt [(118, None)] no_opts = Inr opts" "one_run opts = 0" by (simp_all add: opts_def no_opts_def)
  have s: "start_ok opts afl_env"
    using afl_env_contract by (simp add: start_ok_def afl_env_def opts_def no_opts_def)
  have r: "\<forall>r\<in>set [crash_round, quiet_round]. calls_ok r \<and> kernel_contract r"
    using crash_round_contract quiet_round_contract by simp
  have "forksrv_on (fork (first_state afl_env))"
    by (simp add: forksrv_on_def first_state_def afl_env_def forksrv_new_def)
  then show ?thesis
    using fuzz_run [OF o s r] crashes_examples
    by (auto simp: afl_env_def crash_round_def quiet_round_def)
qed

text \<open>
  The groups of the address are meant to be the four bytes of the input; a byte from 0x80 on sets all the
  bits above it too.
\<close>

lemma nl_groups_sign:
  assumes "bit (buf ! 4) 7"
  shows "nl_groups buf OR 0xff = - 1"
proof (rule bit_word_eqI)
  fix n assume n: "n < LENGTH(32)"
  have "bit (0xff :: u32) n" if "n < 8"
  proof -
    have "\<forall>k\<in>set [0..<8]. bit (0xff :: u32) k" by code_simp
    then show ?thesis using that by simp
  qed
  moreover have "bit (scast (buf ! 4) :: u32) n" if "8 \<le> n"
    using that n assms by (simp add: bit_signed_iff min_def)
  ultimately have "bit (scast (buf ! 4) :: u32) n \<or> bit (0xff :: u32) n" by linarith
  then show "bit (nl_groups buf OR 0xff) n \<longleftrightarrow> bit (- 1 :: u32) n"
    using n by (simp only: nl_groups_def bit_or_iff bit_minus_1_iff) simp
qed

end
