(* ===== verification/Net.thy ===== *)
theory Net
  imports Options Computation
begin

text \<open>
  \<open>2019-02-tcp-splice/net.c\<close>: the addresses given on the command line and printed, and the calls that make,
  bind, connect and accept sockets. A socket address is the 128 bytes of \<open>struct sockaddr_storage\<close> on a
  little-endian host; \<open>inet_pton\<close> and \<open>inet_ntop\<close> are parameters, \<open>None\<close> for a result other than 1 and for a
  null pointer. The system calls are their results.

  The theorems: which arguments are accepted as an address, and what reading back a printed address gives.
\<close>

unbundle bit_operations_syntax

section \<open>Stops\<close>

text \<open>
  \<open>FATAL\<close> and \<open>PFATAL\<close> end the program; \<open>Blocked\<close>: the program waits in a system call, the results given
  having all been used; \<open>Fault\<close>: an access behind the end of an object or a division by zero.
\<close>

datatype tcp_stop = Failure | Blocked | Fault

definition expect :: "bool \<Rightarrow> (tcp_stop, 's, unit) prog" where
  "expect ok = (if ok then ret () else halt Failure)"

lemma expect_run [prog_simps]:
  "expect True s = (Inr (), s)"
  "expect False s = (Inl Failure, s)"
  by (simp_all add: expect_def prog_run)

definition EINTR :: int where "EINTR = 4"
definition EPERM :: int where "EPERM = 1"
definition EAGAIN :: int where "EAGAIN = 11"
definition EPIPE :: int where "EPIPE = 32"
definition ECONNRESET :: int where "ECONNRESET = 104"
definition BUFFER_SIZE :: nat where "BUFFER_SIZE = 128 * 1024"

section \<open>Addresses\<close>

definition AF_INET :: u16 where "AF_INET = 2"
definition AF_INET6 :: u16 where "AF_INET6 = 10"
definition SS_SIZE :: nat where "SS_SIZE = 128"
definition INET6_ADDRSTRLEN :: nat where "INET6_ADDRSTRLEN = 46"

definition htons :: "u16 \<Rightarrow> u16" where
  "htons w = push_bit 8 w OR drop_bit 8 w"

text \<open>The members: the family and the port at 0 and 2, the addresses of the two families at 4 and 8.\<close>

definition ss_family :: "bytes \<Rightarrow> u16" where
  "ss_family ss = word_of_le (take 2 ss)"

definition ss_port :: "bytes \<Rightarrow> u16" where
  "ss_port ss = word_of_le (take 2 (drop 2 ss))"

definition sin_addr :: "bytes \<Rightarrow> bytes" where
  "sin_addr ss = take 4 (drop 4 ss)"

definition sin6_addr :: "bytes \<Rightarrow> bytes" where
  "sin6_addr ss = take 16 (drop 8 ss)"

definition net_addr_from_name :: "(u16 \<Rightarrow> bytes \<Rightarrow> bytes option) \<Rightarrow> bytes \<Rightarrow> bytes \<Rightarrow> tcp_stop + bytes" where
  "net_addr_from_name pton ss host =
     (case pton AF_INET host of
        Some a \<Rightarrow> Inr (array_write (array_write ss 4 a) 0 (le_bytes 2 AF_INET))
      | None \<Rightarrow>
     (case pton AF_INET6 host of
        Some a \<Rightarrow> Inr (array_write (array_write ss 8 a) 0 (le_bytes 2 AF_INET6))
      | None \<Rightarrow> Inl Failure))"

text \<open>The index of the last \<open>c\<close>.\<close>

fun strrchr :: "u8 \<Rightarrow> bytes \<Rightarrow> nat option" where
  "strrchr c [] = None"
| "strrchr c (x # xs) =
     (case strrchr c xs of
        Some i \<Rightarrow> Some (i + 1)
      | None \<Rightarrow> if x = c then Some 0 else None)"

text \<open>\<open>strtol\<close> with base 10: the value and what is left; all of the string when there is no digit.\<close>

definition strtol :: "bytes \<Rightarrow> int \<times> bytes" where
  "strtol s =
     (let t = dropWhile isspace s;
          (neg, t) = (case t of c # cs \<Rightarrow> if c = 45 then (True, cs) else if c = 43 then (False, cs)
                                           else (False, t)
                        | [] \<Rightarrow> (False, t));
          v = digits_value (takeWhile isdigit t);
          v = (if neg then - v else v)
      in if takeWhile isdigit t = [] then (0, s)
         else (max (- (2 ^ 63)) (min (2 ^ 63 - 1) v), dropWhile isdigit t))"

definition net_parse_sockaddr :: "(u16 \<Rightarrow> bytes \<Rightarrow> bytes option) \<Rightarrow> bytes \<Rightarrow> tcp_stop + bytes" where
  "net_parse_sockaddr pton addr =
     (let ss = replicate SS_SIZE 0 in
      case strrchr COLON addr of
        None \<Rightarrow> Inl Failure
      | Some colon \<Rightarrow>
          let port_text = drop (colon + 1) addr in
          if port_text = [] then Inl Failure
          else
            (case strtol port_text of (port, endptr) \<Rightarrow>
             if port < 0 \<or> port > 65535 \<or> endptr \<noteq> [] then Inl Failure
             else
               let addr_len = (if colon > 254 then 254 else colon);
                   host = take addr_len addr in
               rbind (net_addr_from_name pton ss host) (\<lambda>ss.
               if ss_family ss = AF_INET \<or> ss_family ss = AF_INET6 then
                 Inr (array_write ss 2 (le_bytes 2 (htons (word_of_int port))))
               else Inl Failure)))"

text \<open>\<open>%i\<close> of a number that is not negative.\<close>

fun decimal :: "nat \<Rightarrow> bytes" where
  "decimal n = (if n < 10 then [48 + of_nat n] else decimal (n div 10) @ [48 + of_nat (n mod 10)])"

declare decimal.simps [simp del]

definition net_ntop :: "(u16 \<Rightarrow> bytes \<Rightarrow> bytes option) \<Rightarrow> bytes \<Rightarrow> tcp_stop + bytes" where
  "net_ntop ntop ss =
     (let port = unat (htons (ss_port ss)); n = INET6_ADDRSTRLEN + 32 in
      if ss_family ss = AF_INET then
        (case ntop AF_INET (sin_addr ss) of
           None \<Rightarrow> Inl Failure
         | Some s \<Rightarrow> Inr (take (n - 1) (s @ [COLON] @ decimal port)))
      else if ss_family ss = AF_INET6 then
        (case ntop AF_INET6 (sin6_addr ss) of
           None \<Rightarrow> Inl Failure
         | Some s \<Rightarrow> Inr (take (n - 1) (lit ''['' @ s @ lit '']:'' @ decimal port)))
      else Inl Failure)"

definition sizeof_ss :: "bytes \<Rightarrow> tcp_stop + nat" where
  "sizeof_ss ss = (if ss_family ss = AF_INET \<or> ss_family ss = AF_INET6 then Inr SS_SIZE else Inl Failure)"

section \<open>Sockets\<close>

text \<open>The descriptors the program has opened and not closed, in the order they were opened.\<close>

record net =
  fds :: "int list"

definition open_fd :: "int \<Rightarrow> (tcp_stop, 'a net_scheme, unit) prog" where
  "open_fd fd = update (\<lambda>st. st\<lparr>fds := fds st @ [fd]\<rparr>)"

definition close_fd :: "int \<Rightarrow> (tcp_stop, 'a net_scheme, unit) prog" where
  "close_fd fd = update (\<lambda>st. st\<lparr>fds := remove1 fd (fds st)\<rparr>)"

text \<open>The result of a system call, and \<open>errno\<close>.\<close>

type_synonym sys = "int \<times> int"

record socket_results =
  socket_result :: int
  reuse_result :: int
  nodelay_result :: int
  cong_result :: int
  zerocopy_result :: int
  bind_result :: int
  connect_results :: "sys list"

fun connect_loop :: "sys list \<Rightarrow> (tcp_stop, 'a net_scheme, unit) prog" where
  "connect_loop [] = halt Blocked"
| "connect_loop ((r, errno) # rs) =
     (if r < 0 then if errno = EINTR then connect_loop rs else halt Failure
      else ret ())"

definition net_connect_tcp_blocking :: "socket_results \<Rightarrow> bytes \<Rightarrow> bool \<Rightarrow> (tcp_stop, 'a net_scheme, int) prog" where
  "net_connect_tcp_blocking res ss do_zerocopy =
     (let sd = socket_result res in
      andthen (expect (sd \<ge> 0))
      (andthen (open_fd sd)
      (andthen (expect (nodelay_result res \<ge> 0))
      (andthen (expect (cong_result res \<ge> 0))
      (andthen (if do_zerocopy then expect (zerocopy_result res \<ge> 0) else ret ())
      (andthen (case sizeof_ss ss of Inl e \<Rightarrow> halt e | Inr _ \<Rightarrow> connect_loop (connect_results res))
        (ret sd)))))))"

definition net_bind_tcp :: "socket_results \<Rightarrow> bytes \<Rightarrow> (tcp_stop, 'a net_scheme, int) prog" where
  "net_bind_tcp res ss =
     (let sd = socket_result res in
      andthen (expect (sd \<ge> 0))
      (andthen (open_fd sd)
      (andthen (expect (reuse_result res \<ge> 0))
      (andthen (expect (nodelay_result res \<ge> 0))
      (andthen (expect (cong_result res \<ge> 0))
      (andthen (case sizeof_ss ss of Inl e \<Rightarrow> halt e | Inr _ \<Rightarrow> expect (bind_result res \<ge> 0))
        (ret sd)))))))"

text \<open>What \<open>accept\<close>, \<open>getpeername\<close> and \<open>getsockname\<close> store: the address and its length.\<close>

definition trailing_zero :: "bytes \<Rightarrow> nat \<Rightarrow> bytes" where
  "trailing_zero ss ss_len = (if ss_len < SS_SIZE then ss[ss_len := 0] else ss)"

fun net_accept :: "(sys \<times> bytes \<times> nat) list \<Rightarrow> (tcp_stop, 'a net_scheme, int \<times> bytes) prog" where
  "net_accept [] = halt Blocked"
| "net_accept (((cd, errno), ss, ss_len) # rs) =
     (if cd < 0 then if errno = EINTR then net_accept rs else halt Failure
      else andthen (open_fd cd) (ret (cd, trailing_zero ss ss_len)))"

definition net_getname :: "int \<Rightarrow> bytes \<Rightarrow> nat \<Rightarrow> (tcp_stop, 's, bytes) prog" where
  "net_getname r ss ss_len = andthen (expect (r \<ge> 0)) (ret (trailing_zero ss ss_len))"

text \<open>The flags set with \<open>F_SETFL\<close>; \<open>getfl\<close> and \<open>setfl\<close> are the results of the two calls.\<close>

definition set_nonblocking :: "int \<Rightarrow> int \<Rightarrow> (tcp_stop, 's, int) prog" where
  "set_nonblocking getfl setfl =
     (let flags = (if getfl = -1 then 0 else getfl) in
      andthen (expect (setfl \<noteq> -1)) (ret (flags OR 2048)))"

section \<open>Reading numbers\<close>

lemma strrchr_last: "c \<notin> set ys \<Longrightarrow> strrchr c (xs @ c # ys) = Some (length xs)"
proof (induction xs)
  case Nil
  have "strrchr c ys = None" using Nil by (induction ys) auto
  then show ?case by simp
qed simp

lemma strrchr_None: "strrchr c xs = None \<longleftrightarrow> c \<notin> set xs"
  by (induction xs) (auto split: option.splits)

lemma strrchr_Some:
  assumes "strrchr c xs = Some i"
  obtains ys zs where "xs = ys @ c # zs" "c \<notin> set zs" "length ys = i"
proof -
  have "c \<in> set xs" using assms strrchr_None [of c xs] by force
  then obtain ys zs where x: "xs = ys @ c # zs" "c \<notin> set zs" using split_list_last by metis
  then have "length ys = i" using assms strrchr_last [OF x(2), of ys] by simp
  then show ?thesis using that x by blast
qed

text \<open>The text of a number: white space, a sign, digits.\<close>

definition number :: "bytes \<Rightarrow> int \<Rightarrow> bool" where
  "number s v \<longleftrightarrow> (\<exists>sp sg ds. s = sp @ sg @ ds \<and> (\<forall>c \<in> set sp. isspace c) \<and> ds \<noteq> [] \<and> (\<forall>c \<in> set ds. isdigit c) \<and>
     (sg = [] \<and> v = digits_value ds \<or> sg = [43] \<and> v = digits_value ds \<or> sg = [45] \<and> v = - digits_value ds))"

lemma not_space: "isdigit c \<Longrightarrow> \<not> isspace c" "\<not> isspace 43" "\<not> isspace 45" "\<not> isdigit 43" "\<not> isdigit 45"
  by (auto simp: isspace_def isdigit_def word_le_nat_alt)

lemma takeWhile_all: "(\<forall>c \<in> set ds. P c) \<Longrightarrow> takeWhile P ds = ds"
  by (simp add: takeWhile_eq_all_conv)

lemma strtol_number:
  assumes "number s v"
  shows "strtol s = (max (- (2 ^ 63)) (min (2 ^ 63 - 1) v), [])"
proof -
  obtain sp sg ds where s: "s = sp @ sg @ ds" "\<forall>c \<in> set sp. isspace c" "ds \<noteq> []" "\<forall>c \<in> set ds. isdigit c"
    and v: "sg = [] \<and> v = digits_value ds \<or> sg = [43] \<and> v = digits_value ds \<or> sg = [45] \<and> v = - digits_value ds"
    using assms unfolding number_def by blast
  obtain d ds' where d: "ds = d # ds'" "isdigit d" using s(3,4) by (cases ds) auto
  have "d \<noteq> 45" "d \<noteq> 43" using d(2) not_space(4,5) by auto
  moreover have "dropWhile isspace s = sg @ ds"
    using s(1,2) v d not_space by (auto simp: dropWhile_append2)
  moreover have "takeWhile isdigit ds = ds" "dropWhile isdigit ds = []"
    using s(4) by (simp_all add: takeWhile_all)
  ultimately show ?thesis
    using v d(1) s(3) unfolding strtol_def Let_def by (elim disjE conjE) simp_all
qed

lemma strtol_complete:
  assumes "strtol s = (v, [])" "s \<noteq> []"
  shows "\<exists>w. number s w \<and> v = max (- (2 ^ 63)) (min (2 ^ 63 - 1) w)"
proof -
  let ?sp = "takeWhile isspace s" and ?t = "dropWhile isspace s"
  obtain sg t where t: "?t = sg @ t" and sg: "sg = [45] \<or> sg = [43] \<or> sg = [] \<and> (\<forall>cs. t \<noteq> 45 # cs \<and> t \<noteq> 43 # cs)"
  proof (cases ?t)
    case (Cons c cs)
    then show ?thesis using that [of "[c]" cs] that [of "[]" "?t"] by (cases "c = 45 \<or> c = 43") auto
  qed (use that [of "[]" "[]"] in simp)
  let ?v = "if sg = [45] then - digits_value (takeWhile isdigit t) else digits_value (takeWhile isdigit t)"
  have r: "strtol s = (if takeWhile isdigit t = [] then (0, s)
      else (max (- (2 ^ 63)) (min (2 ^ 63 - 1) ?v), dropWhile isdigit t))"
    using t sg unfolding strtol_def Let_def by (elim disjE conjE) (auto split: list.splits)
  then have d: "takeWhile isdigit t \<noteq> []" "dropWhile isdigit t = []" "v = max (- (2 ^ 63)) (min (2 ^ 63 - 1) ?v)"
    using assms by (cases "takeWhile isdigit t = []"; simp del: dropWhile_eq_Nil_conv)+
  then have ds: "\<forall>c \<in> set t. isdigit c" by (simp only: dropWhile_eq_Nil_conv simp_thms)
  then have ds: "takeWhile isdigit t = t" "\<forall>c \<in> set t. isdigit c" by (simp_all add: takeWhile_all)
  have "number s ?v"
    unfolding number_def
  proof (intro exI conjI)
    show "s = takeWhile isspace s @ sg @ t" using t takeWhile_dropWhile_id [of isspace s] by simp
    show "\<forall>c \<in> set (takeWhile isspace s). isspace c" by (auto dest: set_takeWhileD)
    show "t \<noteq> []" "\<forall>c \<in> set t. isdigit c" using d(1) ds by simp_all
    show "sg = [] \<and> ?v = digits_value t \<or> sg = [43] \<and> ?v = digits_value t \<or> sg = [45] \<and> ?v = - digits_value t"
      using sg by (elim disjE conjE) (simp_all add: ds(1))
  qed
  then show ?thesis using d(3) by blast
qed

lemma number_colon:
  assumes "number s v"
  shows "COLON \<notin> set s" "s \<noteq> []"
proof -
  have "\<not> isspace COLON" "\<not> isdigit COLON"
    by (simp_all add: COLON_def isspace_def isdigit_def word_le_nat_alt)
  then show "COLON \<notin> set s" "s \<noteq> []" using assms by (auto simp: number_def COLON_def)
qed

section \<open>Writing numbers\<close>

lemma digits_value_snoc: "digits_value (ds @ [d]) = digits_value ds * 10 + (uint d - 48)"
  by (simp add: digits_value_def)

lemma digit_of: "k < 10 \<Longrightarrow> isdigit (48 + of_nat k) \<and> uint (48 + of_nat k :: u8) = 48 + int k"
proof -
  assume k: "k < 10"
  then have u: "unat (48 + of_nat k :: u8) = 48 + k" by (simp add: unat_word_ariths unat_of_nat)
  moreover have "uint (48 + of_nat k :: u8) = int (unat (48 + of_nat k :: u8))" by simp
  ultimately show ?thesis using k by (simp add: isdigit_def word_le_nat_alt)
qed

lemma decimal_number: "number (decimal n) (int n)"
proof -
  have "(\<forall>c \<in> set (decimal n). isdigit c) \<and> decimal n \<noteq> [] \<and> digits_value (decimal n) = int n"
  proof (induction n rule: decimal.induct)
    case (1 n)
    show ?case
    proof (cases "n < 10")
      case True
      then show ?thesis using digit_of [of n] by (simp add: decimal.simps [of n] digits_value_def)
    next
      case False
      then have "decimal n = decimal (n div 10) @ [48 + of_nat (n mod 10)]" by (simp add: decimal.simps [of n])
      then show ?thesis using 1 [OF False] digit_of [of "n mod 10"] by (auto simp: digits_value_snoc zdiv_int zmod_int)
    qed
  qed
  then show ?thesis unfolding number_def by (intro exI [of _ "[]"] exI [of _ "decimal n"]) auto
qed

lemma length_decimal: "n < 100000 \<Longrightarrow> length (decimal n) \<le> 5"
proof -
  have "n < 10 ^ Suc k \<Longrightarrow> length (decimal n) \<le> Suc k" for k
  proof (induction k arbitrary: n)
    case 0
    then show ?case by (simp add: decimal.simps [of n])
  next
    case (Suc k)
    have "n div 10 < 10 ^ Suc k" using Suc.prems by (simp add: div_less_iff_less_mult)
    then show ?case using Suc.IH [of "n div 10"] by (simp add: decimal.simps [of n])
  qed
  from this [of 4] show "n < 100000 \<Longrightarrow> length (decimal n) \<le> 5" by simp
qed

section \<open>The layout of an address\<close>

definition storage :: "u16 \<Rightarrow> u16 \<Rightarrow> bytes \<Rightarrow> bytes" where
  "storage fam port a = le_bytes 2 fam @ le_bytes 2 (htons port) @
     (if fam = AF_INET then a @ replicate 120 0 else replicate 4 0 @ a @ replicate 104 0)"

definition addr_size :: "u16 \<Rightarrow> nat" where
  "addr_size fam = (if fam = AF_INET then 4 else 16)"

text \<open>
  What is documented of the two functions: addresses have the size of their family; a printed address is
  shorter than \<open>INET6_ADDRSTRLEN\<close> and is read back; brackets are never part of an address.
\<close>

definition inet_contract :: "(u16 \<Rightarrow> bytes \<Rightarrow> bytes option) \<Rightarrow> (u16 \<Rightarrow> bytes \<Rightarrow> bytes option) \<Rightarrow> bool" where
  "inet_contract pton ntop \<longleftrightarrow>
     (\<forall>f h a. pton f h = Some a \<longrightarrow> length a = addr_size f \<and> 91 \<notin> set h) \<and>
     (\<forall>f a. (f = AF_INET \<or> f = AF_INET6) \<and> length a = addr_size f \<longrightarrow>
       (\<exists>s. ntop f a = Some s \<and> length s < INET6_ADDRSTRLEN \<and> pton f s = Some a))"

text \<open>The family of a name and its address: IPv4 first.\<close>

definition resolve :: "(u16 \<Rightarrow> bytes \<Rightarrow> bytes option) \<Rightarrow> bytes \<Rightarrow> (u16 \<times> bytes) option" where
  "resolve pton host = (case pton AF_INET host of Some a \<Rightarrow> Some (AF_INET, a)
     | None \<Rightarrow> map_option (\<lambda>a. (AF_INET6, a)) (pton AF_INET6 host))"

lemma families: "AF_INET \<noteq> AF_INET6" "AF_INET6 \<noteq> AF_INET"
  by (simp_all add: AF_INET_def AF_INET6_def)

lemma htons_htons [simp]: "htons (htons w) = w"
  by (rule bit_word_eqI) (auto simp: htons_def bit_simps)

lemma storage_members:
  assumes "length a = addr_size fam"
  shows "ss_family (storage fam p a) = fam" "ss_port (storage fam p a) = htons p"
    "fam = AF_INET \<Longrightarrow> sin_addr (storage fam p a) = a" "fam = AF_INET6 \<Longrightarrow> sin6_addr (storage fam p a) = a"
    "length (storage fam p a) = SS_SIZE"
  using assms families
  by (simp_all add: storage_def ss_family_def ss_port_def sin_addr_def sin6_addr_def addr_size_def SS_SIZE_def
      word_of_le_le_bytes)

lemma name_storage:
  assumes "inet_contract pton ntop"
  shows "rbind (net_addr_from_name pton (replicate SS_SIZE 0) host) (\<lambda>ss.
       if ss_family ss = AF_INET \<or> ss_family ss = AF_INET6 then Inr (array_write ss 2 (le_bytes 2 (htons p)))
       else Inl Failure) =
    (case resolve pton host of None \<Rightarrow> Inl Failure | Some (fam, a) \<Rightarrow> Inr (storage fam p a))"
proof -
  have z: "replicate SS_SIZE 0 = [0, 0, 0, 0] @ replicate 4 0 @ (replicate 120 0 :: bytes)"
    by (simp add: SS_SIZE_def flip: replicate_add) (simp add: numeral_eq_Suc)
  have l: "pton f h = Some a \<Longrightarrow> length a = addr_size f" for f h a
    using assms by (simp add: inet_contract_def)
  have fam: "ss_family (le_bytes 2 f @ xs) = f" for f :: u16 and xs
    by (simp add: ss_family_def word_of_le_le_bytes)
  have 4: "array_write (array_write (replicate SS_SIZE 0) 4 a) 0 (le_bytes 2 AF_INET) =
      le_bytes 2 AF_INET @ [0, 0] @ a @ replicate 120 0" if "length a = 4" for a
    using that by (simp add: array_write_def SS_SIZE_def numeral_eq_Suc)
  have 6: "array_write (array_write (replicate SS_SIZE 0) 8 a) 0 (le_bytes 2 AF_INET6) =
      le_bytes 2 AF_INET6 @ [0, 0] @ replicate 4 0 @ a @ replicate 104 0" if "length a = 16" for a
    using that by (simp add: array_write_def SS_SIZE_def numeral_eq_Suc)
  have w: "array_write (le_bytes 2 f @ [0, 0] @ xs) 2 (le_bytes 2 (htons p)) = le_bytes 2 f @ le_bytes 2 (htons p) @ xs"
    for f :: u16 and xs
    by (simp add: array_write_def)
  show ?thesis
  proof (cases "pton AF_INET host")
    case (Some a)
    have "length a = 4" using l [OF Some] by (simp add: addr_size_def)
    then show ?thesis using Some
      by (simp only: net_addr_from_name_def resolve_def option.case 4 rbind_simps fam w if_True prod.case
          storage_def simp_thms)
  next
    case None
    show ?thesis
    proof (cases "pton AF_INET6 host")
      case (Some a)
      have "length a = 16" using l [OF Some] families by (simp add: addr_size_def)
      then show ?thesis using None Some families
        by (simp only: net_addr_from_name_def resolve_def option.case option.map 6 rbind_simps fam w if_True
            if_False prod.case storage_def simp_thms)
    qed (simp add: None net_addr_from_name_def resolve_def)
  qed
qed

text \<open>
  The arguments accepted and the address made of them: a last colon, behind it the text of a number from 0 to
  65535, in front of it a text whose first 254 bytes are the name of an address.
\<close>

definition accepted :: "(u16 \<Rightarrow> bytes \<Rightarrow> bytes option) \<Rightarrow> bytes \<Rightarrow> bytes \<Rightarrow> bool" where
  "accepted pton addr ss \<longleftrightarrow> (\<exists>host ps p fam a. addr = host @ COLON # ps \<and> number ps p \<and> 0 \<le> p \<and> p \<le> 65535 \<and>
     resolve pton (take 254 host) = Some (fam, a) \<and> ss = storage fam (word_of_int p) a)"

lemma parse_accepted:
  assumes "inet_contract pton ntop" "accepted pton addr ss"
  shows "net_parse_sockaddr pton addr = Inr ss"
proof -
  obtain host ps p fam a where addr: "addr = host @ COLON # ps" and n: "number ps p" and p: "0 \<le> p" "p \<le> 65535"
    and res: "resolve pton (take 254 host) = Some (fam, a)" "ss = storage fam (word_of_int p) a"
    using assms(2) unfolding accepted_def by blast
  have "strrchr COLON addr = Some (length host)" using strrchr_last number_colon(1) [OF n] addr by simp
  moreover have "strtol ps = (p, [])" using strtol_number [OF n] p by simp
  moreover have "take (if length host > 254 then 254 else length host) addr = take 254 host" using addr by simp
  ultimately show ?thesis
    using addr number_colon(2) [OF n] p name_storage [OF assms(1), of "take 254 host" "word_of_int p"] res
    by (simp add: net_parse_sockaddr_def Let_def)
qed

lemma parse_refused:
  assumes "inet_contract pton ntop" "net_parse_sockaddr pton addr \<noteq> Inl Failure"
  shows "\<exists>ss. accepted pton addr ss"
proof -
  obtain i where i: "strrchr COLON addr = Some i"
    using assms(2) by (cases "strrchr COLON addr") (simp_all add: net_parse_sockaddr_def)
  then obtain host ps where addr: "addr = host @ COLON # ps" "length host = i" by (elim strrchr_Some)
  obtain port endptr where st: "strtol ps = (port, endptr)" by force
  have ps: "ps \<noteq> []" "0 \<le> port" "port \<le> 65535" "endptr = []"
    using assms(2) i addr st by (auto simp: net_parse_sockaddr_def Let_def split: if_splits)
  obtain w where w: "number ps w" "port = max (- (2 ^ 63)) (min (2 ^ 63 - 1) w)"
    using strtol_complete [of ps port] st ps(1,4) by auto
  then have wp: "w = port" using ps(2,3) by (auto simp: max_def min_def split: if_splits)
  have t: "take (if i > 254 then 254 else i) addr = take 254 host" using addr by simp
  have "resolve pton (take 254 host) \<noteq> None"
  proof
    assume "resolve pton (take 254 host) = None"
    then have "rbind (net_addr_from_name pton (replicate SS_SIZE 0) (take 254 host)) (\<lambda>ss.
        if ss_family ss = AF_INET \<or> ss_family ss = AF_INET6 then Inr (array_write ss 2 (le_bytes 2 (htons (word_of_int port))))
        else Inl Failure) = Inl Failure"
      using name_storage [OF assms(1), of "take 254 host" "word_of_int port"] by simp
    then show False using assms(2) i addr st ps t by (simp add: net_parse_sockaddr_def Let_def)
  qed
  then obtain fam a where "resolve pton (take 254 host) = Some (fam, a)" by force
  then have "accepted pton addr (storage fam (word_of_int w) a)"
    using w(1) wp ps(2,3) addr(1) unfolding accepted_def by blast
  then show ?thesis by blast
qed

lemma parse_result:
  assumes "inet_contract pton ntop" "net_parse_sockaddr pton addr = Inr ss"
  shows "accepted pton addr ss"
proof -
  obtain ss' where "accepted pton addr ss'" using parse_refused [OF assms(1), of addr] assms(2) by auto
  then show ?thesis using parse_accepted [OF assms(1), of addr ss'] assms(2) by simp
qed

text \<open>An accepted address has one of the two families, and is printed.\<close>

lemma accepted_ntop:
  assumes "inet_contract pton ntop" "accepted pton addr ss"
  obtains p fam a s where "ss = storage fam (word_of_int p) a" "0 \<le> p" "p \<le> 65535" "length a = addr_size fam"
    "fam = AF_INET \<or> fam = AF_INET6" "ss_family ss = fam"
    "ntop fam a = Some s" "length s < INET6_ADDRSTRLEN" "pton fam s = Some a"
    "net_ntop ntop ss = Inr (if fam = AF_INET then s @ COLON # decimal (nat p)
       else lit ''['' @ s @ lit '']:'' @ decimal (nat p))"
proof -
  obtain p fam a host where ss: "ss = storage fam (word_of_int p) a" and p: "0 \<le> p" "p \<le> 65535"
    and res: "resolve pton host = Some (fam, a)"
    using assms(2) unfolding accepted_def by blast
  have fam: "pton fam host = Some a" "fam = AF_INET \<or> fam = AF_INET6"
    using res by (auto simp: resolve_def split: option.splits)
  then have a: "length a = addr_size fam" using assms(1) by (simp add: inet_contract_def)
  then obtain s where s: "ntop fam a = Some s" "length s < INET6_ADDRSTRLEN" "pton fam s = Some a"
    using assms(1) fam(2) unfolding inet_contract_def by metis
  have u: "unat (word_of_int p :: u16) = nat p"
    using p by (simp add: unsigned_of_int take_bit_int_eq_self)
  have len: "length (decimal (nat p)) \<le> 5" using p by (intro length_decimal) simp
  have "net_ntop ntop ss = Inr (if fam = AF_INET then s @ COLON # decimal (nat p)
       else lit ''['' @ s @ lit '']:'' @ decimal (nat p))"
    using fam(2) s(1,2) len storage_members [OF a] u ss families
    by (auto simp: net_ntop_def Let_def INET6_ADDRSTRLEN_def lit_def)
  then show ?thesis using that ss p a fam(2) s storage_members(1) [OF a] by metis
qed

lemma accepted_family:
  assumes "inet_contract pton ntop" "accepted pton addr ss"
  shows "ss_family ss = AF_INET \<or> ss_family ss = AF_INET6" "\<exists>s. net_ntop ntop ss = Inr s"
  using accepted_ntop [OF assms] by metis+

section \<open>Theorems\<close>

text \<open>
  C28: the program goes on with an address exactly for the arguments described by \<open>accepted\<close>, and that address
  has the layout given there; every other argument ends it. (White space and a sign in front of the port are
  accepted, as \<open>strtol\<close> reads it; a name is cut after 254 bytes.)
\<close>

theorem net_parse_sockaddr_accepts:
  assumes "inet_contract pton ntop"
  shows "(net_parse_sockaddr pton addr = Inr ss \<longleftrightarrow> accepted pton addr ss) \<and>
    (net_parse_sockaddr pton addr = Inl e \<longleftrightarrow> e = Failure \<and> \<not> (\<exists>ss. accepted pton addr ss))"
proof
  show "net_parse_sockaddr pton addr = Inr ss \<longleftrightarrow> accepted pton addr ss"
    using parse_accepted [OF assms, of addr] parse_refused [OF assms, of addr] by force
  show "net_parse_sockaddr pton addr = Inl e \<longleftrightarrow> e = Failure \<and> \<not> (\<exists>ss. accepted pton addr ss)"
    using parse_accepted [OF assms, of addr] parse_refused [OF assms, of addr]
    by (cases "net_parse_sockaddr pton addr") force+
qed

text \<open>
  C29: an IPv4 address that was read is printed in a form that is read back as the same bytes; an IPv6
  address is printed in brackets, and that form is refused.
\<close>

theorem sockaddr_roundtrip:
  assumes "inet_contract pton ntop" "net_parse_sockaddr pton addr = Inr ss"
  shows "\<exists>s. net_ntop ntop ss = Inr s \<and>
    net_parse_sockaddr pton s = (if ss_family ss = AF_INET then Inr ss else Inl Failure)"
proof -
  obtain p fam a s where ss: "ss = storage fam (word_of_int p) a" and p: "0 \<le> p" "p \<le> 65535"
    and fam: "ss_family ss = fam" "fam = AF_INET \<or> fam = AF_INET6"
    and s: "length s < INET6_ADDRSTRLEN" "pton fam s = Some a"
      "net_ntop ntop ss = Inr (if fam = AF_INET then s @ COLON # decimal (nat p)
         else lit ''['' @ s @ lit '']:'' @ decimal (nat p))"
    using accepted_ntop [OF assms(1) parse_result [OF assms]] by metis
  show ?thesis
  proof (cases "fam = AF_INET")
    case True
    have "accepted pton (s @ COLON # decimal (nat p)) ss"
      using decimal_number [of "nat p"] p s True ss unfolding accepted_def
      by (intro exI [of _ s] exI [of _ "decimal (nat p)"] exI [of _ p] exI [of _ fam] exI [of _ a])
        (simp add: resolve_def INET6_ADDRSTRLEN_def)
    then show ?thesis using parse_accepted [OF assms(1)] True fam(1) s(3) by auto
  next
    case False
    let ?s = "lit ''['' @ s @ lit '']:'' @ decimal (nat p)"
    have "net_parse_sockaddr pton ?s = Inl Failure"
    proof (rule ccontr)
      assume "net_parse_sockaddr pton ?s \<noteq> Inl Failure"
      then obtain h ps v f b where h: "?s = h @ COLON # ps" "number ps v" "resolve pton (take 254 h) = Some (f, b)"
        using parse_refused [OF assms(1)] unfolding accepted_def by blast
      have "pton f (take 254 h) = Some b" using h(3) by (auto simp: resolve_def split: option.splits)
      then have "91 \<notin> set (take 254 h)" using assms(1) by (simp add: inet_contract_def)
      moreover have "h \<noteq> [] \<and> hd h = 91" using h(1) by (cases h) (auto simp: lit_def COLON_def)
      ultimately show False by (cases h) auto
    qed
    then show ?thesis using s(3) fam(1) False by auto
  qed
qed

text \<open>An instance: addresses are written with two characters for a byte, from \<open>0\<close> to \<open>?\<close>.\<close>

definition plain_name :: "bytes \<Rightarrow> bytes" where
  "plain_name a = concat (map (\<lambda>b. [48 + b div 16, 48 + b mod 16]) a)"

fun plain_addr :: "bytes \<Rightarrow> bytes" where
  "plain_addr (x # y # s) = ((x - 48) * 16 + (y - 48)) # plain_addr s"
| "plain_addr s = []"

definition plain_pton :: "u16 \<Rightarrow> bytes \<Rightarrow> bytes option" where
  "plain_pton f h =
     (if length h = 2 * addr_size f \<and> list_all (\<lambda>c. 48 \<le> c \<and> c < 64) h then Some (plain_addr h) else None)"

definition plain_ntop :: "u16 \<Rightarrow> bytes \<Rightarrow> bytes option" where
  "plain_ntop f a = Some (plain_name a)"

lemma plain_addr_name: "plain_addr (plain_name a) = a"
  by (induction a) (simp_all add: plain_name_def word_mod_div_equality)

lemma length_plain: "length (plain_name a) = 2 * length a" "length (plain_addr h) = length h div 2"
  by (simp add: plain_name_def length_concat o_def sum_list_triv)
    (induction h rule: plain_addr.induct; simp)

lemma plain_contract: "inet_contract plain_pton plain_ntop"
proof -
  have "(48 :: u8) \<le> 48 + b div 16 \<and> 48 + b div 16 < (64 :: u8) \<and> (48 :: u8) \<le> 48 + b mod 16 \<and> 48 + b mod 16 < (64 :: u8)"
    for b :: u8
  proof -
    have "unat b < 256" using unat_less_exp [of b] by simp
    then have "unat (b div 16) < 16" "unat (b mod 16) < 16" by (simp_all add: unat_div unat_mod div_less_iff_less_mult)
    then show ?thesis by (simp add: word_le_nat_alt word_less_nat_alt unat_word_ariths)
  qed
  then have "list_all (\<lambda>c. 48 \<le> c \<and> c < 64) (plain_name a)" for a
    by (auto simp: plain_name_def list_all_iff)
  moreover have "(91 :: u8) \<notin> set h" if "list_all (\<lambda>c. 48 \<le> c \<and> c < 64) h" for h
    using that by (auto simp: list_all_iff word_less_nat_alt)
  ultimately show ?thesis
    by (auto simp: inet_contract_def plain_pton_def plain_ntop_def length_plain plain_addr_name addr_size_def
        INET6_ADDRSTRLEN_def)
qed

text \<open>\<open>7?000001:80\<close>, the address \<open>127.0.0.1\<close> in that notation, and a port with a sign.\<close>

lemma plain_example:
  "net_parse_sockaddr plain_pton (lit ''7?000001:80'') = Inr (storage AF_INET 80 [127, 0, 0, 1])"
  "net_parse_sockaddr plain_pton (lit ''7?000001: +80'') = Inr (storage AF_INET 80 [127, 0, 0, 1])"
  by code_simp+

theorem net_parse_sockaddr_accepts_witness:
  "accepted plain_pton (lit ''7?000001: +80'') (storage AF_INET 80 [127, 0, 0, 1])"
  using net_parse_sockaddr_accepts [OF plain_contract] plain_example(2) by blast

theorem sockaddr_roundtrip_witness:
  "\<exists>s. net_ntop plain_ntop (storage AF_INET 80 [127, 0, 0, 1]) = Inr s \<and>
     net_parse_sockaddr plain_pton s = Inr (storage AF_INET 80 [127, 0, 0, 1])"
proof -
  have "ss_family (storage AF_INET 80 [127, 0, 0, 1]) = AF_INET"
    by (simp add: storage_members addr_size_def)
  then show ?thesis using sockaddr_roundtrip [OF plain_contract plain_example(1)] by simp
qed

end
