(* ===== verification/Aio_Ring.thy ===== *)
theory Aio_Ring
  imports Prelude
begin

text \<open>
  \<open>io_getevents\<close> of \<open>2019-01-io-submit/aio_poll.c\<close> and of \<open>2019-02-tcp-splice/iosubmit.h\<close>: completions of
  asynchronous operations are taken from the ring the kernel shares with the program; the system call is
  made only when that does not do. The kernel adds completions while the loop runs: between any two rounds
  it changes the ring by a step that is a parameter, of which only the contract of the ring is assumed.

  The theorems: the completions are delivered in order, none is lost or delivered twice; and what the two
  functions return.
\<close>

unbundle bit_operations_syntax

section \<open>The ring\<close>

record io_event =
  ev_data :: u64
  ev_obj :: u64
  ev_res :: int
  ev_res2 :: int

record aio_ring =
  nr :: u32
  head :: u32
  tail :: u32
  magic :: u32
  ring_events :: "io_event list"

definition AIO_RING_MAGIC :: u32 where "AIO_RING_MAGIC = 0xa10a10a1"

text \<open>An access behind the ring, or a division by a ring size of zero.\<close>

datatype ring_stop = Ring_overrun | Ring_division

text \<open>The loop: \<open>i\<close> completions were taken, \<open>n\<close> may follow; \<open>kern i\<close> is what the kernel did before the round.\<close>

fun reap :: "(nat \<Rightarrow> aio_ring \<Rightarrow> aio_ring) \<Rightarrow> nat \<Rightarrow> nat \<Rightarrow> aio_ring \<Rightarrow> ring_stop + (io_event list \<times> aio_ring)"
  where
  "reap kern i 0 ring = Inr ([], ring)"
| "reap kern i (Suc n) ring =
     (let ring = kern i ring; h = head ring in
      if h = tail ring then Inr ([], ring)
      else if length (ring_events ring) \<le> unat h then Inl Ring_overrun
      else if nr ring = 0 then Inl Ring_division
      else rbind (reap kern (i + 1) n (ring\<lparr>head := (h + 1) mod nr ring\<rparr>)) (\<lambda>(es, ring').
        Inr (ring_events ring ! unat h # es, ring')))"

text \<open>
  The function of \<open>aio_poll.c\<close>. \<open>ctx\<close> is the ring, or \<open>None\<close> for a null pointer; the timeout is \<open>None\<close> or
  seconds and nanoseconds; \<open>sys\<close> is the system call, by the bounds given: its result and the completions
  it stores. The result: the value returned, the completions stored, the ring.
\<close>

definition io_getevents :: "(nat \<Rightarrow> aio_ring \<Rightarrow> aio_ring) \<Rightarrow> (int \<Rightarrow> int \<Rightarrow> int \<times> io_event list) \<Rightarrow>
    aio_ring option \<Rightarrow> int \<Rightarrow> int \<Rightarrow> (int \<times> int) option \<Rightarrow>
    ring_stop + (int \<times> io_event list \<times> aio_ring option)" where
  "io_getevents kern sys ctx min_nr max_nr timeout =
     (case ctx of
        None \<Rightarrow> let (r, es) = sys min_nr max_nr in Inr (r, es, ctx)
      | Some ring \<Rightarrow>
          if magic ring \<noteq> AIO_RING_MAGIC then let (r, es) = sys min_nr max_nr in Inr (r, es, ctx)
          else
            rbind (reap kern 0 (nat max_nr) ring) (\<lambda>(es, ring).
            let i = int (length es) in
            if i = 0 \<and> timeout = Some (0, 0) then Inr (0, es, Some ring)
            else if i \<noteq> 0 \<and> i \<ge> min_nr then Inr (i, es, Some ring)
            else let (r, es') = sys (min_nr - i) (max_nr - i) in Inr (r + i, es @ es', Some ring)))"

text \<open>The function of \<open>iosubmit.h\<close>: \<open>late\<close> is what the kernel did before the ring is looked at again.\<close>

definition io_getevents_any :: "(nat \<Rightarrow> aio_ring \<Rightarrow> aio_ring) \<Rightarrow> (aio_ring \<Rightarrow> aio_ring) \<Rightarrow>
    (int \<Rightarrow> int \<Rightarrow> int \<times> io_event list) \<Rightarrow> aio_ring option \<Rightarrow> int \<Rightarrow> int \<Rightarrow> (int \<times> int) option \<Rightarrow>
    ring_stop + (int \<times> io_event list \<times> aio_ring option)" where
  "io_getevents_any kern late sys ctx min_nr max_nr timeout =
     (case ctx of
        None \<Rightarrow> let (r, es) = sys min_nr max_nr in Inr (r, es, ctx)
      | Some ring \<Rightarrow>
          if magic ring \<noteq> AIO_RING_MAGIC then let (r, es) = sys min_nr max_nr in Inr (r, es, ctx)
          else
            rbind (reap kern 0 (nat max_nr) ring) (\<lambda>(es, ring).
            let i = int (length es); ring = late ring in
            if i = 0 \<and> timeout = Some (0, 0) \<and> head ring = tail ring then Inr (0, es, Some ring)
            else if i \<noteq> 0 then Inr (i, es, Some ring)
            else let (r, es) = sys min_nr max_nr in Inr (r, es, Some ring)))"

section \<open>The two programs of io-submit\<close>

text \<open>
  \<open>main\<close> of \<open>aio_poll.c\<close> and of \<open>aio_passwd.c\<close>, by the results of their calls and the ring of the context;
  \<open>io_getevents\<close> of the latter is the system call alone. \<open>None\<close>: the program exits with a failure; otherwise
  what the first returns, and the number of bytes the second prints.
\<close>

record aio_calls =
  aio_open :: int
  aio_connect :: int
  aio_setup :: int
  aio_submit :: int
  kernel_steps :: "nat \<Rightarrow> aio_ring \<Rightarrow> aio_ring"
  getevents_call :: "int \<Rightarrow> int \<Rightarrow> int \<times> io_event list"

definition aio_poll_main :: "aio_calls \<Rightarrow> aio_ring option \<Rightarrow> ring_stop + int option" where
  "aio_poll_main c ctx =
     (if aio_open c < 0 \<or> aio_connect c < 0 \<or> aio_setup c < 0 \<or> aio_submit c \<noteq> 1 then Inr None
      else
        rbind (io_getevents (kernel_steps c) (getevents_call c) ctx 1 1 None) (\<lambda>(r, es, ctx).
        if r \<noteq> 1 then Inr None else Inr (Some 0)))"

definition aio_passwd_main :: "aio_calls \<Rightarrow> int option" where
  "aio_passwd_main c =
     (if aio_open c < 0 \<or> aio_setup c < 0 \<or> aio_submit c \<noteq> 1 then None
      else
        let (r, es) = getevents_call c 1 1 in
        if r \<noteq> 1 then None else Some (case es of [] \<Rightarrow> 0 | e # _ \<Rightarrow> ev_res e))"

section \<open>The ring as a queue\<close>

definition ring_ok :: "aio_ring \<Rightarrow> bool" where
  "ring_ok r \<longleftrightarrow> length (ring_events r) = unat (nr r) \<and> head r < nr r \<and> tail r < nr r"

text \<open>The completions from the head to the tail.\<close>

definition pending :: "aio_ring \<Rightarrow> nat" where
  "pending r = (unat (tail r) + unat (nr r) - unat (head r)) mod unat (nr r)"

definition contents :: "aio_ring \<Rightarrow> io_event list" where
  "contents r = map (\<lambda>i. ring_events r ! ((unat (head r) + i) mod unat (nr r))) [0..<pending r]"

text \<open>
  The contract of the kernel: it adds completions at the end and leaves the rest; \<open>P\<close> tells which it adds.
\<close>

definition adds_some :: "(io_event list \<Rightarrow> bool) \<Rightarrow> (aio_ring \<Rightarrow> aio_ring) \<Rightarrow> bool" where
  "adds_some P k \<longleftrightarrow> (\<forall>r. ring_ok r \<longrightarrow> ring_ok (k r) \<and> head (k r) = head r \<and> nr (k r) = nr r \<and>
     magic (k r) = magic r \<and> (\<exists>es. P es \<and> contents (k r) = contents r @ es))"

definition adds :: "(aio_ring \<Rightarrow> aio_ring) \<Rightarrow> bool" where
  "adds = adds_some (\<lambda>_. True)"

definition adds_none :: "(aio_ring \<Rightarrow> aio_ring) \<Rightarrow> bool" where
  "adds_none = adds_some (\<lambda>es. es = [])"

lemma pending_0: "ring_ok r \<Longrightarrow> pending r = 0 \<longleftrightarrow> head r = tail r"
proof -
  assume r: "ring_ok r"
  let ?h = "unat (head r)" and ?t = "unat (tail r)" and ?n = "unat (nr r)"
  have b: "?h < ?n" "?t < ?n" using r by (simp_all add: ring_ok_def word_less_nat_alt)
  show ?thesis
  proof (cases "?h \<le> ?t")
    case True
    then have "pending r = ?t - ?h" using b by (simp add: pending_def mod_if)
    then show ?thesis using True by (auto simp: word_unat_eq_iff)
  next
    case False
    then have "pending r = ?t + ?n - ?h" using b by (simp add: pending_def)
    then show ?thesis using False b by (auto simp: word_unat_eq_iff)
  qed
qed

lemma advance:
  assumes "ring_ok r" "head r \<noteq> tail r"
  defines "r' \<equiv> r\<lparr>head := (head r + 1) mod nr r\<rparr>"
  shows "ring_ok r'" "contents r = ring_events r ! unat (head r) # contents r'"
proof -
  let ?h = "unat (head r)" and ?t = "unat (tail r)" and ?n = "unat (nr r)"
  have b: "?h < ?n" "?t < ?n" and ne: "?h \<noteq> ?t"
    using assms(1,2) by (simp_all add: ring_ok_def word_less_nat_alt word_unat_eq_iff)
  have "?n < 2 ^ 32" using unat_less_exp [of "nr r"] by simp
  then have "unat (head r + 1) = ?h + 1" using b by (subst unat_add_lem [THEN iffD1]) simp_all
  then have h': "unat (head r') = (?h + 1) mod ?n" by (simp add: r'_def unat_mod)
  have h'n: "unat (head r') < ?n" using b by (simp add: h')
  show "ring_ok r'"
    using assms(1) h'n by (simp add: ring_ok_def r'_def word_less_nat_alt)
  have p: "pending r = Suc (pending r')"
  proof (cases "?h \<le> ?t")
    case True
    then have "pending r = ?t - ?h" using b by (simp add: pending_def mod_if)
    moreover have "pending r' = ?t - (?h + 1)"
    proof -
      have "(?h + 1) mod ?n = ?h + 1" using True ne b by simp
      then show ?thesis using True ne b h' by (simp add: pending_def r'_def mod_if)
    qed
    ultimately show ?thesis using True ne by simp
  next
    case False
    then have "pending r = ?t + ?n - ?h" using b by (simp add: pending_def)
    moreover have "pending r' = ?t + ?n - ?h - 1"
    proof (cases "?h + 1 = ?n")
      case True
      then have "unat (head r') = 0" using h' by simp
      then show ?thesis using True b False by (simp add: pending_def r'_def)
    next
      case ne: False
      then have "unat (head r') = ?h + 1" using h' b by simp
      then show ?thesis using ne b False by (simp add: pending_def r'_def)
    qed
    ultimately show ?thesis using False b by simp
  qed
  have "contents r = map (\<lambda>i. ring_events r ! ((?h + i) mod ?n)) (0 # map Suc [0..<pending r'])"
    unfolding contents_def p by (simp only: upt_conv_Cons [of 0 "Suc m" for m] zero_less_Suc map_Suc_upt)
  also have "\<dots> = ring_events r ! ?h # contents r'"
  proof -
    have "((?h + 1) mod ?n + i) mod ?n = (?h + Suc i) mod ?n" for i
      using mod_add_left_eq [of "?h + 1" ?n i] by simp
    moreover have "ring_events r' = ring_events r" "nr r' = nr r" by (simp_all add: r'_def)
    ultimately show ?thesis using b by (simp add: contents_def h' del: One_nat_def)
  qed
  finally show "contents r = ring_events r ! ?h # contents r'" .
qed

text \<open>What the kernel does to add a completion, and that it keeps the contract while there is room.\<close>

definition complete_one :: "io_event \<Rightarrow> aio_ring \<Rightarrow> aio_ring" where
  "complete_one e r = r\<lparr>ring_events := (ring_events r)[unat (tail r) := e], tail := (tail r + 1) mod nr r\<rparr>"

lemma pending_at:
  assumes "ring_ok r"
  shows "pending r < unat (nr r)" "(unat (head r) + pending r) mod unat (nr r) = unat (tail r)"
    "q < unat (nr r) \<Longrightarrow> (unat (head r) + q) mod unat (nr r) = unat (tail r) \<Longrightarrow> pending r = q"
proof -
  let ?h = "unat (head r)" and ?t = "unat (tail r)" and ?n = "unat (nr r)"
  have b: "?h < ?n" "?t < ?n" using assms by (simp_all add: ring_ok_def word_less_nat_alt)
  then show "pending r < ?n" by (simp add: pending_def)
  have "(?h + pending r) mod ?n = (?h + (?t + ?n - ?h)) mod ?n" by (simp add: pending_def mod_add_right_eq)
  then show "(?h + pending r) mod ?n = ?t" using b by simp
  assume q: "q < ?n" "(?h + q) mod ?n = ?t"
  show "pending r = q"
  proof (cases "?h + q < ?n")
    case True
    then have "?t = ?h + q" using q(2) by simp
    then show ?thesis using q(1) by (simp add: pending_def)
  next
    case False
    moreover have "?h + q - ?n < ?n" using q(1) b by linarith
    ultimately have "?t = ?h + q - ?n" using q(2) by (simp add: mod_if)
    then have "?t + ?n - ?h = q" using \<open>\<not> ?h + q < ?n\<close> by simp
    then show ?thesis using q(1) by (simp add: pending_def)
  qed
qed

lemma complete_one:
  assumes "ring_ok r" "pending r + 1 < unat (nr r)"
  shows "ring_ok (complete_one e r)" "contents (complete_one e r) = contents r @ [e]"
    "pending (complete_one e r) = pending r + 1"
proof -
  let ?r = "complete_one e r"
  let ?h = "unat (head r)" and ?t = "unat (tail r)" and ?n = "unat (nr r)" and ?p = "pending r"
  have b: "?h < ?n" "?t < ?n" and l: "length (ring_events r) = ?n"
    using assms(1) by (simp_all add: ring_ok_def word_less_nat_alt)
  have "?n < 2 ^ 32" using unat_less_exp [of "nr r"] by simp
  then have "unat (tail r + 1) = ?t + 1" using b by (subst unat_add_lem [THEN iffD1]) simp_all
  then have t': "unat (tail ?r) = (?t + 1) mod ?n" by (simp add: complete_one_def unat_mod)
  show ok: "ring_ok ?r" using assms(1) b t' by (simp add: ring_ok_def word_less_nat_alt complete_one_def)
  have "(?h + (?p + 1)) mod ?n = ((?h + ?p) mod ?n + 1) mod ?n" by (simp add: mod_simps)
  also have "\<dots> = unat (tail ?r)" by (simp only: pending_at(2) [OF assms(1)] t')
  finally show p: "pending ?r = ?p + 1"
    using pending_at(3) [OF ok, of "?p + 1"] assms(2) by (simp add: complete_one_def)
  have old: "?t \<noteq> (?h + i) mod ?n" if "i < ?p" for i
    using pending_at(1) [OF assms(1)] pending_at(3) [OF assms(1), of i] that by auto
  have "contents ?r = map (\<lambda>i. (ring_events r)[?t := e] ! ((?h + i) mod ?n)) [0..<?p] @ [(ring_events r)[?t := e] ! ?t]"
    unfolding contents_def p using pending_at(2) [OF assms(1)] by (simp add: complete_one_def)
  also have "\<dots> = contents r @ [e]"
    using old l b nth_list_update_neq by (simp add: contents_def)
  finally show "contents ?r = contents r @ [e]" .
qed

text \<open>The loop takes completions from the front; what arrives meanwhile is behind them.\<close>

lemma reap_fifo:
  assumes "\<And>i. adds_some P (kern i)" "ring_ok r" "P []" "\<And>xs ys. P xs \<Longrightarrow> P ys \<Longrightarrow> P (xs @ ys)"
  shows "\<exists>es r' new. reap kern i n r = Inr (es, r') \<and> ring_ok r' \<and> (nr r', magic r') = (nr r, magic r) \<and> P new \<and>
    es @ contents r' = contents r @ new \<and> length es \<le> n \<and> (length es < n \<longrightarrow> contents r' = [])"
  using assms(2)
proof (induction n arbitrary: i r)
  case 0
  then show ?case using assms(3) by auto
next
  case (Suc n)
  let ?r = "kern i r"
  obtain new where k: "ring_ok ?r" "(nr ?r, magic ?r) = (nr r, magic r)" "P new" "contents ?r = contents r @ new"
    using assms(1) [of i] Suc.prems unfolding adds_some_def by auto
  show ?case
  proof (cases "head ?r = tail ?r")
    case True
    then have "contents ?r = []" using k(1) by (simp add: contents_def pending_0)
    moreover have "reap kern i (Suc n) r = Inr ([], ?r)" using True by (simp add: Let_def)
    ultimately show ?thesis using k by (intro exI [of _ "[]"] exI [of _ ?r] exI [of _ new]) simp
  next
    case False
    let ?e = "ring_events ?r ! unat (head ?r)" and ?r1 = "?r\<lparr>head := (head ?r + 1) mod nr ?r\<rparr>"
    have r1: "ring_ok ?r1" "contents ?r = ?e # contents ?r1" using advance [OF k(1) False] by simp_all
    obtain es r' new' where IH: "reap kern (i + 1) n ?r1 = Inr (es, r')" "ring_ok r'" "(nr r', magic r') = (nr ?r1, magic ?r1)" "P new'"
      "es @ contents r' = contents ?r1 @ new'" "length es \<le> n" "length es < n \<longrightarrow> contents r' = []"
      using Suc.IH [OF r1(1), of "i + 1"] by blast
    have "unat (head ?r) < length (ring_events ?r)" "nr ?r \<noteq> 0"
      using k(1) by (auto simp: ring_ok_def word_less_nat_alt)
    then have "reap kern i (Suc n) r = Inr (?e # es, r')"
      using False IH(1) by (simp add: Let_def)
    moreover have "(?e # es) @ contents r' = contents r @ (new @ new')"
      using IH(5) r1(2) k(4) by (metis append_Cons append_assoc)
    ultimately show ?thesis using IH(2-4,6,7) k(2,3) assms(4) [of new new'] by auto
  qed
qed

text \<open>Two completions in the ring, and a kernel that adds none: both are taken.\<close>

lemma io_getevents_any_both:
  assumes "\<And>i. adds_none (kern i)" "adds_none late" "ring_ok r" "magic r = AIO_RING_MAGIC" "contents r = [a, b]"
  shows "\<exists>r'. io_getevents_any kern late sys (Some r) 1 2 None = Inr (2, [a, b], Some r') \<and>
    ring_ok r' \<and> nr r' = nr r \<and> magic r' = AIO_RING_MAGIC \<and> contents r' = []"
proof -
  obtain es r' where r: "reap kern 0 2 r = Inr (es, r')" "ring_ok r'" "nr r' = nr r \<and> magic r' = magic r"
    "es @ contents r' = [a, b]" "length es \<le> 2" "length es < 2 \<longrightarrow> contents r' = []"
    using reap_fifo [of "\<lambda>es. es = []" kern r 0 2] assms(1,3,5) by (auto simp: adds_none_def)
  have e: "es = [a, b]" "contents r' = []"
    using r(4-6) by (cases "length es < 2"; auto simp: append_eq_Cons_conv)+
  have "ring_ok (late r')" "nr (late r') = nr r'" "magic (late r') = magic r'" "contents (late r') = contents r'"
    using assms(2) r(2) by (auto simp: adds_none_def adds_some_def)
  then show ?thesis
    using r(1,3) e assms(4) by (simp add: io_getevents_any_def Let_def)
qed

text \<open>A completion that is in the ring ends the first program well, without a system call.\<close>

lemma aio_poll_in_ring:
  assumes "\<And>i. adds_none (kernel_steps c i)" "ring_ok r" "magic r = AIO_RING_MAGIC" "contents r = e # es"
    and "0 \<le> aio_open c" "0 \<le> aio_connect c" "0 \<le> aio_setup c" "aio_submit c = 1"
  shows "aio_poll_main c (Some r) = Inr (Some 0)"
proof -
  obtain xs r' where r: "reap (kernel_steps c) 0 1 r = Inr (xs, r')" "xs @ contents r' = e # es" "length xs \<le> 1"
    "length xs < 1 \<longrightarrow> contents r' = []"
    using reap_fifo [of "\<lambda>es. es = []" "kernel_steps c" r 0 1] assms(1,2,4) by (auto simp: adds_none_def)
  then obtain a where "xs = [a]" by (cases xs) auto
  then show ?thesis using r(1) assms(3,5-8)
    by (simp add: aio_poll_main_def io_getevents_def Let_def del: reap.simps)
qed

section \<open>Theorem\<close>

text \<open>
  C26: for a ring in order, whatever the kernel adds while the loop runs, both functions deliver the
  completions of the ring in order and keep the rest, old and new. The first waits for \<open>min_nr\<close> of them in
  the system call, whose result it adds to the number taken, also when that is an error; the second returns
  as soon as there is any.
\<close>

theorem io_getevents_fifo:
  assumes "\<And>i. adds (kern i)" "adds late" "ring_ok r" "magic r = AIO_RING_MAGIC"
  shows "\<exists>es r' new late_new. es @ contents r' = contents r @ new \<and>
    length es \<le> nat max_nr \<and> (length es < nat max_nr \<longrightarrow> contents r' = []) \<and>
    io_getevents kern sys (Some r) min_nr max_nr timeout = Inr (
      if es = [] \<and> timeout = Some (0, 0) then (0, es, Some r')
      else if es \<noteq> [] \<and> min_nr \<le> int (length es) then (int (length es), es, Some r')
      else (fst (sys (min_nr - int (length es)) (max_nr - int (length es))) + int (length es),
        es @ snd (sys (min_nr - int (length es)) (max_nr - int (length es))), Some r')) \<and>
    contents (late r') = contents r' @ late_new \<and>
    io_getevents_any kern late sys (Some r) min_nr max_nr timeout = Inr (
      if es \<noteq> [] then (int (length es), es, Some (late r'))
      else if timeout = Some (0, 0) \<and> contents (late r') = [] then (0, [], Some (late r'))
      else (fst (sys min_nr max_nr), snd (sys min_nr max_nr), Some (late r')))"
proof -
  obtain es r' new where r: "reap kern 0 (nat max_nr) r = Inr (es, r')" "ring_ok r'" "magic r' = magic r"
    "es @ contents r' = contents r @ new" "length es \<le> nat max_nr" "length es < nat max_nr \<longrightarrow> contents r' = []"
    using reap_fifo [of "\<lambda>_. True" kern r 0 "nat max_nr"] assms(1,3) by (auto simp: adds_def)
  obtain late_new where l: "ring_ok (late r')" "contents (late r') = contents r' @ late_new"
    using assms(2) r(2) unfolding adds_def adds_some_def by blast
  have e: "contents (late r') = [] \<longleftrightarrow> head (late r') = tail (late r')"
    using pending_0 [OF l(1)] by (simp add: contents_def)
  show ?thesis
    using r l(2) assms(4) e
    by (intro exI [of _ es] exI [of _ r'] exI [of _ new] exI [of _ late_new])
      (simp add: io_getevents_def io_getevents_any_def Let_def split_def)
qed

text \<open>Two completions in a ring of three that wraps around; nothing is added.\<close>

definition small_ring :: aio_ring where
  "small_ring = \<lparr>nr = 3, head = 2, tail = 1, magic = AIO_RING_MAGIC, ring_events =
     [\<lparr>ev_data = 0, ev_obj = 8, ev_res = 5, ev_res2 = 0\<rparr>, \<lparr>ev_data = 0, ev_obj = 0, ev_res = 0, ev_res2 = 0\<rparr>,
      \<lparr>ev_data = 0, ev_obj = 7, ev_res = 0, ev_res2 = 0\<rparr>]\<rparr>"

lemma small_ring_ok: "ring_ok small_ring" "magic small_ring = AIO_RING_MAGIC"
  "map ev_obj (contents small_ring) = [7, 8]"
  by (simp_all add: ring_ok_def small_ring_def contents_def pending_def upt_rec)

theorem io_getevents_fifo_witness:
  "\<exists>es r' new. es @ contents r' = contents small_ring @ new \<and> length es \<le> 2 \<and>
     io_getevents (\<lambda>_ r. r) (\<lambda>_ _. (-1, [])) (Some small_ring) 1 2 None = Inr (
       if es = [] then (-1, [], Some r') else (int (length es), es, Some r'))"
proof -
  have a: "adds (\<lambda>r. r)" by (simp add: adds_def adds_some_def)

  show ?thesis
    using io_getevents_fifo [of "\<lambda>_ r. r", OF a a small_ring_ok(1,2), of 2 "\<lambda>_ _. (-1, [])" 1 None]
  proof (elim exE conjE, goal_cases)
    case (1 es r' new late_new)
    then show ?case by (intro exI [of _ es] exI [of _ r'] exI [of _ new]) (cases es; simp)
  qed
qed

end
