(* ===== verification/Echo.thy ===== *)
theory Echo
  imports Net Aio_Ring "HOL-Library.Sublist"
begin

text \<open>
  What the echo servers \<open>echo-naive.c\<close>, \<open>echo-splice.c\<close> and \<open>echo-iosubmit.c\<close> of \<open>2019-02-tcp-splice\<close> share:
  the argument, the listening socket, and the loop that accepts a connection, serves it, closes it and
  reports the number of bytes. The three copies of that code are one definition over the function that
  serves a connection. A connection is given by the results of its system calls; messages on the standard
  error and the time are not modelled.
\<close>

section \<open>State\<close>

text \<open>
  The current connection: the bytes taken from the socket and the bytes given to it, what is in the pipe,
  and \<open>sum\<close>; the connections ended: bytes received, bytes sent, the number reported. \<open>ctx\<close> is the ring of
  completions, \<open>None\<close> where none is shared.
\<close>

record echo = net +
  received :: bytes
  sent :: bytes
  in_pipe :: bytes
  total :: u64
  ctx :: "aio_ring option"
  sessions :: "(bytes \<times> bytes \<times> u64) list"

definition no_session :: "int list \<Rightarrow> echo" where
  "no_session fs = \<lparr>fds = fs, received = [], sent = [], in_pipe = [], total = 0, ctx = None, sessions = []\<rparr>"

definition get_bytes :: "bytes \<Rightarrow> echo \<Rightarrow> echo" where
  "get_bytes bs st = st\<lparr>received := received st @ bs, total := total st + of_nat (length bs)\<rparr>"

definition put_bytes :: "bytes \<Rightarrow> echo \<Rightarrow> echo" where
  "put_bytes bs st = st\<lparr>sent := sent st @ bs\<rparr>"

section \<open>The servers\<close>

text \<open>The results of \<open>accept\<close> until it succeeds, and of \<open>setsockopt\<close>.\<close>

record conn =
  accepts :: "(sys \<times> bytes \<times> nat) list"
  busy_result :: sys

definition set_busy_poll :: "bool \<Rightarrow> sys \<Rightarrow> (tcp_stop, 's, unit) prog" where
  "set_busy_poll busy_poll res =
     (if busy_poll \<and> fst res < 0 then if snd res = EPERM then ret () else halt Failure
      else ret ())"

definition begin_session :: "(tcp_stop, echo, unit) prog" where
  "begin_session = update (\<lambda>st. st\<lparr>received := [], sent := [], in_pipe := [], total := 0\<rparr>)"

definition end_session :: "int \<Rightarrow> (tcp_stop, echo, unit) prog" where
  "end_session cd =
     andthen (close_fd cd) (update (\<lambda>st. st\<lparr>sessions := sessions st @ [(received st, sent st, total st)]\<rparr>))"

fun serve :: "(int \<Rightarrow> 'a conn_scheme \<Rightarrow> (tcp_stop, echo, unit) prog) \<Rightarrow> bool \<Rightarrow> 'a conn_scheme list \<Rightarrow>
    (tcp_stop, echo, unit) prog" where
  "serve body busy_poll [] = halt Blocked"
| "serve body busy_poll (c # cs) =
     bnd (net_accept (accepts c)) (\<lambda>(cd, client).
     andthen (set_busy_poll busy_poll (busy_result c))
     (andthen begin_session
     (andthen (body cd c)
     (andthen (end_session cd)
       (serve body busy_poll cs)))))"

text \<open>\<open>argv\<close> with the name of the program; the address is parsed and printed by \<open>net.c\<close>.\<close>

definition listen_on :: "(u16 \<Rightarrow> bytes \<Rightarrow> bytes option) \<Rightarrow> (u16 \<Rightarrow> bytes \<Rightarrow> bytes option) \<Rightarrow> bytes list \<Rightarrow>
    socket_results \<Rightarrow> (tcp_stop, 'a net_scheme, int) prog" where
  "listen_on pton ntop argv res =
     (if length argv < 2 then halt Failure
      else
        (case net_parse_sockaddr pton (argv ! 1) of
           Inl e \<Rightarrow> halt e
         | Inr listen \<Rightarrow>
        (case net_ntop ntop listen of
           Inl e \<Rightarrow> halt e
         | Inr _ \<Rightarrow> bnd (net_bind_tcp res listen) (\<lambda>sd. if sd < 0 then halt Failure else ret sd))))"

definition echo_main :: "(int \<Rightarrow> 'a conn_scheme \<Rightarrow> (tcp_stop, echo, unit) prog) \<Rightarrow>
    (u16 \<Rightarrow> bytes \<Rightarrow> bytes option) \<Rightarrow> (u16 \<Rightarrow> bytes \<Rightarrow> bytes option) \<Rightarrow> bytes list \<Rightarrow> socket_results \<Rightarrow>
    (tcp_stop, echo, unit) prog \<Rightarrow> 'a conn_scheme list \<Rightarrow> (tcp_stop + unit) \<times> echo" where
  "echo_main body pton ntop argv res prepare cs =
     bnd (listen_on pton ntop argv res) (\<lambda>sd. andthen prepare (serve body (length argv > 2) cs)) (no_session [])"

section \<open>The contract of a server\<close>

definition accepted_fd :: "'a conn_scheme \<Rightarrow> int" where
  "accepted_fd c = fst (fst (last (accepts c)))"

text \<open>\<open>accept\<close> is interrupted any number of times, and then returns a descriptor that is not in use.\<close>

definition accept_fine :: "int list \<Rightarrow> 'a conn_scheme \<Rightarrow> bool" where
  "accept_fine fs c \<longleftrightarrow> accepts c \<noteq> [] \<and> (\<forall>a \<in> set (butlast (accepts c)). fst (fst a) < 0 \<and> snd (fst a) = EINTR) \<and>
     accepted_fd c \<ge> 0 \<and> accepted_fd c \<notin> set fs \<and> (fst (busy_result c) \<ge> 0 \<or> snd (busy_result c) = EPERM)"

lemma net_accept_fine:
  assumes "as \<noteq> []" "\<forall>a \<in> set (butlast as). fst (fst a) < 0 \<and> snd (fst a) = EINTR" "fst (fst (last as)) \<ge> 0"
  shows "\<exists>ss. net_accept as st = (Inr (fst (fst (last as)), ss), st\<lparr>fds := fds st @ [fst (fst (last as))]\<rparr>)"
  using assms
proof (induction as rule: net_accept.induct)
  case (2 cd errno ss ss_len rs)
  show ?case
  proof (cases "rs = []")
    case True
    then show ?thesis using 2 by (simp add: open_fd_def prog_simps)
  next
    case False
    then show ?thesis using 2 by auto
  qed
qed simp

text \<open>Connections one after another: each is accepted with descriptors in use as the earlier ones left them.\<close>

fun all_fine :: "('a conn_scheme \<Rightarrow> bool) \<Rightarrow> ('a conn_scheme \<Rightarrow> int list) \<Rightarrow> int list \<Rightarrow> 'a conn_scheme list \<Rightarrow> bool"
  where
  "all_fine fine kept fs [] \<longleftrightarrow> True"
| "all_fine fine kept fs (c # cs) \<longleftrightarrow>
     accept_fine (fs @ kept c) c \<and> fine c \<and> all_fine fine kept (fs @ kept c) cs"

text \<open>The calls that make the listening socket succeed.\<close>

definition socket_fine :: "socket_results \<Rightarrow> bool" where
  "socket_fine res \<longleftrightarrow> socket_result res \<ge> 0 \<and> reuse_result res \<ge> 0 \<and> nodelay_result res \<ge> 0 \<and>
     cong_result res \<ge> 0 \<and> bind_result res \<ge> 0"

lemma listen_on_any:
  assumes "inet_contract pton ntop" "2 \<le> length argv" "net_parse_sockaddr pton (argv ! 1) = Inr ss" "socket_fine res"
  shows "listen_on pton ntop argv res st = (Inr (socket_result res), st\<lparr>fds := fds st @ [socket_result res]\<rparr>)"
proof -
  have "accepted pton (argv ! 1) ss" using parse_result [OF assms(1,3)] .
  then have f: "ss_family ss = AF_INET \<or> ss_family ss = AF_INET6" "\<exists>s. net_ntop ntop ss = Inr s"
    using accepted_family [OF assms(1)] by blast+
  then obtain s where "net_ntop ntop ss = Inr s" by blast
  then show ?thesis
    using assms(2-4) f(1)
    by (auto simp: listen_on_def net_bind_tcp_def socket_fine_def sizeof_ss_def open_fd_def Let_def prog_simps)
qed

lemma listen_on_fine:
  assumes "inet_contract pton ntop" "2 \<le> length argv" "net_parse_sockaddr pton (argv ! 1) = Inr ss" "socket_fine res"
  shows "listen_on pton ntop argv res (no_session []) = (Inr (socket_result res), no_session [socket_result res])"
  by (simp add: listen_on_any [OF assms] no_session_def)

text \<open>
  What the loop relies on, and what it promises then. \<open>fine\<close>: the connections where no call fails; \<open>ready\<close>:
  the ring of completions between connections; \<open>payload\<close>: what the other side sends; \<open>kept\<close>: the descriptors
  that are left open.
\<close>

locale echo_server =
  fixes body :: "int \<Rightarrow> 'a conn_scheme \<Rightarrow> (tcp_stop, echo, unit) prog"
    and fine :: "'a conn_scheme \<Rightarrow> bool"
    and ready :: "aio_ring option \<Rightarrow> bool"
    and payload :: "'a conn_scheme \<Rightarrow> bytes"
    and kept :: "'a conn_scheme \<Rightarrow> int list"
  assumes body_fine: "fine c \<Longrightarrow> ready (ctx st) \<Longrightarrow>
    received st = [] \<Longrightarrow> sent st = [] \<Longrightarrow> in_pipe st = [] \<Longrightarrow> total st = 0 \<Longrightarrow>
    \<exists>st'. body cd c st = (Inr (), st') \<and> received st' = payload c \<and> sent st' = payload c \<and>
      total st' = of_nat (length (payload c)) \<and> fds st' = fds st @ kept c \<and> ready (ctx st') \<and> sessions st' = sessions st"
begin

lemma serve_fine:
  assumes "all_fine fine kept (fds st) cs" "ready (ctx st)"
  shows "\<exists>st'. serve body busy_poll cs st = (Inl Blocked, st') \<and> fds st' = fds st @ concat (map kept cs) \<and>
    sessions st' = sessions st @ map (\<lambda>c. (payload c, payload c, of_nat (length (payload c)))) cs"
  using assms
proof (induction cs arbitrary: st)
  case Nil
  then show ?case by (simp add: prog_simps)
next
  case (Cons c cs)
  let ?cd = "accepted_fd c"
  have c: "accept_fine (fds st @ kept c) c" "fine c" "all_fine fine kept (fds st @ kept c) cs"
    using Cons.prems(1) by simp_all
  obtain ss where acc: "net_accept (accepts c) st = (Inr (?cd, ss), st\<lparr>fds := fds st @ [?cd]\<rparr>)"
    using net_accept_fine [of "accepts c" st] c(1) unfolding accept_fine_def accepted_fd_def by blast
  have busy: "set_busy_poll busy_poll (busy_result c) s = (Inr (), s)" for s :: echo
    using c(1) by (auto simp: set_busy_poll_def accept_fine_def prog_simps)
  let ?s1 = "st\<lparr>fds := fds st @ [?cd], received := [], sent := [], in_pipe := [], total := 0\<rparr>"
  obtain s2 where s2: "body ?cd c ?s1 = (Inr (), s2)" "received s2 = payload c" "sent s2 = payload c"
    "total s2 = of_nat (length (payload c))" "fds s2 = (fds st @ [?cd]) @ kept c" "ready (ctx s2)" "sessions s2 = sessions st"
    using body_fine [OF c(2), of ?s1 ?cd] Cons.prems(2) by auto
  let ?s3 = "s2\<lparr>fds := fds st @ kept c, sessions := sessions st @ [(payload c, payload c, of_nat (length (payload c)))]\<rparr>"
  have "?cd \<notin> set (fds st @ kept c)" using c(1) by (simp add: accept_fine_def)
  then have "remove1 ?cd (fds s2) = fds st @ kept c" using s2(5) by (simp add: remove1_append)
  then have e: "end_session ?cd s2 = (Inr (), ?s3)"
    using s2 by (simp add: end_session_def close_fd_def prog_simps)
  have "serve body busy_poll (c # cs) st = serve body busy_poll cs ?s3"
    using acc busy s2(1) e by (simp add: begin_session_def prog_simps)
  then show ?case using Cons.IH [of ?s3] c(3) s2(6) by simp
qed

text \<open>The whole program: it goes on, and has echoed everything.\<close>

lemma main_fine:
  assumes "inet_contract pton ntop" "2 \<le> length argv" "net_parse_sockaddr pton (argv ! 1) = Inr ss" "socket_fine res"
    and "prepare (no_session [socket_result res]) = (Inr (), (no_session [socket_result res])\<lparr>ctx := ring\<rparr>)" "ready ring"
    and "all_fine fine kept [socket_result res] cs"
  shows "\<exists>st. echo_main body pton ntop argv res prepare cs = (Inl Blocked, st) \<and>
    fds st = socket_result res # concat (map kept cs) \<and>
    sessions st = map (\<lambda>c. (payload c, payload c, of_nat (length (payload c)))) cs"
  using serve_fine [of "(no_session [socket_result res])\<lparr>ctx := ring\<rparr>" cs] assms(5-7) listen_on_fine [OF assms(1-4)]
  by (simp add: echo_main_def prog_simps no_session_def)

end

text \<open>
  What a server keeps whatever the results of the calls: a relation of the bytes received, the bytes sent
  and the contents of the pipe.
\<close>

definition related :: "(bytes \<Rightarrow> bytes \<Rightarrow> bytes \<Rightarrow> bool) \<Rightarrow> echo \<Rightarrow> bool" where
  "related rel st \<longleftrightarrow> rel (received st) (sent st) (in_pipe st) \<and>
     (\<forall>(rcv, snt, tot) \<in> set (sessions st). (\<exists>p. rel rcv snt p) \<and> tot = of_nat (length rcv))"

lemma net_accept_fds: "net_accept as (st :: echo) = (r, st') \<Longrightarrow> \<exists>f. st' = st\<lparr>fds := f\<rparr>"
  by (rule exI [of _ "fds st'"], induction as rule: net_accept.induct)
    (auto simp: prog_simps open_fd_def split: if_splits)

lemma listen_on_fds: "listen_on pton ntop argv res (no_session []) = (r, st) \<Longrightarrow> \<exists>f. st = no_session f"
  by (auto simp: listen_on_def net_bind_tcp_def expect_def sizeof_ss_def open_fd_def no_session_def Let_def prog_simps
      split: if_splits sum.splits)

locale echo_relation =
  fixes body :: "int \<Rightarrow> 'a conn_scheme \<Rightarrow> (tcp_stop, echo, unit) prog"
    and rel :: "bytes \<Rightarrow> bytes \<Rightarrow> bytes \<Rightarrow> bool"
    and valid :: "'a conn_scheme \<Rightarrow> bool"
  assumes rel_Nil: "rel [] [] []"
    and body_rel: "valid c \<Longrightarrow> received st = [] \<Longrightarrow> sent st = [] \<Longrightarrow> in_pipe st = [] \<Longrightarrow> total st = 0 \<Longrightarrow>
      body cd c st = (r, st') \<Longrightarrow> rel (received st') (sent st') (in_pipe st') \<and>
        total st' = of_nat (length (received st')) \<and> sessions st' = sessions st"
begin

lemma serve_rel:
  assumes "list_all valid cs" "serve body busy_poll cs st = (r, st')" "related rel st"
  shows "(\<exists>e. r = Inl e) \<and> related rel st'"
  using assms
proof (induction cs arbitrary: st)
  case Nil
  then show ?case by (auto simp: prog_simps)
next
  case (Cons c cs)
  obtain ra s1 where acc: "net_accept (accepts c) st = (ra, s1)" by force
  obtain f where s1: "s1 = st\<lparr>fds := f\<rparr>" using net_accept_fds [OF acc] by blast
  show ?case
  proof (cases ra)
    case (Inl e)
    then show ?thesis using Cons.prems acc s1 by (auto simp: prog_simps related_def)
  next
    case (Inr cl)
    show ?thesis
    proof (cases "set_busy_poll busy_poll (busy_result c) s1")
      case (Pair rb sb)
      then have sb: "sb = s1" by (auto simp: set_busy_poll_def prog_simps split: if_splits)
      let ?s2 = "s1\<lparr>received := [], sent := [], in_pipe := [], total := 0\<rparr>"
      obtain rc s3 where body: "body (fst cl) c ?s2 = (rc, s3)" by force
      have v: "valid c" using Cons.prems(1) by simp
      have s3: "rel (received s3) (sent s3) (in_pipe s3)" "total s3 = of_nat (length (received s3))"
        "sessions s3 = sessions st"
        using body_rel [OF v _ _ _ _ body] s1 by simp_all
      have r3: "related rel s3" "related rel (snd (end_session (fst cl) s3))"
        using s3 Cons.prems(3) by (auto simp: related_def end_session_def close_fd_def prog_simps)
      have run: "serve body busy_poll (c # cs) st = (case rb of Inl e \<Rightarrow> (Inl e, s1) | Inr _ \<Rightarrow>
          (case rc of Inl e \<Rightarrow> (Inl e, s3) | Inr _ \<Rightarrow> serve body busy_poll cs (snd (end_session (fst cl) s3))))"
        using acc Inr Pair sb body
        by (cases cl) (simp add: prog_simps begin_session_def end_session_def close_fd_def split: sum.split)
      have "related rel s1" using Cons.prems(3) s1 by (simp add: related_def)
      then show ?thesis
        using run Cons.prems(1,2) r3 Cons.IH [of "snd (end_session (fst cl) s3)"]
        by (cases rb; cases rc) auto
    qed
  qed
qed

lemma main_rel:
  assumes "list_all valid cs" "echo_main body pton ntop argv res prepare cs = (r, st)"
    and "\<And>s. related rel s \<Longrightarrow> related rel (snd (prepare s))"
  shows "(\<exists>e. r = Inl e) \<and> related rel st"
proof -
  have z: "related rel (no_session f)" for f by (simp add: related_def no_session_def rel_Nil)
  obtain rl s1 where l: "listen_on pton ntop argv res (no_session []) = (rl, s1)" by force
  then obtain f where "s1 = no_session f" using listen_on_fds by blast
  then have s1: "related rel s1" using z by simp
  obtain rs s2 where su: "prepare s1 = (rs, s2)" by force
  then have s2: "related rel s2" using assms(3) [OF s1] by simp
  show ?thesis
    using assms(2) l su s1 s2 serve_rel [OF assms(1), of "length argv > 2" s2 r st]
    by (cases rl; cases rs) (auto simp: echo_main_def prog_simps)
qed

end

text \<open>
  What is known of a connection that has ended: which of its calls were made, and what became of their bytes. The
  sessions are the connections ended, in their order.
\<close>

definition outcomes :: "('a conn_scheme \<Rightarrow> bytes \<Rightarrow> bytes \<Rightarrow> bool) \<Rightarrow> 'a conn_scheme list \<Rightarrow> (bytes \<times> bytes \<times> u64) list \<Rightarrow> bool" where
  "outcomes out cs ss \<longleftrightarrow> length ss \<le> length cs \<and> list_all2 (\<lambda>c (rcv, snt, _). out c rcv snt) (take (length ss) cs) ss"

lemma outcomes_simps [simp]:
  "outcomes out cs []" "outcomes out (c # cs) ((rcv, snt, tot) # ss) \<longleftrightarrow> out c rcv snt \<and> outcomes out cs ss"
  by (auto simp: outcomes_def)

locale echo_outcome = echo_relation body rel valid
  for body :: "int \<Rightarrow> 'a conn_scheme \<Rightarrow> (tcp_stop, echo, unit) prog"
    and rel :: "bytes \<Rightarrow> bytes \<Rightarrow> bytes \<Rightarrow> bool" and valid :: "'a conn_scheme \<Rightarrow> bool" +
  fixes out :: "'a conn_scheme \<Rightarrow> bytes \<Rightarrow> bytes \<Rightarrow> bool"
  assumes body_out: "valid c \<Longrightarrow> received st = [] \<Longrightarrow> sent st = [] \<Longrightarrow> in_pipe st = [] \<Longrightarrow> total st = 0 \<Longrightarrow>
      body cd c st = (Inr (), st') \<Longrightarrow> out c (received st') (sent st')"
begin

lemma serve_out:
  assumes "list_all valid cs" "serve body busy_poll cs st = (r, st')"
  shows "\<exists>ss. sessions st' = sessions st @ ss \<and> outcomes out cs ss"
  using assms
proof (induction cs arbitrary: st)
  case Nil
  then show ?case by (auto simp: prog_simps intro: exI [of _ "[]"])
next
  case (Cons c cs)
  obtain ra s1 where acc: "net_accept (accepts c) st = (ra, s1)" by force
  obtain f where s1: "s1 = st\<lparr>fds := f\<rparr>" using net_accept_fds [OF acc] by blast
  obtain rb sb where Pair: "set_busy_poll busy_poll (busy_result c) s1 = (rb, sb)" by force
  have sb: "sb = s1" using Pair by (auto simp: set_busy_poll_def prog_simps split: if_splits)
  let ?s2 = "s1\<lparr>received := [], sent := [], in_pipe := [], total := 0\<rparr>"
  have v: "valid c" using Cons.prems(1) by simp
  show ?case
  proof (cases "\<exists>cl u u'. ra = Inr cl \<and> rb = Inr u \<and> fst (body (fst cl) c ?s2) = Inr u'")
    case True
    then obtain cl where x: "ra = Inr cl" "rb = Inr ()" "fst (body (fst cl) c ?s2) = Inr ()" by auto
    then obtain s3 where body: "body (fst cl) c ?s2 = (Inr (), s3)" by (metis prod.collapse)
    have s3: "sessions s3 = sessions st" "out c (received s3) (sent s3)"
      using body_rel [OF v _ _ _ _ body] body_out [OF v _ _ _ _ body] s1 by simp_all
    let ?s4 = "snd (end_session (fst cl) s3)"
    have s4: "sessions ?s4 = sessions st @ [(received s3, sent s3, total s3)]"
      using s3 by (simp add: end_session_def close_fd_def prog_simps)
    have "serve body busy_poll cs ?s4 = (r, st')"
      using Cons.prems(2) acc x Pair sb body
      by (cases cl) (simp add: prog_simps begin_session_def end_session_def close_fd_def)
    from Cons.IH [OF _ this] Cons.prems(1) s4 obtain ss where
      "sessions st' = sessions st @ (received s3, sent s3, total s3) # ss" "outcomes out cs ss" by auto
    then show ?thesis using s3(2) by (metis outcomes_simps(2))
  next
    case False
    have "sessions s' = sessions st" if "body cd c ?s2 = (rr, s')" for cd rr s'
      using body_rel [OF v _ _ _ _ that] s1 by simp
    then have "sessions st' = sessions st"
      using Cons.prems(2) acc Pair sb False s1
      by (cases ra; cases rb) (auto simp: prog_simps begin_session_def split: sum.splits prod.splits)
    then show ?thesis by (intro exI [of _ "[]"]) simp
  qed
qed

lemma main_out:
  assumes "list_all valid cs" "echo_main body pton ntop argv res (ret ()) cs = (r, st)"
  shows "outcomes out cs (sessions st)"
proof -
  obtain rl s1 where l: "listen_on pton ntop argv res (no_session []) = (rl, s1)" by force
  then have "sessions s1 = []" using listen_on_fds by (fastforce simp: no_session_def)
  then show ?thesis
    using assms(2) l serve_out [OF assms(1), of "length argv > 2" s1 r st]
    by (cases rl) (auto simp: echo_main_def prog_simps)
qed

end

section \<open>An instance\<close>

definition some_argv :: "bytes list" where
  "some_argv = [lit ''echo'', lit ''7?000001:80'']"

definition some_sockets :: socket_results where
  "some_sockets = \<lparr>socket_result = 3, reuse_result = 0, nodelay_result = 0, cong_result = 0, zerocopy_result = 0,
     bind_result = 0, connect_results = []\<rparr>"

lemma some_listen:
  "2 \<le> length some_argv"
  "net_parse_sockaddr plain_pton (some_argv ! 1) = Inr (storage AF_INET 80 [127, 0, 0, 1])"
  "socket_fine some_sockets" "socket_result some_sockets = 3"
  by (simp_all add: some_argv_def plain_example socket_fine_def some_sockets_def)

end
