(* ===== verification/Echo_Naive.thy ===== *)
theory Echo_Naive
  imports Echo
begin

text \<open>
  \<open>2019-02-tcp-splice/echo-naive.c\<close>: a connection is served with \<open>recv\<close> and \<open>send\<close>. A round of the loop is
  given by the results of its calls and the bytes \<open>recv\<close> stored.

  The theorems: what is sent is what was received with at most some blocks left out, whatever the calls
  return; without a failing call everything is echoed, and nothing but the listening socket stays open.
\<close>

section \<open>The loop\<close>

record naive_round =
  recv_result :: sys
  recv_data :: bytes
  send_result :: sys
  so_error :: sys

record naive_conn = conn +
  rounds :: "naive_round list"

text \<open>\<open>so_error\<close>: the result of \<open>getsockopt\<close> and the error number it stored.\<close>

fun naive_loop :: "naive_round list \<Rightarrow> (tcp_stop, echo, unit) prog" where
  "naive_loop [] = halt Blocked"
| "naive_loop (r # rs) =
     (let (n, errno) = recv_result r in
      if n < 0 then
        if errno = EINTR then naive_loop rs
        else if errno = ECONNRESET then ret ()
        else halt Failure
      else if n = 0 then ret ()
      else
        andthen (update (get_bytes (recv_data r)))
        (let (m, errno) = send_result r in
         if m < 0 then
           if errno = EINTR then naive_loop rs
           else if errno = ECONNRESET then ret ()
           else if errno = EPIPE then ret ()
           else halt Failure
         else if m = 0 then ret ()
         else
           andthen (update (put_bytes (take (nat m) (recv_data r))))
           (if m \<noteq> n then
              let (r, err) = so_error r in
              if r < 0 then halt Failure
              else if err = EPIPE \<or> err = ECONNRESET then ret ()
              else halt Failure
            else naive_loop rs)))"

definition echo_naive :: "int \<Rightarrow> naive_conn \<Rightarrow> (tcp_stop, echo, unit) prog" where
  "echo_naive cd c = naive_loop (rounds c)"

definition echo_naive_main where
  "echo_naive_main pton ntop argv res cs = echo_main echo_naive pton ntop argv res (ret ()) cs"

section \<open>Whatever the calls return\<close>

text \<open>\<open>recv\<close> stores as many bytes as it returns; a socket does not take more than it is given.\<close>

definition naive_valid :: "naive_conn \<Rightarrow> bool" where
  "naive_valid c \<longleftrightarrow> (\<forall>r \<in> set (rounds c).
     (fst (recv_result r) > 0 \<longrightarrow> int (length (recv_data r)) = fst (recv_result r) \<and> length (recv_data r) \<le> BUFFER_SIZE) \<and>
     fst (send_result r) \<le> fst (recv_result r))"

text \<open>The block of a round, and whether \<open>send\<close> was interrupted before any of it was sent.\<close>

definition block :: "naive_round \<Rightarrow> bytes" where
  "block r = (if fst (recv_result r) > 0 then recv_data r else [])"

definition skipped :: "naive_round \<Rightarrow> bool" where
  "skipped r \<longleftrightarrow> fst (recv_result r) > 0 \<and> fst (send_result r) < 0 \<and> snd (send_result r) = EINTR"

text \<open>How the bytes of a connection go on; \<open>clean\<close>: what is sent is what was received.\<close>

definition progress :: "bool \<Rightarrow> echo \<Rightarrow> echo \<Rightarrow> bool" where
  "progress clean st st' \<longleftrightarrow> (\<exists>rcv snt. received st' = received st @ rcv \<and> sent st' = sent st @ snt \<and>
     subseq snt rcv \<and> (clean \<longrightarrow> prefix snt rcv) \<and> total st' = total st + of_nat (length rcv) \<and>
     sessions st' = sessions st \<and> in_pipe st' = in_pipe st)"

lemma progress_stop:
  "progress clean st st" "progress clean st (get_bytes d st)" "progress clean st (put_bytes (take m d) (get_bytes d st))"
proof -
  show "progress clean st st" unfolding progress_def by (intro exI [of _ "[]"]) simp
  show "progress clean st (get_bytes d st)" unfolding progress_def
    by (intro exI [of _ d] exI [of _ "[]"]) (simp add: get_bytes_def)
  show "progress clean st (put_bytes (take m d) (get_bytes d st))" unfolding progress_def
    by (intro exI [of _ d] exI [of _ "take m d"]) (simp add: get_bytes_def put_bytes_def take_is_prefix prefix_imp_subseq)
qed

lemma progress_block:
  assumes "progress clean (put_bytes d (get_bytes d st)) st'"
  shows "progress clean st st'"
proof -
  obtain rcv snt where h: "received st' = received st @ d @ rcv" "sent st' = sent st @ d @ snt" "subseq snt rcv"
    "clean \<longrightarrow> prefix snt rcv" "total st' = total st + of_nat (length d) + of_nat (length rcv)"
    "sessions st' = sessions st" "in_pipe st' = in_pipe st"
    using assms unfolding progress_def by (auto simp: get_bytes_def put_bytes_def)
  then show ?thesis unfolding progress_def
    by (intro exI [of _ "d @ rcv"] exI [of _ "d @ snt"]) (simp add: add.assoc list_emb_append_mono)
qed

lemma progress_skip:
  assumes "progress clean (get_bytes d st) st'"
  shows "progress False st st'"
proof -
  obtain rcv snt where h: "received st' = received st @ d @ rcv" "sent st' = sent st @ snt" "subseq snt rcv"
    "total st' = total st + of_nat (length d) + of_nat (length rcv)"
    "sessions st' = sessions st" "in_pipe st' = in_pipe st"
    using assms unfolding progress_def by (auto simp: get_bytes_def)
  then show ?thesis unfolding progress_def
    by (intro exI [of _ "d @ rcv"] exI [of _ snt]) (simp add: add.assoc list_emb_append2)
qed

lemma progress_mono: "progress clean st st' \<Longrightarrow> (clean' \<longrightarrow> clean) \<Longrightarrow> progress clean' st st'"
  unfolding progress_def by blast

lemma naive_loop_sent:
  assumes "naive_loop rs st = (res, st')"
    and "\<forall>r \<in> set rs. fst (recv_result r) > 0 \<longrightarrow> int (length (recv_data r)) = fst (recv_result r)"
  shows "progress (\<not> list_ex skipped rs) st st'"
  using assms
proof (induction rs arbitrary: st)
  case Nil
  then show ?case by (simp add: prog_simps progress_stop)
next
  case (Cons x rs)
  let ?d = "recv_data x"
  let ?st1 = "get_bytes ?d st"
  obtain n e m e' where x: "recv_result x = (n, e)" "send_result x = (m, e')" by force
  have IH: "naive_loop rs s = (res, st') \<Longrightarrow> progress (\<not> list_ex skipped rs) s st'" for s
    using Cons.IH Cons.prems(2) by simp
  consider (retry) "n < 0" "e = EINTR" | (stop) "n < 0 \<and> e \<noteq> EINTR \<or> n = 0" | (got) "n > 0" by linarith
  then show ?case
  proof cases
    case retry
    then have "naive_loop rs st = (res, st')" using Cons.prems(1) x by simp
    moreover have "\<not> skipped x" using retry x by (simp add: skipped_def)
    ultimately show ?thesis using IH by simp
  next
    case stop
    then have "st' = st" using Cons.prems(1) x by (auto simp: prog_simps split: if_splits)
    then show ?thesis by (simp add: progress_stop)
  next
    case got
    then have d: "int (length ?d) = n" using Cons.prems(2) x by simp
    consider (skip) "m < 0" "e' = EINTR" | (stop) "m < 0 \<and> e' \<noteq> EINTR \<or> m = 0" | (short) "m > 0" "m \<noteq> n" | (all) "m > 0" "m = n"
      by linarith
    then show ?thesis
    proof cases
      case skip
      then have "naive_loop rs ?st1 = (res, st')" using Cons.prems(1) x got by (simp add: prog_simps)
      then have "progress False st st'" using progress_skip IH by blast
      moreover have "skipped x" using skip got x by (simp add: skipped_def)
      ultimately show ?thesis by simp
    next
      case stop
      then have "st' = ?st1" using Cons.prems(1) x got by (auto simp: prog_simps split: if_splits)
      then show ?thesis by (simp add: progress_stop)
    next
      case short
      then have "st' = put_bytes (take (nat m) ?d) ?st1"
        using Cons.prems(1) x got by (auto simp: prog_simps Let_def split: if_splits prod.splits)
      then show ?thesis by (simp add: progress_stop)
    next
      case all
      then have "naive_loop rs (put_bytes ?d ?st1) = (res, st')"
        using Cons.prems(1) x got d by (auto simp: prog_simps Let_def)
      then have "progress (\<not> list_ex skipped rs) st st'" using progress_block IH by blast
      then show ?thesis by (rule progress_mono) simp
    qed
  qed
qed

interpretation naive_any: echo_relation echo_naive "\<lambda>rcv snt _. subseq snt rcv" naive_valid
proof
  fix c :: naive_conn and st st' :: echo and cd r
  assume c: "naive_valid c" and st: "received st = []" "sent st = []" "total st = 0" and run: "echo_naive cd c st = (r, st')"
  have "progress (\<not> list_ex skipped (rounds c)) st st'"
    using naive_loop_sent [of "rounds c" st r st'] run c by (simp add: echo_naive_def naive_valid_def)
  then show "subseq (sent st') (received st') \<and> total st' = of_nat (length (received st')) \<and> sessions st' = sessions st"
    using st by (auto simp: progress_def)
qed simp

interpretation naive_clean: echo_relation echo_naive "\<lambda>rcv snt _. prefix snt rcv"
  "\<lambda>c. naive_valid c \<and> \<not> list_ex skipped (rounds c)"
proof
  fix c :: naive_conn and st st' :: echo and cd r
  assume c: "naive_valid c \<and> \<not> list_ex skipped (rounds c)"
    and st: "received st = []" "sent st = []" "total st = 0" and run: "echo_naive cd c st = (r, st')"
  have "progress True st st'"
    using naive_loop_sent [of "rounds c" st r st'] run c by (simp add: echo_naive_def naive_valid_def)
  then show "prefix (sent st') (received st') \<and> total st' = of_nat (length (received st')) \<and> sessions st' = sessions st"
    using st by (auto simp: progress_def)
qed simp

section \<open>When no call fails\<close>

text \<open>Every block is sent as a whole, until \<open>recv\<close> returns 0; \<open>recv\<close> may be interrupted.\<close>

fun rounds_fine :: "naive_round list \<Rightarrow> bool" where
  "rounds_fine [] \<longleftrightarrow> False"
| "rounds_fine (r # rs) \<longleftrightarrow>
     fst (recv_result r) = 0 \<or>
     fst (recv_result r) < 0 \<and> snd (recv_result r) = EINTR \<and> rounds_fine rs \<or>
     fst (recv_result r) > 0 \<and> int (length (recv_data r)) = fst (recv_result r) \<and>
       fst (send_result r) = fst (recv_result r) \<and> rounds_fine rs"

fun naive_payload :: "naive_round list \<Rightarrow> bytes" where
  "naive_payload [] = []"
| "naive_payload (r # rs) = (if fst (recv_result r) = 0 then [] else block r @ naive_payload rs)"

lemma naive_loop_fine:
  assumes "rounds_fine rs"
  shows "naive_loop rs st = (Inr (), put_bytes (naive_payload rs) (get_bytes (naive_payload rs) st))"
  using assms
proof (induction rs arbitrary: st)
  case (Cons r rs)
  then show ?case
    by (cases "recv_result r"; cases "send_result r")
      (auto simp: prog_simps Let_def block_def get_bytes_def put_bytes_def add.assoc split: if_splits)
qed simp

interpretation naive: echo_server echo_naive "\<lambda>c. rounds_fine (rounds c)" "\<lambda>_. True"
  "\<lambda>c. naive_payload (rounds c)" "\<lambda>_. []"
proof
  fix c :: naive_conn and st :: echo and cd
  assume "rounds_fine (rounds c)" "received st = []" "sent st = []" "total st = 0"
  then show "\<exists>st'. echo_naive cd c st = (Inr (), st') \<and> received st' = naive_payload (rounds c) \<and>
      sent st' = naive_payload (rounds c) \<and> total st' = of_nat (length (naive_payload (rounds c))) \<and>
      fds st' = fds st @ [] \<and> True \<and> sessions st' = sessions st"
    by (simp add: echo_naive_def naive_loop_fine get_bytes_def put_bytes_def)
qed

section \<open>Theorems\<close>

text \<open>
  C9: whatever the calls return, the server never ends but by a failure; for each connection the bytes sent
  are a subsequence of those received, the number reported is that of the bytes received, modulo $2^{64}$; if
  no \<open>send\<close> was interrupted, the bytes sent are a prefix of those received.
\<close>

theorem echo_naive_order:
  assumes "list_all naive_valid cs" "echo_naive_main pton ntop argv res cs = (r, st)"
  shows "(\<exists>e. r = Inl e) \<and> related (\<lambda>rcv snt _. subseq snt rcv) st \<and>
    (list_all (\<lambda>c. \<not> list_ex skipped (rounds c)) cs \<longrightarrow> related (\<lambda>rcv snt _. prefix snt rcv) st)"
proof (intro conjI impI)
  have run: "echo_main echo_naive pton ntop argv res (ret ()) cs = (r, st)"
    using assms(2) by (simp add: echo_naive_main_def)
  then show "\<exists>e. r = Inl e" "related (\<lambda>rcv snt _. subseq snt rcv) st"
    using naive_any.main_rel [OF assms(1) run] by (simp_all add: prog_simps)
  assume "list_all (\<lambda>c. \<not> list_ex skipped (rounds c)) cs"
  then have "list_all (\<lambda>c. naive_valid c \<and> \<not> list_ex skipped (rounds c)) cs"
    using assms(1) by (simp add: list_all_iff)
  from naive_clean.main_rel [OF this run] show "related (\<lambda>rcv snt _. prefix snt rcv) st"
    by (simp add: prog_simps)
qed

text \<open>
  When no call fails but by an interruption of \<open>accept\<close> or \<open>recv\<close>, the server waits for another
  connection in the end, has sent to each what it received from it, and holds the listening socket alone.
\<close>

theorem echo_naive_echoes:
  assumes "inet_contract pton ntop" "2 \<le> length argv" "net_parse_sockaddr pton (argv ! 1) = Inr ss" "socket_fine res"
    and "all_fine (\<lambda>c. rounds_fine (rounds c)) (\<lambda>_. []) [socket_result res] cs"
  shows "\<exists>st. echo_naive_main pton ntop argv res cs = (Inl Blocked, st) \<and> fds st = [socket_result res] \<and>
    sessions st = map (\<lambda>c. let d = naive_payload (rounds c) in (d, d, of_nat (length d))) cs"
  using naive.main_fine [OF assms(1-4) _ _ assms(5), where prepare = "ret ()" and ring = None]
  by (simp add: echo_naive_main_def prog_simps no_session_def Let_def map_replicate_const)

text \<open>
  A connection, accepted after an interruption, on which \<open>hi\<close> and an end of file arrive, and one on which the
  first \<open>send\<close> is interrupted.
\<close>

definition some_round :: "int \<Rightarrow> bytes \<Rightarrow> int \<Rightarrow> naive_round" where
  "some_round n d m = \<lparr>recv_result = (n, EINTR), recv_data = d, send_result = (m, EINTR), so_error = (0, 0)\<rparr>"

definition some_conn :: "naive_round list \<Rightarrow> naive_conn" where
  "some_conn rs = \<lparr>accepts = [((-1, EINTR), [], 0), ((4, 0), storage AF_INET 80 [127, 0, 0, 1], 16)],
     busy_result = (-1, EPERM), rounds = rs\<rparr>"

lemma some_accept: "accept_fine [3] (some_conn rs)"
  by (simp add: accept_fine_def some_conn_def accepted_fd_def EINTR_def)

theorem echo_naive_echoes_witness:
  "\<exists>st. echo_naive_main plain_pton plain_ntop some_argv some_sockets
       [some_conn [some_round (-1) [] 0, some_round 2 [104, 105] 2, some_round 0 [] 0]] = (Inl Blocked, st) \<and>
     fds st = [3] \<and> sessions st = [([104, 105], [104, 105], 2)]"
proof -
  have "all_fine (\<lambda>c. rounds_fine (rounds c)) (\<lambda>_. []) [socket_result some_sockets]
      [some_conn [some_round (-1) [] 0, some_round 2 [104, 105] 2, some_round 0 [] 0]]"
    using some_accept by (simp add: some_listen) (simp add: some_conn_def some_round_def)
  from echo_naive_echoes [OF plain_contract some_listen(1-3) this] show ?thesis
    by (simp add: some_listen(4) Let_def) (simp add: some_conn_def some_round_def block_def)
qed

lemma naive_skips:
  "echo_naive 4 (some_conn [some_round 2 [104, 105] (-1), some_round 1 [33] 1, some_round 0 [] 0]) (no_session [3]) =
     (Inr (), put_bytes [33] (get_bytes [104, 105, 33] (no_session [3])))"
  by (simp add: echo_naive_def some_conn_def some_round_def prog_simps EINTR_def get_bytes_def put_bytes_def no_session_def)

theorem echo_naive_order_witness:
  "related (\<lambda>rcv snt _. subseq snt rcv) (snd (echo_naive_main plain_pton plain_ntop some_argv some_sockets
     [some_conn [some_round 2 [104, 105] (-1), some_round 1 [33] 1, some_round 0 [] 0]]))"
proof -
  have "list_all naive_valid [some_conn [some_round 2 [104, 105] (-1), some_round 1 [33] 1, some_round 0 [] 0]]"
    by (simp add: naive_valid_def some_conn_def some_round_def BUFFER_SIZE_def)
  from echo_naive_order [OF this prod.collapse [symmetric]] show ?thesis by blast
qed

end
