(* ===== verification/Echo_Splice.thy ===== *)
theory Echo_Splice
  imports Echo
begin

text \<open>
  \<open>2019-02-tcp-splice/echo-splice.c\<close>: the bytes of a connection go through a pipe, with \<open>splice\<close>. A round of
  the loop is given by the results of its calls and the bytes put into the pipe.

  The theorems: which calls were made for a connection that has ended, and that only the last block can be left in
  the pipe, when the socket did not take it; without a failing call everything is echoed, and every connection leaves
  the two descriptors of its pipe open.
\<close>

section \<open>The loop\<close>

definition SPLICE_MAX :: nat where "SPLICE_MAX = 512 * 1024"

record splice_round =
  in_result :: sys
  in_data :: bytes
  out_result :: sys

record splice_conn = conn +
  pipe_result :: int
  pipe_fds :: "int \<times> int"
  setpipe_result :: int
  transfers :: "splice_round list"

definition into_pipe :: "bytes \<Rightarrow> echo \<Rightarrow> echo" where
  "into_pipe bs st = (get_bytes bs st)\<lparr>in_pipe := in_pipe st @ bs\<rparr>"

definition out_of_pipe :: "nat \<Rightarrow> echo \<Rightarrow> echo" where
  "out_of_pipe m st = (put_bytes (take m (in_pipe st)) st)\<lparr>in_pipe := drop m (in_pipe st)\<rparr>"

text \<open>When \<open>splice\<close> gives nothing to the socket, the program ends whatever \<open>getsockopt\<close> returns.\<close>

fun splice_loop :: "splice_round list \<Rightarrow> (tcp_stop, echo, unit) prog" where
  "splice_loop [] = halt Blocked"
| "splice_loop (r # rs) =
     (let (n, errno) = in_result r in
      if n < 0 then
        if errno = ECONNRESET then ret ()
        else if errno = EAGAIN then ret ()
        else halt Failure
      else if n = 0 then ret ()
      else
        andthen (update (into_pipe (in_data r)))
        (let (m, errno) = out_result r in
         if m < 0 then
           if errno = ECONNRESET then ret ()
           else if errno = EPIPE then ret ()
           else halt Failure
         else if m = 0 then halt Failure
         else
           andthen (update (out_of_pipe (nat m)))
           (if m \<noteq> n then halt Failure else splice_loop rs)))"

definition echo_splice :: "int \<Rightarrow> splice_conn \<Rightarrow> (tcp_stop, echo, unit) prog" where
  "echo_splice cd c =
     andthen (expect (pipe_result c \<ge> 0))
     (andthen (open_fd (fst (pipe_fds c)))
     (andthen (open_fd (snd (pipe_fds c)))
     (andthen (expect (setpipe_result c \<ge> 0))
       (splice_loop (transfers c)))))"

definition echo_splice_main where
  "echo_splice_main pton ntop argv res cs = echo_main echo_splice pton ntop argv res (ret ()) cs"

section \<open>Whatever the calls return\<close>

lemma splice_loop_pipe:
  assumes "splice_loop rs st = (res, st')" "received st = sent st @ in_pipe st" "total st = of_nat (length (received st))"
  shows "received st' = sent st' @ in_pipe st' \<and> total st' = of_nat (length (received st')) \<and> sessions st' = sessions st"
  using assms
proof (induction rs arbitrary: st)
  case (Cons r rs)
  obtain n e m e' where x: "in_result r = (n, e)" "out_result r = (m, e')" by force
  let ?s1 = "into_pipe (in_data r) st" and ?s2 = "out_of_pipe (nat m) (into_pipe (in_data r) st)"
  have keep: "received ?s1 = sent ?s1 @ in_pipe ?s1" "total ?s1 = of_nat (length (received ?s1))"
    "sessions ?s1 = sessions st" "received ?s2 = sent ?s2 @ in_pipe ?s2" "total ?s2 = of_nat (length (received ?s2))"
    "sessions ?s2 = sessions st"
    using Cons.prems(2,3)
    by (simp_all add: into_pipe_def out_of_pipe_def get_bytes_def put_bytes_def del: take_append drop_append)
  show ?case
    using Cons.prems x keep Cons.IH [of ?s2] by (auto simp: prog_simps Let_def split: if_splits)
qed (simp add: prog_simps)

text \<open>\<open>splice\<close> returns the number of bytes it has moved into the pipe.\<close>

definition splice_counts :: "splice_conn \<Rightarrow> bool" where
  "splice_counts c \<longleftrightarrow> list_all (\<lambda>t. fst (in_result t) > 0 \<longrightarrow> int (length (in_data t)) = fst (in_result t)) (transfers c)"

text \<open>
  A connection that has ended: some transfers went through in full; the next found the end, a reset or nothing to
  read and all was sent, or the socket was reset or closed and its block stayed in the pipe.
\<close>

definition blocks :: "splice_round list \<Rightarrow> bytes" where
  "blocks ts = concat (map in_data ts)"

definition moved :: "splice_round \<Rightarrow> bool" where
  "moved t \<longleftrightarrow> fst (in_result t) > 0 \<and> fst (out_result t) = fst (in_result t)"

definition nothing_read :: "splice_round \<Rightarrow> bool" where
  "nothing_read t \<longleftrightarrow> fst (in_result t) = 0 \<or> fst (in_result t) < 0 \<and> snd (in_result t) \<in> {ECONNRESET, EAGAIN}"

definition not_taken :: "splice_round \<Rightarrow> bool" where
  "not_taken t \<longleftrightarrow> fst (in_result t) > 0 \<and> fst (out_result t) < 0 \<and> snd (out_result t) \<in> {ECONNRESET, EPIPE}"

definition splice_outcome :: "splice_conn \<Rightarrow> bytes \<Rightarrow> bytes \<Rightarrow> bool" where
  "splice_outcome c rcv snt \<longleftrightarrow>
     (\<exists>done t rest. transfers c = done @ t # rest \<and> list_all moved done \<and> snt = blocks done \<and>
       (nothing_read t \<and> rcv = snt \<or> not_taken t \<and> rcv = snt @ in_data t))"

lemma splice_loop_outcome:
  assumes "splice_loop rs st = (Inr (), st')" "in_pipe st = []" "received st = sent st"
    and "list_all (\<lambda>t. fst (in_result t) > 0 \<longrightarrow> int (length (in_data t)) = fst (in_result t)) rs"
  shows "\<exists>done t rest. rs = done @ t # rest \<and> list_all moved done \<and> sent st' = sent st @ blocks done \<and>
    (nothing_read t \<and> received st' = sent st' \<or> not_taken t \<and> received st' = sent st' @ in_data t)"
  using assms
proof (induction rs arbitrary: st)
  case (Cons r rs)
  obtain n e m e' where x: "in_result r = (n, e)" "out_result r = (m, e')" by force
  show ?case
  proof (cases "n > 0 \<and> m = n")
    case True
    let ?s2 = "out_of_pipe (nat m) (into_pipe (in_data r) st)"
    have s2: "in_pipe ?s2 = []" "received ?s2 = sent ?s2" "sent ?s2 = sent st @ in_data r"
      using True x Cons.prems(2-4)
      by (auto simp: into_pipe_def out_of_pipe_def get_bytes_def put_bytes_def)
    have "splice_loop rs ?s2 = (Inr (), st')" using Cons.prems(1) x True by (simp add: prog_simps)
    from Cons.IH [OF this s2(1,2)] Cons.prems(4) obtain d t rest where
      "rs = d @ t # rest" "list_all moved d" "sent st' = sent ?s2 @ blocks d"
      "nothing_read t \<and> received st' = sent st' \<or> not_taken t \<and> received st' = sent st' @ in_data t" by auto
    then have "r # rs = (r # d) @ t # rest \<and> list_all moved (r # d) \<and> sent st' = sent st @ blocks (r # d) \<and>
        (nothing_read t \<and> received st' = sent st' \<or> not_taken t \<and> received st' = sent st' @ in_data t)"
      using x True s2(3) by (simp add: moved_def blocks_def)
    then show ?thesis by blast
  next
    case False
    then have "r # rs = [] @ r # rs \<and> list_all moved [] \<and> sent st' = sent st @ blocks [] \<and>
        (nothing_read r \<and> received st' = sent st' \<or> not_taken r \<and> received st' = sent st' @ in_data r)"
      using Cons.prems x
      by (auto simp: prog_simps Let_def nothing_read_def not_taken_def blocks_def into_pipe_def get_bytes_def split: if_splits)
    then show ?thesis by blast
  qed
qed (simp add: prog_simps)

interpretation splice_any: echo_outcome echo_splice "\<lambda>rcv snt p. rcv = snt @ p" splice_counts splice_outcome
proof
  fix c :: splice_conn and st st' :: echo and cd r
  assume st: "received st = []" "sent st = []" "in_pipe st = []" "total st = 0" and run: "echo_splice cd c st = (r, st')"
  show "received st' = sent st' @ in_pipe st' \<and> total st' = of_nat (length (received st')) \<and> sessions st' = sessions st"
    using run st splice_loop_pipe [of "transfers c" "st\<lparr>fds := (fds st @ [fst (pipe_fds c)]) @ [snd (pipe_fds c)]\<rparr>" r st']
    by (auto simp: echo_splice_def expect_def open_fd_def prog_simps split: if_splits)
next
  fix c :: splice_conn and st st' :: echo and cd
  assume c: "splice_counts c" and st: "received st = []" "sent st = []" "in_pipe st = []"
    and run: "echo_splice cd c st = (Inr (), st')"
  have "splice_loop (transfers c) (st\<lparr>fds := (fds st @ [fst (pipe_fds c)]) @ [snd (pipe_fds c)]\<rparr>) = (Inr (), st')"
    using run by (auto simp: echo_splice_def expect_def open_fd_def prog_simps split: if_splits)
  from splice_loop_outcome [OF this] c st show "splice_outcome c (received st') (sent st')"
    by (simp add: splice_outcome_def splice_counts_def)
qed simp

section \<open>When no call fails\<close>

fun transfers_fine :: "splice_round list \<Rightarrow> bool" where
  "transfers_fine [] \<longleftrightarrow> False"
| "transfers_fine (r # rs) \<longleftrightarrow>
     fst (in_result r) = 0 \<or>
     fst (in_result r) > 0 \<and> int (length (in_data r)) = fst (in_result r) \<and> length (in_data r) \<le> SPLICE_MAX \<and>
       fst (out_result r) = fst (in_result r) \<and> transfers_fine rs"

fun splice_payload :: "splice_round list \<Rightarrow> bytes" where
  "splice_payload [] = []"
| "splice_payload (r # rs) = (if fst (in_result r) = 0 then [] else in_data r @ splice_payload rs)"

definition splice_fine :: "splice_conn \<Rightarrow> bool" where
  "splice_fine c \<longleftrightarrow> pipe_result c \<ge> 0 \<and> setpipe_result c \<ge> 0 \<and> transfers_fine (transfers c)"

definition pipe_ends :: "splice_conn \<Rightarrow> int list" where
  "pipe_ends c = [fst (pipe_fds c), snd (pipe_fds c)]"

lemma splice_loop_fine:
  assumes "transfers_fine rs" "in_pipe st = []"
  shows "splice_loop rs st = (Inr (), put_bytes (splice_payload rs) (get_bytes (splice_payload rs) st))"
  using assms
proof (induction rs arbitrary: st)
  case (Cons r rs)
  have "out_of_pipe (length (in_data r)) (into_pipe (in_data r) st) = put_bytes (in_data r) (get_bytes (in_data r) st)"
    using Cons.prems(2) by (simp add: out_of_pipe_def into_pipe_def put_bytes_def get_bytes_def)
  then show ?case using Cons
    by (cases "in_result r"; cases "out_result r")
      (auto simp: prog_simps Let_def get_bytes_def put_bytes_def add.assoc split: if_splits)
qed simp

interpretation splice: echo_server echo_splice splice_fine "\<lambda>_. True" "\<lambda>c. splice_payload (transfers c)" pipe_ends
proof
  fix c :: splice_conn and st :: echo and cd
  assume "splice_fine c" "received st = []" "sent st = []" "in_pipe st = []" "total st = 0"
  then show "\<exists>st'. echo_splice cd c st = (Inr (), st') \<and> received st' = splice_payload (transfers c) \<and>
      sent st' = splice_payload (transfers c) \<and> total st' = of_nat (length (splice_payload (transfers c))) \<and>
      fds st' = fds st @ pipe_ends c \<and> True \<and> sessions st' = sessions st"
    by (simp add: splice_fine_def echo_splice_def splice_loop_fine get_bytes_def put_bytes_def open_fd_def
        pipe_ends_def prog_simps)
qed

section \<open>Theorems\<close>

text \<open>
  C10: where \<open>splice\<close> returns the number of bytes it has moved into the pipe: the server never ends but by a failure.
  For each connection that has ended, in order, the calls made are known: a number of transfers whose whole block
  went from the socket through the pipe to the socket, and one more, either one that read nothing (end of
  the stream, \<open>ECONNRESET\<close>, \<open>EAGAIN\<close>), and then all that was received was sent, or one whose block the socket did not
  take (\<open>ECONNRESET\<close>, \<open>EPIPE\<close>), and then only this block was not sent. A block sent in part ends the program. On the
  connection that is being served what was received is what was sent followed by what is in the pipe, and the sum
  reported is the number of bytes received.
\<close>

theorem echo_splice_order:
  assumes "list_all splice_counts cs"
  shows "(\<exists>e. fst (echo_splice_main pton ntop argv res cs) = Inl e) \<and>
    outcomes splice_outcome cs (sessions (snd (echo_splice_main pton ntop argv res cs))) \<and>
    related (\<lambda>rcv snt p. rcv = snt @ p) (snd (echo_splice_main pton ntop argv res cs))"
proof -
  obtain r st where run: "echo_main echo_splice pton ntop argv res (ret ()) cs = (r, st)" by force
  show ?thesis
    using splice_any.main_rel [OF assms run] splice_any.main_out [OF assms run] run
    by (simp add: echo_splice_main_def prog_simps)
qed

text \<open>
  C30: when no call fails, the server waits for another connection in the end and has sent to each what it
  received from it; the descriptors of the pipes of all connections are still open.
\<close>

theorem echo_splice_echoes:
  assumes "inet_contract pton ntop" "2 \<le> length argv" "net_parse_sockaddr pton (argv ! 1) = Inr ss" "socket_fine res"
    and "all_fine splice_fine pipe_ends [socket_result res] cs"
  shows "\<exists>st. echo_splice_main pton ntop argv res cs = (Inl Blocked, st) \<and>
    length (fds st) = 1 + 2 * length cs \<and> fds st = socket_result res # concat (map pipe_ends cs) \<and>
    sessions st = map (\<lambda>c. let d = splice_payload (transfers c) in (d, d, of_nat (length d))) cs"
proof -
  obtain st where st: "echo_main echo_splice pton ntop argv res (ret ()) cs = (Inl Blocked, st)"
    "fds st = socket_result res # concat (map pipe_ends cs)"
    "sessions st = map (\<lambda>c. (splice_payload (transfers c), splice_payload (transfers c),
       of_nat (length (splice_payload (transfers c))))) cs"
    using splice.main_fine [OF assms(1-4) _ _ assms(5), where prepare = "ret ()" and ring = None]
    by (auto simp: prog_simps no_session_def)
  have "length (concat (map pipe_ends cs)) = 2 * length cs"
    by (induction cs) (simp_all add: pipe_ends_def)
  then show ?thesis using st by (simp add: echo_splice_main_def Let_def)
qed

text \<open>Two connections, with pipes 5 and 6, and 7 and 8.\<close>

definition splice_example :: "int \<Rightarrow> bytes \<Rightarrow> splice_conn" where
  "splice_example p d = \<lparr>accepts = [((4, 0), storage AF_INET 80 [127, 0, 0, 1], 16)], busy_result = (0, 0),
     pipe_result = 0, pipe_fds = (p, p + 1), setpipe_result = 0,
     transfers = [\<lparr>in_result = (int (length d), 0), in_data = d, out_result = (int (length d), 0)\<rparr>,
       \<lparr>in_result = (0, 0), in_data = [], out_result = (0, 0)\<rparr>]\<rparr>"

theorem echo_splice_echoes_witness:
  "\<exists>st. echo_splice_main plain_pton plain_ntop some_argv some_sockets [splice_example 5 [104], splice_example 7 [105, 33]] =
       (Inl Blocked, st) \<and> fds st = [3, 5, 6, 7, 8] \<and> sessions st = [([104], [104], 1), ([105, 33], [105, 33], 2)]"
proof -
  have "all_fine splice_fine pipe_ends [socket_result some_sockets] [splice_example 5 [104], splice_example 7 [105, 33]]"
    by (simp add: some_listen(4) accept_fine_def accepted_fd_def splice_fine_def pipe_ends_def splice_example_def
        SPLICE_MAX_def)
  from echo_splice_echoes [OF plain_contract some_listen(1-3) this] show ?thesis
    by (simp add: some_listen(4) Let_def pipe_ends_def splice_example_def) blast
qed

text \<open>The socket of the second connection is closed by the other side when its second block is to be sent.\<close>

definition splice_broken :: splice_conn where
  "splice_broken = (splice_example 7 [105, 33])
     \<lparr>transfers := [\<lparr>in_result = (2, 0), in_data = [105, 33], out_result = (2, 0)\<rparr>,
        \<lparr>in_result = (1, 0), in_data = [7], out_result = (-1, EPIPE)\<rparr>]\<rparr>"

theorem echo_splice_order_witness:
  "list_all splice_counts [splice_example 5 [104], splice_broken] \<and>
   sessions (snd (echo_splice_main plain_pton plain_ntop some_argv some_sockets [splice_example 5 [104], splice_broken])) =
     [([104], [104], 1), ([105, 33, 7], [105, 33], 3)] \<and>
   outcomes splice_outcome [splice_example 5 [104], splice_broken] [([104], [104], 1), ([105, 33, 7], [105, 33], 3)]"
proof -
  let ?cs = "[splice_example 5 [104], splice_broken]"
  have c: "list_all splice_counts ?cs"
    by (simp add: splice_counts_def splice_example_def splice_broken_def)
  have "sessions (snd (echo_splice_main plain_pton plain_ntop some_argv some_sockets ?cs)) =
      [([104], [104], 1), ([105, 33, 7], [105, 33], 3)]"
    unfolding echo_splice_main_def echo_main_def bnd_def [of "listen_on _ _ _ _"]
      listen_on_fine [OF plain_contract some_listen(1-3)] some_listen(4)
    by (simp add: splice_example_def splice_broken_def set_busy_poll_def begin_session_def end_session_def echo_splice_def open_fd_def
        close_fd_def no_session_def into_pipe_def out_of_pipe_def get_bytes_def put_bytes_def EPIPE_def ECONNRESET_def prog_simps Let_def)
  then show ?thesis using c echo_splice_order [OF c, of plain_pton plain_ntop some_argv some_sockets] by simp
qed

end
