(* ===== verification/Echo_Iosubmit.thy ===== *)
theory Echo_Iosubmit
  imports Echo
begin

text \<open>
  \<open>2019-02-tcp-splice/echo-iosubmit.c\<close>: each round of the loop submits a write of the bytes read in the round
  before and a read into the same buffer, and takes the two completions with \<open>io_getevents\<close> of \<open>iosubmit.h\<close>
  (\<open>io_getevents_any\<close> in \<open>Aio_Ring\<close>).

  The theorem: when the operations do all they are asked for, everything is echoed, whether the completions
  come through the shared ring or through the system call. \<open>short_write_lost\<close> shows what happens otherwise.
\<close>

section \<open>The loop\<close>

text \<open>
  A round: the result of \<open>io_submit\<close>, what the kernel did with the two operations (how many bytes were
  written, which were read), and to the ring; the kernel's steps while completions are taken, and the
  system call.
\<close>

record sub_round =
  submit_result :: int
  write_count :: nat
  read_data :: bytes
  submit_ring :: "aio_ring \<Rightarrow> aio_ring"
  during :: "nat \<Rightarrow> aio_ring \<Rightarrow> aio_ring"
  after :: "aio_ring \<Rightarrow> aio_ring"
  sys_getevents :: "int \<Rightarrow> int \<Rightarrow> int \<times> io_event list"

record sub_conn = conn +
  first_buf :: bytes
  submissions :: "sub_round list"

definition no_event :: io_event where
  "no_event = \<lparr>ev_data = 0, ev_obj = 0, ev_res = 0, ev_res2 = 0\<rparr>"

text \<open>The kernel writes from the first \<open>nbytes\<close> bytes of the buffer, and then reads.\<close>

definition io_submit :: "sub_round \<Rightarrow> nat \<Rightarrow> bytes \<Rightarrow> echo \<Rightarrow> echo" where
  "io_submit r nbytes buf st = st\<lparr>sent := sent st @ take (write_count r) (take nbytes buf),
     received := received st @ read_data r, ctx := map_option (submit_ring r) (ctx st)\<rparr>"

fun iosubmit_loop :: "bytes \<Rightarrow> nat \<Rightarrow> sub_round list \<Rightarrow> (tcp_stop, echo, unit) prog" where
  "iosubmit_loop buf nbytes [] = halt Blocked"
| "iosubmit_loop buf nbytes (r # rs) =
     andthen (update (io_submit r nbytes buf))
     (if submit_result r \<noteq> 2 then halt Failure
      else if length buf < length (read_data r) then halt Fault
      else
        bnd (fetch ctx) (\<lambda>ring.
        (case io_getevents_any (during r) (after r) (sys_getevents r) ring 1 2 None of
           Inl _ \<Rightarrow> halt Fault
         | Inr (n, es, ring) \<Rightarrow>
             andthen (update (\<lambda>st. st\<lparr>ctx := ring\<rparr>))
             (if n < 0 then halt Failure
              else if length es > 2 then halt Fault
              else
                let events = es @ replicate (2 - length es) no_event in
                if ev_res (events ! 0) < 0 then ret ()
                else if ev_res (events ! 1) < 0 then ret ()
                else if ev_res (events ! 1) = 0 then ret ()
                else
                  andthen (update (\<lambda>st. st\<lparr>total := total st + word_of_int (ev_res (events ! 1))\<rparr>))
                    (iosubmit_loop (array_write buf 0 (read_data r)) (nat (ev_res (events ! 1))) rs)))))"

definition echo_iosubmit :: "int \<Rightarrow> sub_conn \<Rightarrow> (tcp_stop, echo, unit) prog" where
  "echo_iosubmit cd c = iosubmit_loop (first_buf c) 0 (submissions c)"

text \<open>\<open>io_setup\<close>, by its result and the ring behind the context.\<close>

definition io_setup :: "int \<Rightarrow> aio_ring option \<Rightarrow> (tcp_stop, echo, unit) prog" where
  "io_setup r ring = andthen (expect (r \<ge> 0)) (update (\<lambda>st. st\<lparr>ctx := ring\<rparr>))"

definition echo_iosubmit_main where
  "echo_iosubmit_main pton ntop argv res setup_result ring cs =
     echo_main echo_iosubmit pton ntop argv res (io_setup setup_result ring) cs"

section \<open>When the operations do all they are asked for\<close>

text \<open>Between two rounds the ring is empty, with room for two completions, or there is none.\<close>

definition ring_usable :: "aio_ring \<Rightarrow> bool" where
  "ring_usable r \<longleftrightarrow> ring_ok r \<and> contents r = [] \<and> 3 \<le> unat (nr r)"

definition ring_ready :: "aio_ring option \<Rightarrow> bool" where
  "ring_ready ring \<longleftrightarrow> (case ring of None \<Rightarrow> True | Some r \<Rightarrow> magic r = AIO_RING_MAGIC \<longrightarrow> ring_usable r)"

text \<open>
  The contract of the kernel on sockets that block: when \<open>io_submit\<close> returns both operations are complete,
  and their results are in the ring, or come out of the system call.
\<close>

definition completes :: "sub_round \<Rightarrow> bool" where
  "completes r \<longleftrightarrow>
     (let res = [int (write_count r), int (length (read_data r))] in
      (\<forall>ring. ring_usable ring \<longrightarrow> ring_ok (submit_ring r ring) \<and> nr (submit_ring r ring) = nr ring \<and>
        map ev_res (contents (submit_ring r ring)) = res) \<and>
      (\<forall>ring. magic (submit_ring r ring) = magic ring) \<and>
      (\<forall>i. adds_none (during r i)) \<and> adds_none (after r) \<and>
      (\<exists>es. sys_getevents r 1 2 = (2, es) \<and> map ev_res es = res))"

fun submissions_fine :: "nat \<Rightarrow> sub_round list \<Rightarrow> bool" where
  "submissions_fine nbytes [] \<longleftrightarrow> False"
| "submissions_fine nbytes (r # rs) \<longleftrightarrow>
     submit_result r = 2 \<and> write_count r = nbytes \<and> length (read_data r) \<le> BUFFER_SIZE \<and> completes r \<and>
     (read_data r = [] \<or> submissions_fine (length (read_data r)) rs)"

fun sub_payload :: "sub_round list \<Rightarrow> bytes" where
  "sub_payload [] = []"
| "sub_payload (r # rs) = (if read_data r = [] then [] else read_data r @ sub_payload rs)"

definition sub_fine :: "sub_conn \<Rightarrow> bool" where
  "sub_fine c \<longleftrightarrow> length (first_buf c) = BUFFER_SIZE \<and> submissions_fine 0 (submissions c)"

lemma both_completions:
  assumes "completes r" "ring_ready ring"
  shows "\<exists>es ring'. io_getevents_any (during r) (after r) (sys_getevents r) (map_option (submit_ring r) ring) 1 2 None =
      Inr (2, es, ring') \<and> map ev_res es = [int (write_count r), int (length (read_data r))] \<and> ring_ready ring'"
proof (cases "\<exists>g. ring = Some g \<and> magic g = AIO_RING_MAGIC")
  case True
  then obtain g where g: "ring = Some g" "magic g = AIO_RING_MAGIC" "ring_usable g"
    using assms(2) by (auto simp: ring_ready_def)
  let ?g = "submit_ring r g"
  obtain es where es: "ring_ok ?g" "magic ?g = AIO_RING_MAGIC" "contents ?g = es" "3 \<le> unat (nr ?g)"
    "map ev_res es = [int (write_count r), int (length (read_data r))]"
    using assms(1) g by (auto simp: completes_def Let_def ring_usable_def)
  then obtain a b where ab: "es = [a, b]" by (auto simp: map_eq_Cons_conv)
  obtain r' where "io_getevents_any (during r) (after r) (sys_getevents r) (Some ?g) 1 2 None = Inr (2, [a, b], Some r')"
    "ring_ok r'" "nr r' = nr ?g" "magic r' = AIO_RING_MAGIC" "contents r' = []"
    using io_getevents_any_both [of "during r" "after r" ?g a b "sys_getevents r"] assms(1) es ab
    by (auto simp: completes_def Let_def)
  then show ?thesis using g(1) es(4,5) ab
    by (intro exI [of _ es] exI [of _ "Some r'"]) (simp add: ring_ready_def ring_usable_def)
next
  case False
  obtain es where es: "sys_getevents r 1 2 = (2, es)" "map ev_res es = [int (write_count r), int (length (read_data r))]"
    and m: "\<forall>ring. magic (submit_ring r ring) = magic ring"
    using assms(1) by (auto simp: completes_def Let_def)
  have "io_getevents_any (during r) (after r) (sys_getevents r) (map_option (submit_ring r) ring) 1 2 None =
      Inr (2, es, map_option (submit_ring r) ring)"
    using False es(1) m by (cases ring) (simp_all add: io_getevents_any_def)
  moreover have "ring_ready (map_option (submit_ring r) ring)"
    using False m by (cases ring) (simp_all add: ring_ready_def)
  ultimately show ?thesis using es(2)
    by (intro exI [of _ es] exI [of _ "map_option (submit_ring r) ring"]) simp
qed

lemma iosubmit_loop_fine:
  assumes "submissions_fine nbytes rs" "ring_ready (ctx st)" "length buf = BUFFER_SIZE" "nbytes \<le> BUFFER_SIZE"
  shows "\<exists>ring. ring_ready ring \<and> iosubmit_loop buf nbytes rs st = (Inr (), st\<lparr>ctx := ring,
    received := received st @ sub_payload rs, sent := sent st @ take nbytes buf @ sub_payload rs,
    total := total st + of_nat (length (sub_payload rs))\<rparr>)"
  using assms
proof (induction rs arbitrary: nbytes buf st)
  case (Cons r rs)
  let ?d = "read_data r"
  have r: "submit_result r = 2" "write_count r = nbytes" "length ?d \<le> BUFFER_SIZE" "completes r"
    "?d = [] \<or> submissions_fine (length ?d) rs"
    using Cons.prems(1) by simp_all
  obtain es ring where e: "io_getevents_any (during r) (after r) (sys_getevents r)
        (map_option (submit_ring r) (ctx st)) 1 2 None = Inr (2, es, ring)"
      "map ev_res es = [int nbytes, int (length ?d)]" "ring_ready ring"
    using both_completions [OF r(4) Cons.prems(2)] r(2) by auto
  obtain a b where ab: "es = [a, b]" "ev_res a = int nbytes" "ev_res b = int (length ?d)"
    using e(2) by (auto simp: map_eq_Cons_conv)
  let ?st = "st\<lparr>sent := sent st @ take nbytes buf, received := received st @ ?d, ctx := ring\<rparr>"
  show ?case
  proof (cases "?d = []")
    case True
    then have "iosubmit_loop buf nbytes (r # rs) st = (Inr (), ?st)"
      using r e(1) ab by (simp add: prog_simps io_submit_def)
    then show ?thesis using e(3) True by (intro exI [of _ ring]) simp
  next
    case False
    let ?buf = "array_write buf 0 ?d" and ?st1 = "?st\<lparr>total := total st + of_nat (length ?d)\<rparr>"
    have b: "length ?buf = BUFFER_SIZE" "take (length ?d) ?buf = ?d"
      using r(3) Cons.prems(3) by (simp_all add: array_write_def)
    have "iosubmit_loop buf nbytes (r # rs) st = iosubmit_loop ?buf (length ?d) rs ?st1"
      using r e(1) ab False Cons.prems(3) by (simp add: prog_simps io_submit_def)
    moreover obtain ring' where "ring_ready ring'" "iosubmit_loop ?buf (length ?d) rs ?st1 =
        (Inr (), ?st1\<lparr>ctx := ring', received := received ?st1 @ sub_payload rs,
          sent := sent ?st1 @ take (length ?d) ?buf @ sub_payload rs,
          total := total ?st1 + of_nat (length (sub_payload rs))\<rparr>)"
      using Cons.IH [of "length ?d" ?st1 ?buf] False r(3,5) e(3) b(1) by auto
    ultimately show ?thesis using False b(2) by (intro exI [of _ ring']) (simp add: add.assoc)
  qed
qed simp

interpretation iosubmit: echo_server echo_iosubmit sub_fine ring_ready "\<lambda>c. sub_payload (submissions c)" "\<lambda>_. []"
proof
  fix c :: sub_conn and st :: echo and cd
  assume c: "sub_fine c" and st: "ring_ready (ctx st)" "received st = []" "sent st = []" "total st = 0"
  then show "\<exists>st'. echo_iosubmit cd c st = (Inr (), st') \<and> received st' = sub_payload (submissions c) \<and>
      sent st' = sub_payload (submissions c) \<and> total st' = of_nat (length (sub_payload (submissions c))) \<and>
      fds st' = fds st @ [] \<and> ring_ready (ctx st') \<and> sessions st' = sessions st"
    using iosubmit_loop_fine [of 0 "submissions c" st "first_buf c"] by (auto simp: sub_fine_def echo_iosubmit_def)
qed

section \<open>Theorem\<close>

text \<open>
  C11: on a kernel that completes both operations before \<open>io_submit\<close> returns and writes all it is given, the
  server waits for another connection in the end and has sent to each what it received from it; the
  completions may come through the ring or, without one, through the system call.
\<close>

theorem echo_iosubmit_echoes:
  assumes "inet_contract pton ntop" "2 \<le> length argv" "net_parse_sockaddr pton (argv ! 1) = Inr ss" "socket_fine res"
    and "setup_result \<ge> 0" "ring_ready ring" "all_fine sub_fine (\<lambda>_. []) [socket_result res] cs"
  shows "\<exists>st. echo_iosubmit_main pton ntop argv res setup_result ring cs = (Inl Blocked, st) \<and>
    fds st = [socket_result res] \<and>
    sessions st = map (\<lambda>c. let d = sub_payload (submissions c) in (d, d, of_nat (length d))) cs"
  using iosubmit.main_fine [OF assms(1-4) _ assms(6,7), where prepare = "io_setup setup_result ring"] assms(5)
  by (simp add: echo_iosubmit_main_def io_setup_def prog_simps Let_def map_replicate_const)

text \<open>A kernel that puts both completions into the ring, and a ring of three that wraps around.\<close>

definition some_sub :: "nat \<Rightarrow> bytes \<Rightarrow> sub_round" where
  "some_sub w d =
     (let a = no_event\<lparr>ev_res := int w\<rparr>; b = no_event\<lparr>ev_res := int (length d)\<rparr> in
      \<lparr>submit_result = 2, write_count = w, read_data = d, submit_ring = (\<lambda>r. complete_one b (complete_one a r)),
       during = (\<lambda>_ r. r), after = (\<lambda>r. r), sys_getevents = (\<lambda>_ _. (2, [a, b]))\<rparr>)"

lemma some_sub_completes: "completes (some_sub w d)"
proof -
  let ?a = "no_event\<lparr>ev_res := int w\<rparr>" and ?b = "no_event\<lparr>ev_res := int (length d)\<rparr>"
  have "ring_ok (complete_one ?b (complete_one ?a g)) \<and> contents (complete_one ?b (complete_one ?a g)) = [?a, ?b]"
    if "ring_usable g" for g
  proof -
    have g: "ring_ok g" "contents g = []" "3 \<le> unat (nr g)" using that by (simp_all add: ring_usable_def)
    then have "pending g = 0" by (simp add: contents_def)
    then have 1: "ring_ok (complete_one ?a g)" "contents (complete_one ?a g) = [?a]" "pending (complete_one ?a g) = 1"
      using complete_one [of g ?a] g by simp_all
    moreover have "nr (complete_one ?a g) = nr g" by (simp add: complete_one_def)
    ultimately show ?thesis using complete_one [of "complete_one ?a g" ?b] g(3) by simp
  qed
  then show ?thesis
    by (simp add: completes_def some_sub_def Let_def adds_none_def adds_some_def) (simp add: complete_one_def)
qed

definition sub_example :: sub_conn where
  "sub_example = \<lparr>accepts = [((4, 0), storage AF_INET 80 [127, 0, 0, 1], 16)], busy_result = (0, 0),
     first_buf = replicate BUFFER_SIZE 0, submissions = [some_sub 0 [104, 105], some_sub 2 [33], some_sub 1 []]\<rparr>"

lemma small_ring_ready: "ring_ready (Some (small_ring\<lparr>head := 1\<rparr>))"
  by (simp add: ring_ready_def ring_usable_def ring_ok_def small_ring_def contents_def pending_def)

theorem echo_iosubmit_echoes_witness:
  "\<exists>st. echo_iosubmit_main plain_pton plain_ntop some_argv some_sockets 0 (Some (small_ring\<lparr>head := 1\<rparr>)) [sub_example] =
     (Inl Blocked, st) \<and> fds st = [3] \<and> sessions st = [([104, 105, 33], [104, 105, 33], 3)]"
proof -
  have d: "read_data (some_sub w d) = d" "write_count (some_sub w d) = w" "submit_result (some_sub w d) = 2" for w d
    by (simp_all add: some_sub_def Let_def)
  have "submissions_fine 0 [some_sub 0 [104, 105], some_sub 2 [33], some_sub 1 []]"
    by (simp add: d some_sub_completes BUFFER_SIZE_def)
  then have "all_fine sub_fine (\<lambda>_. []) [socket_result some_sockets] [sub_example]"
    by (simp add: some_listen(4) accept_fine_def accepted_fd_def sub_fine_def sub_example_def)
  from echo_iosubmit_echoes [OF plain_contract some_listen(1-3) order_refl small_ring_ready this] show ?thesis
    by (simp add: some_listen(4) Let_def sub_example_def d)
qed

text \<open>When only one byte of two is written, the other is never sent.\<close>

lemma short_write_lost:
  "\<exists>st. iosubmit_loop (replicate 8 0) 0 [some_sub 0 [104, 105], some_sub 1 [33], some_sub 1 []] (no_session [3]) =
     (Inr (), st) \<and> received st = [104, 105, 33] \<and> sent st = [104, 33]"
  by (simp add: some_sub_def no_session_def no_event_def prog_simps io_submit_def io_getevents_any_def
      array_write_def Let_def)

end
