(* ===== verification/Tbpf.thy ===== *)
theory Tbpf
  imports Net
begin

text \<open>
  \<open>2019-02-tcp-splice/tbpf.c\<close>: the values filled into the instructions of an eBPF program, and the \<open>bpf\<close> system
  call with its commands. A call is recorded with the attributes the kernel is given; what it returns is given
  by the environment.
\<close>

section \<open>Relocations\<close>

record bpf_insn =
  code :: u8
  dst_reg :: "4 word"
  src_reg :: "4 word"
  off :: u16
  imm :: u32

text \<open>A null pointer for the name is \<open>None\<close>; a table ends with a null pointer or an empty name.\<close>

record tbpf_reloc =
  reloc_name :: "bytes option"
  reloc_type :: int
  reloc_offset :: int

definition in_range :: "bpf_insn list \<Rightarrow> int \<Rightarrow> bool" where
  "in_range insns i \<longleftrightarrow> 0 \<le> i \<and> i < int (length insns)"

fun fill_loop :: "bpf_insn list \<Rightarrow> tbpf_reloc list \<Rightarrow> bytes \<Rightarrow> u32 \<Rightarrow> nat \<Rightarrow> tcp_stop + bpf_insn list \<times> nat" where
  "fill_loop insns [] symbol v c = Inl Fault"
| "fill_loop insns (r # relocs) symbol v c =
     (case reloc_name r of
        None \<Rightarrow> Inr (insns, c)
      | Some name \<Rightarrow>
          if name = [] then Inr (insns, c)
          else if name = symbol then
            if reloc_type r = 1 then
              if in_range insns (reloc_offset r) then
                let i = nat (reloc_offset r) in
                fill_loop (insns[i := (insns ! i)\<lparr>src_reg := 1, imm := v\<rparr>]) relocs symbol v (c + 1)
              else Inl Fault
            else Inl Failure
          else fill_loop insns relocs symbol v c)"

definition tbpf_fill_symbol :: "bpf_insn list \<Rightarrow> tbpf_reloc list option \<Rightarrow> bytes \<Rightarrow> u32 \<Rightarrow>
    tcp_stop + bpf_insn list \<times> nat" where
  "tbpf_fill_symbol insns relocs symbol v =
     (case relocs of None \<Rightarrow> Inr (insns, 0) | Some rs \<Rightarrow> fill_loop insns rs symbol v 0)"

section \<open>The system call\<close>

text \<open>
  The attributes of each command that are set; all others are 0. A program is loaded with its type, instructions,
  license and version, and the size and the level of the log; keys and values of a map are read through pointers.
\<close>

datatype bpf_call =
    Map_create nat int int int u32
  | Prog_load nat "bpf_insn list" bytes u32 nat nat
  | Prog_attach int int nat u32
  | Map_update int int int u64
  | Map_delete int int
  | Map_lookup int int

record bpf_net = net +
  bpf_calls :: "bpf_call list"

definition sys_bpf :: "bpf_call \<Rightarrow> int \<Rightarrow> (tcp_stop, 'a bpf_net_scheme, int) prog" where
  "sys_bpf call r = andthen (update (\<lambda>st. st\<lparr>bpf_calls := bpf_calls st @ [call]\<rparr>)) (ret r)"

definition tbpf_create_map :: "nat \<Rightarrow> int \<Rightarrow> int \<Rightarrow> int \<Rightarrow> u32 \<Rightarrow> int \<Rightarrow> (tcp_stop, 'a bpf_net_scheme, int) prog" where
  "tbpf_create_map map_type key_size value_size max_entries map_flags =
     sys_bpf (Map_create map_type key_size value_size max_entries map_flags)"

text \<open>The results of the first call, and of the second, which is made with the log when the first failed.\<close>

definition tbpf_load_program :: "nat \<Rightarrow> bpf_insn list \<Rightarrow> bytes \<Rightarrow> u32 \<Rightarrow> nat \<Rightarrow> int \<Rightarrow> int \<Rightarrow>
    (tcp_stop, 'a bpf_net_scheme, int) prog" where
  "tbpf_load_program prog_type insns license kern_version log_buf_sz r1 r2 =
     bnd (sys_bpf (Prog_load prog_type insns license kern_version 0 0) r1) (\<lambda>fd.
     if fd \<ge> 0 \<or> log_buf_sz = 0 then ret fd
     else sys_bpf (Prog_load prog_type insns license kern_version log_buf_sz 1) r2)"

definition tbpf_prog_attach :: "int \<Rightarrow> int \<Rightarrow> nat \<Rightarrow> u32 \<Rightarrow> int \<Rightarrow> (tcp_stop, 'a bpf_net_scheme, int) prog" where
  "tbpf_prog_attach prog_fd target_fd type flags = sys_bpf (Prog_attach target_fd prog_fd type flags)"

definition tbpf_map_update_elem :: "int \<Rightarrow> int \<Rightarrow> int \<Rightarrow> u64 \<Rightarrow> int \<Rightarrow> (tcp_stop, 'a bpf_net_scheme, int) prog" where
  "tbpf_map_update_elem fd key v flags = sys_bpf (Map_update fd key v flags)"

definition tbpf_map_delete_elem :: "int \<Rightarrow> int \<Rightarrow> int \<Rightarrow> (tcp_stop, 'a bpf_net_scheme, int) prog" where
  "tbpf_map_delete_elem fd key = sys_bpf (Map_delete fd key)"

definition tbpf_map_lookup_elem :: "int \<Rightarrow> int \<Rightarrow> int \<Rightarrow> (tcp_stop, 'a bpf_net_scheme, int) prog" where
  "tbpf_map_lookup_elem fd key = sys_bpf (Map_lookup fd key)"

lemmas tbpf_defs = sys_bpf_def tbpf_create_map_def tbpf_load_program_def tbpf_prog_attach_def
  tbpf_map_update_elem_def tbpf_map_delete_elem_def tbpf_map_lookup_elem_def

section \<open>What filling in a symbol does\<close>

text \<open>The relocations of a table: those before the entry that ends it.\<close>

definition names :: "tbpf_reloc \<Rightarrow> bool" where
  "names r \<longleftrightarrow> reloc_name r \<noteq> None \<and> reloc_name r \<noteq> Some []"

definition places :: "tbpf_reloc list \<Rightarrow> bytes \<Rightarrow> nat list" where
  "places relocs symbol =
     map (\<lambda>r. nat (reloc_offset r)) (filter (\<lambda>r. reloc_name r = Some symbol) (takeWhile names relocs))"

text \<open>A table that ends, with relocations of the known type at instructions of the program.\<close>

definition table_ok :: "tbpf_reloc list \<Rightarrow> nat \<Rightarrow> bytes \<Rightarrow> bool" where
  "table_ok relocs n symbol \<longleftrightarrow> \<not> list_all names relocs \<and>
     (\<forall>r \<in> set (takeWhile names relocs). reloc_name r = Some symbol \<longrightarrow>
        reloc_type r = 1 \<and> 0 \<le> reloc_offset r \<and> reloc_offset r < int n)"

definition filled :: "u32 \<Rightarrow> nat list \<Rightarrow> bpf_insn list \<Rightarrow> bpf_insn list" where
  "filled v is insns = map (\<lambda>i. if i \<in> set is then (insns ! i)\<lparr>src_reg := 1, imm := v\<rparr> else insns ! i) [0..<length insns]"

lemma filled_step:
  "i < length insns \<Longrightarrow> filled v is (insns[i := (insns ! i)\<lparr>src_reg := 1, imm := v\<rparr>]) = filled v (i # is) insns"
  by (auto simp: filled_def nth_list_update)

lemma filled_Nil [simp]: "filled v [] insns = insns"
  by (simp add: filled_def map_nth)

lemma fill_loop_ok:
  assumes "table_ok relocs (length insns) symbol" "symbol \<noteq> []"
  shows "fill_loop insns relocs symbol v c = Inr (filled v (places relocs symbol) insns, c + length (places relocs symbol))"
  using assms
proof (induction insns relocs symbol v c rule: fill_loop.induct)
  case (2 insns r relocs symbol v c)
  show ?case
  proof (cases "names r")
    case False
    then show ?thesis by (auto simp: names_def places_def)
  next
    case True
    then obtain name where n: "reloc_name r = Some name" "name \<noteq> []" by (auto simp: names_def)
    have t: "table_ok relocs (length insns) symbol" using 2(3) True by (auto simp: table_ok_def)
    show ?thesis
    proof (cases "name = symbol")
      case False
      then show ?thesis using 2(2) [OF n(1,2)] n t 2(4) True by (simp add: places_def)
    next
      case sym: True
      have o: "reloc_type r = 1" "in_range insns (reloc_offset r)" "nat (reloc_offset r) < length insns"
        using 2(3) True n sym by (auto simp: table_ok_def in_range_def)
      have "places (r # relocs) symbol = nat (reloc_offset r) # places relocs symbol"
        using True n sym by (simp add: places_def)
      then show ?thesis
        using 2(1) [OF n(1,2) sym o(1,2) refl] t 2(4) n sym o
        by (simp add: Let_def filled_step)
    qed
  qed
qed (simp add: table_ok_def)

lemma fill_symbol_ok:
  assumes "table_ok relocs (length insns) symbol" "symbol \<noteq> []"
  shows "tbpf_fill_symbol insns (Some relocs) symbol v =
    Inr (filled v (places relocs symbol) insns, length (places relocs symbol))"
  by (simp add: tbpf_fill_symbol_def fill_loop_ok [OF assms])

end
