(* ===== verification/Echo_Sockmap.thy ===== *)
theory Echo_Sockmap
  imports Echo Tbpf
begin

text \<open>
  \<open>2019-02-tcp-splice/echo-sockmap.c\<close> with the two programs of \<open>echo-sockmap-kern.c\<close>: an echo server that puts
  each connection into a map of sockets, where the programs attached to the map send every packet back, and
  waits until the connection ends.

  The theorem: each connection put into the map gets back what arrived on it, the map is empty between
  connections and no descriptor is left open; the number of bytes reported as sent is 0.
\<close>

section \<open>The programs in the kernel\<close>

text \<open>The parser returns the length of the message a packet holds.\<close>

definition prog_parser :: "bytes \<Rightarrow> int" where
  "prog_parser skb = int (length skb)"

text \<open>The socket of the map the message is redirected to, \<open>None\<close>: it is dropped.\<close>

definition prog_verdict :: "(nat \<Rightarrow> int option) \<Rightarrow> bytes \<Rightarrow> int option" where
  "prog_verdict slots skb = (let idx = 0 in slots idx)"

section \<open>State\<close>

text \<open>
  \<open>slots\<close>: the sockets in the map; \<open>echoed\<close>: the messages sent in the kernel, with the socket they were sent on;
  \<open>reports\<close>: the numbers printed for the connections that ended.
\<close>

record sockmap = bpf_net +
  slots :: "nat \<Rightarrow> int option"
  echoed :: "(int \<times> bytes) list"
  reports :: "(u64 \<times> u64) list"

record xtcp_info =
  tcpi_bytes_received :: u64
  tcpi_bytes_sent :: u64
  tcpi_bytes_retrans :: u64

text \<open>A connection: the packets that arrive until \<open>poll\<close> returns, and the results of the other calls.\<close>

record sockmap_conn = conn +
  update_result :: sys
  arrived :: "bytes list"
  error_result :: int
  info_result :: int
  info :: xtcp_info
  delete_result :: sys

definition start_sockmap :: sockmap where
  "start_sockmap = \<lparr>fds = [], bpf_calls = [], slots = Map.empty, echoed = [], reports = []\<rparr>"

definition EOPNOTSUPP :: int where "EOPNOTSUPP = 95"
definition EINVAL :: int where "EINVAL = 22"
definition BPF_ANY :: u64 where "BPF_ANY = 0"
definition BPF_MAP_TYPE_SOCKMAP :: nat where "BPF_MAP_TYPE_SOCKMAP = 15"
definition BPF_PROG_TYPE_SK_SKB :: nat where "BPF_PROG_TYPE_SK_SKB = 14"
definition BPF_SK_SKB_STREAM_PARSER :: nat where "BPF_SK_SKB_STREAM_PARSER = 4"
definition BPF_SK_SKB_STREAM_VERDICT :: nat where "BPF_SK_SKB_STREAM_VERDICT = 5"

definition KERNEL_VERSION :: "nat \<Rightarrow> nat \<Rightarrow> nat \<Rightarrow> u32" where
  "KERNEL_VERSION a b c = of_nat (a * 65536 + b * 256 + c)"

text \<open>Putting a socket into the map and taking it out, as far as the call succeeds; a closed socket leaves the map.\<close>

definition put_socket :: "int \<Rightarrow> int \<Rightarrow> int \<Rightarrow> (tcp_stop, sockmap, int) prog" where
  "put_socket sock_map fd r =
     bnd (tbpf_map_update_elem sock_map 0 fd BPF_ANY r) (\<lambda>r.
     andthen (update (\<lambda>st. if r = 0 then st\<lparr>slots := (slots st)(0 := Some fd)\<rparr> else st)) (ret r))"

definition take_socket :: "int \<Rightarrow> int \<Rightarrow> (tcp_stop, sockmap, int) prog" where
  "take_socket sock_map r =
     bnd (tbpf_map_delete_elem sock_map 0 r) (\<lambda>r.
     andthen (update (\<lambda>st. if r = 0 then st\<lparr>slots := (slots st)(0 := None)\<rparr> else st)) (ret r))"

definition without_socket :: "int \<Rightarrow> (nat \<Rightarrow> int option) \<Rightarrow> nat \<Rightarrow> int option" where
  "without_socket fd m i = (if m i = Some fd then None else m i)"

definition close_socket :: "int \<Rightarrow> (tcp_stop, sockmap, unit) prog" where
  "close_socket fd =
     andthen (close_fd fd)
       (update (\<lambda>st. st\<lparr>slots := without_socket fd (slots st)\<rparr>))"

text \<open>What the kernel does with the packets that arrive while the program is in \<open>poll\<close>.\<close>

fun poll_wait :: "bytes list \<Rightarrow> (tcp_stop, sockmap, unit) prog" where
  "poll_wait [] = ret ()"
| "poll_wait (skb # skbs) =
     andthen (update (\<lambda>st.
       let msg = take (nat (prog_parser skb)) skb in
       case prog_verdict (slots st) msg of
         None \<Rightarrow> st
       | Some fd \<Rightarrow> st\<lparr>echoed := echoed st @ [(fd, msg)]\<rparr>))
     (poll_wait skbs)"

section \<open>The server\<close>

text \<open>
  The second member of \<open>struct xtcp_info ta, ti = {}\<close> is the one set to 0, and the call fills the first: the
  number of bytes sent is taken from the one that stays 0.
\<close>

fun sockmap_loop :: "int \<Rightarrow> bool \<Rightarrow> sockmap_conn list \<Rightarrow> (tcp_stop, sockmap, unit) prog" where
  "sockmap_loop sock_map busy_poll [] = halt Blocked"
| "sockmap_loop sock_map busy_poll (c # cs) =
     bnd (net_accept (accepts c)) (\<lambda>(fd, client).
     andthen (set_busy_poll busy_poll (busy_result c))
     (bnd (put_socket sock_map fd (fst (update_result c))) (\<lambda>r.
     if r \<noteq> 0 then
       if snd (update_result c) = EOPNOTSUPP then andthen (close_socket fd) (sockmap_loop sock_map busy_poll cs)
       else halt Failure
     else
       andthen (poll_wait (arrived c))
       (andthen (expect (\<not> error_result c < 0))
       (let ti = \<lparr>tcpi_bytes_received = 0, tcpi_bytes_sent = 0, tcpi_bytes_retrans = 0\<rparr>; ta = info c in
       andthen (expect (\<not> info_result c < 0))
       (bnd (take_socket sock_map (fst (delete_result c))) (\<lambda>r.
       andthen (expect (r = 0 \<or> snd (delete_result c) = EINVAL))
       (andthen (close_socket fd)
       (andthen (update (\<lambda>st. st\<lparr>reports := reports st @ [(tcpi_bytes_received ta, tcpi_bytes_sent ti - tcpi_bytes_retrans ti)]\<rparr>))
         (sockmap_loop sock_map busy_poll cs))))))))))"

text \<open>The programs as they are in the object file, and the results of the calls that install them.\<close>

record sockmap_setup =
  parser_insns :: "bpf_insn list"
  verdict_insns :: "bpf_insn list"
  verdict_relocs :: "tbpf_reloc list"
  map_result :: int
  parser_results :: "int \<times> int"
  verdict_results :: "int \<times> int"
  attach_parser_result :: int
  attach_verdict_result :: int

definition load_sk_skb :: "bpf_insn list \<Rightarrow> int \<times> int \<Rightarrow> (tcp_stop, sockmap, int) prog" where
  "load_sk_skb insns rs =
     bnd (tbpf_load_program BPF_PROG_TYPE_SK_SKB insns (lit ''Dual BSD/GPL'') (KERNEL_VERSION 4 4 0) (16 * 1024)
       (fst rs) (snd rs)) (\<lambda>fd.
     andthen (expect (\<not> fd < 0)) (andthen (open_fd fd) (ret fd)))"

definition echo_sockmap_main :: "sockmap_setup \<Rightarrow> (u16 \<Rightarrow> bytes \<Rightarrow> bytes option) \<Rightarrow> (u16 \<Rightarrow> bytes \<Rightarrow> bytes option) \<Rightarrow>
    bytes list \<Rightarrow> socket_results \<Rightarrow> sockmap_conn list \<Rightarrow> (tcp_stop + unit) \<times> sockmap" where
  "echo_sockmap_main env pton ntop argv res cs =
     bnd (tbpf_create_map BPF_MAP_TYPE_SOCKMAP 4 4 2 0 (map_result env)) (\<lambda>sock_map.
     andthen (expect (\<not> sock_map < 0))
     (andthen (open_fd sock_map)
     (case tbpf_fill_symbol (verdict_insns env) (Some (verdict_relocs env)) (lit ''sock_map'') (word_of_int sock_map) of
        Inl e \<Rightarrow> halt e
      | Inr (insns, _) \<Rightarrow>
        bnd (load_sk_skb (parser_insns env) (parser_results env)) (\<lambda>bpf_parser.
        bnd (load_sk_skb insns (verdict_results env)) (\<lambda>bpf_verdict.
        bnd (tbpf_prog_attach bpf_parser sock_map BPF_SK_SKB_STREAM_PARSER 0 (attach_parser_result env)) (\<lambda>r.
        andthen (expect (\<not> r < 0))
        (bnd (tbpf_prog_attach bpf_verdict sock_map BPF_SK_SKB_STREAM_VERDICT 0 (attach_verdict_result env)) (\<lambda>r.
        andthen (expect (\<not> r < 0))
        (bnd (listen_on pton ntop argv res) (\<lambda>sd.
        sockmap_loop sock_map (length argv > 2) cs)))))))))) start_sockmap"

section \<open>One connection\<close>

definition served :: "sockmap_conn \<Rightarrow> bool" where
  "served c \<longleftrightarrow> fst (update_result c) = 0"

definition sockmap_fine :: "sockmap_conn \<Rightarrow> bool" where
  "sockmap_fine c \<longleftrightarrow> (if served c then error_result c \<ge> 0 \<and> info_result c \<ge> 0 \<and> (fst (delete_result c) = 0 \<or> snd (delete_result c) = EINVAL)
     else snd (update_result c) = EOPNOTSUPP)"

definition redirected :: "sockmap_conn \<Rightarrow> (int \<times> bytes) list" where
  "redirected c = (if served c then map (\<lambda>skb. (accepted_fd c, skb)) (arrived c) else [])"

definition calls_of :: "int \<Rightarrow> sockmap_conn \<Rightarrow> bpf_call list" where
  "calls_of sock_map c = Map_update sock_map 0 (accepted_fd c) BPF_ANY # (if served c then [Map_delete sock_map 0] else [])"

lemma without_socket_simps [simp]:
  "without_socket fd Map.empty = Map.empty" "without_socket fd [i \<mapsto> fd] = Map.empty"
  by (auto simp: without_socket_def fun_eq_iff)

lemma poll_wait_run:
  "slots st 0 = Some fd \<Longrightarrow> poll_wait skbs st = (Inr (), st\<lparr>echoed := echoed st @ map (\<lambda>skb. (fd, skb)) skbs\<rparr>)"
  by (induction skbs arbitrary: st) (simp_all add: prog_simps prog_parser_def prog_verdict_def Let_def)

lemma sockmap_loop_fine:
  assumes "all_fine sockmap_fine (\<lambda>_. []) (fds st) cs" "slots st = Map.empty"
  shows "\<exists>st'. sockmap_loop sock_map busy_poll cs st = (Inl Blocked, st') \<and> fds st' = fds st \<and> slots st' = Map.empty \<and>
    echoed st' = echoed st @ concat (map redirected cs) \<and>
    reports st' = reports st @ map (\<lambda>c. (tcpi_bytes_received (info c), 0)) (filter served cs) \<and>
    bpf_calls st' = bpf_calls st @ concat (map (calls_of sock_map) cs)"
  using assms
proof (induction cs arbitrary: st)
  case Nil
  then show ?case by (simp add: prog_simps)
next
  case (Cons c cs)
  let ?cd = "accepted_fd c"
  have c: "accept_fine (fds st) c" "sockmap_fine c" "all_fine sockmap_fine (\<lambda>_. []) (fds st) cs"
    using Cons.prems(1) by simp_all
  obtain ss where acc: "net_accept (accepts c) st = (Inr (?cd, ss), st\<lparr>fds := fds st @ [?cd]\<rparr>)"
    using net_accept_fine [of "accepts c" st] c(1) unfolding accept_fine_def accepted_fd_def by blast
  have busy: "set_busy_poll busy_poll (busy_result c) s = (Inr (), s)" for s :: sockmap
    using c(1) by (auto simp: set_busy_poll_def accept_fine_def prog_simps)
  have fd: "remove1 ?cd (fds st @ [?cd]) = fds st"
    using c(1) by (simp add: accept_fine_def remove1_append)
  show ?case
  proof (cases "served c")
    case False
    let ?s = "st\<lparr>bpf_calls := bpf_calls st @ [Map_update sock_map 0 ?cd BPF_ANY], slots := Map.empty\<rparr>"
    have "sockmap_loop sock_map busy_poll (c # cs) st = sockmap_loop sock_map busy_poll cs ?s"
      using acc busy False c(2) fd Cons.prems(2)
      by (simp add: prog_simps put_socket_def tbpf_defs served_def sockmap_fine_def close_socket_def close_fd_def)
    then show ?thesis using Cons.IH [of ?s] c(3) Cons.prems(2) False by (simp add: redirected_def calls_of_def)
  next
    case True
    let ?s = "st\<lparr>bpf_calls := bpf_calls st @ [Map_update sock_map 0 ?cd BPF_ANY, Map_delete sock_map 0],
      slots := Map.empty, echoed := echoed st @ redirected c, reports := reports st @ [(tcpi_bytes_received (info c), 0)]\<rparr>"
    have "sockmap_loop sock_map busy_poll (c # cs) st = sockmap_loop sock_map busy_poll cs ?s"
      using acc busy True c(2) fd Cons.prems(2)
      by (cases st) (auto simp: prog_simps put_socket_def take_socket_def tbpf_defs served_def sockmap_fine_def close_socket_def
          close_fd_def poll_wait_run Let_def redirected_def expect_def)
    then show ?thesis using Cons.IH [of ?s] c(3) Cons.prems(2) True by (simp add: calls_of_def)
  qed
qed

section \<open>The calls that install the programs\<close>

definition loaded :: "int \<times> int \<Rightarrow> int" where
  "loaded rs = (if fst rs \<ge> 0 then fst rs else snd rs)"

definition load_calls :: "bpf_insn list \<Rightarrow> int \<times> int \<Rightarrow> bpf_call list" where
  "load_calls insns rs =
     (let load = Prog_load BPF_PROG_TYPE_SK_SKB insns (lit ''Dual BSD/GPL'') 0x40400 in
      if fst rs \<ge> 0 then [load 0 0] else [load 0 0, load 16384 1])"

definition setup_fine :: "sockmap_setup \<Rightarrow> bool" where
  "setup_fine env \<longleftrightarrow> map_result env \<ge> 0 \<and> loaded (parser_results env) \<ge> 0 \<and> loaded (verdict_results env) \<ge> 0 \<and>
     attach_parser_result env \<ge> 0 \<and> attach_verdict_result env \<ge> 0 \<and>
     table_ok (verdict_relocs env) (length (verdict_insns env)) (lit ''sock_map'')"

text \<open>The verdict program is loaded with the map filled in, and both programs are attached to the map.\<close>

definition setup_calls :: "sockmap_setup \<Rightarrow> bpf_call list" where
  "setup_calls env =
     (let sock_map = map_result env;
          insns = filled (word_of_int sock_map) (places (verdict_relocs env) (lit ''sock_map'')) (verdict_insns env)
      in [Map_create BPF_MAP_TYPE_SOCKMAP 4 4 2 0] @ load_calls (parser_insns env) (parser_results env) @
         load_calls insns (verdict_results env) @
         [Prog_attach sock_map (loaded (parser_results env)) BPF_SK_SKB_STREAM_PARSER 0,
          Prog_attach sock_map (loaded (verdict_results env)) BPF_SK_SKB_STREAM_VERDICT 0])"

lemma load_sk_skb_run:
  assumes "loaded rs \<ge> 0"
  shows "load_sk_skb insns rs st =
    (Inr (loaded rs), st\<lparr>fds := fds st @ [loaded rs], bpf_calls := bpf_calls st @ load_calls insns rs\<rparr>)"
  using assms
  by (cases st; cases "fst rs \<ge> 0") (auto simp: load_sk_skb_def tbpf_defs loaded_def load_calls_def open_fd_def expect_def prog_simps
      KERNEL_VERSION_def Let_def)

lemma lit_sock_map: "lit ''sock_map'' \<noteq> []"
  by (simp add: lit_def)

section \<open>Theorem\<close>

text \<open>
  C31: when no call fails but as the program expects, it installs the two programs with the map filled in, and for
  each connection: everything that arrives after it is put into the map is sent back on it and on no other; it is
  taken out and closed, so that no descriptor is left open and the map is empty when the next is accepted. A
  connection that was closed before it could be put in is skipped. The number of bytes reported as received is
  that of the kernel, the number reported as sent is always 0.
\<close>

theorem echo_sockmap_echoes:
  assumes "inet_contract pton ntop" "2 \<le> length argv" "net_parse_sockaddr pton (argv ! 1) = Inr ss" "socket_fine res"
    and "setup_fine env" and "base = [map_result env, loaded (parser_results env), loaded (verdict_results env), socket_result res]"
    and "all_fine sockmap_fine (\<lambda>_. []) base cs"
  shows "\<exists>st. echo_sockmap_main env pton ntop argv res cs = (Inl Blocked, st) \<and> fds st = base \<and> slots st = Map.empty \<and>
    echoed st = concat (map redirected cs) \<and>
    reports st = map (\<lambda>c. (tcpi_bytes_received (info c), 0)) (filter served cs) \<and>
    bpf_calls st = setup_calls env @ concat (map (calls_of (map_result env)) cs)"
proof -
  let ?insns = "filled (word_of_int (map_result env)) (places (verdict_relocs env) (lit ''sock_map'')) (verdict_insns env)"
  let ?st = "start_sockmap\<lparr>fds := base, bpf_calls := setup_calls env\<rparr>"
  have f: "tbpf_fill_symbol (verdict_insns env) (Some (verdict_relocs env)) (lit ''sock_map'') (word_of_int (map_result env)) =
      Inr (?insns, length (places (verdict_relocs env) (lit ''sock_map'')))"
    using assms(5) by (intro fill_symbol_ok lit_sock_map) (simp add: setup_fine_def)
  have l: "loaded (parser_results env) \<ge> 0" "loaded (verdict_results env) \<ge> 0" "map_result env \<ge> 0"
    "attach_parser_result env \<ge> 0" "attach_verdict_result env \<ge> 0"
    using assms(5) by (simp_all add: setup_fine_def)
  have "echo_sockmap_main env pton ntop argv res cs = sockmap_loop (map_result env) (length argv > 2) cs ?st"
    using l f assms(6)
    by (simp add: echo_sockmap_main_def tbpf_create_map_def tbpf_prog_attach_def sys_bpf_def start_sockmap_def
        load_sk_skb_run listen_on_any [OF assms(1-4)] open_fd_def expect_def prog_simps setup_calls_def Let_def)
  moreover have "slots ?st = Map.empty" "fds ?st = base" by (simp_all add: start_sockmap_def)
  ultimately show ?thesis
    using sockmap_loop_fine [of ?st cs "map_result env" "length argv > 2"] assms(7) by (auto simp: start_sockmap_def)
qed

text \<open>
  The verdict program loads the map in its first instruction; the first connection is closed before it is put in,
  on the second two packets arrive.
\<close>

definition some_setup :: sockmap_setup where
  "some_setup =
     (let load_map = \<lparr>code = 0x18, dst_reg = 2, src_reg = 0, off = 0, imm = 0\<rparr> in
      \<lparr>parser_insns = [], verdict_insns = [load_map],
       verdict_relocs = [\<lparr>reloc_name = Some (lit ''sock_map''), reloc_type = 1, reloc_offset = 0\<rparr>,
                         \<lparr>reloc_name = None, reloc_type = 0, reloc_offset = 0\<rparr>],
       map_result = 5, parser_results = (6, 0), verdict_results = (-1, 7),
       attach_parser_result = 0, attach_verdict_result = 0\<rparr>)"

definition some_sockmap_conn :: "int \<Rightarrow> sockmap_conn" where
  "some_sockmap_conn r = \<lparr>accepts = [((8, 0), replicate SS_SIZE 0, 16)], busy_result = (0, 0),
     update_result = (r, EOPNOTSUPP), arrived = [[104], [105, 33]], error_result = 0, info_result = 0,
     info = \<lparr>tcpi_bytes_received = 3, tcpi_bytes_sent = 3, tcpi_bytes_retrans = 0\<rparr>, delete_result = (-1, EINVAL)\<rparr>"

theorem echo_sockmap_echoes_witness:
  "\<exists>st. echo_sockmap_main some_setup plain_pton plain_ntop some_argv some_sockets
       [some_sockmap_conn (-1), some_sockmap_conn 0] = (Inl Blocked, st) \<and>
     fds st = [5, 6, 7, 3] \<and> echoed st = [(8, [104]), (8, [105, 33])] \<and> reports st = [(3, 0)]"
proof -
  let ?cs = "[some_sockmap_conn (-1), some_sockmap_conn 0]" and ?base = "[5, 6, 7, 3 :: int]"
  have fine: "setup_fine some_setup"
    by (simp add: setup_fine_def some_setup_def loaded_def table_ok_def names_def lit_def Let_def)
  have base: "?base = [map_result some_setup, loaded (parser_results some_setup), loaded (verdict_results some_setup),
      socket_result some_sockets]"
    by (simp add: some_setup_def loaded_def some_listen Let_def)
  have "all_fine sockmap_fine (\<lambda>_. []) ?base ?cs"
    by (simp add: accept_fine_def sockmap_fine_def served_def some_sockmap_conn_def accepted_fd_def)
  from echo_sockmap_echoes [OF plain_contract some_listen(1-3) fine base this] show ?thesis
    by (auto simp: redirected_def served_def some_sockmap_conn_def accepted_fd_def)
qed

end
