(* ===== verification/Burst.thy ===== *)
theory Burst
  imports Net "HOL-Library.Sublist"
begin

text \<open>
  \<open>2019-02-tcp-splice/test-burst.c\<close>: the client of the echo servers. It sends bursts of bytes with scattered
  writes and reads them back. Reading the size of a burst with \<open>strtod\<close> is a parameter; a round of the loop
  is given by the results of \<open>sendmsg\<close> and \<open>recvmsg\<close>.

  The theorems: the vectors of \<open>trunc_iov\<close> ask for exactly the bytes wanted; the counters never wrap, and a burst
  that the loop ends by itself was sent and received completely; it ends after as many rounds as it has bytes.
\<close>

section \<open>Scattered buffers\<close>

text \<open>The lengths in an array of \<open>struct iovec\<close>, and the number of entries to use.\<close>

function trunc_loop :: "int list \<Rightarrow> nat \<Rightarrow> nat \<Rightarrow> int \<Rightarrow> int \<Rightarrow> tcp_stop + int list \<times> nat" where
  "trunc_loop iov i iov_cnt b_sz desired =
     (if i < iov_cnt then
        if length iov \<le> i then Inl Fault
        else
          let m = min desired b_sz; iov = iov[i := m]; desired = desired - m in
          if desired = 0 then Inr (iov, i + 1) else trunc_loop iov (i + 1) iov_cnt b_sz desired
      else Inr (iov, iov_cnt))"
  by auto
termination by (relation "measure (\<lambda>(_, i, n, _, _). n - i)") auto

declare trunc_loop.simps [simp del]

definition trunc_iov :: "int list \<Rightarrow> nat \<Rightarrow> int \<Rightarrow> int \<Rightarrow> tcp_stop + int list \<times> nat" where
  "trunc_iov iov iov_cnt b_sz desired = trunc_loop iov 0 iov_cnt b_sz desired"

section \<open>The client\<close>

text \<open>The bytes sent and received so far, the lengths given to each call and its result, the bursts reported.\<close>

record burst = net +
  tx_total :: nat
  rx_total :: nat
  calls :: "(int list \<times> int) list"
  reported :: nat

record burst_round =
  send_result :: sys
  recv_result :: sys

definition LIMIT :: u64 where "LIMIT = 128 * 1024 * 1024"
definition MSG_DONTWAIT :: u32 where "MSG_DONTWAIT = 0x40"
definition MSG_WAITALL :: u32 where "MSG_WAITALL = 0x100"

text \<open>How a part of a round goes on: with the next part, at the top of the loop, or behind the loop.\<close>

datatype 'a flow = Next 'a | Continue | Break

definition ask :: "int list \<Rightarrow> nat \<Rightarrow> u64 \<Rightarrow> int \<Rightarrow> (tcp_stop, burst, int list) prog" where
  "ask iov iov_cnt bytes n =
     (case trunc_iov iov iov_cnt (int BUFFER_SIZE) (uint (min LIMIT bytes)) of
        Inl e \<Rightarrow> halt e
      | Inr (iov, d) \<Rightarrow> andthen (update (\<lambda>st. st\<lparr>calls := calls st @ [(take d iov, n)]\<rparr>)) (ret iov))"

definition send_part :: "int list \<Rightarrow> nat \<Rightarrow> u64 \<Rightarrow> sys \<Rightarrow> (tcp_stop, burst, int list \<times> u64 flow) prog" where
  "send_part tx_iov iov_cnt tx_bytes res =
     (if tx_bytes \<noteq> 0 then
        bnd (ask tx_iov iov_cnt tx_bytes (fst res)) (\<lambda>tx_iov.
        let (n, errno) = res in
        if n < 0 then
          if errno = EINTR then ret (tx_iov, Continue)
          else if errno = ECONNRESET then ret (tx_iov, Break)
          else if errno = EPIPE then ret (tx_iov, Break)
          else if errno = EAGAIN then ret (tx_iov, Next tx_bytes)
          else halt Failure
        else if n = 0 then halt Failure
        else
          andthen (update (\<lambda>st. st\<lparr>tx_total := tx_total st + nat n\<rparr>))
            (ret (tx_iov, Next (tx_bytes - word_of_int n))))
      else ret (tx_iov, Next tx_bytes))"

definition recv_part :: "int list \<Rightarrow> nat \<Rightarrow> u64 \<Rightarrow> u64 \<Rightarrow> sys \<Rightarrow> (tcp_stop, burst, int list \<times> u64 flow) prog" where
  "recv_part rx_iov iov_cnt tx_bytes rx_bytes res =
     (if rx_bytes \<noteq> 0 then
        let flags = (if tx_bytes = 0 then MSG_WAITALL else MSG_DONTWAIT) in
        bnd (ask rx_iov iov_cnt rx_bytes (fst res)) (\<lambda>rx_iov.
        let (n, errno) = res in
        if n < 0 then
          if flags AND MSG_DONTWAIT \<noteq> 0 \<and> errno = EAGAIN then ret (rx_iov, Continue)
          else halt Failure
        else if n = 0 then halt Failure
        else
          andthen (update (\<lambda>st. st\<lparr>rx_total := rx_total st + nat n\<rparr>))
            (ret (rx_iov, Next (rx_bytes - word_of_int n))))
      else ret (rx_iov, Next rx_bytes))"

fun burst_loop :: "nat \<Rightarrow> int list \<Rightarrow> int list \<Rightarrow> u64 \<Rightarrow> u64 \<Rightarrow> burst_round list \<Rightarrow>
    (tcp_stop, burst, int list \<times> int list) prog" where
  "burst_loop iov_cnt tx_iov rx_iov tx_bytes rx_bytes rs =
     (if tx_bytes = 0 \<and> rx_bytes = 0 then ret (tx_iov, rx_iov)
      else
        (case rs of
           [] \<Rightarrow> halt Blocked
         | r # rs \<Rightarrow>
             bnd (send_part tx_iov iov_cnt tx_bytes (send_result r)) (\<lambda>(tx_iov, flow).
             (case flow of
                Break \<Rightarrow> ret (tx_iov, rx_iov)
              | Continue \<Rightarrow> burst_loop iov_cnt tx_iov rx_iov tx_bytes rx_bytes rs
              | Next tx_bytes \<Rightarrow>
                  bnd (recv_part rx_iov iov_cnt tx_bytes rx_bytes (recv_result r)) (\<lambda>(rx_iov, flow).
                  (case flow of
                     Break \<Rightarrow> ret (tx_iov, rx_iov)
                   | Continue \<Rightarrow> burst_loop iov_cnt tx_iov rx_iov tx_bytes rx_bytes rs
                   | Next rx_bytes \<Rightarrow> burst_loop iov_cnt tx_iov rx_iov tx_bytes rx_bytes rs))))))"

declare burst_loop.simps [simp del]







section \<open>The vectors\<close>

lemma trunc_loop_exact:
  assumes "i < cnt" "cnt \<le> length iov" "0 < desired" "0 < b_sz" "desired \<le> int (cnt - i) * b_sz"
  shows "\<exists>iov' d. trunc_loop iov i cnt b_sz desired = Inr (iov', d) \<and> length iov' = length iov \<and> i < d \<and> d \<le> cnt \<and>
    take i iov' = take i iov \<and> sum_list (drop i (take d iov')) = desired \<and>
    (\<forall>m \<in> set (drop i (take d iov')). 0 < m \<and> m \<le> b_sz)"
  using assms
proof (induction iov i cnt b_sz desired rule: trunc_loop.induct)
  case (1 iov i cnt b_sz desired)
  let ?m = "min desired b_sz"
  let ?iov = "iov[i := ?m]"
  have m: "0 < ?m" "?m \<le> b_sz" using "1.prems" by auto
  have i: "i < length iov" using "1.prems" by simp
  show ?case
  proof (cases "desired = ?m")
    case True
    then have "trunc_loop iov i cnt b_sz desired = Inr (?iov, i + 1)"
      using "1.prems" i by (simp add: trunc_loop.simps [of iov] Let_def)
    moreover have "drop i (take (i + 1) ?iov) = [?m]" using i by (simp add: take_Suc_conv_app_nth)
    ultimately show ?thesis using "1.prems" m True by (intro exI [of _ ?iov] exI [of _ "i + 1"]) simp
  next
    case False
    then have b: "b_sz < desired" "?m = b_sz" by simp_all
    have d: "int (cnt - i) = int (cnt - (i + 1)) + 1" using "1.prems"(1) by linarith
    have rest: "desired - b_sz \<le> int (cnt - (i + 1)) * b_sz"
      using "1.prems"(5) unfolding d by (simp add: distrib_right)
    then have i1: "i + 1 < cnt" using b(1) by (cases "i + 1 < cnt") simp_all
    have "\<exists>iov' d. trunc_loop ?iov (i + 1) cnt b_sz (desired - ?m) = Inr (iov', d) \<and> length iov' = length ?iov \<and>
        i + 1 < d \<and> d \<le> cnt \<and> take (i + 1) iov' = take (i + 1) ?iov \<and>
        sum_list (drop (i + 1) (take d iov')) = desired - ?m \<and>
        (\<forall>m \<in> set (drop (i + 1) (take d iov')). 0 < m \<and> m \<le> b_sz)"
      using "1.IH" [OF "1.prems"(1) _ refl refl refl] i i1 b rest "1.prems" False by simp
    then obtain iov' d where IH: "trunc_loop ?iov (i + 1) cnt b_sz (desired - ?m) = Inr (iov', d)"
      "length iov' = length iov" "i + 1 < d" "d \<le> cnt" "take (i + 1) iov' = take (i + 1) ?iov"
      "sum_list (drop (i + 1) (take d iov')) = desired - ?m"
      "\<forall>m \<in> set (drop (i + 1) (take d iov')). 0 < m \<and> m \<le> b_sz"
      by auto
    have "trunc_loop iov i cnt b_sz desired = Inr (iov', d)"
      using IH(1) "1.prems" i False b by (simp add: trunc_loop.simps [of iov] Let_def)
    moreover have "iov' ! i = ?m"
      using arg_cong [OF IH(5), of "\<lambda>xs. xs ! i"] i by simp
    then have "drop i (take d iov') = ?m # drop (i + 1) (take d iov')"
      using IH(2-4) "1.prems"(2) Cons_nth_drop_Suc [of i "take d iov'"] by simp
    moreover have "take i iov' = take i iov"
      using arg_cong [OF IH(5), of "take i"] by simp
    ultimately show ?thesis
      using IH(2-4,6,7) m by (intro exI [of _ iov'] exI [of _ d]) simp
  qed
qed

definition room :: "nat \<Rightarrow> u64 \<Rightarrow> bool" where
  "room cnt bytes \<longleftrightarrow> unat bytes \<le> cnt * BUFFER_SIZE"

lemma ask_ok:
  assumes "length iov = cnt" "bytes \<noteq> 0" "room cnt bytes"
  shows "\<exists>iov' lens. ask iov cnt bytes n st = (Inr iov', st\<lparr>calls := calls st @ [(lens, n)]\<rparr>) \<and> length iov' = cnt \<and>
    sum_list lens = uint (min LIMIT bytes)"
proof -
  let ?w = "uint (min LIMIT bytes)"
  have "min LIMIT bytes \<noteq> 0" using assms(2) by (auto simp: min_def LIMIT_def)
  then have w: "0 < ?w" by (simp add: word_greater_zero_iff uint_0_iff less_le)
  have "int (unat bytes) \<le> int (cnt * BUFFER_SIZE)" using assms(3) unfolding room_def of_nat_le_iff .
  moreover have "?w \<le> uint bytes" by (simp flip: word_le_def)
  moreover have "uint bytes = int (unat bytes)" by simp
  ultimately have "?w \<le> int cnt * int BUFFER_SIZE" unfolding of_nat_mult by linarith
  then have le: "?w \<le> int (cnt - 0) * int BUFFER_SIZE" by simp
  then have "0 < cnt" using w by (cases cnt) simp_all
  then obtain iov' d where t: "trunc_loop iov 0 cnt (int BUFFER_SIZE) ?w = Inr (iov', d)" "length iov' = length iov"
    "sum_list (drop 0 (take d iov')) = ?w"
    using trunc_loop_exact [of 0 cnt iov ?w "int BUFFER_SIZE"] w le assms(1) by (auto simp: BUFFER_SIZE_def)
  then show ?thesis using assms(1)
    by (intro exI [of _ iov'] exI [of _ "take d iov'"]) (simp add: ask_def trunc_iov_def prog_simps)
qed

section \<open>A round\<close>

text \<open>The kernel moves no more bytes than it was given room for.\<close>

definition kernel_ok :: "burst \<Rightarrow> bool" where
  "kernel_ok st \<longleftrightarrow> (\<forall>(lens, n) \<in> set (calls st). n \<le> sum_list lens)"

lemma kernel_ok_prefix: "prefix (calls st) (calls st') \<Longrightarrow> kernel_ok st' \<Longrightarrow> kernel_ok st"
  using set_mono_prefix by (auto simp: kernel_ok_def)

definition reset :: "sys \<Rightarrow> bool" where
  "reset res \<longleftrightarrow> fst res < 0 \<and> (snd res = ECONNRESET \<or> snd res = EPIPE)"

lemma moved:
  assumes "0 < n" "n \<le> uint (min LIMIT bytes)"
  shows "unat (bytes - word_of_int n) + nat n = unat bytes"
proof -
  have "uint (min LIMIT bytes) \<le> uint bytes" by (simp flip: word_le_def)
  then have n: "n \<le> uint bytes" using assms(2) by linarith
  moreover have "uint bytes < 2 ^ 64" using unsigned_less [of bytes] by simp
  ultimately have u: "uint (word_of_int n :: u64) = n" using assms(1) by (simp add: uint_word_of_int take_bit_int_eq_self)
  then have "(word_of_int n :: u64) \<le> bytes" using n by (simp add: word_le_def)
  then have "unat (bytes - word_of_int n) = unat bytes - unat (word_of_int n :: u64)" by (rule unat_diff_le)
  moreover have "unat (word_of_int n :: u64) = nat n" using u by (metis unat_eq_nat_uint)
  moreover have "nat n \<le> unat bytes" using n by (simp add: nat_le_iff)
  ultimately show ?thesis by simp
qed

lemma room_mono: "room cnt bytes \<Longrightarrow> unat bytes' \<le> unat bytes \<Longrightarrow> room cnt bytes'"
  by (simp add: room_def)

lemma send_part_ok:
  assumes run: "send_part iov cnt tx res st = (r, st1)" and iov: "length iov = cnt" "room cnt tx"
  shows "prefix (calls st) (calls st1) \<and> (rx_total st1, reported st1, fds st1) = (rx_total st, reported st, fds st) \<and>
    r \<noteq> Inl Fault \<and> r \<noteq> Inl Blocked \<and> (kernel_ok st1 \<longrightarrow>
      (case r of
         Inl _ \<Rightarrow> tx_total st1 = tx_total st \<and> fst res \<le> 0
       | Inr (iov', Next tx') \<Rightarrow> length iov' = cnt \<and> tx_total st1 + unat tx' = tx_total st + unat tx \<and>
           unat tx' \<le> unat tx \<and> (tx \<noteq> 0 \<longrightarrow> 0 < fst res \<longrightarrow> unat tx' < unat tx)
       | Inr (iov', Continue) \<Rightarrow> length iov' = cnt \<and> tx_total st1 = tx_total st \<and> fst res < 0
       | Inr (iov', Break) \<Rightarrow> length iov' = cnt \<and> tx_total st1 = tx_total st \<and> reset res))"
proof (cases "tx = 0")
  case True
  then show ?thesis using run iov by (auto simp: send_part_def prog_simps)
next
  case False
  obtain n e where res: "res = (n, e)" by force
  obtain iov' lens where a: "ask iov cnt tx n st = (Inr iov', st\<lparr>calls := calls st @ [(lens, n)]\<rparr>)"
    "length iov' = cnt" "sum_list lens = uint (min LIMIT tx)"
    using ask_ok [OF iov(1) False iov(2)] by blast
  show ?thesis
  proof (cases "n > 0")
    case True
    then have r: "r = Inr (iov', Next (tx - word_of_int n))"
      and st1: "st1 = st\<lparr>calls := calls st @ [(lens, n)], tx_total := tx_total st + nat n\<rparr>"
      using run False a res by (simp_all add: send_part_def prog_simps)
    have "kernel_ok st1 \<Longrightarrow> n \<le> uint (min LIMIT tx)" using a(3) st1 by (auto simp: kernel_ok_def)
    then show ?thesis using moved [OF True, of tx] True a(2) r st1 res by auto
  next
    case neg: False
    then show ?thesis using run False a res
      by (auto simp: send_part_def prog_simps reset_def split: if_splits)
  qed
qed

lemma recv_part_ok:
  assumes run: "recv_part iov cnt tx rx res st = (r, st1)" and iov: "length iov = cnt" "room cnt rx"
  shows "prefix (calls st) (calls st1) \<and> (tx_total st1, reported st1, fds st1) = (tx_total st, reported st, fds st) \<and>
    r \<noteq> Inl Fault \<and> r \<noteq> Inl Blocked \<and> (kernel_ok st1 \<longrightarrow>
      (case r of
         Inl _ \<Rightarrow> rx_total st1 = rx_total st \<and> fst res \<le> 0
       | Inr (iov', Next rx') \<Rightarrow> length iov' = cnt \<and> rx_total st1 + unat rx' = rx_total st + unat rx \<and>
           unat rx' \<le> unat rx \<and> (rx \<noteq> 0 \<longrightarrow> unat rx' < unat rx)
       | Inr (iov', Continue) \<Rightarrow> length iov' = cnt \<and> rx_total st1 = rx_total st \<and> fst res < 0
       | Inr (iov', Break) \<Rightarrow> False))"
proof (cases "rx = 0")
  case True
  then show ?thesis using run iov by (auto simp: recv_part_def prog_simps)
next
  case False
  obtain n e where res: "res = (n, e)" by force
  obtain iov' lens where a: "ask iov cnt rx n st = (Inr iov', st\<lparr>calls := calls st @ [(lens, n)]\<rparr>)"
    "length iov' = cnt" "sum_list lens = uint (min LIMIT rx)"
    using ask_ok [OF iov(1) False iov(2)] by blast
  show ?thesis
  proof (cases "n > 0")
    case True
    then have r: "r = Inr (iov', Next (rx - word_of_int n))"
      and st1: "st1 = st\<lparr>calls := calls st @ [(lens, n)], rx_total := rx_total st + nat n\<rparr>"
      using run False a res by (simp_all add: recv_part_def prog_simps)
    have "kernel_ok st1 \<Longrightarrow> n \<le> uint (min LIMIT rx)" using a(3) st1 by (auto simp: kernel_ok_def)
    then show ?thesis using moved [OF True, of rx] True a(2) r st1 res by auto
  next
    case neg: False
    then show ?thesis using run False a res
      by (auto simp: recv_part_def prog_simps Let_def split: if_splits)
  qed
qed

section \<open>A burst\<close>

text \<open>Rounds that move bytes both ways, and rounds that are interrupted at once.\<close>

definition transfers :: "burst_round \<Rightarrow> bool" where
  "transfers r \<longleftrightarrow> fst (send_result r) > 0 \<and> fst (recv_result r) > 0"

definition retries :: "burst_round \<Rightarrow> bool" where
  "retries r \<longleftrightarrow> fst (send_result r) < 0 \<and> snd (send_result r) = EINTR"

text \<open>The log of calls only grows.\<close>

lemma ask_calls: "ask iov cnt bytes n st = (r, st') \<Longrightarrow> prefix (calls st) (calls st')"
  by (auto simp: ask_def prog_simps split: sum.splits)

lemma send_part_calls:
  assumes "send_part iov cnt tx res st = (r, st')"
  shows "prefix (calls st) (calls st')"
proof -
  obtain ra sa where a: "ask iov cnt tx (fst res) st = (ra, sa)" by force
  show ?thesis using assms a ask_calls [OF a]
    by (cases res; cases ra) (auto simp: send_part_def prog_simps split: if_splits)
qed

lemma recv_part_calls:
  assumes "recv_part iov cnt tx rx res st = (r, st')"
  shows "prefix (calls st) (calls st')"
proof -
  obtain ra sa where a: "ask iov cnt rx (fst res) st = (ra, sa)" by force
  show ?thesis using assms a ask_calls [OF a]
    by (cases res; cases ra) (auto simp: recv_part_def prog_simps Let_def split: if_splits)
qed

text \<open>One round: the loop stops in it, leaves, or goes on with other counters.\<close>

lemma burst_loop_round:
  assumes "burst_loop cnt txi rxi tx rx (x # rs) st = (r, st')" "\<not> (tx = 0 \<and> rx = 0)"
  obtains (stop) e st1 where "send_part txi cnt tx (send_result x) st = (Inl e, st1)" "r = Inl e" "st' = st1"
  | (leave) txi' where "send_part txi cnt tx (send_result x) st = (Inr (txi', Break), st')" "r = Inr (txi', rxi)"
  | (again) txi' st1 where "send_part txi cnt tx (send_result x) st = (Inr (txi', Continue), st1)"
      "burst_loop cnt txi' rxi tx rx rs st1 = (r, st')"
  | (recv) txi' tx' st1 ra st2 where "send_part txi cnt tx (send_result x) st = (Inr (txi', Next tx'), st1)"
      "recv_part rxi cnt tx' rx (recv_result x) st1 = (ra, st2)"
      "case ra of Inl e \<Rightarrow> r = Inl e \<and> st' = st2
        | Inr (rxi', Break) \<Rightarrow> r = Inr (txi', rxi') \<and> st' = st2
        | Inr (rxi', Continue) \<Rightarrow> burst_loop cnt txi' rxi' tx' rx rs st2 = (r, st')
        | Inr (rxi', Next rx') \<Rightarrow> burst_loop cnt txi' rxi' tx' rx' rs st2 = (r, st')"
proof -
  obtain s1 st1 where s1: "send_part txi cnt tx (send_result x) st = (s1, st1)" by force
  show ?thesis
  proof (cases s1)
    case (Inl e)
    then show ?thesis using assms s1 stop
      by (auto simp: burst_loop.simps [of _ _ _ _ _ "x # rs"] bnd_run(1) split: if_splits)
  next
    case (Inr v)
    obtain txi' fl where v: "v = (txi', fl)" by force
    have run: "(case fl of Break \<Rightarrow> ret (txi', rxi) | Continue \<Rightarrow> burst_loop cnt txi' rxi tx rx rs
        | Next tx' \<Rightarrow> bnd (recv_part rxi cnt tx' rx (recv_result x)) (\<lambda>(rxi', fl).
            (case fl of Break \<Rightarrow> ret (txi', rxi') | Continue \<Rightarrow> burst_loop cnt txi' rxi' tx' rx rs
             | Next rx' \<Rightarrow> burst_loop cnt txi' rxi' tx' rx' rs))) st1 = (r, st')"
      using assms s1 Inr v by (simp add: burst_loop.simps [of _ _ _ _ _ "x # rs"] bnd_run(1) split: if_splits)
    show ?thesis
    proof (cases fl)
      case Break
      then show ?thesis using leave [of txi'] run s1 Inr v by (simp add: prog_simps)
    next
      case Continue
      then show ?thesis using again [of txi' st1] run s1 Inr v by simp
    next
      case (Next tx')
      obtain ra st2 where ra: "recv_part rxi cnt tx' rx (recv_result x) st1 = (ra, st2)" by force
      then show ?thesis using recv [of txi' tx' st1 ra st2] run s1 Inr v Next
        by (auto simp: bnd_run(1) prog_run split: sum.splits flow.splits)
    qed
  qed
qed

lemma burst_loop_calls:
  assumes "burst_loop cnt txi rxi tx rx rs st = (r, st')"
  shows "prefix (calls st) (calls st')"
  using assms
proof (induction rs arbitrary: txi rxi tx rx st)
  case Nil
  then show ?case by (auto simp: burst_loop.simps [of _ _ _ _ _ "[]"] prog_simps split: if_splits)
next
  case (Cons x rs)
  show ?case
  proof (cases "tx = 0 \<and> rx = 0")
    case True
    then show ?thesis using Cons.prems by (auto simp: burst_loop.simps [of _ _ _ 0 0] prog_simps)
  next
    case False
    from Cons.prems False show ?thesis
    proof (cases rule: burst_loop_round)
      case (recv txi' tx' st1 ra st2)
      have p: "prefix (calls st) (calls st2)"
        using send_part_calls [OF recv(1)] recv_part_calls [OF recv(2)] prefix_order.trans by blast
      have "prefix (calls st2) (calls st')"
        using recv(3) Cons.IH by (cases ra) (auto split: flow.splits prod.splits)
      then show ?thesis using p prefix_order.trans by blast
    next
      case (again txi' st1)
      then show ?thesis using send_part_calls [OF again(1)] Cons.IH [OF again(2)] prefix_order.trans by blast
    qed (use send_part_calls in blast)+
  qed
qed

text \<open>What a loop does when the kernel keeps its contract: the counters, the way it ends, the rounds it needs.\<close>

definition outcome :: "nat \<Rightarrow> u64 \<Rightarrow> u64 \<Rightarrow> burst_round list \<Rightarrow> burst \<Rightarrow> tcp_stop + int list \<times> int list \<Rightarrow> burst \<Rightarrow> bool"
  where
  "outcome cnt tx rx rs st r st' \<longleftrightarrow>
     (reported st', fds st') = (reported st, fds st) \<and> r \<noteq> Inl Fault \<and>
     tx_total st \<le> tx_total st' \<and> tx_total st' \<le> tx_total st + unat tx \<and>
     rx_total st \<le> rx_total st' \<and> rx_total st' \<le> rx_total st + unat rx \<and>
     (\<forall>x. r = Inr x \<longrightarrow> length (fst x) = cnt \<and> length (snd x) = cnt \<and>
       (list_ex (\<lambda>r. reset (send_result r)) rs \<or>
        tx_total st' = tx_total st + unat tx \<and> rx_total st' = rx_total st + unat rx)) \<and>
     (r = Inl Blocked \<longrightarrow> list_all (\<lambda>r. transfers r \<or> retries r) rs \<longrightarrow>
       length (filter transfers rs) < max (unat tx) (unat rx)) \<and>
     (r = Inl Failure \<longrightarrow> \<not> list_all transfers rs)"

lemma outcome_step:
  assumes "outcome cnt tx' rx' rs st1 r st'" "(reported st1, fds st1) = (reported st, fds st)"
    and "tx_total st1 + unat tx' = tx_total st + unat tx" "unat tx' \<le> unat tx"
    and "rx_total st1 + unat rx' = rx_total st + unat rx" "unat rx' \<le> unat rx"
    and "transfers x \<Longrightarrow> max (unat tx') (unat rx') < max (unat tx) (unat rx)"
  shows "outcome cnt tx rx (x # rs) st r st'"
proof -
  have "length (filter transfers (x # rs)) < max (unat tx) (unat rx)"
    if "length (filter transfers rs) < max (unat tx') (unat rx')"
    using that assms(4,6,7) by (cases "transfers x") auto
  then show ?thesis using assms(1-6) unfolding outcome_def by auto
qed

lemma burst_loop_outcome:
  assumes "burst_loop cnt txi rxi tx rx rs st = (r, st')" "kernel_ok st'"
    "length txi = cnt" "length rxi = cnt" "room cnt tx" "room cnt rx"
  shows "outcome cnt tx rx rs st r st'"
  using assms
proof (induction rs arbitrary: txi rxi tx rx st)
  case Nil
  have "\<not> (tx = 0 \<and> rx = 0) \<Longrightarrow> 0 < max (unat tx) (unat rx)" by (auto simp: less_max_iff_disj unat_gt_0)
  then show ?case using Nil
    by (auto simp: burst_loop.simps [of _ _ _ _ _ "[]"] prog_simps outcome_def split: if_splits)
next
  case (Cons x rs)
  show ?case
  proof (cases "tx = 0 \<and> rx = 0")
    case True
    then show ?thesis using Cons.prems by (auto simp: burst_loop.simps [of _ _ _ 0 0] prog_simps outcome_def)
  next
    case work: False
    from Cons.prems(1) work show ?thesis
    proof (cases rule: burst_loop_round)
      case (stop e st1)
      then show ?thesis
        using send_part_ok [OF stop(1) Cons.prems(3,5)] Cons.prems(2) by (auto simp: outcome_def transfers_def)
    next
      case (leave txi')
      then show ?thesis
        using send_part_ok [OF leave(1) Cons.prems(3,5)] Cons.prems(2,4) by (auto simp: outcome_def)
    next
      case (again txi' st1)
      have k: "kernel_ok st1" using kernel_ok_prefix [OF burst_loop_calls [OF again(2)] Cons.prems(2)] .
      have s: "(reported st1, fds st1) = (reported st, fds st)" "tx_total st1 = tx_total st" "rx_total st1 = rx_total st"
        "length txi' = cnt" "\<not> transfers x"
        using send_part_ok [OF again(1) Cons.prems(3,5)] k by (auto simp: transfers_def)
      show ?thesis
        using outcome_step [OF Cons.IH [OF again(2) Cons.prems(2) s(4) Cons.prems(4-6)] s(1), of tx rx x] s by simp
    next
      case (recv txi' tx' st1 ra st2)
      note R = recv_part_ok [OF recv(2) Cons.prems(4,6)]
      have "prefix (calls st2) (calls st')"
        using recv(3) burst_loop_calls by (cases ra) (auto split: flow.splits prod.splits)
      then have k2: "kernel_ok st2" using kernel_ok_prefix Cons.prems(2) by blast
      then have k1: "kernel_ok st1" using kernel_ok_prefix [of st1 st2] R by blast
      have s: "(reported st1, fds st1) = (reported st, fds st)" "rx_total st1 = rx_total st" "length txi' = cnt"
        "tx_total st1 + unat tx' = tx_total st + unat tx" "unat tx' \<le> unat tx"
        "tx \<noteq> 0 \<Longrightarrow> 0 < fst (send_result x) \<Longrightarrow> unat tx' < unat tx"
        using send_part_ok [OF recv(1) Cons.prems(3,5)] k1 by auto
      have same: "(reported st2, fds st2) = (reported st, fds st)" "tx_total st2 = tx_total st1" using R s(1) by auto
      have room: "room cnt tx'" using room_mono [OF Cons.prems(5) s(5)] .
      consider (stop) e where "ra = Inl e" | (fin) l where "ra = Inr (l, Break)" | (more) l where "ra = Inr (l, Continue)"
        | (next_rx) l rx' where "ra = Inr (l, Next rx')"
        by (metis flow.exhaust prod.exhaust sum.exhaust)
      then show ?thesis
      proof cases
        case stop
        then show ?thesis using recv(3) R k2 s same by (auto simp: outcome_def transfers_def)
      next
        case fin
        then show ?thesis using R k2 by simp
      next
        case more
        then have m: "burst_loop cnt txi' l tx' rx rs st2 = (r, st')" "length l = cnt" "rx_total st2 = rx_total st"
          "\<not> transfers x"
          using recv(3) R k2 s(2) by (auto simp: transfers_def)
        show ?thesis
          using outcome_step [OF Cons.IH [OF m(1) Cons.prems(2) s(3) m(2) room Cons.prems(6)] same(1), of tx rx x] m(3,4) s same(2)
          by simp
      next
        case next_rx
        then have m: "burst_loop cnt txi' l tx' rx' rs st2 = (r, st')" "length l = cnt"
          "rx_total st2 + unat rx' = rx_total st + unat rx" "unat rx' \<le> unat rx" "rx \<noteq> 0 \<Longrightarrow> unat rx' < unat rx"
          using recv(3) R k2 s(2) by auto
        have r': "room cnt rx'" using room_mono [OF Cons.prems(6) m(4)] .
        have "max (unat tx') (unat rx') < max (unat tx) (unat rx)" if "transfers x"
        proof -
          have t: "tx \<noteq> 0 \<Longrightarrow> unat tx' < unat tx" using s(6) that by (simp add: transfers_def)
          show ?thesis
          proof (cases "tx = 0")
            case True
            then have "rx \<noteq> 0" using work by simp
            then show ?thesis using m(5) s(5) True by auto
          next
            case tx: False
            then show ?thesis using t m(4,5) by (cases "rx = 0") auto
          qed
        qed
        then show ?thesis
          using outcome_step [OF Cons.IH [OF m(1) Cons.prems(2) s(3) m(2) room r'] same(1), of tx rx x] m(3,4) s(4,5) same(2)
          by simp
      qed
    qed
  qed
qed

section \<open>All bursts\<close>






definition no_burst :: burst where
  "no_burst = \<lparr>fds = [], tx_total = 0, rx_total = 0, calls = [], reported = 0\<rparr>"


section \<open>Theorems\<close>


text \<open>
  C27: the loop of a burst ends: if every round is interrupted at once or moves bytes both ways, as many of the
  latter as there are bytes left one way or the other are enough; and if there are no others, the burst is
  sent and received in full.
\<close>

theorem burst_ends:
  assumes "burst_loop cnt txi rxi tx rx rs st = (r, st')" "kernel_ok st'"
    and "length txi = cnt" "length rxi = cnt" "unat tx \<le> cnt * BUFFER_SIZE" "unat rx \<le> cnt * BUFFER_SIZE"
    and "list_all (\<lambda>r. transfers r \<or> retries r) rs" "max (unat tx) (unat rx) \<le> length (filter transfers rs)"
  shows "r \<noteq> Inl Blocked \<and> (list_all transfers rs \<longrightarrow>
    (\<exists>x. r = Inr x) \<and> tx_total st' = tx_total st + unat tx \<and> rx_total st' = rx_total st + unat rx)"
proof -
  have O: "outcome cnt tx rx rs st r st'"
    using burst_loop_outcome [OF assms(1-4)] assms(5,6) by (simp add: room_def)
  have nb: "r \<noteq> Inl Blocked" using O assms(7,8) unfolding outcome_def by (simp add: not_less)
  moreover have "(\<exists>x. r = Inr x) \<and> tx_total st' = tx_total st + unat tx \<and> rx_total st' = rx_total st + unat rx"
    if t: "list_all transfers rs"
  proof -
    have "\<not> list_ex (\<lambda>r. reset (send_result r)) rs"
      using t by (auto simp: list_all_iff list_ex_iff transfers_def reset_def)
    moreover obtain x where "r = Inr x"
      using O t nb by (cases r; cases "projl r") (auto simp: outcome_def)
    ultimately show ?thesis using O by (auto simp: outcome_def)
  qed
  ultimately show ?thesis by blast
qed

text \<open>A burst of three bytes, sent as one and two, received as two and one.\<close>

definition three :: "burst_round list" where
  "three = [\<lparr>send_result = (1, 0), recv_result = (2, 0)\<rparr>, \<lparr>send_result = (2, 0), recv_result = (1, 0)\<rparr>,
     \<lparr>send_result = (1, 0), recv_result = (1, 0)\<rparr>]"

definition after_three :: "burst \<Rightarrow> burst" where
  "after_three st = st\<lparr>tx_total := tx_total st + 3, rx_total := rx_total st + 3,
     calls := calls st @ [([3], 1), ([3], 2), ([2], 2), ([1], 1)]\<rparr>"

lemma limit: "min LIMIT 3 = 3" "min LIMIT 2 = 2" "min LIMIT 1 = 1"
  by (simp_all add: min_def LIMIT_def word_le_nat_alt)

lemma run_three: "burst_loop 1 [a] [b] 3 3 three st = (Inr ([2], [1]), after_three st)"
  by (simp add: three_def after_three_def burst_loop.simps send_part_def recv_part_def ask_def trunc_iov_def
      trunc_loop.simps prog_simps limit BUFFER_SIZE_def)

lemma after_three_ok: "kernel_ok (after_three no_burst)"
  by (simp add: kernel_ok_def after_three_def no_burst_def)

theorem burst_ends_witness:
  "burst_loop 1 [131072] [131072] 3 3 three no_burst = (Inr ([2], [1]), after_three no_burst) \<and>
   kernel_ok (after_three no_burst) \<and> list_all transfers three \<and> max 3 3 \<le> length (filter transfers three) \<and>
   tx_total (after_three no_burst) = tx_total no_burst + 3 \<and> rx_total (after_three no_burst) = rx_total no_burst + 3"
proof -
  have t: "list_all transfers three" "length (filter transfers three) = 3" "list_all (\<lambda>r. transfers r \<or> retries r) three"
    by (simp_all add: three_def transfers_def)
  then have "tx_total (after_three no_burst) = tx_total no_burst + unat (3 :: u64) \<and>
      rx_total (after_three no_burst) = rx_total no_burst + unat (3 :: u64)"
    using burst_ends [OF run_three [of 131072 131072] after_three_ok] by (simp add: BUFFER_SIZE_def)
  then show ?thesis using run_three [of 131072 131072] after_three_ok t by simp
qed






end
