(* ===== verification/Packet_Filters.thy ===== *)
theory Packet_Filters
  imports Net
begin

text \<open>
  Two programs that decide about received packets: \<open>xdp_drop_benchmark_traffic\<close> of
  \<open>2018-07-dropping-packets/xdp-drop-ebpf.c\<close>, which runs in the kernel, and \<open>filter_packet\<close> with the loop over
  the netmap ring of \<open>2015-12-nm-single-rx-queue/main.c\<close>. A packet is its bytes; every read is checked.

  The theorem: the first never reads behind the packet and drops exactly the UDP packets to port 1234 of two
  networks, with up to two VLAN tags in front.
\<close>

section \<open>Reading a packet\<close>

datatype packet_stop = Behind_packet

definition read8 :: "bytes \<Rightarrow> nat \<Rightarrow> packet_stop + u8" where
  "read8 p i = (if i < length p then Inr (p ! i) else Inl Behind_packet)"

definition read16 :: "bytes \<Rightarrow> nat \<Rightarrow> packet_stop + u16" where
  "read16 p i = (if i + 2 \<le> length p then Inr (word_of_le (take 2 (drop i p))) else Inl Behind_packet)"

definition read32 :: "bytes \<Rightarrow> nat \<Rightarrow> packet_stop + u32" where
  "read32 p i = (if i + 4 \<le> length p then Inr (word_of_le (take 4 (drop i p))) else Inl Behind_packet)"

definition htonl :: "u32 \<Rightarrow> u32" where
  "htonl w = push_bit 24 w OR push_bit 8 (w AND 0xff00) OR (drop_bit 8 w AND 0xff00) OR drop_bit 24 w"

section \<open>The filter in the kernel\<close>

datatype xdp = XDP_DROP | XDP_PASS

definition ETH_P_8021Q :: u16 where "ETH_P_8021Q = 0x8100"
definition ETH_P_8021AD :: u16 where "ETH_P_8021AD = 0x88a8"
definition ETH_P_IP :: u16 where "ETH_P_IP = 0x0800"
definition ETH_P_IPV6 :: u16 where "ETH_P_IPV6 = 0x86dd"
definition IPPROTO_UDP :: u8 where "IPPROTO_UDP = 17"

text \<open>The loop over the VLAN tags, with \<open>i\<close> rounds left; \<open>None\<close>: the packet is passed.\<close>

fun vlan_loop :: "bytes \<Rightarrow> nat \<Rightarrow> nat \<Rightarrow> u16 \<Rightarrow> packet_stop + (nat \<times> u16) option" where
  "vlan_loop p 0 nh_off h_proto = Inr (Some (nh_off, h_proto))"
| "vlan_loop p (Suc i) nh_off h_proto =
     (if h_proto = htons ETH_P_8021Q \<or> h_proto = htons ETH_P_8021AD then
        let vhdr = nh_off; nh_off = nh_off + 4 in
        if nh_off > length p then Inr None
        else rbind (read16 p (vhdr + 2)) (vlan_loop p i nh_off)
      else vlan_loop p i nh_off h_proto)"

definition ipv4_verdict :: "bytes \<Rightarrow> nat \<Rightarrow> packet_stop + xdp" where
  "ipv4_verdict p nh_off =
     (let iph = nh_off; udph = nh_off + 20 in
      if udph + 8 > length p then Inr XDP_PASS
      else
        rbind (read8 p (iph + 9)) (\<lambda>protocol.
        rbind (read32 p (iph + 16)) (\<lambda>daddr.
        rbind (read16 p (udph + 2)) (\<lambda>dest.
        if protocol = IPPROTO_UDP \<and> htonl daddr AND 0xFFFFFF00 = 0xC6120000 \<and> dest = htons 1234
        then Inr XDP_DROP else Inr XDP_PASS))))"

definition ipv6_verdict :: "bytes \<Rightarrow> nat \<Rightarrow> packet_stop + xdp" where
  "ipv6_verdict p nh_off =
     (let ip6h = nh_off; udph = nh_off + 40 in
      if udph + 8 > length p then Inr XDP_PASS
      else
        rbind (read8 p (ip6h + 6)) (\<lambda>nexthdr.
        rbind (read8 p (ip6h + 24)) (\<lambda>a0.
        rbind (read8 p (ip6h + 25)) (\<lambda>a1.
        rbind (read16 p (udph + 2)) (\<lambda>dest.
        if nexthdr = IPPROTO_UDP \<and> a0 = 0xfd \<and> a1 = 0x00 \<and> dest = htons 1234
        then Inr XDP_DROP else Inr XDP_PASS)))))"

definition xdp_drop_benchmark_traffic :: "bytes \<Rightarrow> packet_stop + xdp" where
  "xdp_drop_benchmark_traffic p =
     (let nh_off = 14 in
      if nh_off > length p then Inr XDP_PASS
      else
        rbind (read16 p 12) (\<lambda>h_proto.
        rbind (vlan_loop p 2 nh_off h_proto) (\<lambda>r.
        (case r of
           None \<Rightarrow> Inr XDP_PASS
         | Some (nh_off, h_proto) \<Rightarrow>
             if h_proto = htons ETH_P_IP then ipv4_verdict p nh_off
             else if h_proto = htons ETH_P_IPV6 then ipv6_verdict p nh_off
             else Inr XDP_PASS))))"

section \<open>The filter behind netmap\<close>

text \<open>A buffer of the ring and the length of the packet in it.\<close>

definition filter_packet :: "bytes \<Rightarrow> int \<Rightarrow> packet_stop + bool" where
  "filter_packet buf len =
     rbind (if len \<ge> 14 then rbind (read16 buf 12) (\<lambda>w. Inr (w = 0x0608)) else Inr False) (\<lambda>arp.
     if arp then Inr True
     else
       rbind (if len \<ge> 34 then
                rbind (read16 buf 12) (\<lambda>w. if w = 0x0008 then rbind (read8 buf 23) (\<lambda>b. Inr (b = 1)) else Inr False)
              else Inr False) (\<lambda>icmp.
       Inr icmp))"

text \<open>
  The slots filled in the ring, from the current one on, are handled one after another: the packets forwarded,
  and the number of packets.
\<close>

fun receive_ring :: "(bytes \<times> int) list \<Rightarrow> packet_stop + bool list \<times> nat" where
  "receive_ring [] = Inr ([], 0)"
| "receive_ring ((buf, len) # slots) =
     rbind (filter_packet buf len) (\<lambda>f.
     rbind (receive_ring slots) (\<lambda>(fs, pps).
     Inr (f # fs, pps + 1)))"

section \<open>The packets dropped\<close>

text \<open>What follows the two hardware addresses: up to \<open>n\<close> tags are taken off.\<close>

fun untag :: "nat \<Rightarrow> bytes \<Rightarrow> bytes" where
  "untag (Suc n) (a # b # c # d # rest) =
     (if [a, b] = [0x81, 0x00] \<or> [a, b] = [0x88, 0xa8] then untag n rest else a # b # c # d # rest)"
| "untag _ rest = rest"

definition benchmark_ipv4 :: "bytes \<Rightarrow> bool" where
  "benchmark_ipv4 p \<longleftrightarrow> take 2 p = [0x08, 0x00] \<and> 2 + 20 + 8 \<le> length p \<and>
     (let ip = drop 2 p; udp = drop 20 ip in
      ip ! 9 = 17 \<and> take 3 (drop 16 ip) = [198, 18, 0] \<and> take 2 (drop 2 udp) = [4, 210])"

definition benchmark_ipv6 :: "bytes \<Rightarrow> bool" where
  "benchmark_ipv6 p \<longleftrightarrow> take 2 p = [0x86, 0xdd] \<and> 2 + 40 + 8 \<le> length p \<and>
     (let ip = drop 2 p; udp = drop 40 ip in
      ip ! 6 = 17 \<and> take 2 (drop 24 ip) = [0xfd, 0x00] \<and> take 2 (drop 2 udp) = [4, 210])"

definition benchmark :: "bytes \<Rightarrow> bool" where
  "benchmark p \<longleftrightarrow> (let rest = untag 2 (drop 12 p) in benchmark_ipv4 rest \<or> benchmark_ipv6 rest)"

section \<open>Bytes of words\<close>

lemma word_of_le_inj:
  assumes "length xs = length ys" "8 * length ys \<le> LENGTH('a::len)"
  shows "(word_of_le xs :: 'a word) = word_of_le ys \<longleftrightarrow> xs = ys"
  using le_bytes_word_of_le [of xs, where 'a = 'a] le_bytes_word_of_le [of ys, where 'a = 'a] assms by metis

lemma protos:
  "htons ETH_P_8021Q = word_of_le [0x81, 0x00]" "htons ETH_P_8021AD = word_of_le [0x88, 0xa8]"
  "htons ETH_P_IP = word_of_le [0x08, 0x00]" "htons ETH_P_IPV6 = word_of_le [0x86, 0xdd]" "htons 1234 = word_of_le [4, 210]"
  by code_simp+

lemma bit_htonl:
  assumes "k < 32"
  shows "bit (htonl w) k \<longleftrightarrow> bit w (8 * (3 - k div 8) + k mod 8)"
proof -
  have "(0xff00 :: u32) = push_bit 8 (mask 8)" by (simp add: mask_eq_exp_minus_1 push_bit_eq_mult)
  then have m: "bit (0xff00 :: u32) n \<longleftrightarrow> 8 \<le> n \<and> n < 16" for n
    by (auto simp only: bit_push_bit_iff bit_mask_iff) auto
  have b: "bit (htonl w) k \<longleftrightarrow> 24 \<le> k \<and> bit w (k - 24) \<or> 8 \<le> k \<and> bit w (k - 8) \<and> 8 \<le> k - 8 \<and> k - 8 < 16 \<or>
      bit w (8 + k) \<and> 8 \<le> k \<and> k < 16 \<or> bit w (24 + k)"
    using assms unfolding htonl_def by (simp only: bit_or_iff bit_and_iff bit_push_bit_iff bit_drop_bit_eq m o_def) auto
  consider "k < 8" | j where "k = 8 + j" "j < 8" | j where "k = 16 + j" "j < 8" | j where "k = 24 + j" "j < 8"
  proof -
    consider "k < 8" | "8 \<le> k \<and> k < 16" | "16 \<le> k \<and> k < 24" | "24 \<le> k" by linarith
    then show ?thesis using that assms by cases (auto simp: le_iff_add)
  qed
  then show ?thesis
  proof cases
    case 1
    then show ?thesis unfolding b by (auto dest: bit_imp_le_length)
  next
    case 2
    moreover have "(8 + j) div 8 = 1" "(8 + j) mod 8 = j" using 2(2) by presburger+
    ultimately show ?thesis unfolding b by (auto dest: bit_imp_le_length)
  next
    case 3
    moreover have "(16 + j) div 8 = 2" "(16 + j) mod 8 = j" using 3(2) by presburger+
    ultimately show ?thesis unfolding b by (auto dest: bit_imp_le_length)
  next
    case 4
    moreover have "(24 + j) div 8 = 3" "(24 + j) mod 8 = j" using 4(2) by presburger+
    ultimately show ?thesis unfolding b by (auto dest: bit_imp_le_length)
  qed
qed

lemma htonl_le: "length ds = 4 \<Longrightarrow> htonl (word_of_le ds) = word_of_le (rev ds)"
proof (rule bit_word_eqI)
  fix k assume ds: "length ds = 4" and k: "k < LENGTH(32)"
  let ?q = "k div 8" and ?r = "k mod 8"
  have k32: "k < 32" and q: "?q < 4" using k by simp_all
  then have "rev ds ! ?q = ds ! (3 - ?q)" using ds by (simp add: rev_nth)
  moreover have "(8 * (3 - ?q) + ?r) div 8 = 3 - ?q" "(8 * (3 - ?q) + ?r) mod 8 = ?r" by simp_all
  moreover have "8 * (3 - ?q) + ?r < 32"
  proof -
    have "?r < 8" by simp
    then show ?thesis using q by linarith
  qed
  ultimately show "bit (htonl (word_of_le ds)) k \<longleftrightarrow> bit (word_of_le (rev ds) :: u32) k"
    using ds k32 by (simp only: bit_htonl bit_word_of_le length_rev) simp
qed

lemma clear_low: "(word_of_le [d, c, b, a] :: u32) AND 0xFFFFFF00 = word_of_le [0, c, b, a]"
proof (rule bit_word_eqI)
  have m: "(0xFFFFFF00 :: u32) = NOT (mask 8)" by (simp add: mask_eq_exp_minus_1 not_eq_complement)
  fix k assume k: "k < LENGTH(32)"
  show "bit ((word_of_le [d, c, b, a] :: u32) AND 0xFFFFFF00) k \<longleftrightarrow> bit (word_of_le [0, c, b, a] :: u32) k"
  proof (cases "k < 8")
    case True
    then show ?thesis unfolding m bit_and_iff bit_not_iff bit_mask_iff bit_word_of_le by simp
  next
    case False
    then obtain i where "k div 8 = Suc i" by (cases "k div 8") auto
    then show ?thesis using False k unfolding m bit_and_iff bit_not_iff bit_mask_iff bit_word_of_le by simp
  qed
qed

lemma subnet:
  assumes "length ds = 4"
  shows "htonl (word_of_le ds) AND 0xFFFFFF00 = 0xC6120000 \<longleftrightarrow> take 3 ds = [198, 18, 0]"
proof -
  obtain a b c d where ds: "ds = [a, b, c, d]" using assms by (auto simp: numeral_eq_Suc length_Suc_conv)
  have n: "(0xC6120000 :: u32) = word_of_le [0, 0, 18, 198]" by code_simp
  have "htonl (word_of_le ds) = word_of_le [d, c, b, a]" using htonl_le [of ds] ds by simp
  then have "htonl (word_of_le ds) AND 0xFFFFFF00 = 0xC6120000 \<longleftrightarrow> (word_of_le [0, c, b, a] :: u32) = word_of_le [0, 0, 18, 198]"
    by (simp only: clear_low n)
  also have "\<dots> \<longleftrightarrow> take 3 ds = [198, 18, 0]"
    unfolding ds by (subst word_of_le_inj) auto
  finally show ?thesis .
qed

section \<open>The tags\<close>

lemma take2_eq: "2 \<le> length xs \<Longrightarrow> (word_of_le (take 2 xs) :: u16) = word_of_le [a, b] \<longleftrightarrow> take 2 xs = [a, b]"
  by (rule word_of_le_inj) simp_all

lemma drop_two: "2 \<le> i \<Longrightarrow> drop 2 (drop (i - 2) p) = drop i p"
  by (simp only: drop_drop le_add_diff_inverse)

lemma untag_short: "length r < 2 \<Longrightarrow> untag n r = r"
  by (induction n r rule: untag.induct) auto

lemma short_no_benchmark: "length r < 30 \<Longrightarrow> \<not> (benchmark_ipv4 r \<or> benchmark_ipv6 r)"
  by (simp add: benchmark_ipv4_def benchmark_ipv6_def)

lemma vlan_loop_untag:
  assumes "2 \<le> i" "i \<le> length p"
  shows "(vlan_loop p n i (word_of_le (take 2 (drop (i - 2) p))) = Inr None \<and>
      \<not> (benchmark_ipv4 (untag n (drop (i - 2) p)) \<or> benchmark_ipv6 (untag n (drop (i - 2) p)))) \<or>
    (\<exists>j. vlan_loop p n i (word_of_le (take 2 (drop (i - 2) p))) = Inr (Some (j, word_of_le (take 2 (drop (j - 2) p)))) \<and>
      2 \<le> j \<and> j \<le> length p \<and> untag n (drop (i - 2) p) = drop (j - 2) p)"
  using assms
proof (induction n arbitrary: i)
  case 0
  then show ?case by auto
next
  case (Suc n)
  let ?r = "drop (i - 2) p" and ?h = "word_of_le (take 2 (drop (i - 2) p)) :: u16"
  have l: "2 \<le> length ?r" using Suc.prems by simp
  then obtain a b r where r: "?r = a # b # r" by (cases ?r; cases "tl ?r") auto
  have h: "?h = word_of_le [c, d] \<longleftrightarrow> [a, b] = [c, d]" for c d using take2_eq [OF l, of c d] r by simp
  have hp: "?h = htons ETH_P_8021Q \<or> ?h = htons ETH_P_8021AD \<longleftrightarrow> [a, b] = [0x81, 0x00] \<or> [a, b] = [0x88, 0xa8]"
    unfolding protos h ..
  have dr: "drop i p = r"
  proof -
    have "drop i p = drop 2 ?r" using drop_two [of i p] Suc.prems(1) by (simp only:)
    then show ?thesis using r by simp
  qed
  show ?case
  proof (cases "[a, b] = [0x81, 0x00] \<or> [a, b] = [0x88, 0xa8]")
    case tag: True
    show ?thesis
    proof (cases "i + 4 > length p")
      case True
      then have "length r < 4" using dr by (metis add.commute length_drop less_diff_conv2 Suc.prems(2))
      then have "length (untag (Suc n) ?r) < 30"
        using untag_short [of "drop 2 r" n] tag unfolding r by (cases r; cases "tl r") auto
      then show ?thesis using True tag short_no_benchmark hp by (simp only: vlan_loop.simps Let_def if_True) auto
    next
      case False
      have "4 \<le> length r" using False dr by (metis add.commute le_diff_conv2 length_drop not_less Suc.prems(2))
      then obtain c d r' where r': "r = c # d # r'" by (cases r; cases "tl r") auto
      have "drop (i + 2) p = r'" using dr r' drop_two [of "i + 2" p] by simp
      then have u: "untag (Suc n) ?r = untag n (drop (i + 4 - 2) p)" using tag r r' by auto
      have "vlan_loop p (Suc n) i ?h = vlan_loop p n (i + 4) (word_of_le (take 2 (drop (i + 4 - 2) p)))"
        using False tag hp by (simp only: vlan_loop.simps Let_def if_True if_False) (simp add: read16_def)
      then show ?thesis using Suc.IH [of "i + 4"] False Suc.prems unfolding u by simp
    qed
  next
    case False
    then have v: "vlan_loop p (Suc n) i ?h = vlan_loop p n i ?h" using hp by (simp only: vlan_loop.simps if_False)
    have "untag (Suc n) ?r = ?r" using False r by (cases r; cases "tl r") auto
    moreover have "untag n ?r = ?r" using False r by (cases n; cases r; cases "tl r") auto
    ultimately have u: "untag (Suc n) ?r = untag n ?r" by simp
    show ?thesis using Suc.IH [OF Suc.prems] unfolding v u .
  qed
qed

section \<open>The headers\<close>

lemma port: "i + 2 \<le> length p \<Longrightarrow> (word_of_le (take 2 (drop i p)) :: u16) = htons 1234 \<longleftrightarrow> take 2 (drop i p) = [4, 210]"
  unfolding protos by (rule take2_eq) simp

lemma ipv4_verdict_ok:
  assumes "2 \<le> j" "j \<le> length p" "take 2 (drop (j - 2) p) = [0x08, 0x00]"
  shows "ipv4_verdict p j = Inr (if benchmark_ipv4 (drop (j - 2) p) then XDP_DROP else XDP_PASS)"
proof (cases "j + 28 \<le> length p")
  case False
  then show ?thesis using assms by (auto simp: benchmark_ipv4_def ipv4_verdict_def Let_def)
next
  case True
  let ?ip = "drop j p"
  have ip: "drop 2 (drop (j - 2) p) = ?ip" using drop_two assms(1) by blast
  have "htonl (word_of_le (take 4 (drop (j + 16) p))) AND 0xFFFFFF00 = 0xC6120000 \<longleftrightarrow>
      take 3 (drop (j + 16) p) = [198, 18, 0]"
    using subnet [of "take 4 (drop (j + 16) p)"] True by simp
  moreover have "(word_of_le (take 2 (drop (j + 22) p)) :: u16) = htons 1234 \<longleftrightarrow> take 2 (drop (j + 22) p) = [4, 210]"
    using True by (intro port) simp
  moreover have "benchmark_ipv4 (drop (j - 2) p) \<longleftrightarrow> ?ip ! 9 = 17 \<and> take 3 (drop (j + 16) p) = [198, 18, 0] \<and>
      take 2 (drop (j + 22) p) = [4, 210]"
  proof -
    have "2 + 20 + 8 \<le> length (drop (j - 2) p)" using True assms(1) unfolding length_drop by linarith
    then show ?thesis using assms True unfolding benchmark_ipv4_def ip Let_def by (simp only: simp_thms) (simp add: add.commute)
  qed
  moreover have "read8 p (j + 9) = Inr (?ip ! 9)" "read32 p (j + 16) = Inr (word_of_le (take 4 (drop (j + 16) p)))"
    "read16 p (j + 20 + 2) = Inr (word_of_le (take 2 (drop (j + 22) p)))"
    using True by (simp_all add: read8_def read16_def read32_def add.commute)
  moreover have "\<not> j + 20 + 8 > length p" using True by simp
  ultimately show ?thesis
    by (simp only: ipv4_verdict_def Let_def if_False rbind_simps IPPROTO_UDP_def) auto
qed

lemma ipv6_verdict_ok:
  assumes "2 \<le> j" "j \<le> length p" "take 2 (drop (j - 2) p) = [0x86, 0xdd]"
  shows "ipv6_verdict p j = Inr (if benchmark_ipv6 (drop (j - 2) p) then XDP_DROP else XDP_PASS)"
proof (cases "j + 48 \<le> length p")
  case False
  then show ?thesis using assms by (auto simp: benchmark_ipv6_def ipv6_verdict_def Let_def)
next
  case True
  let ?ip = "drop j p"
  have ip: "drop 2 (drop (j - 2) p) = ?ip" using drop_two assms(1) by blast
  have "(word_of_le (take 2 (drop (j + 42) p)) :: u16) = htons 1234 \<longleftrightarrow> take 2 (drop (j + 42) p) = [4, 210]"
    using True by (intro port) simp
  moreover have "take 2 (drop (j + 24) p) = [0xfd, 0x00] \<longleftrightarrow> p ! (j + 24) = 0xfd \<and> p ! (j + 25) = 0x00"
    using True by (auto simp: list_eq_iff_nth_eq less_2_cases_iff add.commute)
  moreover have "benchmark_ipv6 (drop (j - 2) p) \<longleftrightarrow> ?ip ! 6 = 17 \<and> take 2 (drop (j + 24) p) = [0xfd, 0x00] \<and>
      take 2 (drop (j + 42) p) = [4, 210]"
  proof -
    have "2 + 40 + 8 \<le> length (drop (j - 2) p)" using True assms(1) unfolding length_drop by linarith
    then show ?thesis using assms True unfolding benchmark_ipv6_def ip Let_def by (simp only: simp_thms) (simp add: add.commute)
  qed
  moreover have "read8 p (j + 6) = Inr (?ip ! 6)" "read8 p (j + 24) = Inr (p ! (j + 24))"
    "read8 p (j + 25) = Inr (p ! (j + 25))" "read16 p (j + 40 + 2) = Inr (word_of_le (take 2 (drop (j + 42) p)))"
    using True by (simp_all add: read8_def read16_def add.commute)
  moreover have "\<not> j + 40 + 8 > length p" using True by simp
  ultimately show ?thesis
    by (simp only: ipv6_verdict_def Let_def if_False rbind_simps IPPROTO_UDP_def) auto
qed

text \<open>The other filter: in buffers of 34 bytes and more, ARP and ICMP packets are forwarded, no others.\<close>

lemma filter_packet_ok:
  assumes "34 \<le> length buf"
  shows "filter_packet buf len = Inr (14 \<le> len \<and> take 2 (drop 12 buf) = [0x08, 0x06] \<or>
    34 \<le> len \<and> take 2 (drop 12 buf) = [0x08, 0x00] \<and> buf ! 23 = 1)"
proof -
  have n: "(0x0608 :: u16) = word_of_le [0x08, 0x06]" "(0x0008 :: u16) = word_of_le [0x08, 0x00]" by code_simp+
  have "(word_of_le (take 2 (drop 12 buf)) :: u16) = 0x0608 \<longleftrightarrow> take 2 (drop 12 buf) = [0x08, 0x06]"
    "(word_of_le (take 2 (drop 12 buf)) :: u16) = 0x0008 \<longleftrightarrow> take 2 (drop 12 buf) = [0x08, 0x00]"
    unfolding n using assms by (intro take2_eq; simp)+
  moreover have "read16 buf 12 = Inr (word_of_le (take 2 (drop 12 buf)))" "read8 buf 23 = Inr (buf ! 23)"
    using assms by (simp_all add: read16_def read8_def)
  ultimately show ?thesis by (auto simp: filter_packet_def)
qed

lemma receive_ring_ok:
  assumes "\<forall>(buf, len) \<in> set slots. 34 \<le> length buf"
  shows "\<exists>fs. receive_ring slots = Inr (fs, length slots) \<and> length fs = length slots"
  using assms
proof (induction slots)
  case (Cons s slots)
  obtain fs where fs: "receive_ring slots = Inr (fs, length slots)" "length fs = length slots" using Cons by auto
  then show ?case using Cons.prems by (cases s) (auto simp: filter_packet_ok)
qed simp

section \<open>Theorem\<close>

text \<open>
  C17: the filter never reads behind the packet; it drops the packets described by \<open>benchmark\<close>, at most two VLAN
  tags and a UDP packet to port 1234 of 198.18.0.0/24 or of fd00::/16, and passes all others.
\<close>

theorem xdp_drops_benchmark:
  "xdp_drop_benchmark_traffic p = Inr (if benchmark p then XDP_DROP else XDP_PASS)"
proof (cases "14 \<le> length p")
  case False
  have "length (untag n xs) \<le> length xs" for n xs by (induction n xs rule: untag.induct) auto
  from this [of 2 "drop 12 p"] have "length (untag 2 (drop 12 p)) < 30" using False by simp
  then show ?thesis using False short_no_benchmark
    by (simp add: xdp_drop_benchmark_traffic_def benchmark_def Let_def)
next
  case True
  have h: "read16 p 12 = Inr (word_of_le (take 2 (drop (14 - 2) p)))" using True by (simp add: read16_def)
  consider (none) "vlan_loop p 2 14 (word_of_le (take 2 (drop (14 - 2) p))) = Inr None" "\<not> benchmark p"
    | (some) j where "vlan_loop p 2 14 (word_of_le (take 2 (drop (14 - 2) p))) = Inr (Some (j, word_of_le (take 2 (drop (j - 2) p))))"
      "2 \<le> j" "j \<le> length p" "untag 2 (drop 12 p) = drop (j - 2) p"
    using vlan_loop_untag [of 14 p 2] True by (auto simp: benchmark_def Let_def)
  then show ?thesis
  proof cases
    case none
    then show ?thesis using True h by (simp add: xdp_drop_benchmark_traffic_def Let_def)
  next
    case some
    let ?r = "drop (j - 2) p"
    have l: "2 \<le> length ?r" using some by simp
    have b: "benchmark p \<longleftrightarrow> benchmark_ipv4 ?r \<or> benchmark_ipv6 ?r" using some(4) by (simp add: benchmark_def Let_def)
    have run: "xdp_drop_benchmark_traffic p =
        (if word_of_le (take 2 ?r) = htons ETH_P_IP then ipv4_verdict p j
         else if word_of_le (take 2 ?r) = htons ETH_P_IPV6 then ipv6_verdict p j else Inr XDP_PASS)"
      using True h some(1)
      by (simp only: xdp_drop_benchmark_traffic_def Let_def rbind_simps option.case prod.case not_less [symmetric] if_False)
    have "benchmark_ipv4 ?r \<Longrightarrow> take 2 ?r = [0x08, 0x00]" "benchmark_ipv6 ?r \<Longrightarrow> take 2 ?r = [0x86, 0xdd]"
      by (simp_all add: benchmark_ipv4_def benchmark_ipv6_def)
    then show ?thesis
      unfolding run protos take2_eq [OF l] b
      using ipv4_verdict_ok [OF some(2,3)] ipv6_verdict_ok [OF some(2,3)] by auto
  qed
qed

end
