(* ===== verification/Udp_Connect.thy ===== *)
theory Udp_Connect
  imports Net
begin

text \<open>
  \<open>connect4_prog\<close> of \<open>2022-02-connectx/ebpf_connect4/connect4_ebpf.c\<close>: a program the kernel runs before
  \<open>connect\<close> on an IPv4 socket, which refuses to connect a UDP socket to an address when another connected
  socket has the same four numbers already. The lookup of the kernel is a parameter.

  The theorem: which connections it refuses; and that of the UDP sockets of a host, connected one after another, no
  two that were bound to a full address and port ever have the same four numbers.
\<close>

section \<open>The program\<close>

text \<open>The addresses are in network order; \<open>src_port\<close> is in host order, \<open>user_port\<close> in network order.\<close>

record bpf_sock =
  src_ip4 :: u32
  src_port :: u32
  sk_state :: nat

record bpf_sock_addr =
  sock_type :: nat
  sk :: bpf_sock
  user_ip4 :: u32
  user_port :: u32

record tuple4 =
  saddr :: u32
  sport :: u16
  daddr :: u32
  dport :: u16

definition SOCK_DGRAM :: nat where "SOCK_DGRAM = 2"

text \<open>\<open>lookup\<close>: the state of the socket found for a tuple.\<close>

definition connect4_prog :: "(tuple4 \<Rightarrow> nat option) \<Rightarrow> bpf_sock_addr \<Rightarrow> int" where
  "connect4_prog lookup ctx =
     (if sock_type ctx \<noteq> SOCK_DGRAM then 1
      else if src_port (sk ctx) = 0 \<or> src_ip4 (sk ctx) = 0 then 1
      else if user_port ctx = 0 \<or> user_ip4 ctx = 0 then 1
      else
        let tuple = \<lparr>saddr = user_ip4 ctx, sport = ucast (user_port ctx), daddr = src_ip4 (sk ctx),
                     dport = htons (ucast (src_port (sk ctx)))\<rparr> in
        (case lookup tuple of
           None \<Rightarrow> 1
         | Some state \<Rightarrow> if state = 1 then 0 else 1))"

section \<open>The sockets of a host\<close>

text \<open>
  A UDP socket: its own address and port (0 where \<open>bind\<close> gave none and the kernel has not chosen yet), and those it
  is connected to. Ports are in host order. \<open>checked\<close> is not part of the socket: it says that the connection was made
  after a lookup of the program.
\<close>

record udp_sock =
  own_ip :: u32
  own_port :: u16
  peer :: "(u32 \<times> u16) option"
  checked :: bool

text \<open>The program looks for other sockets only for a socket with an address and a port of its own.\<close>

definition bound :: "udp_sock \<Rightarrow> bool" where
  "bound s \<longleftrightarrow> own_ip s \<noteq> 0 \<and> own_port s \<noteq> 0"

text \<open>The packets a connected socket takes.\<close>

definition takes :: "udp_sock \<Rightarrow> tuple4 \<Rightarrow> bool" where
  "takes s t \<longleftrightarrow> (case peer s of None \<Rightarrow> False | Some (ip, port) \<Rightarrow>
     t = \<lparr>saddr = ip, sport = htons port, daddr = own_ip s, dport = htons (own_port s)\<rparr>)"

text \<open>
  What is documented of the lookup: a connected socket (its state is 1, \<open>TCP_ESTABLISHED\<close>) is found before
  all others for the packets it takes, and only then.
\<close>

definition finds_connected :: "(udp_sock list \<Rightarrow> tuple4 \<Rightarrow> nat option) \<Rightarrow> bool" where
  "finds_connected lookup \<longleftrightarrow> (\<forall>socks t. lookup socks t = Some 1 \<longleftrightarrow> (\<exists>s \<in> set socks. takes s t))"

text \<open>The context the kernel makes for a socket and the address it is to be connected to.\<close>

definition context_of :: "udp_sock \<Rightarrow> u32 \<Rightarrow> u16 \<Rightarrow> bpf_sock_addr" where
  "context_of s ip port = \<lparr>sock_type = SOCK_DGRAM,
     sk = \<lparr>src_ip4 = own_ip s, src_port = ucast (own_port s), sk_state = (if peer s = None then 7 else 1)\<rparr>,
     user_ip4 = ip, user_port = ucast (htons port)\<rparr>"

text \<open>
  Sockets are made and bound to any address and port, or to none, also to those of another socket. A socket is
  connected when the program answers 1; then the kernel chooses what it does not have of its own, without regard
  to the other sockets. A connection is ended, which may take back what the kernel chose, and sockets are closed.
  The answer of the program and the change of the socket are one step: connections made at the same time can slip
  past each other, and are not modelled.
\<close>

inductive steps :: "(udp_sock list \<Rightarrow> tuple4 \<Rightarrow> nat option) \<Rightarrow> udp_sock list \<Rightarrow> bool" for lookup where
  none: "steps lookup []"
| bind: "steps lookup socks \<Longrightarrow>
    steps lookup (\<lparr>own_ip = ip, own_port = port, peer = None, checked = False\<rparr> # socks)"
| connect: "steps lookup socks \<Longrightarrow> i < length socks \<Longrightarrow>
    connect4_prog (lookup socks) (context_of (socks ! i) ip port) = 1 \<Longrightarrow>
    own_ip (socks ! i) = 0 \<or> ip' = own_ip (socks ! i) \<Longrightarrow> own_port (socks ! i) = 0 \<or> port' = own_port (socks ! i) \<Longrightarrow>
    ip = 0 \<or> to = ip \<Longrightarrow>
    steps lookup (socks[i := \<lparr>own_ip = ip', own_port = port', peer = Some (to, port),
      checked = (bound (socks ! i) \<and> ip \<noteq> 0 \<and> port \<noteq> 0)\<rparr>])"
| disconnect: "steps lookup socks \<Longrightarrow> i < length socks \<Longrightarrow>
    ip' = own_ip (socks ! i) \<or> ip' = 0 \<Longrightarrow> port' = own_port (socks ! i) \<or> port' = 0 \<Longrightarrow>
    steps lookup (socks[i := \<lparr>own_ip = ip', own_port = port', peer = None, checked = False\<rparr>])"
| close: "steps lookup socks \<Longrightarrow> steps lookup (take i socks @ drop (i + 1) socks)"

section \<open>No two sockets for a packet\<close>

text \<open>Of the connections made after a lookup no two take the same packets.\<close>

definition disjoint_socks :: "udp_sock list \<Rightarrow> bool" where
  "disjoint_socks socks \<longleftrightarrow> (\<forall>i < length socks. \<forall>j < length socks. \<forall>t.
     checked (socks ! i) \<longrightarrow> checked (socks ! j) \<longrightarrow> takes (socks ! i) t \<longrightarrow> takes (socks ! j) t \<longrightarrow> i = j)"

lemma htons_inj [simp]: "htons a = htons b \<longleftrightarrow> a = b"
  by (metis htons_htons)

lemma prog_refuses:
  assumes "finds_connected lookup" "bound s" "ip \<noteq> 0" "port \<noteq> 0"
  shows "connect4_prog (lookup socks) (context_of s ip port) = 1 \<longleftrightarrow>
    \<not> (\<exists>s' \<in> set socks. takes s' \<lparr>saddr = ip, sport = htons port, daddr = own_ip s, dport = htons (own_port s)\<rparr>)"
proof -
  let ?t = "\<lparr>saddr = ip, sport = htons port, daddr = own_ip s, dport = htons (own_port s)\<rparr>"
  have z: "htons port \<noteq> 0" using assms(4) htons_inj [of port 0] by (simp add: htons_def)
  have u: "(ucast (ucast w :: u32) :: u16) = w" for w
    by (rule bit_word_eqI) (simp add: bit_simps)
  have uz: "(ucast w :: u32) = 0 \<longleftrightarrow> w = 0" for w :: u16
    by (metis u ucast_0)
  have "connect4_prog (lookup socks) (context_of s ip port) = 1 \<longleftrightarrow> lookup socks ?t \<noteq> Some 1"
    using assms(2,3) z
    by (auto simp: connect4_prog_def context_of_def bound_def u uz Let_def split: option.splits)
  then show ?thesis using assms(1) unfolding finds_connected_def by blast
qed

lemma prog_passes:
  "\<not> (bound s \<and> ip \<noteq> 0 \<and> port \<noteq> 0) \<Longrightarrow> connect4_prog f (context_of s ip port) = 1"
  by (auto simp: connect4_prog_def context_of_def bound_def htons_def)

lemma disjoint_update:
  assumes "disjoint_socks socks" "i < length socks"
    and "\<And>t s'. checked s \<Longrightarrow> takes s t \<Longrightarrow> s' \<in> set socks \<Longrightarrow> \<not> takes s' t"
  shows "disjoint_socks (socks[i := s])"
  unfolding disjoint_socks_def
proof (intro allI impI)
  fix j k t
  assume j: "j < length (socks[i := s])" and k: "k < length (socks[i := s])"
    and c: "checked (socks[i := s] ! j)" "checked (socks[i := s] ! k)"
    and t: "takes (socks[i := s] ! j) t" "takes (socks[i := s] ! k) t"
  have old: "checked s \<Longrightarrow> takes (socks ! m) t \<Longrightarrow> m < length socks \<Longrightarrow> \<not> takes s t" for m
    using assms(3) nth_mem by blast
  show "j = k"
    using assms(1) j k c t old unfolding disjoint_socks_def
    by (cases "j = i"; cases "k = i") auto
qed

text \<open>A connected socket is not let connect to the same address again: it is itself the one that is found.\<close>

lemma reconnect_refused:
  assumes "finds_connected lookup" "s \<in> set socks" "bound s" "peer s = Some (ip, port)" "ip \<noteq> 0" "port \<noteq> 0"
  shows "connect4_prog (lookup socks) (context_of s ip port) \<noteq> 1"
  using prog_refuses [OF assms(1,3,5,6), of socks] assms(2,4) by (auto simp: takes_def)

section \<open>Theorem\<close>

lemma disjoint_remove:
  assumes "disjoint_socks socks"
  shows "disjoint_socks (take i socks @ drop (i + 1) socks)"
proof -
  let ?f = "\<lambda>k. if k < i then k else k + 1"
  have "(take i socks @ drop (i + 1) socks) ! k = socks ! ?f k \<and> ?f k < length socks"
    if "k < length (take i socks @ drop (i + 1) socks)" for k
    using that by (auto simp: nth_append min_def split: if_splits)
  note el = this
  show ?thesis unfolding disjoint_socks_def
  proof (intro allI impI)
    fix j k t
    let ?socks = "take i socks @ drop (i + 1) socks"
    assume j: "j < length ?socks" and k: "k < length ?socks"
      and c: "checked (?socks ! j)" "checked (?socks ! k)" and t: "takes (?socks ! j) t" "takes (?socks ! k) t"
    have "checked (socks ! ?f j)" "checked (socks ! ?f k)" "takes (socks ! ?f j) t" "takes (socks ! ?f k) t"
      "?f j < length socks" "?f k < length socks"
      using el [OF j] el [OF k] c t by auto
    then have "?f j = ?f k" using assms unfolding disjoint_socks_def by blast
    then show "j = k" by (auto split: if_splits)
  qed
qed

lemma steps_disjoint:
  assumes "finds_connected lookup" "steps lookup socks"
  shows "disjoint_socks socks"
  using assms(2)
proof (induction rule: steps.induct)
  case none
  then show ?case by (simp add: disjoint_socks_def)
next
  case (bind socks ip port)
  have n: "\<not> takes \<lparr>own_ip = ip, own_port = port, peer = None, checked = False\<rparr> t" for t by (simp add: takes_def)
  show ?case using bind.IH n unfolding disjoint_socks_def by (auto simp: nth_Cons split: nat.splits)
next
  case (connect socks i ip port ip' port' to)
  let ?s = "\<lparr>own_ip = ip', own_port = port', peer = Some (to, port),
    checked = (bound (socks ! i) \<and> ip \<noteq> 0 \<and> port \<noteq> 0)\<rparr>"
  have "\<not> takes s' t" if c: "checked ?s" "takes ?s t" "s' \<in> set socks" for t s'
  proof -
    have b: "bound (socks ! i)" "ip \<noteq> 0" "port \<noteq> 0" using c(1) by simp_all
    then have "ip' = own_ip (socks ! i)" "port' = own_port (socks ! i)" "to = ip"
      using connect.hyps(4-6) by (auto simp: bound_def)
    then show ?thesis
      using connect.hyps(3) prog_refuses [OF assms(1) b, of socks] c(2,3) by (auto simp: takes_def)
  qed
  then show ?case by (intro disjoint_update [OF connect.IH connect.hyps(2)])
next
  case (disconnect socks i ip' port')
  then show ?case by (intro disjoint_update) simp_all
next
  case (close socks i)
  then show ?case by (intro disjoint_remove)
qed

text \<open>
  C15: for sockets that are connected one after another, with a lookup as the kernel documents it. The program looks
  when \<open>bind\<close> was called with a full address and port and the address to connect to is full too, and then it refuses
  the connection exactly when some connected socket takes its packets already; all others it lets through. So of two
  connections made after a lookup no packet is for both, whatever other sockets are bound, connected, disconnected
  and closed in between. This is not so for a socket without an address of its own (lemma \<open>unchecked_overlap\<close>).
\<close>

theorem connect4_no_overshadowing:
  assumes "finds_connected lookup" "steps lookup socks"
  shows "disjoint_socks socks \<and>
    (\<forall>s ip port. connect4_prog (lookup socks) (context_of s ip port) =
      (if bound s \<and> ip \<noteq> 0 \<and> port \<noteq> 0 \<and>
          (\<exists>s' \<in> set socks. \<exists>t. takes s' t \<and> takes (s\<lparr>peer := Some (ip, port)\<rparr>) t) then 0 else 1))"
proof (intro conjI allI)
  show "disjoint_socks socks" by (rule steps_disjoint [OF assms])
  fix s ip port
  have "takes (s\<lparr>peer := Some (ip, port)\<rparr>) t \<longleftrightarrow>
      t = \<lparr>saddr = ip, sport = htons port, daddr = own_ip s, dport = htons (own_port s)\<rparr>" for t
    by (simp add: takes_def)
  moreover have "connect4_prog f c = 0 \<longleftrightarrow> connect4_prog f c \<noteq> 1" for f c
    by (auto simp: connect4_prog_def Let_def split: option.splits)
  ultimately show "connect4_prog (lookup socks) (context_of s ip port) =
      (if bound s \<and> ip \<noteq> 0 \<and> port \<noteq> 0 \<and>
          (\<exists>s' \<in> set socks. \<exists>t. takes s' t \<and> takes (s\<lparr>peer := Some (ip, port)\<rparr>) t) then 0 else 1)"
    using prog_refuses [OF assms(1), of s ip port socks] prog_passes [of s ip port "lookup socks"]
    by (cases "bound s \<and> ip \<noteq> 0 \<and> port \<noteq> 0") auto
qed

text \<open>Two sockets with the same address and port; the first is connected, and the same is refused for the second.\<close>

definition plain_lookup :: "udp_sock list \<Rightarrow> tuple4 \<Rightarrow> nat option" where
  "plain_lookup socks t = (if list_ex (\<lambda>s. takes s t) socks then Some 1 else Some 7)"

lemma plain_lookup_ok: "finds_connected plain_lookup"
  by (auto simp: finds_connected_def plain_lookup_def list_ex_iff)

definition sock0 :: udp_sock where "sock0 = \<lparr>own_ip = 0x0100007f, own_port = 53, peer = None, checked = False\<rparr>"
definition sock1 :: udp_sock where "sock1 = sock0\<lparr>peer := Some (0x0200007f, 1234), checked := True\<rparr>"

lemma two_sockets: "steps plain_lookup [sock1, sock0]"
proof -
  have b: "bound sock0" by (simp add: bound_def sock0_def)
  have "steps plain_lookup [sock0, sock0]"
    unfolding sock0_def by (intro steps.bind steps.none)
  moreover have "connect4_prog (plain_lookup [sock0, sock0]) (context_of ([sock0, sock0] ! 0) 0x0200007f 1234) = 1"
    by (simp add: prog_refuses [OF plain_lookup_ok b]) (simp add: takes_def sock0_def)
  ultimately have "steps plain_lookup ([sock0, sock0][0 := \<lparr>own_ip = own_ip sock0, own_port = own_port sock0,
      peer = Some (0x0200007f, 1234), checked = (bound ([sock0, sock0] ! 0) \<and> (0x0200007f :: u32) \<noteq> 0 \<and> (1234 :: u16) \<noteq> 0)\<rparr>])"
    by (intro steps.connect) simp_all
  then show ?thesis using b by (simp add: sock1_def sock0_def)
qed

theorem connect4_no_overshadowing_witness:
  "disjoint_socks [sock1, sock0] \<and> connect4_prog (plain_lookup [sock1, sock0]) (context_of sock0 0x0200007f 1234) = 0"
proof -
  have b: "bound sock0" by (simp add: bound_def sock0_def)
  have "takes sock1 \<lparr>saddr = 0x0200007f, sport = htons 1234, daddr = 0x0100007f, dport = htons 53\<rparr>"
    "takes (sock0\<lparr>peer := Some (0x0200007f, 1234)\<rparr>) \<lparr>saddr = 0x0200007f, sport = htons 1234, daddr = 0x0100007f, dport = htons 53\<rparr>"
    by (simp_all add: takes_def sock1_def sock0_def)
  then show ?thesis
    using connect4_no_overshadowing [OF plain_lookup_ok two_sockets] b by auto
qed

text \<open>The same with a second socket that is bound to the port only: the kernel gives it the address, and both take the packets.\<close>

lemma unchecked_overlap:
  "\<exists>s t. steps plain_lookup [s, sock1] \<and> \<not> checked s \<and> takes s t \<and> takes sock1 t"
proof -
  let ?u = "\<lparr>own_ip = 0, own_port = 53, peer = None, checked = False\<rparr>"
  let ?s = "\<lparr>own_ip = 0x0100007f, own_port = 53, peer = Some (0x0200007f, 1234), checked = False\<rparr>"
  have "steps plain_lookup (take 1 [sock1, sock0] @ drop (1 + 1) [sock1, sock0])"
    by (rule steps.close [OF two_sockets])
  then have "steps plain_lookup [sock1]" by simp
  then have "steps plain_lookup [?u, sock1]" by (rule steps.bind)
  then have "steps plain_lookup ([?u, sock1][0 := \<lparr>own_ip = 0x0100007f, own_port = 53, peer = Some (0x0200007f, 1234),
      checked = (bound ([?u, sock1] ! 0) \<and> (0x0200007f :: u32) \<noteq> 0 \<and> (1234 :: u16) \<noteq> 0)\<rparr>])"
    by (rule steps.connect) (simp_all add: prog_passes bound_def)
  then have "steps plain_lookup [?s, sock1]" by (simp add: bound_def)
  moreover have "takes ?s t \<longleftrightarrow> takes sock1 t" for t by (simp add: takes_def sock1_def sock0_def)
  moreover have "\<exists>t. takes sock1 t" by (simp add: takes_def sock1_def)
  ultimately show ?thesis by (intro exI [of _ ?s]) auto
qed

end
