(* ===== verification/Udp_Sink.thy ===== *)
theory Udp_Sink
  imports Net
begin

text \<open>
  The programs of \<open>2018-07-dropping-packets\<close> that receive packets and throw them away: \<open>recv-loop.c\<close>,
  \<open>bpf-drop.c\<close>, \<open>ebpf-drop.c\<close>, \<open>recvmmsg-loop.c\<close>, \<open>trunc-loop.c\<close>, \<open>busypoll-loop.c\<close> and \<open>net.h\<close>. Each counts the
  packets and the bytes, and a signal handler that runs once a second prints the counters and clears them.

  The main loop is a step relation, and the handler may run between any two steps. The counters are plain static
  variables, so \<open>packets += 1\<close> is not one step: a compiler may load a counter into a register anywhere behind one
  system call, add in registers, and store the sum anywhere before the next call. Loads and stores are steps of
  their own, for each counter by itself, and the handler sees what is in memory. (A value that is stored and also
  kept is a store followed by a load. A load or a store of 64 bits is one step, as on a 64-bit machine.)

  The theorem: nothing received is lost, and what is counted twice is exactly what the handler printed between the
  load of a counter and its store.
\<close>

section \<open>The socket\<close>

text \<open>A filter instruction: code, jump offsets and operand; an eBPF instruction: code, registers, offset, immediate.\<close>

type_synonym sock_filter = "u16 \<times> u8 \<times> u8 \<times> u32"
type_synonym bpf_insn = "u8 \<times> nat \<times> nat \<times> int \<times> int"

datatype udp_call =
    Socket u16
  | Set_reuseaddr int int
  | Set_v6only int int
  | Bind int bytes
  | Set_busy_poll int int
  | Attach_filter int "sock_filter list"
  | Prog_load nat "bpf_insn list" bytes
  | Attach_bpf int int

text \<open>\<open>inet_pton\<close>, and what the system calls return.\<close>

record udp_env =
  pton :: "u16 \<Rightarrow> bytes \<Rightarrow> bytes option"
  answer :: "udp_call \<Rightarrow> int"

type_synonym 'a udp = "(tcp_stop, udp_call list, 'a) prog"

definition sys :: "udp_env \<Rightarrow> udp_call \<Rightarrow> int udp" where
  "sys env c = andthen (update (\<lambda>cs. cs @ [c])) (ret (answer env c))"

definition net_gethostbyname :: "udp_env \<Rightarrow> bytes \<Rightarrow> u16 \<Rightarrow> tcp_stop + bytes" where
  "net_gethostbyname env host port =
     (let ss = replicate SS_SIZE 0 in
      case pton env AF_INET host of
        Some a \<Rightarrow> Inr (array_write (array_write (array_write ss 0 (le_bytes 2 AF_INET)) 2 (le_bytes 2 (htons port))) 4 a)
      | None \<Rightarrow>
     (case pton env AF_INET6 host of
        Some a \<Rightarrow> Inr (array_write (array_write (array_write ss 0 (le_bytes 2 AF_INET6)) 2 (le_bytes 2 (htons port))) 8 a)
      | None \<Rightarrow> Inl Failure))"

definition net_bind_udp :: "udp_env \<Rightarrow> bytes \<Rightarrow> int udp" where
  "net_bind_udp env ss =
     bnd (sys env (Socket (ss_family ss))) (\<lambda>sd.
     andthen (expect (\<not> sd < 0))
     (bnd (sys env (Set_reuseaddr sd 1)) (\<lambda>r.
     andthen (expect (\<not> r < 0))
     (bnd (sys env (Set_v6only sd 0)) (\<lambda>r.
     andthen (expect (\<not> r < 0))
     (bnd (sys env (Bind sd ss)) (\<lambda>r.
     andthen (expect (\<not> r < 0))
     (ret sd))))))))"

definition net_setup_bpf :: "udp_env \<Rightarrow> int \<Rightarrow> unit udp" where
  "net_setup_bpf env sd =
     (let code = [(0x06, 0, 0, 0)] in
      bnd (sys env (Attach_filter sd code)) (\<lambda>r.
      expect (\<not> r < 0)))"

definition BPF_MOV64_IMM :: "nat \<Rightarrow> int \<Rightarrow> bpf_insn" where
  "BPF_MOV64_IMM DST IMM = (0xb7, DST, 0, 0, IMM)"

definition BPF_EXIT_INSN :: bpf_insn where
  "BPF_EXIT_INSN = (0x95, 0, 0, 0, 0)"

definition BPF_PROG_TYPE_SOCKET_FILTER :: nat where "BPF_PROG_TYPE_SOCKET_FILTER = 1"

definition net_setup_ebpf :: "udp_env \<Rightarrow> int \<Rightarrow> unit udp" where
  "net_setup_ebpf env sd =
     (let prog = [BPF_MOV64_IMM 0 0, BPF_EXIT_INSN] in
      bnd (sys env (Prog_load BPF_PROG_TYPE_SOCKET_FILTER prog (lit ''BSD''))) (\<lambda>fd.
      andthen (expect (\<not> fd < 0))
      (bnd (sys env (Attach_bpf sd fd)) (\<lambda>r.
      expect (\<not> r < 0)))))"

definition set_busy_poll_udp :: "udp_env \<Rightarrow> int \<Rightarrow> unit udp" where
  "set_busy_poll_udp env fd = bnd (sys env (Set_busy_poll fd 50)) (\<lambda>r. expect (\<not> r \<noteq> 0))"

definition start_sink :: "udp_env \<Rightarrow> (int \<Rightarrow> unit udp) \<Rightarrow> unit udp" where
  "start_sink env prepare =
     (case net_gethostbyname env (lit ''::'') 1234 of
        Inl e \<Rightarrow> halt e
      | Inr listen_addr \<Rightarrow> bnd (net_bind_udp env listen_addr) prepare)"

section \<open>The counters\<close>

text \<open>
  Where the loop is: in the system call; before \<open>packets += 1\<close> and before \<open>bytes += r\<close>; asking for the error of
  the socket, and before the packet without bytes is counted; in the loop over the 32 messages, before message
  \<open>i\<close> is added and before its length is cleared; behind the last addition; behind \<open>return\<close> or \<open>exit\<close>.
\<close>

datatype place =
    Reading
  | Count int
  | Add int
  | Asking
  | Count_empty
  | Sum nat int
  | Clear nat int
  | Done
  | Ended int

text \<open>
  For each counter: its value in memory; the value loaded, until the sum is stored; and what the program has added
  in registers and not stored yet. The field \<open>torn\<close> is for the proof only: for each report the values printed of
  counters that were loaded and not stored at that moment, and 0 for the others.
\<close>

record sink =
  at :: place
  packets :: u64
  bytes :: u64
  held_packets :: "u64 option"
  held_bytes :: "u64 option"
  more_packets :: u64
  more_bytes :: u64
  msg_len :: "u32 list"
  reports :: "(u64 \<times> u64) list"
  torn :: "(u64 \<times> u64) list"

text \<open>What happens next: the handler, a statement of the program, or the return of a system call.\<close>

datatype event =
    Alarm
  | Next
  | Datagrams "nat list"
  | Failed int
  | Sock_error int

definition MTU_SIZE :: nat where "MTU_SIZE = 2048"
definition MAX_MSG :: nat where "MAX_MSG = 32"

definition sink0 :: sink where
  "sink0 =
     \<lparr>at = Reading, packets = 0, bytes = 0, held_packets = None, held_bytes = None, more_packets = 0, more_bytes = 0,
      msg_len = replicate MAX_MSG 0, reports = [], torn = []\<rparr>"

definition timer_handler :: "sink \<Rightarrow> sink" where
  "timer_handler s = s\<lparr>reports := reports s @ [(packets s, bytes s)], packets := 0, bytes := 0\<rparr>"

definition interrupt :: "sink \<Rightarrow> sink" where
  "interrupt s = (timer_handler s)
     \<lparr>torn := torn s @
       [(if held_packets s = None then 0 else packets s, if held_bytes s = None then 0 else bytes s)]\<rparr>"

fun ended :: "place \<Rightarrow> bool" where
  "ended (Ended _) = True"
| "ended _ = False"

text \<open>Between two system calls: the places where a counter may be in a register.\<close>

fun handling :: "place \<Rightarrow> bool" where
  "handling Reading = False"
| "handling Asking = False"
| "handling (Ended _) = False"
| "handling _ = True"

inductive register_step :: "sink \<Rightarrow> sink \<Rightarrow> bool" where
  load_packets: "handling (at s) \<Longrightarrow> held_packets s = None \<Longrightarrow> register_step s (s\<lparr>held_packets := Some (packets s)\<rparr>)"
| store_packets: "handling (at s) \<Longrightarrow> held_packets s = Some p \<Longrightarrow>
    register_step s (s\<lparr>packets := p + more_packets s, more_packets := 0, held_packets := None\<rparr>)"
| load_bytes: "handling (at s) \<Longrightarrow> held_bytes s = None \<Longrightarrow> register_step s (s\<lparr>held_bytes := Some (bytes s)\<rparr>)"
| store_bytes: "handling (at s) \<Longrightarrow> held_bytes s = Some b \<Longrightarrow>
    register_step s (s\<lparr>bytes := b + more_bytes s, more_bytes := 0, held_bytes := None\<rparr>)"
| leave: "at s = Done \<Longrightarrow> held_packets s = None \<Longrightarrow> held_bytes s = None \<Longrightarrow> more_packets s = 0 \<Longrightarrow> more_bytes s = 0 \<Longrightarrow>
    register_step s (s\<lparr>at := Reading\<rparr>)"

section \<open>The loops\<close>

text \<open>A datagram that is longer than the buffer is cut; one datagram is at most 65535 bytes.\<close>

definition datagram :: "nat \<Rightarrow> bool" where
  "datagram n \<longleftrightarrow> n \<le> 65535"

inductive count_step :: "sink \<Rightarrow> sink \<Rightarrow> bool" where
  count: "at s = Count r \<Longrightarrow> count_step s (s\<lparr>more_packets := more_packets s + 1, at := Add r\<rparr>)"
| add: "at s = Add r \<Longrightarrow> count_step s (s\<lparr>more_bytes := more_bytes s + word_of_int r, at := Done\<rparr>)"

inductive fail_step :: "sink \<Rightarrow> int \<Rightarrow> sink \<Rightarrow> bool" where
  interrupted: "at s = Reading \<Longrightarrow> fail_step s EINTR s"
| failed: "at s = Reading \<Longrightarrow> e \<noteq> EINTR \<Longrightarrow> fail_step s e (s\<lparr>at := Ended 1\<rparr>)"

text \<open>\<open>recv-loop.c\<close>: a result of 0 ends the program.\<close>

inductive recv_step :: "sink \<Rightarrow> event \<Rightarrow> sink \<Rightarrow> bool" where
  some: "at s = Reading \<Longrightarrow> datagram n \<Longrightarrow> r = int (min n MTU_SIZE) \<Longrightarrow> r \<noteq> 0 \<Longrightarrow>
    recv_step s (Datagrams [n]) (s\<lparr>at := Count r\<rparr>)"
| none: "at s = Reading \<Longrightarrow> datagram n \<Longrightarrow> r = int (min n MTU_SIZE) \<Longrightarrow> r = 0 \<Longrightarrow>
    recv_step s (Datagrams [n]) (s\<lparr>at := Ended 0\<rparr>)"
| fail: "fail_step s e s' \<Longrightarrow> recv_step s (Failed e) s'"
| count: "count_step s s' \<Longrightarrow> recv_step s Next s'"

text \<open>\<open>bpf-drop.c\<close> and \<open>ebpf-drop.c\<close>: on a result of 0 the socket is asked for an error.\<close>

inductive drop_step :: "sink \<Rightarrow> event \<Rightarrow> sink \<Rightarrow> bool" where
  some: "at s = Reading \<Longrightarrow> datagram n \<Longrightarrow> r = int (min n MTU_SIZE) \<Longrightarrow> r \<noteq> 0 \<Longrightarrow>
    drop_step s (Datagrams [n]) (s\<lparr>at := Count r\<rparr>)"
| none: "at s = Reading \<Longrightarrow> datagram n \<Longrightarrow> r = int (min n MTU_SIZE) \<Longrightarrow> r = 0 \<Longrightarrow>
    drop_step s (Datagrams [n]) (s\<lparr>at := Asking\<rparr>)"
| no_error: "at s = Asking \<Longrightarrow> drop_step s (Sock_error 0) (s\<lparr>at := Count_empty\<rparr>)"
| error: "at s = Asking \<Longrightarrow> err \<noteq> 0 \<Longrightarrow> drop_step s (Sock_error err) (s\<lparr>at := Ended 0\<rparr>)"
| count_empty: "at s = Count_empty \<Longrightarrow> drop_step s Next (s\<lparr>more_packets := more_packets s + 1, at := Done\<rparr>)"
| fail: "fail_step s e s' \<Longrightarrow> drop_step s (Failed e) s'"
| count: "count_step s s' \<Longrightarrow> drop_step s Next s'"

text \<open>
  The loops over \<open>recvmmsg\<close>: the call stores the lengths of the messages received, at most 32, and leaves the
  others as they are; \<open>stored_len\<close> is the length stored for a datagram.
\<close>

inductive mmsg_step :: "(nat \<Rightarrow> nat) \<Rightarrow> sink \<Rightarrow> event \<Rightarrow> sink \<Rightarrow> bool" for stored_len where
  some: "at s = Reading \<Longrightarrow> length ns \<le> MAX_MSG \<Longrightarrow> list_all datagram ns \<Longrightarrow> r = int (length ns) \<Longrightarrow> r \<noteq> 0 \<Longrightarrow>
    mmsg_step stored_len s (Datagrams ns)
      (s\<lparr>msg_len := map (\<lambda>n. of_nat (stored_len n)) ns @ drop (length ns) (msg_len s), at := Sum 0 r\<rparr>)"
| none: "at s = Reading \<Longrightarrow> mmsg_step stored_len s (Datagrams []) (s\<lparr>at := Ended 0\<rparr>)"
| fail: "fail_step s e s' \<Longrightarrow> mmsg_step stored_len s (Failed e) s'"
| sum: "at s = Sum i r \<Longrightarrow> i < MAX_MSG \<Longrightarrow>
    mmsg_step stored_len s Next (s\<lparr>more_bytes := more_bytes s + ucast (msg_len s ! i), at := Clear i r\<rparr>)"
| clear: "at s = Clear i r \<Longrightarrow> mmsg_step stored_len s Next (s\<lparr>msg_len := (msg_len s)[i := 0], at := Sum (i + 1) r\<rparr>)"
| count: "at s = Sum i r \<Longrightarrow> \<not> i < MAX_MSG \<Longrightarrow>
    mmsg_step stored_len s Next (s\<lparr>more_packets := more_packets s + word_of_int r, at := Done\<rparr>)"

text \<open>A program that has not ended takes a step of its loop, loads or stores a counter, or runs the handler.\<close>

inductive run :: "(sink \<Rightarrow> event \<Rightarrow> sink \<Rightarrow> bool) \<Rightarrow> event list \<Rightarrow> sink \<Rightarrow> bool" for step where
  start: "run step [] sink0"
| step: "run step es s \<Longrightarrow> step s e s' \<Longrightarrow> run step (es @ [e]) s'"
| register: "run step es s \<Longrightarrow> register_step s s' \<Longrightarrow> run step (es @ [Next]) s'"
| alarm: "run step es s \<Longrightarrow> \<not> ended (at s) \<Longrightarrow> run step (es @ [Alarm]) (interrupt s)"

definition sink_program ::
  "udp_env \<Rightarrow> (int \<Rightarrow> unit udp) \<Rightarrow> (sink \<Rightarrow> event \<Rightarrow> sink \<Rightarrow> bool) \<Rightarrow> event list \<Rightarrow> sink \<Rightarrow> bool" where
  "sink_program env prepare step es s \<longleftrightarrow>
     (case fst (start_sink env prepare []) of
        Inl _ \<Rightarrow> es = [] \<and> s = sink0\<lparr>at := Ended 1\<rparr>
      | Inr _ \<Rightarrow> run step es s)"

definition recv_loop :: "udp_env \<Rightarrow> event list \<Rightarrow> sink \<Rightarrow> bool" where
  "recv_loop env = sink_program env (\<lambda>fd. ret ()) recv_step"

definition bpf_drop :: "udp_env \<Rightarrow> event list \<Rightarrow> sink \<Rightarrow> bool" where
  "bpf_drop env = sink_program env (net_setup_bpf env) drop_step"

definition ebpf_drop :: "udp_env \<Rightarrow> event list \<Rightarrow> sink \<Rightarrow> bool" where
  "ebpf_drop env = sink_program env (net_setup_ebpf env) drop_step"

text \<open>The flag \<open>MSG_TRUNC\<close> makes the length stored that of the datagram, whatever the buffer holds.\<close>

definition recvmmsg_loop :: "udp_env \<Rightarrow> event list \<Rightarrow> sink \<Rightarrow> bool" where
  "recvmmsg_loop env = sink_program env (\<lambda>fd. ret ()) (mmsg_step (\<lambda>n. min n MTU_SIZE))"

definition trunc_loop :: "udp_env \<Rightarrow> event list \<Rightarrow> sink \<Rightarrow> bool" where
  "trunc_loop env = sink_program env (\<lambda>fd. ret ()) (mmsg_step (\<lambda>n. n))"

definition busypoll_loop :: "udp_env \<Rightarrow> event list \<Rightarrow> sink \<Rightarrow> bool" where
  "busypoll_loop env = sink_program env (set_busy_poll_udp env) (mmsg_step (\<lambda>n. min n MTU_SIZE))"

code_pred count_step .
code_pred fail_step .
code_pred recv_step .
code_pred drop_step .

section \<open>What was received\<close>

text \<open>The datagrams the kernel delivered.\<close>

fun delivered :: "event \<Rightarrow> nat list" where
  "delivered (Datagrams ns) = ns"
| "delivered _ = []"

definition received :: "event list \<Rightarrow> nat list" where
  "received es = concat (map delivered es)"

text \<open>A counter: the value loaded, or the one in memory.\<close>

fun counter :: "u64 option \<Rightarrow> u64 \<Rightarrow> u64" where
  "counter None memory = memory"
| "counter (Some v) memory = v"

definition reported_packets :: "sink \<Rightarrow> u64" where
  "reported_packets s = sum_list (map fst (reports s)) + counter (held_packets s) (packets s)"

definition reported_bytes :: "sink \<Rightarrow> u64" where
  "reported_bytes s = sum_list (map snd (reports s)) + counter (held_bytes s) (bytes s)"

text \<open>What was received and is still to be added to the counters.\<close>

fun packets_in_hand :: "place \<Rightarrow> u64" where
  "packets_in_hand (Count _) = 1"
| "packets_in_hand Asking = 1"
| "packets_in_hand Count_empty = 1"
| "packets_in_hand (Sum _ r) = word_of_int r"
| "packets_in_hand (Clear _ r) = word_of_int r"
| "packets_in_hand _ = 0"

fun bytes_in_hand :: "u32 list \<Rightarrow> place \<Rightarrow> u64" where
  "bytes_in_hand _ (Count r) = word_of_int r"
| "bytes_in_hand _ (Add r) = word_of_int r"
| "bytes_in_hand ls (Sum i _) = sum_list (map ucast (drop i ls))"
| "bytes_in_hand ls (Clear i _) = sum_list (map ucast (drop (i + 1) ls))"
| "bytes_in_hand _ _ = 0"

definition tally_packets :: "sink \<Rightarrow> u64" where
  "tally_packets s = reported_packets s + more_packets s + packets_in_hand (at s) - sum_list (map fst (torn s))"

definition tally_bytes :: "sink \<Rightarrow> u64" where
  "tally_bytes s = reported_bytes s + more_bytes s + bytes_in_hand (msg_len s) (at s) - sum_list (map snd (torn s))"

lemmas tally_defs = tally_packets_def tally_bytes_def reported_packets_def reported_bytes_def

text \<open>In a system call, and behind the end, nothing is in a register.\<close>

definition flushed :: "sink \<Rightarrow> bool" where
  "flushed s \<longleftrightarrow> handling (at s) \<or>
     held_packets s = None \<and> held_bytes s = None \<and> more_packets s = 0 \<and> more_bytes s = 0"

lemma handling_running: "handling p \<Longrightarrow> \<not> ended p"
  by (cases p) simp_all

inductive_cases register_stepE: "register_step s s'"

lemma register_step_tally:
  assumes "register_step s s'"
  shows "\<not> ended (at s)" "tally_packets s' = tally_packets s" "tally_bytes s' = tally_bytes s" "flushed s'"
  using assms by (auto elim!: register_stepE dest: handling_running simp: tally_defs flushed_def)

lemma flushed_start: "flushed sink0"
  by (simp add: flushed_def sink0_def)

lemma interrupt_tally: "tally_packets (interrupt s) = tally_packets s" "tally_bytes (interrupt s) = tally_bytes s"
  by (cases "held_packets s"; cases "held_bytes s"; simp add: tally_defs interrupt_def timer_handler_def)+

lemma interrupt_flushed: "flushed s \<Longrightarrow> flushed (interrupt s)"
  by (simp add: flushed_def interrupt_def timer_handler_def)

text \<open>A loop that keeps the tally, with an invariant \<open>ok\<close> of its own.\<close>

locale counting_loop =
  fixes step :: "sink \<Rightarrow> event \<Rightarrow> sink \<Rightarrow> bool" and stored_len :: "nat \<Rightarrow> nat" and ok :: "sink \<Rightarrow> bool"
  assumes start_ok: "ok sink0"
    and step_ok: "step s e s' \<Longrightarrow> ok s \<Longrightarrow> ok s'"
    and register_ok: "register_step s s' \<Longrightarrow> ok s \<Longrightarrow> ok s'"
    and alarm_ok: "ok s \<Longrightarrow> ok (interrupt s)"
    and running: "step s e s' \<Longrightarrow> \<not> ended (at s)"
    and step_flushed: "step s e s' \<Longrightarrow> flushed s \<Longrightarrow> flushed s'"
    and step_packets: "step s e s' \<Longrightarrow> ok s \<Longrightarrow> \<not> ended (at s') \<Longrightarrow>
      tally_packets s' = tally_packets s + of_nat (length (delivered e))"
    and step_bytes: "step s e s' \<Longrightarrow> ok s \<Longrightarrow> \<not> ended (at s') \<Longrightarrow>
      tally_bytes s' = tally_bytes s + of_nat (sum_list (map stored_len (delivered e)))"
begin

lemma run_ok: "run step es s \<Longrightarrow> ok s \<and> flushed s"
  by (induction rule: run.induct)
    (auto intro: start_ok step_ok register_ok alarm_ok step_flushed interrupt_flushed dest: register_step_tally(4)
      simp: flushed_start)

lemma run_tally:
  "run step es s \<Longrightarrow> \<not> ended (at s) \<Longrightarrow>
   tally_packets s = of_nat (length (received es)) \<and> tally_bytes s = of_nat (sum_list (map stored_len (received es)))"
proof (induction rule: run.induct)
  case start
  show ?case by (simp add: tally_defs sink0_def received_def)
next
  case (step es s e s')
  have "\<not> ended (at s)" using running step.hyps(2) by blast
  then show ?case
    using step run_ok [OF step.hyps(1)] step_packets [OF step.hyps(2)] step_bytes [OF step.hyps(2)]
    by (simp add: received_def)
next
  case (register es s s')
  then show ?case using register_step_tally [OF register.hyps(2)] by (simp add: received_def)
next
  case (alarm es s)
  then show ?case by (simp add: interrupt_tally received_def)
qed

lemma program_tally:
  assumes "sink_program env prepare step es s" "\<not> ended (at s)"
  shows "tally_packets s = of_nat (length (received es)) \<and> tally_bytes s = of_nat (sum_list (map stored_len (received es))) \<and>
    flushed s"
  using assms run_tally run_ok by (auto simp: sink_program_def sink0_def split: sum.splits)

end

section \<open>The three loops keep the tally\<close>

inductive_cases count_stepE: "count_step s s'"
inductive_cases fail_stepE: "fail_step s e s'"

lemma count_step_tally:
  assumes "count_step s s'"
  shows "\<not> ended (at s)" "tally_packets s' = tally_packets s" "tally_bytes s' = tally_bytes s" "handling (at s')"
  using assms by (auto elim!: count_stepE simp: tally_defs)

lemma fail_step_tally:
  assumes "fail_step s e s'"
  shows "\<not> ended (at s)" "\<not> ended (at s') \<Longrightarrow> s' = s"
  using assms by (auto elim!: fail_stepE)

lemma fail_step_flushed: "fail_step s e s' \<Longrightarrow> flushed s \<Longrightarrow> flushed s'"
  by (auto elim!: fail_stepE simp: flushed_def)

interpretation recv: counting_loop recv_step "\<lambda>n. min n MTU_SIZE" "\<lambda>_. True"
proof
  show "\<not> ended (at s)" if "recv_step s e s'" for s e s'
    using that by cases (auto dest: count_step_tally fail_step_tally)
  show "flushed s'" if "recv_step s e s'" "flushed s" for s e s'
    using that by cases (auto dest: count_step_tally fail_step_flushed simp: flushed_def)
  show "tally_packets s' = tally_packets s + of_nat (length (delivered e))"
    if "recv_step s e s'" "\<not> ended (at s')" for s e s'
    using that by cases (auto dest: count_step_tally fail_step_tally simp: tally_defs)
  show "tally_bytes s' = tally_bytes s + of_nat (sum_list (map (\<lambda>n. min n MTU_SIZE) (delivered e)))"
    if "recv_step s e s'" "\<not> ended (at s')" for s e s'
    using that by cases (auto dest: count_step_tally fail_step_tally simp: tally_defs)
qed simp_all

interpretation drop: counting_loop drop_step "\<lambda>n. min n MTU_SIZE" "\<lambda>_. True"
proof
  show "\<not> ended (at s)" if "drop_step s e s'" for s e s'
    using that by cases (auto dest: count_step_tally fail_step_tally)
  show "flushed s'" if "drop_step s e s'" "flushed s" for s e s'
    using that by cases (auto dest: count_step_tally fail_step_flushed simp: flushed_def)
  show "tally_packets s' = tally_packets s + of_nat (length (delivered e))"
    if "drop_step s e s'" "\<not> ended (at s')" for s e s'
    using that by cases (auto dest: count_step_tally fail_step_tally simp: tally_defs)
  show "tally_bytes s' = tally_bytes s + of_nat (sum_list (map (\<lambda>n. min n MTU_SIZE) (delivered e)))"
    if "drop_step s e s'" "\<not> ended (at s')" for s e s'
    using that by cases (auto dest: count_step_tally fail_step_tally simp: tally_defs MTU_SIZE_def)
qed simp_all

text \<open>Between two calls the lengths are 0; in the loop over the messages those before \<open>i\<close> are.\<close>

definition lens_ok :: "sink \<Rightarrow> bool" where
  "lens_ok s \<longleftrightarrow> length (msg_len s) = MAX_MSG \<and>
     (case at s of
        Sum i _ \<Rightarrow> i \<le> MAX_MSG \<and> set (take i (msg_len s)) \<subseteq> {0}
      | Clear i _ \<Rightarrow> i < MAX_MSG \<and> set (take i (msg_len s)) \<subseteq> {0}
      | _ \<Rightarrow> set (msg_len s) \<subseteq> {0})"

lemma sum_zeros: "set ls \<subseteq> {0} \<Longrightarrow> sum_list (map ucast ls) = (0 :: u64)" for ls :: "u32 list"
  by (induction ls) auto

lemma sum_lens:
  assumes "\<And>n. stored_len n \<le> n" "list_all datagram ns"
  shows "sum_list (map (\<lambda>n. ucast (of_nat (stored_len n) :: u32)) ns) = (of_nat (sum_list (map stored_len ns)) :: u64)"
  using assms(2)
proof (induction ns)
  case (Cons n ns)
  have "stored_len n < 2 ^ 32" using assms(1) [of n] Cons.prems by (simp add: datagram_def)
  then have "ucast (of_nat (stored_len n) :: u32) = (of_nat (stored_len n) :: u64)"
    by (simp add: unsigned_of_nat take_bit_nat_eq_self)
  then show ?case using Cons by simp
qed simp

lemma mmsg_step_running: "mmsg_step stored_len s e s' \<Longrightarrow> \<not> ended (at s)"
  by (cases rule: mmsg_step.cases) (auto dest: fail_step_tally)

lemma mmsg_step_flushed: "mmsg_step stored_len s e s' \<Longrightarrow> flushed s \<Longrightarrow> flushed s'"
  by (cases rule: mmsg_step.cases, assumption) (auto dest: fail_step_flushed simp: flushed_def)

lemma set_take_Suc: "i < length ls \<Longrightarrow> set (take i ls) \<subseteq> {0} \<Longrightarrow> set (take (Suc i) (ls[i := 0])) \<subseteq> {0}"
  by (auto simp: take_Suc_conv_app_nth)

lemma mmsg_step_ok:
  assumes "mmsg_step stored_len s e s'" "lens_ok s"
  shows "lens_ok s'"
  using assms(1)
proof cases
  case (fail e)
  from fail(2) show ?thesis using assms(2) by cases (auto simp: lens_ok_def)
next
  case (clear i r)
  then show ?thesis using assms(2) set_take_Suc [of i "msg_len s"] by (auto simp: lens_ok_def)
qed (use assms(2) in \<open>auto simp: lens_ok_def\<close>)

lemma mmsg_step_packets:
  assumes "mmsg_step stored_len s e s'" "\<not> ended (at s')"
  shows "tally_packets s' = tally_packets s + of_nat (length (delivered e))"
  using assms by cases (auto dest: fail_step_tally simp: tally_defs)

lemma mmsg_step_bytes:
  assumes st: "mmsg_step stored_len s e s'" and "\<not> ended (at s')" and ok: "lens_ok s" and le: "\<And>n. stored_len n \<le> n"
  shows "tally_bytes s' = tally_bytes s + of_nat (sum_list (map stored_len (delivered e)))"
  using st
proof cases
  case (some ns r)
  have "sum_list (map ucast (drop (length ns) (msg_len s))) = (0 :: u64)"
    using ok some by (intro sum_zeros) (auto simp: lens_ok_def dest: in_set_dropD)
  then show ?thesis using some sum_lens [OF le, of ns] by (simp add: tally_defs o_def)
next
  case (fail e)
  then show ?thesis using assms(2) fail_step_tally(2) [OF fail(2)] by (simp add: tally_defs)
next
  case (sum i r)
  then show ?thesis using ok by (simp add: tally_defs lens_ok_def flip: Cons_nth_drop_Suc)
next
  case (clear i r)
  then show ?thesis using ok by (simp add: tally_defs lens_ok_def drop_update_cancel)
next
  case (count i r)
  then show ?thesis using ok by (simp add: tally_defs lens_ok_def)
qed (use assms(2) in auto)

lemma lens_ok_start: "lens_ok sink0"
  by (auto simp: lens_ok_def sink0_def)

lemma lens_ok_alarm: "lens_ok s \<Longrightarrow> lens_ok (interrupt s)"
  by (cases "at s") (simp_all add: lens_ok_def interrupt_def timer_handler_def)

lemma lens_ok_register: "register_step s s' \<Longrightarrow> lens_ok s \<Longrightarrow> lens_ok s'"
  by (cases "at s") (auto elim!: register_stepE simp: lens_ok_def)

lemma counting_mmsg:
  assumes "\<And>n. stored_len n \<le> n"
  shows "counting_loop (mmsg_step stored_len) stored_len lens_ok"
  by unfold_locales
    (rule lens_ok_start mmsg_step_ok lens_ok_register lens_ok_alarm mmsg_step_running mmsg_step_flushed mmsg_step_packets mmsg_step_bytes; (assumption | rule assms))+

interpretation mmsg: counting_loop "mmsg_step (\<lambda>n. min n MTU_SIZE)" "\<lambda>n. min n MTU_SIZE" lens_ok
  by (rule counting_mmsg) simp

interpretation trunc: counting_loop "mmsg_step (\<lambda>n. n)" "\<lambda>n. n" lens_ok
  by (rule counting_mmsg) simp

text \<open>A datagram without bytes is taken for the end: it ends \<open>recv-loop\<close>.\<close>

lemma recv_ends_on_empty: "recv_step s (Datagrams [0]) s' \<Longrightarrow> at s' = Ended 0"
  by (cases rule: recv_step.cases) auto

section \<open>Theorem\<close>

text \<open>The programs, and what each counts as the size of a datagram.\<close>

definition sinks :: "udp_env \<Rightarrow> ((event list \<Rightarrow> sink \<Rightarrow> bool) \<times> (nat \<Rightarrow> nat)) list" where
  "sinks env =
     [(recv_loop env, \<lambda>n. min n MTU_SIZE), (bpf_drop env, \<lambda>n. min n MTU_SIZE), (ebpf_drop env, \<lambda>n. min n MTU_SIZE),
      (recvmmsg_loop env, \<lambda>n. min n MTU_SIZE), (busypoll_loop env, \<lambda>n. min n MTU_SIZE), (trunc_loop env, \<lambda>n. n)]"

text \<open>The handler between the load and the store of \<open>bytes\<close>: what it printed stays in the counter.\<close>

lemma alarm_in_addition:
  assumes run: "run recv_step es s" and "at s = Add r" "held_bytes s = None" "more_bytes s = 0"
  shows "\<exists>s'. run recv_step (es @ [Next, Alarm, Next, Next]) s' \<and> reports s' = reports s @ [(packets s, bytes s)] \<and>
    bytes s' = bytes s + word_of_int r \<and> held_bytes s' = None"
proof -
  define s1 where "s1 = s\<lparr>held_bytes := Some (bytes s)\<rparr>"
  define s2 where "s2 = (interrupt s1)\<lparr>more_bytes := more_bytes (interrupt s1) + word_of_int r, at := Done\<rparr>"
  have "register_step s s1" unfolding s1_def using assms by (intro register_step.load_bytes) simp_all
  then have r1: "run recv_step (es @ [Next]) s1" by (rule run.register [OF run])
  have "run recv_step ((es @ [Next]) @ [Alarm]) (interrupt s1)"
    by (rule run.alarm [OF r1]) (simp add: s1_def assms)
  moreover have a: "at (interrupt s1) = Add r" by (simp add: s1_def interrupt_def timer_handler_def assms)
  moreover have "recv_step (interrupt s1) Next s2"
    unfolding s2_def by (rule recv_step.count, rule count_step.add, rule a)
  ultimately have r2: "run recv_step (((es @ [Next]) @ [Alarm]) @ [Next]) s2"
    using run.step by blast
  have "register_step s2 (s2\<lparr>bytes := bytes s + more_bytes s2, more_bytes := 0, held_bytes := None\<rparr>)"
    by (rule register_step.store_bytes) (simp_all add: s2_def s1_def interrupt_def timer_handler_def)
  from run.register [OF r2 this] show ?thesis
    by (intro exI [of _ "s2\<lparr>bytes := bytes s + more_bytes s2, more_bytes := 0, held_bytes := None\<rparr>"])
      (simp add: s2_def s1_def interrupt_def timer_handler_def assms)
qed

text \<open>
  C16: in each of the six programs, whatever the kernel delivers, whenever a counter is loaded and stored between two
  system calls, and wherever the handler runs: while the program has not ended, the numbers of packets it reported,
  its counter (the value loaded, between a load and its store) and the packets added in a register or still to be
  added are together the number of datagrams delivered, plus the numbers that the handler printed between a load of
  the counter and its store; likewise the bytes and the sizes of the datagrams, modulo $2^{64}$. In the system
  call nothing is in a register or in hand: what was reported and the counters in memory cover every datagram
  received, and are exactly what was received if the handler never ran between a load and its store.
\<close>

theorem sinks_count:
  assumes "(program, size_of) \<in> set (sinks env)" "program es s" "\<not> ended (at s)"
  shows "reported_packets s + more_packets s + packets_in_hand (at s) =
      of_nat (length (received es)) + sum_list (map fst (torn s)) \<and>
    reported_bytes s + more_bytes s + bytes_in_hand (msg_len s) (at s) =
      of_nat (sum_list (map size_of (received es))) + sum_list (map snd (torn s)) \<and>
    (at s = Reading \<longrightarrow>
      sum_list (map fst (reports s)) + packets s = of_nat (length (received es)) + sum_list (map fst (torn s)) \<and>
      sum_list (map snd (reports s)) + bytes s = of_nat (sum_list (map size_of (received es))) + sum_list (map snd (torn s)))"
proof -
  have t: "tally_packets s = of_nat (length (received es)) \<and> tally_bytes s = of_nat (sum_list (map size_of (received es))) \<and>
      flushed s"
    using assms recv.program_tally drop.program_tally mmsg.program_tally trunc.program_tally
    by (auto simp: sinks_def recv_loop_def bpf_drop_def ebpf_drop_def recvmmsg_loop_def busypoll_loop_def trunc_loop_def)
  then show ?thesis
    by (auto simp: tally_packets_def tally_bytes_def diff_eq_eq flushed_def reported_packets_def reported_bytes_def)
qed

text \<open>
  Two datagrams in one call of \<open>recvmmsg\<close>, one longer than the buffer; \<open>bytes\<close> is loaded, and the handler runs before
  anything is added: it reports nothing, and all is in hand.
\<close>

definition all_works :: udp_env where
  "all_works = \<lparr>pton = (\<lambda>f a. if f = AF_INET6 then Some (replicate 16 0) else None), answer = (\<lambda>c. case c of Socket _ \<Rightarrow> 3 | _ \<Rightarrow> 0)\<rparr>"

definition after_call :: sink where
  "after_call = sink0\<lparr>msg_len := [10, 2048] @ replicate 30 0, at := Sum 0 2\<rparr>"

definition bytes_loaded :: sink where
  "bytes_loaded = after_call\<lparr>held_bytes := Some 0\<rparr>"

lemma all_works_starts: "fst (start_sink all_works (\<lambda>fd. ret ()) []) = Inr ()"
  by (simp add: start_sink_def net_gethostbyname_def all_works_def AF_INET_def AF_INET6_def net_bind_udp_def sys_def
      prog_simps Let_def)

theorem sinks_count_witness:
  "recvmmsg_loop all_works [Datagrams [10, 3000], Next, Alarm] (interrupt bytes_loaded) \<and>
   \<not> ended (at (interrupt bytes_loaded)) \<and>
   reported_packets (interrupt bytes_loaded) + more_packets (interrupt bytes_loaded) + packets_in_hand (at (interrupt bytes_loaded)) = 2 \<and>
   reported_bytes (interrupt bytes_loaded) + more_bytes (interrupt bytes_loaded) +
     bytes_in_hand (msg_len (interrupt bytes_loaded)) (at (interrupt bytes_loaded)) = 2058"
proof -
  have "mmsg_step (\<lambda>n. min n MTU_SIZE) sink0 (Datagrams [10, 3000])
      (sink0\<lparr>msg_len := map (\<lambda>n. of_nat (min n MTU_SIZE)) [10, 3000] @ drop (length [10, 3000 :: nat]) (msg_len sink0), at := Sum 0 2\<rparr>)"
    by (rule mmsg_step.some) (simp_all add: sink0_def MAX_MSG_def datagram_def)
  moreover have "sink0\<lparr>msg_len := map (\<lambda>n. of_nat (min n MTU_SIZE)) [10, 3000] @ drop (length [10, 3000 :: nat]) (msg_len sink0), at := Sum 0 2\<rparr> = after_call"
    by (simp add: after_call_def sink0_def MTU_SIZE_def MAX_MSG_def)
  ultimately have "run (mmsg_step (\<lambda>n. min n MTU_SIZE)) ([] @ [Datagrams [10, 3000]]) after_call"
    by (metis run.start run.step)
  moreover have "register_step after_call (after_call\<lparr>held_bytes := Some (bytes after_call)\<rparr>)"
    by (rule register_step.load_bytes) (simp_all add: after_call_def sink0_def)
  then have "register_step after_call bytes_loaded" by (simp add: bytes_loaded_def after_call_def sink0_def)
  ultimately have "run (mmsg_step (\<lambda>n. min n MTU_SIZE)) (([] @ [Datagrams [10, 3000]]) @ [Next]) bytes_loaded"
    by (rule run.register)
  then have "run (mmsg_step (\<lambda>n. min n MTU_SIZE)) ((([] @ [Datagrams [10, 3000]]) @ [Next]) @ [Alarm]) (interrupt bytes_loaded)"
    by (rule run.alarm) (simp add: bytes_loaded_def after_call_def)
  then have l: "recvmmsg_loop all_works [Datagrams [10, 3000], Next, Alarm] (interrupt bytes_loaded)"
    unfolding recvmmsg_loop_def sink_program_def all_works_starts by simp
  have "(recvmmsg_loop all_works, \<lambda>n. min n MTU_SIZE) \<in> set (sinks all_works)" by (simp add: sinks_def)
  from sinks_count [OF this l] l show ?thesis
    by (simp add: received_def MTU_SIZE_def interrupt_def timer_handler_def bytes_loaded_def after_call_def sink0_def)
qed

end
