(* ===== verification/Alu32.thy ===== *)
theory Alu32
  imports Prelude
begin

text \<open>
  \<open>2019-04-ebpf-alu32/bpf\<close>: 64-bit subtraction out of 32-bit operations, as socket filters that take their
  operands from a map of three entries and leave the result there, and three 32-bit subtractions.

  The theorem: by the C source the four filters do the same, and that is subtraction modulo $2^{64}$. (The README
  shows that two of them, compiled and run by the kernel of its time, do not.)
\<close>

unbundle bit_operations_syntax

section \<open>The functions\<close>

text \<open>A store through a volatile pointer stores the value: \<open>sub64_stv\<close> and the \<open>volatile\<close> variants differ in code alone.\<close>

definition sub64_alu32 :: "u64 \<Rightarrow> u64 \<Rightarrow> u64" where
  "sub64_alu32 x y =
     (let xl = ucast x :: u32; yl = ucast y :: u32; lo = xl - yl;
          xh = ucast (drop_bit 32 x) :: u32; yh = ucast (drop_bit 32 y) :: u32;
          hi = xh - yh - (if lo > xl then 1 else 0)
      in push_bit 32 (ucast hi) OR ucast lo)"

definition sub64_stv :: "u64 \<Rightarrow> u64 \<Rightarrow> u64" where
  "sub64_stv x y =
     (let xl = ucast x :: u32; yl = ucast y :: u32; lo = xl - yl;
          xh = ucast (drop_bit 32 x) :: u32; yh = ucast (drop_bit 32 y) :: u32;
          hi = xh - yh - (if lo > xl then 1 else 0)
      in push_bit 32 (ucast hi) OR ucast lo)"

definition sub64_ir :: "u64 \<Rightarrow> u64 \<Rightarrow> u64" where
  "sub64_ir x y =
     (let xl = ucast x :: u32; yl = ucast y :: u32; lo = xl - yl;
          xh = ucast (drop_bit 32 x) :: u32; yh = ucast (drop_bit 32 y) :: u32;
          hi = xh - yh - (if lo > xl then 1 else 0)
      in push_bit 32 (ucast hi) OR ucast lo)"

definition sub32_v1 :: "u64 \<Rightarrow> u64 \<Rightarrow> u64" where
  "sub32_v1 x y = (let r = (ucast x :: u32) - ucast y in ucast r)"

definition sub32_v2 :: "u64 \<Rightarrow> u64 \<Rightarrow> u64" where
  "sub32_v2 x y = (let r = (ucast x :: u32) - ucast y in ucast r)"

definition sub32_v3 :: "u64 \<Rightarrow> u64 \<Rightarrow> u64" where
  "sub32_v3 x y = (let r = (ucast x :: u32) - ucast y in ucast r)"

section \<open>The filters\<close>

definition ARG_0 :: nat where "ARG_0 = 0"
definition ARG_1 :: nat where "ARG_1 = 1"
definition RES_0 :: nat where "RES_0 = 2"
definition MAX_KEY :: nat where "MAX_KEY = 3"
definition SK_PASS :: int where "SK_PASS = 1"

text \<open>The array map \<open>args\<close>: a lookup behind its end finds nothing, an update there fails.\<close>

definition args_get :: "nat \<Rightarrow> u64 list \<Rightarrow> u64" where
  "args_get key args = (if key < length args then args ! key else 0)"

definition args_put :: "nat \<Rightarrow> u64 \<Rightarrow> u64 list \<Rightarrow> u64 list" where
  "args_put key v args = (if key < length args then args[key := v] else args)"

definition filter_alu64 :: "u64 list \<Rightarrow> int \<times> u64 list" where
  "filter_alu64 args =
     (let a = args_get ARG_0 args; b = args_get ARG_1 args; r = a - b in (SK_PASS, args_put RES_0 r args))"

definition filter_alu32 :: "u64 list \<Rightarrow> int \<times> u64 list" where
  "filter_alu32 args =
     (let a = args_get ARG_0 args; b = args_get ARG_1 args; r = sub64_alu32 a b in (SK_PASS, args_put RES_0 r args))"

definition filter_ir :: "u64 list \<Rightarrow> int \<times> u64 list" where
  "filter_ir args =
     (let a = args_get ARG_0 args; b = args_get ARG_1 args; r = sub64_ir a b in (SK_PASS, args_put RES_0 r args))"

definition filter_stv :: "u64 list \<Rightarrow> int \<times> u64 list" where
  "filter_stv args =
     (let a = args_get ARG_0 args; b = args_get ARG_1 args; r = sub64_stv a b in (SK_PASS, args_put RES_0 r args))"

section \<open>Two halves\<close>

definition halves :: "u32 \<Rightarrow> u32 \<Rightarrow> u64" where
  "halves hi lo = push_bit 32 (ucast hi) OR ucast lo"

lemma halves_add: "halves hi lo = word_of_int (uint hi * 2 ^ 32 + uint lo)"
proof -
  have "push_bit 32 (ucast hi) AND ucast lo = (0 :: u64)"
    by (rule bit_word_eqI) (auto simp: bit_simps dest: bit_imp_le_length)
  then have "halves hi lo = push_bit 32 (ucast hi) + ucast lo"
    unfolding halves_def by (rule disjunctive_add_eq_or [symmetric])
  also have "\<dots> = word_of_int (uint hi) * 2 ^ 32 + word_of_int (uint lo)"
    by (simp only: push_bit_eq_mult flip: of_int_uint [where 'a = 32]) (simp add: unsigned_word_eqI)
  finally show ?thesis by simp
qed

lemma halves_of: "halves (ucast (drop_bit 32 x)) (ucast x) = (x :: u64)"
  unfolding halves_def by (rule bit_word_eqI) (auto simp: bit_simps)

lemma uint_minus: "uint (x - y :: u32) = uint x - uint y + (if x < y then 2 ^ 32 else 0)"
  using uint_sub_if' [of x y] by (simp add: word_less_def not_le)

lemma borrow: "xl - yl > xl \<longleftrightarrow> xl < (yl :: u32)"
proof -
  have "uint yl < 2 ^ 32" "0 \<le> uint yl" using unsigned_less [of yl] by simp_all
  then show ?thesis by (auto simp: word_less_def [of xl "xl - yl"] uint_minus)
qed

lemma halves_minus:
  "halves (xh - yh - (if xl - yl > xl then 1 else 0)) (xl - yl) = halves xh xl - halves yh yl"
proof -
  define b :: u32 where "b = (if xl < yl then 1 else 0)"
  let ?d1 = "if xh < yh then 1 else 0 :: int" and ?d2 = "if xh - yh < b then 1 else 0 :: int"
  have hi: "uint (xh - yh - b) = uint xh - uint yh - uint b + (?d1 + ?d2) * 2 ^ 32"
    by (simp add: uint_minus)
  have lo: "uint (xl - yl) = uint xl - uint yl + uint b * 2 ^ 32"
    by (simp add: uint_minus b_def)
  have "uint (xh - yh - b) * 2 ^ 32 + uint (xl - yl) =
      (uint xh * 2 ^ 32 + uint xl) - (uint yh * 2 ^ 32 + uint yl) + (?d1 + ?d2) * 2 ^ 64"
    unfolding hi lo by (simp add: algebra_simps)
  moreover have "word_of_int (n + k * 2 ^ 64) = (word_of_int n :: u64)" for n k
    by (simp only: word_of_int_eq_iff take_bit_eq_mod) simp
  ultimately have "halves (xh - yh - b) (xl - yl) = halves xh xl - halves yh yl"
    unfolding halves_add by (simp only: of_int_diff)
  then show ?thesis unfolding b_def borrow .
qed

section \<open>Theorem\<close>

text \<open>
  C33: as the C source of \<open>filter.c\<close>, \<open>sub64_ir.c\<close> and \<open>sub32_v1.c\<close> to \<open>sub32_v3.c\<close> says, on any map of three
  entries the four filters leave the same map, with the difference of the two arguments modulo $2^{64}$ as the result;
  the three 32-bit functions return the low half of it. This is the meaning of the source, not a report of what the
  kernel computed: the README shows the compiled filters \<open>alu64\<close> and \<open>alu32\<close> failing their tests when they are run
  ($2^{33} - 1$ and 0 give 0 and $2^{32}$), which is the subject of the article; compiler and kernel are not modelled.
\<close>

theorem filters_subtract:
  assumes "length args = MAX_KEY"
  shows "filter_alu64 args = (SK_PASS, args[RES_0 := args ! ARG_0 - args ! ARG_1]) \<and>
    filter_alu32 args = filter_alu64 args \<and> filter_ir args = filter_alu64 args \<and> filter_stv args = filter_alu64 args \<and>
    (let r = ucast (ucast (args ! ARG_0 - args ! ARG_1) :: u32) in
     sub32_v1 (args ! ARG_0) (args ! ARG_1) = r \<and> sub32_v2 (args ! ARG_0) (args ! ARG_1) = r \<and>
     sub32_v3 (args ! ARG_0) (args ! ARG_1) = r)"
proof -
  have "sub64_alu32 x y = x - y" for x y
    using halves_minus [of "ucast (drop_bit 32 x)" "ucast (drop_bit 32 y)" "ucast x" "ucast y"]
    by (simp only: halves_of) (simp only: sub64_alu32_def Let_def halves_def)
  moreover have "sub64_ir = sub64_alu32" "sub64_stv = sub64_alu32"
    by (simp_all only: fun_eq_iff sub64_alu32_def sub64_ir_def sub64_stv_def) simp_all
  moreover have "(ucast x :: u32) - ucast y = ucast (x - y)" for x y :: u64
    by (rule word_uint_eqI) (simp add: uint_word_ariths unsigned_ucast_eq take_bit_eq_mod mod_simps, simp add: mod_mod_cancel)
  ultimately show ?thesis
    using assms
    by (simp add: filter_alu64_def filter_alu32_def filter_ir_def filter_stv_def args_get_def args_put_def
        ARG_0_def ARG_1_def RES_0_def MAX_KEY_def sub32_v1_def sub32_v2_def sub32_v3_def Let_def)
qed

text \<open>The two runs of the README: the values the source gives, which are those its tests want.\<close>

theorem filters_subtract_witness:
  "length [0x1ffffffff, 0, 0 :: u64] = MAX_KEY \<and> length [0x100000000, 1, 0 :: u64] = MAX_KEY \<and>
   filter_alu64 [0x1ffffffff, 0, 0] = (SK_PASS, [0x1ffffffff, 0, 0x1ffffffff]) \<and>
   filter_alu32 [0x1ffffffff, 0, 0] = (SK_PASS, [0x1ffffffff, 0, 0x1ffffffff]) \<and>
   filter_alu64 [0x100000000, 1, 0] = (SK_PASS, [0x100000000, 1, 0xffffffff])"
  using filters_subtract [of "[0x1ffffffff, 0, 0]"] filters_subtract [of "[0x100000000, 1, 0]"]
  by (simp add: MAX_KEY_def RES_0_def ARG_0_def ARG_1_def)

end
