(* ===== verification/Gadget_Run.thy ===== *)
theory Gadget_Run
  imports Prelude
begin

text \<open>
  The programs of \<open>2021-05-branch-prediction\<close> write a block of machine code and run it. Here: the block, and what
  running code means for any machine whose step reads the bytes from the instruction pointer on.
\<close>

section \<open>The block\<close>

text \<open>
  \<open>struct blob\<close>: the bytes written from \<open>ptr\<close> on, and the offsets of \<open>ptr_fn\<close> and \<open>ptr_ret\<close>. The mapping at
  \<open>ptr_shadow\<close> holds the same bytes.
\<close>

record blob =
  blob_code :: bytes
  ptr_fn :: nat
  ptr_ret :: nat

text \<open>\<open>Bad_type\<close>: the type is not known; \<open>Overrun\<close>: a byte is written behind the end of the block.\<close>

datatype blob_stop = Bad_type | Overrun | Mprotect_failed

definition PUTN :: "u8 \<Rightarrow> int \<Rightarrow> bytes" where
  "PUTN x n = replicate (nat n) x"

definition PUTQ :: "int \<Rightarrow> bytes" where
  "PUTQ y = le_bytes 4 (word_of_int y :: u32)"

definition PUTQ3 :: "int \<Rightarrow> bytes" where
  "PUTQ3 y = take 3 (le_bytes 4 (word_of_int y :: u32))"

text \<open>The bytes a loop with \<open>i\<close> from 0 to \<open>n\<close> writes.\<close>

definition put_loop :: "int \<Rightarrow> (nat \<Rightarrow> bytes) \<Rightarrow> bytes" where
  "put_loop n f = concat (map f [0..<nat n])"

section \<open>Running\<close>

text \<open>
  \<open>step code s\<close> is \<open>None\<close> when there is no instruction the machine knows at the instruction pointer; otherwise the
  instruction, and the next state unless it returned to the caller of the code. With enough steps \<open>run_code\<close> gives the
  instructions executed until then.
\<close>

fun run_code :: "(bytes \<Rightarrow> 's \<Rightarrow> ('i \<times> 's option) option) \<Rightarrow> bytes \<Rightarrow> nat \<Rightarrow> 's \<Rightarrow> 'i list option" where
  "run_code step code 0 s = None"
| "run_code step code (Suc n) s =
     (case step code s of
        None \<Rightarrow> None
      | Some (i, None) \<Rightarrow> Some [i]
      | Some (i, Some s') \<Rightarrow> map_option (Cons i) (run_code step code n s'))"

text \<open>From one state to another, by these instructions.\<close>

fun follow :: "(bytes \<Rightarrow> 's \<Rightarrow> ('i \<times> 's option) option) \<Rightarrow> bytes \<Rightarrow> 'i list \<Rightarrow> 's \<Rightarrow> 's option" where
  "follow step code [] s = Some s"
| "follow step code (i # is) s =
     (case step code s of
        Some (j, Some s') \<Rightarrow> if j = i then follow step code is s' else None
      | _ \<Rightarrow> None)"

lemma follow_append:
  "follow step code xs s = Some s' \<Longrightarrow> follow step code (xs @ ys) s = follow step code ys s'"
  by (induction xs arbitrary: s) (auto split: option.splits prod.splits if_splits)

lemma follow_run:
  "follow step code xs s = Some s' \<Longrightarrow> run_code step code (length xs + n) s = map_option ((@) xs) (run_code step code n s')"
proof (induction xs arbitrary: s)
  case Nil
  then show ?case by (cases "run_code step code n s") simp_all
next
  case (Cons i xs)
  then show ?case
    by (auto split: option.splits prod.splits if_splits simp: option.map_comp o_def)
qed

text \<open>A run that ends with a return.\<close>

lemma run_to_return:
  assumes "follow step code xs s = Some s'" "step code s' = Some (r, None)"
  shows "run_code step code (length xs + 1) s = Some (xs @ [r])"
  using follow_run [OF assms(1), of 1] assms(2) by simp

lemma run_more: "run_code step code n s = Some is \<Longrightarrow> n \<le> m \<Longrightarrow> run_code step code m s = Some is"
proof (induction step code n s arbitrary: m "is" rule: run_code.induct)
  case (2 step code n s)
  then obtain m' where m: "m = Suc m'" "n \<le> m'" by (cases m) auto
  from 2(2) show ?case unfolding m(1)
    by (auto split: option.splits prod.splits dest!: 2(1) [OF _ _ _ _ m(2)])
qed simp

text \<open>A loop of the machine: each round goes from one state to the next.\<close>

lemma follow_loop:
  assumes "\<And>i. i < n \<Longrightarrow> follow step code (f i) (st i) = Some (st (Suc i))"
  shows "follow step code (concat (map f [0..<n])) (st 0) = Some (st n)"
  using assms
proof (induction n)
  case (Suc n)
  then have "follow step code (concat (map f [0..<n])) (st 0) = Some (st n)" by simp
  from follow_append [OF this] show ?case using Suc.prems [of n] by simp
qed simp

section \<open>Where a loop writes\<close>

lemma length_put_loop: "(\<And>i. length (f i) = w) \<Longrightarrow> length (put_loop n f) = nat n * w"
  by (simp add: put_loop_def length_concat o_def sum_list_triv)

lemma drop_put_loop:
  assumes "\<And>i. length (f i) = w" "i < nat n"
  shows "\<exists>rest. drop (length pre + i * w) (pre @ put_loop n f @ post) = f i @ rest"
proof -
  have "[0..<nat n] = [0..<i] @ i # [Suc i..<nat n]"
    using assms(2) upt_add_eq_append [of 0 i "nat n - i"] upt_conv_Cons by auto
  then have "put_loop n f = put_loop (int i) f @ f i @ concat (map f [Suc i..<nat n])"
    by (simp add: put_loop_def)
  moreover have "length (put_loop (int i) f) = i * w" using length_put_loop [of f w "int i"] assms(1) by simp
  ultimately show ?thesis by (simp add: drop_append)
qed

text \<open>The code has these bytes from an offset on.\<close>

definition code_at :: "bytes \<Rightarrow> int \<Rightarrow> bytes \<Rightarrow> bool" where
  "code_at code r bs \<longleftrightarrow> 0 \<le> r \<and> (\<exists>rest. drop (nat r) code = bs @ rest)"

lemma code_atI: "drop n code = bs @ rest \<Longrightarrow> code_at code (int n) bs"
  by (auto simp: code_at_def)

lemma code_at_append: "code_at code r (xs @ ys) \<longleftrightarrow> code_at code r xs \<and> code_at code (r + int (length xs)) ys"
proof
  assume "code_at code r (xs @ ys)"
  then obtain rest where r: "0 \<le> r" "drop (nat r) code = xs @ ys @ rest" by (auto simp: code_at_def)
  have "nat (r + int (length xs)) = length xs + nat r" using r(1) by simp
  then have "drop (nat (r + int (length xs))) code = ys @ rest" using r(2) by (simp flip: drop_drop)
  then show "code_at code r xs \<and> code_at code (r + int (length xs)) ys" using r by (auto simp: code_at_def)
next
  assume "code_at code r xs \<and> code_at code (r + int (length xs)) ys"
  then obtain r1 r2 where r: "0 \<le> r" "drop (nat r) code = xs @ r1" "drop (nat (r + int (length xs))) code = ys @ r2"
    by (auto simp: code_at_def)
  have "nat (r + int (length xs)) = length xs + nat r" using r(1) by simp
  then have "r1 = ys @ r2" using r(2,3) by (simp flip: drop_drop)
  then show "code_at code r (xs @ ys)" using r by (auto simp: code_at_def)
qed

lemma length_PUTQ [simp]: "length (PUTQ d) = 4"
  by (simp add: PUTQ_def)

lemma length_PUTN [simp]: "length (PUTN x n) = nat n"
  by (simp add: PUTN_def)

lemma code_at_loop:
  assumes "code = pre @ put_loop n f @ post" "\<And>i. length (f i) = w" "i < nat n"
  shows "code_at code (int (length pre) + int i * int w) (f i)"
proof -
  obtain rest where "drop (length pre + i * w) code = f i @ rest"
    using drop_put_loop [of f w i n pre post] assms by auto
  from code_atI [OF this] show ?thesis by simp
qed

lemma code_at_end:
  assumes "code = pre @ put_loop n f @ post" "\<And>i. length (f i) = w"
  shows "code_at code (int (length pre) + int (nat n) * int w) post"
proof -
  have "drop (length pre + nat n * w) code = post @ []"
    using assms(1) length_put_loop [of f w n] assms(2) by simp
  from code_atI [OF this] show ?thesis by simp
qed

text \<open>
  A loop of the code: round \<open>i\<close> leads from \<open>S i\<close> at its block to \<open>S (i + 1)\<close> behind it; there is code before the
  loop and behind it, and a return.
\<close>

lemma run_put_loop:
  assumes code: "code = pre @ put_loop n f @ post" and len: "\<And>i. length (f i) = w"
    and body: "\<And>i r. i < nat n \<Longrightarrow> r = int (length pre) + int i * int w \<Longrightarrow> code_at code r (f i) \<Longrightarrow>
      follow step code (tr i) (S i r) = Some (S (Suc i) (r + int w))"
    and entry: "follow step code before s = Some (S 0 (int (length pre)))"
    and behind: "follow step code after (S (nat n) (int (length pre) + int (nat n) * int w)) = Some s'"
    and ret: "step code s' = Some (r, None)"
    and tr: "is = before @ concat (map tr [0..<nat n]) @ after @ [r]"
  shows "run_code step code (length is) s = Some is"
proof -
  let ?st = "\<lambda>i. S i (int (length pre) + int i * int w)"
  have "follow step code (tr i) (?st i) = Some (?st (Suc i))" if "i < nat n" for i
    using body [OF that refl code_at_loop [OF code len that]] by (simp add: algebra_simps)
  from follow_loop [of "nat n" step code tr ?st, OF this]
  have "follow step code (concat (map tr [0..<nat n])) (S 0 (int (length pre))) =
      Some (S (nat n) (int (length pre) + int (nat n) * int w))" by simp
  then have "follow step code (concat (map tr [0..<nat n]) @ after) (S 0 (int (length pre))) = Some s'"
    using behind by (simp add: follow_append)
  then have "follow step code (before @ concat (map tr [0..<nat n]) @ after) s = Some s'"
    using follow_append [OF entry] by simp
  from run_to_return [OF this ret] show ?thesis unfolding tr by simp
qed

lemma length_filter_times:
  "(\<And>i. length (filter P (f i)) = k) \<Longrightarrow> length (filter P (concat (map f [0..<m]))) = m * k"
  by (simp add: filter_concat length_concat o_def sum_list_triv)

lemma some_if: "(if p then Some x else None) = Some y \<longleftrightarrow> p \<and> y = x"
  by auto

end
