(* ===== verification/Gadget_Arm.thy ===== *)
theory Gadget_Arm
  imports Gadget_Run
begin

text \<open>
  \<open>2021-05-branch-prediction/gadget.c\<close> for AArch64: the code written for each type of gadget, and a machine with
  the instructions it is made of.

  The theorem: the code of each type, run as the program runs it, returns, and executes exactly the branches that
  are to be measured. What fills the space between them is not the instruction it is meant to be.
\<close>

unbundle bit_operations_syntax

section \<open>The code\<close>

definition ASSUMED_SZ :: nat where "ASSUMED_SZ = 512 * 1024 * 1024"

definition nop_op :: bytes where "nop_op = [0xd5, 0x03, 0x20, 0x1f]"
definition ret_op :: bytes where "ret_op = [0xc0, 0x03, 0x5f, 0xd6]"
definition stp_x30 :: bytes where "stp_x30 = [0xfd, 0x7b, 0xbf, 0xa9]"
definition ldp_x30 :: bytes where "ldp_x30 = [0xfd, 0x7b, 0xc1, 0xa8]"
definition mov_cmp :: bytes where "mov_cmp = [0x40, 0x00, 0x80, 0x52, 0x1f, 0x2c, 0x00, 0x71]"

text \<open>\<open>n\<close> times \<open>nop_op\<close>; the loop \<open>for (; j < alignment; j += 4)\<close> from \<open>j\<close> on. Divisions of C round to 0.\<close>

definition nops :: "nat \<Rightarrow> bytes" where
  "nops n = concat (replicate n nop_op)"

definition fill_up :: "int \<Rightarrow> int \<Rightarrow> bytes" where
  "fill_up j alignment = nops (nat ((alignment - j + 3) div 4))"

definition cdiv4 :: "int \<Rightarrow> int" where
  "cdiv4 x = (if x < 0 then - (- x div 4) else x div 4)"

definition at_least_4 :: "int \<Rightarrow> int" where
  "at_least_4 alignment = (if alignment < 4 then 4 else alignment)"

definition fill_call_dedicated_ret :: "int \<Rightarrow> int \<Rightarrow> blob" where
  "fill_call_dedicated_ret alignment cycle_count =
     (let alignment = at_least_4 alignment;
          head = nops 5 @ ret_op;
          code = head @ stp_x30 @ PUTQ3 (cdiv4 (4 + alignment * cycle_count)) @ [0x14] @
            put_loop cycle_count (\<lambda>i. ret_op @ fill_up 4 alignment) @
            put_loop cycle_count (\<lambda>i. PUTQ3 (cdiv4 (- alignment * cycle_count)) @ [0x97] @ fill_up 4 alignment) @ ldp_x30
      in \<lparr>blob_code = code @ ret_op, ptr_fn = length head, ptr_ret = length code\<rparr>)"

definition fill_call_shared_ret :: "int \<Rightarrow> int \<Rightarrow> blob" where
  "fill_call_shared_ret alignment cycle_count =
     (let alignment = at_least_4 alignment;
          head = nops 6 @ ret_op;
          code = head @ stp_x30 @
            put_loop cycle_count (\<lambda>i. PUTQ3 (cdiv4 (- (8 + int i * alignment))) @ [0x97] @ fill_up 4 alignment) @ ldp_x30
      in \<lparr>blob_code = code @ ret_op, ptr_fn = length head, ptr_ret = length code\<rparr>)"

text \<open>A conditional branch: the 19 bits of the offset from bit 5 on, and the condition.\<close>

definition put_cond :: "u32 \<Rightarrow> u32 \<Rightarrow> bytes" where
  "put_cond x c = [ucast (push_bit 5 (x AND 0x7) OR c), ucast (drop_bit 3 x), ucast (drop_bit 11 x), 0x54]"

definition fill_jne_never_taken :: "int \<Rightarrow> int \<Rightarrow> blob" where
  "fill_jne_never_taken alignment cycle_count =
     (let alignment = at_least_4 alignment;
          head = nops 6 @ ret_op;
          code = head @ mov_cmp @ put_loop cycle_count (\<lambda>i. put_cond (word_of_int (- 1)) 0x0 @ fill_up 4 alignment)
      in \<lparr>blob_code = code @ ret_op, ptr_fn = length head, ptr_ret = length code\<rparr>)"

definition fill_je_always_taken :: "int \<Rightarrow> int \<Rightarrow> blob" where
  "fill_je_always_taken alignment cycle_count =
     (let alignment = at_least_4 alignment;
          head = nops 6 @ ret_op;
          code = head @ mov_cmp @
            put_loop cycle_count (\<lambda>i. put_cond (word_of_int (cdiv4 alignment)) 0x1 @ fill_up 4 alignment)
      in \<lparr>blob_code = code @ ret_op, ptr_fn = length head, ptr_ret = length code\<rparr>)"

definition fill_jmp_weaved :: "int \<Rightarrow> int \<Rightarrow> blob" where
  "fill_jmp_weaved alignment cycle_count =
     (let head = nops 7 @ ret_op;
          jumps = (if alignment \<ge> 8 then 2 else 1);
          code = head @
            put_loop cycle_count (\<lambda>i. concat (replicate jumps [word_of_int (cdiv4 alignment), 0x00, 0x00, 0x14]) @
              fill_up (4 * int jumps) alignment)
      in \<lparr>blob_code = code @ ret_op @ ret_op, ptr_fn = length head, ptr_ret = length code\<rparr>)"

definition fill_jmp :: "int \<Rightarrow> int \<Rightarrow> blob" where
  "fill_jmp alignment cycle_count =
     (let alignment = at_least_4 alignment;
          head = nops 7 @ ret_op;
          code = head @
            put_loop cycle_count (\<lambda>i. [word_of_int (cdiv4 alignment), 0x00, 0x00, 0x14] @ fill_up 4 alignment)
      in \<lparr>blob_code = code @ ret_op, ptr_fn = length head, ptr_ret = length code\<rparr>)"

definition gadget_of :: "int \<Rightarrow> int \<Rightarrow> string \<Rightarrow> blob option" where
  "gadget_of alignment cycle_count type =
     (if type = ''call_dedicated_ret'' then Some (fill_call_dedicated_ret alignment cycle_count)
      else if type = ''call_shared_ret'' then Some (fill_call_shared_ret alignment cycle_count)
      else if type = ''jne_never_taken'' then Some (fill_jne_never_taken alignment cycle_count)
      else if type = ''je_always_taken'' then Some (fill_je_always_taken alignment cycle_count)
      else if type = ''jmp_weaved'' then Some (fill_jmp_weaved alignment cycle_count)
      else if type = ''jmp'' then Some (fill_jmp alignment cycle_count)
      else None)"

text \<open>\<open>r\<close>: the result of \<open>mprotect\<close>, which comes before the type is found not to be known.\<close>

definition blob_fill_code :: "int \<Rightarrow> int \<Rightarrow> int \<Rightarrow> string \<Rightarrow> blob_stop + blob" where
  "blob_fill_code r alignment cycle_count type =
     (case gadget_of alignment cycle_count type of
        None \<Rightarrow> if r \<noteq> 0 then Inl Mprotect_failed else Inl Bad_type
      | Some b \<Rightarrow>
          if length (blob_code b) \<le> ASSUMED_SZ then if r \<noteq> 0 then Inl Mprotect_failed else Inr b
          else Inl Overrun)"

section \<open>The machine\<close>

text \<open>\<open>Fnmadd\<close>: a floating-point instruction; it changes no register of the model.\<close>

datatype instr =
    Fnmadd
  | Ret
  | B int
  | Bl int
  | B_eq int
  | B_ne int
  | Mov_w0 u32
  | Cmp_w0 u32
  | Push
  | Pop

definition decode_word :: "u32 \<Rightarrow> instr option" where
  "decode_word w =
     (if w AND 0xffe08000 = 0x1f200000 then Some Fnmadd
      else if w = 0xd65f03c0 then Some Ret
      else if drop_bit 26 w = 0x05 then Some (B (4 * sint (ucast w :: 26 word)))
      else if drop_bit 26 w = 0x25 then Some (Bl (4 * sint (ucast w :: 26 word)))
      else if drop_bit 24 w = 0x54 \<and> w AND 0x1f = 0 then Some (B_eq (4 * sint (ucast (drop_bit 5 w) :: 19 word)))
      else if drop_bit 24 w = 0x54 \<and> w AND 0x1f = 1 then Some (B_ne (4 * sint (ucast (drop_bit 5 w) :: 19 word)))
      else if w AND 0xffe0001f = 0x52800000 then Some (Mov_w0 (drop_bit 5 w AND 0xffff))
      else if w AND 0xffc003ff = 0x7100001f then Some (Cmp_w0 (drop_bit 10 w AND 0xfff))
      else if w = 0xa9bf7bfd then Some Push
      else if w = 0xa8c17bfd then Some Pop
      else None)"

text \<open>
  \<open>x30\<close> and \<open>saved\<close>: the return address, \<open>None\<close> for that of the caller of the code, and those stored on the
  stack (with \<open>x29\<close>, which the code does not use). The instruction pointer is a multiple of 4.
\<close>

record arm =
  pc :: int
  zf :: bool
  w0 :: u32
  x30 :: "int option"
  saved :: "int option list"

fun execute :: "instr \<Rightarrow> arm \<Rightarrow> arm option option" where
  "execute Fnmadd s = Some (Some (s\<lparr>pc := pc s + 4\<rparr>))"
| "execute Ret s =
     (case x30 s of
        Some a \<Rightarrow> Some (Some (s\<lparr>pc := a\<rparr>))
      | None \<Rightarrow> if saved s = [] then Some None else None)"
| "execute (B d) s = Some (Some (s\<lparr>pc := pc s + d\<rparr>))"
| "execute (Bl d) s = Some (Some (s\<lparr>pc := pc s + d, x30 := Some (pc s + 4)\<rparr>))"
| "execute (B_eq d) s = Some (Some (s\<lparr>pc := pc s + (if zf s then d else 4)\<rparr>))"
| "execute (B_ne d) s = Some (Some (s\<lparr>pc := pc s + (if zf s then 4 else d)\<rparr>))"
| "execute (Mov_w0 v) s = Some (Some (s\<lparr>pc := pc s + 4, w0 := v\<rparr>))"
| "execute (Cmp_w0 v) s = Some (Some (s\<lparr>pc := pc s + 4, zf := (w0 s = v)\<rparr>))"
| "execute Push s = Some (Some (s\<lparr>pc := pc s + 4, saved := x30 s # saved s\<rparr>))"
| "execute Pop s =
     (case saved s of
        [] \<Rightarrow> None
      | a # st \<Rightarrow> Some (Some (s\<lparr>pc := pc s + 4, x30 := a, saved := st\<rparr>)))"

definition arm_step :: "bytes \<Rightarrow> arm \<Rightarrow> (instr \<times> arm option) option" where
  "arm_step code s =
     (if 0 \<le> pc s \<and> 4 dvd pc s \<and> pc s + 4 \<le> int (length code) then
        (case decode_word (word_of_le (take 4 (drop (nat (pc s)) code))) of
           None \<Rightarrow> None
         | Some i \<Rightarrow> map_option (Pair i) (execute i s))
      else None)"

definition call_at :: "bool \<Rightarrow> u32 \<Rightarrow> nat \<Rightarrow> arm" where
  "call_at z v entry = \<lparr>pc = int entry, zf = z, w0 = v, x30 = None, saved = []\<rparr>"

definition blob_exec :: "nat \<Rightarrow> bool \<Rightarrow> u32 \<Rightarrow> blob \<Rightarrow> instr list option" where
  "blob_exec n z v b = run_code arm_step (blob_code b) n (call_at z v (ptr_fn b))"

definition blob_warm_itlb :: "nat \<Rightarrow> bool \<Rightarrow> u32 \<Rightarrow> blob \<Rightarrow> (instr list \<times> instr list) option" where
  "blob_warm_itlb n z v b =
     (case run_code arm_step (blob_code b) n (call_at z v 0) of
        None \<Rightarrow> None
      | Some t1 \<Rightarrow> map_option (Pair t1) (run_code arm_step (blob_code b) n (call_at z v (ptr_ret b))))"

definition blob_warm_icache :: "nat \<Rightarrow> bool \<Rightarrow> u32 \<Rightarrow> blob \<Rightarrow> int \<Rightarrow> string \<Rightarrow> instr list option" where
  "blob_warm_icache n z v b alignment type =
     (if type = ''jmp_weaved'' then
        if alignment < 8 then Some []
        else run_code arm_step (blob_code b) n (call_at z v (ptr_fn b + 4))
      else Some [])"

section \<open>One instruction\<close>

abbreviation st :: "int \<Rightarrow> bool \<Rightarrow> u32 \<Rightarrow> int option \<Rightarrow> int option list \<Rightarrow> arm" where
  "st r z v x k \<equiv> \<lparr>pc = r, zf = z, w0 = v, x30 = x, saved = k\<rparr>"

lemma step_word:
  assumes "code_at code r bs" "length bs = 4" "4 dvd r" "decode_word (word_of_le bs) = Some i"
  shows "arm_step code (st r z v x k) = map_option (Pair i) (execute i (st r z v x k))"
proof -
  obtain rest where r: "0 \<le> r" "drop (nat r) code = bs @ rest" using assms(1) by (auto simp: code_at_def)
  have "length code - nat r = 4 + length rest" using arg_cong [OF r(2), of length] assms(2) by simp
  then have "r + 4 \<le> int (length code)" using r(1) by linarith
  then show ?thesis using r assms(2-4) by (simp add: arm_step_def)
qed

lemma decode_ops:
  "decode_word (word_of_le nop_op) = Some Fnmadd" "decode_word (word_of_le ret_op) = Some Ret"
  "decode_word (word_of_le stp_x30) = Some Push" "decode_word (word_of_le ldp_x30) = Some Pop"
  "decode_word (word_of_le (take 4 mov_cmp)) = Some (Mov_w0 2)"
  "decode_word (word_of_le (drop 4 mov_cmp)) = Some (Cmp_w0 11)"
  by code_simp+

lemma length_ops [simp]:
  "length nop_op = 4" "length ret_op = 4" "length stp_x30 = 4" "length ldp_x30 = 4" "length mov_cmp = 8"
  "length (PUTQ3 x) = 3" "length (put_cond y c) = 4" "length (nops n) = 4 * n"
  by (simp_all add: nop_op_def ret_op_def stp_x30_def ldp_x30_def mov_cmp_def PUTQ3_def put_cond_def nops_def
      length_concat sum_list_replicate)

lemma length_fill_up [simp]: "length (fill_up j a) = 4 * nat ((a - j + 3) div 4)"
  by (simp add: fill_up_def)

lemma arm_step_ret: "code_at code r ret_op \<Longrightarrow> 4 dvd r \<Longrightarrow> arm_step code (st r z v (Some a) k) = Some (Ret, Some (st a z v (Some a) k))"
  by (simp add: step_word decode_ops)

lemma arm_step_return: "code_at code r ret_op \<Longrightarrow> 4 dvd r \<Longrightarrow> arm_step code (st r z v None []) = Some (Ret, None)"
  by (simp add: step_word decode_ops)

lemma step_push: "code_at code r stp_x30 \<Longrightarrow> 4 dvd r \<Longrightarrow> arm_step code (st r z v x k) = Some (Push, Some (st (r + 4) z v x (x # k)))"
  by (simp add: step_word decode_ops)

lemma step_pop: "code_at code r ldp_x30 \<Longrightarrow> 4 dvd r \<Longrightarrow> arm_step code (st r z v x (y # k)) = Some (Pop, Some (st (r + 4) z v y k))"
  by (simp add: step_word decode_ops)

lemma arm_follow_nops:
  assumes "code_at code r (nops n)" "4 dvd r"
  shows "follow arm_step code (replicate n Fnmadd) (st r z v x k) = Some (st (r + 4 * int n) z v x k)"
  using assms
proof (induction n arbitrary: r)
  case (Suc n)
  then have "code_at code r nop_op" "code_at code (r + 4) (nops n)"
    using code_at_append [of code r nop_op "nops n"] by (simp_all add: nops_def)
  moreover have "4 dvd r + 4" using Suc.prems(2) by simp
  ultimately show ?case using Suc.IH [of "r + 4"] Suc.prems(2) by (simp add: step_word decode_ops algebra_simps)
qed simp

lemma follow_mov_cmp:
  assumes "code_at code r mov_cmp" "4 dvd r"
  shows "follow arm_step code [Mov_w0 2, Cmp_w0 11] (st r z v x k) = Some (st (r + 8) False 2 x k)"
proof -
  have "code_at code r (take 4 mov_cmp)" "code_at code (r + 4) (drop 4 mov_cmp)"
    using assms(1) code_at_append [of code r "take 4 mov_cmp" "drop 4 mov_cmp"] by simp_all
  moreover have "4 dvd r + 4" using assms(2) by simp
  ultimately show ?thesis using assms(2) by (simp add: step_word decode_ops)
qed

section \<open>Branches\<close>

lemma bit_PUTQ3:
  assumes "k < 32"
  shows "bit (word_of_le (PUTQ3 x @ [t]) :: u32) k \<longleftrightarrow> (if k < 24 then bit x k else bit t (k - 24))"
proof (cases "k < 24")
  case True
  define q where "q = k div 8"
  have q: "q < 3" "8 * q + k mod 8 = k" "k mod 8 < 8" using True unfolding q_def by simp_all
  then have "(PUTQ3 x @ [t]) ! q = ucast (drop_bit (8 * q) (word_of_int x :: u32))"
    by (simp add: PUTQ3_def nth_append nth_le_bytes)
  then have "bit ((PUTQ3 x @ [t]) ! q) (k mod 8) \<longleftrightarrow> bit x k" using q True by (simp add: bit_simps)
  then show ?thesis using True assms by (simp add: bit_word_of_le q_def)
next
  case False
  then have "k div 8 = 3" "k mod 8 = k - 24" using assms by presburger+
  then show ?thesis using False assms by (simp add: bit_word_of_le nth_append)
qed

lemma not_other:
  assumes "drop_bit 26 w = (c :: u32)" "c = 0x05 \<or> c = 0x25 \<or> c = 0x15"
  shows "w AND 0xffe08000 \<noteq> 0x1f200000" "w \<noteq> 0xd65f03c0"
proof -
  have d: "drop_bit 26 (w AND 0xffe08000) = c AND 0x3f" using assms(1) by (simp add: drop_bit_and)
  have v: "drop_bit 26 (0x1f200000 :: u32) = 7" "(0x05 AND 0x3f :: u32) = 0x05" "(0x25 AND 0x3f :: u32) = 0x25"
    "(0x15 AND 0x3f :: u32) = 0x15" by code_simp+
  show "w AND 0xffe08000 \<noteq> 0x1f200000"
  proof
    assume e: "w AND 0xffe08000 = 0x1f200000"
    have "c AND 0x3f = 7" using d unfolding e v(1) by (rule sym)
    then show False using assms(2) v(2-4) by auto
  qed
  have "drop_bit 26 (0xd65f03c0 :: u32) = 0x35" by code_simp
  then show "w \<noteq> 0xd65f03c0" using assms by auto
qed

lemma bit_sign:
  fixes x :: int
  assumes "- (2 ^ n) \<le> x" "x < 2 ^ n" "n \<le> k"
  shows "bit x k \<longleftrightarrow> x < 0"
proof -
  have "signed_take_bit n x = x" using assms by (simp add: signed_take_bit_int_eq_self)
  then have "bit x k = bit (signed_take_bit n x) k" "x < 0 \<longleftrightarrow> bit x n" by (simp_all flip: signed_take_bit_negative_iff)
  then show ?thesis using assms(3) by (simp add: bit_signed_take_bit_iff min_def)
qed

lemma branch_word:
  assumes "- (2 ^ 24) \<le> x" "x < 2 ^ 24" "t = (if x < 0 then 0x97 else 0x14)"
  shows "drop_bit 26 (word_of_le (PUTQ3 x @ [t]) :: u32) = (if x < 0 then 0x25 else 0x05)"
    "sint (ucast (word_of_le (PUTQ3 x @ [t]) :: u32) :: 26 word) = x"
proof -
  let ?w = "word_of_le (PUTQ3 x @ [t]) :: u32"
  have "drop_bit 26 ?w = ucast (drop_bit 2 t)"
  proof (rule bit_word_eqI)
    fix k assume "k < LENGTH(32)"
    show "bit (drop_bit 26 ?w) k \<longleftrightarrow> bit (ucast (drop_bit 2 t) :: u32) k"
    proof (cases "k < 6")
      case True
      then show ?thesis using bit_PUTQ3 [of "26 + k" x t] by (simp add: bit_simps)
    next
      case False
      then show ?thesis by (auto simp: bit_simps dest: bit_imp_le_length)
    qed
  qed
  moreover have "ucast (drop_bit 2 (0x97 :: u8)) = (0x25 :: u32)" "ucast (drop_bit 2 (0x14 :: u8)) = (0x05 :: u32)" by code_simp+
  ultimately show "drop_bit 26 ?w = (if x < 0 then 0x25 else 0x05)" using assms(3) by (simp del: drop_bit_numeral_bit0 drop_bit_numeral_bit1)
  have low: "bit t 0 \<longleftrightarrow> x < 0" "bit t 1 \<longleftrightarrow> x < 0"
    using assms(3) by simp_all
  have "(ucast ?w :: 26 word) = word_of_int x"
  proof (rule bit_word_eqI)
    fix k assume k: "k < LENGTH(26)"
    show "bit (ucast ?w :: 26 word) k \<longleftrightarrow> bit (word_of_int x :: 26 word) k"
    proof (cases "k < 24")
      case True
      then show ?thesis using bit_PUTQ3 [of k x t] by (simp add: bit_simps)
    next
      case False
      then have "k - 24 = 0 \<or> k - 24 = 1" using k by auto
      then have "bit t (k - 24) \<longleftrightarrow> x < 0" using low by auto
      then show ?thesis using bit_PUTQ3 [of k x t] False k bit_sign [OF assms(1,2), of k] by (simp add: bit_simps)
    qed
  qed
  then show "sint (ucast ?w :: 26 word) = x" using assms(1,2) by (simp add: int_word_sint)
qed

lemma decode_branch:
  assumes "- (2 ^ 24) \<le> x" "x < 2 ^ 24"
  shows "x < 0 \<Longrightarrow> decode_word (word_of_le (PUTQ3 x @ [0x97])) = Some (Bl (4 * x))"
    "0 \<le> x \<Longrightarrow> decode_word (word_of_le (PUTQ3 x @ [0x14])) = Some (B (4 * x))"
proof -
  { assume "x < 0"
    then have "drop_bit 26 (word_of_le (PUTQ3 x @ [0x97]) :: u32) = 0x25" "sint (ucast (word_of_le (PUTQ3 x @ [0x97]) :: u32) :: 26 word) = x"
      using branch_word [OF assms refl] by simp_all
    with not_other [OF this(1)] show "decode_word (word_of_le (PUTQ3 x @ [0x97])) = Some (Bl (4 * x))"
      by (simp add: decode_word_def) }
  { assume "0 \<le> x"
    then have "drop_bit 26 (word_of_le (PUTQ3 x @ [0x14]) :: u32) = 0x05" "sint (ucast (word_of_le (PUTQ3 x @ [0x14]) :: u32) :: 26 word) = x"
      using branch_word [OF assms refl] by simp_all
    with not_other [OF this(1)] show "decode_word (word_of_le (PUTQ3 x @ [0x14])) = Some (B (4 * x))"
      by (simp add: decode_word_def) }
qed

lemma small_branch: "0 \<le> x \<Longrightarrow> x < 256 \<Longrightarrow> [word_of_int x, 0, 0, 0x14] = PUTQ3 x @ [0x14 :: u8]"
  by (auto intro!: bit_word_eqI simp: PUTQ3_def le_bytes_def bit_simps upt_rec bit_sign [of 8 x])

lemma step_b:
  assumes "code_at code r (PUTQ3 x @ [0x14])" "4 dvd r" "0 \<le> x" "x < 2 ^ 24"
  shows "arm_step code (st r z v y k) = Some (B (4 * x), Some (st (r + 4 * x) z v y k))"
proof -
  have "- (2 ^ 24) \<le> x" using assms(3) by simp
  from decode_branch(2) [OF this assms(4,3)] step_word [OF assms(1) _ assms(2)] show ?thesis by simp
qed

lemma step_bl:
  assumes "code_at code r (PUTQ3 x @ [0x97])" "4 dvd r" "- (2 ^ 24) \<le> x" "x < 0"
  shows "arm_step code (st r z v y k) = Some (Bl (4 * x), Some (st (r + 4 * x) z v (Some (r + 4)) k))"
proof -
  have "x < 2 ^ 24" using assms(4) by simp
  from decode_branch(1) [OF assms(3) this assms(4)] step_word [OF assms(1) _ assms(2)] show ?thesis by simp
qed

text \<open>A call of a single return, and the filling behind the call.\<close>

lemma follow_bl_ret:
  assumes "code_at code r (PUTQ3 x @ [0x97] @ nops m)" "4 dvd r" "- (2 ^ 24) \<le> x" "x < 0"
    and "code_at code (r + 4 * x) ret_op"
  shows "follow arm_step code (Bl (4 * x) # Ret # replicate m Fnmadd) (st r z v (Some y) k) =
      Some (st (r + 4 + 4 * int m) z v (Some (r + 4)) k)"
    "follow arm_step code (Bl (4 * x) # Ret # replicate m Fnmadd) (st r z v None k) =
      Some (st (r + 4 + 4 * int m) z v (Some (r + 4)) k)"
proof -
  have "code_at code r ((PUTQ3 x @ [0x97]) @ nops m)" using assms(1) by simp
  then have c: "code_at code r (PUTQ3 x @ [0x97])" "code_at code (r + 4) (nops m)"
    unfolding code_at_append [of _ _ "PUTQ3 x @ [0x97]"] by simp_all
  have d: "4 dvd r + 4 * x" "4 dvd r + 4" using assms(2) by simp_all
  show "follow arm_step code (Bl (4 * x) # Ret # replicate m Fnmadd) (st r z v (Some y) k) =
      Some (st (r + 4 + 4 * int m) z v (Some (r + 4)) k)"
    "follow arm_step code (Bl (4 * x) # Ret # replicate m Fnmadd) (st r z v None k) =
      Some (st (r + 4 + 4 * int m) z v (Some (r + 4)) k)"
    using step_bl [OF c(1) assms(2-4)] arm_step_ret [OF assms(5) d(1)] arm_follow_nops [OF c(2) d(2)] by simp_all
qed

lemma bit_put_cond:
  assumes "k < 32" "c = 0 \<or> c = 1"
  shows "bit (word_of_le (put_cond x c) :: u32) k \<longleftrightarrow>
    (if k < 5 then bit c k else if k < 24 then bit x (k - 5) else bit (0x54 :: u8) (k - 24))"
proof -
  have c: "bit c j \<Longrightarrow> j = 0" for j using assms(2) by (auto simp: bit_simps)
  have m: "(0x7 :: u32) = mask 3" by (simp add: mask_eq_exp_minus_1)
  consider "k < 8" | "8 \<le> k" "k < 16" | "16 \<le> k" "k < 24" | "24 \<le> k" by linarith
  then show ?thesis
  proof cases
    case 1
    then have "k div 8 = 0" "k mod 8 = k" by simp_all
    then show ?thesis using 1 assms c [of k] unfolding bit_word_of_le put_cond_def
      by (auto simp: m bit_simps)
  next
    case 2
    then have "k div 8 = 1" "k mod 8 = k - 8" by presburger+
    moreover have "3 + (k - 8) = k - 5" "k - 8 < 8" using 2 by simp_all
    ultimately show ?thesis using 2 unfolding bit_word_of_le put_cond_def by (simp add: bit_simps)
  next
    case 3
    then have "k div 8 = 2" "k mod 8 = k - 16" by presburger+
    moreover have "11 + (k - 16) = k - 5" "k - 16 < 8" using 3 by simp_all
    ultimately show ?thesis using 3 unfolding bit_word_of_le put_cond_def by (simp add: bit_simps)
  next
    case 4
    then have "k div 8 = 3" "k mod 8 = k - 24" using assms(1) by presburger+
    then show ?thesis using 4 assms(1) unfolding bit_word_of_le put_cond_def by simp
  qed
qed

lemma decode_cond:
  assumes "c = 0 \<or> c = 1"
  shows "decode_word (word_of_le (put_cond x c)) =
    Some ((if c = 0 then B_eq else B_ne) (4 * sint (ucast x :: 19 word)))"
proof -
  let ?w = "word_of_le (put_cond x c) :: u32"
  note b = bit_put_cond [OF _ assms, of _ x]
  define t :: u8 where "t = 0x54"
  have h: "drop_bit 24 ?w = ucast t"
  proof (rule bit_word_eqI)
    fix k assume "k < LENGTH(32)"
    show "bit (drop_bit 24 ?w) k \<longleftrightarrow> bit (ucast t :: u32) k"
    proof (cases "k < 8")
      case True
      then show ?thesis using b [of "24 + k"] unfolding t_def [symmetric] by (simp add: bit_drop_bit_eq bit_ucast_iff)
    next
      case False
      then show ?thesis by (auto simp: bit_drop_bit_eq bit_ucast_iff dest: bit_imp_le_length)
    qed
  qed
  then have top: "drop_bit 24 ?w = 0x54" by (simp add: t_def)
  have "drop_bit 26 ?w = drop_bit 2 (drop_bit 24 ?w)" by (simp add: drop_bit_drop_bit)
  also have "\<dots> = 0x15" unfolding top by code_simp
  finally have hi: "drop_bit 26 ?w = 0x15" .
  have m: "(0x1f :: u32) = mask 5" by (simp add: mask_eq_exp_minus_1)
  have low: "?w AND 0x1f = c"
  proof (rule bit_word_eqI)
    fix k assume k: "k < LENGTH(32)"
    have "bit c k \<Longrightarrow> k = 0" using assms by (auto simp: bit_simps)
    then show "bit (?w AND 0x1f) k \<longleftrightarrow> bit c k"
      using b [of k] k unfolding m by (auto simp: bit_and_iff bit_mask_iff)
  qed
  have off: "(ucast (drop_bit 5 ?w) :: 19 word) = ucast x"
  proof (rule bit_word_eqI)
    fix k assume "k < LENGTH(19)"
    then show "bit (ucast (drop_bit 5 ?w) :: 19 word) k \<longleftrightarrow> bit (ucast x :: 19 word) k"
      using b [of "5 + k"] by (simp add: bit_drop_bit_eq bit_ucast_iff)
  qed
  show ?thesis
    using not_other [OF hi] assms top hi low unfolding decode_word_def off by auto
qed

lemma step_cond:
  assumes "code_at code r (put_cond x c)" "4 dvd r" "sint (ucast x :: 19 word) = y" "c = 0 \<or> c = 1"
  shows "c = 0 \<Longrightarrow> arm_step code (st r False v u k) = Some (B_eq (4 * y), Some (st (r + 4) False v u k))"
    "c = 1 \<Longrightarrow> arm_step code (st r False v u k) = Some (B_ne (4 * y), Some (st (r + 4 * y) False v u k))"
  using step_word [OF assms(1) _ assms(2) decode_cond [OF assms(4)]] assms(3) by simp_all

section \<open>The gadgets\<close>

text \<open>The alignments: multiples of 4, at least 4 after the correction.\<close>

lemma blocks:
  assumes "4 dvd a" "4 \<le> a"
  shows "fill_up 4 a = nops (nat (a div 4) - 1)" "cdiv4 a = a div 4" "4 * (a div 4) = a" "1 \<le> a div 4"
    "4 * (nat (a div 4) - 1) + 4 = nat a"
proof -
  obtain q where q: "a = 4 * q" using assms(1) by blast
  have "(4 * q - 1) div 4 = q - 1" "nat (q - 1) = nat q - 1" by (presburger, arith)
  then show "fill_up 4 a = nops (nat (a div 4) - 1)" using q by (simp add: fill_up_def nat_diff_distrib')
  show "cdiv4 a = a div 4" "4 * (a div 4) = a" "1 \<le> a div 4" "4 * (nat (a div 4) - 1) + 4 = nat a"
    using q assms(2) by (auto simp: cdiv4_def)
qed

lemma cdiv4_neg: "0 \<le> m \<Longrightarrow> cdiv4 (- (4 * m)) = - m"
  by (simp add: cdiv4_def)

lemma dvd_block: "4 dvd a \<Longrightarrow> 0 \<le> a \<Longrightarrow> r = int p + int i * int (nat a) \<Longrightarrow> 4 dvd p \<Longrightarrow> 4 dvd r"
  by auto

abbreviation skipped :: "int \<Rightarrow> instr list" where
  "skipped a \<equiv> replicate (nat (a div 4) - 1) Fnmadd"

lemma arm_exec_jmp:
  assumes "a = at_least_4 a'" "4 dvd a" "a \<le> 1020" "b = fill_jmp a' n"
    and "is = concat (map (\<lambda>_. [B a]) [0..<nat n]) @ [Ret]"
  shows "blob_exec (length is) z v b = Some is"
proof -
  have a4: "4 \<le> a" using assms(1) by (simp add: at_least_4_def)
  note bl = blocks [OF assms(2) a4]
  let ?pre = "nops 7 @ ret_op" and ?f = "\<lambda>i :: nat. [word_of_int (cdiv4 a), 0x00, 0x00, 0x14] @ fill_up 4 a"
  have b: "blob_code b = ?pre @ put_loop n ?f @ ret_op" "ptr_fn b = length ?pre"
    unfolding assms(1,4) fill_jmp_def Let_def by simp_all
  have len: "length (?f i) = nat a" for i using bl(1,5) a4 by simp
  have x: "0 \<le> a div 4" "a div 4 < 256" using bl(4) assms(3) by simp_all
  have dv: "4 dvd r" if "r = int (length ?pre) + int i * int (nat a)" for r i
    using dvd_block [OF assms(2) _ that] a4 by simp
  have "run_code arm_step (blob_code b) (length is) (call_at z v (ptr_fn b)) = Some is"
  proof (rule run_put_loop [where S = "\<lambda>i r. st r z v None []" and tr = "\<lambda>_. [B a]" and before = "[]" and after = "[]",
        OF b(1) len])
    fix i r assume r: "r = int (length ?pre) + int i * int (nat a)" and f: "code_at (blob_code b) r (?f i)"
    have "code_at (blob_code b) r (PUTQ3 (a div 4) @ [0x14])"
      using f unfolding bl(2) small_branch [OF x] code_at_append [of _ _ "PUTQ3 (a div 4) @ [0x14]"] by blast
    from step_b [OF this dv [OF r] x(1)] x(2) bl(3) a4
    show "follow arm_step (blob_code b) [B a] (st r z v None []) = Some (st (r + int (nat a)) z v None [])" by simp
  next
    show "arm_step (blob_code b) (st (int (length ?pre) + int (nat n) * int (nat a)) z v None []) = Some (Ret, None)"
      using arm_step_return [OF code_at_end [OF b(1) len] dv [OF refl]] .
  qed (simp_all add: assms(5) b(2) call_at_def)
  then show ?thesis by (simp add: blob_exec_def)
qed

lemma arm_exec_weaved:
  assumes "4 dvd a" "4 \<le> a" "a \<le> 1020" "b = fill_jmp_weaved a n"
    and "is = concat (map (\<lambda>_. [B a]) [0..<nat n]) @ [Ret]" "off = 0 \<or> off = 4 \<and> 8 \<le> a"
  shows "run_code arm_step (blob_code b) (length is) (call_at z v (ptr_fn b + off)) = Some is"
proof -
  note bl = blocks [OF assms(1,2)]
  let ?pre = "nops 7 @ ret_op" and ?j = "[word_of_int (cdiv4 a), 0x00, 0x00, 0x14] :: bytes"
  let ?jumps = "if a \<ge> 8 then 2 else 1 :: nat"
  let ?f = "\<lambda>i :: nat. concat (replicate ?jumps ?j) @ fill_up (4 * int ?jumps) a"
  have b: "blob_code b = ?pre @ put_loop n ?f @ (ret_op @ ret_op)" "ptr_fn b = length ?pre"
    unfolding assms(4) fill_jmp_weaved_def Let_def by simp_all
  obtain q where q: "a = 4 * q" using assms(1) by blast
  have two: "concat (replicate 2 xs) = xs @ xs" for xs :: bytes by (simp add: numeral_2_eq_2)
  have "(4 * q - 5) div 4 = q - 2" "(4 * q - 1) div 4 = q - 1" by presburger+
  then have len: "length (?f i) = nat a" for i using q assms(2) by (auto simp: two)
  have x: "0 \<le> a div 4" "a div 4 < 256" using bl(4) assms(3) by simp_all
  have dv: "4 dvd r" if "r = int (length ?pre) + int i * int (nat a)" for r i
    using dvd_block [OF assms(1) _ that] assms(2) by simp
  have "run_code arm_step (blob_code b) (length is) (call_at z v (ptr_fn b + off)) = Some is"
  proof (rule run_put_loop [where S = "\<lambda>i r. st (r + int off) z v None []" and tr = "\<lambda>_. [B a]" and before = "[]" and
        after = "[]", OF b(1) len])
    fix i r assume r: "r = int (length ?pre) + int i * int (nat a)" and f: "code_at (blob_code b) r (?f i)"
    have "code_at (blob_code b) (r + int off) ?j"
    proof (cases "8 \<le> a")
      case True
      then have "code_at (blob_code b) r (?j @ ?j)"
        using f unfolding code_at_append [of _ _ "concat (replicate ?jumps ?j)"] by (simp add: two)
      then have "code_at (blob_code b) r ?j" "code_at (blob_code b) (r + 4) ?j"
        using code_at_append [of "blob_code b" r ?j ?j] by simp_all
      then show ?thesis using assms(6) by auto
    next
      case False
      then show ?thesis using f assms(6) unfolding code_at_append [of _ _ "concat (replicate ?jumps ?j)"] by auto
    qed
    then have "code_at (blob_code b) (r + int off) (PUTQ3 (a div 4) @ [0x14])" unfolding bl(2) small_branch [OF x] .
    moreover have "4 dvd r + int off" using dv [OF r] assms(6) by auto
    ultimately show "follow arm_step (blob_code b) [B a] (st (r + int off) z v None []) = Some (st (r + int (nat a) + int off) z v None [])"
      using step_b [OF _ _ x(1)] x(2) bl(3) assms(2) by (simp add: algebra_simps)
  next
    let ?e = "int (length ?pre) + int (nat n) * int (nat a)"
    have "code_at (blob_code b) ?e ret_op" "code_at (blob_code b) (?e + 4) ret_op"
      using code_at_end [OF b(1) len] unfolding code_at_append by simp_all
    moreover have "4 dvd ?e + int off" using dv [OF refl, of "nat n"] assms(6) by (auto simp del: length_append)
    ultimately show "arm_step (blob_code b) (st (?e + int off) z v None []) = Some (Ret, None)"
      using arm_step_return assms(6) by auto
  qed (simp_all add: assms(5) b(2) call_at_def)
  then show ?thesis .
qed

lemma sint_19: "- (2 ^ 18) \<le> x \<Longrightarrow> x < 2 ^ 18 \<Longrightarrow> sint (ucast (word_of_int x :: u32) :: 19 word) = x"
proof -
  assume x: "- (2 ^ 18) \<le> x" "x < 2 ^ 18"
  have "(ucast (word_of_int x :: u32) :: 19 word) = word_of_int x" by (rule bit_word_eqI) (simp add: bit_simps)
  then show ?thesis using x by (simp add: int_word_sint)
qed

text \<open>The two gadgets with conditional branches: the comparison, and a loop whose rounds start with the flag clear.\<close>

lemma exec_cond:
  assumes "4 dvd a" "4 \<le> a" "b = \<lparr>blob_code = ((nops 6 @ ret_op) @ mov_cmp @ put_loop n (\<lambda>i. put_cond x c @ fill_up 4 a)) @ ret_op,
      ptr_fn = length (nops 6 @ ret_op), ptr_ret = e\<rparr>"
    and "is = [Mov_w0 2, Cmp_w0 11] @ concat (map (\<lambda>_. tr) [0..<nat n]) @ [Ret]"
    and round: "\<And>r. 4 dvd r \<Longrightarrow> code_at (blob_code b) r (put_cond x c) \<Longrightarrow> code_at (blob_code b) (r + 4) (nops (nat (a div 4) - 1)) \<Longrightarrow>
      follow arm_step (blob_code b) tr (st r False 2 None []) = Some (st (r + a) False 2 None [])"
  shows "blob_exec (length is) z v b = Some is"
proof -
  note bl = blocks [OF assms(1,2)]
  let ?head = "nops 6 @ ret_op" and ?f = "\<lambda>i :: nat. put_cond x c @ fill_up 4 a"
  let ?pre = "?head @ mov_cmp"
  have b: "blob_code b = ?pre @ put_loop n ?f @ ret_op" "ptr_fn b = 28" unfolding assms(3) by simp_all
  have len: "length (?f i) = nat a" for i using bl(1,5) by simp
  have dv: "4 dvd r" if "r = int (length ?pre) + int i * int (nat a)" for r i
    using dvd_block [OF assms(1) _ that] assms(2) by simp
  have "drop 28 (blob_code b) = mov_cmp @ put_loop n ?f @ ret_op" unfolding b(1) by simp
  from follow_mov_cmp [OF code_atI [OF this], of z v None "[]"]
  have entry: "follow arm_step (blob_code b) [Mov_w0 2, Cmp_w0 11] (call_at z v 28) = Some (st (int (length ?pre)) False 2 None [])"
    by (simp add: call_at_def)
  have "run_code arm_step (blob_code b) (length is) (call_at z v 28) = Some is"
  proof (rule run_put_loop [where S = "\<lambda>i r. st r False 2 None []" and tr = "\<lambda>_. tr" and before = "[Mov_w0 2, Cmp_w0 11]" and
        after = "[]", OF b(1) len _ entry])
    fix i r assume r: "r = int (length ?pre) + int i * int (nat a)" and f: "code_at (blob_code b) r (?f i)"
    from f have "code_at (blob_code b) r (put_cond x c)" "code_at (blob_code b) (r + 4) (nops (nat (a div 4) - 1))"
      unfolding code_at_append bl(1) by simp_all
    from round [OF dv [OF r] this] assms(2)
    show "follow arm_step (blob_code b) tr (st r False 2 None []) = Some (st (r + int (nat a)) False 2 None [])" by simp
  next
    show "arm_step (blob_code b) (st (int (length ?pre) + int (nat n) * int (nat a)) False 2 None []) = Some (Ret, None)"
      using arm_step_return [OF code_at_end [OF b(1) len] dv [OF refl]] .
  qed (simp_all add: assms(4))
  then show ?thesis by (simp add: blob_exec_def b(2))
qed

lemma arm_exec_jne:
  assumes "a = at_least_4 a'" "4 dvd a" "b = fill_jne_never_taken a' n"
    and "is = [Mov_w0 2, Cmp_w0 11] @ concat (map (\<lambda>_. B_eq (- 4) # skipped a) [0..<nat n]) @ [Ret]"
  shows "blob_exec (length is) z v b = Some is"
proof (rule exec_cond [OF assms(2) _ _ assms(4), where x = "word_of_int (- 1)" and c = 0])
  show a: "4 \<le> a" using assms(1) by (simp add: at_least_4_def)
  show "b = \<lparr>blob_code = ((nops 6 @ ret_op) @ mov_cmp @ put_loop n (\<lambda>i. put_cond (word_of_int (- 1)) 0 @ fill_up 4 a)) @ ret_op,
      ptr_fn = length (nops 6 @ ret_op),
      ptr_ret = length ((nops 6 @ ret_op) @ mov_cmp @ put_loop n (\<lambda>i. put_cond (word_of_int (- 1)) 0 @ fill_up 4 a))\<rparr>"
    unfolding assms(1,3) fill_jne_never_taken_def Let_def ..
  fix r assume r: "4 dvd r" and "code_at (blob_code b) r (put_cond (word_of_int (- 1)) 0)"
    and n: "code_at (blob_code b) (r + 4) (nops (nat (a div 4) - 1))"
  from step_cond(1) [OF this(2) r sint_19 [of "- 1"]]
  have c: "arm_step (blob_code b) (st r False 2 None []) = Some (B_eq (- 4), Some (st (r + 4) False 2 None []))" by simp
  have "4 dvd r + 4" using r by simp
  moreover have "r + 4 + 4 * int (nat (a div 4) - 1) = r + a" using blocks(4,5) [OF assms(2) a] a by linarith
  ultimately have "follow arm_step (blob_code b) (skipped a) (st (r + 4) False 2 None []) = Some (st (r + a) False 2 None [])"
    using arm_follow_nops [OF n, of False 2 None "[]"] by (simp only:)
  then show "follow arm_step (blob_code b) (B_eq (- 4) # skipped a) (st r False 2 None []) = Some (st (r + a) False 2 None [])"
    using c by simp
qed

lemma arm_exec_je:
  assumes "a = at_least_4 a'" "4 dvd a" "a < 2 ^ 20" "b = fill_je_always_taken a' n"
    and "is = [Mov_w0 2, Cmp_w0 11] @ concat (map (\<lambda>_. [B_ne a]) [0..<nat n]) @ [Ret]"
  shows "blob_exec (length is) z v b = Some is"
proof (rule exec_cond [OF assms(2) _ _ assms(5), where x = "word_of_int (cdiv4 a)" and c = 1])
  show a: "4 \<le> a" using assms(1) by (simp add: at_least_4_def)
  show "b = \<lparr>blob_code = ((nops 6 @ ret_op) @ mov_cmp @ put_loop n (\<lambda>i. put_cond (word_of_int (cdiv4 a)) 1 @ fill_up 4 a)) @ ret_op,
      ptr_fn = length (nops 6 @ ret_op),
      ptr_ret = length ((nops 6 @ ret_op) @ mov_cmp @ put_loop n (\<lambda>i. put_cond (word_of_int (cdiv4 a)) 1 @ fill_up 4 a))\<rparr>"
    unfolding assms(1,4) fill_je_always_taken_def Let_def ..
  note bl = blocks [OF assms(2) a]
  have x: "- (2 ^ 18) \<le> cdiv4 a" "cdiv4 a < 2 ^ 18" using bl(2-4) assms(3) by simp_all
  fix r assume r: "4 dvd r" and c: "code_at (blob_code b) r (put_cond (word_of_int (cdiv4 a)) 1)"
  from step_cond(2) [OF c r sint_19 [OF x]] bl(2,3)
  show "follow arm_step (blob_code b) [B_ne a] (st r False 2 None []) = Some (st (r + a) False 2 None [])" by simp
qed

text \<open>
  The two gadgets with calls: a loop that starts with the return address on the stack; a round calls a return, at
  \<open>target i\<close>.
\<close>

lemma run_calls:
  assumes "4 dvd a" "4 \<le> a" "4 dvd length pre"
    and code: "code = pre @ put_loop n (\<lambda>i. PUTQ3 (x i) @ [0x97] @ fill_up 4 a) @ (ldp_x30 @ ret_op)"
    and x: "\<And>i. i < nat n \<Longrightarrow> - (2 ^ 24) \<le> x i \<and> x i < 0 \<and>
      code_at code (int (length pre) + int i * int (nat a) + 4 * x i) ret_op"
    and entry: "follow arm_step code before s = Some (st (int (length pre)) z v None [None])"
    and tr: "is = before @ concat (map (\<lambda>i. Bl (4 * x i) # Ret # skipped a) [0..<nat n]) @ [Pop] @ [Ret]"
  shows "run_code arm_step code (length is) s = Some is"
proof -
  note bl = blocks [OF assms(1,2)]
  let ?f = "\<lambda>i. PUTQ3 (x i) @ [0x97] @ fill_up 4 a"
  have len: "length (?f i) = nat a" for i using bl(1,5) by simp
  have dv: "4 dvd r" if "r = int (length pre) + int i * int (nat a)" for r i
    using dvd_block [OF assms(1) _ that] assms(2,3) by simp
  let ?S = "\<lambda>i r. st r z v (if i = 0 then None else Some (r - int (nat a) + 4)) [None]"
  let ?e = "int (length pre) + int (nat n) * int (nat a)"
  have e: "code_at code ?e ldp_x30" "code_at code (?e + 4) ret_op"
    using code_at_end [OF code len] unfolding code_at_append by simp_all
  show ?thesis
  proof (rule run_put_loop [where S = ?S and tr = "\<lambda>i. Bl (4 * x i) # Ret # skipped a" and after = "[Pop]", OF code len _ _ _ _ tr])
    fix i r assume i: "i < nat n" and r: "r = int (length pre) + int i * int (nat a)" and f: "code_at code r (?f i)"
    have w: "4 * int (nat (a div 4) - 1) + 4 = int (nat a)" using bl(5) by linarith
    have f': "code_at code r (PUTQ3 (x i) @ [0x97] @ nops (nat (a div 4) - 1))" using f unfolding bl(1) .
    note c = follow_bl_ret [OF f' dv [OF r] conjunct1 [OF x [OF i]] conjunct1 [OF conjunct2 [OF x [OF i]]]]
    have t: "code_at code (r + 4 * x i) ret_op" using x [OF i] unfolding r by blast
    have "r + 4 + 4 * int (nat (a div 4) - 1) = r + int (nat a)" using w by linarith
    then show "follow arm_step code (Bl (4 * x i) # Ret # skipped a) (?S i r) = Some (?S (Suc i) (r + int (nat a)))"
      using c(1) [OF t, of z v _ "[None]"] c(2) [OF t, of z v "[None]"] by (cases "i = 0") (simp_all only: if_True if_False nat.simps, simp_all)
  next
    show "follow arm_step code before s = Some (?S 0 (int (length pre)))" using entry by simp
  next
    show "follow arm_step code [Pop] (?S (nat n) ?e) = Some (st (?e + 4) z v None [])"
      using step_pop [OF e(1) dv [OF refl]] by simp
  next
    have "4 dvd ?e + 4" using dv [OF refl, of "nat n"] by (rule dvd_add) simp
    then show "arm_step code (st (?e + 4) z v None []) = Some (Ret, None)" by (rule arm_step_return [OF e(2)])
  qed
qed

lemma arm_exec_call_shared:
  assumes "a = at_least_4 a'" "4 dvd a" "8 + a * n \<le> 2 ^ 26" "b = fill_call_shared_ret a' n"
    and "is = [Push] @ concat (map (\<lambda>i. Bl (- (8 + int i * a)) # Ret # skipped a) [0..<nat n]) @ [Pop, Ret]"
  shows "blob_exec (length is) z v b = Some is"
proof -
  have a4: "4 \<le> a" using assms(1) by (simp add: at_least_4_def)
  let ?head = "nops 6 @ ret_op" and ?x = "\<lambda>i :: nat. cdiv4 (- (8 + int i * a))"
  let ?pre = "?head @ stp_x30" and ?loop = "put_loop n (\<lambda>i. PUTQ3 (?x i) @ [0x97] @ fill_up 4 a)"
  have b: "blob_code b = ?pre @ ?loop @ (ldp_x30 @ ret_op)" "ptr_fn b = 28"
    unfolding assms(1,4) fill_call_shared_ret_def Let_def by simp_all
  have x: "4 * ?x i = - (8 + int i * a)" for i
  proof -
    obtain q where "a = 4 * q" using assms(2) by blast
    then have "8 + int i * a = 4 * (2 + int i * q)" "0 \<le> 2 + int i * q" using a4 by (simp_all add: algebra_simps)
    then show ?thesis using cdiv4_neg [of "2 + int i * q"] by (simp only: mult_minus_right)
  qed
  have "drop 28 (blob_code b) = stp_x30 @ ?loop @ ldp_x30 @ ret_op" unfolding b(1) by simp
  from step_push [OF code_atI [OF this], of z v None "[]"]
  have entry: "follow arm_step (blob_code b) [Push] (call_at z v 28) = Some (st (int (length ?pre)) z v None [None])"
    by (simp add: call_at_def)
  have "drop 24 (blob_code b) = ret_op @ stp_x30 @ ?loop @ ldp_x30 @ ret_op" unfolding b(1) by simp
  from code_atI [OF this] have ret: "code_at (blob_code b) 24 ret_op" by simp
  have "run_code arm_step (blob_code b) (length is) (call_at z v 28) = Some is"
  proof (rule run_calls [where x = ?x, OF assms(2) a4 _ b(1) _ entry])
    fix i assume i: "i < nat n"
    have "int i * a \<le> n * a" using i a4 by (intro mult_right_mono) simp_all
    then have "8 + int i * a \<le> 2 ^ 26" using assms(3) by (simp add: mult.commute)
    moreover have "0 \<le> int i * a" using a4 by simp
    ultimately have "- (2 ^ 24) \<le> ?x i \<and> ?x i < 0" using x [of i] by simp
    moreover have "int (length ?pre) + int i * int (nat a) + 4 * ?x i = 24" unfolding x using a4 by simp
    ultimately show "- (2 ^ 24) \<le> ?x i \<and> ?x i < 0 \<and> code_at (blob_code b) (int (length ?pre) + int i * int (nat a) + 4 * ?x i) ret_op"
      using ret by (simp only:)
  next
    show "is = [Push] @ concat (map (\<lambda>i. Bl (4 * ?x i) # Ret # skipped a) [0..<nat n]) @ [Pop] @ [Ret]"
      unfolding x assms(5) by simp
  qed simp
  then show ?thesis by (simp add: blob_exec_def b(2))
qed

lemma arm_exec_call_dedicated:
  assumes "a = at_least_4 a'" "4 dvd a" "0 \<le> n" "8 + a * n \<le> 2 ^ 26" "b = fill_call_dedicated_ret a' n"
    and "is = [Push, B (4 + a * n)] @ concat (map (\<lambda>_. Bl (- (a * n)) # Ret # skipped a) [0..<nat n]) @ [Pop, Ret]"
  shows "blob_exec (length is) z v b = Some is"
proof -
  have a4: "4 \<le> a" using assms(1) by (simp add: at_least_4_def)
  note bl = blocks [OF assms(2) a4]
  obtain q where q: "a = 4 * q" using assms(2) by blast
  have q0: "0 \<le> q * n" using q a4 assms(3) by simp
  have y: "cdiv4 (4 + a * n) = 1 + q * n" "cdiv4 (- a * n) = - (q * n)"
    using q0 cdiv4_neg [of "q * n"] unfolding q by (simp_all add: cdiv4_def mult.assoc)
  have lim: "1 + q * n < 2 ^ 24" using assms(4) q by (simp add: mult.commute)
  let ?head = "nops 5 @ ret_op" and ?g = "\<lambda>i :: nat. ret_op @ fill_up 4 a"
  let ?first = "?head @ stp_x30 @ PUTQ3 (1 + q * n) @ [0x14]"
  let ?pre = "?first @ put_loop n ?g" and ?loop = "put_loop n (\<lambda>i. PUTQ3 (- (q * n)) @ [0x97] @ fill_up 4 a)"
  have b: "blob_code b = ?pre @ ?loop @ (ldp_x30 @ ret_op)" "ptr_fn b = 24"
    unfolding assms(1,5) fill_call_dedicated_ret_def Let_def y [unfolded assms(1)] by simp_all
  have b': "blob_code b = ?first @ put_loop n ?g @ ?loop @ ldp_x30 @ ret_op" unfolding b(1) by simp
  have len: "length (?g i) = nat a" for i using bl(1,5) by simp
  have pl: "length ?pre = 32 + nat n * nat a" using length_put_loop [of ?g "nat a" n, OF len] by simp
  have d: "drop 24 (blob_code b) = stp_x30 @ PUTQ3 (1 + q * n) @ [0x14] @ put_loop n ?g @ ?loop @ ldp_x30 @ ret_op"
    "drop 28 (blob_code b) = (PUTQ3 (1 + q * n) @ [0x14]) @ put_loop n ?g @ ?loop @ ldp_x30 @ ret_op"
    unfolding b' by simp_all
  have "int 28 + 4 * (1 + q * n) = int (length ?pre)" unfolding pl using q a4 assms(3) by simp
  then have entry: "follow arm_step (blob_code b) [Push, B (4 + a * n)] (call_at z v 24) = Some (st (int (length ?pre)) z v None [None])"
    using step_push [OF code_atI [OF d(1)], of z v None "[]"] step_b [OF code_atI [OF d(2)] _ _ lim, of z v None "[None]"] q0 q
    by (simp add: call_at_def)
  have "run_code arm_step (blob_code b) (length is) (call_at z v 24) = Some is"
  proof (rule run_calls [where x = "\<lambda>_. - (q * n)", OF assms(2) a4 _ b(1) _ entry])
    show "4 dvd length ?pre" unfolding pl using q by (auto simp: nat_mult_distrib)
  next
    fix i assume i: "i < nat n"
    have "0 < q * n" using i a4 q by simp
    moreover have "int (length ?pre) + int i * int (nat a) + 4 * - (q * n) = int (length ?first) + int i * int (nat a)"
      unfolding pl using q a4 assms(3) by simp
    moreover have "code_at (blob_code b) (int (length ?first) + int i * int (nat a)) (?g i)" by (rule code_at_loop [OF b' len i])
    ultimately show "- (2 ^ 24) \<le> - (q * n) \<and> - (q * n) < 0 \<and> code_at (blob_code b) (int (length ?pre) + int i * int (nat a) + 4 * - (q * n)) ret_op"
      using lim unfolding code_at_append by simp
  next
    show "is = [Push, B (4 + a * n)] @ concat (map (\<lambda>_. Bl (4 * - (q * n)) # Ret # skipped a) [0..<nat n]) @ [Pop] @ [Ret]"
    proof -
      have "4 * - (q * n) = - (a * n)" using q by simp
      then show ?thesis using assms(6) by (simp only: append.simps)
    qed
  qed
  then show ?thesis by (simp add: blob_exec_def b(2))
qed

section \<open>Warming up\<close>

definition framed :: "blob \<Rightarrow> bool" where
  "framed b \<longleftrightarrow> (\<exists>k rest rest'. blob_code b = nops k @ ret_op @ rest \<and> k \<le> 63 \<and>
     drop (ptr_ret b) (blob_code b) = ret_op @ rest' \<and> 4 dvd ptr_ret b)"

lemma arm_framedI:
  assumes "code = nops k @ ret_op @ rest" "k \<le> 63" "4 dvd length code"
  shows "framed \<lparr>blob_code = code @ ret_op @ rest', ptr_fn = f, ptr_ret = length code\<rparr>"
proof -
  have "code @ ret_op @ rest' = nops k @ ret_op @ (rest @ ret_op @ rest')" using assms(1) by simp
  then show ?thesis using assms(2,3) unfolding framed_def by auto
qed

lemma dvd_put_loop: "(\<And>i. 4 dvd length (f i)) \<Longrightarrow> 4 dvd length (put_loop n f)"
proof -
  assume f: "\<And>i. 4 dvd length (f i)"
  have "4 dvd length (concat (map f [0..<m]))" for m using f by (induction m) simp_all
  then show ?thesis by (simp add: put_loop_def)
qed

lemma dvd4_Suc: "4 dvd Suc (Suc (Suc (Suc n))) \<longleftrightarrow> 4 dvd n"
  by presburger

lemma arm_fill_framed:
  "framed (fill_call_dedicated_ret a n)" "framed (fill_call_shared_ret a n)" "framed (fill_jne_never_taken a n)"
  "framed (fill_je_always_taken a n)" "framed (fill_jmp a n)" "framed (fill_jmp_weaved a n)"
  unfolding fill_call_dedicated_ret_def fill_call_shared_ret_def fill_jne_never_taken_def fill_je_always_taken_def
    fill_jmp_def fill_jmp_weaved_def Let_def
  by (rule arm_framedI [where rest' = "[]", unfolded append_Nil2] arm_framedI, simp only: append_assoc, simp,
      (simp split del: if_split, (intro dvd_add dvd_put_loop; simp add: length_concat sum_list_replicate dvd4_Suc)))+

lemma arm_gadget_of_simps:
  "gadget_of a n ''call_dedicated_ret'' = Some (fill_call_dedicated_ret a n)"
  "gadget_of a n ''call_shared_ret'' = Some (fill_call_shared_ret a n)"
  "gadget_of a n ''jne_never_taken'' = Some (fill_jne_never_taken a n)"
  "gadget_of a n ''je_always_taken'' = Some (fill_je_always_taken a n)"
  "gadget_of a n ''jmp_weaved'' = Some (fill_jmp_weaved a n)"
  "gadget_of a n ''jmp'' = Some (fill_jmp a n)"
  by (simp_all add: gadget_of_def)

lemma arm_gadget_of_cases:
  assumes "gadget_of a n type = Some b"
  obtains "type = ''call_dedicated_ret''" "b = fill_call_dedicated_ret a n"
    | "type = ''call_shared_ret''" "b = fill_call_shared_ret a n"
    | "type = ''jne_never_taken''" "b = fill_jne_never_taken a n"
    | "type = ''je_always_taken''" "b = fill_je_always_taken a n"
    | "type = ''jmp_weaved''" "b = fill_jmp_weaved a n"
    | "type = ''jmp''" "b = fill_jmp a n"
  using assms unfolding gadget_of_def by (simp only: option.inject option.distinct split: if_split_asm)

lemma arm_gadget_framed: "gadget_of a n type = Some b \<Longrightarrow> framed b"
  by (erule arm_gadget_of_cases) (simp_all only: arm_fill_framed)

lemma arm_framed_warm:
  assumes "framed b"
  shows "\<exists>k. blob_warm_itlb 64 z v b = Some (replicate k Fnmadd @ [Ret], [Ret])"
proof -
  obtain k rest rest' where b: "blob_code b = nops k @ ret_op @ rest" "k \<le> 63" "drop (ptr_ret b) (blob_code b) = ret_op @ rest'"
    "4 dvd ptr_ret b"
    using assms unfolding framed_def by blast
  have "code_at (blob_code b) (int 0) (nops k @ ret_op)" using b(1) by (intro code_atI) simp
  then have f: "code_at (blob_code b) 0 (nops k)" "code_at (blob_code b) (0 + 4 * int k) ret_op"
    unfolding code_at_append by simp_all
  have "run_code arm_step (blob_code b) (length (replicate k Fnmadd) + 1) (st 0 z v None []) = Some (replicate k Fnmadd @ [Ret])"
    by (rule run_to_return [OF arm_follow_nops [OF f(1)] arm_step_return [OF f(2)]]) simp_all
  then have w: "run_code arm_step (blob_code b) 64 (st 0 z v None []) = Some (replicate k Fnmadd @ [Ret])"
    by (rule run_more) (use b(2) in simp)
  have "4 dvd int (ptr_ret b)" using b(4) by auto
  then have "run_code arm_step (blob_code b) (Suc 63) (call_at z v (ptr_ret b)) = Some [Ret]"
    using arm_step_return [OF code_atI [OF b(3)], of z v] by (simp only: run_code.simps call_at_def option.case prod.case)
  then show ?thesis using w by (auto simp: blob_warm_itlb_def call_at_def eval_nat_numeral)
qed

section \<open>Theorem\<close>

text \<open>
  What each gadget is to execute, for alignments (corrected to at least 4) that are multiples of 4 and within the
  reach of the branches.
\<close>

definition gadget_trace :: "int \<Rightarrow> int \<Rightarrow> string \<Rightarrow> instr list option" where
  "gadget_trace a' n type =
     (let a = at_least_4 a'; times = (\<lambda>f. concat (map f [0..<nat n])) in
      if type = ''call_dedicated_ret'' \<and> 4 dvd a \<and> 8 + a * n \<le> 2 ^ 26 then
        Some ([Push, B (4 + a * n)] @ times (\<lambda>_. Bl (- (a * n)) # Ret # skipped a) @ [Pop, Ret])
      else if type = ''call_shared_ret'' \<and> 4 dvd a \<and> 8 + a * n \<le> 2 ^ 26 then
        Some ([Push] @ times (\<lambda>i. Bl (- (8 + int i * a)) # Ret # skipped a) @ [Pop, Ret])
      else if type = ''jne_never_taken'' \<and> 4 dvd a then
        Some ([Mov_w0 2, Cmp_w0 11] @ times (\<lambda>_. B_eq (- 4) # skipped a) @ [Ret])
      else if type = ''je_always_taken'' \<and> 4 dvd a \<and> a < 2 ^ 20 then
        Some ([Mov_w0 2, Cmp_w0 11] @ times (\<lambda>_. [B_ne a]) @ [Ret])
      else if type = ''jmp_weaved'' \<and> 4 \<le> a' \<and> 4 dvd a \<and> a \<le> 1020 then Some (times (\<lambda>_. [B a]) @ [Ret])
      else if type = ''jmp'' \<and> 4 dvd a \<and> a \<le> 1020 then Some (times (\<lambda>_. [B a]) @ [Ret])
      else None)"

lemma arm_trace_simps:
  "gadget_trace a' n ''call_dedicated_ret'' = (let a = at_least_4 a' in if 4 dvd a \<and> 8 + a * n \<le> 2 ^ 26 then
     Some ([Push, B (4 + a * n)] @ concat (map (\<lambda>_. Bl (- (a * n)) # Ret # skipped a) [0..<nat n]) @ [Pop, Ret]) else None)"
  "gadget_trace a' n ''call_shared_ret'' = (let a = at_least_4 a' in if 4 dvd a \<and> 8 + a * n \<le> 2 ^ 26 then
     Some ([Push] @ concat (map (\<lambda>i. Bl (- (8 + int i * a)) # Ret # skipped a) [0..<nat n]) @ [Pop, Ret]) else None)"
  "gadget_trace a' n ''jne_never_taken'' = (let a = at_least_4 a' in if 4 dvd a then
     Some ([Mov_w0 2, Cmp_w0 11] @ concat (map (\<lambda>_. B_eq (- 4) # skipped a) [0..<nat n]) @ [Ret]) else None)"
  "gadget_trace a' n ''je_always_taken'' = (let a = at_least_4 a' in if 4 dvd a \<and> a < 2 ^ 20 then
     Some ([Mov_w0 2, Cmp_w0 11] @ concat (map (\<lambda>_. [B_ne a]) [0..<nat n]) @ [Ret]) else None)"
  "gadget_trace a' n ''jmp_weaved'' = (let a = at_least_4 a' in if 4 \<le> a' \<and> 4 dvd a \<and> a \<le> 1020 then
     Some (concat (map (\<lambda>_. [B a]) [0..<nat n]) @ [Ret]) else None)"
  "gadget_trace a' n ''jmp'' = (let a = at_least_4 a' in if 4 dvd a \<and> a \<le> 1020 then
     Some (concat (map (\<lambda>_. [B a]) [0..<nat n]) @ [Ret]) else None)"
  by (simp_all add: gadget_trace_def Let_def)

fun is_branch :: "instr \<Rightarrow> bool" where
  "is_branch (B _) = True"
| "is_branch (Bl _) = True"
| "is_branch (B_eq _) = True"
| "is_branch (B_ne _) = True"
| "is_branch _ = False"

lemma arm_trace_branches:
  assumes "gadget_of a n type = Some b" "gadget_trace a n type = Some is"
  shows "length (filter is_branch is) = nat n + (if type = ''call_dedicated_ret'' then 1 else 0)"
  using assms(1)
proof (cases rule: arm_gadget_of_cases)
qed (use assms(2) in \<open>auto simp: arm_trace_simps Let_def some_if length_filter_times [where k = 1]\<close>)

lemma arm_gadget_exec:
  assumes "gadget_of a n type = Some b" "0 \<le> n" "gadget_trace a n type = Some is"
  shows "blob_exec (length is) z v b = Some is"
  using assms(1)
proof (cases rule: arm_gadget_of_cases)
  case 1
  then show ?thesis using assms(3) arm_exec_call_dedicated [OF refl _ assms(2) _ 1(2)]
    by (simp only: 1(1) arm_trace_simps Let_def some_if)
next
  case 2
  then show ?thesis using assms(3) arm_exec_call_shared [OF refl _ _ 2(2)] by (simp only: 2(1) arm_trace_simps Let_def some_if)
next
  case 3
  then show ?thesis using assms(3) arm_exec_jne [OF refl _ 3(2)] by (simp only: 3(1) arm_trace_simps Let_def some_if)
next
  case 4
  then show ?thesis using assms(3) arm_exec_je [OF refl _ _ 4(2)] by (simp only: 4(1) arm_trace_simps Let_def some_if)
next
  case 5
  have c: "4 \<le> a" "4 dvd at_least_4 a" "at_least_4 a \<le> 1020"
    and t: "is = concat (map (\<lambda>_. [B (at_least_4 a)]) [0..<nat n]) @ [Ret]"
    using assms(3) unfolding 5(1) arm_trace_simps Let_def some_if by blast+
  have "at_least_4 a = a" using c(1) by (simp add: at_least_4_def)
  from arm_exec_weaved [OF c(2) _ c(3), unfolded this, OF c(1) 5(2) t [unfolded this], of 0 z v]
  show ?thesis by (simp add: blob_exec_def)
next
  case 6
  then show ?thesis using assms(3) arm_exec_jmp [OF refl _ _ 6(2)] by (simp only: 6(1) arm_trace_simps Let_def some_if)
qed

text \<open>
  C14: on AArch64 too, for every type and every alignment the type is made for, the code written runs from its
  entry to the return at its end, with the return address of its caller restored, and executes exactly the
  instructions listed, of them as many branches as were asked for (and one over the returns where the calls have
  returns of their own). The warming runs return too. Between the branches that are not taken it executes a
  floating-point instruction where a \<open>nop\<close> is meant.
\<close>

theorem arm_gadget_returns:
  assumes "blob_fill_code r a n type = Inr b" "0 \<le> n" "gadget_trace a n type = Some is"
  shows "blob_exec (length is) z v b = Some is \<and>
    length (filter is_branch is) = nat n + (if type = ''call_dedicated_ret'' then 1 else 0) \<and>
    (\<exists>k. blob_warm_itlb 64 z v b = Some (replicate k Fnmadd @ [Ret], [Ret])) \<and>
    blob_warm_icache (length is) z v b a type = Some (if type = ''jmp_weaved'' \<and> 8 \<le> a then is else [])"
proof -
  have b: "gadget_of a n type = Some b"
    using assms(1) by (auto simp: blob_fill_code_def split: option.splits if_splits)
  have e: "blob_exec (length is) z v b = Some is" using arm_gadget_exec [OF b assms(2,3)] .
  have "run_code arm_step (blob_code b) (length is) (call_at z v (ptr_fn b + 4)) = Some is" if "type = ''jmp_weaved''" "8 \<le> a"
  proof -
    have f: "b = fill_jmp_weaved a n" using b unfolding that(1) arm_gadget_of_simps by simp
    have "at_least_4 a = a" using that(2) by (simp add: at_least_4_def)
    then have "4 dvd a" "a \<le> 1020" "is = concat (map (\<lambda>_. [B a]) [0..<nat n]) @ [Ret]"
      using assms(3) unfolding that(1) arm_trace_simps Let_def some_if by auto
    then show ?thesis using arm_exec_weaved [OF _ _ _ f, of "is" 4 z v] that(2) by simp
  qed
  then have "blob_warm_icache (length is) z v b a type = Some (if type = ''jmp_weaved'' \<and> 8 \<le> a then is else [])"
    by (simp add: blob_warm_icache_def)
  then show ?thesis
    using e arm_trace_branches [OF b assms(3)] arm_framed_warm [OF arm_gadget_framed [OF b], of z v] by blast
qed

theorem arm_gadget_returns_witness:
  "\<exists>b. blob_fill_code 0 8 1 ''call_shared_ret'' = Inr b \<and>
     blob_exec 6 False 0 b = Some [Push, Bl (- 8), Ret, Fnmadd, Pop, Ret]"
proof -
  have t: "gadget_trace 8 1 ''call_shared_ret'' = Some [Push, Bl (- 8), Ret, Fnmadd, Pop, Ret]"
    by (simp add: arm_trace_simps at_least_4_def upt_rec numeral_2_eq_2)
  have f: "blob_fill_code 0 8 1 ''call_shared_ret'' = Inr (fill_call_shared_ret 8 1)"
    by (simp add: blob_fill_code_def arm_gadget_of_simps fill_call_shared_ret_def ASSUMED_SZ_def put_loop_def upt_rec
        at_least_4_def Let_def)
  have "blob_exec (length [Push, Bl (- 8), Ret, Fnmadd, Pop, Ret]) False 0 (fill_call_shared_ret 8 1) =
      Some [Push, Bl (- 8), Ret, Fnmadd, Pop, Ret]"
    by (rule conjunct1 [OF arm_gadget_returns [OF f _ t]]) simp
  moreover have "length [Push, Bl (- 8), Ret, Fnmadd, Pop, Ret] = 6" by simp
  ultimately show ?thesis using f by metis
qed

end
