(* ===== verification/Gadget_X86.thy ===== *)
theory Gadget_X86
  imports Gadget_Run
begin

text \<open>
  \<open>2021-05-branch-prediction/gadget.c\<close> for x86-64: the code written for each type of gadget, and a machine with the
  ten instructions it is made of.

  The theorem: the code of each type, run as the program runs it, returns, and executes exactly the branches that
  are to be measured.
\<close>

unbundle bit_operations_syntax

section \<open>The code\<close>

definition ASSUMED_SZ :: nat where "ASSUMED_SZ = 2 * 1024 * 1024"

definition fill_call_dedicated_ret :: "int \<Rightarrow> int \<Rightarrow> blob" where
  "fill_call_dedicated_ret alignment cycle_count =
     (let alignment = (if alignment < 5 then 5 else alignment);
          head = PUTN 0x90 (63 - 5) @ [0xc3];
          code = head @ [0xe9] @ PUTQ (alignment * cycle_count) @
            put_loop cycle_count (\<lambda>i. [0xc3] @ PUTN 0x90 (alignment - 1)) @
            put_loop cycle_count (\<lambda>i. [0xe8] @ PUTQ (- alignment * cycle_count - 5) @ PUTN 0x90 (alignment - 5))
      in \<lparr>blob_code = code @ [0xc3], ptr_fn = length head, ptr_ret = length code\<rparr>)"

definition fill_forward_call_without_ret :: "int \<Rightarrow> int \<Rightarrow> blob" where
  "fill_forward_call_without_ret alignment cycle_count =
     (let head = PUTN 0x90 63 @ [0xc3];
          code = head @
            put_loop cycle_count (\<lambda>i. [0xe8] @ PUTQ (if alignment < 9 then 0 else alignment - 9) @
              PUTN 0x90 (alignment - 4 - 5) @ [0x48, 0x83, 0xc4, 0x08])
      in \<lparr>blob_code = code @ [0xc3], ptr_fn = length head, ptr_ret = length code\<rparr>)"

text \<open>The offset is taken when the opcode has been written: \<open>p\<close> is one behind it.\<close>

definition fill_call_shared_ret :: "int \<Rightarrow> int \<Rightarrow> blob" where
  "fill_call_shared_ret alignment cycle_count =
     (let head = PUTN 0x90 62 @ [0xc3, 0x90];
          code = fold (\<lambda>i code. let code = code @ [0xe8]; p = int (length code) in
              code @ PUTQ (- (p + 5 - int (length head)) - 1) @ PUTN 0x90 (alignment - 5)) [0..<nat cycle_count] head
      in \<lparr>blob_code = code @ [0xc3], ptr_fn = length head, ptr_ret = length code\<rparr>)"

definition mov_mov_op :: bytes where
  "mov_mov_op = [0xb9, 0x01, 0x00, 0x00, 0x00, 0xff, 0xc9]"

definition fill_jne_never_taken :: "int \<Rightarrow> int \<Rightarrow> int \<Rightarrow> blob" where
  "fill_jne_never_taken direction alignment cycle_count =
     (let head = PUTN 0x90 (63 - 7) @ [0xc3];
          code = head @ mov_mov_op @
            put_loop cycle_count (\<lambda>i. [0x75, word_of_int direction] @ PUTN 0x90 (alignment - 2))
      in \<lparr>blob_code = code @ [0xc3], ptr_fn = length head, ptr_ret = length code\<rparr>)"

definition fill_je_always_taken :: "int \<Rightarrow> int \<Rightarrow> blob" where
  "fill_je_always_taken alignment cycle_count =
     (let direction = 0xfe + alignment;
          head = PUTN 0x90 (63 - 7) @ [0xc3];
          code = head @ mov_mov_op @
            put_loop cycle_count (\<lambda>i. [0x74, word_of_int direction] @ PUTN 0x90 (alignment - 2))
      in \<lparr>blob_code = code @ [0xc3], ptr_fn = length head, ptr_ret = length code\<rparr>)"

definition fill_jmp_weaved :: "int \<Rightarrow> int \<Rightarrow> blob" where
  "fill_jmp_weaved alignment cycle_count =
     (let head = PUTN 0x90 63 @ [0xc3];
          jumps = (if alignment \<ge> 4 then 2 else 1);
          code = head @
            put_loop cycle_count (\<lambda>i. concat (replicate jumps [0xeb, word_of_int (alignment - 2)]) @
              PUTN 0x90 (alignment - 2 * int jumps))
      in \<lparr>blob_code = code @ [0xc3, 0x90, 0xc3, 0x90], ptr_fn = length head, ptr_ret = length code\<rparr>)"

definition fill_jmp :: "int \<Rightarrow> int \<Rightarrow> blob" where
  "fill_jmp alignment cycle_count =
     (let alignment = (if alignment < 2 then 2 else alignment);
          head = PUTN 0x90 63 @ [0xc3];
          code = head @ put_loop cycle_count (\<lambda>i. [0xeb, word_of_int (alignment - 2)] @ PUTN 0x90 (alignment - 2))
      in \<lparr>blob_code = code @ [0xc3], ptr_fn = length head, ptr_ret = length code\<rparr>)"

definition fill_inc :: "int \<Rightarrow> int \<Rightarrow> blob" where
  "fill_inc alignment cycle_count =
     (let head = PUTN 0x90 63 @ [0xc3];
          code = head @ put_loop cycle_count (\<lambda>i. [0xff, 0xc9] @ PUTN 0x90 (alignment - 2))
      in \<lparr>blob_code = code @ [0xc3], ptr_fn = length head, ptr_ret = length code\<rparr>)"

definition gadget_of :: "int \<Rightarrow> int \<Rightarrow> string \<Rightarrow> blob option" where
  "gadget_of alignment cycle_count type =
     (if type = ''call_dedicated_ret'' then Some (fill_call_dedicated_ret alignment cycle_count)
      else if type = ''forward_call_without_ret'' then Some (fill_forward_call_without_ret alignment cycle_count)
      else if type = ''call_shared_ret'' then Some (fill_call_shared_ret alignment cycle_count)
      else if type = ''jne_never_taken'' then Some (fill_jne_never_taken 0xfe alignment cycle_count)
      else if type = ''jne_never_taken_backward'' then
        Some (fill_jne_never_taken (0xfe - alignment) alignment cycle_count)
      else if type = ''jne_never_taken_forward'' then
        Some (fill_jne_never_taken (0xfe + (alignment + 1)) alignment cycle_count)
      else if type = ''je_always_taken'' then Some (fill_je_always_taken alignment cycle_count)
      else if type = ''jmp_weaved'' then Some (fill_jmp_weaved alignment cycle_count)
      else if type = ''jmp'' then Some (fill_jmp alignment cycle_count)
      else if type = ''inc'' then Some (fill_inc alignment cycle_count)
      else None)"

definition blob_fill_code :: "int \<Rightarrow> int \<Rightarrow> string \<Rightarrow> blob_stop + blob" where
  "blob_fill_code alignment cycle_count type =
     (case gadget_of alignment cycle_count type of
        None \<Rightarrow> Inl Bad_type
      | Some b \<Rightarrow> if length (blob_code b) \<le> ASSUMED_SZ then Inr b else Inl Overrun)"

section \<open>The machine\<close>

datatype instr =
    Nop
  | Ret
  | Jmp int
  | Call int
  | Je int
  | Jne int
  | Mov_ecx u32
  | Dec_ecx
  | Add_rsp int

definition rel32 :: "bytes \<Rightarrow> int" where
  "rel32 bs = sint (word_of_le (take 4 bs) :: u32)"

text \<open>An instruction and its length.\<close>

definition decode :: "bytes \<Rightarrow> (instr \<times> int) option" where
  "decode bs =
     (if take 1 bs = [0x90] then Some (Nop, 1)
      else if take 1 bs = [0xc3] then Some (Ret, 1)
      else if take 1 bs = [0xe9] \<and> 5 \<le> length bs then Some (Jmp (rel32 (drop 1 bs)), 5)
      else if take 1 bs = [0xe8] \<and> 5 \<le> length bs then Some (Call (rel32 (drop 1 bs)), 5)
      else if take 1 bs = [0xeb] \<and> 2 \<le> length bs then Some (Jmp (sint (bs ! 1)), 2)
      else if take 1 bs = [0x74] \<and> 2 \<le> length bs then Some (Je (sint (bs ! 1)), 2)
      else if take 1 bs = [0x75] \<and> 2 \<le> length bs then Some (Jne (sint (bs ! 1)), 2)
      else if take 1 bs = [0xb9] \<and> 5 \<le> length bs then Some (Mov_ecx (word_of_le (take 4 (drop 1 bs))), 5)
      else if take 2 bs = [0xff, 0xc9] then Some (Dec_ecx, 2)
      else if take 3 bs = [0x48, 0x83, 0xc4] \<and> 4 \<le> length bs then Some (Add_rsp (sint (bs ! 3)), 4)
      else None)"

text \<open>\<open>stack\<close>: the addresses pushed since the code was called. The stack pointer is never 0.\<close>

record x86 =
  rip :: int
  zf :: bool
  ecx :: u32
  stack :: "int list"

fun execute :: "instr \<Rightarrow> x86 \<Rightarrow> x86 option option" where
  "execute Nop s = Some (Some s)"
| "execute Ret s =
     (case stack s of
        [] \<Rightarrow> Some None
      | a # st \<Rightarrow> Some (Some (s\<lparr>rip := a, stack := st\<rparr>)))"
| "execute (Jmp d) s = Some (Some (s\<lparr>rip := rip s + d\<rparr>))"
| "execute (Call d) s = Some (Some (s\<lparr>rip := rip s + d, stack := rip s # stack s\<rparr>))"
| "execute (Je d) s = Some (Some (if zf s then s\<lparr>rip := rip s + d\<rparr> else s))"
| "execute (Jne d) s = Some (Some (if \<not> zf s then s\<lparr>rip := rip s + d\<rparr> else s))"
| "execute (Mov_ecx v) s = Some (Some (s\<lparr>ecx := v\<rparr>))"
| "execute Dec_ecx s = Some (Some (s\<lparr>zf := (ecx s - 1 = 0), ecx := ecx s - 1\<rparr>))"
| "execute (Add_rsp n) s =
     (case stack s of
        [] \<Rightarrow> None
      | a # st \<Rightarrow> if n = 8 then Some (Some (s\<lparr>zf := False, stack := st\<rparr>)) else None)"

definition x86_step :: "bytes \<Rightarrow> x86 \<Rightarrow> (instr \<times> x86 option) option" where
  "x86_step code s =
     (if 0 \<le> rip s then
        (case decode (drop (nat (rip s)) code) of
           None \<Rightarrow> None
         | Some (i, l) \<Rightarrow> map_option (Pair i) (execute i (s\<lparr>rip := rip s + l\<rparr>)))
      else None)"

text \<open>A call of the code at an offset, with any flags and registers.\<close>

definition call_at :: "bool \<Rightarrow> u32 \<Rightarrow> nat \<Rightarrow> x86" where
  "call_at z c entry = \<lparr>rip = int entry, zf = z, ecx = c, stack = []\<rparr>"

definition blob_exec :: "nat \<Rightarrow> bool \<Rightarrow> u32 \<Rightarrow> blob \<Rightarrow> instr list option" where
  "blob_exec n z c b = run_code x86_step (blob_code b) n (call_at z c (ptr_fn b))"

definition blob_warm_itlb :: "nat \<Rightarrow> bool \<Rightarrow> u32 \<Rightarrow> blob \<Rightarrow> (instr list \<times> instr list) option" where
  "blob_warm_itlb n z c b =
     (case run_code x86_step (blob_code b) n (call_at z c 0) of
        None \<Rightarrow> None
      | Some t1 \<Rightarrow> map_option (Pair t1) (run_code x86_step (blob_code b) n (call_at z c (ptr_ret b))))"

definition blob_warm_icache :: "nat \<Rightarrow> bool \<Rightarrow> u32 \<Rightarrow> blob \<Rightarrow> int \<Rightarrow> string \<Rightarrow> instr list option" where
  "blob_warm_icache n z c b alignment type =
     (if type = ''jmp_weaved'' then
        if alignment < 4 then Some []
        else run_code x86_step (blob_code b) n (call_at z c (ptr_fn b + 2))
      else run_code x86_step (blob_code b) n (call_at z c (ptr_fn b)))"

section \<open>One instruction\<close>

abbreviation st :: "int \<Rightarrow> bool \<Rightarrow> u32 \<Rightarrow> int list \<Rightarrow> x86" where
  "st r z c k \<equiv> \<lparr>rip = r, zf = z, ecx = c, stack = k\<rparr>"

lemma step_decode:
  assumes "code_at code r bs" "\<And>rest. decode (bs @ rest) = Some (i, l)"
  shows "x86_step code (st r z c k) = map_option (Pair i) (execute i (st (r + l) z c k))"
  using assms by (auto simp: x86_step_def code_at_def)

lemma decode_word:
  "decode (0x90 # rest) = Some (Nop, 1)"
  "decode (0xc3 # rest) = Some (Ret, 1)"
  "decode (0xeb # d # rest) = Some (Jmp (sint d), 2)"
  "decode (0x74 # d # rest) = Some (Je (sint d), 2)"
  "decode (0x75 # d # rest) = Some (Jne (sint d), 2)"
  "decode (0xff # 0xc9 # rest) = Some (Dec_ecx, 2)"
  "decode (0x48 # 0x83 # 0xc4 # d # rest) = Some (Add_rsp (sint d), 4)"
  by (simp_all add: decode_def)

lemma sint_u32: "- (2 ^ 31) \<le> d \<Longrightarrow> d < 2 ^ 31 \<Longrightarrow> sint (word_of_int d :: u32) = d"
  by (simp add: int_word_sint)

lemma sint_u8: "- 128 \<le> d \<Longrightarrow> d < 128 \<Longrightarrow> sint (word_of_int d :: u8) = d"
  by (simp add: int_word_sint)

lemma rel32_PUTQ:
  assumes "- (2 ^ 31) \<le> d" "d < 2 ^ 31"
  shows "rel32 (PUTQ d @ rest) = d"
  using sint_u32 [OF assms] by (simp add: rel32_def PUTQ_def word_of_le_le_bytes)

lemma decode_rel32:
  assumes "- (2 ^ 31) \<le> d" "d < 2 ^ 31"
  shows "decode (([0xe9] @ PUTQ d) @ rest) = Some (Jmp d, 5)" "decode (([0xe8] @ PUTQ d) @ rest) = Some (Call d, 5)"
  using rel32_PUTQ [OF assms] by (simp_all add: decode_def)

lemma step_nop: "code_at code r [0x90] \<Longrightarrow> x86_step code (st r z c k) = Some (Nop, Some (st (r + 1) z c k))"
  by (subst step_decode [where l = 1 and i = Nop]) (auto simp: decode_word)

lemma step_ret: "code_at code r [0xc3] \<Longrightarrow> x86_step code (st r z c (a # k)) = Some (Ret, Some (st a z c k))"
  by (subst step_decode [where l = 1 and i = Ret]) (auto simp: decode_word)

lemma step_return: "code_at code r [0xc3] \<Longrightarrow> x86_step code (st r z c []) = Some (Ret, None)"
  by (subst step_decode [where l = 1 and i = Ret]) (auto simp: decode_word)

lemma step_jmp8: "code_at code r [0xeb, d] \<Longrightarrow> x86_step code (st r z c k) = Some (Jmp (sint d), Some (st (r + 2 + sint d) z c k))"
  by (subst step_decode [where l = 2 and i = "Jmp (sint d)"]) (auto simp: decode_word)

lemma step_je: "code_at code r [0x74, d] \<Longrightarrow> x86_step code (st r True c k) = Some (Je (sint d), Some (st (r + 2 + sint d) True c k))"
  by (subst step_decode [where l = 2 and i = "Je (sint d)"]) (auto simp: decode_word)

lemma step_jne: "code_at code r [0x75, d] \<Longrightarrow> x86_step code (st r True c k) = Some (Jne (sint d), Some (st (r + 2) True c k))"
  by (subst step_decode [where l = 2 and i = "Jne (sint d)"]) (auto simp: decode_word)

lemma step_dec: "code_at code r [0xff, 0xc9] \<Longrightarrow>
    x86_step code (st r z c k) = Some (Dec_ecx, Some (st (r + 2) (c - 1 = 0) (c - 1) k))"
  by (subst step_decode [where l = 2 and i = Dec_ecx]) (auto simp: decode_word)

lemma step_jmp32: "code_at code r ([0xe9] @ PUTQ d) \<Longrightarrow> - (2 ^ 31) \<le> d \<Longrightarrow> d < 2 ^ 31 \<Longrightarrow>
    x86_step code (st r z c k) = Some (Jmp d, Some (st (r + 5 + d) z c k))"
  by (subst step_decode [where l = 5 and i = "Jmp d"]) (assumption | rule decode_rel32 | simp)+

lemma step_call: "code_at code r ([0xe8] @ PUTQ d) \<Longrightarrow> - (2 ^ 31) \<le> d \<Longrightarrow> d < 2 ^ 31 \<Longrightarrow>
    x86_step code (st r z c k) = Some (Call d, Some (st (r + 5 + d) z c ((r + 5) # k)))"
  by (subst step_decode [where l = 5 and i = "Call d"]) (assumption | rule decode_rel32 | simp)+

lemma step_add_rsp: "code_at code r [0x48, 0x83, 0xc4, 0x08] \<Longrightarrow>
    x86_step code (st r z c (a # k)) = Some (Add_rsp 8, Some (st (r + 4) False c k))"
  by (subst step_decode [where l = 4 and i = "Add_rsp 8"]) (auto simp: decode_word)

lemma follow_nops:
  assumes "code_at code r (PUTN 0x90 n)"
  shows "follow x86_step code (replicate (nat n) Nop) (st r z c k) = Some (st (r + int (nat n)) z c k)"
proof -
  have "code_at code r (replicate m 0x90) \<Longrightarrow> follow x86_step code (replicate m Nop) (st r z c k) = Some (st (r + int m) z c k)" for m
  proof (induction m arbitrary: r)
    case (Suc m)
    then have "code_at code r [0x90]" "code_at code (r + 1) (replicate m 0x90)"
      using code_at_append [of code r "[0x90]" "replicate m 0x90"] by simp_all
    then show ?case using Suc.IH [of "r + 1"] step_nop [of code r z c k] by (simp add: algebra_simps)
  qed simp
  then show ?thesis using assms by (simp add: PUTN_def)
qed

text \<open>The instructions that set the flag.\<close>

lemma follow_mov_mov:
  assumes "code_at code r mov_mov_op"
  shows "follow x86_step code [Mov_ecx 1, Dec_ecx] (st r z c k) = Some (st (r + 7) True 0 k)"
proof -
  have a: "code_at code r [0xb9, 0x01, 0x00, 0x00, 0x00]" "code_at code (r + 5) [0xff, 0xc9]"
    using assms code_at_append [of code r "[0xb9, 0x01, 0x00, 0x00, 0x00]" "[0xff, 0xc9]"] by (simp_all add: mov_mov_op_def)
  have "decode ([0xb9, 0x01, 0x00, 0x00, 0x00] @ rest) = Some (Mov_ecx 1, 5)" for rest
    by (simp add: decode_def)
  then have "x86_step code (st r z c k) = Some (Mov_ecx 1, Some (st (r + 5) z 1 k))"
    using step_decode [OF a(1)] by simp
  then show ?thesis using step_dec [OF a(2)] by simp
qed

section \<open>Loops\<close>

text \<open>A loop entered with nothing on the stack, and a \<open>ret\<close> behind it.\<close>

lemma run_blocks:
  assumes code: "code = pre @ put_loop n f @ post" and len: "\<And>i. length (f i) = w"
    and body: "\<And>i r. i < nat n \<Longrightarrow> r = int (length pre) + int i * int w \<Longrightarrow> code_at code r (f i) \<Longrightarrow>
      follow x86_step code (tr i) (st (r + off) (zs i) (cs i) []) = Some (st (r + int w + off) (zs (Suc i)) (cs (Suc i)) [])"
    and entry: "follow x86_step code before s = Some (st (int (length pre) + off) (zs 0) (cs 0) [])"
    and ret: "code_at code (int (length pre) + int (nat n) * int w + off) [0xc3]"
    and tr: "is = before @ concat (map tr [0..<nat n]) @ [Ret]"
  shows "run_code x86_step code (length is) s = Some is"
  by (rule run_put_loop [where S = "\<lambda>i r. st (r + off) (zs i) (cs i) []" and after = "[]", OF code len body])
    (use entry ret tr step_return in \<open>simp_all\<close>)

section \<open>The gadgets\<close>

text \<open>The jumps of 8 bits reach 127 bytes: the alignments for which the code does what it is to do.\<close>

definition near :: "int \<Rightarrow> bool" where
  "near alignment \<longleftrightarrow> 2 \<le> alignment \<and> alignment \<le> 129"

lemma near_disp: "near a \<Longrightarrow> sint (word_of_int (a - 2) :: u8) = a - 2"
  by (rule sint_u8) (simp_all add: near_def)

lemma length_head [simp]: "length (PUTN 0x90 63 @ [0xc3]) = 64"
  by simp

lemma exec_jmp:
  assumes "near (max 2 a)" "b = fill_jmp a n" "is = concat (map (\<lambda>_. [Jmp (max 2 a - 2)]) [0..<nat n]) @ [Ret]"
  shows "blob_exec (length is) z c b = Some is"
proof -
  let ?a = "max 2 a" and ?pre = "PUTN 0x90 63 @ [0xc3]"
  let ?f = "\<lambda>i :: nat. [0xeb, word_of_int (?a - 2)] @ PUTN 0x90 (?a - 2)"
  have a: "(if a < 2 then 2 else a) = ?a" by simp
  have b: "blob_code b = ?pre @ put_loop n ?f @ [0xc3]" "ptr_fn b = length ?pre"
    unfolding assms(2) fill_jmp_def Let_def a by simp_all
  have len: "length (?f i) = nat ?a" for i by simp
  have "run_code x86_step (blob_code b) (length is) (st (int (length ?pre) + 0) z c []) = Some is"
  proof (rule run_blocks [OF b(1) len, where tr = "\<lambda>_. [Jmp (?a - 2)]" and zs = "\<lambda>_. z" and cs = "\<lambda>_. c"])
    fix i r assume "code_at (blob_code b) r (?f i)"
    then have "code_at (blob_code b) r [0xeb, word_of_int (?a - 2)]" unfolding code_at_append by blast
    from step_jmp8 [OF this] near_disp [OF assms(1)]
    show "follow x86_step (blob_code b) [Jmp (?a - 2)] (st (r + 0) z c []) = Some (st (r + int (nat ?a) + 0) z c [])"
      by simp
  next
    show "follow x86_step (blob_code b) [] (st (int (length ?pre) + 0) z c []) = Some (st (int (length ?pre) + 0) z c [])"
      by simp
  next
    show "code_at (blob_code b) (int (length ?pre) + int (nat n) * int (nat ?a) + 0) [0xc3]"
      using code_at_end [OF b(1) len] by simp
  next
    show "is = [] @ concat (map (\<lambda>_. [Jmp (?a - 2)]) [0..<nat n]) @ [Ret]" using assms(3) by simp
  qed
  then show ?thesis by (simp add: blob_exec_def call_at_def b(2))
qed

lemma exec_inc:
  assumes "b = fill_inc a n" "is = concat (map (\<lambda>_. Dec_ecx # replicate (nat (a - 2)) Nop) [0..<nat n]) @ [Ret]"
  shows "blob_exec (length is) z c b = Some is"
proof -
  let ?pre = "PUTN 0x90 63 @ [0xc3]" and ?f = "\<lambda>i :: nat. [0xff, 0xc9] @ PUTN 0x90 (a - 2)"
  let ?zs = "\<lambda>i. if i = 0 then z else c - of_nat i = 0"
  have b: "blob_code b = ?pre @ put_loop n ?f @ [0xc3]" "ptr_fn b = length ?pre"
    unfolding assms(1) fill_inc_def Let_def by simp_all
  have len: "length (?f i) = 2 + nat (a - 2)" for i by simp
  have "run_code x86_step (blob_code b) (length is) (st (int (length ?pre) + 0) z c []) = Some is"
  proof (rule run_blocks [OF b(1) len, where tr = "\<lambda>_. Dec_ecx # replicate (nat (a - 2)) Nop" and zs = ?zs and
        cs = "\<lambda>i. c - of_nat i" and before = "[]"])
    fix i r assume "code_at (blob_code b) r (?f i)"
    then have "code_at (blob_code b) r [0xff, 0xc9]" "code_at (blob_code b) (r + 2) (PUTN 0x90 (a - 2))"
      unfolding code_at_append by simp_all
    from step_dec [OF this(1)] follow_nops [OF this(2)]
    show "follow x86_step (blob_code b) (Dec_ecx # replicate (nat (a - 2)) Nop) (st (r + 0) (?zs i) (c - of_nat i) []) =
        Some (st (r + int (2 + nat (a - 2)) + 0) (?zs (Suc i)) (c - of_nat (Suc i)) [])"
      by (simp add: algebra_simps)
  next
    show "code_at (blob_code b) (int (length ?pre) + int (nat n) * int (2 + nat (a - 2)) + 0) [0xc3]"
      using code_at_end [OF b(1) len] by simp
  qed (simp_all add: assms(2))
  then show ?thesis by (simp add: blob_exec_def call_at_def b(2))
qed

lemma exec_jne:
  assumes "b = fill_jne_never_taken d a n" "e = sint (word_of_int d :: u8)"
    and "is = [Mov_ecx 1, Dec_ecx] @ concat (map (\<lambda>_. Jne e # replicate (nat (a - 2)) Nop) [0..<nat n]) @ [Ret]"
  shows "blob_exec (length is) z c b = Some is"
proof -
  let ?head = "PUTN 0x90 56 @ [0xc3]" and ?f = "\<lambda>i :: nat. [0x75, word_of_int d] @ PUTN 0x90 (a - 2)"
  let ?pre = "?head @ mov_mov_op"
  have b: "blob_code b = ?pre @ put_loop n ?f @ [0xc3]" "ptr_fn b = 57"
    unfolding assms(1) fill_jne_never_taken_def Let_def by simp_all
  have len: "length (?f i) = 2 + nat (a - 2)" for i by simp
  have "drop 57 (blob_code b) = mov_mov_op @ put_loop n ?f @ [0xc3]" unfolding b(1) by (simp add: PUTN_def)
  from follow_mov_mov [OF code_atI [OF this]]
  have entry: "follow x86_step (blob_code b) [Mov_ecx 1, Dec_ecx] (call_at z c 57) = Some (st (int (length ?pre) + 0) True 0 [])"
    by (simp add: call_at_def mov_mov_op_def)
  have "run_code x86_step (blob_code b) (length is) (call_at z c 57) = Some is"
  proof (rule run_blocks [where tr = "\<lambda>_. Jne e # replicate (nat (a - 2)) Nop" and zs = "\<lambda>_. True" and cs = "\<lambda>_. 0" and
        before = "[Mov_ecx 1, Dec_ecx]", OF b(1) len _ entry _ assms(3)])
    fix i r assume "code_at (blob_code b) r (?f i)"
    then have "code_at (blob_code b) r [0x75, word_of_int d]" "code_at (blob_code b) (r + 2) (PUTN 0x90 (a - 2))"
      unfolding code_at_append by simp_all
    from step_jne [OF this(1)] follow_nops [OF this(2)]
    show "follow x86_step (blob_code b) (Jne e # replicate (nat (a - 2)) Nop) (st (r + 0) True 0 []) =
        Some (st (r + int (2 + nat (a - 2)) + 0) True 0 [])"
      by (simp add: algebra_simps assms(2))
  next
    show "code_at (blob_code b) (int (length ?pre) + int (nat n) * int (2 + nat (a - 2)) + 0) [0xc3]"
      using code_at_end [OF b(1) len] by simp
  qed
  then show ?thesis by (simp add: blob_exec_def b(2))
qed

lemma exec_je:
  assumes "near a" "b = fill_je_always_taken a n"
    and "is = [Mov_ecx 1, Dec_ecx] @ concat (map (\<lambda>_. [Je (a - 2)]) [0..<nat n]) @ [Ret]"
  shows "blob_exec (length is) z c b = Some is"
proof -
  let ?head = "PUTN 0x90 56 @ [0xc3]" and ?d = "word_of_int (0xfe + a) :: u8"
  let ?f = "\<lambda>i :: nat. [0x74, ?d] @ PUTN 0x90 (a - 2)"
  let ?pre = "?head @ mov_mov_op"
  have "(254 + a) mod 256 = (a - 2) mod 256" using mod_add_self2 [of "a - 2" 256] by (simp add: algebra_simps)
  then have "?d = word_of_int (a - 2)" by (simp only: word_of_int_eq_iff take_bit_eq_mod) simp
  then have d: "sint ?d = a - 2" using near_disp [OF assms(1)] by (simp only:)
  have b: "blob_code b = ?pre @ put_loop n ?f @ [0xc3]" "ptr_fn b = 57"
    unfolding assms(2) fill_je_always_taken_def Let_def by simp_all
  have len: "length (?f i) = nat a" for i using assms(1) by (auto simp: near_def)
  have "drop 57 (blob_code b) = mov_mov_op @ put_loop n ?f @ [0xc3]" unfolding b(1) by (simp add: PUTN_def)
  from follow_mov_mov [OF code_atI [OF this]]
  have entry: "follow x86_step (blob_code b) [Mov_ecx 1, Dec_ecx] (call_at z c 57) = Some (st (int (length ?pre) + 0) True 0 [])"
    by (simp add: call_at_def mov_mov_op_def)
  have "run_code x86_step (blob_code b) (length is) (call_at z c 57) = Some is"
  proof (rule run_blocks [where tr = "\<lambda>_. [Je (a - 2)]" and zs = "\<lambda>_. True" and cs = "\<lambda>_. 0" and
        before = "[Mov_ecx 1, Dec_ecx]", OF b(1) len _ entry _ assms(3)])
    fix i r assume "code_at (blob_code b) r (?f i)"
    then have "code_at (blob_code b) r [0x74, ?d]" unfolding code_at_append by blast
    from step_je [OF this] assms(1)
    show "follow x86_step (blob_code b) [Je (a - 2)] (st (r + 0) True 0 []) = Some (st (r + int (nat a) + 0) True 0 [])"
      unfolding d by (simp add: near_def)
  next
    show "code_at (blob_code b) (int (length ?pre) + int (nat n) * int (nat a) + 0) [0xc3]"
      using code_at_end [OF b(1) len] by simp
  qed
  then show ?thesis by (simp add: blob_exec_def b(2))
qed

text \<open>
  The weaved jumps: the first jump of each block leads to the first of the next, the second to the second, when
  there are two.
\<close>

lemma exec_weaved:
  assumes "near a" "b = fill_jmp_weaved a n" "is = concat (map (\<lambda>_. [Jmp (a - 2)]) [0..<nat n]) @ [Ret]"
    and "off = 0 \<or> off = 2 \<and> 4 \<le> a"
  shows "run_code x86_step (blob_code b) (length is) (call_at z c (ptr_fn b + off)) = Some is"
proof -
  let ?pre = "PUTN 0x90 63 @ [0xc3]" and ?jumps = "if a \<ge> 4 then 2 else 1 :: nat"
  let ?f = "\<lambda>i :: nat. concat (replicate ?jumps [0xeb, word_of_int (a - 2)]) @ PUTN 0x90 (a - 2 * int ?jumps)"
  have b: "blob_code b = ?pre @ put_loop n ?f @ [0xc3, 0x90, 0xc3, 0x90]" "ptr_fn b = length ?pre"
    unfolding assms(2) fill_jmp_weaved_def Let_def by simp_all
  have "concat (replicate 2 xs) = xs @ xs" for xs :: bytes by (simp add: numeral_2_eq_2)
  then have len: "length (?f i) = nat a" for i using assms(1) by (auto simp: near_def)
  have "run_code x86_step (blob_code b) (length is) (st (int (length ?pre) + int off) z c []) = Some is"
  proof (rule run_blocks [OF b(1) len, where tr = "\<lambda>_. [Jmp (a - 2)]" and zs = "\<lambda>_. z" and cs = "\<lambda>_. c" and before = "[]"])
    fix i r assume f: "code_at (blob_code b) r (?f i)"
    have "code_at (blob_code b) (r + int off) [0xeb, word_of_int (a - 2)]"
    proof (cases "a \<ge> 4")
      case True
      let ?j = "[0xeb, word_of_int (a - 2)] :: bytes"
      have "concat (replicate ?jumps ?j) = ?j @ ?j" using True by (simp add: numeral_2_eq_2)
      then have "code_at (blob_code b) r (?j @ ?j)"
        using f code_at_append [of "blob_code b" r "?j @ ?j"] by (simp only:)
      then have "code_at (blob_code b) r ?j" "code_at (blob_code b) (r + 2) ?j"
        using code_at_append [of "blob_code b" r ?j ?j] by simp_all
      then show ?thesis using assms(4) by auto
    next
      case False
      then show ?thesis using f assms(4) unfolding code_at_append by auto
    qed
    from step_jmp8 [OF this] near_disp [OF assms(1)] assms(1)
    show "follow x86_step (blob_code b) [Jmp (a - 2)] (st (r + int off) z c []) = Some (st (r + int (nat a) + int off) z c [])"
      by (simp add: near_def algebra_simps)
  next
    have "code_at (blob_code b) (int (length ?pre) + int (nat n) * int (nat a)) ([0xc3, 0x90] @ [0xc3, 0x90])"
      using code_at_end [OF b(1) len] by simp
    then have "code_at (blob_code b) (int (length ?pre) + int (nat n) * int (nat a)) ([0xc3] @ [0x90])"
      "code_at (blob_code b) (int (length ?pre) + int (nat n) * int (nat a) + 2) ([0xc3] @ [0x90])"
      unfolding code_at_append [of _ _ "[0xc3, 0x90]"] by simp_all
    then show "code_at (blob_code b) (int (length ?pre) + int (nat n) * int (nat a) + int off) [0xc3]"
      unfolding code_at_append using assms(4) by auto
  qed (simp_all add: assms(3))
  then show ?thesis by (simp add: call_at_def b(2))
qed

lemma exec_forward_call:
  assumes "b = fill_forward_call_without_ret a n" "a < 2 ^ 31"
    and "is = concat (map (\<lambda>_. [Call (max 0 (a - 9)), Add_rsp 8]) [0..<nat n]) @ [Ret]"
  shows "blob_exec (length is) z c b = Some is"
proof -
  let ?pre = "PUTN 0x90 63 @ [0xc3]" and ?d = "if a < 9 then 0 else a - 9"
  let ?f = "\<lambda>i :: nat. [0xe8] @ PUTQ ?d @ PUTN 0x90 (a - 4 - 5) @ [0x48, 0x83, 0xc4, 0x08]"
  let ?w = "9 + nat (a - 9)"
  have d: "max 0 (a - 9) = ?d" "- (2 ^ 31) \<le> ?d" "?d < 2 ^ 31" using assms(2) by auto
  have b: "blob_code b = ?pre @ put_loop n ?f @ [0xc3]" "ptr_fn b = length ?pre"
    unfolding assms(1) fill_forward_call_without_ret_def Let_def by simp_all
  have len: "length (?f i) = ?w" for i by simp
  have "run_code x86_step (blob_code b) (length is) (st (int (length ?pre) + 0) z c []) = Some is"
  proof (rule run_blocks [OF b(1) len, where tr = "\<lambda>_. [Call ?d, Add_rsp 8]" and zs = "\<lambda>i. z \<and> i = 0" and cs = "\<lambda>_. c" and before = "[]"])
    fix i r assume "code_at (blob_code b) r (?f i)"
    then have "code_at (blob_code b) r (([0xe8] @ PUTQ ?d) @ PUTN 0x90 (a - 4 - 5) @ [0x48, 0x83, 0xc4, 0x08])"
      unfolding append_assoc .
    then have f: "code_at (blob_code b) r ([0xe8] @ PUTQ ?d)" "code_at (blob_code b) (r + 5 + ?d) [0x48, 0x83, 0xc4, 0x08]"
      unfolding code_at_append [of _ _ "[0xe8] @ PUTQ ?d"] code_at_append [of _ _ "PUTN 0x90 (a - 4 - 5)"]
      by (auto simp: algebra_simps split: if_splits)
    from step_call [OF f(1) d(2,3)] step_add_rsp [OF f(2)]
    show "follow x86_step (blob_code b) [Call ?d, Add_rsp 8] (st (r + 0) (z \<and> i = 0) c []) =
        Some (st (r + int ?w + 0) (z \<and> Suc i = 0) c [])"
      by (auto simp: algebra_simps)
  next
    show "code_at (blob_code b) (int (length ?pre) + int (nat n) * int ?w + 0) [0xc3]"
      using code_at_end [OF b(1) len] by simp
  next
    show "is = [] @ concat (map (\<lambda>_. [Call ?d, Add_rsp 8]) [0..<nat n]) @ [Ret]" using assms(3) d(1) by simp
  qed simp
  then show ?thesis by (simp add: blob_exec_def call_at_def b(2))
qed

lemma shared_code:
  assumes "length head = 64" "w = 5 + nat (a - 5)"
  shows "fold (\<lambda>i code. let code = code @ [0xe8]; p = int (length code) in
      code @ PUTQ (- (p + 5 - int (length head)) - 1) @ PUTN 0x90 (a - 5)) [0..<m] head =
    head @ put_loop (int m) (\<lambda>i. [0xe8] @ PUTQ (- (int i * int w) - 7) @ PUTN 0x90 (a - 5))"
proof (induction m)
  case (Suc m)
  let ?f = "\<lambda>i. [0xe8] @ PUTQ (- (int i * int w) - 7) @ PUTN 0x90 (a - 5)"
  have "length (put_loop (int m) ?f) = m * w"
    using length_put_loop [of ?f w "int m"] assms(2) by simp
  moreover have "put_loop (int (Suc m)) ?f = put_loop (int m) ?f @ ?f m"
    by (simp only: put_loop_def nat_int upt_Suc_append [OF le0] map_append concat_append) simp
  moreover have "PUTQ (- 7 - int m * int w) = PUTQ (- (int m * int w) - 7)" by (rule arg_cong [of _ _ PUTQ]) simp
  ultimately show ?case using Suc.IH by (simp add: Let_def algebra_simps)
qed (simp add: put_loop_def)

lemma exec_call_shared:
  assumes "b = fill_call_shared_ret a n" "length (blob_code b) \<le> ASSUMED_SZ" "w = 5 + nat (a - 5)"
    and "is = concat (map (\<lambda>i. Call (- (int i * int w) - 7) # Ret # replicate (nat (a - 5)) Nop) [0..<nat n]) @ [Ret]"
  shows "blob_exec (length is) z c b = Some is"
proof -
  let ?pre = "PUTN 0x90 62 @ [0xc3, 0x90]" and ?d = "\<lambda>i :: nat. - (int i * int w) - 7"
  let ?f = "\<lambda>i. [0xe8] @ PUTQ (?d i) @ PUTN 0x90 (a - 5)"
  have h: "length ?pre = 64" by simp
  have b: "blob_code b = ?pre @ put_loop n ?f @ [0xc3]" "ptr_fn b = length ?pre"
    using shared_code [OF h assms(3), of "nat n"]
    unfolding assms(1) fill_call_shared_ret_def Let_def by (simp_all add: put_loop_def)
  have len: "length (?f i) = w" for i using assms(3) by simp
  have sz: "nat n * w \<le> 2 * 1024 * 1024"
    using assms(2) length_put_loop [of ?f w n, OF len] unfolding b(1) by (simp add: ASSUMED_SZ_def)
  have ret: "code_at (blob_code b) 62 [0xc3]"
    using code_atI [of 62 "blob_code b" "[0xc3]"] unfolding b(1) by (simp add: PUTN_def)
  have "run_code x86_step (blob_code b) (length is) (st (int (length ?pre) + 0) z c []) = Some is"
  proof (rule run_blocks [OF b(1) len, where tr = "\<lambda>i. Call (?d i) # Ret # replicate (nat (a - 5)) Nop" and
        zs = "\<lambda>_. z" and cs = "\<lambda>_. c" and before = "[]"])
    fix i r assume i: "i < nat n" and r: "r = int (length ?pre) + int i * int w" and "code_at (blob_code b) r (?f i)"
    then have "code_at (blob_code b) r (([0xe8] @ PUTQ (?d i)) @ PUTN 0x90 (a - 5))" unfolding append_assoc by blast
    then have f: "code_at (blob_code b) r ([0xe8] @ PUTQ (?d i))" "code_at (blob_code b) (r + 5) (PUTN 0x90 (a - 5))"
      unfolding code_at_append [of _ _ "[0xe8] @ PUTQ (?d i)"] by simp_all
    have "i * w \<le> nat n * w" using i by simp
    then have "i * w \<le> 2 * 1024 * 1024" using sz by linarith
    then have "int (i * w) \<le> 2 * 1024 * 1024" by linarith
    moreover have "- (2 ^ 31) \<le> - x - 7 \<and> - x - 7 < 2 ^ 31" if "x \<le> 2 * 1024 * 1024" "0 \<le> x" for x :: int
      using that by simp
    ultimately have "- (2 ^ 31) \<le> - int (i * w) - 7 \<and> - int (i * w) - 7 < 2 ^ 31" using of_nat_0_le_iff by blast
    then have d: "- (2 ^ 31) \<le> ?d i" "?d i < 2 ^ 31" unfolding of_nat_mult by blast+
    have "r + 5 + ?d i = 62" using r h by simp
    then have "x86_step (blob_code b) (st r z c []) = Some (Call (?d i), Some (st 62 z c [r + 5]))"
      using step_call [OF f(1) d, of z c "[]"] by simp
    with step_ret [OF ret, of z c "r + 5" "[]"] follow_nops [OF f(2), of z c "[]"]
    show "follow x86_step (blob_code b) (Call (?d i) # Ret # replicate (nat (a - 5)) Nop) (st (r + 0) z c []) =
        Some (st (r + int w + 0) z c [])"
      by (simp add: assms(3) algebra_simps)
  next
    show "code_at (blob_code b) (int (length ?pre) + int (nat n) * int w + 0) [0xc3]"
      using code_at_end [OF b(1) len] by simp
  qed (simp_all add: assms(4))
  then show ?thesis by (simp add: blob_exec_def call_at_def b(2))
qed

lemma exec_call_dedicated:
  assumes "b = fill_call_dedicated_ret a' n" "length (blob_code b) \<le> ASSUMED_SZ" "a = max 5 a'" "n \<ge> 0"
    and "is = [Jmp (a * n)] @ concat (map (\<lambda>_. Call (- a * n - 5) # Ret # replicate (nat (a - 5)) Nop) [0..<nat n]) @ [Ret]"
  shows "blob_exec (length is) z c b = Some is"
proof -
  let ?head = "PUTN 0x90 58 @ [0xc3]" and ?d = "- a * n - 5"
  let ?g = "\<lambda>i :: nat. [0xc3] @ PUTN 0x90 (a - 1)" and ?f = "\<lambda>i :: nat. [0xe8] @ PUTQ ?d @ PUTN 0x90 (a - 5)"
  let ?first = "?head @ [0xe9] @ PUTQ (a * n)"
  let ?pre = "?first @ put_loop n ?g"
  have a: "(if a' < 5 then 5 else a') = a" "5 \<le> a" using assms(3) by simp_all
  have b: "blob_code b = ?pre @ put_loop n ?f @ [0xc3]" "ptr_fn b = 59"
    unfolding assms(1) fill_call_dedicated_ret_def Let_def a by simp_all
  have b': "blob_code b = ?first @ put_loop n ?g @ put_loop n ?f @ [0xc3]" unfolding b(1) by simp
  have len: "length (?f i) = nat a" "length (?g i) = nat a" for i using a(2) by auto
  have pre: "int (length ?pre) = 64 + a * n"
    using length_put_loop [of ?g "nat a" n, OF len(2)] assms(4) a(2) by simp
  have "int (length (blob_code b)) \<ge> 64 + a * n" using pre unfolding b(1) by simp
  then have sz: "a * n \<le> 2 * 1024 * 1024" "0 \<le> a * n" using assms(2,4) a(2) by (simp_all add: ASSUMED_SZ_def)
  have d: "- (2 ^ 31) \<le> ?d" "?d < 2 ^ 31" "- (2 ^ 31) \<le> a * n" "a * n < 2 ^ 31" using sz by simp_all
  have "drop 59 (blob_code b) = ([0xe9] @ PUTQ (a * n)) @ put_loop n ?g @ put_loop n ?f @ [0xc3]"
    unfolding b' by (simp add: PUTN_def)
  from step_jmp32 [OF code_atI [OF this] d(3,4), of z c "[]"]
  have entry: "follow x86_step (blob_code b) [Jmp (a * n)] (call_at z c 59) = Some (st (int (length ?pre) + 0) z c [])"
    unfolding pre by (simp add: call_at_def algebra_simps)
  have "run_code x86_step (blob_code b) (length is) (call_at z c 59) = Some is"
  proof (rule run_blocks [where tr = "\<lambda>i. Call ?d # Ret # replicate (nat (a - 5)) Nop" and
        zs = "\<lambda>_. z" and cs = "\<lambda>_. c" and before = "[Jmp (a * n)]", OF b(1) len(1) _ entry _ assms(5)])
    fix i r assume i: "i < nat n" and r: "r = int (length ?pre) + int i * int (nat a)" and "code_at (blob_code b) r (?f i)"
    then have "code_at (blob_code b) r (([0xe8] @ PUTQ ?d) @ PUTN 0x90 (a - 5))" unfolding append_assoc by blast
    then have f: "code_at (blob_code b) r ([0xe8] @ PUTQ ?d)" "code_at (blob_code b) (r + 5) (PUTN 0x90 (a - 5))"
      unfolding code_at_append [of _ _ "[0xe8] @ PUTQ ?d"] by simp_all
    have "code_at (blob_code b) (64 + int i * int (nat a)) ([0xc3] @ PUTN 0x90 (a - 1))"
      using code_at_loop [OF b' len(2) i] by simp
    then have ret: "code_at (blob_code b) (64 + int i * int (nat a)) [0xc3]" unfolding code_at_append by blast
    have "r + 5 + ?d = 64 + int i * int (nat a)" using r unfolding pre by simp
    then have "x86_step (blob_code b) (st r z c []) = Some (Call ?d, Some (st (64 + int i * int (nat a)) z c [r + 5]))"
      using step_call [OF f(1) d(1,2), of z c "[]"] by simp
    with step_ret [OF ret, of z c "r + 5" "[]"] follow_nops [OF f(2), of z c "[]"] a(2)
    show "follow x86_step (blob_code b) (Call ?d # Ret # replicate (nat (a - 5)) Nop) (st (r + 0) z c []) =
        Some (st (r + int (nat a) + 0) z c [])"
      by (simp add: algebra_simps)
  next
    show "code_at (blob_code b) (int (length ?pre) + int (nat n) * int (nat a) + 0) [0xc3]"
      using code_at_end [OF b(1) len(1)] by simp
  qed
  then show ?thesis by (simp add: blob_exec_def b(2))
qed

section \<open>Warming up\<close>

text \<open>Every gadget starts with instructions that do nothing and a return, and ends with a return.\<close>

definition framed :: "blob \<Rightarrow> bool" where
  "framed b \<longleftrightarrow> (\<exists>k rest rest'. blob_code b = PUTN 0x90 k @ [0xc3] @ rest \<and> k \<le> 63 \<and>
     drop (ptr_ret b) (blob_code b) = [0xc3] @ rest')"

lemma framedI:
  assumes "code = PUTN 0x90 k @ [0xc3] @ rest" "k \<le> 63"
  shows "framed \<lparr>blob_code = code @ 0xc3 # rest', ptr_fn = f, ptr_ret = length code\<rparr>"
proof -
  have "code @ 0xc3 # rest' = PUTN 0x90 k @ [0xc3] @ (rest @ 0xc3 # rest')" using assms(1) by simp
  then show ?thesis using assms(2) unfolding framed_def by auto
qed

lemmas fill_defs = fill_call_dedicated_ret_def fill_forward_call_without_ret_def fill_call_shared_ret_def
  fill_jne_never_taken_def fill_je_always_taken_def fill_jmp_weaved_def fill_jmp_def fill_inc_def

lemma fill_framed:
  "framed (fill_call_dedicated_ret a n)" "framed (fill_forward_call_without_ret a n)" "framed (fill_jne_never_taken d a n)"
  "framed (fill_je_always_taken a n)" "framed (fill_jmp_weaved a n)" "framed (fill_jmp a n)" "framed (fill_inc a n)"
  unfolding fill_defs Let_def by (rule framedI, simp only: append_assoc, simp)+

lemma fill_shared_framed: "framed (fill_call_shared_ret a n)"
proof -
  let ?code = "(PUTN 0x90 62 @ [0xc3, 0x90]) @
    put_loop (int (nat n)) (\<lambda>i. [0xe8] @ PUTQ (- (int i * int (5 + nat (a - 5))) - 7) @ PUTN 0x90 (a - 5))"
  have h: "length (PUTN 0x90 62 @ [0xc3, 0x90]) = 64" by simp
  have "fill_call_shared_ret a n = \<lparr>blob_code = ?code @ [0xc3], ptr_fn = 64, ptr_ret = length ?code\<rparr>"
    using shared_code [OF h refl, of a "nat n"] h unfolding fill_call_shared_ret_def Let_def by (simp only:)
  moreover have "?code = PUTN 0x90 62 @ [0xc3] @ drop 63 ?code" by (simp add: PUTN_def)
  ultimately show ?thesis using framedI [of ?code 62 "drop 63 ?code" "[]" 64] by (simp only: order.refl)
qed

lemma gadget_of_simps:
  "gadget_of a n ''call_dedicated_ret'' = Some (fill_call_dedicated_ret a n)"
  "gadget_of a n ''forward_call_without_ret'' = Some (fill_forward_call_without_ret a n)"
  "gadget_of a n ''call_shared_ret'' = Some (fill_call_shared_ret a n)"
  "gadget_of a n ''jne_never_taken'' = Some (fill_jne_never_taken 0xfe a n)"
  "gadget_of a n ''jne_never_taken_backward'' = Some (fill_jne_never_taken (0xfe - a) a n)"
  "gadget_of a n ''jne_never_taken_forward'' = Some (fill_jne_never_taken (0xfe + (a + 1)) a n)"
  "gadget_of a n ''je_always_taken'' = Some (fill_je_always_taken a n)"
  "gadget_of a n ''jmp_weaved'' = Some (fill_jmp_weaved a n)"
  "gadget_of a n ''jmp'' = Some (fill_jmp a n)"
  "gadget_of a n ''inc'' = Some (fill_inc a n)"
  by (simp_all add: gadget_of_def)

lemma gadget_of_cases:
  assumes "gadget_of a n type = Some b"
  obtains "type = ''call_dedicated_ret''" "b = fill_call_dedicated_ret a n"
    | "type = ''forward_call_without_ret''" "b = fill_forward_call_without_ret a n"
    | "type = ''call_shared_ret''" "b = fill_call_shared_ret a n"
    | "type = ''jne_never_taken''" "b = fill_jne_never_taken 0xfe a n"
    | "type = ''jne_never_taken_backward''" "b = fill_jne_never_taken (0xfe - a) a n"
    | "type = ''jne_never_taken_forward''" "b = fill_jne_never_taken (0xfe + (a + 1)) a n"
    | "type = ''je_always_taken''" "b = fill_je_always_taken a n"
    | "type = ''jmp_weaved''" "b = fill_jmp_weaved a n"
    | "type = ''jmp''" "b = fill_jmp a n"
    | "type = ''inc''" "b = fill_inc a n"
  using assms unfolding gadget_of_def by (simp only: option.inject option.distinct split: if_split_asm)

lemma gadget_framed: "gadget_of a n type = Some b \<Longrightarrow> framed b"
  by (erule gadget_of_cases) (simp_all only: fill_framed fill_shared_framed)

lemma framed_warm:
  assumes "framed b"
  shows "\<exists>k. blob_warm_itlb 64 z c b = Some (replicate k Nop @ [Ret], [Ret])"
proof -
  obtain k rest rest' where b: "blob_code b = PUTN 0x90 k @ [0xc3] @ rest" "k \<le> 63" "drop (ptr_ret b) (blob_code b) = [0xc3] @ rest'"
    using assms unfolding framed_def by blast
  have "code_at (blob_code b) (int 0) (PUTN 0x90 k @ [0xc3])" using b(1) by (intro code_atI) simp
  then have f: "code_at (blob_code b) 0 (PUTN 0x90 k)" "code_at (blob_code b) (0 + int (nat k)) [0xc3]"
    unfolding code_at_append by simp_all
  have "run_code x86_step (blob_code b) (length (replicate (nat k) Nop) + 1) (st 0 z c []) = Some (replicate (nat k) Nop @ [Ret])"
    by (rule run_to_return [OF follow_nops [OF f(1)] step_return [OF f(2)]])
  then have w: "run_code x86_step (blob_code b) 64 (st 0 z c []) = Some (replicate (nat k) Nop @ [Ret])"
    by (rule run_more) (use b(2) in simp)
  have "run_code x86_step (blob_code b) (Suc 63) (call_at z c (ptr_ret b)) = Some [Ret]"
    using step_return [OF code_atI [OF b(3)], of z c] by (simp only: run_code.simps call_at_def option.case prod.case)
  then show ?thesis using w by (auto simp: blob_warm_itlb_def call_at_def eval_nat_numeral)
qed

section \<open>Theorem\<close>

text \<open>
  What each gadget is to execute, for the alignments it is made for: an 8-bit jump cannot skip more than 127 bytes,
  and a taken branch needs room for itself.
\<close>

definition gadget_trace :: "int \<Rightarrow> int \<Rightarrow> string \<Rightarrow> instr list option" where
  "gadget_trace a n type =
     (let times = (\<lambda>f. concat (map f [0..<nat n])); nops = (\<lambda>k. replicate (nat k) Nop);
          jne = (\<lambda>d. [Mov_ecx 1, Dec_ecx] @ times (\<lambda>_. Jne (sint (word_of_int d :: u8)) # nops (a - 2)) @ [Ret])
      in if type = ''call_dedicated_ret'' then
           Some ([Jmp (max 5 a * n)] @ times (\<lambda>_. Call (- (max 5 a) * n - 5) # Ret # nops (max 5 a - 5)) @ [Ret])
         else if type = ''forward_call_without_ret'' \<and> a < 2 ^ 31 then
           Some (times (\<lambda>_. [Call (max 0 (a - 9)), Add_rsp 8]) @ [Ret])
         else if type = ''call_shared_ret'' then
           Some (times (\<lambda>i. Call (- (int i * int (5 + nat (a - 5))) - 7) # Ret # nops (a - 5)) @ [Ret])
         else if type = ''jne_never_taken'' then Some (jne 0xfe)
         else if type = ''jne_never_taken_backward'' then Some (jne (0xfe - a))
         else if type = ''jne_never_taken_forward'' then Some (jne (0xfe + (a + 1)))
         else if type = ''je_always_taken'' \<and> near a then
           Some ([Mov_ecx 1, Dec_ecx] @ times (\<lambda>_. [Je (a - 2)]) @ [Ret])
         else if type = ''jmp_weaved'' \<and> near a then Some (times (\<lambda>_. [Jmp (a - 2)]) @ [Ret])
         else if type = ''jmp'' \<and> near (max 2 a) then Some (times (\<lambda>_. [Jmp (max 2 a - 2)]) @ [Ret])
         else if type = ''inc'' then Some (times (\<lambda>_. Dec_ecx # nops (a - 2)) @ [Ret])
         else None)"

fun is_branch :: "instr \<Rightarrow> bool" where
  "is_branch (Jmp _) = True"
| "is_branch (Call _) = True"
| "is_branch (Je _) = True"
| "is_branch (Jne _) = True"
| "is_branch _ = False"

lemma trace_simps:
  "gadget_trace a n ''call_dedicated_ret'' = Some ([Jmp (max 5 a * n)] @ concat (map (\<lambda>_. Call (- (max 5 a) * n - 5) # Ret # replicate (nat (max 5 a - 5)) Nop) [0..<nat n]) @ [Ret])"
  "gadget_trace a n ''forward_call_without_ret'' = (if a < 2 ^ 31 then Some (concat (map (\<lambda>_. [Call (max 0 (a - 9)), Add_rsp 8]) [0..<nat n]) @ [Ret]) else None)"
  "gadget_trace a n ''call_shared_ret'' = Some (concat (map (\<lambda>i. Call (- (int i * int (5 + nat (a - 5))) - 7) # Ret # replicate (nat (a - 5)) Nop) [0..<nat n]) @ [Ret])"
  "gadget_trace a n ''jne_never_taken'' = Some ([Mov_ecx 1, Dec_ecx] @ concat (map (\<lambda>_. Jne (sint (word_of_int 0xfe :: u8)) # replicate (nat (a - 2)) Nop) [0..<nat n]) @ [Ret])"
  "gadget_trace a n ''jne_never_taken_backward'' = Some ([Mov_ecx 1, Dec_ecx] @ concat (map (\<lambda>_. Jne (sint (word_of_int (0xfe - a) :: u8)) # replicate (nat (a - 2)) Nop) [0..<nat n]) @ [Ret])"
  "gadget_trace a n ''jne_never_taken_forward'' = Some ([Mov_ecx 1, Dec_ecx] @ concat (map (\<lambda>_. Jne (sint (word_of_int (0xfe + (a + 1)) :: u8)) # replicate (nat (a - 2)) Nop) [0..<nat n]) @ [Ret])"
  "gadget_trace a n ''je_always_taken'' = (if near a then Some ([Mov_ecx 1, Dec_ecx] @ concat (map (\<lambda>_. [Je (a - 2)]) [0..<nat n]) @ [Ret]) else None)"
  "gadget_trace a n ''jmp_weaved'' = (if near a then Some (concat (map (\<lambda>_. [Jmp (a - 2)]) [0..<nat n]) @ [Ret]) else None)"
  "gadget_trace a n ''jmp'' = (if near (max 2 a) then Some (concat (map (\<lambda>_. [Jmp (max 2 a - 2)]) [0..<nat n]) @ [Ret]) else None)"
  "gadget_trace a n ''inc'' = Some (concat (map (\<lambda>_. Dec_ecx # replicate (nat (a - 2)) Nop) [0..<nat n]) @ [Ret])"
  by (simp_all add: gadget_trace_def Let_def)

lemma trace_branches:
  assumes "gadget_of a n type = Some b" "gadget_trace a n type = Some is"
  shows "type = ''inc'' \<or> length (filter is_branch is) = nat n + (if type = ''call_dedicated_ret'' then 1 else 0)"
  using assms(1)
proof (cases rule: gadget_of_cases)
qed (use assms(2) in \<open>auto simp: trace_simps length_filter_times [where k = 1] split: if_split_asm\<close>)

lemma gadget_exec:
  assumes "gadget_of a n type = Some b" "length (blob_code b) \<le> ASSUMED_SZ" "0 \<le> n" "gadget_trace a n type = Some is"
  shows "blob_exec (length is) z c b = Some is"
  using assms(1)
proof (cases rule: gadget_of_cases)
  case 1
  have "is = [Jmp (max 5 a * n)] @ concat (map (\<lambda>_. Call (- (max 5 a) * n - 5) # Ret # replicate (nat (max 5 a - 5)) Nop) [0..<nat n]) @ [Ret]"
    using assms(4) by (simp only: 1(1) trace_simps option.inject)
  from exec_call_dedicated [OF 1(2) assms(2) refl assms(3) this] show ?thesis .
next
  case 2
  then show ?thesis using assms(4) exec_forward_call [OF 2(2)] by (simp only: 2(1) trace_simps some_if)
next
  case 3
  then show ?thesis using assms(4) exec_call_shared [OF 3(2) assms(2) refl] by (simp only: 3(1) trace_simps option.inject)
next
  case 4
  then show ?thesis using assms(4) exec_jne [OF 4(2) refl] by (simp only: 4(1) trace_simps option.inject)
next
  case 5
  then show ?thesis using assms(4) exec_jne [OF 5(2) refl] by (simp only: 5(1) trace_simps option.inject)
next
  case 6
  then show ?thesis using assms(4) exec_jne [OF 6(2) refl] by (simp only: 6(1) trace_simps option.inject)
next
  case 7
  then show ?thesis using assms(4) exec_je [OF _ 7(2)] by (simp only: 7(1) trace_simps some_if)
next
  case 8
  then show ?thesis using assms(4) exec_weaved [OF _ 8(2), of "is" 0 z c]
    by (simp only: 8(1) trace_simps some_if blob_exec_def) simp
next
  case 9
  then show ?thesis using assms(4) exec_jmp [OF _ 9(2)] by (simp only: 9(1) trace_simps some_if)
next
  case 10
  then show ?thesis using assms(4) exec_inc [OF 10(2)] by (simp only: 10(1) trace_simps option.inject)
qed

lemma gadget_warm_icache:
  assumes "gadget_of a n type = Some b" "gadget_trace a n type = Some is" "blob_exec (length is) z c b = Some is"
  shows "blob_warm_icache (length is) z c b a type = Some (if type = ''jmp_weaved'' \<and> a < 4 then [] else is)"
proof -
  have "run_code x86_step (blob_code b) (length is) (call_at z c (ptr_fn b + 2)) = Some is" if "type = ''jmp_weaved''" "4 \<le> a"
    using assms(1,2) that exec_weaved [of a b n "is" 2 z c]
    by (simp only: that(1) trace_simps gadget_of_simps some_if option.inject) simp
  then show ?thesis using assms(3) by (simp add: blob_warm_icache_def blob_exec_def)
qed

text \<open>
  C12: for every type, and every alignment the type is made for, the code written runs from its entry to the return
  at its end, whatever the flag and the register hold, and executes exactly the instructions listed, of them as many
  branches as were asked for (and one jump to the calls, where the calls have returns of their own). The two warming
  runs return too: that through the ends of the code executes nothing else, that of the other half of the weaved
  jumps the same number of jumps.
\<close>

theorem gadget_returns:
  assumes "blob_fill_code a n type = Inr b" "0 \<le> n" "gadget_trace a n type = Some is"
  shows "blob_exec (length is) z c b = Some is \<and>
    (type = ''inc'' \<or> length (filter is_branch is) = nat n + (if type = ''call_dedicated_ret'' then 1 else 0)) \<and>
    (\<exists>k. blob_warm_itlb 64 z c b = Some (replicate k Nop @ [Ret], [Ret])) \<and>
    blob_warm_icache (length is) z c b a type = Some (if type = ''jmp_weaved'' \<and> a < 4 then [] else is)"
proof -
  have b: "gadget_of a n type = Some b" "length (blob_code b) \<le> ASSUMED_SZ"
    using assms(1) by (auto simp: blob_fill_code_def split: option.splits if_splits)
  have e: "blob_exec (length is) z c b = Some is" using gadget_exec [OF b assms(2,3)] .
  have "blob_warm_icache (length is) z c b a type = Some (if type = ''jmp_weaved'' \<and> a < 4 then [] else is)"
    by (rule gadget_warm_icache [OF b(1) assms(3) e])
  then show ?thesis
    using e trace_branches [OF b(1) assms(3)] framed_warm [OF gadget_framed [OF b(1)], of z c] by blast
qed

text \<open>Two jumps over two bytes each.\<close>

theorem gadget_returns_witness:
  "\<exists>b. blob_fill_code 4 2 ''jmp'' = Inr b \<and> blob_exec 3 False 0 b = Some [Jmp 2, Jmp 2, Ret]"
proof -
  have t: "gadget_trace 4 2 ''jmp'' = Some [Jmp 2, Jmp 2, Ret]"
    by (simp add: trace_simps near_def upt_rec)
  have f: "blob_fill_code 4 2 ''jmp'' = Inr (fill_jmp 4 2)"
    by (simp add: blob_fill_code_def gadget_of_simps fill_jmp_def ASSUMED_SZ_def put_loop_def upt_rec Let_def)
  have "blob_exec (length [Jmp 2, Jmp 2, Ret]) False 0 (fill_jmp 4 2) = Some [Jmp 2, Jmp 2, Ret]"
    by (rule conjunct1 [OF gadget_returns [OF f _ t]]) simp
  moreover have "length [Jmp 2, Jmp 2, Ret] = 3" by simp
  ultimately show ?thesis using f by metis
qed

end
