(* ===== verification/Branch_Main.thy ===== *)
theory Branch_Main
  imports Options Gadget_X86
begin

text \<open>
  \<open>2021-05-branch-prediction/main.c\<close> and the Linux half of \<open>perf.c\<close>: a program that writes a gadget, runs it twenty
  times, and prints for each run what it took for one branch. Here for x86-64, with the gadgets of \<open>Gadget_X86\<close>. The
  clock, the counters and the system calls are given by the environment.

  The theorem: what each of the twenty results is divided by, and how many branches were measured.
\<close>

section \<open>Counters\<close>

datatype bench_stop =
    Reexecuted
  | Error_exit
  | Aborted
  | Never_returns
  | Blob_stop blob_stop





text \<open>\<open>perf_stop\<close>: the result of \<open>read\<close> and the values it stored; \<open>numbers\<close> is a row of four.\<close>

definition perf_stop :: "int \<times> u64 list \<Rightarrow> u64 list \<Rightarrow> bench_stop + u64 list" where
  "perf_stop res numbers =
     (case res of (r, values) \<Rightarrow>
      if r < 1 then Inl Error_exit
      else if length values = 4 \<or> length values = 3 then
        let numbers = (if length values = 4 then numbers[1 := values ! 3] else numbers) in
        Inr (numbers[0 := values ! 0, 3 := values ! 1, 2 := values ! 2])
      else Inl Aborted)"

section \<open>Options\<close>

record settings =
  cycle_count :: int
  alignment :: int
  scramble_mode :: int
  cpu_number :: int
  gtype :: string
  repeats :: int
  use_perf :: int
  raw_counter :: int




section \<open>The measurement\<close>








text \<open>
  A line of the output: numbers, of which the first is divided by the second of the pair where one is given. The
  division and the text are those of floating-point numbers.
\<close>

definition line :: "settings \<Rightarrow> int \<Rightarrow> u64 list \<Rightarrow> (u64 \<times> int option) list" where
  "line s divisor numbers =
     (if use_perf s = 0 \<or> (use_perf s = 1 \<and> raw_counter s = 0) then [(numbers ! 0, Some divisor)]
      else if use_perf s = 1 \<and> raw_counter s \<noteq> 0 then [(numbers ! 3, None)]
      else [(numbers ! 0, Some divisor), (numbers ! 3, None), (numbers ! 2, None), (numbers ! 1, None)])"



section \<open>Runs that return\<close>









text \<open>
  With a raw counter it is the number of instructions that is printed: the value of the counter is stored in the
  second place of the row, the line takes the fourth.
\<close>

lemma raw_counter_not_printed:
  assumes "use_perf s = 1" "raw_counter s \<noteq> 0" "perf_stop (r, [cycles, instructions, missed, raw]) (replicate 4 0) = Inr numbers"
  shows "line s d numbers = [(instructions, None)]" "numbers ! 1 = raw"
  using assms by (auto simp: perf_stop_def line_def numeral_eq_Suc split: if_split_asm)

section \<open>Theorem\<close>







end
