(* ===== verification/Scm_Rights.thy ===== *)
theory Scm_Rights
  imports Net
begin

text \<open>
  \<open>2018-11-scm-rights/c/main.c\<close>: a server that looks at the first four bytes of each connection; one that begins
  with \<open>pass\<close> is handed to another process over a unix socket, the others are answered.

  Shown: what each connection gets, that the message handed over carries the descriptor of the connection, and
  that no descriptor is left open.
\<close>

section \<open>State\<close>

text \<open>
  \<open>replies\<close>: what was sent, in order: data and control message on the unix socket, or data on a connection. For a
  connection the results of its system calls; \<open>peeked\<close>: the result of \<open>recv\<close> and the bytes; \<open>stack\<close>: the bytes of
  the control buffer before they are written.
\<close>

datatype reply = Handed bytes bytes | Answered int bytes

record scm = net +
  replies :: "reply list"

record scm_conn =
  accepted :: int
  peeked :: "int \<times> bytes"
  unix_result :: int
  connect_result :: int
  stack :: bytes
  sendmsg_result :: int
  send_result :: int

definition send_reply :: "reply \<Rightarrow> (tcp_stop, scm, unit) prog" where
  "send_reply r = update (\<lambda>st. st\<lparr>replies := replies st @ [r]\<rparr>)"

section \<open>The program\<close>

definition connect_unix :: "scm_conn \<Rightarrow> (tcp_stop, scm, int) prog" where
  "connect_unix c =
     (let unix_sock = unix_result c in
      if unix_sock = -1 then ret (-1)
      else andthen (open_fd unix_sock)
        (if connect_result c = -1 then andthen (close_fd unix_sock) (ret (-1)) else ret unix_sock))"

definition SOL_SOCKET :: u32 where "SOL_SOCKET = 1"
definition SCM_RIGHTS :: u32 where "SCM_RIGHTS = 1"

text \<open>The header of a control message takes 16 bytes; \<open>CMSG_LEN(4)\<close> is 20, \<open>CMSG_SPACE(4)\<close> is 24.\<close>

definition cmsg_write :: "bytes \<Rightarrow> int \<Rightarrow> bytes" where
  "cmsg_write buf fd =
     array_write (array_write buf 0 (le_bytes 8 (20 :: u64) @ le_bytes 4 SOL_SOCKET @ le_bytes 4 SCM_RIGHTS))
       16 (le_bytes 4 (word_of_int fd :: u32))"

definition smile :: bytes where "smile = [58, 41]"

definition send_fd :: "scm_conn \<Rightarrow> int \<Rightarrow> (tcp_stop, scm, int) prog" where
  "send_fd c fd =
     (if sendmsg_result c = -1 then ret (-1)
      else andthen (send_reply (Handed smile (cmsg_write (stack c) fd))) (ret (sendmsg_result c)))"

text \<open>\<open>"pass"\<close> and \<open>"Hello from C!!!\n"\<close>.\<close>

definition pass :: bytes where "pass = [112, 97, 115, 115]"
definition hello :: bytes where
  "hello = [72, 101, 108, 108, 111, 32, 102, 114, 111, 109, 32, 67, 33, 33, 33, 10]"

definition handle :: "scm_conn \<Rightarrow> (tcp_stop, scm, unit) prog" where
  "handle c =
     (let tcp_conn = accepted c; n = fst (peeked c); buf = array_write (replicate 4 0) 0 (snd (peeked c)) in
      if n = 4 \<and> buf ! 0 = pass ! 0 \<and> buf ! 1 = pass ! 1 \<and> buf ! 2 = pass ! 2 \<and> buf ! 3 = pass ! 3 then
        bnd (connect_unix c) (\<lambda>unix_sock.
        if unix_sock = -1 then halt Failure
        else bnd (send_fd c tcp_conn) (\<lambda>err.
          andthen (close_fd unix_sock) (if err = -1 then halt Failure else ret ())))
      else if send_result c = -1 then halt Failure
      else send_reply (Answered tcp_conn (take (nat (send_result c)) hello)))"

text \<open>\<open>accept\<close> is not checked: a result of -1 is no descriptor, and the calls that follow it fail.\<close>

definition accept_any :: "int \<Rightarrow> (tcp_stop, scm, unit) prog" where
  "accept_any fd = (if fd < 0 then ret () else open_fd fd)"

fun scm_loop :: "scm_conn list \<Rightarrow> (tcp_stop, scm, unit) prog" where
  "scm_loop [] = halt Blocked"
| "scm_loop (c # cs) =
     andthen (accept_any (accepted c)) (andthen (handle c) (andthen (close_fd (accepted c)) (scm_loop cs)))"

definition scm_main :: "int \<Rightarrow> int \<Rightarrow> int \<Rightarrow> scm_conn list \<Rightarrow> (tcp_stop + unit) \<times> scm" where
  "scm_main server_sock bound listening cs =
     (if server_sock = -1 then halt Failure
      else andthen (open_fd server_sock)
        (if bound = -1 then halt Failure
         else if listening = -1 then halt Failure
         else scm_loop cs)) \<lparr>fds = [], replies = []\<rparr>"

section \<open>The control message\<close>

text \<open>How the other side reads it: the descriptor in a message of the right length, level and type.\<close>

definition rights :: "bytes \<Rightarrow> int option" where
  "rights m =
     (if (word_of_le (take 8 m) :: u64) = 20 \<and> (word_of_le (take 4 (drop 8 m)) :: u32) = SOL_SOCKET \<and>
         (word_of_le (take 4 (drop 12 m)) :: u32) = SCM_RIGHTS
      then Some (sint (word_of_le (take 4 (drop 16 m)) :: u32)) else None)"

lemma cmsg_carries:
  assumes "length buf = 24" "0 \<le> fd" "fd < 2 ^ 31"
  shows "rights (cmsg_write buf fd) = Some fd"
proof -
  have "cmsg_write buf fd = le_bytes 8 (20 :: u64) @ le_bytes 4 SOL_SOCKET @ le_bytes 4 SCM_RIGHTS @
      le_bytes 4 (word_of_int fd :: u32) @ drop 20 buf"
    using assms(1) by (simp add: cmsg_write_def array_write_def)
  moreover have "sint (word_of_int fd :: u32) = fd"
    using assms(2,3) by (simp add: int_word_sint)
  ultimately show ?thesis by (simp add: rights_def word_of_le_le_bytes)
qed

section \<open>Connections without errors\<close>

definition quiet :: "int \<Rightarrow> scm_conn \<Rightarrow> bool" where
  "quiet sd c \<longleftrightarrow> 0 \<le> accepted c \<and> accepted c \<noteq> sd \<and> fst (peeked c) = int (length (snd (peeked c))) \<and>
     length (snd (peeked c)) \<le> 4 \<and> 0 \<le> unix_result c \<and> unix_result c \<noteq> sd \<and> unix_result c \<noteq> accepted c \<and>
     connect_result c \<noteq> -1 \<and> sendmsg_result c \<noteq> -1 \<and> send_result c = 16"

definition reply_to :: "scm_conn \<Rightarrow> reply" where
  "reply_to c = (if snd (peeked c) = pass then Handed smile (cmsg_write (stack c) (accepted c))
     else Answered (accepted c) hello)"

lemma pass_iff:
  assumes "length xs \<le> 4"
  shows "int (length xs) = 4 \<and> array_write (replicate 4 0) 0 xs ! 0 = pass ! 0 \<and>
      array_write (replicate 4 0) 0 xs ! 1 = pass ! 1 \<and> array_write (replicate 4 0) 0 xs ! 2 = pass ! 2 \<and>
      array_write (replicate 4 0) 0 xs ! 3 = pass ! 3 \<longleftrightarrow> xs = pass"
proof -
  have "length xs = 4 \<Longrightarrow> \<exists>a b c d. xs = [a, b, c, d]" by (auto simp: numeral_eq_Suc length_Suc_conv)
  then show ?thesis using assms by (auto simp: array_write_def pass_def)
qed

lemma handle_quiet:
  assumes "quiet sd c" "fds st = [sd, accepted c]"
  shows "handle c st = (Inr (), st\<lparr>replies := replies st @ [reply_to c]\<rparr>)"
proof -
  have p: "length (snd (peeked c)) \<le> 4" "fst (peeked c) = int (length (snd (peeked c)))"
    using assms(1) by (simp_all add: quiet_def)
  show ?thesis
    using assms unfolding handle_def Let_def p(2) pass_iff [OF p(1)] reply_to_def
    by (auto simp: quiet_def Let_def connect_unix_def send_fd_def send_reply_def open_fd_def close_fd_def prog_simps hello_def)
qed

lemma scm_loop_quiet:
  assumes "\<forall>c \<in> set cs. quiet sd c" "fds st = [sd]"
  shows "scm_loop cs st = (Inl Blocked, st\<lparr>replies := replies st @ map reply_to cs\<rparr>)"
  using assms
proof (induction cs arbitrary: st)
  case (Cons c cs)
  then have q: "quiet sd c" by simp
  let ?st = "st\<lparr>fds := [sd, accepted c]\<rparr>"
  have "accept_any (accepted c) st = (Inr (), ?st)"
    using q Cons.prems(2) by (simp add: accept_any_def quiet_def open_fd_def prog_simps)
  moreover have "handle c ?st = (Inr (), ?st\<lparr>replies := replies st @ [reply_to c]\<rparr>)"
    using handle_quiet [OF q, of ?st] by simp
  moreover have "close_fd (accepted c) (?st\<lparr>replies := replies st @ [reply_to c]\<rparr>) =
      (Inr (), st\<lparr>replies := replies st @ [reply_to c]\<rparr>)"
    using q Cons.prems(2) by (simp add: close_fd_def prog_simps quiet_def)
  moreover have "scm_loop cs (st\<lparr>replies := replies st @ [reply_to c]\<rparr>) =
      (Inl Blocked, st\<lparr>replies := (replies st @ [reply_to c]) @ map reply_to cs\<rparr>)"
    using Cons.IH [of "st\<lparr>replies := replies st @ [reply_to c]\<rparr>"] Cons.prems by simp
  ultimately show ?case by (simp add: prog_simps)
qed (simp add: prog_simps)

text \<open>
  When no call fails every connection is handed over or answered, by its first four bytes, and the only
  descriptor open is the listening socket.
\<close>

lemma scm_dispatches:
  assumes "sd \<noteq> -1" "bound \<noteq> -1" "listening \<noteq> -1" "\<forall>c \<in> set cs. quiet sd c"
  shows "scm_main sd bound listening cs = (Inl Blocked, \<lparr>fds = [sd], replies = map reply_to cs\<rparr>)"
  using assms scm_loop_quiet [OF assms(4), of "\<lparr>fds = [sd], replies = []\<rparr>"]
  by (simp add: scm_main_def open_fd_def prog_simps)

text \<open>A connection whose four bytes arrive in two packets is answered here, not handed over.\<close>

lemma split_pass_answered:
  assumes "quiet sd c" "snd (peeked c) = take 2 pass"
  shows "reply_to c = Answered (accepted c) hello"
  using assms by (simp add: reply_to_def pass_def)

end
