(* ===== verification/Dram_Refresh.thy ===== *)
theory Dram_Refresh
  imports Prelude
begin

text \<open>
  \<open>2018-11-memory-refresh/measure-dram.c\<close> and \<open>measure-dram-movntdqa.c\<close>: programs that read one place of memory again
  and again, past the caches, and print when each read ended and how long it took; a longer one is one that met a
  refresh of the memory. The reads themselves change nothing; the clock is a list of its values.

  Shown: the times printed are the sums of the durations printed, also where the counters wrap around.
\<close>

datatype dram_stop = Reexecuted | Failed | Spinning

text \<open>\<open>TIMESPEC_NSEC\<close>.\<close>

definition realtime_now :: "u64 \<times> u64 \<Rightarrow> u64" where
  "realtime_now ts = fst ts * 1000000000 + snd ts"

text \<open>The number of values of the clock that were read in the first second, and those that are left.\<close>

fun spin :: "u64 \<Rightarrow> nat \<Rightarrow> (u64 \<times> u64) list \<Rightarrow> dram_stop + nat \<times> (u64 \<times> u64) list" where
  "spin rt0 i [] = Inl Spinning"
| "spin rt0 i (ts # clock) =
     (let rt1 = realtime_now ts in if rt1 - rt0 > 1000000000 then Inr (i, clock) else spin rt0 (i + 1) clock)"

definition DELTAS_SZ :: nat where "DELTAS_SZ = 32768 * 4"

fun measure_loop :: "u64 \<Rightarrow> u64 \<Rightarrow> (u64 \<times> u64) list \<Rightarrow> (u32 \<times> u32) list" where
  "measure_loop base rt0 [] = []"
| "measure_loop base rt0 (ts # clock) =
     (let rt1 = realtime_now ts; td = rt1 - rt0 in (ucast (rt1 - base), ucast td) # measure_loop base rt1 clock)"

text \<open>
  The results of \<open>personality\<close>, of \<open>sched_setaffinity\<close>, of \<open>mmap\<close>, and in the second program of opening
  \<open>/dev/mem\<close> and of mapping it; \<open>None\<close> is \<open>MAP_FAILED\<close>.
\<close>

record dram_env =
  persona :: u32
  affinity_result :: int
  mmap_result :: "nat option"
  clock :: "(u64 \<times> u64) list"

record uncached_env = dram_env +
  mem_fd :: int
  uptr :: "nat option"

definition prepare :: "'a dram_env_scheme \<Rightarrow> dram_stop + nat" where
  "prepare env =
     (if \<not> bit (persona env) 18 then Inl Reexecuted
      else if affinity_result env = -1 then Inl Failed
      else case mmap_result env of None \<Rightarrow> Inl Failed | Some addr \<Rightarrow> Inr addr)"

definition map_uncached :: "uncached_env \<Rightarrow> nat \<Rightarrow> dram_stop + nat" where
  "map_uncached env addr =
     (if mem_fd env < 0 then Inl Failed else case uptr env of None \<Rightarrow> Inl Failed | Some a \<Rightarrow> Inr a)"

text \<open>From the clock on the programs differ only in the read. The first result is the divisor of the first report.\<close>

definition work :: "(u64 \<times> u64) list \<Rightarrow> dram_stop + nat \<times> (u32 \<times> u32) list" where
  "work ts =
     (case ts of [] \<Rightarrow> Inl Spinning
      | t # ts \<Rightarrow> rbind (spin (realtime_now t) 0 ts) (\<lambda>(i, ts).
          (case ts of [] \<Rightarrow> Inl Spinning
           | t # ts \<Rightarrow>
               if length ts < DELTAS_SZ then Inl Spinning
               else let base = realtime_now t in Inr (i, measure_loop base base (take DELTAS_SZ ts)))))"

definition measure_dram :: "dram_env \<Rightarrow> dram_stop + nat \<times> (u32 \<times> u32) list" where
  "measure_dram env = rbind (prepare env) (\<lambda>addr. work (clock env))"

definition measure_dram_movntdqa :: "uncached_env \<Rightarrow> dram_stop + nat \<times> (u32 \<times> u32) list" where
  "measure_dram_movntdqa env = rbind (prepare env) (\<lambda>addr. rbind (map_uncached env addr) (\<lambda>addr. work (clock env)))"

section \<open>The numbers printed\<close>

lemma ucast_add_64: "(ucast (a + b :: u64) :: u32) = ucast a + ucast b"
proof -
  have "take_bit 32 (take_bit 64 x + take_bit 64 y) = take_bit 32 (x + y)" for x y :: int
  proof -
    have "take_bit 32 (take_bit 64 x + take_bit 64 y) =
        take_bit 32 (take_bit 32 (take_bit 64 x) + take_bit 32 (take_bit 64 y))"
      by (simp only: take_bit_add)
    also have "\<dots> = take_bit 32 (x + y)" by (simp add: take_bit_add)
    finally show ?thesis .
  qed
  then show ?thesis by transfer simp
qed

lemma ucast_diff_add: "(ucast (a - b :: u64) :: u32) + ucast (c - a) = ucast (c - b)"
  by (simp add: ucast_add_64 [symmetric])

lemma measure_loop_sums:
  "i < length ts \<Longrightarrow>
     fst (measure_loop base rt0 ts ! i) = ucast (rt0 - base) + sum_list (map snd (take (Suc i) (measure_loop base rt0 ts)))"
proof (induction ts arbitrary: rt0 i)
  case (Cons t ts)
  let ?r = "realtime_now t"
  have e: "ucast (rt0 - base) + (ucast (?r - rt0) :: u32) = ucast (?r - base)" by (rule ucast_diff_add)
  show ?case
  proof (cases i)
    case (Suc j)
    then have "fst (measure_loop base ?r ts ! j) =
        ucast (?r - base) + sum_list (map snd (take (Suc j) (measure_loop base ?r ts)))"
      using Cons by simp
    then show ?thesis using Suc by (simp add: Let_def e [symmetric] add.assoc)
  qed (simp add: Let_def e)
qed simp

lemma measure_loop_length: "length (measure_loop base rt0 ts) = length ts"
  by (induction ts arbitrary: rt0) (simp_all add: Let_def)

lemma work_sums:
  assumes "work ts = Inr (n, deltas)"
  shows "length deltas = DELTAS_SZ"
    and "i < DELTAS_SZ \<Longrightarrow> fst (deltas ! i) = sum_list (map snd (take (Suc i) deltas))"
proof -
  obtain b us where d: "deltas = measure_loop b b us" "length us = DELTAS_SZ"
    using assms by (fastforce simp: work_def rbind_def Let_def split: list.splits sum.splits if_splits)
  show "length deltas = DELTAS_SZ" using d by (simp add: measure_loop_length)
  show "i < DELTAS_SZ \<Longrightarrow> fst (deltas ! i) = sum_list (map snd (take (Suc i) deltas))"
    using measure_loop_sums [of i us b b] d by simp
qed

text \<open>The first second: the loop ends at the first value of the clock that is more than a second after \<open>rt0\<close>.\<close>

lemma spin_ends:
  assumes "spin rt0 i ts = Inr (n, us)"
  shows "\<exists>m t. ts = take m ts @ t # us \<and> n = i + m \<and> realtime_now t - rt0 > 1000000000 \<and>
    (\<forall>s \<in> set (take m ts). realtime_now s - rt0 \<le> 1000000000)"
  using assms
proof (induction rt0 i ts rule: spin.induct)
  case (2 rt0 i t ts)
  show ?case
  proof (cases "realtime_now t - rt0 > 1000000000")
    case True
    then show ?thesis using 2(2) by (auto intro!: exI [of _ 0])
  next
    case False
    then obtain m u where "ts = take m ts @ u # us" "n = i + 1 + m" "realtime_now u - rt0 > 1000000000"
        "\<forall>s \<in> set (take m ts). realtime_now s - rt0 \<le> 1000000000"
      using 2 by (auto simp: Let_def)
    then show ?thesis using False by (intro exI [of _ "Suc m"] exI [of _ u]) auto
  qed
qed simp

end
