(* ===== verification/Tail_Calls.thy ===== *)
theory Tail_Calls
  imports Prelude
begin

text \<open>
  \<open>2022-10-bpf-tail-call\<close>: the Fibonacci numbers without and with tail calls (\<open>fib_okay.c\<close>, \<open>fib_cool.c\<close>),
  and the programs for the kernel that end with a call of another one. The two functions are equal, sums taken
  modulo $2^{64}$; which of two values the programs return depends on whether the other one was loaded.
\<close>

section \<open>Fibonacci numbers\<close>

lemma unat_less_one: "(n :: u64) \<noteq> 0 \<Longrightarrow> unat (n - 1) < unat n"
  by (metis measure_unat)

lemma unat_less_two: "(n :: u64) \<noteq> 0 \<Longrightarrow> n \<noteq> 1 \<Longrightarrow> unat (n - 2) < unat n"
proof -
  assume n: "n \<noteq> 0" "n \<noteq> 1"
  then have "n - 1 \<noteq> 0" by simp
  then have "unat (n - 1 - 1) < unat (n - 1)" by (rule unat_less_one)
  then show ?thesis using unat_less_one [OF n(1)] by simp
qed

function fib_okay :: "u64 \<Rightarrow> u64" where
  "fib_okay n = (if n = 0 \<or> n = 1 then 1 else fib_okay (n - 1) + fib_okay (n - 2))"
  by pat_completeness auto
termination by (relation "measure unat") (auto intro: unat_less_one unat_less_two)

function fib_tail :: "u64 \<Rightarrow> u64 \<Rightarrow> u64 \<Rightarrow> u64" where
  "fib_tail n a b = (if n = 0 then a else if n = 1 then b else fib_tail (n - 1) b (a + b))"
  by pat_completeness auto
termination by (relation "measure (\<lambda>(n, _). unat n)") (auto intro: unat_less_one)

declare fib_okay.simps [simp del] fib_tail.simps [simp del]

definition fib_cool :: "u64 \<Rightarrow> u64" where
  "fib_cool n = fib_tail n 1 1"

text \<open>The numbers themselves.\<close>

fun fib :: "nat \<Rightarrow> u64" where
  "fib 0 = 1"
| "fib (Suc 0) = 1"
| "fib (Suc (Suc k)) = fib (Suc k) + fib k"

lemma unat_pred: "n \<noteq> 0 \<Longrightarrow> unat n = Suc (unat (n - 1 :: u64))"
  by (metis Suc_pred' unat_gt_0 unat_minus_one)

lemma fib_okay_fib: "fib_okay n = fib (unat n)"
proof (induction n rule: fib_okay.induct)
  case (1 n)
  show ?case
  proof (cases "n = 0 \<or> n = 1")
    case True
    then show ?thesis by (auto simp: fib_okay.simps [of n])
  next
    case False
    then have "unat n = Suc (unat (n - 1))" by (intro unat_pred) simp
    moreover have "n - 1 \<noteq> 0" using False by simp
    then have "unat (n - 1) = Suc (unat (n - 1 - 1))" by (rule unat_pred)
    moreover have "n - 1 - 1 = n - 2" by (metis diff_diff_eq one_add_one)
    ultimately have "unat n = Suc (Suc (unat (n - 2)))" "unat (n - 1) = Suc (unat (n - 2))" by (simp_all only:)
    then show ?thesis using 1 [OF False] False by (simp add: fib_okay.simps [of n])
  qed
qed

lemma fib_tail_fib: "fib_tail n (fib k) (fib (Suc k)) = fib (unat n + k)"
proof (induction "unat n" arbitrary: n k)
  case 0
  then have "n = 0" by (simp add: unat_eq_zero)
  then show ?case by (simp add: fib_tail.simps)
next
  case (Suc m)
  then have n: "n \<noteq> 0" by auto
  show ?case
  proof (cases "n = 1")
    case True
    then show ?thesis by (simp add: fib_tail.simps)
  next
    case False
    have "m = unat (n - 1)" using Suc(2) unat_pred [OF n] by simp
    then have "fib_tail (n - 1) (fib (Suc k)) (fib (Suc (Suc k))) = fib (unat (n - 1) + Suc k)"
      by (rule Suc(1))
    then show ?thesis using n False unat_pred [OF n] by (simp add: fib_tail.simps [of n] add.commute)
  qed
qed

lemma fibs_equal: "fib_cool n = fib_okay n"
  using fib_tail_fib [of n 0] by (simp add: fib_cool_def fib_okay_fib)

section \<open>Programs that end with a call of another program\<close>

text \<open>
  A program maps the packet to its result. The table of programs has one slot, an argument: the program a loader
  put into it, if there is one. \<open>bpf_tail_call\<close> with a program in the slot runs that in place of the function that
  calls it: its result is the result of this function, and the statements that follow are not reached.
\<close>

type_synonym 'skb program = "'skb \<Rightarrow> u32"

definition bpf_tail_call :: "'skb \<Rightarrow> 'skb program option \<Rightarrow> u32 \<Rightarrow> u32" where
  "bpf_tail_call skb slot rest = (case slot of None \<Rightarrow> rest | Some p \<Rightarrow> p skb)"

definition sub_call_ex1_sub_func :: "'skb program" where
  "sub_call_ex1_sub_func skb = 0xf00d"

definition sub_call_ex1_entry_prog :: "'skb program" where
  "sub_call_ex1_entry_prog skb = sub_call_ex1_sub_func skb"

definition target_prog :: "'skb program" where
  "target_prog skb = 0xcafe"

definition ex1_entry_prog :: "'skb program option \<Rightarrow> 'skb program" where
  "ex1_entry_prog jmp_table skb = bpf_tail_call skb jmp_table 0xf00d"

definition ex2_sub_func :: "'skb program option \<Rightarrow> 'skb program" where
  "ex2_sub_func jmp_table skb = bpf_tail_call skb jmp_table 0xf00d"

definition ex2_entry_prog :: "'skb program option \<Rightarrow> 'skb program" where
  "ex2_entry_prog jmp_table skb = ex2_sub_func jmp_table skb"

definition barista :: "'skb program" where
  "barista skb = 0xcafe"

definition bring_order :: "'skb program option \<Rightarrow> 'skb program" where
  "bring_order bar skb = bpf_tail_call skb bar 0xf00d"

definition server1 :: "'skb program option \<Rightarrow> 'skb program" where
  "server1 bar skb = bring_order bar skb"

definition server2 :: "'skb program option \<Rightarrow> 'skb program" where
  "server2 bar skb = bring_order bar skb"

lemma tail_calls_return:
  "sub_call_ex1_entry_prog skb = 0xf00d"
  "ex1_entry_prog (Some target_prog) skb = 0xcafe" "ex1_entry_prog None skb = 0xf00d"
  "ex2_entry_prog (Some target_prog) skb = 0xcafe" "ex2_entry_prog None skb = 0xf00d"
  "server1 (Some barista) skb = 0xcafe" "server1 None skb = 0xf00d" "server2 bar skb = server1 bar skb"
  by (simp_all add: sub_call_ex1_entry_prog_def sub_call_ex1_sub_func_def ex1_entry_prog_def ex2_entry_prog_def
      ex2_sub_func_def target_prog_def barista_def bring_order_def server1_def server2_def bpf_tail_call_def)

end
