(* ===== verification/Spec2Isabelle.thy ===== *)
theory Spec2Isabelle
  imports Mmuniq_Hash Mmuniq_Bloom Mmuniq_Output Loader1 Loader4_3 Mmdist_Inv_Avx2 Fuzz_Main
    Echo_Naive Echo_Splice Echo_Iosubmit Echo_Sockmap Burst Packet_Filters Udp_Connect Udp_Sink Alu32 Gadget_Arm Branch_Main
    Scm_Rights Dram_Refresh Tail_Calls
begin

text \<open>
  \<^bold>\<open>What this is.\<close> A model, with proofs, of C programs of the repository: each of its directories holds
  the code of one article, and the programs of different directories share nothing but copies of a few
  functions. Modelled are the directories whose code is an algorithm or a system of its own:

  \<^item> \<open>2020-02-mmuniq\<close>: three filters that print each distinct line once: \<open>mmuniq-hash.c\<close> (a hash table of
    fixed size), \<open>mmuniq-bloom.c\<close> (a Bloom filter), \<open>mmuniq.c\<close> (a hash table that is resized, with
    vectorised search for the ends of lines and a queue of pending lines); the hash \<open>csiphash.c\<close>.
  \<^item> \<open>2021-03-obj-file\<close>: five versions of a loader that maps the sections of an object file, relocates its
    code and calls the functions of it; 1 to 3 for x86-64, 4/2 and 4/3 for AArch64.
  \<^item> \<open>2020-12-mmdist\<close>: six programs that find the nearest of many vectors of 144 bytes, from a plain loop
    to AVX2 code over a transposed copy, with their input functions.
  \<^item> \<open>2019-07-kernel-fuzzing/src\<close>: a fuzzer of the netlink sockets of Linux that is driven by AFL.
  \<^item> \<open>2019-02-tcp-splice\<close>: four TCP echo servers, by \<open>read\<close> and \<open>send\<close>, by \<open>splice\<close>, by a ring of completions,
    and by programs in the kernel attached to a map of sockets; \<open>test-burst.c\<close>, which measures them; \<open>net.c\<close>.
  \<^item> \<open>2019-01-io-submit\<close>: two programs that read and poll with the asynchronous input of Linux.
  \<^item> \<open>2018-07-dropping-packets\<close>: six programs that receive UDP packets and drop them, and a filter for XDP;
    \<open>2015-12-nm-single-rx-queue\<close>: a filter over a netmap ring; \<open>2019-04-ebpf-alu32\<close>: socket filters that
    subtract; \<open>2022-02-connectx/ebpf_connect4\<close>: a program that guards \<open>connect\<close>; \<open>2022-10-bpf-tail-call\<close>:
    programs that end with a call of another one, and the Fibonacci numbers with and without a tail call.
  \<^item> \<open>2021-05-branch-prediction\<close>: a program that writes machine code for x86-64 or AArch64 with many branches,
    runs it, and prints the time for one branch.
  \<^item> \<open>2018-11-scm-rights/c\<close>: a server that hands connections to another process;
    \<open>2018-11-memory-refresh\<close>: two programs that time reads of memory.

  \<^bold>\<open>Conventions.\<close> C integers are words of their width (\<open>Prelude\<close>); a C array is the list of its elements,
  and every access is checked against its length. A computation that can stop returns \<open>Inl\<close> of the cause
  (a fault, \<open>abort\<close>, \<open>exit\<close>, a division by zero, the overflow of a counter of type \<open>int\<close>) or \<open>Inr\<close> of its result; \<open>rbind\<close> is sequencing. What the
  operating system returns is an argument: a list of the results of the calls in their order, or a record
  of results. Loops are recursive functions that end; the loop of \<open>mmuniq-hash.c\<close> and \<open>mmuniq-bloom.c\<close> that
  sizes the table may run for ever and is a \<open>partial_function\<close> into \<open>option\<close>. A server takes the list of its
  connections, and waits (\<open>Blocked\<close>) when it is at its end. The loops that a signal interrupts are inductive step
  relations.

  \<^bold>\<open>The theories.\<close>

  \<^item> \<open>Prelude\<close>: words, \<open>rbind\<close>, little-endian objects, writes into an array, the collections \<open>byte_simps\<close>,
    \<open>array_simps\<close>, \<open>result_simps\<close>. \<open>Simd\<close>: vectors as lists of lanes, the compare and movemask idiom.
    \<open>Options\<close>: \<open>optstring_from_long_options\<close> and \<open>atoll\<close>, of which several directories hold copies.
  \<^item> \<open>Siphash\<close>: \<open>siphash24\<close> of \<open>csiphash.c\<close> and the functions of \<open>2019-07-kernel-fuzzing/src/siphash.c\<close>; both
    are proved equal to a reference SipHash-c-d over padded messages.
  \<^item> \<open>Dedup\<close>: the locales a duplicate filter is built on. \<open>Hash_Table\<close> (\<open>hash_insert\<close> and the resize of
    \<open>mmuniq.c\<close>) interprets them and is proved to refine a set of hashes. \<open>Line_Loop\<close>: the \<open>read\<close> loop of
    the two small filters; \<open>Mmuniq_Hash\<close> and \<open>Mmuniq_Bloom\<close>: these programs, their output as a function of
    the lines of the input. \<open>Mmuniq\<close>: \<open>mmuniq.c\<close>; \<open>Mmuniq_Output\<close>: it writes and reads only inside of its
    buffers, but for the last load of the vectorised search, which reaches up to 15 bytes behind the buffer (they
    are an argument of the model, without which that load is a fault); and what it prints when the table is not
    resized and every \<open>write\<close> is complete.
  \<^item> \<open>Memory\<close>: bytes and page protections, \<open>mmap\<close>, \<open>mprotect\<close>, checked loads and stores. \<open>Elf\<close>: the file and
    its tables, as all loaders read them. \<open>Sections\<close>: the parts of \<open>parse_obj\<close> common to the loaders, with the
    invariant that no page is writable and executable. \<open>Jump_Table\<close>: external functions. \<open>Elf_File\<close> and
    \<open>Example_Object\<close>: files described by their contents, and the one the witnesses use. \<open>Loader1\<close>, \<open>Loader2\<close>,
    \<open>Loader3\<close>, \<open>Aarch64\<close>, \<open>Loader4_2\<close>, \<open>Loader4_3\<close>: the programs; the theorems say what the loaded code is,
    that calls and data references reach their targets, and where the AArch64 relocations do not.
  \<^item> \<open>Mmdist_Input\<close>: \<open>to_hex\<close>, \<open>parse_hex\<close>, \<open>mmdist_load\<close>, the generator; \<open>Mmdist_Kernels\<close>: the distance
    functions, equal to the squared distance; \<open>Mmdist_Search\<close>: the programs with one query at a time, in
    batches, and with a comparison of a prefix; \<open>Mmdist_Inv\<close> and \<open>Mmdist_Inv_Avx2\<close>: those over the transposed
    copy. The specification \<open>nearest\<close>/\<open>answer\<close> is shared, and every program is proved to print the answers.

  \<^item> \<open>Fuzz_State\<close>: the state of the fuzzer and computations that keep it when they end the program.
    \<open>Fuzz_Services\<close>: \<open>forksrv.c\<close>, \<open>kcov.c\<close> and \<open>namespace.c\<close>; \<open>Fuzz_Coverage\<close>: the loop that fills the coverage
    map; \<open>Fuzz_Main\<close>: \<open>main\<close> of \<open>fuzznetlink.c\<close>. A round of its loop takes the results of its system calls from
    a record. The theorems: the conversation with AFL under all results, no fault under the contract of the
    kernel's buffers, and what a run does in which no call fails, round by round, up to the overflow of the number of rounds.

  \<^item> \<open>Computation\<close>: computations over a state that keep it when they end the program. \<open>Net\<close>: \<open>net.c\<close>, parsing and
    printing of addresses (a round trip) and sockets. \<open>Aio_Ring\<close>: the ring of completions, its two readers and the
    programs of \<open>2019-01-io-submit\<close>; it is proved to be a queue. \<open>Echo\<close>: what the echo servers share, with the
    contract of a server; \<open>Echo_Naive\<close>, \<open>Echo_Splice\<close>, \<open>Echo_Iosubmit\<close>: the servers. The theorems: what is
    sent is what was received, in its order, under all results of the calls, and which part of it; without failing
    calls nothing is lost. \<open>Tbpf\<close> and \<open>Echo_Sockmap\<close>: the calls of \<open>bpf\<close> and the server in the kernel. \<open>Burst\<close>: \<open>test-burst.c\<close>,
    the bytes it accounts for and the end of its loop.
  \<^item> \<open>Udp_Sink\<close>: the six programs of \<open>2018-07-dropping-packets\<close> as step relations in which the counters are
    loaded into registers and stored, and the signal handler runs, between any two steps; nothing received is lost, and
    counted twice is exactly what the handler printed between the load of a counter and its store.
    \<open>Packet_Filters\<close>: the filters for XDP and netmap, with checked reads of the packet; \<open>Alu32\<close>: the filters of
    \<open>2019-04-ebpf-alu32\<close>, all equal by the C source; \<open>Udp_Connect\<close>: when sockets are connected one after another, no packet is for two that
    were checked, which are those bound to a full address and port;
    \<open>Tail_Calls\<close>: \<open>2022-10-bpf-tail-call\<close>, the two functions equal.
  \<^item> \<open>Gadget_Run\<close>: blocks of machine code and what running them means, over a step of a machine. \<open>Gadget_X86\<close> and
    \<open>Gadget_Arm\<close>: the two halves of \<open>gadget.c\<close>, each with a decoder and a machine for its instructions; the code of
    each type returns, and executes as many branches as were asked for. \<open>Branch_Main\<close>: the program, for x86-64.
  \<^item> \<open>Scm_Rights\<close> and \<open>Dram_Refresh\<close>: the programs of \<open>2018-11-scm-rights/c\<close> and \<open>2018-11-memory-refresh\<close>.

  \<^bold>\<open>Interfaces.\<close> \<open>Dedup\<close> states what a filter needs of its set of keys, \<open>Line_Loop\<close> what the \<open>read\<close> loop needs of
  the handling of a line; \<open>Mmdist_Search\<close> what a search needs of one comparison (\<open>searcher\<close>) and the batch
  loop of a search (\<open>batch_program\<close>), \<open>Mmdist_Inv\<close> what the search by blocks needs of a block
  (\<open>block_program\<close>); \<open>Echo\<close> what a server needs of the function that serves one connection (\<open>echo_server\<close>,
  \<open>echo_relation\<close>, and \<open>echo_outcome\<close> on top of it); \<open>Udp_Sink\<close> what the loop of a sink keeps of its counters (\<open>counting_loop\<close>). All are
  interpreted on the definitions of the programs.

  \<^bold>\<open>Bounds.\<close> The machines of \<open>Gadget_Run\<close> take a number of steps; the theorems show that the length of the list of
  instructions to be executed is enough, and 64 for the runs that warm up. A gadget is made for the alignments its
  branches can span: one byte of offset on x86-64 for the short jumps, 19 and 26 bits on AArch64 (the byte written
  for the jumps there reaches 1020). \<open>Burst\<close> is proved for bursts below $2^{47}$ bytes, \<open>Mmuniq_Output\<close> for
  inputs of at most $2^{51}$ bytes, \<open>Mmuniq_Bloom\<close> for at most $2^{31} - 8$ positions of a line, the run of
  \<open>Fuzz_Main\<close> for less than $2^{31}$ rounds, the reach of external calls in \<open>Loader3\<close> and \<open>Loader4_3\<close> for blocks smaller
  than 2 GB and 128 MB. Products that C computes as \<open>int\<close> are not cut (\<open>item * 289\<close> and \<open>144 * items\<close> of
  \<open>Mmdist_Input\<close>, which is the model of files smaller than 2 GB; \<open>repeats * cycle_count\<close> of \<open>Branch_Main\<close>): programs that
  overflow them are undefined.

  \<^bold>\<open>Not modelled.\<close> Floating-point arithmetic (parameters where a result depends on it), the text of messages on
  the standard error, the machine code of the loaded objects (a parameter of the loaders), running out of
  memory where the code does not check for it. Of the directories with C programs: \<open>bpf.h\<close> and \<open>bpf_helpers.h\<close> of
  \<open>2019-02-tcp-splice\<close> are headers of the kernel, without code; the \<open>obj.c\<close> files are the data of the loaders; of
  \<open>2021-05-branch-prediction\<close> the mappings of huge pages (\<open>blob_alloc\<close>), the half of \<open>perf.c\<close> for macOS, which
  calls a private library, and \<open>scramble_btb\<close>, which is generated; of \<open>2015-12-nm-single-rx-queue\<close> what is outside
  of the filter and its loop, which calls netmap; \<open>2021-10-gso-encap-crash\<close> returns a constant. The other
  directories hold no C programs: scripts, configurations, dashboards and programs in other languages.
\<close>

end
